(* ===== verification/Sparo_Prelude.thy ===== *)
theory Sparo_Prelude
  imports Main "HOL-Library.Multiset" "HOL-Library.Word"
begin

text \<open>
  Shared vocabulary of the development: type synonyms for the machine integers
  of the code, the view of a circular array as a list (\<open>ring_elems\<close>), and the
  lemmas on lists and circular indices the containers, the task queues and the
  thread pools all rest on.  The collection \<open>ring_simps\<close> holds the rewrite
  rules for circular arrays.
\<close>

named_theorems ring_simps \<open>rewriting of circular-array views\<close>

type_synonym u8 = "8 word"
type_synonym u16 = "16 word"
type_synonym u32 = "32 word"
type_synonym u64 = "64 word"

section \<open>Circular arrays\<close>

text \<open>The \<open>n\<close> cells of \<open>buf\<close> read from index \<open>s\<close> with wrap-around.\<close>

definition ring_elems :: "'a list \<Rightarrow> nat \<Rightarrow> nat \<Rightarrow> 'a list" where
  "ring_elems buf s n = map (\<lambda>i. buf ! ((s + i) mod length buf)) [0..<n]"

text \<open>The distance from index \<open>b\<close> forward to index \<open>e\<close> in an array of
  \<open>c\<close> cells.\<close>

definition ring_dist :: "nat \<Rightarrow> nat \<Rightarrow> nat \<Rightarrow> nat" where
  "ring_dist b e c = (if b \<le> e then e - b else c - b + e)"

lemma length_ring_elems [simp]: "length (ring_elems buf s n) = n"
  by (simp add: ring_elems_def)

lemma ring_elems_0 [simp]: "ring_elems buf s 0 = []"
  by (simp add: ring_elems_def)

lemma nth_ring_elems:
  "i < n \<Longrightarrow> ring_elems buf s n ! i = buf ! ((s + i) mod length buf)"
  by (simp add: ring_elems_def)

lemma ring_elems_mod_start:
  "ring_elems buf (s mod length buf) n = ring_elems buf s n"
  by (simp add: ring_elems_def mod_simps)

lemma ring_elems_Suc:
  "ring_elems buf s (Suc n) = ring_elems buf s n @ [buf ! ((s + n) mod length buf)]"
  by (simp add: ring_elems_def)

lemma ring_elems_Cons:
  "ring_elems buf s (Suc n) = buf ! (s mod length buf) # ring_elems buf (Suc s) n"
  by (rule nth_equalityI)
    (auto simp: nth_ring_elems nth_Cons less_Suc_eq_0_disj split: nat.splits)

lemma mod_add_inject:
  fixes s i j c :: nat
  assumes "i < c" "j < c" "(s + i) mod c = (s + j) mod c"
  shows "i = j"
  using assms
proof (induction i j rule: linorder_wlog)
  case (le i j)
  then have "c dvd (s + j) - (s + i)"
    by (metis add_le_mono le_refl mod_eq_dvd_iff_nat)
  with le show ?case
    by (auto dest: dvd_imp_le)
qed auto

lemma ring_elems_update_outside:
  assumes "n < length buf"
  shows "ring_elems (buf[(s + n) mod length buf := x]) s n = ring_elems buf s n"
proof (rule nth_equalityI)
  fix i assume "i < length (ring_elems (buf[(s + n) mod length buf := x]) s n)"
  with assms have "i < n" "i < length buf" by auto
  moreover have "(s + n) mod length buf \<noteq> (s + i) mod length buf"
    using assms calculation mod_add_inject [of i "length buf" n s] by auto
  ultimately show "ring_elems (buf[(s + n) mod length buf := x]) s n ! i = ring_elems buf s n ! i"
    by (simp add: nth_ring_elems)
qed simp

lemma ring_elems_snoc [ring_simps]:
  assumes "n < length buf"
  shows "ring_elems (buf[(s + n) mod length buf := x]) s (Suc n) = ring_elems buf s n @ [x]"
proof -
  have "(s + n) mod length buf < length buf"
    by (rule mod_less_divisor) (use assms in linarith)
  then show ?thesis
    by (simp add: ring_elems_Suc ring_elems_update_outside [OF assms])
qed

lemma ring_elems_cong:
  assumes "length buf = length buf'"
    and "\<And>i. i < n \<Longrightarrow> buf ! ((s + i) mod length buf) = buf' ! ((s + i) mod length buf)"
  shows "ring_elems buf s n = ring_elems buf' s n"
  using assms by (simp add: ring_elems_def)

lemma ring_elems_tl: "0 < n \<Longrightarrow> tl (ring_elems buf s n) = ring_elems buf (Suc s) (n - 1)"
  by (cases n) (simp_all add: ring_elems_Cons)

lemma ring_elems_hd: "0 < n \<Longrightarrow> hd (ring_elems buf s n) = buf ! (s mod length buf)"
  by (cases n) (simp_all add: ring_elems_Cons)

lemma ring_elems_take: "m \<le> n \<Longrightarrow> take m (ring_elems buf s n) = ring_elems buf s m"
  by (rule nth_equalityI) (auto simp: nth_ring_elems)

lemma ring_elems_drop: "drop m (ring_elems buf s n) = ring_elems buf (s + m) (n - m)"
  by (rule nth_equalityI) (auto simp: nth_ring_elems add.assoc)

lemma ring_elems_append:
  "ring_elems buf s (m + n) = ring_elems buf s m @ ring_elems buf (s + m) n"
  using append_take_drop_id [of m "ring_elems buf s (m + n)"]
  by (simp add: ring_elems_take ring_elems_drop)

lemma ring_elems_straight:
  "s + n \<le> length buf \<Longrightarrow> ring_elems buf s n = take n (drop s buf)"
  by (rule nth_equalityI) (auto simp: nth_ring_elems)

lemma ring_dist_mod:
  assumes "b < c" "e < c"
  shows "ring_dist b e c = (e + c - b) mod c"
  using assms by (auto simp: ring_dist_def mod_if)

lemma ring_dist_less: "b < c \<Longrightarrow> e < c \<Longrightarrow> ring_dist b e c < c"
  by (auto simp: ring_dist_def)

lemma ring_dist_add: "b < c \<Longrightarrow> e < c \<Longrightarrow> (b + ring_dist b e c) mod c = e"
  by (auto simp: ring_dist_def)

lemma ring_dist_unique: "b < c \<Longrightarrow> n < c \<Longrightarrow> ring_dist b ((b + n) mod c) c = n"
  by (auto simp: ring_dist_def mod_if)

lemma ring_dist_shift:
  assumes "b < c" "i < c" "k < c"
  shows "ring_dist ((b + i) mod c) ((b + k) mod c) c = (if i \<le> k then k - i else c - i + k)"
proof -
  let ?x = "if i \<le> k then k - i else c - i + k"
  have "b + i + ?x = b + k \<or> b + i + ?x = b + k + c" using assms by auto
  then have "(b + k) mod c = ((b + i) mod c + ?x) mod c"
    by (metis mod_add_left_eq mod_add_self2)
  moreover have "?x < c" "(b + i) mod c < c" using assms by auto
  ultimately show ?thesis by (metis ring_dist_unique)
qed

lemma ring_dist_0_iff: "b < c \<Longrightarrow> e < c \<Longrightarrow> ring_dist b e c = 0 \<longleftrightarrow> b = e"
  by (auto simp: ring_dist_def)

section \<open>Options\<close>

lemma case_optionD: "(case x of None \<Rightarrow> False | Some y \<Rightarrow> P y) \<Longrightarrow> \<exists>y. x = Some y \<and> P y"
  by (cases x) auto

section \<open>Sums over lists under an update\<close>

lemma sum_list_map_update:
  fixes f :: "'a \<Rightarrow> 'b::cancel_comm_monoid_add"
  assumes "i < length xs"
  shows "sum_list (map f (xs[i := y])) + f (xs ! i) = sum_list (map f xs) + f y"
  using assms
proof (induction xs arbitrary: i)
  case Nil
  then show ?case by simp
next
  case (Cons x xs)
  then show ?case by (cases i) (auto simp: ac_simps)
qed

lemma set_update_subset: "set (xs[i := y]) \<subseteq> insert y (set xs)"
  by (rule set_update_subset_insert)

end
