(* ===== verification/Queue_Interfaces.thy ===== *)
theory Queue_Interfaces
  imports Sparo_Prelude
begin

text \<open>
  The contracts the queue-like components of the code promise to their clients,
  as locales over an abstraction to lists: \<open>limited_fifo\<close> for the fixed-size rings
  that work for a limited number of calls (\<open>bounded-mpmc-queue.h\<close>, whose counters must
  stay in their signed range), \<open>bounded_fifo\<close> for the ones without such a limit
  (\<open>threadpool.c\<close>), \<open>fifo_queue\<close> for the
  growing queues (\<open>circular_deque.h\<close>, \<open>lazily_deallocated_deque.h\<close>), and
  \<open>double_ended\<close> for what a deque adds.  What a client gets from a contract
  (order of delivery, conservation of elements over any sequence of calls) is
  proved here once; each container interprets the locale it implements.
\<close>

section \<open>Running sequences of queue operations\<close>

datatype 'a queue_op = Put 'a | Get

text \<open>
  A run of a bounded queue: a \<open>Put\<close> that is refused and a \<open>Get\<close> that finds
  nothing leave the queue alone.  The run collects the accepted and the delivered
  elements in order.
\<close>

fun bounded_run ::
  "('a \<Rightarrow> 'q \<Rightarrow> 'q option) \<Rightarrow> ('q \<Rightarrow> ('a \<times> 'q) option) \<Rightarrow> 'a queue_op list \<Rightarrow> 'q
    \<Rightarrow> 'a list \<times> 'a list \<times> 'q" where
  "bounded_run enq deq [] q = ([], [], q)"
| "bounded_run enq deq (Put x # ops) q =
     (case enq x q of
        None \<Rightarrow> bounded_run enq deq ops q
      | Some q' \<Rightarrow> (case bounded_run enq deq ops q' of (ins, outs, r) \<Rightarrow> (x # ins, outs, r)))"
| "bounded_run enq deq (Get # ops) q =
     (case deq q of
        None \<Rightarrow> bounded_run enq deq ops q
      | Some (x, q') \<Rightarrow> (case bounded_run enq deq ops q' of (ins, outs, r) \<Rightarrow> (ins, x # outs, r)))"

text \<open>Popping \<open>n\<close> times, collecting the fronts.\<close>

fun drain :: "('q \<Rightarrow> 'a) \<Rightarrow> ('q \<Rightarrow> 'q) \<Rightarrow> nat \<Rightarrow> 'q \<Rightarrow> 'a list \<times> 'q" where
  "drain frnt pop 0 q = ([], q)"
| "drain frnt pop (Suc n) q =
     (case drain frnt pop n (pop q) of (xs, r) \<Rightarrow> (frnt q # xs, r))"

section \<open>Bounded first-in first-out queues\<close>

text \<open>The invariant says for how many more calls the promise is given.\<close>

locale limited_fifo =
  fixes inv :: "nat \<Rightarrow> 'q \<Rightarrow> bool"
    and elems :: "'q \<Rightarrow> 'a list"
    and cap :: "'q \<Rightarrow> nat"
    and enq :: "'a \<Rightarrow> 'q \<Rightarrow> 'q option"
    and deq :: "'q \<Rightarrow> ('a \<times> 'q) option"
  assumes inv_fewer: "inv (Suc n) q \<Longrightarrow> inv n q"
    and elems_cap: "inv n q \<Longrightarrow> length (elems q) \<le> cap q"
    and enq_full: "inv (Suc n) q \<Longrightarrow> length (elems q) = cap q \<Longrightarrow> enq x q = None"
    and enq_room: "inv (Suc n) q \<Longrightarrow> length (elems q) < cap q \<Longrightarrow>
      \<exists>q'. enq x q = Some q' \<and> inv n q' \<and> elems q' = elems q @ [x] \<and> cap q' = cap q"
    and deq_none: "inv (Suc n) q \<Longrightarrow> elems q = [] \<Longrightarrow> deq q = None"
    and deq_some: "inv (Suc n) q \<Longrightarrow> elems q = x # xs \<Longrightarrow>
      \<exists>q'. deq q = Some (x, q') \<and> inv n q' \<and> elems q' = xs \<and> cap q' = cap q"
begin

lemma enq_cases:
  assumes "inv (Suc n) q"
  obtains (full) "length (elems q) = cap q" "enq x q = None" "inv n q"
  | (room) q' where "length (elems q) < cap q" "enq x q = Some q'" "inv n q'"
      "elems q' = elems q @ [x]" "cap q' = cap q"
  using assms elems_cap enq_full enq_room inv_fewer by (metis nat_less_le)

lemma deq_cases:
  assumes "inv (Suc n) q"
  obtains (none) "elems q = []" "deq q = None" "inv n q"
  | (some) x xs q' where "elems q = x # xs" "deq q = Some (x, q')" "inv n q'"
      "elems q' = xs" "cap q' = cap q"
  using assms deq_none deq_some inv_fewer by (metis list.exhaust)

text \<open>Over any sequence of calls, what was delivered followed by what is still
  queued is what was queued at the start followed by what was accepted.\<close>

lemma limited_run_conserves:
  "inv (length ops + n) q \<Longrightarrow> bounded_run enq deq ops q = (ins, outs, r) \<Longrightarrow>
     inv n r \<and> cap r = cap q \<and> outs @ elems r = elems q @ ins"
proof (induction ops arbitrary: q ins outs r)
  case Nil
  then show ?case by simp
next
  case (Cons op ops)
  then have i: "inv (Suc (length ops + n)) q" by simp
  show ?case
  proof (cases op)
    case (Put x)
    from i show ?thesis
      by (cases rule: enq_cases [where x = x])
        (use Cons Put in \<open>auto split: prod.splits\<close>)
  next
    case Get
    from i show ?thesis
      by (cases rule: deq_cases) (use Cons Get in \<open>auto split: prod.splits\<close>)
  qed
qed

end

locale bounded_fifo =
  fixes inv :: "'q \<Rightarrow> bool"
    and elems :: "'q \<Rightarrow> 'a list"
    and cap :: "'q \<Rightarrow> nat"
    and enq :: "'a \<Rightarrow> 'q \<Rightarrow> 'q option"
    and deq :: "'q \<Rightarrow> ('a \<times> 'q) option"
  assumes elems_cap: "inv q \<Longrightarrow> length (elems q) \<le> cap q"
    and enq_full: "inv q \<Longrightarrow> length (elems q) = cap q \<Longrightarrow> enq x q = None"
    and enq_room: "inv q \<Longrightarrow> length (elems q) < cap q \<Longrightarrow>
      \<exists>q'. enq x q = Some q' \<and> inv q' \<and> elems q' = elems q @ [x] \<and> cap q' = cap q"
    and deq_none: "inv q \<Longrightarrow> elems q = [] \<Longrightarrow> deq q = None"
    and deq_some: "inv q \<Longrightarrow> elems q = x # xs \<Longrightarrow>
      \<exists>q'. deq q = Some (x, q') \<and> inv q' \<and> elems q' = xs \<and> cap q' = cap q"

sublocale bounded_fifo \<subseteq> lim: limited_fifo "\<lambda>n. inv" elems cap enq deq
  by unfold_locales (fact elems_cap enq_full enq_room deq_none deq_some | assumption)+

context bounded_fifo
begin

lemma run_conserves:
  "inv q \<Longrightarrow> bounded_run enq deq ops q = (ins, outs, r) \<Longrightarrow>
     inv r \<and> cap r = cap q \<and> outs @ elems r = elems q @ ins"
  by (rule lim.limited_run_conserves)

end

section \<open>Growing queues\<close>

locale fifo_queue =
  fixes inv :: "'q \<Rightarrow> bool"
    and elems :: "'q \<Rightarrow> 'a list"
    and push :: "'q \<Rightarrow> 'a \<Rightarrow> 'q"
    and frnt :: "'q \<Rightarrow> 'a"
    and pop :: "'q \<Rightarrow> 'q"
  assumes push_inv: "inv q \<Longrightarrow> inv (push q x)"
    and push_elems: "inv q \<Longrightarrow> elems (push q x) = elems q @ [x]"
    and pop_inv: "inv q \<Longrightarrow> elems q \<noteq> [] \<Longrightarrow> inv (pop q)"
    and pop_elems: "inv q \<Longrightarrow> elems q \<noteq> [] \<Longrightarrow> elems (pop q) = tl (elems q)"
    and frnt_elems: "inv q \<Longrightarrow> elems q \<noteq> [] \<Longrightarrow> frnt q = hd (elems q)"
begin

lemma push_all: "inv q \<Longrightarrow> inv (foldl push q xs) \<and> elems (foldl push q xs) = elems q @ xs"
  by (induction xs arbitrary: q) (auto simp: push_inv push_elems)

lemma drain_elems:
  "inv q \<Longrightarrow> n \<le> length (elems q) \<Longrightarrow>
     \<exists>r. drain frnt pop n q = (take n (elems q), r) \<and> inv r \<and> elems r = drop n (elems q)"
proof (induction n arbitrary: q)
  case 0
  then show ?case by simp
next
  case (Suc n)
  then have ne: "elems q \<noteq> []" by auto
  with Suc.prems have "inv (pop q)" "n \<le> length (elems (pop q))"
    by (auto simp: pop_inv pop_elems)
  with Suc.IH obtain r where
    "drain frnt pop n (pop q) = (take n (elems (pop q)), r)" "inv r"
    "elems r = drop n (elems (pop q))" by blast
  with Suc.prems(1) ne show ?case
    by (cases "elems q") (auto simp: pop_elems frnt_elems)
qed

text \<open>What is pushed into an empty queue comes out whole and in order.\<close>

lemma push_drain:
  assumes "inv q" "elems q = []"
  shows "\<exists>r. drain frnt pop (length xs) (foldl push q xs) = (xs, r) \<and> inv r \<and> elems r = []"
  using drain_elems [of "foldl push q xs" "length xs"] push_all [of q xs] assms by auto

end

section \<open>Deques\<close>

locale double_ended = fifo_queue +
  fixes push_frnt :: "'q \<Rightarrow> 'a \<Rightarrow> 'q"
    and bck :: "'q \<Rightarrow> 'a"
    and pop_bck :: "'q \<Rightarrow> 'q"
  assumes push_frnt_inv: "inv q \<Longrightarrow> inv (push_frnt q x)"
    and push_frnt_elems: "inv q \<Longrightarrow> elems (push_frnt q x) = x # elems q"
    and pop_bck_inv: "inv q \<Longrightarrow> elems q \<noteq> [] \<Longrightarrow> inv (pop_bck q)"
    and pop_bck_elems: "inv q \<Longrightarrow> elems q \<noteq> [] \<Longrightarrow> elems (pop_bck q) = butlast (elems q)"
    and bck_elems: "inv q \<Longrightarrow> elems q \<noteq> [] \<Longrightarrow> bck q = last (elems q)"
begin

text \<open>Used as a stack from the front, the deque reverses what is pushed.\<close>

lemma push_frnt_all:
  "inv q \<Longrightarrow> inv (foldl push_frnt q xs) \<and> elems (foldl push_frnt q xs) = rev xs @ elems q"
  by (induction xs arbitrary: q) (auto simp: push_frnt_inv push_frnt_elems)

lemma push_pop_front:
  assumes "inv q"
  shows "elems (pop (push_frnt q x)) = elems q \<and> frnt (push_frnt q x) = x"
  using assms by (simp add: push_frnt_inv push_frnt_elems pop_elems frnt_elems)

lemma push_pop_back:
  assumes "inv q"
  shows "elems (pop_bck (push q x)) = elems q \<and> bck (push q x) = x"
  using assms by (simp add: push_inv push_elems pop_bck_elems bck_elems)

end

end
