(* ===== verification/Threadpool_C.thy ===== *)
theory Threadpool_C
  imports Queue_Interfaces
begin

unbundle bit_operations_syntax

text \<open>
  The C thread pool of \<open>src/third-party/threadpool.c\<close> and \<open>threadpool.h\<close>: the
  pool structure, \<open>threadpool_create\<close>, \<open>threadpool_enqueue\<close>,
  \<open>threadpool_destroy\<close>, \<open>threadpool_free\<close> and the worker loop
  \<open>threadpool_thread\<close> as functions on the structure, one critical section each.
  The results of \<open>malloc\<close> and of the pthread calls are arguments.  The concurrent
  behaviour is in \<open>Threadpool_Concurrent\<close>.
\<close>

section \<open>Data\<close>

text \<open>\<open>threadpool.h\<close>: limits, error codes and flags; the shutdown modes of
  \<open>threadpool.c\<close>.\<close>

definition MAX_THREADS :: int where "MAX_THREADS = 64"
definition MAX_QUEUE :: int where "MAX_QUEUE = 65536"

definition threadpool_invalid :: int where "threadpool_invalid = -1"
definition threadpool_lock_failure :: int where "threadpool_lock_failure = -2"
definition threadpool_queue_full :: int where "threadpool_queue_full = -3"
definition threadpool_shutdown :: int where "threadpool_shutdown = -4"
definition threadpool_thread_failure :: int where "threadpool_thread_failure = -5"

definition threadpool_graceful :: int where "threadpool_graceful = 1"

definition immediate_shutdown :: int where "immediate_shutdown = 1"
definition graceful_shutdown :: int where "graceful_shutdown = 2"

lemmas threadpool_codes =
  threadpool_invalid_def threadpool_lock_failure_def threadpool_queue_full_def
  threadpool_shutdown_def threadpool_thread_failure_def

lemmas shutdown_codes = immediate_shutdown_def graceful_shutdown_def

text \<open>The state of the pthread mutex and condition variable a pool embeds.\<close>

datatype mutex_state = MutexUninit | Unlocked | Locked
datatype cond_state = CondUninit | CondReady

text \<open>A task: a function pointer (never NULL once stored) and its argument.\<close>

record threadpool_task_t =
  tfunction :: nat
  targument :: nat

text \<open>
  The pool.  An array that \<open>malloc\<close> did not deliver is the empty list (NULL);
  a delivered one has the requested, positive length.  A cell never written is
  \<open>None\<close>.
\<close>

record threadpool_t =
  lock :: mutex_state
  notify :: cond_state
  threads :: "nat option list"
  queue :: "threadpool_task_t option list"
  thread_count :: int
  queue_size :: int
  head :: int
  tail :: int
  count :: int
  shutdown :: int
  started :: int

text \<open>Which waiting workers a call wakes.\<close>

datatype wakeup = WakeNone | WakeOne | WakeAll

section \<open>Freeing\<close>

text \<open>The calls \<open>threadpool_free\<close> makes, in order; locking records the state
  the mutex was in.\<close>

datatype free_call =
  FreeThreads | FreeQueue | LockMutex mutex_state | DestroyMutex | DestroyCond | FreePool

definition threadpool_free :: "threadpool_t option \<Rightarrow> int \<times> free_call list" where
  "threadpool_free pool =
     (case pool of
        None \<Rightarrow> (-1, [])
      | Some p \<Rightarrow>
          if started p > 0 then (-1, [])
          else (0,
            (if threads p \<noteq> [] then
               [FreeThreads, FreeQueue, LockMutex (lock p), DestroyMutex, DestroyCond]
             else []) @ [FreePool]))"

section \<open>Creating a pool\<close>

text \<open>What the allocator and pthread answer during \<open>threadpool_create\<close>.\<close>

record create_env =
  malloc_pool :: bool
  malloc_threads :: bool
  malloc_queue :: bool
  mutex_init_rc :: int
  cond_init_rc :: int
  create_rc :: "nat \<Rightarrow> int"

text \<open>
  How \<open>threadpool_create\<close> leaves: refused arguments, the \<open>err\<close> label (with what
  \<open>threadpool_free\<close> did), a thread that could not be started (the call goes on in
  \<open>threadpool_destroy(pool, 0)\<close> and returns NULL), or the pool.
\<close>

datatype create_outcome =
    CreateNull
  | CreateErr "threadpool_t option" "free_call list"
  | CreateDestroy threadpool_t
  | CreateOk threadpool_t

text \<open>The loop that starts the workers, from thread \<open>i\<close> on.\<close>

function start_workers :: "create_env \<Rightarrow> nat \<Rightarrow> nat \<Rightarrow> threadpool_t \<Rightarrow> create_outcome" where
  "start_workers env n i p =
     (if i < n then
        if create_rc env i \<noteq> 0 then CreateDestroy p
        else start_workers env n (Suc i)
               (p\<lparr>threads := (threads p)[i := Some i],
                  thread_count := thread_count p + 1,
                  started := started p + 1\<rparr>)
      else CreateOk p)"
  by pat_completeness auto
termination
  by (relation "measure (\<lambda>(env, n, i, p). n - i)") auto

declare start_workers.simps [simp del]

definition threadpool_create :: "create_env \<Rightarrow> int \<Rightarrow> int \<Rightarrow> int \<Rightarrow> create_outcome" where
  "threadpool_create env nthreads qsize flags =
     (if nthreads \<le> 0 \<or> nthreads > MAX_THREADS \<or> qsize \<le> 0 \<or> qsize > MAX_QUEUE then CreateNull
      else if \<not> malloc_pool env then CreateErr None []
      else
        let p = \<lparr>lock = (if mutex_init_rc env = 0 then Unlocked else MutexUninit),
                 notify = (if mutex_init_rc env = 0 \<and> cond_init_rc env = 0
                           then CondReady else CondUninit),
                 threads = (if malloc_threads env then replicate (nat nthreads) None else []),
                 queue = (if malloc_queue env then replicate (nat qsize) None else []),
                 thread_count = 0, queue_size = qsize,
                 head = 0, tail = 0, count = 0, shutdown = 0, started = 0\<rparr>
        in if mutex_init_rc env \<noteq> 0 \<or> cond_init_rc env \<noteq> 0 \<or> threads p = [] \<or> queue p = []
           then CreateErr (Some p) (snd (threadpool_free (Some p)))
           else start_workers env (nat nthreads) 0 p)"

section \<open>Enqueueing\<close>

text \<open>Return codes of the pthread calls a client makes.\<close>

record client_rc =
  rc_lock :: int
  rc_wake :: int
  rc_unlock :: int

abbreviation rc_ok :: client_rc where
  "rc_ok \<equiv> \<lparr>rc_lock = 0, rc_wake = 0, rc_unlock = 0\<rparr>"

text \<open>The body between lock and unlock.\<close>

definition enqueue_body ::
  "int \<Rightarrow> threadpool_task_t \<Rightarrow> threadpool_t \<Rightarrow> int \<times> threadpool_t \<times> wakeup" where
  "enqueue_body signal_rc t p =
     (let next = (tail p + 1) mod queue_size p in
      if count p = queue_size p then (threadpool_queue_full, p, WakeNone)
      else if shutdown p \<noteq> 0 then (threadpool_shutdown, p, WakeNone)
      else
        let p' = p\<lparr>queue := (queue p)[nat (tail p) := Some t],
                   tail := next, count := count p + 1\<rparr>
        in if signal_rc \<noteq> 0 then (threadpool_lock_failure, p', WakeNone)
           else (0, p', WakeOne))"

definition threadpool_enqueue ::
  "client_rc \<Rightarrow> threadpool_t option \<Rightarrow> nat option \<Rightarrow> nat \<Rightarrow> int
    \<Rightarrow> int \<times> threadpool_t option \<times> wakeup" where
  "threadpool_enqueue rc pool function argument flags =
     (case (pool, function) of
        (Some p, Some f) \<Rightarrow>
          if rc_lock rc \<noteq> 0 then (threadpool_lock_failure, Some p, WakeNone)
          else
            (case enqueue_body (rc_wake rc) \<lparr>tfunction = f, targument = argument\<rparr>
                    (p\<lparr>lock := Locked\<rparr>) of
               (err, p', w) \<Rightarrow>
                 if rc_unlock rc \<noteq> 0 then (threadpool_lock_failure, Some p', w)
                 else (err, Some (p'\<lparr>lock := Unlocked\<rparr>), w))
      | _ \<Rightarrow> (threadpool_invalid, pool, WakeNone))"

section \<open>Destroying\<close>

text \<open>
  \<open>threadpool_destroy\<close> up to the join loop: it either returns (with the mutex as
  it then is) or goes on to join.  An error before the unlock leaves through
  \<open>break\<close>, past the only unlock of the function.
\<close>

datatype destroy_phase = DestroyReturn int | DestroyJoin

definition destroy_begin ::
  "client_rc \<Rightarrow> threadpool_t option \<Rightarrow> int \<Rightarrow> destroy_phase \<times> threadpool_t option \<times> wakeup" where
  "destroy_begin rc pool flags =
     (case pool of
        None \<Rightarrow> (DestroyReturn threadpool_invalid, None, WakeNone)
      | Some p \<Rightarrow>
          if rc_lock rc \<noteq> 0 then (DestroyReturn threadpool_lock_failure, Some p, WakeNone)
          else if shutdown p \<noteq> 0 then
            (DestroyReturn threadpool_shutdown, Some (p\<lparr>lock := Locked\<rparr>), WakeNone)
          else
            let p' = p\<lparr>lock := Locked,
                       shutdown := (if flags AND threadpool_graceful \<noteq> 0
                                    then graceful_shutdown else immediate_shutdown)\<rparr>
            in if rc_wake rc \<noteq> 0 then (DestroyReturn threadpool_lock_failure, Some p', WakeNone)
               else if rc_unlock rc \<noteq> 0 then
                 (DestroyReturn threadpool_lock_failure, Some p', WakeAll)
               else (DestroyJoin, Some (p'\<lparr>lock := Unlocked\<rparr>), WakeAll))"

text \<open>The rest, once every worker has been joined with the given return codes.\<close>

definition destroy_finish :: "int list \<Rightarrow> threadpool_t \<Rightarrow> int \<times> free_call list" where
  "destroy_finish join_rcs p =
     (let err = (if \<exists>rc \<in> set join_rcs. rc \<noteq> 0 then threadpool_thread_failure else 0)
      in if err = 0 then (err, snd (threadpool_free (Some p))) else (err, []))"

section \<open>The worker\<close>

text \<open>What a worker does with the lock it holds: wait on the condition, leave the
  loop, or take the task at \<open>head\<close>.  Each way out releases the mutex.\<close>

datatype worker_act = WorkerWait | WorkerExit | WorkerRun "threadpool_task_t option"

definition threadpool_thread :: "threadpool_t \<Rightarrow> worker_act \<times> threadpool_t" where
  "threadpool_thread p =
     (if count p = 0 \<and> shutdown p = 0 then (WorkerWait, p\<lparr>lock := Unlocked\<rparr>)
      else if shutdown p = immediate_shutdown \<or> (shutdown p = graceful_shutdown \<and> count p = 0)
      then (WorkerExit, p\<lparr>started := started p - 1, lock := Unlocked\<rparr>)
      else (WorkerRun (queue p ! nat (head p)),
            p\<lparr>head := (head p + 1) mod queue_size p, count := count p - 1, lock := Unlocked\<rparr>))"

section \<open>Invariant and abstraction\<close>

text \<open>The tasks in the ring, oldest first.\<close>

definition ring_cells :: "threadpool_t \<Rightarrow> threadpool_task_t option list" where
  "ring_cells p = ring_elems (queue p) (nat (head p)) (nat (count p))"

definition pending :: "threadpool_t \<Rightarrow> threadpool_task_t list" where
  "pending p = map the (ring_cells p)"

definition pool_wf :: "threadpool_t \<Rightarrow> bool" where
  "pool_wf p \<longleftrightarrow>
     0 < queue_size p \<and> queue_size p \<le> MAX_QUEUE \<and> int (length (queue p)) = queue_size p \<and>
     0 \<le> head p \<and> head p < queue_size p \<and> 0 \<le> count p \<and> count p \<le> queue_size p \<and>
     tail p = (head p + count p) mod queue_size p \<and>
     shutdown p \<in> {0, immediate_shutdown, graceful_shutdown} \<and>
     None \<notin> set (ring_cells p)"

lemma pending_nil_iff: "pool_wf p \<Longrightarrow> pending p = [] \<longleftrightarrow> count p = 0"
  by (auto simp: pending_def ring_cells_def pool_wf_def simp flip: length_0_conv)

lemma length_pending: "pool_wf p \<Longrightarrow> int (length (pending p)) = count p"
  by (auto simp: pending_def ring_cells_def pool_wf_def)

lemma map_Some_the: "None \<notin> set xs \<Longrightarrow> map Some (map the xs) = xs"
  by (induction xs) auto

lemma ring_cells_pending: "pool_wf p \<Longrightarrow> ring_cells p = map Some (pending p)"
  unfolding pool_wf_def pending_def by (simp add: map_Some_the del: map_map)

lemma pool_wf_lock [simp]:
  "pool_wf (p\<lparr>lock := l\<rparr>) = pool_wf p"
  "pool_wf (p\<lparr>started := k\<rparr>) = pool_wf p"
  by (simp_all add: pool_wf_def ring_cells_def)

lemma pending_lock [simp]:
  "pending (p\<lparr>lock := l\<rparr>) = pending p"
  "pending (p\<lparr>started := k\<rparr>) = pending p"
  by (simp_all add: pending_def ring_cells_def)

text \<open>Writing the cell at \<open>tail\<close> appends to the pending tasks; stepping
  \<open>head\<close> removes the oldest.\<close>

lemma nat_tail:
  assumes "pool_wf p"
  shows "nat (tail p) = (nat (head p) + nat (count p)) mod length (queue p)"
proof -
  have "int (length (queue p)) = queue_size p" "0 \<le> head p" "0 \<le> count p"
    using assms by (auto simp: pool_wf_def)
  then show ?thesis
    using assms by (simp add: pool_wf_def nat_mod_distrib nat_add_distrib flip: \<open>int _ = _\<close>)
qed

lemma ring_cells_put:
  assumes wf: "pool_wf p" and room: "count p < queue_size p"
  shows "ring_cells (p\<lparr>queue := (queue p)[nat (tail p) := Some t],
           tail := t', count := count p + 1\<rparr>) = ring_cells p @ [Some t]"
proof -
  have n: "nat (count p) < length (queue p)" "nat (count p + 1) = Suc (nat (count p))"
    using wf room by (auto simp: pool_wf_def)
  show ?thesis
    by (simp add: ring_cells_def nat_tail [OF wf] n(2) ring_elems_snoc [OF n(1)])
qed

lemma pool_wf_put:
  assumes wf: "pool_wf p" and room: "count p < queue_size p"
  shows "pool_wf (p\<lparr>queue := (queue p)[nat (tail p) := Some t],
           tail := (tail p + 1) mod queue_size p, count := count p + 1\<rparr>)"
  unfolding pool_wf_def ring_cells_put [OF wf room]
  using wf room by (simp add: pool_wf_def mod_simps add.assoc)

lemma ring_cells_take:
  assumes wf: "pool_wf p" and some: "count p > 0"
  shows "ring_cells p = queue p ! nat (head p) #
           ring_cells (p\<lparr>head := (head p + 1) mod queue_size p, count := count p - 1\<rparr>)"
proof -
  have len: "int (length (queue p)) = queue_size p" and h: "0 \<le> head p" "head p < queue_size p"
    using wf by (auto simp: pool_wf_def)
  have "nat ((head p + 1) mod queue_size p) = Suc (nat (head p)) mod length (queue p)"
    using h by (simp add: nat_mod_distrib nat_add_distrib flip: len)
  moreover have "nat (count p) = Suc (nat (count p - 1))"
    using some by simp
  moreover have "nat (head p) mod length (queue p) = nat (head p)"
    using h by (simp flip: len)
  ultimately show ?thesis
    by (simp add: ring_cells_def ring_elems_Cons ring_elems_mod_start)
qed

lemma pool_wf_take:
  assumes wf: "pool_wf p" and some: "count p > 0"
  shows "pool_wf (p\<lparr>head := (head p + 1) mod queue_size p, count := count p - 1\<rparr>)"
proof -
  have "None \<notin> set (ring_cells (p\<lparr>head := (head p + 1) mod queue_size p, count := count p - 1\<rparr>))"
    using wf ring_cells_take [OF wf some] by (auto simp: pool_wf_def)
  then show ?thesis
    using wf some by (simp add: pool_wf_def mod_simps)
qed

lemma pending_take:
  assumes wf: "pool_wf p" and some: "count p > 0"
  shows "\<exists>t. queue p ! nat (head p) = Some t \<and>
    pending p = t # pending (p\<lparr>head := (head p + 1) mod queue_size p, count := count p - 1\<rparr>)"
proof -
  have "None \<notin> set (ring_cells p)"
    using wf by (simp add: pool_wf_def)
  then have "queue p ! nat (head p) \<noteq> None"
    by (metis ring_cells_take [OF wf some] list.set_intros(1))
  then show ?thesis
    by (auto simp: pending_def ring_cells_take [OF wf some])
qed

section \<open>The ring is a bounded FIFO queue\<close>

text \<open>A client that enqueues, and a worker that takes a task, with pthread calls
  that succeed.\<close>

definition pool_put :: "threadpool_task_t \<Rightarrow> threadpool_t \<Rightarrow> threadpool_t option" where
  "pool_put t p =
     (case threadpool_enqueue rc_ok (Some p) (Some (tfunction t)) (targument t) 0 of
        (err, p', w) \<Rightarrow> if err = 0 then p' else None)"

definition pool_take :: "threadpool_t \<Rightarrow> (threadpool_task_t \<times> threadpool_t) option" where
  "pool_take p =
     (case threadpool_thread (p\<lparr>lock := Locked\<rparr>) of
        (WorkerRun (Some t), p') \<Rightarrow> Some (t, p')
      | _ \<Rightarrow> None)"

lemma task_eta [simp]: "\<lparr>tfunction = tfunction t, targument = targument t\<rparr> = t"
  by simp

lemma enqueue_body_room:
  assumes "pool_wf p" "count p < queue_size p" "shutdown p = 0"
  shows "\<exists>p'. enqueue_body rc t p =
            (if rc = 0 then (0, p', WakeOne) else (threadpool_lock_failure, p', WakeNone)) \<and>
          pool_wf p' \<and> pending p' = pending p @ [t] \<and> lock p' = lock p \<and>
          queue_size p' = queue_size p \<and> shutdown p' = 0 \<and>
          started p' = started p \<and> thread_count p' = thread_count p \<and> threads p' = threads p"
  using assms pool_wf_put [OF assms(1,2), of t] ring_cells_put [OF assms(1,2)]
  by (auto simp: enqueue_body_def Let_def pending_def)

lemma thread_takes:
  assumes "pool_wf p" "count p > 0" "shutdown p \<noteq> immediate_shutdown"
  shows "\<exists>t p'. threadpool_thread p = (WorkerRun (Some t), p') \<and> pool_wf p' \<and>
          pending p = t # pending p' \<and> lock p' = Unlocked \<and> queue_size p' = queue_size p \<and>
          shutdown p' = shutdown p \<and> started p' = started p \<and>
          thread_count p' = thread_count p \<and> threads p' = threads p"
proof -
  from pending_take [OF assms(1,2)] obtain t where t: "queue p ! nat (head p) = Some t"
    "pending p = t # pending (p\<lparr>head := (head p + 1) mod queue_size p, count := count p - 1\<rparr>)"
    by blast
  show ?thesis
    using assms t pool_wf_take [OF assms(1,2)]
    by (auto simp: threadpool_thread_def)
qed

interpretation pool_ring: bounded_fifo
  "\<lambda>p. pool_wf p \<and> shutdown p = 0" pending "\<lambda>p. nat (queue_size p)" pool_put pool_take
proof (unfold_locales, goal_cases)
  case (1 q)
  then show ?case using length_pending [of q] by (auto simp: pool_wf_def)
next
  case (2 q x)
  then show ?case using length_pending [of q]
    by (auto simp: pool_put_def threadpool_enqueue_def enqueue_body_def threadpool_codes pool_wf_def)
next
  case (3 q x)
  then have "count q < queue_size q" using length_pending [of q] by auto
  then have "\<exists>p'. enqueue_body 0 x (q\<lparr>lock := Locked\<rparr>) = (0, p', WakeOne) \<and>
      pool_wf p' \<and> pending p' = pending q @ [x] \<and> shutdown p' = 0 \<and> queue_size p' = queue_size q"
    using 3 enqueue_body_room [of "q\<lparr>lock := Locked\<rparr>" 0 x] by auto
  then show ?case by (auto simp: pool_put_def threadpool_enqueue_def)
next
  case (4 q)
  then show ?case
    by (simp add: pool_take_def threadpool_thread_def pending_nil_iff)
next
  case (5 q x xs)
  then have "count q > 0" using length_pending [of q] by auto
  with 5 show ?case
    using thread_takes [of "q\<lparr>lock := Locked\<rparr>"]
    by (auto simp: pool_take_def shutdown_codes)
qed

section \<open>Properties of the single calls\<close>

lemma start_workers_ok:
  "(\<forall>j. i \<le> j \<and> j < n \<longrightarrow> create_rc env j = 0) \<Longrightarrow> i \<le> n \<Longrightarrow>
   \<exists>ths. length ths = length (threads p) \<and> start_workers env n i p =
     CreateOk (p\<lparr>threads := ths, thread_count := thread_count p + int (n - i),
                 started := started p + int (n - i)\<rparr>)"
proof (induction env n i p rule: start_workers.induct)
  case (1 env n i p)
  show ?case
  proof (cases "i < n")
    case True
    with 1 obtain ths where "length ths = length (threads p)"
      "start_workers env n (Suc i) (p\<lparr>threads := (threads p)[i := Some i],
                  thread_count := thread_count p + 1, started := started p + 1\<rparr>)
       = CreateOk (p\<lparr>threads := ths, thread_count := thread_count p + 1 + int (n - Suc i),
                     started := started p + 1 + int (n - Suc i)\<rparr>)"
      by auto
    then show ?thesis using 1(2) True
      by (intro exI [of _ ths]) (simp add: start_workers.simps [of env n i p] of_nat_diff algebra_simps)
  next
    case False
    with 1 show ?thesis
      by (intro exI [of _ "threads p"], subst start_workers.simps) simp
  qed
qed

lemma start_workers_fail:
  "i \<le> k \<Longrightarrow> k < n \<Longrightarrow> (\<forall>j. i \<le> j \<and> j < k \<longrightarrow> create_rc env j = 0) \<Longrightarrow> create_rc env k \<noteq> 0 \<Longrightarrow>
   \<exists>ths. length ths = length (threads p) \<and> start_workers env n i p =
     CreateDestroy (p\<lparr>threads := ths, thread_count := thread_count p + int (k - i),
                      started := started p + int (k - i)\<rparr>)"
proof (induction env n i p rule: start_workers.induct)
  case (1 env n i p)
  show ?case
  proof (cases "i = k")
    case True
    with 1 show ?thesis
      by (intro exI [of _ "threads p"], subst start_workers.simps) simp
  next
    case False
    with 1 obtain ths where "length ths = length (threads p)"
      "start_workers env n (Suc i) (p\<lparr>threads := (threads p)[i := Some i],
                  thread_count := thread_count p + 1, started := started p + 1\<rparr>)
       = CreateDestroy (p\<lparr>threads := ths, thread_count := thread_count p + 1 + int (k - Suc i),
                     started := started p + 1 + int (k - Suc i)\<rparr>)"
      by auto
    then show ?thesis using 1(2-5) False
      by (intro exI [of _ ths]) (simp add: start_workers.simps [of env n i p] of_nat_diff algebra_simps)
  qed
qed

text \<open>A pool as its creator gets it.\<close>

definition pool_fresh :: "threadpool_t \<Rightarrow> int \<Rightarrow> int \<Rightarrow> int \<Rightarrow> bool" where
  "pool_fresh p k n q \<longleftrightarrow>
     pool_wf p \<and> pending p = [] \<and> lock p = Unlocked \<and> notify p = CondReady \<and> shutdown p = 0 \<and>
     thread_count p = k \<and> started p = k \<and> int (length (threads p)) = n \<and> queue_size p = q"

definition args_ok :: "int \<Rightarrow> int \<Rightarrow> bool" where
  "args_ok n q \<longleftrightarrow> 0 < n \<and> n \<le> MAX_THREADS \<and> 0 < q \<and> q \<le> MAX_QUEUE"

definition allocs_ok :: "create_env \<Rightarrow> bool" where
  "allocs_ok env \<longleftrightarrow> malloc_pool env \<and> malloc_threads env \<and> malloc_queue env \<and>
     mutex_init_rc env = 0 \<and> cond_init_rc env = 0"

lemma pool_wf_init:
  "0 < q \<Longrightarrow> q \<le> MAX_QUEUE \<Longrightarrow>
   pool_wf \<lparr>lock = l, notify = c, threads = ths, queue = replicate (nat q) None, thread_count = k,
     queue_size = q, head = 0, tail = 0, count = 0, shutdown = 0, started = k'\<rparr>"
  by (simp add: pool_wf_def ring_cells_def)

lemma create_args_bad: "\<not> args_ok n q \<Longrightarrow> threadpool_create env n q fl = CreateNull"
  by (auto simp: threadpool_create_def args_ok_def)

lemma create_no_pool:
  "args_ok n q \<Longrightarrow> \<not> malloc_pool env \<Longrightarrow> threadpool_create env n q fl = CreateErr None []"
  by (auto simp: threadpool_create_def args_ok_def)

lemma create_alloc_bad:
  "args_ok n q \<Longrightarrow> malloc_pool env \<Longrightarrow> \<not> allocs_ok env \<Longrightarrow>
   \<exists>p fs. threadpool_create env n q fl = CreateErr (Some p) fs"
  by (auto simp: threadpool_create_def args_ok_def allocs_ok_def Let_def)

lemma create_starts:
  assumes "args_ok n q" "allocs_ok env"
  obtains p where "threadpool_create env n q fl = start_workers env (nat n) 0 p"
    "pool_fresh p 0 n q"
proof -
  let ?p = "\<lparr>lock = Unlocked, notify = CondReady, threads = replicate (nat n) None,
     queue = replicate (nat q) None, thread_count = 0, queue_size = q,
     head = 0, tail = 0, count = 0, shutdown = 0, started = 0\<rparr>"
  have "threadpool_create env n q fl = start_workers env (nat n) 0 ?p"
    using assms by (auto simp: threadpool_create_def args_ok_def allocs_ok_def Let_def)
  moreover have "pool_fresh ?p 0 n q"
    using assms pool_wf_init [of q]
    by (auto simp: pool_fresh_def args_ok_def pending_def ring_cells_def)
  ultimately show ?thesis by (rule that)
qed

lemma pool_fresh_threads:
  "pool_fresh p k n q \<Longrightarrow> length ths = length (threads p) \<Longrightarrow>
   pool_fresh (p\<lparr>threads := ths, thread_count := j, started := j\<rparr>) j n q"
  by (simp add: pool_fresh_def pool_wf_def pending_def ring_cells_def)

lemma create_ok:
  assumes "args_ok n q" "allocs_ok env" "\<forall>j < nat n. create_rc env j = 0"
  shows "\<exists>p. threadpool_create env n q fl = CreateOk p \<and> pool_fresh p n n q"
proof -
  obtain p where p: "threadpool_create env n q fl = start_workers env (nat n) 0 p"
    "pool_fresh p 0 n q" using create_starts [OF assms(1,2)] .
  moreover obtain ths where "length ths = length (threads p)" "start_workers env (nat n) 0 p =
     CreateOk (p\<lparr>threads := ths, thread_count := thread_count p + int (nat n),
                 started := started p + int (nat n)\<rparr>)"
    using start_workers_ok [of 0 "nat n" env p] assms(3) by auto
  moreover have "thread_count p = 0" "started p = 0" "0 < n"
    using p assms(1) by (auto simp: pool_fresh_def args_ok_def)
  ultimately show ?thesis
    using pool_fresh_threads [OF p(2)] by auto
qed

lemma create_thread_fails:
  assumes "args_ok n q" "allocs_ok env" "k < nat n"
    "\<forall>j < k. create_rc env j = 0" "create_rc env k \<noteq> 0"
  shows "\<exists>p. threadpool_create env n q fl = CreateDestroy p \<and> pool_fresh p (int k) n q"
proof -
  obtain p where p: "threadpool_create env n q fl = start_workers env (nat n) 0 p"
    "pool_fresh p 0 n q" using create_starts [OF assms(1,2)] .
  moreover obtain ths where "length ths = length (threads p)" "start_workers env (nat n) 0 p =
     CreateDestroy (p\<lparr>threads := ths, thread_count := thread_count p + int k,
                 started := started p + int k\<rparr>)"
    using start_workers_fail [of 0 k "nat n" env p] assms(3-5) by auto
  moreover have "thread_count p = 0" "started p = 0"
    using p by (auto simp: pool_fresh_def)
  ultimately show ?thesis
    using pool_fresh_threads [OF p(2)] by auto
qed

lemma create_cases:
  "case threadpool_create env n q fl of
     CreateNull \<Rightarrow> \<not> args_ok n q
   | CreateErr po fs \<Rightarrow> args_ok n q \<and> \<not> allocs_ok env
   | CreateDestroy p \<Rightarrow> args_ok n q \<and> allocs_ok env \<and>
       (\<exists>k < nat n. create_rc env k \<noteq> 0 \<and> (\<forall>j < k. create_rc env j = 0) \<and> pool_fresh p (int k) n q)
   | CreateOk p \<Rightarrow> args_ok n q \<and> allocs_ok env \<and> (\<forall>j < nat n. create_rc env j = 0) \<and>
       pool_fresh p n n q"
proof (cases "args_ok n q")
  case args: True
  show ?thesis
  proof (cases "allocs_ok env")
    case allocs: True
    show ?thesis
    proof (cases "\<forall>j < nat n. create_rc env j = 0")
      case True
      with create_ok [OF args allocs True, of fl] args allocs show ?thesis by auto
    next
      case False
      then obtain i where i: "i < nat n" "create_rc env i \<noteq> 0" by blast
      then obtain k where k: "k \<le> i" "create_rc env k \<noteq> 0" "\<forall>j < k. create_rc env j = 0"
        using ex_least_nat_le [of "\<lambda>j. create_rc env j \<noteq> 0" i] by blast
      with i have kn: "k < nat n" by linarith
      obtain p where "threadpool_create env n q fl = CreateDestroy p" "pool_fresh p (int k) n q"
        using create_thread_fails [OF args allocs kn k(3,2)] by blast
      with args allocs k kn show ?thesis by (simp, blast)
    qed
  next
    case False
    with args create_alloc_bad [OF args _ False, of fl] create_no_pool [OF args, of env fl]
    show ?thesis by (cases "malloc_pool env") auto
  qed
next
  case False
  then show ?thesis by (simp add: create_args_bad)
qed

lemma create_fresh:
  "threadpool_create env n q fl = CreateOk p \<Longrightarrow> pool_fresh p n n q \<and> 0 < n"
  "threadpool_create env n q fl = CreateDestroy p \<Longrightarrow> \<exists>k. pool_fresh p (int k) n q \<and> 0 < n"
  using create_cases [where env = env and n = n and q = q and fl = fl]
  by (auto simp: args_ok_def)

text \<open>\<open>threadpool_create\<close> on every path.  It returns NULL at once exactly for
  arguments out of range, takes its \<open>err\<close> label exactly when an allocation or an
  initialisation fails, and delivers a pool exactly when everything succeeds; the
  pool is then empty, unlocked, well-formed, and counts all its threads as
  started.  If the \<open>k\<close>-th thread is the first that cannot be started, the pool
  handed to \<open>threadpool_destroy\<close> counts exactly the \<open>k\<close> threads that run.\<close>

theorem create_outcome:
  "case threadpool_create env n q fl of
     CreateNull \<Rightarrow> \<not> args_ok n q
   | CreateErr po fs \<Rightarrow> args_ok n q \<and> \<not> allocs_ok env
   | CreateDestroy p \<Rightarrow> args_ok n q \<and> allocs_ok env \<and>
       (\<exists>k < nat n. create_rc env k \<noteq> 0 \<and> (\<forall>j < k. create_rc env j = 0) \<and> pool_fresh p (int k) n q)
   | CreateOk p \<Rightarrow> args_ok n q \<and> allocs_ok env \<and> (\<forall>j < nat n. create_rc env j = 0) \<and>
       pool_fresh p n n q"
  by (rule create_cases)

definition good_env :: create_env where
  "good_env = \<lparr>malloc_pool = True, malloc_threads = True, malloc_queue = True,
     mutex_init_rc = 0, cond_init_rc = 0, create_rc = (\<lambda>_. 0)\<rparr>"

text \<open>When the thread array cannot be allocated but the queue can, the \<open>err\<close> path
  frees neither the queue nor the synchronisation objects; and when the mutex
  cannot be initialised, it locks the uninitialised mutex.\<close>

theorem create_err_leaks:
  assumes "args_ok n q" "malloc_pool env"
  shows "(\<not> malloc_threads env \<and> malloc_queue env \<and> mutex_init_rc env = 0 \<longrightarrow>
            (\<exists>p. threadpool_create env n q fl = CreateErr (Some p) [FreePool] \<and>
                 queue p \<noteq> [] \<and> lock p = Unlocked)) \<and>
         (malloc_threads env \<and> mutex_init_rc env \<noteq> 0 \<longrightarrow>
            (\<exists>p fs. threadpool_create env n q fl = CreateErr (Some p) fs \<and>
                    LockMutex MutexUninit \<in> set fs))"
  using assms
  by (auto simp: threadpool_create_def args_ok_def threadpool_free_def Let_def)

text \<open>\<open>threadpool_enqueue\<close> on a well-formed pool, with pthread calls that
  succeed.  It keeps the pool well-formed and the mutex free; it accepts exactly
  when the ring has room and the pool is not shutting down, and then the task
  becomes the youngest pending one and one waiting worker is signalled; a full ring
  is reported before a shutdown, and a refused task changes nothing.\<close>

theorem enqueue_outcome:
  assumes "pool_wf p" "lock p = Unlocked"
  shows "\<exists>err p' w. threadpool_enqueue rc_ok (Some p) (Some f) a fl = (err, Some p', w) \<and>
    pool_wf p' \<and> lock p' = Unlocked \<and>
    (if int (length (pending p)) = queue_size p
     then err = threadpool_queue_full \<and> p' = p \<and> w = WakeNone
     else if shutdown p \<noteq> 0 then err = threadpool_shutdown \<and> p' = p \<and> w = WakeNone
     else err = 0 \<and> w = WakeOne \<and>
          pending p' = pending p @ [\<lparr>tfunction = f, targument = a\<rparr>])"
proof (cases "count p = queue_size p \<or> shutdown p \<noteq> 0")
  case True
  with assms show ?thesis
    by (auto simp: threadpool_enqueue_def enqueue_body_def length_pending)
next
  case False
  with assms have "count p < queue_size p" by (auto simp: pool_wf_def)
  with assms False show ?thesis
    using enqueue_body_room [of "p\<lparr>lock := Locked\<rparr>" 0 "\<lparr>tfunction = f, targument = a\<rparr>"]
    by (auto simp: threadpool_enqueue_def length_pending)
qed

definition demo_pool :: threadpool_t where
  "demo_pool = \<lparr>lock = Unlocked, notify = CondReady, threads = [Some 0],
     queue = replicate 2 None, thread_count = 1, queue_size = 2,
     head = 0, tail = 0, count = 0, shutdown = 0, started = 1\<rparr>"

lemma demo_pool_wf: "pool_wf demo_pool" "lock demo_pool = Unlocked" "shutdown demo_pool = 0"
    "pending demo_pool = []" "queue_size demo_pool = 2"
  by (simp_all add: demo_pool_def pool_wf_def ring_cells_def pending_def MAX_QUEUE_def)

text \<open>Over any sequence of enqueues and of tasks taken by workers, the tasks
  taken, in order, followed by the tasks still pending, are the tasks pending at
  the start followed by the tasks accepted: nothing is lost, duplicated or
  overtaken, and the pool stays well-formed.\<close>

theorem pool_fifo:
  assumes "pool_wf p" "shutdown p = 0"
    and "bounded_run pool_put pool_take ops p = (ins, outs, r)"
  shows "pool_wf r \<and> queue_size r = queue_size p \<and> outs @ pending r = pending p @ ins"
  using pool_ring.run_conserves [of p ops ins outs r] assms by (auto simp: pool_wf_def)

text \<open>When only \<open>pthread_cond_signal\<close> fails, \<open>threadpool_enqueue\<close> returns
  \<open>threadpool_lock_failure\<close> although the task is in the queue and will be run.\<close>

theorem enqueue_signal_failure:
  assumes "pool_wf p" "shutdown p = 0" "int (length (pending p)) < queue_size p" "rc \<noteq> 0"
  shows "\<exists>p'. threadpool_enqueue (rc_ok\<lparr>rc_wake := rc\<rparr>) (Some p) (Some f) a fl =
           (threadpool_lock_failure, Some p', WakeNone) \<and>
         pending p' = pending p @ [\<lparr>tfunction = f, targument = a\<rparr>]"
  using assms enqueue_body_room [of "p\<lparr>lock := Locked\<rparr>" rc "\<lparr>tfunction = f, targument = a\<rparr>"]
  by (auto simp: threadpool_enqueue_def length_pending)

end
