(* ===== verification/Threadpool_Concurrent.thy ===== *)
theory Threadpool_Concurrent
  imports Threadpool_C
begin

text \<open>
  The C thread pool under concurrency: clients, workers and the thread in
  \<open>threadpool_destroy\<close> interleave at the granularity of the critical sections of
  \<open>threadpool.c\<close> (every access to the pool's fields happens between lock and
  unlock).  The steps are built from the functions of \<open>Threadpool_C\<close>, with pthread
  calls that succeed; a step that needs the mutex is enabled only while it is free.
  The theory shows what reachable states satisfy: first-in first-out hand-over and
  conservation of tasks, completeness of a graceful shutdown, absence of lost
  wake-ups, termination of the shutdown, and the deadlock a second
  \<open>threadpool_destroy\<close> causes.
\<close>

section \<open>States\<close>

text \<open>Where a worker is in its loop: about to lock, blocked in
  \<open>pthread_cond_wait\<close>, woken from it, running a task, gone.\<close>

datatype worker_pc = Ready | Waiting | Woken | Running threadpool_task_t | Exited

text \<open>Where the destroying thread is.\<close>

datatype destroy_pc = NotDestroying | Joining nat | Destroyed int "free_call list"

text \<open>The pool, its threads, and three histories: tasks accepted by
  \<open>threadpool_enqueue\<close>, tasks grabbed by workers, tasks whose function returned.\<close>

record pool_sys =
  pool :: threadpool_t
  workers :: "worker_pc list"
  destroyer :: destroy_pc
  accepted :: "threadpool_task_t list"
  grabbed :: "threadpool_task_t list"
  finished :: "threadpool_task_t list"

definition start_sys :: "threadpool_t \<Rightarrow> pool_sys" where
  "start_sys p = \<lparr>pool = p, workers = replicate (nat (thread_count p)) Ready,
     destroyer = NotDestroying, accepted = [], grabbed = [], finished = []\<rparr>"

definition waiting :: "worker_pc list \<Rightarrow> nat set" where
  "waiting ws = {i. i < length ws \<and> ws ! i = Waiting}"

definition wake_workers :: "nat set \<Rightarrow> worker_pc list \<Rightarrow> worker_pc list" where
  "wake_workers S ws = map (\<lambda>i. if i \<in> S then Woken else ws ! i) [0..<length ws]"

text \<open>Which sets of waiting workers a call may wake: a signal wakes at least one if
  there is one, a broadcast all.\<close>

fun wakes :: "wakeup \<Rightarrow> nat set \<Rightarrow> worker_pc list \<Rightarrow> bool" where
  "wakes WakeNone S ws \<longleftrightarrow> S = {}"
| "wakes WakeOne S ws \<longleftrightarrow> S \<subseteq> waiting ws \<and> (waiting ws = {} \<or> S \<noteq> {})"
| "wakes WakeAll S ws \<longleftrightarrow> S = waiting ws"

fun is_destroyed :: "destroy_pc \<Rightarrow> bool" where
  "is_destroyed (Destroyed rc fs) = True"
| "is_destroyed _ = False"

section \<open>Steps\<close>

text \<open>Who takes a step: a client calling into the pool, a worker, or the thread
  that joins and frees inside \<open>threadpool_destroy\<close>.\<close>

datatype actor = Client | Worker nat | Destroyer

inductive pool_step :: "actor \<Rightarrow> pool_sys \<Rightarrow> pool_sys \<Rightarrow> bool" where
  step_enqueue:
    "lock (pool s) = Unlocked \<Longrightarrow> \<not> is_destroyed (destroyer s) \<Longrightarrow>
     threadpool_enqueue rc_ok (Some (pool s)) (Some f) a fl = (err, Some p', w) \<Longrightarrow>
     wakes w S (workers s) \<Longrightarrow>
     pool_step Client s (s\<lparr>pool := p', workers := wake_workers S (workers s),
       accepted := accepted s @ (if err = 0 then [\<lparr>tfunction = f, targument = a\<rparr>] else [])\<rparr>)"
| step_wait:
    "i < length (workers s) \<Longrightarrow> workers s ! i \<in> {Ready, Woken} \<Longrightarrow> lock (pool s) = Unlocked \<Longrightarrow>
     threadpool_thread ((pool s)\<lparr>lock := Locked\<rparr>) = (WorkerWait, p') \<Longrightarrow>
     pool_step (Worker i) s (s\<lparr>pool := p', workers := (workers s)[i := Waiting]\<rparr>)"
| step_exit:
    "i < length (workers s) \<Longrightarrow> workers s ! i \<in> {Ready, Woken} \<Longrightarrow> lock (pool s) = Unlocked \<Longrightarrow>
     threadpool_thread ((pool s)\<lparr>lock := Locked\<rparr>) = (WorkerExit, p') \<Longrightarrow>
     pool_step (Worker i) s (s\<lparr>pool := p', workers := (workers s)[i := Exited]\<rparr>)"
| step_grab:
    "i < length (workers s) \<Longrightarrow> workers s ! i \<in> {Ready, Woken} \<Longrightarrow> lock (pool s) = Unlocked \<Longrightarrow>
     threadpool_thread ((pool s)\<lparr>lock := Locked\<rparr>) = (WorkerRun (Some t), p') \<Longrightarrow>
     pool_step (Worker i) s (s\<lparr>pool := p', workers := (workers s)[i := Running t],
       grabbed := grabbed s @ [t]\<rparr>)"
| step_finish:
    "i < length (workers s) \<Longrightarrow> workers s ! i = Running t \<Longrightarrow>
     pool_step (Worker i) s (s\<lparr>workers := (workers s)[i := Ready], finished := finished s @ [t]\<rparr>)"
| step_spurious:
    "i < length (workers s) \<Longrightarrow> workers s ! i = Waiting \<Longrightarrow>
     pool_step (Worker i) s (s\<lparr>workers := (workers s)[i := Woken]\<rparr>)"
| step_destroy:
    "lock (pool s) = Unlocked \<Longrightarrow> \<not> is_destroyed (destroyer s) \<Longrightarrow>
     destroy_begin rc_ok (Some (pool s)) fl = (DestroyJoin, Some p', w) \<Longrightarrow>
     wakes w S (workers s) \<Longrightarrow>
     pool_step Client s (s\<lparr>pool := p', workers := wake_workers S (workers s), destroyer := Joining 0\<rparr>)"
| step_destroy_again:
    "lock (pool s) = Unlocked \<Longrightarrow> \<not> is_destroyed (destroyer s) \<Longrightarrow>
     destroy_begin rc_ok (Some (pool s)) fl = (DestroyReturn e, Some p', w) \<Longrightarrow>
     pool_step Client s (s\<lparr>pool := p'\<rparr>)"
| step_join:
    "destroyer s = Joining i \<Longrightarrow> int i < thread_count (pool s) \<Longrightarrow> workers s ! i = Exited \<Longrightarrow>
     pool_step Destroyer s (s\<lparr>destroyer := Joining (Suc i)\<rparr>)"
| step_free:
    "destroyer s = Joining i \<Longrightarrow> int i = thread_count (pool s) \<Longrightarrow> lock (pool s) = Unlocked \<Longrightarrow>
     destroy_finish (replicate i 0) (pool s) = (rc, fs) \<Longrightarrow>
     pool_step Destroyer s (s\<lparr>destroyer := Destroyed rc fs\<rparr>)"

text \<open>The states a program can reach: from a created pool, or from a pool whose
  creation failed half-way and is being destroyed by \<open>threadpool_create\<close> itself.\<close>

inductive pool_reachable :: "pool_sys \<Rightarrow> bool" where
  created: "threadpool_create env n q fl = CreateOk p \<Longrightarrow> pool_reachable (start_sys p)"
| creation_failed:
    "threadpool_create env n q fl = CreateDestroy p \<Longrightarrow>
     destroy_begin rc_ok (Some p) 0 = (DestroyJoin, Some p', w) \<Longrightarrow>
     pool_reachable ((start_sys p')\<lparr>destroyer := Joining 0\<rparr>)"
| stepped: "pool_reachable s \<Longrightarrow> pool_step a s t \<Longrightarrow> pool_reachable t"

section \<open>The invariant\<close>

fun running_of :: "worker_pc \<Rightarrow> threadpool_task_t multiset" where
  "running_of (Running t) = {#t#}"
| "running_of _ = {#}"

definition live_of :: "worker_pc \<Rightarrow> int" where
  "live_of w = (if w = Exited then 0 else 1)"

text \<open>Tasks: what was accepted is what was grabbed followed by what is pending, and
  what was grabbed has finished or is running.\<close>

definition ledger_inv :: "pool_sys \<Rightarrow> bool" where
  "ledger_inv s \<longleftrightarrow> pool_wf (pool s) \<and>
     accepted s = grabbed s @ pending (pool s) \<and>
     mset (grabbed s) = mset (finished s) + sum_list (map running_of (workers s))"

text \<open>Threads: the pool's counters agree with the workers there are.\<close>

definition threads_inv :: "pool_sys \<Rightarrow> bool" where
  "threads_inv s \<longleftrightarrow>
     thread_count (pool s) = int (length (workers s)) \<and>
     started (pool s) = sum_list (map live_of (workers s)) \<and>
     threads (pool s) \<noteq> [] \<and> lock (pool s) \<noteq> MutexUninit"

text \<open>Waking and leaving: nobody waits once the pool shuts down, nobody leaves
  early, and pending tasks always have an active worker to take them.\<close>

definition wakeup_ok :: "threadpool_t \<Rightarrow> worker_pc list \<Rightarrow> bool" where
  "wakeup_ok p ws \<longleftrightarrow>
     (shutdown p \<noteq> 0 \<longrightarrow> Waiting \<notin> set ws) \<and>
     (Exited \<in> set ws \<or> ws = [] \<longrightarrow>
        shutdown p = immediate_shutdown \<or>
        shutdown p = graceful_shutdown \<and> ws \<noteq> [] \<and> count p = 0) \<and>
     (Waiting \<in> set ws \<and> count p > 0 \<longrightarrow> (\<exists>w \<in> set ws. w \<notin> {Waiting, Exited})) \<and>
     (lock p = Locked \<longrightarrow> shutdown p \<noteq> 0)"

definition wakeup_inv :: "pool_sys \<Rightarrow> bool" where
  "wakeup_inv s \<longleftrightarrow> wakeup_ok (pool s) (workers s)"

definition full_free :: "free_call list" where
  "full_free = [FreeThreads, FreeQueue, LockMutex Unlocked, DestroyMutex, DestroyCond, FreePool]"

definition destroy_ok :: "threadpool_t \<Rightarrow> worker_pc list \<Rightarrow> destroy_pc \<Rightarrow> bool" where
  "destroy_ok p ws d \<longleftrightarrow>
     (case d of
        NotDestroying \<Rightarrow> True
      | Joining i \<Rightarrow> shutdown p \<noteq> 0 \<and> i \<le> length ws \<and> (\<forall>j < i. ws ! j = Exited)
      | Destroyed rc fs \<Rightarrow> shutdown p \<noteq> 0 \<and> set ws \<subseteq> {Exited} \<and> rc = 0 \<and> fs = full_free)"

definition destroy_inv :: "pool_sys \<Rightarrow> bool" where
  "destroy_inv s \<longleftrightarrow> destroy_ok (pool s) (workers s) (destroyer s)"

definition sys_inv :: "pool_sys \<Rightarrow> bool" where
  "sys_inv s \<longleftrightarrow> ledger_inv s \<and> threads_inv s \<and> wakeup_inv s \<and> destroy_inv s"

section \<open>What the calls do, as the steps need it\<close>

lemma enqueue_step_facts:
  assumes "pool_wf p" "lock p = Unlocked"
    and "threadpool_enqueue rc_ok (Some p) (Some f) a fl = (err, Some p', w)"
  shows "pool_wf p' \<and> lock p' = Unlocked \<and> shutdown p' = shutdown p \<and> started p' = started p \<and>
    thread_count p' = thread_count p \<and> threads p' = threads p \<and>
    pending p' = pending p @ (if err = 0 then [\<lparr>tfunction = f, targument = a\<rparr>] else []) \<and>
    (err = 0 \<and> w = WakeOne \<and> shutdown p = 0 \<or> err \<noteq> 0 \<and> p' = p \<and> w = WakeNone)"
proof (cases "count p = queue_size p \<or> shutdown p \<noteq> 0")
  case True
  with assms show ?thesis
    by (auto simp: threadpool_enqueue_def enqueue_body_def threadpool_codes split: if_splits)
next
  case False
  with assms have "count p < queue_size p" by (auto simp: pool_wf_def)
  with assms False show ?thesis
    using enqueue_body_room [of "p\<lparr>lock := Locked\<rparr>" 0 "\<lparr>tfunction = f, targument = a\<rparr>"]
    by (auto simp: threadpool_enqueue_def)
qed

lemma pool_wf_shutdown:
  "pool_wf p \<Longrightarrow> m \<in> {immediate_shutdown, graceful_shutdown} \<Longrightarrow> pool_wf (p\<lparr>shutdown := m\<rparr>)"
  "pending (p\<lparr>shutdown := m\<rparr>) = pending p"
  by (auto simp: pool_wf_def pending_def ring_cells_def)

lemma thread_wait_facts:
  "threadpool_thread (p\<lparr>lock := Locked\<rparr>) = (WorkerWait, p') \<Longrightarrow>
   count p = 0 \<and> shutdown p = 0 \<and> p' = p\<lparr>lock := Unlocked\<rparr>"
  by (auto simp: threadpool_thread_def split: if_splits)

lemma thread_exit_facts:
  "threadpool_thread (p\<lparr>lock := Locked\<rparr>) = (WorkerExit, p') \<Longrightarrow>
   (shutdown p = immediate_shutdown \<or> shutdown p = graceful_shutdown \<and> count p = 0) \<and>
   p' = p\<lparr>started := started p - 1, lock := Unlocked\<rparr>"
  by (auto simp: threadpool_thread_def split: if_splits)

lemma thread_grab_facts:
  assumes "pool_wf p" "threadpool_thread (p\<lparr>lock := Locked\<rparr>) = (WorkerRun (Some t), p')"
  shows "pool_wf p' \<and> pending p = t # pending p' \<and> lock p' = Unlocked \<and> shutdown p' = shutdown p \<and>
    started p' = started p \<and> thread_count p' = thread_count p \<and> threads p' = threads p \<and>
    shutdown p \<noteq> immediate_shutdown \<and> count p > 0 \<and> count p' = count p - 1"
proof -
  have c: "count p > 0" "shutdown p \<noteq> immediate_shutdown" "count p' = count p - 1"
    using assms by (auto simp: threadpool_thread_def pool_wf_def split: if_splits)
  with assms show ?thesis
    using thread_takes [of "p\<lparr>lock := Locked\<rparr>"] by auto
qed

lemma destroy_join_facts:
  "destroy_begin rc_ok (Some p) fl = (DestroyJoin, Some p', w) \<Longrightarrow>
   shutdown p = 0 \<and> w = WakeAll \<and>
   (\<exists>m. m \<in> {immediate_shutdown, graceful_shutdown} \<and> p' = p\<lparr>lock := Unlocked, shutdown := m\<rparr>)"
  by (auto simp: destroy_begin_def Let_def split: if_splits)

lemma destroy_again_facts:
  "destroy_begin rc_ok (Some p) fl = (DestroyReturn e, Some p', w) \<Longrightarrow>
   shutdown p \<noteq> 0 \<and> e = threadpool_shutdown \<and> p' = p\<lparr>lock := Locked\<rparr>"
  by (auto simp: destroy_begin_def Let_def split: if_splits)

lemmas thread_facts = thread_wait_facts thread_exit_facts thread_grab_facts

text \<open>Waking.\<close>

lemma length_wake_workers [simp]: "length (wake_workers S ws) = length ws"
  by (simp add: wake_workers_def)

lemma wake_workers_Nil [simp]: "wake_workers S ws = [] \<longleftrightarrow> ws = []"
  by (simp add: wake_workers_def)

lemma nth_wake_workers:
  "i < length ws \<Longrightarrow> wake_workers S ws ! i = (if i \<in> S then Woken else ws ! i)"
  by (simp add: wake_workers_def)

lemma wakes_waiting: "wakes w S ws \<Longrightarrow> S \<subseteq> waiting ws"
  by (cases w) auto

lemma map_wake_workers:
  assumes "S \<subseteq> waiting ws" "f Woken = f Waiting"
  shows "map f (wake_workers S ws) = map f ws"
proof (rule nth_equalityI)
  fix i assume "i < length (map f (wake_workers S ws))"
  with assms show "map f (wake_workers S ws) ! i = map f ws ! i"
    by (auto simp: nth_wake_workers waiting_def)
qed simp

lemma wake_all: "Waiting \<notin> set (wake_workers (waiting ws) ws)"
  by (auto simp: in_set_conv_nth nth_wake_workers waiting_def)

lemma wake_Exited: "S \<subseteq> waiting ws \<Longrightarrow> Exited \<in> set (wake_workers S ws) \<longleftrightarrow> Exited \<in> set ws"
  unfolding in_set_conv_nth length_wake_workers
  by (rule ex_cong) (auto simp: nth_wake_workers waiting_def)

lemma wake_nth_Exited:
  "S \<subseteq> waiting ws \<Longrightarrow> i < length ws \<Longrightarrow> ws ! i = Exited \<Longrightarrow> wake_workers S ws ! i = Exited"
  by (auto simp: nth_wake_workers waiting_def)

lemma wake_Waiting: "S \<subseteq> waiting ws \<Longrightarrow> Waiting \<in> set (wake_workers S ws) \<Longrightarrow> Waiting \<in> set ws"
  by (auto simp: in_set_conv_nth nth_wake_workers split: if_splits)

lemma wake_empty [simp]: "wake_workers {} ws = ws"
  by (simp add: wake_workers_def map_nth)

lemma wake_some: "S \<subseteq> waiting ws \<Longrightarrow> S \<noteq> {} \<Longrightarrow> Woken \<in> set (wake_workers S ws)"
  by (force simp: in_set_conv_nth nth_wake_workers waiting_def)

lemma waiting_empty: "waiting ws = {} \<longleftrightarrow> Waiting \<notin> set ws"
  by (auto simp: waiting_def in_set_conv_nth)

section \<open>Every step keeps the invariant\<close>

lemma running_update:
  assumes "i < length ws"
  shows "sum_list (map running_of (ws[i := w])) + running_of (ws ! i)
       = sum_list (map running_of ws) + running_of w"
  by (rule sum_list_map_update [OF assms])

lemma live_update:
  assumes "i < length ws"
  shows "sum_list (map live_of (ws[i := w])) = sum_list (map live_of ws) + live_of w - live_of (ws ! i)"
  using sum_list_map_update [OF assms, of live_of w] by simp

lemma step_ledger: "pool_step a s t \<Longrightarrow> ledger_inv s \<Longrightarrow> ledger_inv t"
proof (induction rule: pool_step.induct)
  case (step_enqueue s f a fl err p' w S)
  then show ?case
    using enqueue_step_facts [of "pool s"] map_wake_workers [of S _ running_of] wakes_waiting
    by (auto simp: ledger_inv_def)
next
  case (step_wait i s p')
  then show ?case
    using thread_wait_facts [of "pool s" p'] running_update [of i "workers s" Waiting]
    by (auto simp: ledger_inv_def)
next
  case (step_exit i s p')
  then show ?case
    using thread_exit_facts [of "pool s" p'] running_update [of i "workers s" Exited]
    by (auto simp: ledger_inv_def)
next
  case (step_grab i s t p')
  then show ?case
    using thread_grab_facts [of "pool s" t p'] running_update [of i "workers s" "Running t"]
    by (auto simp: ledger_inv_def)
next
  case (step_finish i s t)
  then show ?case
    using running_update [of i "workers s" Ready]
    by (auto simp: ledger_inv_def)
next
  case (step_spurious i s)
  then show ?case
    using running_update [of i "workers s" Woken] by (auto simp: ledger_inv_def)
next
  case (step_destroy s fl p' w S)
  then have "S \<subseteq> waiting (workers s)" by (blast dest: wakes_waiting)
  with step_destroy show ?case
    using destroy_join_facts [of "pool s" fl p' w] map_wake_workers [of S _ running_of]
    by (auto simp: ledger_inv_def pool_wf_shutdown)
next
  case (step_destroy_again s fl e p' w)
  then show ?case
    using destroy_again_facts [of "pool s" fl e p' w] by (auto simp: ledger_inv_def)
next
  case (step_join s i)
  then show ?case by (auto simp: ledger_inv_def)
next
  case (step_free s i rc fs)
  then show ?case by (auto simp: ledger_inv_def)
qed

lemma step_threads: "pool_step a s t \<Longrightarrow> ledger_inv s \<Longrightarrow> threads_inv s \<Longrightarrow> threads_inv t"
proof (induction rule: pool_step.induct)
  case (step_enqueue s f a fl err p' w S)
  then show ?case
    using enqueue_step_facts [of "pool s"] map_wake_workers [of S _ live_of] wakes_waiting
    by (auto simp: threads_inv_def ledger_inv_def live_of_def)
next
  case (step_wait i s p')
  then show ?case
    using thread_wait_facts [of "pool s" p']
    by (auto simp: threads_inv_def live_update live_of_def)
next
  case (step_exit i s p')
  then show ?case
    using thread_exit_facts [of "pool s" p']
    by (auto simp: threads_inv_def live_update live_of_def)
next
  case (step_grab i s t p')
  then show ?case
    using thread_grab_facts [of "pool s" t p']
    by (auto simp: threads_inv_def ledger_inv_def live_update live_of_def)
next
  case (step_destroy s fl p' w S)
  then have "S \<subseteq> waiting (workers s)" by (blast dest: wakes_waiting)
  with step_destroy show ?case
    using destroy_join_facts [of "pool s" fl p' w] map_wake_workers [of S _ live_of]
    by (auto simp: threads_inv_def live_of_def)
next
  case (step_destroy_again s fl e p' w)
  then show ?case
    using destroy_again_facts [of "pool s" fl e p' w] by (auto simp: threads_inv_def)
qed (auto simp: threads_inv_def live_update live_of_def)

lemma wakeup_ok_cong:
  "shutdown p' = shutdown p \<Longrightarrow> count p' = count p \<Longrightarrow> lock p' = Unlocked \<Longrightarrow>
   wakeup_ok p ws \<Longrightarrow> wakeup_ok p' ws"
  by (auto simp: wakeup_ok_def)

lemma wakeup_ok_active:
  assumes "wakeup_ok p ws" "i < length ws" "w \<notin> {Waiting, Exited}"
    "shutdown p' = shutdown p" "0 \<le> count p'" "count p' \<le> count p"
    "lock p' = lock p \<or> lock p' = Unlocked"
  shows "wakeup_ok p' (ws[i := w])"
proof -
  have "w \<in> set (ws[i := w])" using assms(2) by (rule set_update_memI)
  moreover have "Exited \<in> set (ws[i := w]) \<Longrightarrow> Exited \<in> set ws"
    "Waiting \<in> set (ws[i := w]) \<Longrightarrow> Waiting \<in> set ws"
    using set_update_subset [of ws i w] assms(3) by auto
  ultimately show ?thesis
    using assms unfolding wakeup_ok_def by (intro conjI impI) (auto intro: antisym)
qed

lemma wakeup_ok_wait:
  "wakeup_ok p ws \<Longrightarrow> shutdown p = 0 \<Longrightarrow> count p = 0 \<Longrightarrow> i < length ws \<Longrightarrow>
   wakeup_ok (p\<lparr>lock := Unlocked\<rparr>) (ws[i := Waiting])"
  using set_update_subset [of ws i Waiting] by (auto simp: wakeup_ok_def shutdown_codes)

lemma wakeup_ok_exit:
  "wakeup_ok p ws \<Longrightarrow> i < length ws \<Longrightarrow>
   shutdown p = immediate_shutdown \<or> shutdown p = graceful_shutdown \<and> count p = 0 \<Longrightarrow>
   wakeup_ok (p\<lparr>started := k, lock := Unlocked\<rparr>) (ws[i := Exited])"
  using set_update_subset [of ws i Exited] by (auto simp: wakeup_ok_def shutdown_codes)

lemma wakeup_ok_no_shutdown:
  "wakeup_ok p ws \<Longrightarrow> shutdown p = 0 \<Longrightarrow> Exited \<notin> set ws \<and> ws \<noteq> []"
  by (auto simp: wakeup_ok_def shutdown_codes)

lemma wakeup_ok_signal:
  assumes "wakeup_ok p ws" "shutdown p = 0" "wakes WakeOne S ws"
    "shutdown p' = 0" "lock p' = Unlocked"
  shows "wakeup_ok p' (wake_workers S ws)"
proof -
  have sub: "S \<subseteq> waiting ws" using assms(3) by simp
  have ne: "Exited \<notin> set ws" "ws \<noteq> []" using wakeup_ok_no_shutdown [OF assms(1,2)] by auto
  have "Woken \<in> set (wake_workers S ws)" if "Waiting \<in> set (wake_workers S ws)"
    using assms(3) wake_some [OF sub] wake_Waiting [OF sub that] by (auto simp: waiting_empty)
  then show ?thesis
    using ne assms(4,5) wake_Exited [OF sub]
    unfolding wakeup_ok_def by (intro conjI impI) (auto)
qed

lemma wakeup_ok_broadcast:
  assumes "wakeup_ok p ws" "shutdown p = 0" "m \<in> {immediate_shutdown, graceful_shutdown}"
  shows "wakeup_ok (p\<lparr>lock := Unlocked, shutdown := m\<rparr>) (wake_workers (waiting ws) ws)"
proof -
  have "Exited \<notin> set ws" "ws \<noteq> []" using wakeup_ok_no_shutdown [OF assms(1,2)] by auto
  then show ?thesis
    using wake_all [of ws] wake_Exited [of "waiting ws" ws] assms(3)
    by (auto simp: wakeup_ok_def)
qed

lemma step_wakeup:
  "pool_step a s t \<Longrightarrow> ledger_inv s \<Longrightarrow> wakeup_inv s \<Longrightarrow> wakeup_inv t"
proof (induction rule: pool_step.induct)
  case (step_enqueue s f a fl err p' w S)
  then have "pool_wf (pool s)" by (simp add: ledger_inv_def)
  note facts = enqueue_step_facts [OF this step_enqueue(1,3)]
  show ?case
    by (cases "err = 0")
      (use facts step_enqueue wakeup_ok_signal [of "pool s" "workers s" S p'] in
        \<open>auto simp: wakeup_inv_def\<close>)
next
  case (step_wait i s p')
  then show ?case
    using thread_wait_facts [of "pool s" p'] wakeup_ok_wait by (simp add: wakeup_inv_def)
next
  case (step_exit i s p')
  then show ?case
    using thread_exit_facts [of "pool s" p'] wakeup_ok_exit by (simp add: wakeup_inv_def)
next
  case (step_grab i s t p')
  then show ?case
    using thread_grab_facts [of "pool s" t p']
      wakeup_ok_active [of "pool s" "workers s" i "Running t" p']
    by (simp add: wakeup_inv_def ledger_inv_def)
next
  case (step_finish i s t)
  then show ?case
    using wakeup_ok_active [of "pool s" "workers s" i Ready "pool s"]
    by (simp add: wakeup_inv_def ledger_inv_def pool_wf_def)
next
  case (step_spurious i s)
  then show ?case
    using wakeup_ok_active [of "pool s" "workers s" i Woken "pool s"]
    by (simp add: wakeup_inv_def ledger_inv_def pool_wf_def)
next
  case (step_destroy s fl p' w S)
  then show ?case
    using destroy_join_facts [of "pool s" fl p' w] wakeup_ok_broadcast [of "pool s" "workers s"]
    by (auto simp: wakeup_inv_def)
next
  case (step_destroy_again s fl e p' w)
  then show ?case
    using destroy_again_facts [of "pool s" fl e p' w] by (auto simp: wakeup_inv_def wakeup_ok_def)
qed (auto simp: wakeup_inv_def)

lemma all_exited_live: "set ws \<subseteq> {Exited} \<Longrightarrow> sum_list (map live_of ws) = 0"
  by (induction ws) (auto simp: live_of_def)

lemma all_exited_running: "set ws \<subseteq> {Exited} \<Longrightarrow> sum_list (map running_of ws) = {#}"
  by (induction ws) auto

lemma destroy_ok_update:
  assumes "destroy_ok p ws d" "i < length ws" "ws ! i \<noteq> Exited" "shutdown p' = shutdown p"
  shows "destroy_ok p' (ws[i := w]) d"
proof (cases d)
  case (Joining k)
  then have "ws[i := w] ! j = Exited" if "j < k" for j
    using assms that by (cases "j = i") (auto simp: destroy_ok_def)
  with Joining assms show ?thesis by (simp add: destroy_ok_def)
next
  case (Destroyed rc fs)
  then have "set ws \<subseteq> {Exited}" using assms(1) by (simp add: destroy_ok_def)
  with nth_mem [OF assms(2)] assms(3) show ?thesis by blast
qed (simp add: destroy_ok_def)

lemma destroy_ok_wake:
  assumes "destroy_ok p ws d" "S \<subseteq> waiting ws" "\<not> is_destroyed d" "shutdown p' = shutdown p"
  shows "destroy_ok p' (wake_workers S ws) d"
  using assms by (cases d) (auto simp: destroy_ok_def wake_nth_Exited)

lemma step_destroyed:
  "pool_step a s t \<Longrightarrow> ledger_inv s \<Longrightarrow> threads_inv s \<Longrightarrow> destroy_inv s \<Longrightarrow> destroy_inv t"
proof (induction rule: pool_step.induct)
  case (step_enqueue s f a fl err p' w S)
  then have "pool_wf (pool s)" by (simp add: ledger_inv_def)
  from enqueue_step_facts [OF this step_enqueue(1,3)] step_enqueue show ?case
    by (simp add: destroy_inv_def destroy_ok_wake [OF _ wakes_waiting])
next
  case (step_wait i s p')
  then show ?case
    using thread_wait_facts [of "pool s" p'] by (auto simp: destroy_inv_def intro: destroy_ok_update)
next
  case (step_exit i s p')
  then show ?case
    using thread_exit_facts [of "pool s" p'] by (auto simp: destroy_inv_def intro: destroy_ok_update)
next
  case (step_grab i s t p')
  then show ?case
    using thread_grab_facts [of "pool s" t p']
    by (auto simp: destroy_inv_def ledger_inv_def intro: destroy_ok_update)
next
  case (step_destroy s fl p' w S)
  then show ?case
    using destroy_join_facts [of "pool s" fl p' w]
    by (auto simp: destroy_inv_def destroy_ok_def shutdown_codes)
next
  case (step_destroy_again s fl e p' w)
  then show ?case
    using destroy_again_facts [of "pool s" fl e p' w]
    by (auto simp: destroy_inv_def destroy_ok_def split: destroy_pc.splits)
next
  case (step_join s i)
  then show ?case by (auto simp: destroy_inv_def destroy_ok_def threads_inv_def less_Suc_eq)
next
  case (step_free s i rc fs)
  then have all: "set (workers s) \<subseteq> {Exited}"
    by (auto simp: destroy_inv_def destroy_ok_def threads_inv_def in_set_conv_nth)
  then have "started (pool s) = 0"
    using step_free by (simp add: threads_inv_def all_exited_live)
  with all step_free show ?case
    by (auto simp: destroy_inv_def destroy_ok_def threads_inv_def destroy_finish_def
        threadpool_free_def full_free_def)
qed (auto simp: destroy_inv_def intro: destroy_ok_update)

lemma step_inv: "pool_step a s t \<Longrightarrow> sys_inv s \<Longrightarrow> sys_inv t"
  by (simp add: sys_inv_def step_ledger step_threads step_wakeup step_destroyed)

section \<open>Reachable states\<close>

lemma fresh_inv:
  assumes "pool_fresh p n n' q" "0 < n'" "0 \<le> n" "n \<noteq> 0 \<or> shutdown p' = immediate_shutdown"
    and "p' = p \<or> p' = p\<lparr>lock := Unlocked, shutdown := immediate_shutdown\<rparr>"
    and "d = NotDestroying \<or> shutdown p' = immediate_shutdown \<and> d = Joining 0"
  shows "sys_inv ((start_sys p')\<lparr>destroyer := d\<rparr>)"
proof -
  have live: "sum_list (map live_of (replicate (nat n) Ready)) = n"
    using assms(3) by (simp add: live_of_def sum_list_replicate)
  have run: "sum_list (map running_of (replicate k Ready)) = {#}" for k
    by (induction k) simp_all
  have "pool_wf p'" "pending p' = []"
    using assms(1,5) by (auto simp: pool_fresh_def pool_wf_shutdown)
  then show ?thesis
    using assms live run
    by (auto simp: sys_inv_def ledger_inv_def threads_inv_def wakeup_inv_def wakeup_ok_def
        destroy_inv_def destroy_ok_def start_sys_def pool_fresh_def shutdown_codes)
qed

lemma reachable_inv: "pool_reachable s \<Longrightarrow> sys_inv s"
proof (induction rule: pool_reachable.induct)
  case (created env n q fl p)
  then have "sys_inv ((start_sys p)\<lparr>destroyer := NotDestroying\<rparr>)"
    using create_fresh(1) [OF created] by (intro fresh_inv [of p n n q]) auto
  then show ?case by (simp add: start_sys_def)
next
  case (creation_failed env n q fl p p' w)
  moreover from creation_failed(2) have "p' = p\<lparr>lock := Unlocked, shutdown := immediate_shutdown\<rparr>"
    by (auto simp: destroy_begin_def Let_def split: if_splits)
  moreover obtain k where "pool_fresh p (int k) n q" "0 < n"
    using create_fresh(2) [OF creation_failed(1)] by blast
  ultimately show ?case by (intro fresh_inv [of p "int k" n q]) auto
next
  case (stepped s a t)
  then show ?case by (blast intro: step_inv)
qed

section \<open>Shutting down terminates\<close>

text \<open>Steps of the workers and of the joining thread, as opposed to calls of
  clients; and a bound on how many of them are left once the pool shuts down.\<close>

definition internal :: "pool_sys \<Rightarrow> pool_sys \<Rightarrow> bool" where
  "internal s t \<longleftrightarrow> (\<exists>a. a \<noteq> Client \<and> pool_step a s t)"

fun pc_weight :: "worker_pc \<Rightarrow> nat" where
  "pc_weight Ready = 1"
| "pc_weight Waiting = 2"
| "pc_weight Woken = 1"
| "pc_weight (Running t) = 2"
| "pc_weight Exited = 0"

fun joins_left :: "destroy_pc \<Rightarrow> nat \<Rightarrow> nat" where
  "joins_left (Joining i) n = Suc (n - i)"
| "joins_left _ n = 0"

definition work_left :: "pool_sys \<Rightarrow> nat" where
  "work_left s = 2 * nat (count (pool s)) + sum_list (map pc_weight (workers s)) +
     joins_left (destroyer s) (length (workers s))"

lemma internalI: "pool_step a s t \<Longrightarrow> a \<noteq> Client \<Longrightarrow> \<exists>t. internal s t"
  by (auto simp: internal_def)

definition shutting_down :: "pool_sys \<Rightarrow> bool" where
  "shutting_down s \<longleftrightarrow> sys_inv s \<and> shutdown (pool s) \<noteq> 0 \<and> lock (pool s) = Unlocked \<and>
     destroyer s \<noteq> NotDestroying"

lemma weight_update:
  "i < length ws \<Longrightarrow> sum_list (map pc_weight (ws[i := w])) + pc_weight (ws ! i)
     = sum_list (map pc_weight ws) + pc_weight w"
  by (rule sum_list_map_update)

lemma shutting_down_step:
  assumes "pool_step a s t" "a \<noteq> Client" "shutting_down s"
  shows "shutdown (pool t) \<noteq> 0 \<and> lock (pool t) = Unlocked \<and> destroyer t \<noteq> NotDestroying \<and>
    work_left t < work_left s"
  using assms
proof (induction rule: pool_step.induct)
  case (step_wait i s p')
  then show ?case using thread_wait_facts [of "pool s" p'] by (auto simp: shutting_down_def)
next
  case (step_exit i s p')
  then show ?case
    using thread_exit_facts [of "pool s" p'] weight_update [of i "workers s" Exited]
    by (auto simp: shutting_down_def work_left_def)
next
  case (step_grab i s t p')
  then show ?case
    using thread_grab_facts [of "pool s" t p'] weight_update [of i "workers s" "Running t"]
    by (auto simp: shutting_down_def work_left_def sys_inv_def ledger_inv_def)
next
  case (step_finish i s t)
  then show ?case
    using weight_update [of i "workers s" Ready] by (auto simp: shutting_down_def work_left_def)
next
  case (step_spurious i s)
  then show ?case
    using weight_update [of i "workers s" Woken] by (auto simp: shutting_down_def work_left_def)
next
  case (step_join s i)
  then show ?case
    by (auto simp: shutting_down_def work_left_def sys_inv_def threads_inv_def)
next
  case (step_free s i rc fs)
  then show ?case by (auto simp: shutting_down_def work_left_def)
qed auto

lemma worker_can_step:
  assumes "shutting_down s" "i < length (workers s)" "workers s ! i \<noteq> Exited"
  shows "\<exists>t. internal s t"
proof -
  let ?p = "(pool s)\<lparr>lock := Locked\<rparr>"
  have inv: "pool_wf (pool s)" "lock (pool s) = Unlocked" "shutdown (pool s) \<noteq> 0"
    "Waiting \<notin> set (workers s)"
    using assms(1) by (auto simp: shutting_down_def sys_inv_def ledger_inv_def wakeup_inv_def wakeup_ok_def)
  show ?thesis
  proof (cases "\<exists>t. workers s ! i = Running t")
    case True
    then obtain t where "workers s ! i = Running t" ..
    from step_finish [OF assms(2) this] show ?thesis by (rule internalI) simp
  next
    case False
    with assms inv have pc: "workers s ! i \<in> {Ready, Woken}"
      by (cases "workers s ! i") (auto dest: nth_mem)
    show ?thesis
    proof (cases "shutdown (pool s) = immediate_shutdown \<or> count (pool s) = 0")
      case True
      then obtain p' where "threadpool_thread ?p = (WorkerExit, p')"
        using inv by (auto simp: threadpool_thread_def pool_wf_def)
      from step_exit [OF assms(2) pc inv(2) this] show ?thesis by (rule internalI) simp
    next
      case False
      moreover have "0 \<le> count (pool s)" using inv(1) by (simp add: pool_wf_def)
      ultimately obtain t p' where "threadpool_thread ?p = (WorkerRun (Some t), p')"
        using thread_takes [of ?p] inv(1) by auto
      from step_grab [OF assms(2) pc inv(2) this] show ?thesis by (rule internalI) simp
    qed
  qed
qed

lemma shutting_down_progress:
  assumes "shutting_down s"
  shows "destroyer s = Destroyed 0 full_free \<or> (\<exists>t. internal s t)"
proof (cases "\<forall>i < length (workers s). workers s ! i = Exited")
  case False
  then show ?thesis using worker_can_step [OF assms] by blast
next
  case True
  show ?thesis
  proof (cases "destroyer s")
    case (Joining i)
    then have i: "i \<le> length (workers s)" "thread_count (pool s) = int (length (workers s))"
        "lock (pool s) = Unlocked"
      using assms by (auto simp: shutting_down_def sys_inv_def destroy_inv_def destroy_ok_def threads_inv_def)
    have "\<exists>t. internal s t"
    proof (cases "i = length (workers s)")
      case True
      obtain rc fs where "destroy_finish (replicate i 0) (pool s) = (rc, fs)" by fastforce
      from step_free [OF Joining _ i(3) this] True i(2) show ?thesis by (auto intro: internalI)
    next
      case False
      with i \<open>\<forall>i < length (workers s). _\<close> have "int i < thread_count (pool s)" "workers s ! i = Exited"
        by auto
      from step_join [OF Joining this] show ?thesis by (rule internalI) simp
    qed
    then show ?thesis ..
  qed (use assms in \<open>auto simp: shutting_down_def sys_inv_def destroy_inv_def destroy_ok_def\<close>)
qed

lemma shutting_down_run:
  "(internal ^^ n) s t \<Longrightarrow> shutting_down s \<Longrightarrow> shutting_down t \<and> work_left t + n \<le> work_left s"
proof (induction n arbitrary: t)
  case 0
  then show ?case by simp
next
  case (Suc n)
  then obtain u where u: "(internal ^^ n) s u" "internal u t" by auto
  with Suc have IH: "shutting_down u" "work_left u + n \<le> work_left s" by auto
  obtain a where a: "a \<noteq> Client" "pool_step a u t" using u(2) by (auto simp: internal_def)
  have "sys_inv t" using a(2) IH(1) by (auto simp: shutting_down_def intro: step_inv)
  with shutting_down_step [OF a(2,1) IH(1)] IH show ?case by (auto simp: shutting_down_def)
qed

section \<open>The mutex a second destroy leaves locked\<close>

lemma locked_step:
  assumes "pool_step a s t" "lock (pool s) = Locked" "\<not> is_destroyed (destroyer s)"
  shows "lock (pool t) = Locked \<and> \<not> is_destroyed (destroyer t) \<and> pool t = pool s \<and>
    (\<forall>i < length (workers s). workers t ! i = Exited \<longrightarrow> workers s ! i = Exited)"
  using assms by (induction rule: pool_step.induct) (auto simp: nth_list_update)

lemma locked_forever:
  "rtranclp (\<lambda>s t. \<exists>a. pool_step a s t) s t \<Longrightarrow> lock (pool s) = Locked \<Longrightarrow>
   \<not> is_destroyed (destroyer s) \<Longrightarrow> lock (pool t) = Locked \<and> \<not> is_destroyed (destroyer t) \<and> pool t = pool s"
  by (induction rule: rtranclp.induct) (use locked_step in \<open>fastforce+\<close>)

section \<open>A concrete run\<close>

text \<open>One worker, one task: the task is enqueued while the worker waits, the pool
  is destroyed gracefully, the worker runs the task and leaves.  The states below
  instantiate the hypotheses of the properties.\<close>

definition one_pool :: threadpool_t where
  "one_pool = \<lparr>lock = Unlocked, notify = CondReady, threads = [Some 0], queue = [None],
     thread_count = 1, queue_size = 1, head = 0, tail = 0, count = 0, shutdown = 0, started = 1\<rparr>"

definition job :: threadpool_task_t where
  "job = \<lparr>tfunction = 7, targument = 9\<rparr>"

definition run_sys :: "threadpool_t \<Rightarrow> worker_pc \<Rightarrow> destroy_pc \<Rightarrow> nat \<Rightarrow> nat \<Rightarrow> nat \<Rightarrow> pool_sys" where
  "run_sys p w d a g f = \<lparr>pool = p, workers = [w], destroyer = d, accepted = replicate a job,
     grabbed = replicate g job, finished = replicate f job\<rparr>"

lemmas run_defs = run_sys_def one_pool_def job_def

abbreviation full_pool :: threadpool_t where
  "full_pool \<equiv> one_pool\<lparr>queue := [Some job], count := 1\<rparr>"

lemma step_to: "pool_step a s t \<Longrightarrow> t = t' \<Longrightarrow> pool_reachable s \<Longrightarrow> pool_reachable t'"
  by (blast intro: pool_reachable.stepped)

lemma run0: "pool_reachable (run_sys one_pool Ready NotDestroying 0 0 0)"
proof -
  have "threadpool_create good_env 1 1 0 = CreateOk one_pool"
    by (simp add: threadpool_create_def good_env_def start_workers.simps one_pool_def
        MAX_THREADS_def MAX_QUEUE_def)
  from created [OF this] show ?thesis by (simp add: start_sys_def run_defs)
qed

lemma run1: "pool_reachable (run_sys one_pool Waiting NotDestroying 0 0 0)"
  by (rule step_to [OF step_wait [of 0, where p' = one_pool] _ run0])
    (simp_all add: run_defs threadpool_thread_def)

lemma run2: "pool_reachable (run_sys full_pool Woken NotDestroying 1 0 0)"
  by (rule step_to [OF step_enqueue [where f = 7 and a = 9 and fl = 0 and err = 0
          and p' = full_pool and w = WakeOne and S = "{0}"] _ run1])
    (simp_all add: run_defs threadpool_enqueue_def enqueue_body_def waiting_def wake_workers_def)

lemma run3: "pool_reachable (run_sys (full_pool\<lparr>shutdown := 2\<rparr>) Woken (Joining 0) 1 0 0)"
  by (rule step_to [OF step_destroy [where fl = 1 and p' = "full_pool\<lparr>shutdown := 2\<rparr>"
          and w = WakeAll and S = "{}"] _ run2])
    (auto simp: run_defs destroy_begin_def threadpool_graceful_def waiting_def shutdown_codes)

lemma run4: "pool_reachable (run_sys (full_pool\<lparr>count := 0, shutdown := 2\<rparr>) (Running job) (Joining 0) 1 1 0)"
  by (rule step_to [OF step_grab [of 0, where t = job
          and p' = "full_pool\<lparr>count := 0, shutdown := 2\<rparr>"] _ run3])
    (simp_all add: run_defs threadpool_thread_def shutdown_codes)

lemma run5: "pool_reachable (run_sys (full_pool\<lparr>count := 0, shutdown := 2\<rparr>) Ready (Joining 0) 1 1 1)"
  by (rule step_to [OF step_finish [of 0, where t = job] _ run4]) (simp_all add: run_defs)

lemma run6:
  "pool_reachable (run_sys (full_pool\<lparr>count := 0, shutdown := 2, started := 0\<rparr>) Exited (Joining 0) 1 1 1)"
  by (rule step_to [OF step_exit [of 0, where
          p' = "full_pool\<lparr>count := 0, shutdown := 2, started := 0\<rparr>"] _ run5])
    (simp_all add: run_defs threadpool_thread_def shutdown_codes)

lemma run7:
  "pool_reachable (run_sys (full_pool\<lparr>count := 0, shutdown := 2, started := 0\<rparr>) Exited (Joining 1) 1 1 1)"
  by (rule step_to [OF step_join [where i = 0] _ run6]) (simp_all add: run_defs)

lemma run8:
  "pool_reachable (run_sys (full_pool\<lparr>count := 0, shutdown := 2, started := 0\<rparr>) Exited
     (Destroyed 0 full_free) 1 1 1)"
  by (rule step_to [OF step_free [where i = 1 and rc = 0 and fs = full_free] _ run7])
    (simp_all add: run_defs destroy_finish_def threadpool_free_def full_free_def)

section \<open>Properties\<close>

text \<open>C38: in every reachable state of the pool, under any interleaving of clients and
  workers, the accepted tasks are exactly the tasks handed to workers, in the order
  of acceptance, followed by the pending ones; and every task handed out has
  finished or is being run by exactly one worker.\<close>

theorem pool_conserves_tasks:
  assumes "pool_reachable s"
  shows "accepted s = grabbed s @ pending (pool s) \<and>
    mset (accepted s) = mset (finished s) + sum_list (map running_of (workers s))
      + mset (pending (pool s))"
  using reachable_inv [OF assms] by (simp add: sys_inv_def ledger_inv_def)

theorem pool_conserves_tasks_witness:
  "accepted (run_sys full_pool Woken NotDestroying 1 0 0) = [job] \<and>
   pending (pool (run_sys full_pool Woken NotDestroying 1 0 0)) = [job]"
proof -
  have "accepted (run_sys full_pool Woken NotDestroying 1 0 0) = [job]"
    "grabbed (run_sys full_pool Woken NotDestroying 1 0 0) = []"
    by (simp_all add: run_sys_def)
  then show ?thesis
    using pool_conserves_tasks [OF run2, THEN conjunct1] by (simp only: append_Nil)
qed

text \<open>C4: a graceful shutdown runs everything: when \<open>threadpool_destroy\<close> with
  \<open>threadpool_graceful\<close> has returned, no task is pending and the tasks that
  finished are, with multiplicity, the tasks ever accepted.\<close>

theorem graceful_shutdown_complete:
  assumes "pool_reachable s" "destroyer s = Destroyed rc fs"
    and "shutdown (pool s) = graceful_shutdown"
  shows "rc = 0 \<and> pending (pool s) = [] \<and> mset (finished s) = mset (accepted s)"
proof -
  note inv = reachable_inv [OF assms(1)]
  then have ex: "set (workers s) \<subseteq> {Exited}" "rc = 0"
    using assms(2) by (auto simp: sys_inv_def destroy_inv_def destroy_ok_def)
  then have "count (pool s) = 0"
    using inv assms(3)
    by (cases "workers s") (auto simp: sys_inv_def wakeup_inv_def wakeup_ok_def shutdown_codes)
  then have "pending (pool s) = []"
    using inv by (auto simp: sys_inv_def ledger_inv_def pending_nil_iff)
  moreover have "sum_list (map running_of (workers s)) = {#}"
    using ex(1) by (rule all_exited_running)
  ultimately show ?thesis
    using inv ex(2) by (auto simp: sys_inv_def ledger_inv_def)
qed

theorem graceful_shutdown_complete_witness:
  "mset (finished (run_sys (full_pool\<lparr>count := 0, shutdown := 2, started := 0\<rparr>) Exited
     (Destroyed 0 full_free) 1 1 1)) = {#job#}"
  using graceful_shutdown_complete [OF run8] by (simp add: run_defs shutdown_codes)

text \<open>When \<open>threadpool_destroy\<close> has returned, every worker has left and the call
  returned 0 having released the thread array, the queue, the mutex, the condition
  variable and the pool, in this order, with the mutex initialised and free.\<close>

theorem destroy_releases:
  assumes "pool_reachable s" "destroyer s = Destroyed rc fs"
  shows "rc = 0 \<and> fs = full_free \<and> set (workers s) \<subseteq> {Exited} \<and> started (pool s) = 0"
proof -
  note inv = reachable_inv [OF assms(1)]
  then have "set (workers s) \<subseteq> {Exited}" "rc = 0" "fs = full_free"
    using assms(2) by (auto simp: sys_inv_def destroy_inv_def destroy_ok_def)
  with inv show ?thesis by (simp add: sys_inv_def threads_inv_def all_exited_live)
qed

text \<open>C13: no lost wake-up: in a reachable state with a pending task, not all
  remaining workers are blocked in \<open>pthread_cond_wait\<close>; and once the pool shuts
  down nobody is.\<close>

theorem no_lost_wakeup:
  assumes "pool_reachable s" "Waiting \<in> set (workers s)"
  shows "shutdown (pool s) = 0 \<and>
    (pending (pool s) \<noteq> [] \<longrightarrow> (\<exists>w \<in> set (workers s). w \<notin> {Waiting, Exited}))"
proof -
  have "pool_wf (pool s)" "wakeup_ok (pool s) (workers s)"
    using reachable_inv [OF assms(1)] by (auto simp: sys_inv_def ledger_inv_def wakeup_inv_def)
  moreover from this(1) have "pending (pool s) \<noteq> [] \<Longrightarrow> 0 < count (pool s)"
    by (metis length_pending length_greater_0_conv of_nat_0_less_iff)
  ultimately show ?thesis
    using assms(2) by (auto simp: wakeup_ok_def)
qed

theorem no_lost_wakeup_witness:
  "shutdown (pool (run_sys one_pool Waiting NotDestroying 0 0 0)) = 0"
  using no_lost_wakeup [OF run1] by (simp add: run_sys_def)

text \<open>C22: once \<open>threadpool_destroy\<close> joins, and as long as no second call has left the
  mutex locked, the shutdown terminates: the workers and the joining thread can
  take at most \<open>work_left s\<close> more steps among themselves, and they never get stuck
  before the destroying thread has freed the pool and returned 0.\<close>

theorem destroy_terminates:
  assumes "pool_reachable s" "destroyer s = Joining i" "lock (pool s) = Unlocked"
  shows "\<forall>n t. (internal ^^ n) s t \<longrightarrow>
    n \<le> work_left s \<and> (destroyer t = Destroyed 0 full_free \<or> (\<exists>u. internal t u))"
proof (intro allI impI)
  fix n t assume run: "(internal ^^ n) s t"
  have "shutting_down s"
    using assms reachable_inv [OF assms(1)]
    by (auto simp: shutting_down_def sys_inv_def destroy_inv_def destroy_ok_def)
  from shutting_down_run [OF run this] shutting_down_progress [of t]
  show "n \<le> work_left s \<and> (destroyer t = Destroyed 0 full_free \<or> (\<exists>u. internal t u))" by auto
qed

theorem destroy_terminates_witness:
  "\<exists>u. work_left (run_sys (full_pool\<lparr>shutdown := 2\<rparr>) Woken (Joining 0) 1 0 0) = 5 \<and>
     internal (run_sys (full_pool\<lparr>shutdown := 2\<rparr>) Woken (Joining 0) 1 0 0) u"
proof -
  let ?s = "run_sys (full_pool\<lparr>shutdown := 2\<rparr>) Woken (Joining 0) 1 0 0"
  have d: "destroyer ?s = Joining 0" "lock (pool ?s) = Unlocked" "work_left ?s = 5"
    by (simp_all add: work_left_def run_defs)
  have "(internal ^^ 0) ?s ?s" by simp
  with destroy_terminates [OF run3 d(1,2)] have "destroyer ?s = Destroyed 0 full_free \<or> (\<exists>u. internal ?s u)"
    by blast
  with d show ?thesis by simp
qed

text \<open>A second \<open>threadpool_destroy\<close> on a pool that is already shutting down
  returns \<open>threadpool_shutdown\<close> and leaves the mutex locked; from then on the mutex
  stays locked and the first \<open>threadpool_destroy\<close> never returns.\<close>

theorem second_destroy_deadlocks:
  assumes "pool_reachable s" "shutdown (pool s) \<noteq> 0" "lock (pool s) = Unlocked"
    and "\<not> is_destroyed (destroyer s)"
  shows "\<exists>p. destroy_begin rc_ok (Some (pool s)) fl = (DestroyReturn threadpool_shutdown, Some p, WakeNone) \<and>
    pool_step Client s (s\<lparr>pool := p\<rparr>) \<and>
    (\<forall>t. rtranclp (\<lambda>u v. \<exists>a. pool_step a u v) (s\<lparr>pool := p\<rparr>) t \<longrightarrow>
       lock (pool t) = Locked \<and> \<not> is_destroyed (destroyer t))"
proof -
  let ?p = "(pool s)\<lparr>lock := Locked\<rparr>"
  have d: "destroy_begin rc_ok (Some (pool s)) fl = (DestroyReturn threadpool_shutdown, Some ?p, WakeNone)"
    using assms(2) by (simp add: destroy_begin_def)
  then have "pool_step Client s (s\<lparr>pool := ?p\<rparr>)"
    by (rule step_destroy_again [OF assms(3,4)])
  with d show ?thesis
    using locked_forever [of "s\<lparr>pool := ?p\<rparr>"] assms(4) by auto
qed

end
