(* ===== verification/Circular_Deque.thy ===== *)
theory Circular_Deque
  imports Queue_Interfaces
begin

text \<open>
  The circular buffer of \<open>src/base/containers/circular_deque.h\<close> over the raw
  storage of \<open>src/base/containers/vector_buffer.h\<close>.  A cell of the storage is
  \<open>Some x\<close> while it holds a constructed object and \<open>None\<close> otherwise, so that
  constructing, moving and destroying objects is visible.  Iterators are indices
  into the storage, as in the code.  The model is the release build, where the
  generation counter and the index checks are empty functions.

  The storage of a deque is determined by its capacity, its begin index and the
  cells read from there (\<open>lay\<close>); every operation is shown to be the list operation
  it should be on these cells.
\<close>

section \<open>Storage: vector_buffer.h\<close>

text \<open>The storage and its operations.  \<open>MoveRange\<close> has a source and a target
  storage; within one storage the code only moves single cells.\<close>

type_synonym 'a storage = "'a option list"

definition VectorBuffer :: "nat \<Rightarrow> 'a storage" where
  "VectorBuffer n = replicate n None"

definition vb_DestructRange :: "'a storage \<Rightarrow> nat \<Rightarrow> nat \<Rightarrow> 'a storage" where
  "vb_DestructRange buf b e = map (\<lambda>i. if b \<le> i \<and> i < e then None else buf ! i) [0..<length buf]"

definition vb_MoveRange ::
  "'a storage \<Rightarrow> nat \<Rightarrow> nat \<Rightarrow> 'a storage \<Rightarrow> nat \<Rightarrow> 'a storage \<times> 'a storage" where
  "vb_MoveRange from_buf b e to_buf t =
     (vb_DestructRange from_buf b e,
      take t to_buf @ take (e - b) (drop b from_buf) @ drop (t + (e - b)) to_buf)"

definition vb_MoveCell :: "'a storage \<Rightarrow> nat \<Rightarrow> nat \<Rightarrow> 'a storage" where
  "vb_MoveCell buf src dest = (buf[dest := buf ! src])[src := None]"

text \<open>\<open>RangesOverlap\<close> on addresses: would moving \<open>[b, e)\<close> to \<open>t\<close> touch the source?\<close>

definition RangesOverlap :: "nat \<Rightarrow> nat \<Rightarrow> nat \<Rightarrow> bool" where
  "RangesOverlap b e t \<longleftrightarrow> \<not> (t \<ge> e \<or> t + (e - b) \<le> b)"

section \<open>The deque\<close>

record 'a circular_deque =
  cd_buffer :: "'a storage"
  cd_begin :: nat
  cd_end :: nat

definition kCircularBufferInitialCapacity :: nat where
  "kCircularBufferInitialCapacity = 3"

definition cd_new :: "'a circular_deque" where
  "cd_new = \<lparr>cd_buffer = [], cd_begin = 0, cd_end = 0\<rparr>"

definition cd_capacity :: "'a circular_deque \<Rightarrow> nat" where
  "cd_capacity d = (if length (cd_buffer d) = 0 then 0 else length (cd_buffer d) - 1)"

definition cd_empty :: "'a circular_deque \<Rightarrow> bool" where
  "cd_empty d \<longleftrightarrow> cd_begin d = cd_end d"

definition cd_size :: "'a circular_deque \<Rightarrow> nat" where
  "cd_size d = (if cd_begin d \<le> cd_end d then cd_end d - cd_begin d
                else length (cd_buffer d) - cd_begin d + cd_end d)"

text \<open>Destroying a range of indices that may wrap around.\<close>

definition cd_DestructRange :: "'a storage \<Rightarrow> nat \<Rightarrow> nat \<Rightarrow> 'a storage" where
  "cd_DestructRange buf b e =
     (if e = b then buf
      else if e > b then vb_DestructRange buf b e
      else vb_DestructRange (vb_DestructRange buf b (length buf)) 0 e)"

text \<open>Moving the elements into a new storage: the drained source, the target, and
  the new begin and end.\<close>

definition MoveBuffer ::
  "'a storage \<Rightarrow> nat \<Rightarrow> nat \<Rightarrow> 'a storage \<Rightarrow> 'a storage \<times> 'a storage \<times> nat \<times> nat" where
  "MoveBuffer from_buf from_begin from_end to_buf =
     (if from_begin < from_end then
        (case vb_MoveRange from_buf from_begin from_end to_buf 0 of
           (f, t) \<Rightarrow> (f, t, 0, from_end - from_begin))
      else if from_begin > from_end then
        (case vb_MoveRange from_buf from_begin (length from_buf) to_buf 0 of
           (f, t) \<Rightarrow>
             let right_size = length from_buf - from_begin in
             (case vb_MoveRange f 0 from_end t right_size of
                (f', t') \<Rightarrow> (f', t', 0, right_size + from_end)))
      else (from_buf, to_buf, 0, 0))"

definition SetCapacityTo :: "nat \<Rightarrow> 'a circular_deque \<Rightarrow> 'a circular_deque" where
  "SetCapacityTo new_capacity d =
     (case MoveBuffer (cd_buffer d) (cd_begin d) (cd_end d) (VectorBuffer (new_capacity + 1)) of
        (_, new_buffer, b, e) \<Rightarrow> \<lparr>cd_buffer = new_buffer, cd_begin = b, cd_end = e\<rparr>)"

definition ExpandCapacityIfNecessary :: "nat \<Rightarrow> 'a circular_deque \<Rightarrow> 'a circular_deque" where
  "ExpandCapacityIfNecessary additional_elts d =
     (let min_new_capacity = cd_size d + additional_elts in
      if cd_capacity d \<ge> min_new_capacity then d
      else
        let min_new_capacity = max min_new_capacity kCircularBufferInitialCapacity;
            new_capacity = max min_new_capacity (cd_capacity d + cd_capacity d div 4)
        in SetCapacityTo new_capacity d)"

definition ShrinkCapacityIfNecessary :: "'a circular_deque \<Rightarrow> 'a circular_deque" where
  "ShrinkCapacityIfNecessary d =
     (if cd_capacity d \<le> kCircularBufferInitialCapacity then d
      else
        let sz = cd_size d; empty_spaces = cd_capacity d - sz in
        if empty_spaces < sz then d
        else
          let new_capacity = max kCircularBufferInitialCapacity (sz + sz div 4) in
          if new_capacity < cd_capacity d then SetCapacityTo new_capacity d else d)"

definition cd_reserve :: "nat \<Rightarrow> 'a circular_deque \<Rightarrow> 'a circular_deque" where
  "cd_reserve new_capacity d =
     (if new_capacity > cd_capacity d then SetCapacityTo new_capacity d else d)"

definition cd_shrink_to_fit :: "'a circular_deque \<Rightarrow> 'a circular_deque" where
  "cd_shrink_to_fit d =
     (if cd_empty d then
        if length (cd_buffer d) \<noteq> 0 then d\<lparr>cd_buffer := []\<rparr> else d
      else SetCapacityTo (cd_size d) d)"

definition ClearRetainCapacity :: "'a circular_deque \<Rightarrow> 'a circular_deque" where
  "ClearRetainCapacity d =
     \<lparr>cd_buffer = cd_DestructRange (cd_buffer d) (cd_begin d) (cd_end d), cd_begin = 0, cd_end = 0\<rparr>"

definition cd_clear :: "'a circular_deque \<Rightarrow> 'a circular_deque" where
  "cd_clear d = (ClearRetainCapacity d)\<lparr>cd_buffer := []\<rparr>"

text \<open>Element access reads a cell: \<open>None\<close> is a read of storage that holds no
  object.\<close>

definition cd_at :: "'a circular_deque \<Rightarrow> nat \<Rightarrow> 'a option" where
  "cd_at d i =
     (let right_size = length (cd_buffer d) - cd_begin d in
      if cd_begin d \<le> cd_end d \<or> i < right_size then cd_buffer d ! (cd_begin d + i)
      else cd_buffer d ! (i - right_size))"

definition cd_front :: "'a circular_deque \<Rightarrow> 'a option" where
  "cd_front d = cd_buffer d ! cd_begin d"

definition cd_emplace_front :: "'a circular_deque \<Rightarrow> 'a \<Rightarrow> 'a circular_deque" where
  "cd_emplace_front d x =
     (let d = ExpandCapacityIfNecessary 1 d;
          b = (if cd_begin d = 0 then length (cd_buffer d) - 1 else cd_begin d - 1)
      in d\<lparr>cd_begin := b, cd_buffer := (cd_buffer d)[b := Some x]\<rparr>)"

definition cd_emplace_back :: "'a circular_deque \<Rightarrow> 'a \<Rightarrow> 'a circular_deque" where
  "cd_emplace_back d x =
     (let d = ExpandCapacityIfNecessary 1 d
      in d\<lparr>cd_buffer := (cd_buffer d)[cd_end d := Some x],
           cd_end := (if cd_end d = length (cd_buffer d) - 1 then 0 else cd_end d + 1)\<rparr>)"

definition cd_pop_front :: "'a circular_deque \<Rightarrow> 'a circular_deque" where
  "cd_pop_front d =
     (let buf = vb_DestructRange (cd_buffer d) (cd_begin d) (cd_begin d + 1);
          b = cd_begin d + 1
      in ShrinkCapacityIfNecessary
           (d\<lparr>cd_buffer := buf, cd_begin := (if b = length buf then 0 else b)\<rparr>))"

definition cd_pop_back :: "'a circular_deque \<Rightarrow> 'a circular_deque" where
  "cd_pop_back d =
     (let e = (if cd_end d = 0 then length (cd_buffer d) - 1 else cd_end d - 1)
      in ShrinkCapacityIfNecessary
           (d\<lparr>cd_end := e, cd_buffer := vb_DestructRange (cd_buffer d) e (e + 1)\<rparr>))"

section \<open>Iterators\<close>

text \<open>An iterator is an index into the storage of its deque.\<close>

definition OffsetFromBegin :: "'a circular_deque \<Rightarrow> nat \<Rightarrow> nat" where
  "OffsetFromBegin d i =
     (if i \<ge> cd_begin d then i - cd_begin d else length (cd_buffer d) - cd_begin d + i)"

definition it_Increment :: "'a circular_deque \<Rightarrow> nat \<Rightarrow> nat" where
  "it_Increment d i = (if i + 1 = length (cd_buffer d) then 0 else i + 1)"

definition it_Decrement :: "'a circular_deque \<Rightarrow> nat \<Rightarrow> nat" where
  "it_Decrement d i = (if i = 0 then length (cd_buffer d) - 1 else i - 1)"

text \<open>\<open>Add\<close>: the new offset is a signed value, the sum with the begin index an unsigned
  64-bit one.\<close>

definition it_Add :: "'a circular_deque \<Rightarrow> nat \<Rightarrow> int \<Rightarrow> nat" where
  "it_Add d i delta =
     (if delta = 0 then i
      else
        let new_offset = int (OffsetFromBegin d i) + delta
        in nat ((new_offset + int (cd_begin d)) mod 2 ^ 64) mod length (cd_buffer d))"

definition it_diff :: "'a circular_deque \<Rightarrow> nat \<Rightarrow> nat \<Rightarrow> int" where
  "it_diff d i j = int (OffsetFromBegin d i) - int (OffsetFromBegin d j)"

definition it_less :: "'a circular_deque \<Rightarrow> nat \<Rightarrow> nat \<Rightarrow> bool" where
  "it_less d i j \<longleftrightarrow> OffsetFromBegin d i < OffsetFromBegin d j"

definition it_deref :: "'a circular_deque \<Rightarrow> nat \<Rightarrow> 'a option" where
  "it_deref d i = cd_buffer d ! i"

definition cd_back :: "'a circular_deque \<Rightarrow> 'a option" where
  "cd_back d = it_deref d (it_Decrement d (cd_end d))"

section \<open>Inserting and erasing in the middle\<close>

text \<open>The loops run over the storage by iterator; the fuel is the number of cells,
  more than any of them can visit.\<close>

text \<open>Right-to-left shifting, the loop of \<open>MakeRoomFor\<close>.\<close>

fun shift_right :: "nat \<Rightarrow> 'a circular_deque \<Rightarrow> nat \<Rightarrow> nat \<Rightarrow> nat \<Rightarrow> 'a circular_deque option" where
  "shift_right fuel d insert_begin src dest =
     (if src = insert_begin then Some d
      else
        case fuel of
          0 \<Rightarrow> None
        | Suc fuel' \<Rightarrow>
            let src = it_Decrement d src; dest = it_Decrement d dest
            in shift_right fuel' (d\<lparr>cd_buffer := vb_MoveCell (cd_buffer d) src dest\<rparr>)
                 insert_begin src dest)"

definition MakeRoomFor ::
  "nat \<Rightarrow> nat \<Rightarrow> 'a circular_deque \<Rightarrow> ('a circular_deque \<times> nat \<times> nat) option" where
  "MakeRoomFor n insert_begin d =
     (if n = 0 then Some (d, insert_begin, insert_begin)
      else
        let begin_offset = OffsetFromBegin d insert_begin;
            d = ExpandCapacityIfNecessary n d;
            c = length (cd_buffer d);
            insert_begin = (cd_begin d + begin_offset) mod c;
            insert_end = (insert_begin + n) mod c;
            src = cd_end d;
            d = d\<lparr>cd_end := (cd_end d + n) mod c\<rparr>
        in map_option (\<lambda>d. (d, insert_begin, insert_end))
             (shift_right c d insert_begin src (cd_end d)))"

text \<open>Constructing the new elements, the loop shared by the two \<open>insert\<close>s.\<close>

fun fill_cells :: "nat \<Rightarrow> 'a circular_deque \<Rightarrow> nat \<Rightarrow> nat \<Rightarrow> 'a list \<Rightarrow> 'a circular_deque option" where
  "fill_cells fuel d cur fin vs =
     (if it_less d cur fin then
        case fuel of
          0 \<Rightarrow> None
        | Suc fuel' \<Rightarrow>
            (case vs of
               [] \<Rightarrow> None
             | v # vs' \<Rightarrow>
                 fill_cells fuel' (d\<lparr>cd_buffer := (cd_buffer d)[cur := Some v]\<rparr>)
                   (it_Increment d cur) fin vs')
      else Some d)"

text \<open>\<open>insert(pos, first, last)\<close> with the elements of the range.\<close>

definition cd_insert_range :: "'a circular_deque \<Rightarrow> nat \<Rightarrow> 'a list \<Rightarrow> 'a circular_deque option" where
  "cd_insert_range d pos vs =
     (if vs = [] then Some d
      else if pos = cd_begin d then
        let d = ExpandCapacityIfNecessary (length vs) d;
            c = length (cd_buffer d);
            insert_end = cd_begin d;
            d = d\<lparr>cd_begin := (cd_begin d + c - length vs) mod c\<rparr>
        in fill_cells c d (cd_begin d) insert_end vs
      else
        case MakeRoomFor (length vs) pos d of
          None \<Rightarrow> None
        | Some (d, cur, fin) \<Rightarrow> fill_cells (length (cd_buffer d)) d cur fin vs)"

text \<open>\<open>insert(pos, count, value)\<close>.\<close>

definition cd_insert_count :: "'a circular_deque \<Rightarrow> nat \<Rightarrow> nat \<Rightarrow> 'a \<Rightarrow> 'a circular_deque option" where
  "cd_insert_count d pos n v =
     (if pos = cd_begin d then
        Some (((\<lambda>d. cd_emplace_front d v) ^^ n) (ExpandCapacityIfNecessary n d))
      else
        case MakeRoomFor n pos d of
          None \<Rightarrow> None
        | Some (d, cur, fin) \<Rightarrow> fill_cells (length (cd_buffer d)) d cur fin (replicate n v))"

text \<open>\<open>emplace(pos, value)\<close>: the deque and the iterator to the new element.\<close>

definition cd_emplace :: "'a circular_deque \<Rightarrow> nat \<Rightarrow> 'a \<Rightarrow> ('a circular_deque \<times> nat) option" where
  "cd_emplace d pos v =
     (if pos = cd_begin d then
        let d = cd_emplace_front d v in Some (d, cd_begin d)
      else
        case MakeRoomFor 1 pos d of
          None \<Rightarrow> None
        | Some (d, cur, _) \<Rightarrow> Some (d\<lparr>cd_buffer := (cd_buffer d)[cur := Some v]\<rparr>, cur))"

text \<open>Left-to-right shifting, the loop of \<open>erase\<close>; it ends with the target index.\<close>

fun shift_left ::
  "nat \<Rightarrow> 'a circular_deque \<Rightarrow> nat \<Rightarrow> nat \<Rightarrow> nat \<Rightarrow> ('a circular_deque \<times> nat) option" where
  "shift_left fuel d src src_end dest =
     (if it_less d src src_end then
        case fuel of
          0 \<Rightarrow> None
        | Suc fuel' \<Rightarrow>
            shift_left fuel' (d\<lparr>cd_buffer := vb_MoveCell (cd_buffer d) src dest\<rparr>)
              (it_Increment d src) src_end (it_Increment d dest)
      else Some (d, dest))"

definition cd_erase :: "'a circular_deque \<Rightarrow> nat \<Rightarrow> nat \<Rightarrow> ('a circular_deque \<times> nat) option" where
  "cd_erase d first lst =
     (if first = lst then Some (d, first)
      else
        let d = d\<lparr>cd_buffer := cd_DestructRange (cd_buffer d) first lst\<rparr>
        in if first = cd_begin d then Some (d\<lparr>cd_begin := lst\<rparr>, lst)
           else
             case shift_left (length (cd_buffer d)) d lst (cd_end d) first of
               None \<Rightarrow> None
             | Some (d, dest) \<Rightarrow> Some (d\<lparr>cd_end := dest\<rparr>, first))"

text \<open>\<open>erase(pos)\<close>.\<close>

definition cd_erase_at :: "'a circular_deque \<Rightarrow> nat \<Rightarrow> ('a circular_deque \<times> nat) option" where
  "cd_erase_at d pos = cd_erase d pos (it_Add d pos 1)"

declare shift_right.simps [simp del] fill_cells.simps [simp del] shift_left.simps [simp del]

section \<open>Assigning, resizing, copying\<close>

definition cd_assign :: "'a circular_deque \<Rightarrow> 'a list \<Rightarrow> 'a circular_deque" where
  "cd_assign d vs = foldl cd_emplace_back (ClearRetainCapacity d) vs"

definition cd_assign_count :: "'a circular_deque \<Rightarrow> nat \<Rightarrow> 'a \<Rightarrow> 'a circular_deque" where
  "cd_assign_count d n v =
     foldl cd_emplace_back (cd_reserve n (ClearRetainCapacity d)) (replicate n v)"

text \<open>The loop \<open>while (size() < count) emplace_back(value)\<close> of \<open>resize\<close>.\<close>

fun grow_to :: "nat \<Rightarrow> 'a circular_deque \<Rightarrow> nat \<Rightarrow> 'a \<Rightarrow> 'a circular_deque option" where
  "grow_to fuel d n v =
     (if cd_size d < n then
        case fuel of 0 \<Rightarrow> None | Suc fuel' \<Rightarrow> grow_to fuel' (cd_emplace_back d v) n v
      else Some d)"

declare grow_to.simps [simp del]

definition cd_resize :: "'a circular_deque \<Rightarrow> nat \<Rightarrow> 'a \<Rightarrow> 'a circular_deque option" where
  "cd_resize d n v =
     (if n > cd_size d then grow_to n (ExpandCapacityIfNecessary (n - cd_size d) d) n v
      else if n < cd_size d then
        let new_end = (cd_begin d + n) mod length (cd_buffer d)
        in Some (ShrinkCapacityIfNecessary
             (d\<lparr>cd_buffer := cd_DestructRange (cd_buffer d) new_end (cd_end d), cd_end := new_end\<rparr>))
      else Some d)"

text \<open>Copy construction and the assignments; a moved-from deque is left empty.\<close>

definition cd_elements :: "'a circular_deque \<Rightarrow> 'a list" where
  "cd_elements d = map (\<lambda>i. the (cd_at d i)) [0..<cd_size d]"

definition cd_copy :: "'a circular_deque \<Rightarrow> 'a circular_deque" where
  "cd_copy other =
     cd_assign \<lparr>cd_buffer = VectorBuffer (cd_size other + 1), cd_begin = 0, cd_end = 0\<rparr>
       (cd_elements other)"

definition cd_copy_assign :: "'a circular_deque \<Rightarrow> 'a circular_deque \<Rightarrow> 'a circular_deque" where
  "cd_copy_assign d other = cd_assign (cd_reserve (cd_size other) d) (cd_elements other)"

definition cd_move_assign ::
  "'a circular_deque \<Rightarrow> 'a circular_deque \<Rightarrow> 'a circular_deque \<times> 'a circular_deque" where
  "cd_move_assign d other =
     (let d = ClearRetainCapacity d
      in (d\<lparr>cd_buffer := cd_buffer other, cd_begin := cd_begin other, cd_end := cd_end other\<rparr>,
          \<lparr>cd_buffer = [], cd_begin = 0, cd_end = 0\<rparr>))"

definition cd_swap ::
  "'a circular_deque \<Rightarrow> 'a circular_deque \<Rightarrow> 'a circular_deque \<times> 'a circular_deque" where
  "cd_swap d other =
     (d\<lparr>cd_buffer := cd_buffer other, cd_begin := cd_begin other, cd_end := cd_end other\<rparr>,
      other\<lparr>cd_buffer := cd_buffer d, cd_begin := cd_begin d, cd_end := cd_end d\<rparr>)"

section \<open>Abstraction and invariant\<close>

definition cd_list :: "'a circular_deque \<Rightarrow> 'a list" where
  "cd_list d = map the (ring_elems (cd_buffer d) (cd_begin d) (cd_size d))"

definition cd_inv :: "'a circular_deque \<Rightarrow> bool" where
  "cd_inv d \<longleftrightarrow>
     (let c = length (cd_buffer d) in
      if c = 0 then cd_begin d = cd_end d
      else cd_begin d < c \<and> cd_end d < c \<and>
        (\<forall>i < c. cd_buffer d ! i \<noteq> None \<longleftrightarrow>
           ring_dist (cd_begin d) i c < ring_dist (cd_begin d) (cd_end d) c))"

text \<open>The storage of \<open>c\<close> cells in which the cells from \<open>b\<close> on are \<open>os\<close>.\<close>

definition lay :: "nat \<Rightarrow> nat \<Rightarrow> 'a option list \<Rightarrow> 'a storage" where
  "lay c b os = map (\<lambda>i. let k = ring_dist b i c in if k < length os then os ! k else None) [0..<c]"

definition cd_rep :: "nat \<Rightarrow> nat \<Rightarrow> 'a list \<Rightarrow> 'a circular_deque" where
  "cd_rep c b xs = \<lparr>cd_buffer = lay c b (map Some xs), cd_begin = b, cd_end = (b + length xs) mod c\<rparr>"

lemma length_lay [simp]: "length (lay c b os) = c"
  by (simp add: lay_def)

lemma lay_empty_iff [simp]: "lay c b os = [] \<longleftrightarrow> c = 0"
  by (simp add: lay_def)

lemma nth_lay:
  "i < c \<Longrightarrow> lay c b os ! i = (if ring_dist b i c < length os then os ! ring_dist b i c else None)"
  by (simp add: lay_def Let_def)

lemma nth_lay_mod:
  "b < c \<Longrightarrow> k < c \<Longrightarrow> lay c b os ! ((b + k) mod c) = (if k < length os then os ! k else None)"
  by (simp add: nth_lay ring_dist_unique)

lemma lay_eqI:
  assumes "b < c" "length buf = c"
    and "\<And>k. k < c \<Longrightarrow> buf ! ((b + k) mod c) = (if k < length os then os ! k else None)"
  shows "buf = lay c b os"
proof (rule nth_equalityI)
  fix i assume "i < length buf"
  then have i: "i < c" using assms(2) by simp
  have "buf ! ((b + ring_dist b i c) mod c) = lay c b os ! i"
    using assms(3) [OF ring_dist_less [OF assms(1) i]] by (simp add: nth_lay i)
  then show "buf ! i = lay c b os ! i" by (simp add: ring_dist_add assms(1) i)
qed (simp add: assms(2))

text \<open>The rules for rewriting storage: writing the cell at offset \<open>k\<close>, padding with
  dead cells, and moving the begin index over a dead cell.\<close>

lemma lay_update [ring_simps]:
  assumes "b < c" "k < length os" "length os \<le> c"
  shows "(lay c b os)[(b + k) mod c := v] = lay c b (os[k := v])"
proof (rule lay_eqI)
  fix j assume j: "j < c"
  have "(b + k) mod c = (b + j) mod c \<longleftrightarrow> k = j"
    using mod_add_inject [of k c j b] assms j by auto
  then show "(lay c b os)[(b + k) mod c := v] ! ((b + j) mod c) =
      (if j < length (os[k := v]) then os[k := v] ! j else None)"
    using assms j by (simp add: nth_list_update nth_lay_mod)
qed (use assms in auto)

lemma lay_pad: "b < c \<Longrightarrow> lay c b (os @ replicate m None) = lay c b os"
  by (rule lay_eqI [symmetric]) (auto simp: nth_lay_mod nth_append)

lemma lay_front:
  assumes "b < c" "length os < c"
  shows "lay c b (None # os) = lay c ((b + 1) mod c) os"
proof (rule lay_eqI)
  fix k assume k: "k < c"
  have eq: "((b + 1) mod c + k) mod c = (b + (k + 1) mod c) mod c" by (simp add: mod_simps)
  show "lay c b (None # os) ! (((b + 1) mod c + k) mod c) = (if k < length os then os ! k else None)"
  proof (cases "k + 1 = c")
    case True
    then have "(k + 1) mod c = 0" by simp
    with True assms k show ?thesis unfolding eq by (subst nth_lay_mod) auto
  next
    case False
    then have "(k + 1) mod c = k + 1" using k by simp
    with False assms k show ?thesis unfolding eq by (subst nth_lay_mod) auto
  qed
qed (use assms in auto)

lemma lay_Nil: "lay c b [] = replicate c None"
  by (rule nth_equalityI) (auto simp: nth_lay)

lemma lay_zero:
  "length os \<le> c \<Longrightarrow> 0 < c \<Longrightarrow> lay c 0 os = os @ replicate (c - length os) None"
  by (rule lay_eqI [symmetric]) (auto simp: nth_append)

lemma ring_elems_lay:
  "b < c \<Longrightarrow> length os \<le> c \<Longrightarrow> ring_elems (lay c b os) b (length os) = os"
  by (rule nth_equalityI) (auto simp: nth_ring_elems nth_lay_mod)

lemma cd_rep_sel [simp]:
  "cd_buffer (cd_rep c b xs) = lay c b (map Some xs)"
  "cd_begin (cd_rep c b xs) = b"
  "cd_end (cd_rep c b xs) = (b + length xs) mod c"
  by (simp_all add: cd_rep_def)

lemma cd_size_dist: "cd_size d = ring_dist (cd_begin d) (cd_end d) (length (cd_buffer d))"
  by (simp add: cd_size_def ring_dist_def)

lemma cd_size_rep [simp]: "b < c \<Longrightarrow> length xs < c \<Longrightarrow> cd_size (cd_rep c b xs) = length xs"
  by (simp add: cd_size_dist ring_dist_unique)

lemma cd_capacity_rep [simp]: "b < c \<Longrightarrow> cd_capacity (cd_rep c b xs) = c - 1"
  by (simp add: cd_capacity_def)

lemma cd_list_rep [simp]:
  assumes "b < c" "length xs < c"
  shows "cd_list (cd_rep c b xs) = xs"
  using ring_elems_lay [of b c "map Some xs"] assms by (simp add: cd_list_def comp_def)

lemma cd_inv_rep [simp]: "b < c \<Longrightarrow> length xs < c \<Longrightarrow> cd_inv (cd_rep c b xs)"
  by (auto simp: cd_inv_def Let_def nth_lay ring_dist_unique ring_dist_less)

text \<open>Every deque that satisfies the invariant is of this form, unless it has no
  storage at all.\<close>

lemma cd_inv_cases:
  assumes "cd_inv d"
  obtains (storage) c b xs where "d = cd_rep c b xs" "b < c" "length xs < c"
  | (none) "cd_buffer d = []" "cd_begin d = cd_end d" "cd_list d = []"
proof (cases "cd_buffer d = []")
  case True
  with assms show ?thesis by (auto simp: cd_inv_def cd_list_def cd_size_def intro: none)
next
  case False
  define c where "c = length (cd_buffer d)"
  define n where "n = cd_size d"
  have bc: "cd_begin d < c" "cd_end d < c" "n = ring_dist (cd_begin d) (cd_end d) c"
    and live: "\<And>i. i < c \<Longrightarrow> cd_buffer d ! i \<noteq> None \<longleftrightarrow> ring_dist (cd_begin d) i c < n"
    using assms False by (auto simp: cd_inv_def Let_def c_def n_def cd_size_dist)
  have n: "n < c" using bc by (simp add: ring_dist_less)
  let ?xs = "cd_list d"
  have len: "length ?xs = n" by (simp add: cd_list_def n_def)
  have "cd_buffer d = lay c (cd_begin d) (map Some ?xs)"
  proof (rule lay_eqI [OF bc(1)])
    fix k assume k: "k < c"
    let ?i = "(cd_begin d + k) mod c"
    have "cd_buffer d ! ?i \<noteq> None \<longleftrightarrow> k < n"
      using live [of ?i] k bc(1) by (simp add: ring_dist_unique)
    then show "cd_buffer d ! ?i = (if k < length (map Some ?xs) then map Some ?xs ! k else None)"
      using len by (auto simp: cd_list_def nth_ring_elems c_def n_def)
  qed (simp add: c_def)
  moreover have "cd_end d = (cd_begin d + length ?xs) mod c"
    using ring_dist_add [OF bc(1,2)] by (simp add: len bc(3))
  ultimately have "d = cd_rep c (cd_begin d) ?xs" by (simp add: cd_rep_def)
  with bc n len show ?thesis by (intro storage) auto
qed

section \<open>Resizing\<close>

lemma length_vb_Destruct [simp]: "length (vb_DestructRange buf b e) = length buf"
  by (simp add: vb_DestructRange_def)

lemma nth_vb_Destruct:
  "i < length buf \<Longrightarrow> vb_DestructRange buf b e ! i = (if b \<le> i \<and> i < e then None else buf ! i)"
  by (simp add: vb_DestructRange_def)

lemma take_vb_Destruct: "e \<le> b \<Longrightarrow> take e (vb_DestructRange buf b c) = take e buf"
  by (rule nth_equalityI) (auto simp: nth_vb_Destruct)

lemma vb_Destruct_single:
  "b < length buf \<Longrightarrow> vb_DestructRange buf b (Suc b) = buf[b := None]"
  by (rule nth_equalityI) (auto simp: nth_vb_Destruct nth_list_update)

lemma MoveBuffer_elems:
  assumes "b < length buf" "e < length buf" "ring_elems buf b (ring_dist b e (length buf)) = os"
    and "length os < m"
  shows "\<exists>f. MoveBuffer buf b e (VectorBuffer m) = (f, lay m 0 os, 0, length os)"
proof -
  have len: "length os = ring_dist b e (length buf)" using assms(3) by auto
  show ?thesis
  proof (cases b e rule: linorder_cases)
    case less
    then have "take (e - b) (drop b buf) = os"
      using assms ring_elems_straight [of b "e - b" buf] by (simp add: ring_dist_def)
    with less assms(4) show ?thesis
      by (auto simp: MoveBuffer_def vb_MoveRange_def VectorBuffer_def lay_zero len ring_dist_def)
  next
    case equal
    then have "os = []" using len by (simp add: ring_dist_def)
    with equal show ?thesis by (simp add: MoveBuffer_def VectorBuffer_def lay_Nil)
  next
    case greater
    let ?c = "length buf"
    have d: "ring_dist b e ?c = (?c - b) + e" using greater by (simp add: ring_dist_def)
    have "ring_elems buf ?c e = ring_elems buf 0 e"
      using ring_elems_mod_start [of buf ?c e] by simp
    then have os: "os = drop b buf @ take e buf"
      using assms ring_elems_append [of buf b "?c - b" e] ring_elems_straight [of b "?c - b" buf]
        ring_elems_straight [of 0 e buf] greater
      by (simp add: d)
    show ?thesis
      using greater assms(1,2,4)
      by (auto simp: MoveBuffer_def vb_MoveRange_def VectorBuffer_def lay_zero os take_vb_Destruct Let_def)
  qed
qed

lemma SetCapacityTo_rep [simp]:
  assumes "b < c" "length xs < c" "length xs \<le> n"
  shows "SetCapacityTo n (cd_rep c b xs) = cd_rep (n + 1) 0 xs"
proof -
  have "ring_elems (lay c b (map Some xs)) b (length xs) = map Some xs"
    using ring_elems_lay [of b c "map Some xs"] assms by simp
  then obtain f where "MoveBuffer (lay c b (map Some xs)) b ((b + length xs) mod c) (VectorBuffer (n + 1))
      = (f, lay (n + 1) 0 (map Some xs), 0, length xs)"
    using MoveBuffer_elems [of b "lay c b (map Some xs)" "(b + length xs) mod c" "map Some xs" "n + 1"]
      assms by (auto simp: ring_dist_unique)
  then show ?thesis
    using assms by (simp add: SetCapacityTo_def cd_rep_def)
qed

lemma SetCapacityTo_none:
  assumes "cd_buffer d = []" "cd_begin d = cd_end d"
  shows "SetCapacityTo n d = cd_rep (n + 1) 0 []"
  using assms by (simp add: SetCapacityTo_def MoveBuffer_def VectorBuffer_def cd_rep_def lay_Nil)

lemma Expand_rep:
  assumes "cd_inv d"
  obtains c b where "ExpandCapacityIfNecessary n d = cd_rep c b (cd_list d)" "b < c"
    "length (cd_list d) + n < c" "0 < n \<or> cd_buffer d \<noteq> []"
  | "ExpandCapacityIfNecessary n d = d" "n = 0" "cd_buffer d = []"
  using assms
proof (cases rule: cd_inv_cases)
  case (storage c b xs)
  show ?thesis
  proof (cases "length xs + n \<le> c - 1")
    case True
    with storage show ?thesis
      by (intro that(1) [of c b]) (auto simp: ExpandCapacityIfNecessary_def Let_def)
  next
    case False
    let ?n = "max (max (length xs + n) 3) (c - 1 + (c - 1) div 4)"
    have "ExpandCapacityIfNecessary n d = cd_rep (?n + 1) 0 xs"
      using False storage
      by (simp add: ExpandCapacityIfNecessary_def Let_def kCircularBufferInitialCapacity_def)
    with storage show ?thesis by (intro that(1) [of "?n + 1" 0]) auto
  qed
next
  case none
  then have "cd_size d = 0" by (simp add: cd_size_def)
  show ?thesis
  proof (cases "n = 0")
    case True
    with none \<open>cd_size d = 0\<close> show ?thesis
      by (intro that(2)) (auto simp: ExpandCapacityIfNecessary_def)
  next
    case False
    then have "ExpandCapacityIfNecessary n d = cd_rep (max (max n 3) 0 + 1) 0 []"
      using none \<open>cd_size d = 0\<close>
      by (simp add: ExpandCapacityIfNecessary_def Let_def kCircularBufferInitialCapacity_def
          SetCapacityTo_none cd_capacity_def)
    with none False show ?thesis by (intro that(1) [of "max (max n 3) 0 + 1" 0]) auto
  qed
qed

lemma Shrink_rep:
  assumes "b < c" "length xs < c"
  shows "\<exists>c' b'. ShrinkCapacityIfNecessary (cd_rep c b xs) = cd_rep c' b' xs \<and> b' < c' \<and> length xs < c'"
proof -
  let ?n = "max 3 (length xs + length xs div 4)"
  have "ShrinkCapacityIfNecessary (cd_rep c b xs) \<in> {cd_rep c b xs, cd_rep (?n + 1) 0 xs}"
    using assms by (auto simp: ShrinkCapacityIfNecessary_def Let_def kCircularBufferInitialCapacity_def)
  then consider "ShrinkCapacityIfNecessary (cd_rep c b xs) = cd_rep c b xs"
    | "ShrinkCapacityIfNecessary (cd_rep c b xs) = cd_rep (?n + 1) 0 xs" by blast
  then show ?thesis
    by cases (use assms in \<open>blast\<close>, intro exI [of _ "?n + 1"] exI [of _ 0], auto)
qed

section \<open>The ends\<close>

lemma succ_mod: "e < c \<Longrightarrow> (if e = c - Suc 0 then 0 else Suc e) = Suc e mod c"
  by (cases "Suc e = c") auto

lemma succ_mod': "e < c \<Longrightarrow> (if Suc e = c then 0 else Suc e) = Suc e mod c"
  by (cases "Suc e = c") auto

lemma pred_mod: "e < c \<Longrightarrow> (if e = 0 then c - Suc 0 else e - Suc 0) = (e + (c - Suc 0)) mod c"
  by (auto simp: mod_if)

lemma lay_put_back:
  assumes "b < c" "length xs < c"
  shows "(lay c b (map Some xs))[(b + length xs) mod c := Some x] = lay c b (map Some (xs @ [x]))"
proof -
  have "lay c b (map Some xs) = lay c b (map Some xs @ [None])"
    using lay_pad [of b c "map Some xs" 1] assms by simp
  then show ?thesis
    using lay_update [of b c "length xs" "map Some xs @ [None]" "Some x"] assms
    by (simp add: list_update_append)
qed

lemma lay_put_front:
  assumes "b < c" "length xs < c"
  shows "(lay c b (map Some xs))[(b + (c - 1)) mod c := Some x]
       = lay c ((b + (c - 1)) mod c) (map Some (x # xs))"
proof -
  let ?b = "(b + (c - 1)) mod c"
  have b: "?b < c" "(?b + 1) mod c = b" using assms by (auto simp: mod_simps)
  have "lay c b (map Some xs) = lay c ?b (None # map Some xs)"
    using lay_front [OF b(1), of "map Some xs"] assms b(2) by simp
  then show ?thesis
    using lay_update [of ?b c 0 "None # map Some xs" "Some x"] assms b(1) by simp
qed

lemma lay_del_front:
  assumes "b < c" "length xs < c" "xs \<noteq> []"
  shows "(lay c b (map Some xs))[b := None] = lay c ((b + 1) mod c) (map Some (tl xs))"
proof -
  have "(lay c b (map Some xs))[(b + 0) mod c := None] = lay c b ((map Some xs)[0 := None])"
    using assms by (intro lay_update) auto
  then show ?thesis
    using lay_front [of b c "map Some (tl xs)"] assms by (cases xs) auto
qed

lemma lay_del_back:
  assumes "b < c" "length xs < c" "xs \<noteq> []"
  shows "(lay c b (map Some xs))[(b + (length xs - 1)) mod c := None] = lay c b (map Some (butlast xs))"
proof -
  have "(map Some xs)[length xs - 1 := None] = map Some (butlast xs) @ replicate 1 None"
    using assms(3) by (cases xs rule: rev_cases) (auto simp: list_update_append)
  then show ?thesis
    using lay_update [of b c "length xs - 1" "map Some xs" None]
      lay_pad [of b c "map Some (butlast xs)" 1] assms by auto
qed

lemma emplace_back_rep:
  assumes "cd_inv d"
  shows "\<exists>c b. cd_emplace_back d x = cd_rep c b (cd_list d @ [x]) \<and> b < c \<and> length (cd_list d @ [x]) < c"
proof -
  obtain c b where e: "ExpandCapacityIfNecessary 1 d = cd_rep c b (cd_list d)" "b < c"
    "length (cd_list d) + 1 < c" using Expand_rep [OF assms, of 1] by (metis zero_neq_one)
  have "cd_emplace_back d x = cd_rep c b (cd_list d @ [x])"
    using e lay_put_back [of b c "cd_list d" x]
    by (simp add: cd_emplace_back_def Let_def cd_rep_def mod_simps succ_mod
        cong: if_cong split del: if_split)
  with e show ?thesis by auto
qed

lemma emplace_front_rep:
  assumes "cd_inv d"
  shows "\<exists>c b. cd_emplace_front d x = cd_rep c b (x # cd_list d) \<and> b < c \<and> length (x # cd_list d) < c"
proof -
  obtain c b where e: "ExpandCapacityIfNecessary 1 d = cd_rep c b (cd_list d)" "b < c"
    "length (cd_list d) + 1 < c" using Expand_rep [OF assms, of 1] by (metis zero_neq_one)
  let ?b = "(b + (c - 1)) mod c"
  have "b + (c - 1) + length (x # cd_list d) = b + length (cd_list d) + c" using e by simp
  then have "(?b + length (x # cd_list d)) mod c = (b + length (cd_list d)) mod c"
    by (metis mod_add_left_eq mod_add_self2)
  then have "cd_emplace_front d x = cd_rep c ?b (x # cd_list d)"
    using e lay_put_front [of b c "cd_list d" x]
    by (simp add: cd_emplace_front_def Let_def cd_rep_def pred_mod
        cong: if_cong split del: if_split)
  with e show ?thesis by (intro exI [of _ c] exI [of _ ?b]) auto
qed

lemma pop_front_shrunk:
  assumes "cd_inv d" "cd_list d \<noteq> []"
  obtains c b where "cd_pop_front d = ShrinkCapacityIfNecessary (cd_rep c b (tl (cd_list d)))"
    "b < c" "length (tl (cd_list d)) < c"
  using assms(1)
proof (cases rule: cd_inv_cases)
  case (storage c b xs)
  with assms(2) have ne: "xs \<noteq> []" by simp
  have "(b + length xs) mod c = ((b + 1) mod c + length (tl xs)) mod c"
    using ne by (cases xs) (auto simp: mod_simps)
  then have "cd_pop_front d = ShrinkCapacityIfNecessary (cd_rep c ((b + 1) mod c) (tl xs))"
    using storage ne lay_del_front [of b c xs]
    by (simp add: cd_pop_front_def Let_def cd_rep_def vb_Destruct_single succ_mod'
        cong: if_cong split del: if_split)
  with storage show ?thesis by (intro that [of c "(b + 1) mod c"]) auto
qed (use assms in simp)

lemma pop_front_rep:
  assumes "cd_inv d" "cd_list d \<noteq> []"
  shows "\<exists>c b. cd_pop_front d = cd_rep c b (tl (cd_list d)) \<and> b < c \<and> length (tl (cd_list d)) < c"
  using pop_front_shrunk [OF assms] Shrink_rep by metis

lemma pop_back_rep:
  assumes "cd_inv d" "cd_list d \<noteq> []"
  shows "\<exists>c b. cd_pop_back d = cd_rep c b (butlast (cd_list d)) \<and> b < c \<and> length (butlast (cd_list d)) < c"
  using assms(1)
proof (cases rule: cd_inv_cases)
  case (storage c b xs)
  with assms(2) have ne: "xs \<noteq> []" by simp
  have e: "((b + length xs) mod c + (c - 1)) mod c = (b + (length xs - 1)) mod c"
  proof -
    have "b + length xs + (c - 1) = b + (length xs - 1) + c"
      using ne storage by (cases xs) auto
    then show ?thesis by (metis mod_add_left_eq mod_add_self2)
  qed
  have "cd_pop_back d = ShrinkCapacityIfNecessary (cd_rep c b (butlast xs))"
    using storage ne lay_del_back [of b c xs] e
    by (simp add: cd_pop_back_def Let_def cd_rep_def vb_Destruct_single pred_mod
        cong: if_cong split del: if_split)
  then show ?thesis
    using Shrink_rep [of b c "butlast xs"] storage by simp
qed (use assms in simp)

section \<open>Iterators by offset\<close>

text \<open>The index of the cell at offset \<open>k\<close> from \<open>b\<close>.\<close>

definition ring_pos :: "nat \<Rightarrow> nat \<Rightarrow> nat \<Rightarrow> nat" where
  "ring_pos c b k = (b + k) mod c"

lemma ring_pos_less [simp]: "b < c \<Longrightarrow> ring_pos c b k < c"
  by (simp add: ring_pos_def)

lemma ring_pos_0 [simp]: "b < c \<Longrightarrow> ring_pos c b 0 = b"
  by (simp add: ring_pos_def)

lemma ring_pos_inject [simp]: "j < c \<Longrightarrow> k < c \<Longrightarrow> ring_pos c b j = ring_pos c b k \<longleftrightarrow> j = k"
  using mod_add_inject [of j c k b] by (auto simp: ring_pos_def)

lemma ring_pos_begin [simp]: "b < c \<Longrightarrow> k < c \<Longrightarrow> ring_pos c b k = b \<longleftrightarrow> k = 0"
  using ring_pos_inject [of k c 0 b] by simp

lemma ring_pos_pos: "ring_pos c (ring_pos c b j) k = ring_pos c b (j + k)"
  by (simp add: ring_pos_def mod_simps add.assoc)

lemma ring_pos_succ: "b < c \<Longrightarrow>
  (if ring_pos c b k + 1 = c then 0 else ring_pos c b k + 1) = ring_pos c b (Suc k)"
  by (cases "Suc ((b + k) mod c) = c") (auto simp: ring_pos_def mod_Suc)

lemma ring_pos_pred:
  assumes "b < c" "0 < k"
  shows "(if ring_pos c b k = 0 then c - 1 else ring_pos c b k - 1) = ring_pos c b (k - 1)"
proof -
  have "b + k + (c - 1) = b + (k - 1) + c" using assms by linarith
  then have "((b + k) mod c + (c - 1)) mod c = (b + (k - 1)) mod c"
    by (metis mod_add_left_eq mod_add_self2)
  then show ?thesis
    using pred_mod [of "ring_pos c b k" c] assms by (auto simp: ring_pos_def split: if_splits)
qed

text \<open>A deque under reconstruction: cells \<open>os\<close> from \<open>b\<close> on, and any end index.\<close>

definition cd_work :: "nat \<Rightarrow> nat \<Rightarrow> 'a option list \<Rightarrow> nat \<Rightarrow> 'a circular_deque" where
  "cd_work c b os e = \<lparr>cd_buffer = lay c b os, cd_begin = b, cd_end = e\<rparr>"

lemma cd_work_sel [simp]:
  "cd_buffer (cd_work c b os e) = lay c b os"
  "cd_begin (cd_work c b os e) = b"
  "cd_end (cd_work c b os e) = e"
  "(cd_work c b os e)\<lparr>cd_buffer := lay c b os'\<rparr> = cd_work c b os' e"
  "(cd_work c b os e)\<lparr>cd_end := e'\<rparr> = cd_work c b os e'"
  by (simp_all add: cd_work_def)

lemma cd_rep_work: "cd_rep c b xs = cd_work c b (map Some xs) (ring_pos c b (length xs))"
  by (simp add: cd_rep_def cd_work_def ring_pos_def)

lemma Offset_dist: "OffsetFromBegin d i = ring_dist (cd_begin d) i (length (cd_buffer d))"
  by (simp add: OffsetFromBegin_def ring_dist_def)

lemma work_Offset [simp]:
  "b < c \<Longrightarrow> k < c \<Longrightarrow> OffsetFromBegin (cd_work c b os e) (ring_pos c b k) = k"
  by (simp add: Offset_dist ring_dist_unique ring_pos_def)

lemma cd_work_steps [simp]:
  assumes "b < c"
  shows "it_Increment (cd_work c b os e) (ring_pos c b k) = ring_pos c b (Suc k)"
    "0 < k \<Longrightarrow> it_Decrement (cd_work c b os e) (ring_pos c b k) = ring_pos c b (k - 1)"
    "k < c \<Longrightarrow> l < c \<Longrightarrow> it_less (cd_work c b os e) (ring_pos c b k) (ring_pos c b l) \<longleftrightarrow> k < l"
  using ring_pos_succ [OF assms, of k] ring_pos_pred [OF assms, of k] assms
  by (auto simp: it_Increment_def it_Decrement_def it_less_def split: if_splits)

lemma lay_update_pos [simp]:
  "b < c \<Longrightarrow> k < length os \<Longrightarrow> length os \<le> c \<Longrightarrow>
   (lay c b os)[ring_pos c b k := v] = lay c b (os[k := v])"
  by (simp add: ring_pos_def lay_update)

lemma nth_lay_pos [simp]:
  "b < c \<Longrightarrow> k < c \<Longrightarrow> lay c b os ! ring_pos c b k = (if k < length os then os ! k else None)"
  by (simp add: ring_pos_def nth_lay_mod)

lemma MoveCell_lay [simp]:
  assumes "b < c" "j < length os" "k < length os" "length os \<le> c"
  shows "vb_MoveCell (lay c b os) (ring_pos c b j) (ring_pos c b k) = lay c b (os[k := os ! j, j := None])"
  using assms by (simp add: vb_MoveCell_def)

section \<open>The shifting loops\<close>

lemma replicate_snoc_append: "replicate (Suc m) x @ post = replicate m x @ x # post"
  by (induction m) auto

lemma move_right:
  assumes "0 < n"
  shows "(pre @ x # replicate n None @ post)[length pre + n := x, length pre := None]
    = pre @ replicate n None @ x # post"
proof -
  obtain m where n: "n = Suc m" using assms by (cases n) auto
  have "replicate n None @ post = replicate m None @ None # post"
    using replicate_snoc_append [of m None post] n by simp
  then show ?thesis by (simp add: n list_update_append)
qed

lemma move_left:
  assumes "0 < n"
  shows "(pre @ replicate n None @ x # post)[length pre := x, length pre + n := None]
    = pre @ x # replicate n None @ post"
proof -
  obtain m where n: "n = Suc m" using assms by (cases n) auto
  have "(pre @ replicate n None @ x # post)[length pre := x, length pre + n := None]
      = ((pre @ x # replicate m None) @ x # post)[length (pre @ x # replicate m None) := None]"
    by (simp add: n)
  also have "\<dots> = pre @ x # replicate m None @ None # post"
    by (simp only: list_update_length) simp
  finally show ?thesis
    by (simp only: n replicate_snoc_append)
qed

lemma shift_right_work:
  assumes "b < c" "0 < n" "length pre + length mid + n + length post < c" "length mid \<le> fuel"
  shows "shift_right fuel (cd_work c b (pre @ mid @ replicate n None @ post) e)
      (ring_pos c b (length pre)) (ring_pos c b (length pre + length mid))
      (ring_pos c b (length pre + length mid + n))
    = Some (cd_work c b (pre @ replicate n None @ mid @ post) e)"
  using assms(3,4)
proof (induction mid arbitrary: fuel post rule: rev_induct)
  case Nil
  then show ?case by (subst shift_right.simps) simp
next
  case (snoc x mid)
  let ?src = "length (pre @ mid)"
  obtain f where f: "fuel = Suc f" "length mid \<le> f" using snoc.prems by (cases fuel) auto
  let ?os = "(pre @ mid) @ x # replicate n None @ post"
  have mv: "?os[?src + n := ?os ! ?src, ?src := None] = pre @ mid @ replicate n None @ x # post"
    using move_right [OF assms(2), of "pre @ mid" x post] by (simp only: nth_append_length) simp
  have "shift_right fuel (cd_work c b ?os e) (ring_pos c b (length pre)) (ring_pos c b (Suc ?src))
        (ring_pos c b (Suc ?src + n))
      = shift_right f (cd_work c b (?os[?src + n := ?os ! ?src, ?src := None]) e)
        (ring_pos c b (length pre)) (ring_pos c b ?src) (ring_pos c b (?src + n))"
    using snoc.prems f assms(1,2) by (subst shift_right.simps) simp
  then show ?case
    using snoc.IH [of "x # post" f] snoc.prems f mv by simp
qed

lemma fill_cells_work:
  assumes "b < c" "length pre + length vs + length post \<le> c" "length pre + length vs < c"
    "length vs \<le> fuel"
  shows "fill_cells fuel (cd_work c b (pre @ replicate (length vs) None @ post) e)
      (ring_pos c b (length pre)) (ring_pos c b (length pre + length vs)) vs
    = Some (cd_work c b (pre @ map Some vs @ post) e)"
  using assms(2-4)
proof (induction vs arbitrary: pre fuel)
  case Nil
  then show ?case using assms(1) by (subst fill_cells.simps) simp
next
  case (Cons v vs)
  obtain f where f: "fuel = Suc f" "length vs \<le> f" using Cons.prems by (cases fuel) auto
  show ?case
    using Cons.IH [of "pre @ [Some v]" f] Cons.prems f assms(1)
    by (subst fill_cells.simps) (simp add: list_update_append)
qed

lemma shift_left_work:
  assumes "b < c" "0 < n" "length pre + n + length mid < c" "length mid \<le> fuel"
  shows "shift_left fuel (cd_work c b (pre @ replicate n None @ mid) e)
      (ring_pos c b (length pre + n)) (ring_pos c b (length pre + n + length mid))
      (ring_pos c b (length pre))
    = Some (cd_work c b (pre @ mid @ replicate n None) e, ring_pos c b (length pre + length mid))"
  using assms(3,4)
proof (induction mid arbitrary: pre fuel)
  case Nil
  then show ?case using assms(1) by (subst shift_left.simps) simp
next
  case (Cons x mid)
  let ?os = "pre @ replicate n None @ x # mid"
  obtain f where f: "fuel = Suc f" "length mid \<le> f" using Cons.prems by (cases fuel) auto
  have mv: "?os[length pre := ?os ! (length pre + n), length pre + n := None]
      = (pre @ [x]) @ replicate n None @ mid"
    using move_left [OF assms(2), of pre x mid] by (simp add: nth_append)
  have "shift_left fuel (cd_work c b ?os e) (ring_pos c b (length pre + n))
        (ring_pos c b (length pre + n + length (x # mid))) (ring_pos c b (length pre))
      = shift_left f (cd_work c b (?os[length pre := ?os ! (length pre + n), length pre + n := None]) e)
        (ring_pos c b (Suc (length pre + n))) (ring_pos c b (length pre + n + length (x # mid)))
        (ring_pos c b (Suc (length pre)))"
    using Cons.prems f assms(1,2) by (subst shift_left.simps) simp
  then show ?case
    using Cons.IH [of "pre @ [x]" f] Cons.prems f mv by simp
qed

section \<open>Inserting and erasing\<close>

lemma length_cd_Destruct [simp]: "length (cd_DestructRange buf b e) = length buf"
  by (simp add: cd_DestructRange_def)

lemma nth_cd_Destruct:
  assumes "i < length buf" "b < length buf" "e < length buf"
  shows "cd_DestructRange buf b e ! i =
    (if ring_dist b i (length buf) < ring_dist b e (length buf) then None else buf ! i)"
  using assms by (auto simp: cd_DestructRange_def nth_vb_Destruct ring_dist_def)

lemma cd_Destruct_lay:
  assumes "b < c" "length pre + length mid + length post < c"
  shows "cd_DestructRange (lay c b (pre @ mid @ post)) (ring_pos c b (length pre))
      (ring_pos c b (length pre + length mid))
    = lay c b (pre @ replicate (length mid) None @ post)"
proof (rule lay_eqI [OF assms(1)])
  fix k assume k: "k < c"
  let ?p = "length pre" and ?m = "length mid"
  have "ring_dist (ring_pos c b ?p) (ring_pos c b k) c = (if ?p \<le> k then k - ?p else c - ?p + k)"
    "ring_dist (ring_pos c b ?p) (ring_pos c b (?p + ?m)) c = ?m"
    using ring_dist_shift [of b c ?p k] ring_dist_shift [of b c ?p "?p + ?m"] assms k
    by (auto simp: ring_pos_def)
  then have "ring_dist (ring_pos c b ?p) (ring_pos c b k) c
      < ring_dist (ring_pos c b ?p) (ring_pos c b (?p + ?m)) c \<longleftrightarrow> ?p \<le> k \<and> k < ?p + ?m"
    using assms k by auto
  then have "cd_DestructRange (lay c b (pre @ mid @ post)) (ring_pos c b ?p) (ring_pos c b (?p + ?m))
      ! ring_pos c b k = (if ?p \<le> k \<and> k < ?p + ?m then None else lay c b (pre @ mid @ post) ! ring_pos c b k)"
    using nth_cd_Destruct [of "ring_pos c b k" "lay c b (pre @ mid @ post)" "ring_pos c b ?p" "ring_pos c b (?p + ?m)"]
      assms by simp
  also have "\<dots> = (if k < length (pre @ replicate ?m None @ post)
      then (pre @ replicate ?m None @ post) ! k else None)"
    using assms k by (auto simp: nth_append)
  finally show "cd_DestructRange (lay c b (pre @ mid @ post)) (ring_pos c b ?p) (ring_pos c b (?p + ?m))
      ! ((b + k) mod c) = (if k < length (pre @ replicate ?m None @ post)
      then (pre @ replicate ?m None @ post) ! k else None)" by (simp add: ring_pos_def)
qed simp

text \<open>The position of the element \<open>k\<close>, as an iterator.\<close>

definition cd_iter :: "'a circular_deque \<Rightarrow> nat \<Rightarrow> nat" where
  "cd_iter d k = (if cd_buffer d = [] then cd_begin d else (cd_begin d + k) mod length (cd_buffer d))"

lemma cd_iter_rep [simp]: "b < c \<Longrightarrow> cd_iter (cd_rep c b xs) k = ring_pos c b k"
  by (simp add: cd_iter_def ring_pos_def)

lemma cd_iter_begin: "cd_inv d \<Longrightarrow> cd_iter d 0 = cd_begin d"
  by (auto simp: cd_iter_def cd_inv_def Let_def)

lemma cd_iter_end: "cd_inv d \<Longrightarrow> cd_iter d (length (cd_list d)) = cd_end d"
  by (erule cd_inv_cases) (auto simp: ring_pos_def, simp add: cd_iter_def)

lemma MakeRoomFor_rep:
  assumes "cd_inv d" "k \<le> length (cd_list d)" "0 < n"
  shows "\<exists>c b. MakeRoomFor n (cd_iter d k) d =
      Some (cd_work c b (map Some (take k (cd_list d)) @ replicate n None @ map Some (drop k (cd_list d)))
              (ring_pos c b (length (cd_list d) + n)), ring_pos c b k, ring_pos c b (k + n))
    \<and> b < c \<and> length (cd_list d) + n < c"
proof -
  let ?xs = "cd_list d"
  have off: "OffsetFromBegin d (cd_iter d k) = k"
    using assms(1)
  proof (cases rule: cd_inv_cases)
    case (storage c b xs)
    then show ?thesis using assms(2) by (simp add: Offset_dist ring_dist_unique ring_pos_def)
  next
    case none
    then show ?thesis using assms(2) by (simp add: cd_iter_def OffsetFromBegin_def)
  qed
  obtain c b where e: "ExpandCapacityIfNecessary n d = cd_rep c b ?xs" "b < c" "length ?xs + n < c"
    using Expand_rep [OF assms(1), of n] assms(3) by (metis less_irrefl)
  have xs: "map Some ?xs = map Some (take k ?xs) @ map Some (drop k ?xs)"
    by (metis append_take_drop_id map_append)
  have "lay c b (map Some ?xs) =
      lay c b (map Some (take k ?xs) @ map Some (drop k ?xs) @ replicate n None @ [])"
    using lay_pad [OF e(2), of "map Some ?xs" n] by (simp add: xs)
  then have w: "(cd_rep c b ?xs)\<lparr>cd_end := ring_pos c b (length ?xs + n)\<rparr> =
      cd_work c b (map Some (take k ?xs) @ map Some (drop k ?xs) @ replicate n None @ [])
        (ring_pos c b (length ?xs + n))"
    by (simp add: cd_rep_def cd_work_def)
  have "shift_right c (cd_work c b (map Some (take k ?xs) @ map Some (drop k ?xs) @ replicate n None @ [])
        (ring_pos c b (length ?xs + n))) (ring_pos c b k) (ring_pos c b (length ?xs))
        (ring_pos c b (length ?xs + n))
     = Some (cd_work c b (map Some (take k ?xs) @ replicate n None @ map Some (drop k ?xs) @ [])
        (ring_pos c b (length ?xs + n)))"
    using shift_right_work [OF e(2) assms(3), of "map Some (take k ?xs)" "map Some (drop k ?xs)" "[]" c] e assms
    by simp
  then show ?thesis
    using e assms w by (auto simp: MakeRoomFor_def off Let_def ring_pos_def mod_simps add.assoc)
qed

lemma lay_shift:
  "b < c \<Longrightarrow> n + length os \<le> c \<Longrightarrow> lay c b (replicate n None @ os) = lay c (ring_pos c b n) os"
proof (induction n arbitrary: b)
  case 0
  then show ?case by simp
next
  case (Suc n)
  have "lay c b (replicate (Suc n) None @ os) = lay c (ring_pos c b 1) (replicate n None @ os)"
    using lay_front [of b c "replicate n None @ os"] Suc.prems by (simp add: ring_pos_def)
  then show ?case using Suc by (simp add: ring_pos_pos)
qed

lemma Expand_pos:
  assumes "cd_inv d" "0 < n"
  obtains c b where "ExpandCapacityIfNecessary n d = cd_rep c b (cd_list d)" "b < c"
    "length (cd_list d) + n < c"
  using Expand_rep [OF assms(1), of n] assms(2) by (metis less_irrefl)

lemma cd_iter_eq_begin:
  assumes "cd_inv d" "k \<le> length (cd_list d)"
  shows "cd_iter d k = cd_begin d \<longleftrightarrow> k = 0"
  using assms(1) by (cases rule: cd_inv_cases) (use assms in \<open>auto simp: cd_iter_def ring_pos_def [symmetric]\<close>)

lemma insert_front_rep:
  assumes "cd_inv d" "vs \<noteq> []"
  shows "\<exists>c b. cd_insert_range d (cd_begin d) vs = Some (cd_rep c b (vs @ cd_list d))
    \<and> b < c \<and> length (vs @ cd_list d) < c"
proof -
  let ?xs = "cd_list d" and ?n = "length vs"
  obtain c b where e: "ExpandCapacityIfNecessary ?n d = cd_rep c b ?xs" "b < c" "length ?xs + ?n < c"
    using Expand_pos [OF assms(1), of ?n] assms(2) by auto
  define b' where "b' = ring_pos c b (c - ?n)"
  have b': "b' < c" "ring_pos c b' ?n = b" "(b + c - ?n) mod c = b'"
    using e by (simp_all add: b'_def ring_pos_pos) (simp_all add: ring_pos_def)
  have end_eq: "ring_pos c b (length ?xs) = ring_pos c b' (length (vs @ ?xs))"
    using ring_pos_pos [of c b' ?n "length ?xs"] b' by simp
  have "lay c b (map Some ?xs) = lay c b' (replicate ?n None @ map Some ?xs)"
    using lay_shift [of b' c ?n "map Some ?xs"] b' e by simp
  then have w: "(cd_rep c b ?xs)\<lparr>cd_begin := b'\<rparr> =
      cd_work c b' ([] @ replicate ?n None @ map Some ?xs) (ring_pos c b (length ?xs))"
    by (simp add: cd_rep_def cd_work_def ring_pos_def)
  have "fill_cells c (cd_work c b' ([] @ replicate ?n None @ map Some ?xs) (ring_pos c b (length ?xs))) b' b vs
      = Some (cd_work c b' (map Some vs @ map Some ?xs) (ring_pos c b (length ?xs)))"
    using fill_cells_work [OF b'(1), of "[]" vs "map Some ?xs" c] e b' by simp
  then have "cd_insert_range d (cd_begin d) vs = Some (cd_rep c b' (vs @ ?xs))"
    using w e b' assms(2) end_eq by (simp add: cd_insert_range_def Let_def cd_rep_work)
  with b' e show ?thesis by (intro exI [of _ c] exI [of _ b']) auto
qed

lemma insert_range_rep:
  assumes "cd_inv d" "k \<le> length (cd_list d)"
  shows "\<exists>d'. cd_insert_range d (cd_iter d k) vs = Some d' \<and> cd_inv d'
    \<and> cd_list d' = take k (cd_list d) @ vs @ drop k (cd_list d)"
proof (cases "vs = [] \<or> k = 0")
  case True
  then show ?thesis
  proof (cases "vs = []")
    case True
    then show ?thesis using assms by (simp add: cd_insert_range_def)
  next
    case False
    with True insert_front_rep [OF assms(1) False] show ?thesis by (auto simp: cd_iter_begin assms)
  qed
next
  case False
  let ?xs = "cd_list d" and ?n = "length vs"
  obtain c b where m: "MakeRoomFor ?n (cd_iter d k) d =
      Some (cd_work c b (map Some (take k ?xs) @ replicate ?n None @ map Some (drop k ?xs))
              (ring_pos c b (length ?xs + ?n)), ring_pos c b k, ring_pos c b (k + ?n))"
    "b < c" "length ?xs + ?n < c"
    using MakeRoomFor_rep [OF assms, of ?n] False by auto
  have "fill_cells c (cd_work c b (map Some (take k ?xs) @ replicate ?n None @ map Some (drop k ?xs))
        (ring_pos c b (length ?xs + ?n))) (ring_pos c b k) (ring_pos c b (k + ?n)) vs
     = Some (cd_work c b (map Some (take k ?xs) @ map Some vs @ map Some (drop k ?xs))
        (ring_pos c b (length ?xs + ?n)))"
    using fill_cells_work [OF m(2), of "map Some (take k ?xs)" vs "map Some (drop k ?xs)" c] m assms(2)
    by simp
  then have "cd_insert_range d (cd_iter d k) vs = Some (cd_rep c b (take k ?xs @ vs @ drop k ?xs))"
    using m assms False cd_iter_eq_begin [OF assms] by (simp add: cd_insert_range_def cd_rep_work add.commute)
  with m assms show ?thesis by auto
qed

lemma emplace_front_many:
  "cd_inv d \<Longrightarrow> cd_inv (((\<lambda>d. cd_emplace_front d v) ^^ n) d) \<and>
     cd_list (((\<lambda>d. cd_emplace_front d v) ^^ n) d) = replicate n v @ cd_list d"
proof (induction n)
  case (Suc n)
  from emplace_front_rep [of "((\<lambda>d. cd_emplace_front d v) ^^ n) d" v] Suc show ?case by auto
qed simp

lemma Expand_keeps: "cd_inv d \<Longrightarrow> cd_inv (ExpandCapacityIfNecessary n d) \<and>
    cd_list (ExpandCapacityIfNecessary n d) = cd_list d"
  using Expand_rep [of d n] by (metis add_lessD1 cd_inv_rep cd_list_rep)

lemma insert_count_rep:
  assumes "cd_inv d" "k \<le> length (cd_list d)"
  shows "\<exists>d'. cd_insert_count d (cd_iter d k) n v = Some d' \<and> cd_inv d'
    \<and> cd_list d' = take k (cd_list d) @ replicate n v @ drop k (cd_list d)"
proof (cases "k = 0")
  case True
  then show ?thesis
    using assms emplace_front_many [of "ExpandCapacityIfNecessary n d" n v] Expand_keeps [OF assms(1), of n]
    by (simp add: cd_insert_count_def cd_iter_begin)
next
  case False
  note nb = cd_iter_eq_begin [OF assms]
  show ?thesis
  proof (cases "n = 0")
    case True
    then show ?thesis using False nb assms
      by (simp add: cd_insert_count_def MakeRoomFor_def it_less_def fill_cells.simps)
  next
    case n: False
    then have "cd_insert_count d (cd_iter d k) n v = cd_insert_range d (cd_iter d k) (replicate n v)"
      using False nb by (simp add: cd_insert_count_def cd_insert_range_def)
    then show ?thesis using insert_range_rep [OF assms, of "replicate n v"] by simp
  qed
qed

lemma emplace_rep:
  assumes "cd_inv d" "k \<le> length (cd_list d)"
  shows "\<exists>d'. cd_emplace d (cd_iter d k) v = Some (d', cd_iter d' k) \<and> cd_inv d'
    \<and> cd_list d' = take k (cd_list d) @ v # drop k (cd_list d)"
proof (cases "k = 0")
  case True
  then show ?thesis
    using emplace_front_rep [OF assms(1), of v] assms
    by (auto simp: cd_emplace_def cd_iter_begin Let_def)
next
  case False
  let ?xs = "cd_list d"
  obtain c b where m: "MakeRoomFor 1 (cd_iter d k) d =
      Some (cd_work c b (map Some (take k ?xs) @ replicate 1 None @ map Some (drop k ?xs))
              (ring_pos c b (length ?xs + 1)), ring_pos c b k, ring_pos c b (k + 1))"
    "b < c" "length ?xs + 1 < c"
    using MakeRoomFor_rep [OF assms, of 1] by auto
  have "cd_emplace d (cd_iter d k) v = Some (cd_rep c b (take k ?xs @ v # drop k ?xs), ring_pos c b k)"
    using m assms False cd_iter_eq_begin [OF assms]
    by (simp add: cd_emplace_def cd_rep_work list_update_append min_def)
  with m assms show ?thesis by auto
qed

lemma split_three:
  "i \<le> j \<Longrightarrow> j \<le> length xs \<Longrightarrow> xs = take i xs @ take (j - i) (drop i xs) @ drop j xs"
  by (metis add.commute append_take_drop_id drop_drop le_add_diff_inverse2)

text \<open>After destroying the erased elements: either the begin index skips them, or the
  elements behind them are shifted down.\<close>

lemma erase_unfold:
  assumes "b < c" "length xs < c" "i < j" "j \<le> length xs"
  defines "w \<equiv> cd_work c b (map Some (take i xs) @ replicate (j - i) None @ map Some (drop j xs))
    (ring_pos c b (length xs))"
  shows "cd_erase (cd_rep c b xs) (ring_pos c b i) (ring_pos c b j) =
    (if i = 0 then Some (w\<lparr>cd_begin := ring_pos c b j\<rparr>, ring_pos c b j)
     else case shift_left c w (ring_pos c b j) (ring_pos c b (length xs)) (ring_pos c b i) of
            None \<Rightarrow> None
          | Some (d, dest) \<Rightarrow> Some (d\<lparr>cd_end := dest\<rparr>, ring_pos c b i))"
proof -
  let ?pre = "take i xs" and ?mid = "take (j - i) (drop i xs)" and ?post = "drop j xs"
  have xs: "xs = ?pre @ ?mid @ ?post" using split_three [of i j xs] assms by simp
  have len: "length ?pre = i" "length ?mid = j - i" "length ?post = length xs - j"
    using assms by auto
  have "cd_DestructRange (lay c b (map Some xs)) (ring_pos c b i) (ring_pos c b j) =
      lay c b (map Some ?pre @ replicate (j - i) None @ map Some ?post)"
    using cd_Destruct_lay [of b c "map Some ?pre" "map Some ?mid" "map Some ?post"] assms(1-4) xs len
    by (metis le_add_diff_inverse length_append length_map less_imp_le map_append)
  then have w: "(cd_rep c b xs)\<lparr>cd_buffer :=
      cd_DestructRange (cd_buffer (cd_rep c b xs)) (ring_pos c b i) (ring_pos c b j)\<rparr> = w"
    by (simp add: cd_rep_work w_def)
  show ?thesis
    using assms(1-4) unfolding cd_erase_def Let_def w by (simp add: w_def)
qed

lemma erase_rep:
  assumes "cd_inv d" "i \<le> j" "j \<le> length (cd_list d)"
  shows "\<exists>d'. cd_erase d (cd_iter d i) (cd_iter d j) = Some (d', cd_iter d' i) \<and> cd_inv d'
    \<and> cd_list d' = take i (cd_list d) @ drop j (cd_list d)"
  using assms(1)
proof (cases rule: cd_inv_cases)
  case none
  then show ?thesis using assms by (auto simp: cd_erase_def)
next
  case (storage c b xs)
  have ij: "j \<le> length xs" using assms storage by simp
  consider "i = j" | "i < j" "i = 0" | "i < j" "0 < i" using assms(2) by linarith
  then show ?thesis
  proof cases
    case 1
    then show ?thesis using assms storage by (simp add: cd_erase_def)
  next
    case 2
    have "ring_pos c b (j + (length xs - j)) = ring_pos c b (length xs)" using ij by simp
    then have "cd_erase d (ring_pos c b i) (ring_pos c b j) =
        Some (cd_rep c (ring_pos c b j) (drop j xs), ring_pos c b j)"
      using 2 erase_unfold [OF storage(2,3), of i j] storage(1) ij
        lay_shift [OF storage(2), of j "map Some (drop j xs)"] storage
      by (simp add: cd_work_def cd_rep_work ring_pos_pos)
    then show ?thesis using 2 storage ij by simp
  next
    case 3
    let ?os = "take i xs @ drop j xs"
    have len: "length ?os = i + (length xs - j)" "length (take i xs) = i"
      and ji: "i + (j - i) = j" using 3 ij by auto
    have "shift_left c (cd_work c b (map Some (take i xs) @ replicate (j - i) None @ map Some (drop j xs))
          (ring_pos c b (length xs))) (ring_pos c b j) (ring_pos c b (length xs)) (ring_pos c b i) =
        Some (cd_work c b (map Some ?os @ replicate (j - i) None) (ring_pos c b (length xs)),
              ring_pos c b (length ?os))"
      using shift_left_work [OF storage(2), of "j - i" "map Some (take i xs)" "map Some (drop j xs)" c]
        3 storage ij by (simp only: length_map len ji) simp
    moreover have "lay c b (map Some ?os @ replicate (j - i) None) = lay c b (map Some ?os)"
      using lay_pad [OF storage(2), of "map Some ?os" "j - i"] .
    ultimately have "cd_erase d (ring_pos c b i) (ring_pos c b j) = Some (cd_rep c b ?os, ring_pos c b i)"
      using erase_unfold [OF storage(2,3) 3(1) ij] 3 storage(1)
      by (simp del: map_append length_append add: cd_rep_work cd_work_def)
    then show ?thesis using storage 3 ij by auto
  qed
qed

section \<open>Whole-container operations\<close>

lemma cd_new_inv [simp]: "cd_inv cd_new" "cd_list cd_new = []"
  by (simp_all add: cd_new_def cd_inv_def cd_list_def cd_size_def)

lemma cd_size_list: "cd_inv d \<Longrightarrow> cd_size d = length (cd_list d)"
  by (simp add: cd_list_def)

lemma Destruct_all:
  "b < c \<Longrightarrow> length xs < c \<Longrightarrow>
   cd_DestructRange (lay c b (map Some xs)) b (ring_pos c b (length xs)) = replicate c None"
  using cd_Destruct_lay [of b c "[]" "map Some xs" "[]"] lay_pad [of b c "[]" "length xs"]
  by (simp add: lay_Nil)

lemma Clear_rep:
  assumes "cd_inv d"
  shows "cd_inv (ClearRetainCapacity d) \<and> cd_list (ClearRetainCapacity d) = []
    \<and> cd_capacity (ClearRetainCapacity d) = cd_capacity d"
  using assms
proof (cases rule: cd_inv_cases)
  case (storage c b xs)
  then have "ClearRetainCapacity d = cd_rep c 0 []"
    by (simp add: ClearRetainCapacity_def cd_rep_work Destruct_all cd_work_def lay_Nil)
  with storage show ?thesis by auto
next
  case none
  then have "ClearRetainCapacity d = cd_new"
    by (simp add: ClearRetainCapacity_def cd_DestructRange_def cd_new_def)
  with none show ?thesis by (simp add: cd_capacity_def cd_new_def [symmetric]) (simp add: cd_new_def)
qed

lemma clear_rep: "cd_clear d = cd_new"
  by (simp add: cd_clear_def ClearRetainCapacity_def cd_new_def)

lemma SetCapacityTo_keeps:
  assumes "cd_inv d" "length (cd_list d) \<le> n"
  shows "cd_inv (SetCapacityTo n d) \<and> cd_list (SetCapacityTo n d) = cd_list d
    \<and> cd_capacity (SetCapacityTo n d) = n"
  using assms(1) by (cases rule: cd_inv_cases) (use assms(2) in \<open>auto simp: SetCapacityTo_none\<close>)

lemma cd_list_capacity: "cd_inv d \<Longrightarrow> length (cd_list d) \<le> cd_capacity d"
  by (erule cd_inv_cases) auto

lemma reserve_rep:
  assumes "cd_inv d"
  shows "cd_inv (cd_reserve n d) \<and> cd_list (cd_reserve n d) = cd_list d
    \<and> cd_capacity (cd_reserve n d) = max n (cd_capacity d)"
  using SetCapacityTo_keeps [OF assms, of n] cd_list_capacity [OF assms] assms
  by (auto simp: cd_reserve_def)

lemma cd_empty_list: "cd_inv d \<Longrightarrow> cd_empty d \<longleftrightarrow> cd_list d = []"
  by (erule cd_inv_cases) (auto simp: cd_empty_def ring_pos_def [symmetric] eq_commute [of _ "ring_pos _ _ _"])

lemma shrink_to_fit_rep:
  assumes "cd_inv d"
  shows "cd_inv (cd_shrink_to_fit d) \<and> cd_list (cd_shrink_to_fit d) = cd_list d
    \<and> cd_capacity (cd_shrink_to_fit d) = length (cd_list d)"
proof (cases "cd_empty d")
  case True
  then have "cd_list d = []" using cd_empty_list [OF assms] by simp
  with True show ?thesis
    by (auto simp: cd_shrink_to_fit_def cd_inv_def cd_list_def cd_size_def cd_capacity_def cd_empty_def)
next
  case False
  then show ?thesis
    using SetCapacityTo_keeps [OF assms, of "cd_size d"] by (simp add: cd_shrink_to_fit_def cd_size_list assms)
qed

lemma emplace_back_all:
  "cd_inv d \<Longrightarrow> cd_inv (foldl cd_emplace_back d vs) \<and> cd_list (foldl cd_emplace_back d vs) = cd_list d @ vs"
proof (induction vs arbitrary: d)
  case (Cons v vs)
  from emplace_back_rep [OF Cons.prems, of v] have
    "cd_inv (cd_emplace_back d v)" "cd_list (cd_emplace_back d v) = cd_list d @ [v]" by auto
  with Cons.IH [of "cd_emplace_back d v"] show ?case by simp
qed simp

lemma assign_rep: "cd_inv d \<Longrightarrow> cd_inv (cd_assign d vs) \<and> cd_list (cd_assign d vs) = vs"
  using emplace_back_all [of "ClearRetainCapacity d" vs] Clear_rep [of d] by (simp add: cd_assign_def)

lemma assign_count_rep:
  "cd_inv d \<Longrightarrow> cd_inv (cd_assign_count d n v) \<and> cd_list (cd_assign_count d n v) = replicate n v"
  using emplace_back_all [of "cd_reserve n (ClearRetainCapacity d)" "replicate n v"]
    reserve_rep [of "ClearRetainCapacity d" n] Clear_rep [of d] by (simp add: cd_assign_count_def)

lemma grow_to_rep:
  "cd_inv d \<Longrightarrow> n \<le> length (cd_list d) + fuel \<Longrightarrow>
   \<exists>d'. grow_to fuel d n v = Some d' \<and> cd_inv d'
     \<and> cd_list d' = cd_list d @ replicate (n - length (cd_list d)) v"
proof (induction fuel arbitrary: d)
  case 0
  then show ?case by (subst grow_to.simps) (simp add: cd_size_list)
next
  case (Suc fuel)
  show ?case
  proof (cases "length (cd_list d) < n")
    case True
    obtain e: "cd_inv (cd_emplace_back d v)" "cd_list (cd_emplace_back d v) = cd_list d @ [v]"
      using emplace_back_rep [OF Suc.prems(1), of v] by auto
    have "n - length (cd_list d) = Suc (n - Suc (length (cd_list d)))" using True by simp
    then show ?thesis
      using Suc.IH [OF e(1)] Suc.prems True e by (subst grow_to.simps) (simp add: cd_size_list)
  next
    case False
    then show ?thesis using Suc.prems by (subst grow_to.simps) (simp add: cd_size_list)
  qed
qed

text \<open>\<open>resize\<close> in both directions.\<close>

lemma resize_rep:
  assumes "cd_inv d"
  shows "\<exists>d'. cd_resize d n v = Some d' \<and> cd_inv d' \<and>
    cd_list d' = take n (cd_list d) @ replicate (n - length (cd_list d)) v"
proof (cases n "cd_size d" rule: linorder_cases)
  case less
  show ?thesis
    using assms
  proof (cases rule: cd_inv_cases)
    case (storage c b xs)
    have xs: "map Some xs = map Some (take n xs) @ map Some (drop n xs)"
      by (metis append_take_drop_id map_append)
    have n: "n < length xs" using less storage by simp
    have "cd_DestructRange (lay c b (map Some xs)) (ring_pos c b n) (ring_pos c b (length xs))
        = lay c b (map Some (take n xs))"
      using cd_Destruct_lay [of b c "map Some (take n xs)" "map Some (drop n xs)" "[]"] n storage
        lay_pad [of b c "map Some (take n xs)" "length xs - n"] by (simp add: xs)
    then have "cd_resize d n v = Some (ShrinkCapacityIfNecessary (cd_rep c b (take n xs)))"
      using less storage n
      by (simp add: cd_resize_def cd_rep_work Let_def cd_work_def ring_pos_def)
    with Shrink_rep [of b c "take n xs"] storage n show ?thesis by auto
  next
    case none
    then show ?thesis using less by (simp add: cd_size_def)
  qed
next
  case equal
  then show ?thesis using assms by (simp add: cd_resize_def cd_size_list)
next
  case greater
  then show ?thesis
    using grow_to_rep [of "ExpandCapacityIfNecessary (n - cd_size d) d" n n v]
      Expand_keeps [OF assms, of "n - cd_size d"] assms
    by (simp add: cd_resize_def cd_size_list)
qed

section \<open>Element access and iterator arithmetic\<close>

lemma at_rep:
  assumes "cd_inv d" "i < length (cd_list d)"
  shows "cd_at d i = Some (cd_list d ! i)"
  using assms(1)
proof (cases rule: cd_inv_cases)
  case (storage c b xs)
  then have i: "i < length xs" using assms(2) by simp
  have "cd_at d i = lay c b (map Some xs) ! ring_pos c b i"
  proof (cases "b + i < c")
    case True
    then have "i < c - b" using storage by linarith
    with True show ?thesis using storage by (simp add: cd_at_def Let_def ring_pos_def)
  next
    case False
    then have "ring_pos c b i = i - (c - b)" using storage i by (auto simp: ring_pos_def mod_if)
    moreover have "(b + length xs) mod c = b + length xs - c"
      using False storage i by (subst le_mod_geq) auto
    moreover have "\<not> b \<le> b + length xs - c" "\<not> i < c - b" using False storage i by linarith+
    ultimately show ?thesis using storage(1) by (simp add: cd_at_def Let_def)
  qed
  then show ?thesis using storage i by simp
qed (use assms in simp)

lemma elements_rep: "cd_inv d \<Longrightarrow> cd_elements d = cd_list d"
  by (rule nth_equalityI) (auto simp: cd_elements_def cd_size_list at_rep)

lemma copy_rep: "cd_inv d \<Longrightarrow> cd_inv (cd_copy d) \<and> cd_list (cd_copy d) = cd_list d"
  using assign_rep [of "cd_rep (cd_size d + 1) 0 []" "cd_list d"] cd_inv_rep [of 0 "cd_size d + 1" "[]"]
  by (simp add: cd_copy_def elements_rep cd_rep_def lay_Nil VectorBuffer_def)

lemma copy_assign_rep:
  "cd_inv d \<Longrightarrow> cd_inv e \<Longrightarrow> cd_inv (cd_copy_assign d e) \<and> cd_list (cd_copy_assign d e) = cd_list e"
  using assign_rep [of "cd_reserve (cd_size e) d"] reserve_rep [of d "cd_size e"]
  by (simp add: cd_copy_assign_def elements_rep)

lemma front_rep:
  assumes "cd_inv d" "cd_list d \<noteq> []"
  shows "cd_front d = Some (hd (cd_list d))"
  using assms(1)
proof (cases rule: cd_inv_cases)
  case (storage c b xs)
  then show ?thesis using assms(2) nth_lay_pos [of b c 0 "map Some xs"]
    by (simp add: cd_front_def hd_conv_nth)
qed (use assms in simp)

lemma back_rep:
  assumes "cd_inv d" "cd_list d \<noteq> []"
  shows "cd_back d = Some (last (cd_list d))"
  using assms(1)
proof (cases rule: cd_inv_cases)
  case (storage c b xs)
  then have ne: "xs \<noteq> []" using assms(2) by simp
  then have "it_Decrement (cd_rep c b xs) (ring_pos c b (length xs)) = ring_pos c b (length xs - 1)"
    using storage by (simp add: cd_rep_work)
  with storage ne show ?thesis
    by (simp add: cd_back_def it_deref_def ring_pos_def [symmetric] last_conv_nth)
qed (use assms in simp)

lemma Offset_iter:
  assumes "cd_inv d" "k \<le> length (cd_list d)"
  shows "OffsetFromBegin d (cd_iter d k) = k"
  using assms(1)
proof (cases rule: cd_inv_cases)
  case (storage c b xs)
  then show ?thesis using assms(2) by (simp add: Offset_dist ring_dist_unique ring_pos_def)
next
  case none
  then show ?thesis using assms(2) by (simp add: cd_iter_def OffsetFromBegin_def)
qed

lemma it_Add_iter:
  assumes "cd_inv d" "i \<le> length (cd_list d)" "j \<le> length (cd_list d)"
    and "2 * length (cd_buffer d) < 2 ^ 64"
  shows "it_Add d (cd_iter d i) (int j - int i) = cd_iter d j"
  using assms(1)
proof (cases rule: cd_inv_cases)
  case (storage c b xs)
  have "int j + int b < 2 ^ 64" using storage assms(3,4) by simp
  then have "nat ((int j + int b) mod 2 ^ 64) = b + j" by (simp add: mod_pos_pos_trivial)
  then show ?thesis
    using storage assms Offset_iter [OF assms(1,2)]
    by (auto simp: it_Add_def Let_def cd_iter_def)
next
  case none
  then show ?thesis using assms by (simp add: it_Add_def)
qed

section \<open>The contract\<close>

interpretation cdq: double_ended cd_inv cd_list cd_emplace_back "\<lambda>d. the (cd_front d)" cd_pop_front
  cd_emplace_front "\<lambda>d. the (cd_back d)" cd_pop_back
proof
  fix q :: "'a circular_deque" and x assume q: "cd_inv q"
  from emplace_back_rep [OF q, of x]
  show "cd_inv (cd_emplace_back q x)" "cd_list (cd_emplace_back q x) = cd_list q @ [x]" by auto
  from emplace_front_rep [OF q, of x]
  show "cd_inv (cd_emplace_front q x)" "cd_list (cd_emplace_front q x) = x # cd_list q" by auto
  assume ne: "cd_list q \<noteq> []"
  from pop_front_rep [OF q ne]
  show "cd_inv (cd_pop_front q)" "cd_list (cd_pop_front q) = tl (cd_list q)" by auto
  from pop_back_rep [OF q ne]
  show "cd_inv (cd_pop_back q)" "cd_list (cd_pop_back q) = butlast (cd_list q)" by auto
  show "the (cd_front q) = hd (cd_list q)" "the (cd_back q) = last (cd_list q)"
    using front_rep [OF q ne] back_rep [OF q ne] by auto
qed

lemma Shrink_capacity:
  assumes "b < c" "length xs < c"
  shows "cd_capacity (ShrinkCapacityIfNecessary (cd_rep c b xs)) \<le> max 3 (2 * length xs)"
  using assms
  by (auto simp: ShrinkCapacityIfNecessary_def Let_def kCircularBufferInitialCapacity_def)

section \<open>Properties\<close>

text \<open>C21: the operations at the ends of the deque are the list operations, on any
  deque whose storage is consistent: the two insertions always succeed, the two
  removals and the two reads succeed on a deque that is not empty, the reads hit a
  constructed object, and the storage stays consistent (a cell holds an object iff it
  lies in the range from begin to end).\<close>

theorem deque_ends:
  assumes "cd_inv d"
  shows "cd_list (cd_emplace_back d x) = cd_list d @ [x] \<and> cd_inv (cd_emplace_back d x) \<and>
    cd_list (cd_emplace_front d x) = x # cd_list d \<and> cd_inv (cd_emplace_front d x) \<and>
    (cd_list d \<noteq> [] \<longrightarrow>
       cd_list (cd_pop_front d) = tl (cd_list d) \<and> cd_inv (cd_pop_front d) \<and>
       cd_list (cd_pop_back d) = butlast (cd_list d) \<and> cd_inv (cd_pop_back d) \<and>
       cd_front d = Some (hd (cd_list d)) \<and> cd_back d = Some (last (cd_list d)))"
  using assms
  by (simp add: cdq.push_elems cdq.push_inv cdq.push_frnt_elems cdq.push_frnt_inv cdq.pop_elems
      cdq.pop_inv cdq.pop_bck_elems cdq.pop_bck_inv front_rep back_rep)

theorem deque_ends_witness:
  "let d = foldl cd_emplace_back cd_new [1 :: nat, 2, 3, 4, 5] in
     cd_inv d \<and> cd_list (cd_pop_front d) = [2, 3, 4, 5] \<and> cd_front d = Some 1 \<and> cd_back d = Some 5
     \<and> cd_list (cd_emplace_front d 0) = [0, 1, 2, 3, 4, 5]"
  using cdq.push_all [OF cd_new_inv(1), of "[1 :: nat, 2, 3, 4, 5]"]
    deque_ends [of "foldl cd_emplace_back cd_new [1 :: nat, 2, 3, 4, 5]" 0]
  by (simp add: Let_def del: foldl_Cons foldl.simps)

text \<open>Used as a queue, the deque delivers in order: what is pushed at the back of an
  empty deque comes out at the front, whole and in the order of the pushes, whatever
  growing and shrinking of the storage happens on the way.\<close>

theorem deque_fifo:
  assumes "cd_inv d" "cd_list d = []"
  shows "\<exists>r. drain (\<lambda>d. the (cd_front d)) cd_pop_front (length xs) (foldl cd_emplace_back d xs) = (xs, r)
    \<and> cd_inv r \<and> cd_list r = []"
  by (rule cdq.push_drain [OF assms])

text \<open>C11: inserting at the iterator of position \<open>k\<close> (a range, \<open>n\<close> copies of a value, one
  value) terminates and gives the list with the new elements between the first \<open>k\<close>
  elements and the rest, through the begin-of-deque shortcut as well as through
  shifting; the iterator returned for a single value points at it.\<close>

theorem deque_insert:
  assumes "cd_inv d" "k \<le> length (cd_list d)"
  shows "(\<exists>d'. cd_insert_range d (cd_iter d k) vs = Some d' \<and> cd_inv d'
      \<and> cd_list d' = take k (cd_list d) @ vs @ drop k (cd_list d)) \<and>
    (\<exists>d'. cd_insert_count d (cd_iter d k) n v = Some d' \<and> cd_inv d'
      \<and> cd_list d' = take k (cd_list d) @ replicate n v @ drop k (cd_list d)) \<and>
    (\<exists>d'. cd_emplace d (cd_iter d k) v = Some (d', cd_iter d' k) \<and> cd_inv d'
      \<and> cd_list d' = take k (cd_list d) @ v # drop k (cd_list d))"
  using insert_range_rep [OF assms] insert_count_rep [OF assms] emplace_rep [OF assms] by blast

theorem deque_insert_witness:
  "\<exists>d'. cd_insert_range (cd_rep 6 4 [1 :: nat, 2, 3]) 5 [8, 9] = Some d'
     \<and> cd_list d' = [1, 8, 9, 2, 3]"
  using deque_insert [of "cd_rep 6 4 [1 :: nat, 2, 3]" 1 "[8, 9]"] by (auto simp: ring_pos_def)

text \<open>Erasing the range between the iterators of positions \<open>i\<close> and \<open>j\<close> terminates and
  removes exactly those elements, also when the range or the shifted elements wrap
  around the end of the storage; the iterator returned is the one of position \<open>i\<close>.\<close>

theorem deque_erase:
  assumes "cd_inv d" "i \<le> j" "j \<le> length (cd_list d)"
  shows "\<exists>d'. cd_erase d (cd_iter d i) (cd_iter d j) = Some (d', cd_iter d' i) \<and> cd_inv d'
    \<and> cd_list d' = take i (cd_list d) @ drop j (cd_list d)"
  by (rule erase_rep [OF assms])

text \<open>\<open>resize\<close> terminates and truncates or pads the list to the requested length,
  \<open>assign\<close> and the copies give the source list, \<open>reserve\<close> and \<open>shrink_to_fit\<close> keep the
  list and set the capacity to at least the request and to the size, and \<open>clear\<close> gives the
  empty deque.\<close>

theorem deque_whole:
  assumes "cd_inv d" "cd_inv e"
  shows "(\<exists>d'. cd_resize d n v = Some d' \<and> cd_inv d'
      \<and> cd_list d' = take n (cd_list d) @ replicate (n - length (cd_list d)) v) \<and>
    (cd_inv (cd_assign d vs) \<and> cd_list (cd_assign d vs) = vs) \<and>
    (cd_inv (cd_copy_assign d e) \<and> cd_list (cd_copy_assign d e) = cd_list e) \<and>
    (cd_inv (cd_copy e) \<and> cd_list (cd_copy e) = cd_list e) \<and>
    (cd_inv (cd_reserve n d) \<and> cd_list (cd_reserve n d) = cd_list d
      \<and> cd_capacity (cd_reserve n d) = max n (cd_capacity d)) \<and>
    (cd_inv (cd_shrink_to_fit d) \<and> cd_list (cd_shrink_to_fit d) = cd_list d
      \<and> cd_capacity (cd_shrink_to_fit d) = length (cd_list d)) \<and>
    (cd_clear d = cd_new)"
  using resize_rep [OF assms(1)] assign_rep [OF assms(1)] copy_assign_rep [OF assms] copy_rep [OF assms(2)]
    reserve_rep [OF assms(1)] shrink_to_fit_rep [OF assms(1)] clear_rep
  by blast

text \<open>Iterators follow the order of the elements: the difference of two iterators is the
  difference of their positions, they compare by position, moving one by a signed amount
  leads to the right element as long as twice the storage fits 64 bits, and reading
  element \<open>i\<close> by index or through its iterator gives the element.\<close>

theorem deque_iterators:
  assumes "cd_inv d" "i \<le> length (cd_list d)" "j \<le> length (cd_list d)"
  shows "(it_diff d (cd_iter d i) (cd_iter d j) = int i - int j) \<and>
    (it_less d (cd_iter d i) (cd_iter d j) \<longleftrightarrow> i < j) \<and>
    (2 * length (cd_buffer d) < 2 ^ 64 \<longrightarrow> it_Add d (cd_iter d i) (int j - int i) = cd_iter d j) \<and>
    (i < length (cd_list d) \<longrightarrow> cd_at d i = Some (cd_list d ! i)) \<and>
    (cd_iter d 0 = cd_begin d) \<and>
    (cd_iter d (length (cd_list d)) = cd_end d)"
  using assms
  by (simp add: it_diff_def it_less_def Offset_iter it_Add_iter at_rep cd_iter_begin cd_iter_end)

text \<open>Memory is bounded by the contents: after removing an element the capacity is at
  most twice the number of elements left, or the initial capacity of three.\<close>

theorem deque_shrinks:
  assumes "cd_inv d" "cd_list d \<noteq> []"
  shows "cd_capacity (cd_pop_front d) \<le> max 3 (2 * (length (cd_list d) - 1))"
proof -
  obtain c b where "cd_pop_front d = ShrinkCapacityIfNecessary (cd_rep c b (tl (cd_list d)))"
    "b < c" "length (tl (cd_list d)) < c" using pop_front_shrunk [OF assms] by blast
  then show ?thesis using Shrink_capacity [of b c "tl (cd_list d)"] by simp
qed

end
