(* ===== verification/Lazy_Deque.thy ===== *)
theory Lazy_Deque
  imports Circular_Deque
begin

text \<open>
  The work queue of the task loop, \<open>src/base/task/lazily_deallocated_deque.h\<close>: a
  linked list of ring buffers that grows without copying and is shrunk at most every
  five seconds.  A ring keeps one cell free: its front index is the cell before the
  first element, its back index the cell of the last one.  The chain of rings owned
  through \<open>head_\<close> is a list, \<open>tail_\<close> is its last ring.  The clock is an argument of
  \<open>MaybeShrinkQueue\<close>, in nanoseconds.  A null dereference is the result \<open>None\<close>.
\<close>

section \<open>Rings\<close>

record 'a ring =
  rg_front :: nat
  rg_back :: nat
  rg_data :: "'a storage"

definition rg_capacity :: "'a ring \<Rightarrow> nat" where
  "rg_capacity r = length (rg_data r)"

definition Ring :: "nat \<Rightarrow> 'a ring" where
  "Ring capacity = \<lparr>rg_front = 0, rg_back = 0, rg_data = replicate capacity None\<rparr>"

definition CircularIncrement :: "'a ring \<Rightarrow> nat \<Rightarrow> nat" where
  "CircularIncrement r index = (if index + 1 = rg_capacity r then 0 else index + 1)"

definition CircularDecrement :: "'a ring \<Rightarrow> nat \<Rightarrow> nat" where
  "CircularDecrement r index = (if index = 0 then rg_capacity r - 1 else index - 1)"

definition rg_empty :: "'a ring \<Rightarrow> bool" where
  "rg_empty r \<longleftrightarrow> rg_back r = rg_front r"

definition CanPush :: "'a ring \<Rightarrow> bool" where
  "CanPush r \<longleftrightarrow> rg_front r \<noteq> CircularIncrement r (rg_back r)"

definition CanPop :: "'a ring \<Rightarrow> bool" where
  "CanPop r \<longleftrightarrow> rg_front r \<noteq> rg_back r"

definition rg_push_front :: "'a ring \<Rightarrow> 'a \<Rightarrow> 'a ring" where
  "rg_push_front r t =
     r\<lparr>rg_data := (rg_data r)[rg_front r := Some t], rg_front := CircularDecrement r (rg_front r)\<rparr>"

definition rg_push_back :: "'a ring \<Rightarrow> 'a \<Rightarrow> 'a ring" where
  "rg_push_back r t =
     (let b = CircularIncrement r (rg_back r)
      in r\<lparr>rg_back := b, rg_data := (rg_data r)[b := Some t]\<rparr>)"

definition rg_pop_front :: "'a ring \<Rightarrow> 'a ring" where
  "rg_pop_front r =
     (let f = CircularIncrement r (rg_front r)
      in r\<lparr>rg_front := f, rg_data := (rg_data r)[f := None]\<rparr>)"

definition rg_first :: "'a ring \<Rightarrow> 'a option" where
  "rg_first r = rg_data r ! CircularIncrement r (rg_front r)"

definition rg_last :: "'a ring \<Rightarrow> 'a option" where
  "rg_last r = rg_data r ! rg_back r"

section \<open>The queue\<close>

definition kMinimumRingSize :: nat where
  "kMinimumRingSize = 4"

definition kReclaimThreshold :: nat where
  "kReclaimThreshold = 16"

definition kMinimumShrinkIntervalInSeconds :: int where
  "kMinimumShrinkIntervalInSeconds = 5"

record 'a lazy_deque =
  ld_rings :: "'a ring list"
  ld_size :: nat
  ld_max_size :: nat
  ld_next_resize_time :: int

definition ld_new :: "'a lazy_deque" where
  "ld_new = \<lparr>ld_rings = [], ld_size = 0, ld_max_size = 0, ld_next_resize_time = 0\<rparr>"

definition ld_empty :: "'a lazy_deque \<Rightarrow> bool" where
  "ld_empty d \<longleftrightarrow> ld_size d = 0"

definition ld_capacity :: "'a lazy_deque \<Rightarrow> nat" where
  "ld_capacity d = sum_list (map rg_capacity (ld_rings d))"

definition ld_clear :: "'a lazy_deque \<Rightarrow> 'a lazy_deque" where
  "ld_clear d = d\<lparr>ld_rings := [], ld_size := 0\<rparr>"

text \<open>Both pushes start by creating the first ring when there is none.\<close>

definition ensure_head :: "'a lazy_deque \<Rightarrow> 'a lazy_deque" where
  "ensure_head d = (if ld_rings d = [] then d\<lparr>ld_rings := [Ring kMinimumRingSize]\<rparr> else d)"

definition ld_push_front :: "'a lazy_deque \<Rightarrow> 'a \<Rightarrow> 'a lazy_deque" where
  "ld_push_front d t =
     (let d = ensure_head d;
          rings = (if \<not> CanPush (hd (ld_rings d)) then Ring kMinimumRingSize # ld_rings d
                   else ld_rings d)
      in d\<lparr>ld_rings := rg_push_front (hd rings) t # tl rings,
           ld_size := ld_size d + 1,
           ld_max_size := max (ld_max_size d) (ld_size d + 1)\<rparr>)"

definition ld_push_back :: "'a lazy_deque \<Rightarrow> 'a \<Rightarrow> 'a lazy_deque" where
  "ld_push_back d t =
     (let d = ensure_head d;
          tail = last (ld_rings d);
          rings = (if \<not> CanPush tail
                   then ld_rings d @ [Ring (2 + rg_capacity tail + rg_capacity tail div 2)]
                   else ld_rings d)
      in d\<lparr>ld_rings := butlast rings @ [rg_push_back (last rings) t],
           ld_size := ld_size d + 1,
           ld_max_size := max (ld_max_size d) (ld_size d + 1)\<rparr>)"

definition ld_front :: "'a lazy_deque \<Rightarrow> 'a option" where
  "ld_front d = (case ld_rings d of [] \<Rightarrow> None | head # _ \<Rightarrow> rg_first head)"

definition ld_back :: "'a lazy_deque \<Rightarrow> 'a option" where
  "ld_back d = (if ld_rings d = [] then None else rg_last (last (ld_rings d)))"

definition ld_pop_front :: "'a lazy_deque \<Rightarrow> 'a lazy_deque option" where
  "ld_pop_front d =
     (case ld_rings d of
        [] \<Rightarrow> None
      | head # rest \<Rightarrow>
          let head = rg_pop_front head
          in Some (d\<lparr>ld_rings := (if rg_empty head \<and> rest \<noteq> [] then rest else head # rest),
                     ld_size := ld_size d - 1\<rparr>))"

definition ld_swap :: "'a lazy_deque \<Rightarrow> 'a lazy_deque \<Rightarrow> 'a lazy_deque \<times> 'a lazy_deque" where
  "ld_swap d other =
     (d\<lparr>ld_rings := ld_rings other, ld_size := ld_size other, ld_max_size := ld_max_size other,
        ld_next_resize_time := ld_next_resize_time other\<rparr>,
      other\<lparr>ld_rings := ld_rings d, ld_size := ld_size d, ld_max_size := ld_max_size d,
        ld_next_resize_time := ld_next_resize_time d\<rparr>)"

text \<open>The loop of \<open>SetCapacity\<close>: it empties the queue into the new ring, counting
  \<open>size_\<close> down.\<close>

lemma ld_pop_front_size: "ld_pop_front d = Some d' \<Longrightarrow> ld_size d' = ld_size d - 1"
  by (auto simp: ld_pop_front_def Let_def split: list.splits)

function drain_into :: "'a lazy_deque \<Rightarrow> 'a ring \<Rightarrow> ('a lazy_deque \<times> 'a ring) option" where
  "drain_into d new_ring =
     (if ld_empty d then Some (d, new_ring)
      else
        case ld_front d of
          None \<Rightarrow> None
        | Some x \<Rightarrow>
            (case ld_pop_front d of
               None \<Rightarrow> None
             | Some d' \<Rightarrow> drain_into d' (rg_push_back new_ring x)))"
  by pat_completeness auto
termination
  by (relation "measure (\<lambda>(d, _). ld_size d)") (auto simp: ld_empty_def dest: ld_pop_front_size)

declare drain_into.simps [simp del]

definition SetCapacity :: "nat \<Rightarrow> 'a lazy_deque \<Rightarrow> 'a lazy_deque option" where
  "SetCapacity new_capacity d =
     (let real_size = ld_size d in
      case drain_into d (Ring new_capacity) of
        None \<Rightarrow> None
      | Some (d, new_ring) \<Rightarrow> Some (d\<lparr>ld_size := real_size, ld_rings := [new_ring]\<rparr>))"

definition MaybeShrinkQueue :: "int \<Rightarrow> 'a lazy_deque \<Rightarrow> 'a lazy_deque option" where
  "MaybeShrinkQueue now d =
     (if ld_rings d = [] then Some d
      else if now < ld_next_resize_time d then Some d
      else
        let new_capacity = max (ld_max_size d + 1) kMinimumRingSize;
            d = d\<lparr>ld_max_size := ld_size d\<rparr>
        in if new_capacity + kReclaimThreshold \<ge> ld_capacity d then Some d
           else
             case SetCapacity new_capacity d of
               None \<Rightarrow> None
             | Some d \<Rightarrow>
                 Some (d\<lparr>ld_next_resize_time := now + kMinimumShrinkIntervalInSeconds * 10 ^ 9\<rparr>))"

section \<open>Iteration\<close>

text \<open>An iterator is the chain of rings from the current one on and a cell index; the
  empty chain is the null ring.\<close>

type_synonym 'a ld_iterator = "'a ring list \<times> nat"

definition Iterator :: "'a ring list \<Rightarrow> 'a ld_iterator" where
  "Iterator rings =
     (case rings of
        [] \<Rightarrow> ([], 0)
      | r # _ \<Rightarrow> if rg_empty r then ([], 0) else (rings, CircularIncrement r (rg_front r)))"

definition it_next :: "'a ld_iterator \<Rightarrow> 'a ld_iterator" where
  "it_next it =
     (case it of
        ([], i) \<Rightarrow> ([], i)
      | (r # rest, i) \<Rightarrow>
          if i = rg_back r then
            (rest, case rest of [] \<Rightarrow> 0 | r' # _ \<Rightarrow> CircularIncrement r' (rg_front r'))
          else (r # rest, CircularIncrement r i))"

text \<open>The elements a loop over the iterator visits; \<open>None\<close> when the fuel runs out or a
  dead cell is read.\<close>

fun it_collect :: "nat \<Rightarrow> 'a ld_iterator \<Rightarrow> 'a list option" where
  "it_collect fuel ([], i) = Some []"
| "it_collect 0 (r # rest, i) = None"
| "it_collect (Suc fuel) (r # rest, i) =
     (case rg_data r ! i of
        None \<Rightarrow> None
      | Some x \<Rightarrow> map_option ((#) x) (it_collect fuel (it_next (r # rest, i))))"

section \<open>Abstraction and invariant\<close>

text \<open>The elements of a ring lie behind its front index.\<close>

definition rg_list :: "'a ring \<Rightarrow> 'a list" where
  "rg_list r = map the (ring_elems (rg_data r) (rg_front r + 1)
     (ring_dist (rg_front r) (rg_back r) (rg_capacity r)))"

definition rg_inv :: "'a ring \<Rightarrow> bool" where
  "rg_inv r \<longleftrightarrow>
     (let c = rg_capacity r in
      rg_front r < c \<and> rg_back r < c \<and>
      (\<forall>i < c. rg_data r ! i \<noteq> None \<longleftrightarrow>
         ring_dist ((rg_front r + 1) mod c) i c < ring_dist (rg_front r) (rg_back r) c))"

definition ld_list :: "'a lazy_deque \<Rightarrow> 'a list" where
  "ld_list d = concat (map rg_list (ld_rings d))"

definition ld_inv :: "'a lazy_deque \<Rightarrow> bool" where
  "ld_inv d \<longleftrightarrow>
     (\<forall>r \<in> set (ld_rings d). rg_inv r) \<and>
     (length (ld_rings d) > 1 \<longrightarrow> (\<forall>r \<in> set (ld_rings d). \<not> rg_empty r)) \<and>
     (\<forall>r \<in> set (ld_rings d). 1 < rg_capacity r) \<and>
     ld_size d = length (ld_list d) \<and> ld_size d \<le> ld_max_size d"

section \<open>Rings in canonical form\<close>

definition rg_rep :: "nat \<Rightarrow> nat \<Rightarrow> 'a list \<Rightarrow> 'a ring" where
  "rg_rep c f xs =
     \<lparr>rg_front = f, rg_back = ring_pos c f (length xs),
      rg_data = lay c (ring_pos c f 1) (map Some xs)\<rparr>"

lemma rg_rep_sel [simp]:
  "rg_front (rg_rep c f xs) = f" "rg_back (rg_rep c f xs) = ring_pos c f (length xs)"
  "rg_data (rg_rep c f xs) = lay c (ring_pos c f 1) (map Some xs)" "rg_capacity (rg_rep c f xs) = c"
  by (simp_all add: rg_rep_def rg_capacity_def)

lemma Ring_rep: "0 < c \<Longrightarrow> Ring c = rg_rep c 0 []"
  by (simp add: Ring_def rg_rep_def lay_Nil)

lemma rg_list_rep [simp]:
  assumes "f < c" "length xs < c"
  shows "rg_list (rg_rep c f xs) = xs"
proof -
  have "ring_elems (lay c (ring_pos c f 1) (map Some xs)) (f + 1) (length xs) = map Some xs"
    using ring_elems_lay [of "ring_pos c f 1" c "map Some xs"] assms
      ring_elems_mod_start [of "lay c (ring_pos c f 1) (map Some xs)" "f + 1"]
    by (simp add: ring_pos_def)
  then show ?thesis
    using assms by (simp add: rg_list_def ring_pos_def ring_dist_unique comp_def)
qed

lemma rg_inv_rep [simp]:
  assumes "f < c" "length xs < c"
  shows "rg_inv (rg_rep c f xs)"
  using assms ring_dist_unique [of f c "length xs"]
  by (auto simp: rg_inv_def Let_def nth_lay ring_pos_def)

lemma rg_inv_cases:
  assumes "rg_inv r"
  obtains c f xs where "r = rg_rep c f xs" "f < c" "length xs < c"
proof -
  define c where "c = rg_capacity r"
  define n where "n = ring_dist (rg_front r) (rg_back r) c"
  have bc: "rg_front r < c" "rg_back r < c" "n < c" "(rg_front r + 1) mod c < c"
    and live: "\<And>i. i < c \<Longrightarrow> rg_data r ! i \<noteq> None \<longleftrightarrow> ring_dist ((rg_front r + 1) mod c) i c < n"
    using assms by (auto simp: rg_inv_def Let_def c_def n_def ring_dist_less)
  let ?xs = "rg_list r"
  have len: "length ?xs = n" "length (rg_data r) = c"
    by (simp_all add: rg_list_def n_def c_def rg_capacity_def)
  have "rg_data r = lay c ((rg_front r + 1) mod c) (map Some ?xs)"
  proof (rule lay_eqI [OF bc(4)])
    fix k assume k: "k < c"
    let ?i = "((rg_front r + 1) mod c + k) mod c"
    have "rg_data r ! ?i \<noteq> None \<longleftrightarrow> k < n"
      using live [of ?i] k bc by (simp add: ring_dist_unique)
    moreover have "?i = (rg_front r + 1 + k) mod c" by (simp add: mod_simps)
    ultimately show "rg_data r ! ?i = (if k < length (map Some ?xs) then map Some ?xs ! k else None)"
      using len by (auto simp: rg_list_def nth_ring_elems c_def [symmetric] n_def [symmetric])
  qed (simp add: len)
  moreover have "rg_back r = ring_pos c (rg_front r) (length ?xs)"
    using ring_dist_add [OF bc(1,2)] by (simp add: len n_def ring_pos_def)
  ultimately have "r = rg_rep c (rg_front r) ?xs" by (simp add: rg_rep_def ring_pos_def)
  with bc len show ?thesis by (intro that) auto
qed

lemma rg_inv_list_empty: "rg_inv r \<Longrightarrow> rg_empty r \<longleftrightarrow> rg_list r = []"
  by (erule rg_inv_cases) (simp add: rg_empty_def)

lemma Increment_rep [simp]:
  "f < c \<Longrightarrow> CircularIncrement (rg_rep c g xs) (ring_pos c f k) = ring_pos c f (Suc k)"
  using ring_pos_succ [of f c k] by (simp add: CircularIncrement_def)

lemma Increment_rep_0: "f < c \<Longrightarrow> CircularIncrement (rg_rep c g xs) f = ring_pos c f 1"
  using Increment_rep [of f c g xs 0] by simp

lemma CanPush_rep [simp]:
  assumes "f < c" "length xs < c"
  shows "CanPush (rg_rep c f xs) \<longleftrightarrow> length xs + 1 < c"
proof (cases "length xs + 1 = c")
  case True
  then have "ring_pos c f (Suc (length xs)) = f" using assms by (simp add: ring_pos_def)
  with True assms show ?thesis by (simp add: CanPush_def)
next
  case False
  then have "Suc (length xs) < c" using assms by simp
  then have "f \<noteq> ring_pos c f (Suc (length xs))"
    using assms ring_pos_begin [of f c "Suc (length xs)"] by (metis nat.distinct(2))
  with False assms show ?thesis by (simp add: CanPush_def)
qed

lemma push_back_rep [simp]:
  assumes "f < c" "length xs + 1 < c"
  shows "rg_push_back (rg_rep c f xs) x = rg_rep c f (xs @ [x])"
proof -
  have "(lay c (ring_pos c f 1) (map Some xs))[ring_pos c f (Suc (length xs)) := Some x]
      = lay c (ring_pos c f 1) (map Some (xs @ [x]))"
    using lay_put_back [of "ring_pos c f 1" c xs x] ring_pos_pos [of c f 1 "length xs"] assms
    by (simp add: ring_pos_def)
  with assms show ?thesis by (simp add: rg_push_back_def Let_def rg_rep_def [of c f "xs @ [x]"])
qed

lemma pop_front_ring_rep [simp]:
  assumes "f < c" "length xs < c" "xs \<noteq> []"
  shows "rg_pop_front (rg_rep c f xs) = rg_rep c (ring_pos c f 1) (tl xs)"
proof -
  have "ring_pos c f (length xs) = ring_pos c (ring_pos c f 1) (length (tl xs))"
    using assms by (cases xs) (auto simp: ring_pos_pos)
  then show ?thesis
    using assms lay_del_front [of "ring_pos c f 1" c xs]
    by (simp add: rg_pop_front_def Let_def Increment_rep_0) (simp add: rg_rep_def ring_pos_def)
qed

lemma first_rep [simp]: "f < c \<Longrightarrow> length xs < c \<Longrightarrow> xs \<noteq> [] \<Longrightarrow> rg_first (rg_rep c f xs) = Some (hd xs)"
  using nth_lay_pos [of "ring_pos c f 1" c 0 "map Some xs"] by (simp add: rg_first_def hd_conv_nth Increment_rep_0)

lemma last_rep [simp]:
  assumes "f < c" "length xs < c" "xs \<noteq> []"
  shows "rg_last (rg_rep c f xs) = Some (last xs)"
proof -
  have "ring_pos c f (length xs) = ring_pos c (ring_pos c f 1) (length xs - 1)"
    using assms by (cases xs) (auto simp: ring_pos_pos)
  with assms nth_lay_pos [of "ring_pos c f 1" c "length xs - 1" "map Some xs"] show ?thesis
    by (simp add: rg_last_def last_conv_nth)
qed

lemma push_front_rep [simp]:
  assumes "f < c" "length xs + 1 < c"
  shows "rg_push_front (rg_rep c f xs) x = rg_rep c (ring_pos c f (c - 1)) (x # xs)"
proof -
  let ?g = "ring_pos c f (c - 1)"
  have g: "?g < c" "ring_pos c ?g 1 = f" using assms by (simp_all add: ring_pos_pos) (simp add: ring_pos_def)
  have "ring_pos c ?g (length (x # xs)) = ring_pos c f (length xs)"
    using ring_pos_pos [of c ?g 1 "length xs"] g(2) by simp
  moreover have "(lay c (ring_pos c f 1) (map Some xs))[f := Some x] = lay c f (map Some (x # xs))"
    using lay_shift [of f c 1 "map Some xs"] lay_update_pos [of f c 0 "None # map Some xs" "Some x"] assms
    by simp
  moreover have "CircularDecrement (rg_rep c f xs) f = ?g"
    using assms by (auto simp: CircularDecrement_def ring_pos_def mod_if)
  ultimately show ?thesis
    using g by (simp add: rg_push_front_def rg_rep_def)
qed

text \<open>What the ring operations promise, independent of the layout.\<close>

lemma Ring_inv [simp]: "0 < c \<Longrightarrow> rg_inv (Ring c)" "0 < c \<Longrightarrow> rg_list (Ring c) = []"
  "1 < c \<Longrightarrow> CanPush (Ring c)" "rg_capacity (Ring c) = c"
  by (simp_all add: Ring_rep) (simp add: Ring_def rg_capacity_def)

lemma rg_capacity_ops [simp]:
  "rg_capacity (rg_push_back r x) = rg_capacity r" "rg_capacity (rg_push_front r x) = rg_capacity r"
  "rg_capacity (rg_pop_front r) = rg_capacity r"
  by (simp_all add: rg_capacity_def rg_push_back_def rg_push_front_def rg_pop_front_def Let_def)

lemma rg_push_back_spec:
  assumes "rg_inv r" "CanPush r"
  shows "rg_inv (rg_push_back r x)" "rg_list (rg_push_back r x) = rg_list r @ [x]"
  using assms by (auto elim!: rg_inv_cases)

lemma rg_push_front_spec:
  assumes "rg_inv r" "CanPush r"
  shows "rg_inv (rg_push_front r x)" "rg_list (rg_push_front r x) = x # rg_list r"
  using assms by (auto elim!: rg_inv_cases)

lemma rg_pop_front_spec:
  assumes "rg_inv r" "rg_list r \<noteq> []"
  shows "rg_inv (rg_pop_front r)" "rg_list (rg_pop_front r) = tl (rg_list r)"
    "rg_first r = Some (hd (rg_list r))" "rg_last r = Some (last (rg_list r))"
  using assms by (auto elim!: rg_inv_cases)

lemma CanPush_nonempty:
  assumes "rg_inv r" "\<not> CanPush r" "1 < rg_capacity r"
  shows "rg_list r \<noteq> []"
  using assms by (auto elim!: rg_inv_cases)

lemma CanPush_iff: "rg_inv r \<Longrightarrow> CanPush r \<longleftrightarrow> length (rg_list r) + 1 < rg_capacity r"
  by (auto elim!: rg_inv_cases)

section \<open>Queue operations\<close>

text \<open>The invariant in terms of a chain of rings.\<close>

definition chain_ok :: "'a ring list \<Rightarrow> bool" where
  "chain_ok rs \<longleftrightarrow> (\<forall>r \<in> set rs. rg_inv r \<and> 1 < rg_capacity r) \<and>
     (1 < length rs \<longrightarrow> (\<forall>r \<in> set rs. rg_list r \<noteq> []))"

lemma ld_inv_iff: "ld_inv d \<longleftrightarrow>
    chain_ok (ld_rings d) \<and> ld_size d = length (ld_list d) \<and> ld_size d \<le> ld_max_size d"
  by (auto simp: ld_inv_def chain_ok_def rg_inv_list_empty)

lemma chain_ok_butlast:
  "rs \<noteq> [] \<Longrightarrow> chain_ok rs \<longleftrightarrow> chain_ok [last rs] \<and> (\<forall>r \<in> set (butlast rs). rg_inv r \<and> 1 < rg_capacity r)
     \<and> (1 < length rs \<longrightarrow> rg_list (last rs) \<noteq> [] \<and> (\<forall>r \<in> set (butlast rs). rg_list r \<noteq> []))"
  by (cases rs rule: rev_cases) (auto simp: chain_ok_def)

lemma ensure_head_spec:
  assumes "ld_inv d"
  shows "ld_inv (ensure_head d)" "ld_list (ensure_head d) = ld_list d" "ld_rings (ensure_head d) \<noteq> []"
    "ld_size (ensure_head d) = ld_size d" "ld_max_size (ensure_head d) = ld_max_size d"
  using assms by (auto simp: ensure_head_def ld_inv_iff chain_ok_def ld_list_def kMinimumRingSize_def)

lemma chain_push_back:
  assumes "chain_ok rs" "rs \<noteq> []"
  defines "rs' \<equiv> (if \<not> CanPush (last rs)
      then rs @ [Ring (2 + rg_capacity (last rs) + rg_capacity (last rs) div 2)] else rs)"
  shows "chain_ok (butlast rs' @ [rg_push_back (last rs') x])
    \<and> concat (map rg_list (butlast rs' @ [rg_push_back (last rs') x])) = concat (map rg_list rs) @ [x]"
proof -
  obtain pre t where rs: "rs = pre @ [t]" using assms(2) by (cases rs rule: rev_cases) auto
  have t: "rg_inv t" "1 < rg_capacity t" using assms(1) by (auto simp: chain_ok_def rs)
  show ?thesis
  proof (cases "CanPush t")
    case True
    with t assms(1) show ?thesis
      by (auto simp: rs'_def rs chain_ok_def rg_push_back_spec)
  next
    case False
    then have "rg_list t \<noteq> []" using CanPush_nonempty t by blast
    with False t assms(1) show ?thesis
      by (auto simp: rs'_def rs chain_ok_def rg_push_back_spec butlast_append)
  qed
qed

lemma chain_push_front:
  assumes "chain_ok rs" "rs \<noteq> []"
  defines "rs' \<equiv> (if \<not> CanPush (hd rs) then Ring kMinimumRingSize # rs else rs)"
  shows "chain_ok (rg_push_front (hd rs') x # tl rs')
    \<and> concat (map rg_list (rg_push_front (hd rs') x # tl rs')) = x # concat (map rg_list rs)"
proof -
  obtain h rest where rs: "rs = h # rest" using assms(2) by (cases rs) auto
  have h: "rg_inv h" "1 < rg_capacity h" using assms(1) by (auto simp: chain_ok_def rs)
  show ?thesis
  proof (cases "CanPush h")
    case True
    with h assms(1) show ?thesis
      by (auto simp: rs'_def rs chain_ok_def rg_push_front_spec)
  next
    case False
    then have "rg_list h \<noteq> []" using CanPush_nonempty h by blast
    with False h assms(1) show ?thesis
      by (auto simp: rs'_def rs chain_ok_def rg_push_front_spec kMinimumRingSize_def)
  qed
qed

lemma push_back_spec:
  assumes "ld_inv d"
  shows "ld_inv (ld_push_back d x) \<and> ld_list (ld_push_back d x) = ld_list d @ [x]"
  using ensure_head_spec [OF assms] chain_push_back [of "ld_rings (ensure_head d)" x]
  by (simp add: ld_push_back_def ld_inv_iff ld_list_def Let_def)

lemma push_front_spec:
  assumes "ld_inv d"
  shows "ld_inv (ld_push_front d x) \<and> ld_list (ld_push_front d x) = x # ld_list d"
  using ensure_head_spec [OF assms] chain_push_front [of "ld_rings (ensure_head d)" x]
  by (simp add: ld_push_front_def ld_inv_iff ld_list_def Let_def)

lemma ld_head:
  assumes "ld_inv d" "ld_list d \<noteq> []"
  obtains h rest where "ld_rings d = h # rest" "rg_inv h" "1 < rg_capacity h" "rg_list h \<noteq> []" "chain_ok rest"
    "\<forall>r \<in> set rest. rg_list r \<noteq> []"
proof (cases "ld_rings d")
  case Nil
  then show ?thesis using assms(2) by (simp add: ld_list_def)
next
  case (Cons h rest)
  then show ?thesis
    using assms by (intro that [of h rest]) (auto simp: ld_inv_iff chain_ok_def ld_list_def)
qed

lemma pop_front_spec:
  assumes "ld_inv d" "ld_list d \<noteq> []"
  shows "\<exists>d'. ld_pop_front d = Some d' \<and> ld_inv d' \<and> ld_list d' = tl (ld_list d)
    \<and> ld_max_size d' = ld_max_size d \<and> ld_next_resize_time d' = ld_next_resize_time d"
proof -
  obtain h rest where h: "ld_rings d = h # rest" "rg_inv h" "1 < rg_capacity h" "rg_list h \<noteq> []"
    "chain_ok rest" "\<forall>r \<in> set rest. rg_list r \<noteq> []"
    using ld_head [OF assms] by blast
  have e: "rg_empty (rg_pop_front h) \<longleftrightarrow> tl (rg_list h) = []"
    using h rg_pop_front_spec [of h] rg_inv_list_empty [of "rg_pop_front h"] by simp
  have sz: "ld_size d = length (ld_list d)" "ld_size d \<le> ld_max_size d" using assms by (simp_all add: ld_inv_iff)
  have l: "ld_list d = rg_list h @ concat (map rg_list rest)" using h by (simp add: ld_list_def)
  show ?thesis
    using h sz e rg_pop_front_spec [OF h(2,4)]
    by (cases "rg_list h") (auto simp: ld_pop_front_def Let_def ld_inv_iff chain_ok_def ld_list_def)
qed

lemma ld_front_spec:
  assumes "ld_inv d" "ld_list d \<noteq> []"
  shows "ld_front d = Some (hd (ld_list d))"
proof -
  obtain h rest where "ld_rings d = h # rest" "rg_inv h" "rg_list h \<noteq> []" using ld_head [OF assms] by blast
  then show ?thesis using rg_pop_front_spec(3) by (auto simp: ld_front_def ld_list_def)
qed

lemma ld_back_spec:
  assumes "ld_inv d" "ld_list d \<noteq> []"
  shows "ld_back d = Some (last (ld_list d))"
proof -
  obtain pre t where rs: "ld_rings d = pre @ [t]"
    using assms(2) by (cases "ld_rings d" rule: rev_cases) (auto simp: ld_list_def)
  then have "rg_inv t" "rg_list t \<noteq> []"
    using assms by (auto simp: ld_inv_iff chain_ok_def ld_list_def)
  with rs show ?thesis using rg_pop_front_spec(4) by (simp add: ld_back_def ld_list_def)
qed

section \<open>Shrinking\<close>

lemma drain_into_spec:
  "ld_inv d \<Longrightarrow> rg_inv r \<Longrightarrow> length (rg_list r) + length (ld_list d) < rg_capacity r \<Longrightarrow>
   \<exists>d' r'. drain_into d r = Some (d', r') \<and> rg_inv r' \<and> rg_list r' = rg_list r @ ld_list d
     \<and> rg_capacity r' = rg_capacity r \<and> ld_max_size d' = ld_max_size d
     \<and> ld_next_resize_time d' = ld_next_resize_time d"
proof (induction d r rule: drain_into.induct)
  case (1 d r)
  show ?case
  proof (cases "ld_empty d")
    case True
    then show ?thesis using 1(2-4) by (subst drain_into.simps) (simp add: ld_empty_def ld_inv_iff)
  next
    case False
    then have ne: "ld_list d \<noteq> []" using 1(2) by (auto simp: ld_empty_def ld_inv_iff)
    let ?x = "hd (ld_list d)"
    obtain d' where d': "ld_pop_front d = Some d'" "ld_inv d'" "ld_list d' = tl (ld_list d)"
      "ld_max_size d' = ld_max_size d" "ld_next_resize_time d' = ld_next_resize_time d"
      using pop_front_spec [OF 1(2) ne] by blast
    have len: "length (ld_list d) = Suc (length (tl (ld_list d)))" using ne by simp
    have "CanPush r" using CanPush_iff [OF 1(3)] 1(4) len by linarith
    then have r: "rg_inv (rg_push_back r ?x)" "rg_list (rg_push_back r ?x) = rg_list r @ [?x]"
      using rg_push_back_spec [OF 1(3)] by blast+
    have step: "drain_into d r = drain_into d' (rg_push_back r ?x)"
      using False ld_front_spec [OF 1(2) ne] d'(1) by (subst drain_into.simps) simp
    have "length (rg_list (rg_push_back r ?x)) + length (ld_list d') < rg_capacity (rg_push_back r ?x)"
      unfolding r(2) d'(3) rg_capacity_ops length_append using 1(4) len by (simp only: list.size)
    from 1(1) [OF False ld_front_spec [OF 1(2) ne] d'(1) d'(2) r(1) this] show ?thesis
      unfolding step using r(2) d'(3-5) ne by simp
  qed
qed

lemma SetCapacity_spec:
  assumes "ld_inv d" "length (ld_list d) < n" "1 < n"
  shows "\<exists>d'. SetCapacity n d = Some d' \<and> ld_inv d' \<and> ld_list d' = ld_list d \<and> ld_capacity d' = n
    \<and> ld_max_size d' = ld_max_size d"
proof -
  have "rg_inv (Ring n)" "length (rg_list (Ring n)) + length (ld_list d) < rg_capacity (Ring n)"
    using assms by auto
  then obtain d' r' where "drain_into d (Ring n) = Some (d', r')" "rg_inv r'" "rg_list r' = ld_list d"
    "rg_capacity r' = n" "ld_max_size d' = ld_max_size d"
    using drain_into_spec [OF assms(1), of "Ring n"] assms(3) by auto
  with assms show ?thesis
    by (simp add: SetCapacity_def Let_def ld_inv_iff ld_list_def chain_ok_def ld_capacity_def)
qed

lemma Maybe_shrink_spec:
  assumes "ld_inv d"
  shows "\<exists>d'. MaybeShrinkQueue now d = Some d' \<and> ld_inv d' \<and> ld_list d' = ld_list d
    \<and> ld_capacity d' \<le> ld_capacity d
    \<and> (d' = d \<or> ld_max_size d' = length (ld_list d))"
proof -
  let ?n = "max (ld_max_size d + 1) 4" and ?d = "d\<lparr>ld_max_size := ld_size d\<rparr>"
  have d: "ld_inv ?d" "ld_list ?d = ld_list d" "ld_capacity ?d = ld_capacity d"
    "ld_size d = length (ld_list d)" "ld_size d \<le> ld_max_size d"
    using assms by (simp_all add: ld_inv_iff ld_list_def ld_capacity_def)
  consider "ld_rings d = [] \<or> now < ld_next_resize_time d"
    | "ld_rings d \<noteq> []" "\<not> now < ld_next_resize_time d" "?n + 16 \<ge> ld_capacity d"
    | "ld_rings d \<noteq> []" "\<not> now < ld_next_resize_time d" "?n + 16 < ld_capacity d" by fastforce
  then show ?thesis
  proof cases
    case 1
    then show ?thesis using assms by (auto simp: MaybeShrinkQueue_def)
  next
    case 2
    then have "MaybeShrinkQueue now d = Some ?d"
      using d(3) by (simp add: MaybeShrinkQueue_def Let_def kMinimumRingSize_def kReclaimThreshold_def)
    with d show ?thesis by simp
  next
    case 3
    obtain e where e: "SetCapacity ?n ?d = Some e" "ld_inv e" "ld_list e = ld_list d" "ld_capacity e = ?n"
      "ld_max_size e = ld_max_size ?d"
      using SetCapacity_spec [OF d(1), of ?n] d(2,4,5) by fastforce
    let ?e = "e\<lparr>ld_next_resize_time := now + 5 * 10 ^ 9\<rparr>"
    have "MaybeShrinkQueue now d = Some ?e"
      using 3 e d(3) by (simp add: MaybeShrinkQueue_def Let_def kMinimumRingSize_def kReclaimThreshold_def
          kMinimumShrinkIntervalInSeconds_def)
    with 3 e d show ?thesis by (simp add: ld_inv_iff ld_list_def ld_capacity_def)
  qed
qed

section \<open>Iteration\<close>

lemma it_collect_ring:
  assumes "f < c" "length xs < c" "k < length xs" "length xs - k \<le> fuel"
  shows "it_collect fuel (rg_rep c f xs # rest, ring_pos c f (Suc k)) =
    map_option ((@) (drop k xs))
      (it_collect (fuel - (length xs - k))
        (rest, case rest of [] \<Rightarrow> 0 | r' # _ \<Rightarrow> CircularIncrement r' (rg_front r')))"
  using assms(3,4)
proof (induction "length xs - Suc k" arbitrary: k fuel)
  case 0
  then have k: "Suc k = length xs" by simp
  with 0 obtain f' where f': "fuel = Suc f'" by (cases fuel) auto
  have "ring_pos c f (Suc k) = ring_pos c (ring_pos c f 1) k" by (simp add: ring_pos_pos)
  then have "lay c (ring_pos c f 1) (map Some xs) ! ring_pos c f (Suc k) = Some (xs ! k)"
    using assms 0 by simp
  moreover have "drop k xs = [xs ! k]" using k by (simp add: Cons_nth_drop_Suc [symmetric])
  moreover have "fuel - (length xs - k) = f'" using k f' by simp
  ultimately show ?case
    using k f' by (simp add: it_next_def)
next
  case (Suc n)
  then obtain f' where f': "fuel = Suc f'" by (cases fuel) auto
  have "ring_pos c f (Suc k) = ring_pos c (ring_pos c f 1) k" by (simp add: ring_pos_pos)
  then have "lay c (ring_pos c f 1) (map Some xs) ! ring_pos c f (Suc k) = Some (xs ! k)"
    using assms Suc by simp
  moreover have "drop k xs = xs ! k # drop (Suc k) xs" using Suc by (simp add: Cons_nth_drop_Suc)
  moreover have "ring_pos c f (Suc k) \<noteq> ring_pos c f (length xs)"
    using ring_pos_inject [of "Suc k" c "length xs" f] Suc assms by simp
  moreover have "f' - (length xs - Suc k) = fuel - (length xs - k)" using f' Suc by simp
  ultimately show ?case
    using Suc.hyps(1) [of "Suc k" f'] Suc.hyps(2) Suc.prems f' assms(1,2)
    by (simp add: it_next_def option.map_comp comp_def append_Cons [abs_def])
qed

lemma it_collect_chain:
  "\<forall>r \<in> set rs. rg_inv r \<and> rg_list r \<noteq> [] \<Longrightarrow> length (concat (map rg_list rs)) \<le> fuel \<Longrightarrow>
   it_collect fuel (rs, case rs of [] \<Rightarrow> 0 | r # _ \<Rightarrow> CircularIncrement r (rg_front r))
     = Some (concat (map rg_list rs))"
proof (induction rs arbitrary: fuel)
  case Nil
  then show ?case by simp
next
  case (Cons r rs)
  obtain c f xs where r: "r = rg_rep c f xs" "f < c" "length xs < c" 
    using Cons.prems(1) rg_inv_cases by (metis list.set_intros(1))
  then have ne: "xs \<noteq> []" using Cons.prems by auto
  show ?case
    using it_collect_ring [OF r(2,3), of 0 fuel rs] Cons.IH [of "fuel - length xs"] Cons.prems r ne
    by (simp add: Increment_rep_0)
qed

lemma iterate_spec:
  assumes "ld_inv d"
  shows "it_collect (ld_size d) (Iterator (ld_rings d)) = Some (ld_list d)"
proof (cases "ld_list d = []")
  case True
  show ?thesis
  proof (cases "ld_rings d")
    case (Cons r rs)
    then have "rg_empty r"
      using True assms rg_inv_list_empty [of r] by (simp add: ld_inv_iff chain_ok_def ld_list_def)
    with Cons True show ?thesis by (simp add: Iterator_def)
  qed (simp add: Iterator_def True)
next
  case False
  obtain h rest where h: "ld_rings d = h # rest" "rg_inv h" "rg_list h \<noteq> []" "chain_ok rest"
    "\<forall>r \<in> set rest. rg_list r \<noteq> []" using ld_head [OF assms False] by metis
  then have "Iterator (ld_rings d) = (h # rest, CircularIncrement h (rg_front h))"
    by (simp add: Iterator_def rg_inv_list_empty)
  moreover have "\<forall>r \<in> set (h # rest). rg_inv r \<and> rg_list r \<noteq> []"
    using h by (simp add: chain_ok_def)
  moreover have "ld_list d = concat (map rg_list (h # rest))" "ld_size d = length (ld_list d)"
    using h(1) assms by (simp_all add: ld_list_def ld_inv_iff)
  ultimately show ?thesis
    using it_collect_chain [of "h # rest" "ld_size d"] h(1) by (metis list.simps(5) order_refl)
qed

section \<open>The contract\<close>

interpretation ldq: fifo_queue ld_inv ld_list ld_push_back "\<lambda>d. the (ld_front d)" "\<lambda>d. the (ld_pop_front d)"
  by unfold_locales (use push_back_spec pop_front_spec ld_front_spec in \<open>fastforce+\<close>)

section \<open>Properties\<close>

text \<open>C12: the queue of rings is a list with operations at the ends: pushing at either end
  always succeeds, reading both ends and popping the front succeed exactly as on the
  list when it is not empty (no null ring, no dead cell), and every operation keeps the
  invariant that only a single ring may be empty and that the size field counts the
  elements.\<close>

theorem lazy_deque_refines:
  assumes "ld_inv d"
  shows "ld_inv (ld_push_back d x) \<and> ld_list (ld_push_back d x) = ld_list d @ [x] \<and>
    ld_inv (ld_push_front d x) \<and> ld_list (ld_push_front d x) = x # ld_list d \<and>
    (ld_list d \<noteq> [] \<longrightarrow>
       ld_front d = Some (hd (ld_list d)) \<and> ld_back d = Some (last (ld_list d)) \<and>
       (\<exists>d'. ld_pop_front d = Some d' \<and> ld_inv d' \<and> ld_list d' = tl (ld_list d)))"
  using push_back_spec [OF assms] push_front_spec [OF assms] pop_front_spec [OF assms]
    ld_front_spec [OF assms] ld_back_spec [OF assms] by blast

lemma ld_new_inv [simp]: "ld_inv ld_new" "ld_list ld_new = []"
  by (simp_all add: ld_inv_def ld_new_def ld_list_def)

theorem lazy_deque_refines_witness:
  "let d = foldl ld_push_back ld_new [1 :: nat, 2, 3, 4, 5, 6] in
     length (ld_rings d) = 2 \<and> ld_front d = Some 1 \<and> ld_back d = Some 6
     \<and> ld_list (ld_push_front d 0) = [0, 1, 2, 3, 4, 5, 6]"
proof -
  let ?d = "foldl ld_push_back ld_new [1 :: nat, 2, 3, 4, 5, 6]"
  have "length (ld_rings ?d) = 2" by code_simp
  then show ?thesis
    using lazy_deque_refines [of ?d 0] ldq.push_all [OF ld_new_inv(1), of "[1 :: nat, 2, 3, 4, 5, 6]"]
    by (simp add: Let_def del: foldl.simps)
qed

text \<open>First in, first out: what is pushed at the back of an empty queue comes out at
  the front in the same order, across as many rings as it takes.\<close>

theorem lazy_deque_fifo:
  assumes "ld_inv d" "ld_list d = []"
  shows "\<exists>r. drain (\<lambda>d. the (ld_front d)) (\<lambda>d. the (ld_pop_front d)) (length xs) (foldl ld_push_back d xs)
    = (xs, r) \<and> ld_inv r \<and> ld_list r = []"
  by (rule ldq.push_drain [OF assms])

text \<open>\<open>MaybeShrinkQueue\<close> terminates without losing or reordering an element, never
  grows the storage, and unless it returns early restarts the recorded maximum at the
  current size; \<open>SetCapacity\<close> moves all elements to one ring of the requested capacity
  when that is larger than the size.\<close>

theorem lazy_deque_shrink:
  assumes "ld_inv d"
  shows "(\<exists>d'. MaybeShrinkQueue now d = Some d' \<and> ld_inv d' \<and> ld_list d' = ld_list d
      \<and> ld_capacity d' \<le> ld_capacity d \<and> (d' = d \<or> ld_max_size d' = length (ld_list d))) \<and>
    (length (ld_list d) < n \<and> 1 < n \<longrightarrow>
      (\<exists>d'. SetCapacity n d = Some d' \<and> ld_inv d' \<and> ld_list d' = ld_list d \<and> ld_capacity d' = n))"
  using Maybe_shrink_spec [OF assms, of now] SetCapacity_spec [OF assms, of n] by blast

text \<open>Iterating over the queue visits exactly its elements, in order, and ends after
  as many steps as there are elements.\<close>

theorem lazy_deque_iterates:
  assumes "ld_inv d"
  shows "it_collect (ld_size d) (Iterator (ld_rings d)) = Some (ld_list d)"
  by (rule iterate_spec [OF assms])

end
