(* ===== verification/Task_Loop.thy ===== *)
theory Task_Loop
  imports Lazy_Deque
begin

text \<open>
  The single-threaded task loop of \<open>src/base/task/task_loop.cc\<close>, over the queue of
  \<open>Lazy_Deque\<close>.  Clients post into the incoming queue; the loop's thread swaps it with
  its work queue and runs one task per round; \<open>Stop\<close> sets a flag, notifies and joins.
  The thread is a program counter, advanced by the deterministic \<open>worker_step\<close>; the
  clients and the stopper are the other actors of the step relation.  The predicate of
  the condition variable and going to sleep are two steps, because the flag is written
  without the mutex.
\<close>

section \<open>State\<close>

record task =
  t_a :: int
  t_func :: "nat option"

datatype loop_pc =
    L_Reload            \<comment> \<open>at the head of the loop of \<open>DoWork\<close>\<close>
  | L_Check             \<comment> \<open>after \<open>ReloadWorkQueue\<close>\<close>
  | L_Pop               \<comment> \<open>in the inner loop, about to take a task\<close>
  | L_Skipped           \<comment> \<open>took a task without a function\<close>
  | L_After bool        \<comment> \<open>\<open>DoWork\<close> returned this value to \<open>Run\<close>\<close>
  | L_Wait              \<comment> \<open>evaluating the predicate of the wait\<close>
  | L_Sleep             \<comment> \<open>predicate was false, not asleep yet\<close>
  | L_Blocked           \<comment> \<open>asleep on the condition variable\<close>
  | L_Exit              \<comment> \<open>\<open>Run\<close> has returned\<close>

datatype stop_pc = NotStopping | StopNotify | StopJoin | StopDone

text \<open>\<open>posted\<close> and \<open>retired\<close> record the tasks given to \<open>PostTask\<close> and taken from the work
  queue, \<open>executed\<close> the functions called.\<close>

record task_loop =
  incoming_task_queue :: "task lazy_deque"
  work_queue :: "task lazy_deque"
  should_quit :: bool
  thread :: "loop_pc option"
  notifies :: nat
  stopper :: stop_pc
  posted :: "task list"
  retired :: "task list"
  executed :: "nat list"

section \<open>The loop's thread\<close>

definition ReloadWorkQueue :: "int \<Rightarrow> task_loop \<Rightarrow> task_loop option" where
  "ReloadWorkQueue now s =
     (case MaybeShrinkQueue now (work_queue s) of
        None \<Rightarrow> None
      | Some wq \<Rightarrow>
          if \<not> ld_empty (incoming_task_queue s) then
            (case ld_swap (incoming_task_queue s) wq of
               (inq, wq) \<Rightarrow> Some (s\<lparr>incoming_task_queue := inq, work_queue := wq\<rparr>))
          else Some (s\<lparr>work_queue := wq\<rparr>))"

text \<open>Taking a task: read the front, pop it, run its function when there is one.\<close>

definition take_task :: "task_loop \<Rightarrow> task_loop option" where
  "take_task s =
     (case ld_front (work_queue s) of
        None \<Rightarrow> None
      | Some t \<Rightarrow>
          (case ld_pop_front (work_queue s) of
             None \<Rightarrow> None
           | Some wq \<Rightarrow>
               let s = s\<lparr>work_queue := wq, retired := retired s @ [t]\<rparr>
               in case t_func t of
                    Some f \<Rightarrow> Some (s\<lparr>executed := executed s @ [f], thread := Some (L_After True)\<rparr>)
                  | None \<Rightarrow> Some (s\<lparr>thread := Some L_Skipped\<rparr>)))"

text \<open>One step of the thread: \<open>DoWork\<close> down to \<open>L_After\<close>, then \<open>Run\<close>.\<close>

definition worker_step :: "int \<Rightarrow> task_loop \<Rightarrow> task_loop option" where
  "worker_step now s =
     (case thread s of
        None \<Rightarrow> None
      | Some L_Reload \<Rightarrow> map_option (\<lambda>s. s\<lparr>thread := Some L_Check\<rparr>) (ReloadWorkQueue now s)
      | Some L_Check \<Rightarrow>
          Some (s\<lparr>thread := Some (if ld_empty (work_queue s) then L_After False
                              else if should_quit s then L_After True else L_Pop)\<rparr>)
      | Some L_Pop \<Rightarrow> take_task s
      | Some L_Skipped \<Rightarrow>
          Some (s\<lparr>thread := Some (if should_quit s then L_After True
                              else if \<not> ld_empty (work_queue s) then L_Pop else L_Reload)\<rparr>)
      | Some (L_After more_work_is_plausible) \<Rightarrow>
          Some (s\<lparr>thread := Some (if should_quit s then L_Exit
                              else if more_work_is_plausible then L_Reload else L_Wait)\<rparr>)
      | Some L_Wait \<Rightarrow> Some (s\<lparr>thread := Some (if should_quit s then L_Reload else L_Sleep)\<rparr>)
      | Some L_Sleep \<Rightarrow> Some (s\<lparr>thread := Some L_Blocked\<rparr>)
      | Some L_Blocked \<Rightarrow> None
      | Some L_Exit \<Rightarrow> None)"

text \<open>A notification (or a spurious wake-up) sends a sleeping thread back to the
  predicate.\<close>

definition wake :: "task_loop \<Rightarrow> task_loop" where
  "wake s = (if thread s = Some L_Blocked then s\<lparr>thread := Some L_Wait\<rparr> else s)"

section \<open>The other actors\<close>

text \<open>\<open>PostTask\<close>: the push under the mutex, then \<open>notify_one\<close>.\<close>

definition PostTask_push :: "task \<Rightarrow> task_loop \<Rightarrow> task_loop" where
  "PostTask_push t s =
     s\<lparr>incoming_task_queue := ld_push_back (incoming_task_queue s) t,
       notifies := notifies s + 1, posted := posted s @ [t]\<rparr>"

definition PostTask_notify :: "task_loop \<Rightarrow> task_loop" where
  "PostTask_notify s = (wake s)\<lparr>notifies := notifies s - 1\<rparr>"

definition Start :: "task_loop \<Rightarrow> task_loop" where
  "Start s =
     (let s = s\<lparr>should_quit := False\<rparr>
      in if thread s \<noteq> None then s else s\<lparr>thread := Some L_Reload\<rparr>)"

text \<open>\<open>Stop\<close>, also called by the destructor and by \<open>WaitTaskFinished\<close>: set the flag, notify
  all, join and reset the thread.\<close>

definition Stop_set :: "task_loop \<Rightarrow> task_loop" where
  "Stop_set s = s\<lparr>should_quit := True, stopper := StopNotify\<rparr>"

definition Stop_notify :: "task_loop \<Rightarrow> task_loop" where
  "Stop_notify s = (wake s)\<lparr>stopper := StopJoin\<rparr>"

definition Stop_join :: "task_loop \<Rightarrow> task_loop option" where
  "Stop_join s =
     (case thread s of
        None \<Rightarrow> Some (s\<lparr>stopper := StopDone\<rparr>)
      | Some L_Exit \<Rightarrow> Some (s\<lparr>thread := None, stopper := StopDone\<rparr>)
      | Some _ \<Rightarrow> None)"

definition TaskLoop :: task_loop where
  "TaskLoop =
     Start \<lparr>incoming_task_queue = ld_new, work_queue = ld_new, should_quit = False, thread = None,
       notifies = 0, stopper = NotStopping, posted = [], retired = [], executed = []\<rparr>"

text \<open>Steps are labelled with the actor; \<open>Restart\<close> is a later call of \<open>Start\<close>.\<close>

datatype loop_act = Work | Post task | Notify | Spurious | StopCall | Restart

inductive loop_step :: "loop_act \<Rightarrow> task_loop \<Rightarrow> task_loop \<Rightarrow> bool" where
  work: "worker_step now s = Some s' \<Longrightarrow> loop_step Work s s'"
| post: "loop_step (Post t) s (PostTask_push t s)"
| notify: "notifies s > 0 \<Longrightarrow> loop_step Notify s (PostTask_notify s)"
| spurious: "thread s = Some L_Blocked \<Longrightarrow> loop_step Spurious s (wake s)"
| stop_set: "stopper s \<in> {NotStopping, StopDone} \<Longrightarrow> loop_step StopCall s (Stop_set s)"
| stop_notify: "stopper s = StopNotify \<Longrightarrow> loop_step StopCall s (Stop_notify s)"
| stop_join: "stopper s = StopJoin \<Longrightarrow> Stop_join s = Some s' \<Longrightarrow> loop_step StopCall s s'"
| restart: "stopper s \<in> {NotStopping, StopDone} \<Longrightarrow> loop_step Restart s (Start s)"

inductive loop_run :: "(loop_act \<Rightarrow> bool) \<Rightarrow> task_loop \<Rightarrow> task_loop \<Rightarrow> bool" for allowed where
  here: "loop_run allowed s s"
| step: "loop_run allowed s t \<Longrightarrow> allowed a \<Longrightarrow> loop_step a t u \<Longrightarrow> loop_run allowed s u"

inductive_cases loop_stepE: "loop_step a s t"

definition loop_reachable :: "task_loop \<Rightarrow> bool" where
  "loop_reachable s \<longleftrightarrow> loop_run (\<lambda>_. True) TaskLoop s"

section \<open>No task is lost or duplicated\<close>

definition loop_inv :: "task_loop \<Rightarrow> bool" where
  "loop_inv s \<longleftrightarrow>
     ld_inv (incoming_task_queue s) \<and> ld_inv (work_queue s) \<and>
     mset (posted s) = mset (retired s) + mset (ld_list (work_queue s)) + mset (ld_list (incoming_task_queue s)) \<and>
     executed s = map the (filter (\<lambda>f. f \<noteq> None) (map t_func (retired s))) \<and>
     (thread s = Some L_Pop \<longrightarrow> ld_list (work_queue s) \<noteq> [])"

lemma ld_empty_iff: "ld_inv d \<Longrightarrow> ld_empty d \<longleftrightarrow> ld_list d = []"
  by (auto simp: ld_empty_def ld_inv_iff)

lemma ld_swap_eq [simp]: "ld_swap d e = (e, d)"
  by (simp add: ld_swap_def)

lemma Reload_spec:
  assumes "ld_inv (incoming_task_queue s)" "ld_inv (work_queue s)"
  obtains s' where "ReloadWorkQueue now s = Some s'" "ld_inv (incoming_task_queue s')" "ld_inv (work_queue s')"
    "s' = s\<lparr>incoming_task_queue := incoming_task_queue s', work_queue := work_queue s'\<rparr>"
    "ld_list (incoming_task_queue s) = [] \<Longrightarrow>
       ld_list (incoming_task_queue s') = [] \<and> ld_list (work_queue s') = ld_list (work_queue s)"
    "ld_list (incoming_task_queue s) \<noteq> [] \<Longrightarrow>
       ld_list (incoming_task_queue s') = ld_list (work_queue s) \<and>
       ld_list (work_queue s') = ld_list (incoming_task_queue s)"
proof -
  obtain wq where wq: "MaybeShrinkQueue now (work_queue s) = Some wq" "ld_inv wq"
    "ld_list wq = ld_list (work_queue s)"
    using Maybe_shrink_spec [OF assms(2)] by blast
  show ?thesis
  proof (cases "ld_list (incoming_task_queue s) = []")
    case True
    with wq assms show ?thesis
      by (intro that [of "s\<lparr>work_queue := wq\<rparr>"]) (simp_all add: ReloadWorkQueue_def ld_empty_iff)
  next
    case False
    with wq assms show ?thesis
      by (intro that [of "s\<lparr>incoming_task_queue := wq, work_queue := incoming_task_queue s\<rparr>"])
        (simp_all add: ReloadWorkQueue_def ld_empty_iff)
  qed
qed

lemma take_task_spec:
  assumes "loop_inv s" "thread s = Some L_Pop"
  obtains t ts s' where "ld_list (work_queue s) = t # ts" "take_task s = Some s'" "loop_inv s'"
    "ld_list (work_queue s') = ts" "retired s' = retired s @ [t]"
    "executed s' = executed s @ (case t_func t of None \<Rightarrow> [] | Some f \<Rightarrow> [f])"
    "thread s' = Some (case t_func t of None \<Rightarrow> L_Skipped | Some f \<Rightarrow> L_After True)"
    "incoming_task_queue s' = incoming_task_queue s" "should_quit s' = should_quit s"
    "stopper s' = stopper s"
proof -
  obtain t ts where l: "ld_list (work_queue s) = t # ts" "ld_inv (work_queue s)"
    using assms by (cases "ld_list (work_queue s)") (auto simp: loop_inv_def)
  then obtain wq where wq: "ld_pop_front (work_queue s) = Some wq" "ld_inv wq" "ld_list wq = ts"
    using pop_front_spec [of "work_queue s"] by auto
  have f: "ld_front (work_queue s) = Some t" using ld_front_spec l by fastforce
  show ?thesis
    using assms l wq f
    by (intro that [of t ts "the (take_task s)"])
      (auto simp: take_task_def Let_def loop_inv_def split: option.splits)
qed

lemma loop_inv_cong:
  "loop_inv s \<Longrightarrow> p \<noteq> Some L_Pop \<or> ld_list (work_queue s) \<noteq> [] \<Longrightarrow> loop_inv (s\<lparr>thread := p\<rparr>)"
  by (auto simp: loop_inv_def)

lemma worker_step_inv:
  assumes "loop_inv s" "worker_step now s = Some s'"
  shows "loop_inv s'"
proof (cases "thread s")
  case None
  then show ?thesis using assms by (simp add: worker_step_def)
next
  case (Some p)
  show ?thesis
  proof (cases p)
    case L_Reload
    have i: "ld_inv (incoming_task_queue s)" "ld_inv (work_queue s)" using assms(1) by (simp_all add: loop_inv_def)
    from Reload_spec [OF i, of now] obtain r where r: "ReloadWorkQueue now s = Some r"
      "ld_inv (incoming_task_queue r)" "ld_inv (work_queue r)"
      "r = s\<lparr>incoming_task_queue := incoming_task_queue r, work_queue := work_queue r\<rparr>"
      "mset (ld_list (work_queue r)) + mset (ld_list (incoming_task_queue r)) =
       mset (ld_list (work_queue s)) + mset (ld_list (incoming_task_queue s))"
      by (metis add.commute)
    have "posted r = posted s" "retired r = retired s" "executed r = executed s" by (subst r(4), simp)+
    moreover have "s' = r\<lparr>thread := Some L_Check\<rparr>"
      using assms(2) Some L_Reload r(1) by (simp add: worker_step_def)
    ultimately show ?thesis using assms(1) r(2,3,5) by (simp add: loop_inv_def add.assoc)
  next
    case L_Pop
    with Some take_task_spec [OF assms(1)] assms(2) show ?thesis
      by (auto simp: worker_step_def)
  qed (use assms Some in \<open>auto simp: worker_step_def loop_inv_def ld_empty_iff split: if_splits\<close>)
qed

lemma PostTask_inv: "loop_inv s \<Longrightarrow> loop_inv (PostTask_push t s)"
  using push_back_spec [of "incoming_task_queue s" t] by (simp add: loop_inv_def PostTask_push_def)

lemma loop_step_inv: "loop_step a s t \<Longrightarrow> loop_inv s \<Longrightarrow> loop_inv t"
proof (induction rule: loop_step.induct)
  case (work now s s')
  then show ?case by (rule_tac worker_step_inv)
next
  case (post t s)
  then show ?case by (rule_tac PostTask_inv)
qed (auto simp: loop_inv_def PostTask_notify_def wake_def Stop_set_def Stop_notify_def Stop_join_def
    Start_def Let_def split: option.splits loop_pc.splits)

lemma TaskLoop_inv: "loop_inv TaskLoop"
  by (simp add: loop_inv_def TaskLoop_def Start_def Let_def)

lemma loop_run_inv: "loop_run A s t \<Longrightarrow> loop_inv s \<Longrightarrow> loop_inv t"
  by (induction rule: loop_run.induct) (auto intro: loop_step_inv)

lemma loop_reachable_inv: "loop_reachable s \<Longrightarrow> loop_inv s"
  unfolding loop_reachable_def by (rule loop_run_inv [OF _ TaskLoop_inv])

section \<open>Running the thread alone\<close>

text \<open>The state after \<open>n\<close> steps of the thread, with the clock readings \<open>clk\<close>.\<close>

fun work_steps :: "(nat \<Rightarrow> int) \<Rightarrow> nat \<Rightarrow> task_loop \<Rightarrow> task_loop option" where
  "work_steps clk 0 s = Some s"
| "work_steps clk (Suc n) s =
     (case worker_step (clk 0) s of None \<Rightarrow> None | Some s' \<Rightarrow> work_steps (\<lambda>i. clk (Suc i)) n s')"

definition funcs :: "task list \<Rightarrow> nat list" where
  "funcs ts = map the (filter (\<lambda>f. f \<noteq> None) (map t_func ts))"

lemma funcs_simps [simp]:
  "funcs [] = []" "funcs (t # ts) = (case t_func t of None \<Rightarrow> [] | Some f \<Rightarrow> [f]) @ funcs ts"
  "funcs (xs @ ys) = funcs xs @ funcs ys"
  by (simp_all add: funcs_def split: option.splits)

text \<open>Every step towards the wait makes this smaller.\<close>

fun loop_pc_weight :: "loop_pc \<Rightarrow> nat" where
  "loop_pc_weight (L_After m) = (if m then 4 else 1)"
| "loop_pc_weight L_Pop = 1"
| "loop_pc_weight L_Check = 2"
| "loop_pc_weight L_Reload = 3"
| "loop_pc_weight L_Skipped = 4"
| "loop_pc_weight _ = 0"

definition queued :: "task_loop \<Rightarrow> nat" where
  "queued s = length (ld_list (work_queue s)) + length (ld_list (incoming_task_queue s))"

definition loop_measure :: "task_loop \<Rightarrow> nat" where
  "loop_measure s = 5 * queued s + (case thread s of None \<Rightarrow> 0 | Some p \<Rightarrow> loop_pc_weight p)"

text \<open>The thread is in \<open>DoWork\<close> or on its way to the wait, and \<open>DoWork\<close> returns false
  only with both queues empty, as long as nobody posts.\<close>

definition busy :: "task_loop \<Rightarrow> bool" where
  "busy s \<longleftrightarrow> loop_inv s \<and> \<not> should_quit s \<and>
     (case thread s of
        Some p \<Rightarrow> p \<notin> {L_Sleep, L_Blocked, L_Exit} \<and>
          (p \<in> {L_After False, L_Wait} \<longrightarrow> queued s = 0) \<and>
          (p = L_Check \<longrightarrow> ld_list (work_queue s) = [] \<longrightarrow> queued s = 0)
      | None \<Rightarrow> False)"

text \<open>The order in which the tasks will run, while at most one queue holds any.\<close>

definition in_order :: "task_loop \<Rightarrow> bool" where
  "in_order s \<longleftrightarrow> ld_list (incoming_task_queue s) = [] \<or>
     thread s = Some L_Reload \<and> ld_list (work_queue s) = []"

definition agenda :: "task_loop \<Rightarrow> task list" where
  "agenda s = retired s @ ld_list (work_queue s) @ ld_list (incoming_task_queue s)"

lemma busy_reload:
  assumes "busy s" "thread s = Some L_Reload"
  shows "\<exists>s'. worker_step now s = Some s' \<and> busy s' \<and> loop_measure s' < loop_measure s \<and>
    posted s' = posted s \<and> (in_order s \<longrightarrow> in_order s' \<and> agenda s' = agenda s)"
proof -
  have i: "ld_inv (incoming_task_queue s)" "ld_inv (work_queue s)"
    using assms(1) by (simp_all add: busy_def loop_inv_def split: option.splits)
  from Reload_spec [OF i, of now] obtain r where r: "ReloadWorkQueue now s = Some r"
    and same: "r = s\<lparr>incoming_task_queue := incoming_task_queue r, work_queue := work_queue r\<rparr>"
    and no: "ld_list (incoming_task_queue s) = [] \<Longrightarrow>
       ld_list (incoming_task_queue r) = [] \<and> ld_list (work_queue r) = ld_list (work_queue s)"
    and yes: "ld_list (incoming_task_queue s) \<noteq> [] \<Longrightarrow>
       ld_list (incoming_task_queue r) = ld_list (work_queue s) \<and>
       ld_list (work_queue r) = ld_list (incoming_task_queue s)" by metis
  let ?s = "r\<lparr>thread := Some L_Check\<rparr>"
  have st: "worker_step now s = Some ?s" using assms(2) r by (simp add: worker_step_def)
  have eq: "posted r = posted s" "retired r = retired s" "should_quit r = should_quit s" by (subst same, simp)+
  have q: "queued ?s = queued s" and w: "ld_list (work_queue ?s) = [] \<Longrightarrow> queued s = 0"
    using no yes by (cases "ld_list (incoming_task_queue s) = []"; auto simp: queued_def)+
  have "busy ?s"
    using assms(1) worker_step_inv [OF _ st] q w eq by (auto simp: busy_def split: option.splits)
  moreover have "loop_measure ?s < loop_measure s" using assms(2) q by (simp add: loop_measure_def)
  moreover have "in_order s \<longrightarrow> in_order ?s \<and> agenda ?s = agenda s"
    using no yes eq by (cases "ld_list (incoming_task_queue s) = []") (auto simp: in_order_def agenda_def)
  ultimately show ?thesis using st eq by simp
qed

lemma busy_step:
  assumes "busy s" "thread s \<noteq> Some L_Wait"
  shows "\<exists>s'. worker_step now s = Some s' \<and> busy s' \<and> loop_measure s' < loop_measure s \<and>
    posted s' = posted s \<and> (in_order s \<longrightarrow> in_order s' \<and> agenda s' = agenda s)"
proof -
  obtain p where p: "thread s = Some p" using assms(1) by (auto simp: busy_def split: option.splits)
  have i: "ld_inv (work_queue s)" "loop_inv s"
    using assms(1) by (simp_all add: busy_def loop_inv_def split: option.splits)
  show ?thesis
  proof (cases p)
    case L_Reload
    then show ?thesis using busy_reload assms p by blast
  next
    case L_Pop
    with p take_task_spec [OF i(2)] obtain t ts s' where t: "ld_list (work_queue s) = t # ts"
      "take_task s = Some s'" "loop_inv s'" "ld_list (work_queue s') = ts" "retired s' = retired s @ [t]"
      "thread s' = Some (case t_func t of None \<Rightarrow> L_Skipped | Some f \<Rightarrow> L_After True)"
      "incoming_task_queue s' = incoming_task_queue s" "should_quit s' = should_quit s" by metis
    have "worker_step now s = Some s'" "posted s' = posted s"
      using t(2) p L_Pop by (auto simp: worker_step_def take_task_def Let_def split: option.splits)
    with assms(1) p L_Pop t show ?thesis
      by (auto simp: busy_def loop_measure_def queued_def in_order_def agenda_def split: option.splits)
  qed (use assms p i in \<open>auto simp: worker_step_def busy_def loop_inv_def ld_empty_iff loop_measure_def
      queued_def in_order_def agenda_def split: if_splits\<close>)
qed

lemma busy_drains:
  "busy s \<Longrightarrow> \<exists>n \<le> loop_measure s. \<exists>s'. work_steps clk n s = Some s' \<and> busy s' \<and>
     thread s' = Some L_Wait \<and> posted s' = posted s \<and> (in_order s \<longrightarrow> agenda s' = agenda s)"
proof (induction "loop_measure s" arbitrary: s clk rule: less_induct)
  case less
  show ?case
  proof (cases "thread s = Some L_Wait")
    case True
    with less.prems show ?thesis by (intro exI [of _ 0]) simp
  next
    case False
    from busy_step [OF less.prems False, of "clk 0"] obtain t where t: "worker_step (clk 0) s = Some t" "busy t"
      "loop_measure t < loop_measure s" "posted t = posted s"
      "in_order s \<longrightarrow> in_order t \<and> agenda t = agenda s" by blast
    from less.hyps [OF t(3,2), of "\<lambda>i. clk (Suc i)"] obtain n u where
      "n \<le> loop_measure t" "work_steps (\<lambda>i. clk (Suc i)) n t = Some u" "busy u" "thread u = Some L_Wait"
      "posted u = posted t" "in_order t \<longrightarrow> agenda u = agenda t" by blast
    with t show ?thesis by (intro exI [of _ "Suc n"]) auto
  qed
qed

section \<open>Idle threads\<close>

text \<open>Waiting, or stopped while it was waiting.\<close>

definition idle :: "task_loop \<Rightarrow> bool" where
  "idle s \<longleftrightarrow>
     (case thread s of
        None \<Rightarrow> True
      | Some p \<Rightarrow> p \<in> {L_Wait, L_Sleep, L_Blocked, L_Exit} \<or>
          should_quit s \<and> p \<in> {L_Reload, L_Check, L_After True, L_After False})"

lemma Reload_other: "ReloadWorkQueue now s = Some r \<Longrightarrow>
    should_quit r = should_quit s \<and> executed r = executed s \<and> thread r = thread s \<and> stopper r = stopper s"
  by (auto simp: ReloadWorkQueue_def split: option.splits if_splits)

lemma idle_step:
  assumes "loop_step a s t" "a \<noteq> Restart" "idle s"
  shows "idle t \<and> executed t = executed s"
  using assms
proof (induction rule: loop_step.induct)
  case (work now s s')
  then show ?case
    by (auto simp: worker_step_def idle_def split: option.splits loop_pc.splits if_splits dest!: Reload_other)
qed (auto simp: idle_def PostTask_push_def PostTask_notify_def wake_def Stop_set_def Stop_notify_def
    Stop_join_def split: option.splits loop_pc.splits if_splits)

lemma idle_forever: "loop_run (\<lambda>a. a \<noteq> Restart) s t \<Longrightarrow> idle s \<Longrightarrow> idle t \<and> executed t = executed s"
  by (induction rule: loop_run.induct) (auto dest: idle_step)

section \<open>Stopping\<close>

fun quit_weight :: "loop_pc \<Rightarrow> nat" where
  "quit_weight L_Wait = 4"
| "quit_weight L_Reload = 3"
| "quit_weight L_Pop = 3"
| "quit_weight L_Check = 2"
| "quit_weight L_Skipped = 2"
| "quit_weight (L_After m) = 1"
| "quit_weight _ = 0"

lemma quit_step:
  assumes "loop_inv s" "should_quit s" "thread s = Some p" "p \<notin> {L_Sleep, L_Blocked, L_Exit}"
  shows "\<exists>s' p'. worker_step now s = Some s' \<and> loop_inv s' \<and> should_quit s' \<and> thread s' = Some p' \<and>
    p' \<notin> {L_Sleep, L_Blocked, L_Pop} \<and> quit_weight p' < quit_weight p \<and>
    length (executed s') \<le> length (executed s) + (if p = L_Pop then 1 else 0)"
proof -
  have "\<exists>s' p'. worker_step now s = Some s' \<and> should_quit s' \<and> thread s' = Some p' \<and>
    p' \<notin> {L_Sleep, L_Blocked, L_Pop} \<and> quit_weight p' < quit_weight p \<and>
    length (executed s') \<le> length (executed s) + (if p = L_Pop then 1 else 0)"
  proof (cases p)
    case L_Reload
    obtain r where "ReloadWorkQueue now s = Some r"
      using Reload_spec [of s now] assms(1) by (metis loop_inv_def)
    with Reload_other [OF this] L_Reload assms show ?thesis by (simp add: worker_step_def)
  next
    case L_Pop
    obtain s' f where "take_task s = Some s'" "executed s' = executed s @ f" "length f \<le> 1"
      "should_quit s'" "thread s' = Some L_Skipped \<or> thread s' = Some (L_After True)"
      by (rule take_task_spec [OF assms(1)]) (use assms L_Pop in \<open>auto split: option.splits\<close>)
    with L_Pop assms show ?thesis by (auto simp: worker_step_def)
  qed (use assms in \<open>auto simp: worker_step_def\<close>)
  then show ?thesis using worker_step_inv [OF assms(1)] by blast
qed

lemma quit_exits:
  "loop_inv s \<Longrightarrow> should_quit s \<Longrightarrow> thread s = Some p \<Longrightarrow> p \<notin> {L_Sleep, L_Blocked} \<Longrightarrow>
   \<exists>n \<le> quit_weight p. \<exists>s'. work_steps clk n s = Some s' \<and> thread s' = Some L_Exit \<and>
     length (executed s') \<le> length (executed s) + (if p = L_Pop then 1 else 0)"
proof (induction "quit_weight p" arbitrary: p s clk rule: less_induct)
  case less
  show ?case
  proof (cases "p = L_Exit")
    case True
    with less.prems show ?thesis by (intro exI [of _ 0]) simp
  next
    case False
    with less.prems have "p \<notin> {L_Sleep, L_Blocked, L_Exit}" by simp
    from quit_step [OF less.prems(1-3) this, of "clk 0"] obtain t q where
      t: "worker_step (clk 0) s = Some t" "loop_inv t" "should_quit t" "thread t = Some q"
      "q \<notin> {L_Sleep, L_Blocked}" "q \<noteq> L_Pop" "quit_weight q < quit_weight p"
      "length (executed t) \<le> length (executed s) + (if p = L_Pop then 1 else 0)" by blast
    from less.hyps [OF t(7,2,3,4,5), of "\<lambda>i. clk (Suc i)"] obtain n u where
      "n \<le> quit_weight q" "work_steps (\<lambda>i. clk (Suc i)) n t = Some u" "thread u = Some L_Exit"
      "length (executed u) \<le> length (executed t)" using t(6) by auto
    with t show ?thesis by (intro exI [of _ "Suc n"]) auto
  qed
qed

section \<open>Executing runs\<close>

text \<open>One labelled step as a function, the clock at zero, and a sequence of them.\<close>

definition exec_act :: "loop_act \<Rightarrow> task_loop \<Rightarrow> task_loop option" where
  "exec_act a s =
     (case a of
        Work \<Rightarrow> worker_step 0 s
      | Post t \<Rightarrow> Some (PostTask_push t s)
      | Notify \<Rightarrow> if notifies s > 0 then Some (PostTask_notify s) else None
      | Spurious \<Rightarrow> if thread s = Some L_Blocked then Some (wake s) else None
      | StopCall \<Rightarrow>
          (case stopper s of
             StopNotify \<Rightarrow> Some (Stop_notify s)
           | StopJoin \<Rightarrow> Stop_join s
           | _ \<Rightarrow> Some (Stop_set s))
      | Restart \<Rightarrow> if stopper s \<in> {NotStopping, StopDone} then Some (Start s) else None)"

fun exec_acts :: "loop_act list \<Rightarrow> task_loop \<Rightarrow> task_loop option" where
  "exec_acts [] s = Some s"
| "exec_acts (a # as) s = (case exec_act a s of None \<Rightarrow> None | Some t \<Rightarrow> exec_acts as t)"

lemma exec_act_step: "exec_act a s = Some t \<Longrightarrow> loop_step a s t"
  by (auto simp: exec_act_def intro: loop_step.intros
      split: loop_act.splits if_splits stop_pc.splits)

lemma exec_acts_run:
  "exec_acts as s = Some t \<Longrightarrow> list_all A as \<Longrightarrow> loop_run A r s \<Longrightarrow> loop_run A r t"
  by (induction as arbitrary: s) (auto split: option.splits intro: loop_run.step exec_act_step)

lemma exec_acts_reachable: "exec_acts as TaskLoop = Some t \<Longrightarrow> loop_reachable t"
  unfolding loop_reachable_def
  by (rule exec_acts_run [of as TaskLoop]) (auto simp: list_all_iff intro: loop_run.here)

definition demo_task :: "nat \<Rightarrow> task" where
  "demo_task n = \<lparr>t_a = 0, t_func = Some n\<rparr>"

text \<open>Posting two tasks, running the first, posting a third, then draining.\<close>

definition reorder_run :: "loop_act list" where
  "reorder_run = [Post (demo_task 1), Post (demo_task 2)] @ replicate 4 Work @ [Post (demo_task 3)]
     @ replicate 8 Work"

text \<open>Waiting, stopped between the predicate and the sleep.\<close>

definition hang_run :: "loop_act list" where
  "hang_run = replicate 4 Work @ [StopCall, StopCall, Work]"

section \<open>Properties\<close>

text \<open>C8: in every state the loop can reach, under any interleaving of posts, steps of the
  thread, notifications, spurious wake-ups, stops and restarts, each posted task is in
  exactly one place: taken by the thread, in the work queue or in the incoming queue;
  and the functions run are those of the taken tasks that have one, in the order they
  were taken.\<close>

theorem loop_conserves_tasks:
  assumes "loop_reachable s"
  shows "mset (posted s) =
      mset (retired s) + mset (ld_list (work_queue s)) + mset (ld_list (incoming_task_queue s))
    \<and> executed s = funcs (retired s)"
  using loop_reachable_inv [OF assms] by (simp add: loop_inv_def funcs_def)

theorem loop_conserves_tasks_witness:
  "\<exists>s. loop_reachable s \<and> length (posted s) = 3 \<and> mset (posted s) =
     mset (retired s) + mset (ld_list (work_queue s)) + mset (ld_list (incoming_task_queue s))"
proof -
  have "case exec_acts reorder_run TaskLoop of None \<Rightarrow> False | Some s \<Rightarrow> length (posted s) = 3"
    by code_simp
  then obtain s where "loop_reachable s" "length (posted s) = 3"
    using exec_acts_reachable by (auto split: option.splits)
  then show ?thesis using loop_conserves_tasks [of s] by blast
qed

text \<open>Left alone, a thread at the head of its loop drains both queues and then waits,
  whatever the clock shows: the number of its steps is bounded, no queue operation
  fails, every queued task is taken exactly once, and when only one of the queues holds
  tasks they run in the order of that queue.\<close>

theorem loop_drains:
  assumes "loop_inv s" "\<not> should_quit s" "thread s = Some L_Reload"
  shows "\<exists>n \<le> 5 * (length (ld_list (work_queue s)) + length (ld_list (incoming_task_queue s))) + 3.
    \<exists>s'. work_steps clk n s = Some s' \<and> thread s' = Some L_Wait \<and>
      ld_list (work_queue s') = [] \<and> ld_list (incoming_task_queue s') = [] \<and>
      mset (retired s') = mset (posted s) \<and>
      (ld_list (work_queue s) = [] \<or> ld_list (incoming_task_queue s) = [] \<longrightarrow>
        executed s' = executed s @ funcs (ld_list (work_queue s) @ ld_list (incoming_task_queue s)))"
proof -
  have "busy s" using assms by (simp add: busy_def)
  then obtain n u where n: "n \<le> loop_measure s" "work_steps clk n s = Some u" and u: "busy u"
    "thread u = Some L_Wait" "posted u = posted s" "in_order s \<longrightarrow> agenda u = agenda s"
    using busy_drains by blast
  have e: "ld_list (work_queue u) = []" "ld_list (incoming_task_queue u) = []" "loop_inv u"
    using u(1,2) by (auto simp: busy_def queued_def)
  then have r: "mset (retired u) = mset (posted s)" "executed u = funcs (retired u)"
    "executed s = funcs (retired s)"
    using u(3) assms(1) by (simp_all add: loop_inv_def funcs_def)
  have "ld_list (work_queue s) = [] \<or> ld_list (incoming_task_queue s) = [] \<Longrightarrow>
      retired u = retired s @ ld_list (work_queue s) @ ld_list (incoming_task_queue s)"
    using u(4) e assms(3) by (auto simp: in_order_def agenda_def)
  with r e n u assms(3) show ?thesis
    by (intro exI [of _ n] exI [of _ u] conjI) (auto simp: loop_measure_def queued_def)
qed

text \<open>Once the thread waits it never runs a task again, whatever is posted and however
  often it is notified: the predicate of its wait looks only at the stop flag, and a
  thread woken by \<open>Stop\<close> leaves without taking a task.  Only a new \<open>Start\<close> can change
  this.\<close>

theorem idle_loop_never_runs:
  assumes "thread s = Some L_Wait \<or> thread s = Some L_Sleep \<or> thread s = Some L_Blocked"
    and "loop_run (\<lambda>a. a \<noteq> Restart) s t"
  shows "executed t = executed s"
  using idle_forever [OF assms(2)] assms(1) by (auto simp: idle_def)

text \<open>\<open>Stop\<close> takes effect quickly: a thread that is not asleep, or about to be, exits
  within four of its steps once the flag is set, and runs at most one more task.\<close>

theorem stop_exits:
  assumes "loop_inv s" "should_quit s" "thread s = Some p" "p \<notin> {L_Sleep, L_Blocked}"
  shows "\<exists>n \<le> 4. \<exists>s'. work_steps clk n s = Some s' \<and> thread s' = Some L_Exit \<and>
    length (executed s') \<le> length (executed s) + 1"
proof -
  have "quit_weight p \<le> 4" by (cases p) auto
  moreover obtain n u where "n \<le> quit_weight p" "work_steps clk n s = Some u" "thread u = Some L_Exit"
    "length (executed u) \<le> length (executed s) + (if p = L_Pop then 1 else 0)"
    using quit_exits [OF assms] by blast
  ultimately show ?thesis by (intro exI [of _ n] exI [of _ u] conjI) (auto split: if_splits)
qed

text \<open>The flag is written without the mutex of the wait, so the notification of
  \<open>Stop\<close> can come between the evaluation of the predicate and going to sleep: a reachable
  state has \<open>Stop\<close> in its join and the thread asleep with nobody left to notify it, and
  neither can take a step.\<close>

theorem stop_can_hang:
  "\<exists>s. loop_reachable s \<and> should_quit s \<and> stopper s = StopJoin \<and> thread s = Some L_Blocked \<and>
     notifies s = 0 \<and> Stop_join s = None \<and> (\<forall>now. worker_step now s = None)"
proof -
  have "case exec_acts hang_run TaskLoop of None \<Rightarrow> False
    | Some s \<Rightarrow> should_quit s \<and> stopper s = StopJoin \<and> thread s = Some L_Blocked \<and> notifies s = 0"
    by code_simp
  then obtain s where "exec_acts hang_run TaskLoop = Some s" "should_quit s" "stopper s = StopJoin"
    "thread s = Some L_Blocked" "notifies s = 0" by (auto split: option.splits)
  then show ?thesis
    using exec_acts_reachable by (auto simp: Stop_join_def worker_step_def intro!: exI [of _ s])
qed

text \<open>Tasks can run out of order: swapping the queues while the work queue still
  holds tasks puts newer tasks before older ones.\<close>

theorem loop_reorders:
  "\<exists>s. loop_reachable s \<and> map t_func (posted s) = [Some 1, Some 2, Some 3] \<and> executed s = [1, 3, 2]"
proof -
  have "map_option (\<lambda>s. (map t_func (posted s), executed s)) (exec_acts reorder_run TaskLoop)
      = Some ([Some 1, Some 2, Some 3], [1, 3, 2])"
    by code_simp
  then have "\<exists>s. exec_acts reorder_run TaskLoop = Some s \<and>
      map t_func (posted s) = [Some 1, Some 2, Some 3] \<and> executed s = [1, 3, 2]"
    by (simp only: map_option_eq_Some prod.inject)
  then obtain s where s: "exec_acts reorder_run TaskLoop = Some s"
    "map t_func (posted s) = [Some 1, Some 2, Some 3] \<and> executed s = [1, 3, 2]" by (elim exE conjE) (rule, assumption, rule conjI)
  show ?thesis by (rule exI [of _ s], rule conjI [OF exec_acts_reachable [OF s(1)] s(2)])
qed

end
