(* ===== verification/Order_Interfaces.thy ===== *)
theory Order_Interfaces
  imports Sparo_Prelude
begin

text \<open>
  The contract of the comparison functors the ordered containers are instantiated with
  (a strict weak order, as the standard library asks of \<open>Compare\<close>), and the contract of
  a priority queue over such an order, with what its clients get: popping until empty
  delivers the elements in an order that never increases.
\<close>

section \<open>Comparison functors\<close>

locale strict_weak_order =
  fixes lt :: "'a \<Rightarrow> 'a \<Rightarrow> bool"
  assumes lt_irrefl: "\<not> lt x x"
    and lt_trans: "lt x y \<Longrightarrow> lt y z \<Longrightarrow> lt x z"
    and incomp_trans: "\<not> lt x y \<Longrightarrow> \<not> lt y z \<Longrightarrow> \<not> lt x z"
begin

lemma lt_asym: "lt x y \<Longrightarrow> \<not> lt y x"
  using lt_irrefl lt_trans by blast

lemma lt_le_trans: "lt x y \<Longrightarrow> \<not> lt z y \<Longrightarrow> lt x z"
  using incomp_trans by blast

lemma le_lt_trans: "\<not> lt y x \<Longrightarrow> lt y z \<Longrightarrow> lt x z"
  using incomp_trans by blast

end

text \<open>The default functor \<open>std::less\<close> on an ordered type.\<close>

interpretation std_less: strict_weak_order "(<) :: 'a::linorder \<Rightarrow> 'a \<Rightarrow> bool"
  by unfold_locales auto

section \<open>Priority queues\<close>

text \<open>Taking the top \<open>n\<close> times.\<close>

fun take_all :: "('q \<Rightarrow> 'a) \<Rightarrow> ('q \<Rightarrow> 'q) \<Rightarrow> nat \<Rightarrow> 'q \<Rightarrow> 'a list" where
  "take_all tp pop 0 q = []"
| "take_all tp pop (Suc n) q = tp q # take_all tp pop n (pop q)"

locale priority_queue = strict_weak_order lt
  for lt :: "'a \<Rightarrow> 'a \<Rightarrow> bool" +
  fixes inv :: "'q \<Rightarrow> bool"
    and bag :: "'q \<Rightarrow> 'a multiset"
    and ins :: "'q \<Rightarrow> 'a \<Rightarrow> 'q"
    and tp :: "'q \<Rightarrow> 'a"
    and pop :: "'q \<Rightarrow> 'q"
  assumes ins_ok: "inv q \<Longrightarrow> inv (ins q x) \<and> bag (ins q x) = add_mset x (bag q)"
    and top_in: "inv q \<Longrightarrow> bag q \<noteq> {#} \<Longrightarrow> tp q \<in># bag q"
    and top_max: "inv q \<Longrightarrow> x \<in># bag q \<Longrightarrow> \<not> lt (tp q) x"
    and pop_ok: "inv q \<Longrightarrow> bag q \<noteq> {#} \<Longrightarrow> inv (pop q) \<and> bag (pop q) = bag q - {#tp q#}"
begin

lemma ins_all: "inv q \<Longrightarrow> inv (foldl ins q xs) \<and> bag (foldl ins q xs) = bag q + mset xs"
  by (induction xs arbitrary: q) (simp_all add: ins_ok)

lemma take_all_bag: "inv q \<Longrightarrow> n = size (bag q) \<Longrightarrow> mset (take_all tp pop n q) = bag q"
proof (induction n arbitrary: q)
  case 0
  then show ?case by simp
next
  case (Suc n)
  then have ne: "bag q \<noteq> {#}" by auto
  then have t: "tp q \<in># bag q" and p: "inv (pop q)" "bag (pop q) = bag q - {#tp q#}"
    using Suc.prems top_in pop_ok by auto
  then have "size (bag (pop q)) = n" using Suc.prems by (simp add: size_Diff_singleton)
  then show ?case using Suc.IH [OF p(1)] p t by simp
qed

lemma take_all_sorted:
  "inv q \<Longrightarrow> n = size (bag q) \<Longrightarrow> sorted_wrt (\<lambda>x y. \<not> lt x y) (take_all tp pop n q)"
proof (induction n arbitrary: q)
  case 0
  then show ?case by simp
next
  case (Suc n)
  then have ne: "bag q \<noteq> {#}" by auto
  then have t: "tp q \<in># bag q" and p: "inv (pop q)" "bag (pop q) = bag q - {#tp q#}"
    using Suc.prems top_in pop_ok by auto
  then have n: "n = size (bag (pop q))" using Suc.prems by (simp add: size_Diff_singleton)
  have "x \<in># bag q" if "x \<in> set (take_all tp pop n (pop q))" for x
    using that take_all_bag [OF p(1) n] p(2) by (metis in_diffD set_mset_mset)
  then show ?case using Suc.IH [OF p(1) n] top_max [OF Suc.prems(1)] by simp
qed

text \<open>Inserting a list and taking everything sorts it.\<close>

lemma insert_take_sorts:
  assumes "inv q" "bag q = {#}"
  shows "mset (take_all tp pop (length xs) (foldl ins q xs)) = mset xs \<and>
    sorted_wrt (\<lambda>x y. \<not> lt x y) (take_all tp pop (length xs) (foldl ins q xs))"
  using take_all_bag [of "foldl ins q xs" "length xs"] take_all_sorted [of "foldl ins q xs" "length xs"]
    ins_all [OF assms(1), of xs] assms(2) by simp

end

end
