(* ===== verification/Intrusive_Heap.thy ===== *)
theory Intrusive_Heap
  imports Order_Interfaces
begin

text \<open>
  The heap of \<open>src/base/intrusive_heap.h\<close>: a binary max-heap in a vector whose elements
  know their position through a handle the heap maintains.  A cell of the vector is
  \<open>None\<close> after its element was moved out, so nothing can depend on a moved-from element;
  the algorithms move such a hole up or down the tree and fill it last.  The comparison
  is the argument \<open>lt\<close>, a strict weak order.  The handle of an element is \<open>None\<close> when it
  is invalid.
\<close>

section \<open>Elements, handles and holes\<close>

record 'a cell =
  c_value :: 'a
  c_handle :: "nat option"

type_synonym 'a heap = "'a cell option list"

definition ParentIndex :: "nat \<Rightarrow> nat" where
  "ParentIndex i = (i - 1) div 2"

definition LeftIndex :: "nat \<Rightarrow> nat" where
  "LeftIndex i = 2 * i + 1"

definition SetHeapHandle :: "'a heap \<Rightarrow> nat \<Rightarrow> 'a heap" where
  "SetHeapHandle h i = h[i := map_option (\<lambda>c. c\<lparr>c_handle := Some i\<rparr>) (h ! i)]"

definition ClearHeapHandle :: "'a heap \<Rightarrow> nat \<Rightarrow> 'a heap" where
  "ClearHeapHandle h i = h[i := map_option (\<lambda>c. c\<lparr>c_handle := None\<rparr>) (h ! i)]"

definition GetHeapHandle :: "'a heap \<Rightarrow> nat \<Rightarrow> nat option" where
  "GetHeapHandle h i = c_handle (the (h ! i))"

definition heap_value :: "'a heap \<Rightarrow> nat \<Rightarrow> 'a" where
  "heap_value h i = c_value (the (h ! i))"

definition MakeHole :: "'a heap \<Rightarrow> nat \<Rightarrow> 'a heap" where
  "MakeHole h pos = ClearHeapHandle h pos"

text \<open>Moving an element out of the vector.\<close>

definition move_out :: "'a heap \<Rightarrow> nat \<Rightarrow> 'a heap" where
  "move_out h i = h[i := None]"

definition FillHole :: "'a heap \<Rightarrow> nat \<Rightarrow> 'a \<Rightarrow> 'a heap" where
  "FillHole h hole_pos element =
     (let c = Some \<lparr>c_value = element, c_handle = None\<rparr>;
          h = (if hole_pos = length h then h @ [c] else h[hole_pos := c])
      in SetHeapHandle h hole_pos)"

definition MoveHole :: "'a heap \<Rightarrow> nat \<Rightarrow> nat \<Rightarrow> 'a heap" where
  "MoveHole h new_hole_pos old_hole_pos =
     (let c = h ! new_hole_pos;
          h = move_out h new_hole_pos;
          h = (if old_hole_pos = length h then h @ [c] else h[old_hole_pos := c])
      in SetHeapHandle h old_hole_pos)"

section \<open>The sifting loops\<close>

function MoveHoleUpAndFill :: "('a \<Rightarrow> 'a \<Rightarrow> bool) \<Rightarrow> 'a heap \<Rightarrow> nat \<Rightarrow> 'a \<Rightarrow> 'a heap \<times> nat" where
  "MoveHoleUpAndFill lt h hole_pos element =
     (if hole_pos \<noteq> 0 \<and> lt (heap_value h (ParentIndex hole_pos)) element
      then MoveHoleUpAndFill lt (MoveHole h (ParentIndex hole_pos) hole_pos) (ParentIndex hole_pos) element
      else (FillHole h hole_pos element, hole_pos))"
  by pat_completeness auto
termination
  by (relation "measure (\<lambda>(_, _, hole, _). hole)") (auto simp: ParentIndex_def)

declare MoveHoleUpAndFill.simps [simp del]

definition largest_child :: "('a \<Rightarrow> 'a \<Rightarrow> bool) \<Rightarrow> 'a heap \<Rightarrow> nat \<Rightarrow> nat \<Rightarrow> nat" where
  "largest_child lt h n hole_pos =
     (let left = LeftIndex hole_pos; right = left + 1
      in if right < n \<and> lt (heap_value h left) (heap_value h right) then right else left)"

text \<open>The loop of \<open>MoveHoleDownAndFill\<close>, with \<open>leaf\<close> for \<open>kIsLeafElement\<close>.\<close>

function MoveHoleDown :: "bool \<Rightarrow> ('a \<Rightarrow> 'a \<Rightarrow> bool) \<Rightarrow> nat \<Rightarrow> 'a heap \<Rightarrow> nat \<Rightarrow> 'a \<Rightarrow> 'a heap \<times> nat" where
  "MoveHoleDown leaf lt n h hole_pos element =
     (if LeftIndex hole_pos \<ge> n then (h, hole_pos)
      else
        let largest = largest_child lt h n hole_pos
        in if \<not> leaf \<and> \<not> lt element (heap_value h largest) then (h, hole_pos)
           else MoveHoleDown leaf lt n (MoveHole h largest hole_pos) largest element)"
  by pat_completeness auto
termination
  by (relation "measure (\<lambda>(_, _, n, _, hole, _). n - hole)")
    (auto simp: LeftIndex_def largest_child_def Let_def)

declare MoveHoleDown.simps [simp del]

definition MoveHoleDownAndFill ::
  "bool \<Rightarrow> ('a \<Rightarrow> 'a \<Rightarrow> bool) \<Rightarrow> 'a heap \<Rightarrow> nat \<Rightarrow> 'a \<Rightarrow> 'a heap \<times> nat" where
  "MoveHoleDownAndFill leaf lt h hole_pos element =
     (case MoveHoleDown leaf lt (length h - (if leaf then 1 else 0)) h hole_pos element of
        (h, hole) \<Rightarrow>
          if leaf then MoveHoleUpAndFill lt h hole element
          else (FillHole h hole element, hole))"

section \<open>Operations\<close>

definition heap_insert :: "('a \<Rightarrow> 'a \<Rightarrow> bool) \<Rightarrow> 'a heap \<Rightarrow> 'a \<Rightarrow> 'a heap \<times> nat" where
  "heap_insert lt h element = MoveHoleUpAndFill lt h (length h) element"

definition heap_insert_range :: "('a \<Rightarrow> 'a \<Rightarrow> bool) \<Rightarrow> 'a heap \<Rightarrow> 'a list \<Rightarrow> 'a heap" where
  "heap_insert_range lt h xs = foldl (\<lambda>h x. fst (heap_insert lt h x)) h xs"

text \<open>Removing: \<open>erase\<close> leaves the element in the hole, \<open>take\<close> moves it out first.\<close>

definition remove_hole :: "('a \<Rightarrow> 'a \<Rightarrow> bool) \<Rightarrow> 'a heap \<Rightarrow> nat \<Rightarrow> 'a heap" where
  "remove_hole lt h pos =
     (let lst = length h - 1
      in butlast
           (if pos \<noteq> lst then
              let h = MakeHole h lst
              in fst (MoveHoleDownAndFill True lt (move_out h lst) pos (heap_value h lst))
            else h))"

definition heap_erase :: "('a \<Rightarrow> 'a \<Rightarrow> bool) \<Rightarrow> 'a heap \<Rightarrow> nat \<Rightarrow> 'a heap" where
  "heap_erase lt h pos = remove_hole lt (MakeHole h pos) pos"

definition heap_take :: "('a \<Rightarrow> 'a \<Rightarrow> bool) \<Rightarrow> 'a heap \<Rightarrow> nat \<Rightarrow> 'a \<times> 'a heap" where
  "heap_take lt h pos =
     (let h = MakeHole h pos
      in (heap_value h pos, remove_hole lt (move_out h pos) pos))"

definition heap_top :: "'a heap \<Rightarrow> 'a" where
  "heap_top h = heap_value h 0"

definition heap_pop :: "('a \<Rightarrow> 'a \<Rightarrow> bool) \<Rightarrow> 'a heap \<Rightarrow> 'a heap" where
  "heap_pop lt h = heap_erase lt h 0"

definition heap_update :: "('a \<Rightarrow> 'a \<Rightarrow> bool) \<Rightarrow> 'a heap \<Rightarrow> nat \<Rightarrow> 'a heap \<times> nat" where
  "heap_update lt h pos =
     (let h = MakeHole h pos;
          child_greater_eq_parent =
            (pos > 0 \<and> \<not> lt (heap_value h pos) (heap_value h (ParentIndex pos)))
      in if child_greater_eq_parent then MoveHoleUpAndFill lt (move_out h pos) pos (heap_value h pos)
         else MoveHoleDownAndFill False lt (move_out h pos) pos (heap_value h pos))"

definition heap_modify :: "('a \<Rightarrow> 'a \<Rightarrow> bool) \<Rightarrow> 'a heap \<Rightarrow> nat \<Rightarrow> ('a \<Rightarrow> 'a) \<Rightarrow> 'a heap \<times> nat" where
  "heap_modify lt h pos unary_op =
     heap_update lt (h[pos := map_option (\<lambda>c. c\<lparr>c_value := unary_op (c_value c)\<rparr>) (h ! pos)]) pos"

definition heap_replace :: "('a \<Rightarrow> 'a \<Rightarrow> bool) \<Rightarrow> 'a heap \<Rightarrow> nat \<Rightarrow> 'a \<Rightarrow> 'a heap \<times> nat" where
  "heap_replace lt h pos element =
     (let h = MakeHole h pos
      in if \<not> lt element (heap_value h pos) then MoveHoleUpAndFill lt h pos element
         else MoveHoleDownAndFill False lt h pos element)"

definition heap_replace_top :: "('a \<Rightarrow> 'a \<Rightarrow> bool) \<Rightarrow> 'a heap \<Rightarrow> 'a \<Rightarrow> 'a heap \<times> nat" where
  "heap_replace_top lt h element = MoveHoleDownAndFill False lt (MakeHole h 0) 0 element"

text \<open>\<open>clear\<close> invalidates the handles of all elements before dropping them: the cells
  dropped, and the empty heap.\<close>

definition heap_clear :: "'a heap \<Rightarrow> 'a heap \<times> 'a heap" where
  "heap_clear h = (foldl ClearHeapHandle h [0..<length h], [])"

text \<open>Copying a heap sets the handles of the copies.\<close>

definition heap_copy :: "'a heap \<Rightarrow> 'a heap" where
  "heap_copy other = foldl SetHeapHandle other [0..<length other]"

text \<open>\<open>EraseIf\<close>: a stable partition, the handles of the erased elements cleared, and when
  there are any, the rest made a heap by \<open>make_heap\<close> and the handles set.\<close>

definition heap_EraseIf :: "('a heap \<Rightarrow> 'a heap) \<Rightarrow> ('a \<Rightarrow> bool) \<Rightarrow> 'a heap \<Rightarrow> 'a heap \<times> 'a heap" where
  "heap_EraseIf make_heap predicate h =
     (let kept = filter (\<lambda>c. \<not> predicate (c_value (the c))) h;
          parted = kept @ filter (\<lambda>c. predicate (c_value (the c))) h;
          cleared = foldl ClearHeapHandle parted [length kept..<length parted];
          elements_to_delete = drop (length kept) cleared;
          rest = take (length kept) cleared
      in if elements_to_delete = [] then (rest, [])
         else let r = make_heap rest in (foldl SetHeapHandle r [0..<length r], elements_to_delete))"

section \<open>The invariant\<close>

text \<open>The first \<open>n\<close> cells except the hole hold an element whose handle is its index.\<close>

definition cells_ok :: "nat \<Rightarrow> nat set \<Rightarrow> 'a heap \<Rightarrow> bool" where
  "cells_ok n holes h \<longleftrightarrow> n \<le> length h \<and>
     (\<forall>i < n. i \<notin> holes \<longrightarrow> h ! i = Some \<lparr>c_value = heap_value h i, c_handle = Some i\<rparr>)"

text \<open>No parent is smaller than its child.\<close>

definition heap_ordered :: "('a \<Rightarrow> 'a \<Rightarrow> bool) \<Rightarrow> nat \<Rightarrow> 'a heap \<Rightarrow> bool" where
  "heap_ordered lt n h \<longleftrightarrow>
     (\<forall>i. 0 < i \<and> i < n \<longrightarrow> \<not> lt (heap_value h (ParentIndex i)) (heap_value h i))"

definition heap_ok :: "('a \<Rightarrow> 'a \<Rightarrow> bool) \<Rightarrow> 'a heap \<Rightarrow> bool" where
  "heap_ok lt h \<longleftrightarrow> cells_ok (length h) {} h \<and> heap_ordered lt (length h) h"

definition heap_values :: "'a heap \<Rightarrow> 'a list" where
  "heap_values h = map (\<lambda>c. c_value (the c)) h"

definition heap_bag :: "'a heap \<Rightarrow> 'a multiset" where
  "heap_bag h = mset (heap_values h)"

text \<open>A heap with a hole: the order holds around it, with the hole's parent taken for the
  parent of the hole's children.\<close>

definition hole_ordered :: "('a \<Rightarrow> 'a \<Rightarrow> bool) \<Rightarrow> nat \<Rightarrow> 'a heap \<Rightarrow> nat \<Rightarrow> bool" where
  "hole_ordered lt n h hole \<longleftrightarrow>
     (\<forall>i. 0 < i \<and> i < n \<and> i \<noteq> hole \<longrightarrow>
        (ParentIndex i \<noteq> hole \<longrightarrow> \<not> lt (heap_value h (ParentIndex i)) (heap_value h i)) \<and>
        (ParentIndex i = hole \<and> 0 < hole \<longrightarrow>
           \<not> lt (heap_value h (ParentIndex hole)) (heap_value h i)))"

definition above_children :: "('a \<Rightarrow> 'a \<Rightarrow> bool) \<Rightarrow> nat \<Rightarrow> 'a heap \<Rightarrow> nat \<Rightarrow> 'a \<Rightarrow> bool" where
  "above_children lt n h hole x \<longleftrightarrow>
     (\<forall>i. 0 < i \<and> i < n \<and> ParentIndex i = hole \<longrightarrow> \<not> lt x (heap_value h i))"

definition below_parent :: "('a \<Rightarrow> 'a \<Rightarrow> bool) \<Rightarrow> 'a heap \<Rightarrow> nat \<Rightarrow> 'a \<Rightarrow> bool" where
  "below_parent lt h hole x \<longleftrightarrow> (0 < hole \<longrightarrow> \<not> lt (heap_value h (ParentIndex hole)) x)"

lemma ParentIndex_less: "0 < i \<Longrightarrow> ParentIndex i < i"
  by (simp add: ParentIndex_def)

lemma ParentIndex_eq: "0 < i \<Longrightarrow> ParentIndex i = p \<longleftrightarrow> i = LeftIndex p \<or> i = LeftIndex p + 1"
  by (auto simp: ParentIndex_def LeftIndex_def)

section \<open>Holes\<close>

lemma MoveHole_in:
  "old < length h \<Longrightarrow> MoveHole h new old = (h[new := None])[old := map_option (\<lambda>c. c\<lparr>c_handle := Some old\<rparr>) (h ! new)]"
  by (simp add: MoveHole_def SetHeapHandle_def move_out_def Let_def)

lemma FillHole_in:
  "hole < length h \<Longrightarrow> FillHole h hole x = h[hole := Some \<lparr>c_value = x, c_handle = Some hole\<rparr>]"
  by (simp add: FillHole_def SetHeapHandle_def Let_def)

lemma length_MoveHole [simp]: "old < length h \<Longrightarrow> length (MoveHole h new old) = length h"
  by (simp add: MoveHole_in)

lemma heap_value_MoveHole:
  assumes "old < length h" "new \<noteq> old" "h ! new \<noteq> None" "i \<noteq> new"
  shows "heap_value (MoveHole h new old) i = heap_value h (if i = old then new else i)"
  using assms by (auto simp: MoveHole_in heap_value_def nth_list_update)

lemma heap_value_FillHole:
  "hole < length h \<Longrightarrow> heap_value (FillHole h hole x) i = (if i = hole then x else heap_value h i)"
  by (simp add: FillHole_in heap_value_def nth_list_update)

lemma cells_MoveHole:
  assumes "cells_ok n {hole} h" "hole < n" "new < n" "new \<noteq> hole"
  shows "cells_ok n {new} (MoveHole h new hole)"
proof -
  obtain v where "h ! new = Some \<lparr>c_value = v, c_handle = Some new\<rparr>"
    using assms by (auto simp: cells_ok_def)
  with assms show ?thesis by (auto simp: cells_ok_def MoveHole_in nth_list_update heap_value_def)
qed

lemma cells_FillHole:
  assumes "cells_ok n {hole} h" "hole < n"
  shows "cells_ok n {} (FillHole h hole x)"
  using assms by (auto simp: cells_ok_def FillHole_in nth_list_update heap_value_def)

lemma cells_Some: "cells_ok n holes h \<Longrightarrow> i < n \<Longrightarrow> i \<notin> holes \<Longrightarrow> h ! i \<noteq> None"
  by (auto simp: cells_ok_def)

text \<open>Filling the hole with \<open>x\<close> before or after moving it gives the same elements.\<close>

lemma length_heap_values [simp]: "length (heap_values h) = length h"
  by (simp add: heap_values_def)

lemma bag_MoveHole:
  assumes "hole < length h" "new < length h" "new \<noteq> hole" "h ! new \<noteq> None"
  shows "mset ((heap_values (MoveHole h new hole))[new := x]) = mset ((heap_values h)[hole := x])"
proof -
  let ?v = "(heap_values h)[hole := x]"
  have "(heap_values (MoveHole h new hole))[new := x] = ?v[hole := ?v ! new, new := ?v ! hole]"
    using assms by (intro nth_equalityI) (auto simp: MoveHole_in heap_values_def nth_list_update)
  then show ?thesis using assms mset_swap [of new ?v hole] by simp
qed

lemma values_FillHole: "hole < length h \<Longrightarrow> heap_values (FillHole h hole x) = (heap_values h)[hole := x]"
  by (simp add: FillHole_in heap_values_def map_update)

section \<open>Sifting\<close>

context strict_weak_order
begin

lemma fill_ordered:
  assumes "hole_ordered lt n h hole" "above_children lt n h hole x" "below_parent lt h hole x"
    "hole < length h"
  shows "heap_ordered lt n (FillHole h hole x)"
  unfolding heap_ordered_def
proof (intro allI impI)
  fix i assume i: "0 < i \<and> i < n"
  then have "ParentIndex i \<noteq> i" using ParentIndex_less [of i] by simp
  then consider "i = hole" "ParentIndex i \<noteq> hole" | "i \<noteq> hole" "ParentIndex i = hole"
    | "i \<noteq> hole" "ParentIndex i \<noteq> hole" by auto
  then show "\<not> lt (heap_value (FillHole h hole x) (ParentIndex i)) (heap_value (FillHole h hole x) i)"
    using i assms
    by cases (auto simp: heap_value_FillHole hole_ordered_def above_children_def below_parent_def)
qed

lemma move_up_ordered:
  assumes h: "cells_ok n {hole} h" "hole < n" "hole_ordered lt n h hole" "above_children lt n h hole x"
    and up: "0 < hole" "lt (heap_value h (ParentIndex hole)) x"
  defines "p \<equiv> ParentIndex hole"
  defines "h' \<equiv> MoveHole h p hole"
  shows "cells_ok n {p} h'" "hole_ordered lt n h' p" "above_children lt n h' p x"
proof -
  have p: "p < hole" "p < n" "h ! p \<noteq> None" "hole < length h"
    using up(1) h ParentIndex_less [of hole] cells_Some [of n "{hole}" h p] by (auto simp: p_def cells_ok_def)
  show "cells_ok n {p} h'" unfolding h'_def using h p by (intro cells_MoveHole) auto
  have v: "heap_value h' i = heap_value h (if i = hole then p else i)" if "i \<noteq> p" for i
    unfolding h'_def using p that by (intro heap_value_MoveHole) auto
  have sib: "\<not> lt (heap_value h p) (heap_value h i)" if "0 < i" "i < n" "i \<noteq> hole" "ParentIndex i = p" for i
    using h(3) that p by (auto simp: hole_ordered_def)
  have gp: "\<not> lt (heap_value h (ParentIndex p)) (heap_value h p)" if "0 < p"
    using h(3) p that ParentIndex_less [of p] by (auto simp: hole_ordered_def)
  have child: "\<not> lt (heap_value h p) (heap_value h i)" if "0 < i" "i < n" "ParentIndex i = hole" for i
    using h(3) that up(1) ParentIndex_less [of i] by (auto simp: hole_ordered_def p_def)
  show "above_children lt n h' p x"
    unfolding above_children_def
  proof (intro allI impI)
    fix i assume i: "0 < i \<and> i < n \<and> ParentIndex i = p"
    then have "i \<noteq> p" using ParentIndex_less [of i] by auto
    with i sib up(2) show "\<not> lt x (heap_value h' i)"
      unfolding v [OF \<open>i \<noteq> p\<close>] by (auto simp: p_def dest: lt_asym lt_trans)
  qed
  show "hole_ordered lt n h' p"
    unfolding hole_ordered_def
  proof (intro allI impI conjI)
    fix i assume i: "0 < i \<and> i < n \<and> i \<noteq> p"
    then have vi: "heap_value h' i = heap_value h (if i = hole then p else i)" by (simp add: v)
    show "\<not> lt (heap_value h' (ParentIndex i)) (heap_value h' i)" if "ParentIndex i \<noteq> p"
      using i that child [of i] h(3) v [of "ParentIndex i"] vi
      by (cases "i = hole") (auto simp: hole_ordered_def p_def)
    show "\<not> lt (heap_value h' (ParentIndex p)) (heap_value h' i)" if "ParentIndex i = p \<and> 0 < p"
    proof -
      have "ParentIndex p \<noteq> p" "ParentIndex p \<noteq> hole" using that ParentIndex_less [of p] p by auto
      then have "heap_value h' (ParentIndex p) = heap_value h (ParentIndex p)" by (simp add: v)
      then show ?thesis
        using i that vi gp sib [of i] incomp_trans by (cases "i = hole") auto
    qed
  qed
qed

lemma MoveHoleUp_spec:
  "cells_ok n {hole} h \<Longrightarrow> hole < n \<Longrightarrow> hole_ordered lt n h hole \<Longrightarrow> above_children lt n h hole x \<Longrightarrow>
   \<exists>h' pos. MoveHoleUpAndFill lt h hole x = (h', pos) \<and> pos < n \<and> length h' = length h \<and>
     cells_ok n {} h' \<and> heap_ordered lt n h' \<and> heap_value h' pos = x \<and>
     mset (heap_values h') = mset ((heap_values h)[hole := x]) \<and> drop n h' = drop n h"
proof (induction hole arbitrary: h rule: less_induct)
  case (less hole)
  have len: "hole < length h" using less.prems by (simp add: cells_ok_def)
  show ?case
  proof (cases "hole \<noteq> 0 \<and> lt (heap_value h (ParentIndex hole)) x")
    case True
    let ?p = "ParentIndex hole"
    let ?h = "MoveHole h ?p hole"
    have p: "?p < hole" "?p < n" "h ! ?p \<noteq> None"
      using True ParentIndex_less [of hole] less.prems cells_Some [of n "{hole}" h ?p] by auto
    have step: "MoveHoleUpAndFill lt h hole x = MoveHoleUpAndFill lt ?h ?p x"
      using True by (subst MoveHoleUpAndFill.simps) simp
    have "0 < hole" using True by simp
    from less.IH [OF p(1) move_up_ordered(1) [OF less.prems this] p(2)
        move_up_ordered(2,3) [OF less.prems this]] True
    have "\<exists>h' pos. MoveHoleUpAndFill lt ?h ?p x = (h', pos) \<and> pos < n \<and> length h' = length ?h \<and>
        cells_ok n {} h' \<and> heap_ordered lt n h' \<and> heap_value h' pos = x \<and>
        mset (heap_values h') = mset ((heap_values ?h)[?p := x]) \<and> drop n h' = drop n ?h" by blast
    moreover have "drop n ?h = drop n h" using len p less.prems(2) by (simp add: MoveHole_in)
    ultimately show ?thesis
      using len p bag_MoveHole [of hole h ?p x] by (simp add: step)
  next
    case False
    then have "MoveHoleUpAndFill lt h hole x = (FillHole h hole x, hole)"
      by (subst MoveHoleUpAndFill.simps) auto
    moreover have "below_parent lt h hole x" using False by (auto simp: below_parent_def)
    moreover have "drop n (FillHole h hole x) = drop n h" "length (FillHole h hole x) = length h"
      using len less.prems(2) by (simp_all add: FillHole_in)
    ultimately show ?thesis
      using less.prems len fill_ordered cells_FillHole
      by (simp add: heap_value_FillHole values_FillHole)
  qed
qed

lemma largest_child_spec:
  fixes h :: "'a heap"
  assumes "LeftIndex hole < n"
  defines "m \<equiv> largest_child lt h n hole"
  shows "m < n" "hole < m" "ParentIndex m = hole" "0 < m"
    "\<And>i. 0 < i \<Longrightarrow> i < n \<Longrightarrow> ParentIndex i = hole \<Longrightarrow> \<not> lt (heap_value h m) (heap_value h i)"
proof -
  have m: "m = LeftIndex hole \<or> m = LeftIndex hole + 1 \<and> m < n"
    by (simp add: m_def largest_child_def Let_def)
  then show "m < n" "hole < m" "0 < m" using assms(1) by (auto simp: LeftIndex_def)
  then show "ParentIndex m = hole" using m ParentIndex_eq [of m hole] by auto
  fix i assume i: "0 < i" "i < n" "ParentIndex i = hole"
  then have "i = LeftIndex hole \<or> i = LeftIndex hole + 1" using ParentIndex_eq [of i hole] by auto
  with i(2) show "\<not> lt (heap_value h m) (heap_value h i)"
    using lt_irrefl [of "heap_value h i"] lt_asym [of "heap_value h i" "heap_value h m"]
    by (auto simp: m_def largest_child_def Let_def)
qed

lemma move_down_ordered:
  assumes h: "cells_ok n {hole} h" "hole < n" "hole_ordered lt n h hole" and left: "LeftIndex hole < n"
  defines "m \<equiv> largest_child lt h n hole"
  defines "h' \<equiv> MoveHole h m hole"
  shows "cells_ok n {m} h'" "hole_ordered lt n h' m"
    "lt x (heap_value h m) \<Longrightarrow> below_parent lt h' m x"
proof -
  note m = largest_child_spec [OF left, where h = h, folded m_def]
  have len: "hole < length h" "h ! m \<noteq> None"
    using h m cells_Some [of n "{hole}" h m] by (auto simp: cells_ok_def)
  show "cells_ok n {m} h'" unfolding h'_def using h m by (intro cells_MoveHole) auto
  have v: "heap_value h' i = heap_value h (if i = hole then m else i)" if "i \<noteq> m" for i
    unfolding h'_def using m len that by (intro heap_value_MoveHole) auto
  show "lt x (heap_value h m) \<Longrightarrow> below_parent lt h' m x"
    using m v [of hole] by (auto simp: below_parent_def dest: lt_asym)
  show "hole_ordered lt n h' m"
    unfolding hole_ordered_def
  proof (intro allI impI conjI)
    fix i assume i: "0 < i \<and> i < n \<and> i \<noteq> m"
    show "\<not> lt (heap_value h' (ParentIndex i)) (heap_value h' i)" if pi: "ParentIndex i \<noteq> m"
    proof -
      have "ParentIndex i \<noteq> i" using ParentIndex_less [of i] i by simp
      then consider "i = hole" "ParentIndex i \<noteq> hole" | "i \<noteq> hole" "ParentIndex i = hole"
        | "i \<noteq> hole" "ParentIndex i \<noteq> hole" by auto
      then show ?thesis
        using i pi m h(3) v [of i] v [of "ParentIndex i"] by cases (auto simp: hole_ordered_def)
    qed
    show "\<not> lt (heap_value h' (ParentIndex m)) (heap_value h' i)" if "ParentIndex i = m \<and> 0 < m"
    proof -
      have "i \<noteq> hole" using that ParentIndex_less [of i] i m by auto
      with i that m h(3) v [of i] v [of hole] show ?thesis by (auto simp: hole_ordered_def)
    qed
  qed
qed

lemma MoveHoleDown_spec:
  "cells_ok n {hole} h \<Longrightarrow> hole < n \<Longrightarrow> hole_ordered lt n h hole \<Longrightarrow>
   \<not> leaf \<longrightarrow> below_parent lt h hole x \<Longrightarrow>
   \<exists>h' hole'. MoveHoleDown leaf lt n h hole x = (h', hole') \<and> hole' < n \<and> length h' = length h \<and>
     cells_ok n {hole'} h' \<and> hole_ordered lt n h' hole' \<and> above_children lt n h' hole' x \<and>
     (\<not> leaf \<longrightarrow> below_parent lt h' hole' x) \<and>
     mset ((heap_values h')[hole' := x]) = mset ((heap_values h)[hole := x]) \<and> drop n h' = drop n h"
proof (induction "n - hole" arbitrary: hole h rule: less_induct)
  case less
  have len: "hole < length h" using less.prems by (simp add: cells_ok_def)
  let ?m = "largest_child lt h n hole"
  let ?h = "MoveHole h ?m hole"
  consider (bottom) "LeftIndex hole \<ge> n"
    | (stop) "LeftIndex hole < n" "\<not> leaf" "\<not> lt x (heap_value h ?m)"
    | (down) "LeftIndex hole < n" "leaf \<or> lt x (heap_value h ?m)" by linarith
  then show ?case
  proof cases
    case bottom
    then have "ParentIndex i \<noteq> hole" if "0 < i" "i < n" for i
      using that ParentIndex_eq [of i hole] by auto
    then have "above_children lt n h hole x" by (auto simp: above_children_def)
    with bottom less.prems show ?thesis by (subst MoveHoleDown.simps) simp
  next
    case stop
    then have "above_children lt n h hole x"
      using largest_child_spec(5) [OF stop(1), where h = h] incomp_trans by (auto simp: above_children_def)
    with stop less.prems show ?thesis by (subst MoveHoleDown.simps) (simp add: Let_def)
  next
    case down
    note m = largest_child_spec [OF down(1), where h = h]
    have step: "MoveHoleDown leaf lt n h hole x = MoveHoleDown leaf lt n ?h ?m x"
      using down by (subst MoveHoleDown.simps) (auto simp: Let_def)
    have ne: "h ! ?m \<noteq> None" using cells_Some [OF less.prems(1) m(1)] m(2) by simp
    note mv = move_down_ordered [OF less.prems(1-3) down(1)]
    have "n - ?m < n - hole" "\<not> leaf \<longrightarrow> below_parent lt ?h ?m x" using m mv(3) down(2) by auto
    from less.hyps [OF this(1) mv(1) m(1) mv(2) this(2)]
    have "\<exists>h' hole'. MoveHoleDown leaf lt n ?h ?m x = (h', hole') \<and> hole' < n \<and> length h' = length ?h \<and>
        cells_ok n {hole'} h' \<and> hole_ordered lt n h' hole' \<and> above_children lt n h' hole' x \<and>
        (\<not> leaf \<longrightarrow> below_parent lt h' hole' x) \<and>
        mset ((heap_values h')[hole' := x]) = mset ((heap_values ?h)[?m := x]) \<and> drop n h' = drop n ?h" .
    moreover have "drop n ?h = drop n h" "?m < length h"
      using len m less.prems(1,2) by (simp_all add: MoveHole_in cells_ok_def)
    moreover have "mset ((heap_values ?h)[?m := x]) = mset ((heap_values h)[hole := x])"
      using len m ne calculation(3) by (intro bag_MoveHole) auto
    ultimately show ?thesis using len by (simp add: step)
  qed
qed

lemma MoveHoleDownAndFill_spec:
  assumes "n = length h - (if leaf then 1 else 0)"
    "cells_ok n {hole} h" "hole < n" "hole_ordered lt n h hole" "\<not> leaf \<longrightarrow> below_parent lt h hole x"
  shows "\<exists>h' pos. MoveHoleDownAndFill leaf lt h hole x = (h', pos) \<and> pos < n \<and> length h' = length h \<and>
     cells_ok n {} h' \<and> heap_ordered lt n h' \<and> heap_value h' pos = x \<and>
     mset (heap_values h') = mset ((heap_values h)[hole := x]) \<and> drop n h' = drop n h"
proof -
  obtain g e where g: "MoveHoleDown leaf lt n h hole x = (g, e)" "e < n" "length g = length h"
     "cells_ok n {e} g" "hole_ordered lt n g e" "above_children lt n g e x"
     "\<not> leaf \<longrightarrow> below_parent lt g e x"
     "mset ((heap_values g)[e := x]) = mset ((heap_values h)[hole := x])" "drop n g = drop n h"
    using MoveHoleDown_spec [OF assms(2-5)] by blast
  show ?thesis
  proof (cases leaf)
    case True
    from MoveHoleUp_spec [OF g(4,2,5,6)] g True assms(1) show ?thesis
      by (auto simp: MoveHoleDownAndFill_def)
  next
    case False
    have len: "e < length g" using g(2,3) assms(1) by simp
    have "drop n (FillHole g e x) = drop n g" "length (FillHole g e x) = length g"
      using len g(2) by (simp_all add: FillHole_in)
    moreover have "heap_ordered lt n (FillHole g e x)" "cells_ok n {} (FillHole g e x)"
      using fill_ordered [OF g(5,6) _ len] cells_FillHole [OF g(4,2)] g(7) False by auto
    ultimately show ?thesis
      using g False len assms(1)
      by (simp add: MoveHoleDownAndFill_def heap_value_FillHole values_FillHole)
  qed
qed

section \<open>Operations on heaps\<close>

text \<open>A heap in which the cell at \<open>pos\<close> may hold anything.\<close>

lemma agree_value: "\<forall>i. i \<noteq> pos \<longrightarrow> g ! i = h ! i \<Longrightarrow> i \<noteq> pos \<Longrightarrow> heap_value g i = heap_value h i"
  by (simp add: heap_value_def)

lemma heap_hole:
  assumes "heap_ok lt h" "length g = length h" "\<forall>i. i \<noteq> pos \<longrightarrow> g ! i = h ! i" "n \<le> length h" "pos < n"
  shows "cells_ok n {pos} g" "hole_ordered lt n g pos"
    "above_children lt n g pos (heap_value h pos)" "below_parent lt g pos (heap_value h pos)"
proof -
  note v = agree_value [OF assms(3)]
  have ord: "\<not> lt (heap_value h (ParentIndex i)) (heap_value h i)" if "0 < i" "i < n" for i
    using assms(1,4) that by (auto simp: heap_ok_def heap_ordered_def)
  show "cells_ok n {pos} g"
    using assms by (auto simp: cells_ok_def heap_ok_def heap_value_def)
  have par: "ParentIndex i \<noteq> i" if "0 < i" for i using ParentIndex_less [OF that] by simp
  show "above_children lt n g pos (heap_value h pos)"
    unfolding above_children_def
  proof (intro allI impI)
    fix i assume "0 < i \<and> i < n \<and> ParentIndex i = pos"
    with par [of i] ord [of i] v [of i] show "\<not> lt (heap_value h pos) (heap_value g i)" by auto
  qed
  show "below_parent lt g pos (heap_value h pos)"
    using ord [of pos] par [of pos] v [of "ParentIndex pos"] assms(5) by (auto simp: below_parent_def)
  show "hole_ordered lt n g pos"
    unfolding hole_ordered_def
  proof (intro allI impI conjI)
    fix i assume i: "0 < i \<and> i < n \<and> i \<noteq> pos"
    then show "\<not> lt (heap_value g (ParentIndex i)) (heap_value g i)" if "ParentIndex i \<noteq> pos"
      using ord that v by simp
    show "\<not> lt (heap_value g (ParentIndex pos)) (heap_value g i)" if "ParentIndex i = pos \<and> 0 < pos"
    proof -
      have "\<not> lt (heap_value h (ParentIndex pos)) (heap_value h i)"
        using incomp_trans ord [of pos] ord [of i] i that assms(5) by metis
      with i that v par [of pos] show ?thesis by simp
    qed
  qed
qed

lemma bag_update:
  "length g = length h \<Longrightarrow> \<forall>i. i \<noteq> pos \<longrightarrow> g ! i = h ! i \<Longrightarrow> pos < length h \<Longrightarrow>
   mset ((heap_values g)[pos := x]) = add_mset x (heap_bag h - {#heap_value h pos#})"
proof -
  assume a: "length g = length h" "\<forall>i. i \<noteq> pos \<longrightarrow> g ! i = h ! i" "pos < length h"
  then have "(heap_values g)[pos := x] = (heap_values h)[pos := x]"
    by (intro nth_equalityI) (auto simp: heap_values_def nth_list_update)
  then show ?thesis
    using a by (simp add: mset_update heap_bag_def heap_values_def heap_value_def)
qed

text \<open>Inserting: the hole behind the last cell.\<close>

lemma MoveHoleUp_pad:
  "MoveHoleUpAndFill lt h (length h) x = MoveHoleUpAndFill lt (h @ [None]) (length h) x"
proof (cases "length h = 0")
  case True
  then show ?thesis
    by (simp add: MoveHoleUpAndFill.simps FillHole_def Let_def SetHeapHandle_def)
next
  case False
  then have p: "ParentIndex (length h) < length h" using ParentIndex_less [of "length h"] by simp
  then have "heap_value (h @ [None]) (ParentIndex (length h)) = heap_value h (ParentIndex (length h))"
    "MoveHole (h @ [None]) (ParentIndex (length h)) (length h) = MoveHole h (ParentIndex (length h)) (length h)"
    "FillHole (h @ [None]) (length h) x = FillHole h (length h) x"
    by (simp_all add: heap_value_def MoveHole_def FillHole_def Let_def SetHeapHandle_def move_out_def nth_append
        list_update_append)
  then show ?thesis
    by (subst (1 2) MoveHoleUpAndFill.simps) simp
qed

lemma insert_spec:
  assumes "heap_ok lt h"
  shows "\<exists>h' pos. heap_insert lt h x = (h', pos) \<and> heap_ok lt h' \<and> heap_bag h' = add_mset x (heap_bag h)
    \<and> pos < length h' \<and> heap_value h' pos = x"
proof -
  let ?g = "h @ [None]" and ?n = "Suc (length h)"
  have v: "heap_value ?g i = heap_value h i" if "i < length h" for i
    using that by (simp add: heap_value_def nth_append)
  have par: "ParentIndex i < length h" if "0 < i" "i < ?n" for i
    using ParentIndex_less [OF that(1)] that by simp
  have np: "ParentIndex i \<noteq> length h" if "0 < i" "i < ?n" for i using par [OF that] by simp
  have ord: "\<not> lt (heap_value ?g (ParentIndex i)) (heap_value ?g i)" if "0 < i" "i < length h" for i
    using assms v [of i] v [OF par [of i]] that by (simp add: heap_ok_def heap_ordered_def)
  have "cells_ok ?n {length h} ?g"
    using assms by (auto simp: heap_ok_def cells_ok_def heap_value_def nth_append)
  moreover have "hole_ordered lt ?n ?g (length h)" "above_children lt ?n ?g (length h) x"
    using ord np by (auto simp: hole_ordered_def above_children_def)
  ultimately obtain h' pos where "MoveHoleUpAndFill lt ?g (length h) x = (h', pos)" "pos < ?n"
    "length h' = length ?g" "cells_ok ?n {} h'" "heap_ordered lt ?n h'" "heap_value h' pos = x"
    "mset (heap_values h') = mset ((heap_values ?g)[length h := x])"
    using MoveHoleUp_spec [of ?n "length h" ?g x] by auto
  then show ?thesis
    by (auto simp: heap_insert_def MoveHoleUp_pad heap_ok_def heap_bag_def heap_values_def list_update_append)
qed

text \<open>Removing the hole at \<open>pos\<close>.\<close>

lemma heap_ok_butlast:
  assumes "cells_ok (length h - 1) {} h" "heap_ordered lt (length h - 1) h"
  shows "heap_ok lt (butlast h)"
proof -
  have "heap_value (butlast h) i = heap_value h i" if "i < length h - 1" for i
    using that by (simp add: heap_value_def nth_butlast)
  moreover have "ParentIndex i < length h - 1" if "0 < i" "i < length h - 1" for i
    using ParentIndex_less [OF that(1)] that by simp
  ultimately show ?thesis
    using assms by (auto simp: heap_ok_def cells_ok_def heap_ordered_def nth_butlast)
qed

lemma heap_value_MakeHole: "h ! i \<noteq> None \<Longrightarrow> heap_value (MakeHole h j) i = heap_value h i"
  by (cases "i = j"; cases "j < length h")
    (auto simp: heap_value_def MakeHole_def ClearHeapHandle_def list_update_beyond)

lemma hole_cong:
  assumes "\<forall>i < n. g ! i = h ! i" "length g = length h" "hole < n"
  shows "cells_ok n holes g \<longleftrightarrow> cells_ok n holes h" "hole_ordered lt n g hole \<longleftrightarrow> hole_ordered lt n h hole"
proof -
  have v: "heap_value g i = heap_value h i" if "i < n" for i using assms that by (simp add: heap_value_def)
  then show "cells_ok n holes g \<longleftrightarrow> cells_ok n holes h" using assms by (simp add: cells_ok_def)
  have "ParentIndex i < n" if "0 < i" "i < n" for i using ParentIndex_less [OF that(1)] that by simp
  then show "hole_ordered lt n g hole \<longleftrightarrow> hole_ordered lt n h hole"
    using v assms(3) by (simp add: hole_ordered_def)
qed

lemma heap_bag_snoc: "h \<noteq> [] \<Longrightarrow> heap_bag h = add_mset (heap_value h (length h - 1)) (heap_bag (butlast h))"
  by (cases h rule: rev_cases) (auto simp: heap_bag_def heap_values_def heap_value_def)

lemma values_snoc:
  fixes h :: "'a heap"
  shows
  "h \<noteq> [] \<Longrightarrow> h ! (length h - 1) = None \<Longrightarrow> heap_values h = heap_values (butlast h) @ [c_value (the None :: 'a cell)]"
  by (cases h rule: rev_cases) (auto simp: heap_values_def)

lemma heap_bag_member: "i < length h \<Longrightarrow> heap_value h i \<in># heap_bag h"
  by (auto simp: heap_bag_def heap_values_def heap_value_def)

lemma remove_last:
  assumes "heap_ok lt h" "h \<noteq> []"
  shows "heap_ok lt (butlast h)"
  using assms by (intro heap_ok_butlast) (auto simp: heap_ok_def cells_ok_def heap_ordered_def)

lemma remove_inner:
  assumes h: "heap_ok lt h" "length g = length h" "\<forall>i. i \<noteq> pos \<longrightarrow> g ! i = h ! i"
    and n: "n = length h - 1" "pos < n"
  shows "\<exists>r e. MoveHoleDownAndFill True lt (g[n := None]) pos (heap_value h n) = (r, e) \<and>
    heap_ok lt (butlast r) \<and> heap_bag (butlast r) = heap_bag h - {#heap_value h pos#}"
proof -
  let ?g = "g[n := None]" and ?x = "heap_value h n"
  have ag: "\<forall>i < n. ?g ! i = g ! i" "length ?g = length g" by auto
  have "cells_ok n {pos} ?g" "hole_ordered lt n ?g pos"
    using heap_hole(1,2) [OF h, of n] hole_cong [OF ag n(2)] n by auto
  then obtain r e where r: "MoveHoleDownAndFill True lt ?g pos ?x = (r, e)" "length r = length g"
    "cells_ok n {} r" "heap_ordered lt n r" "mset (heap_values r) = mset ((heap_values ?g)[pos := ?x])"
    "drop n r = drop n ?g"
    using MoveHoleDownAndFill_spec [of n ?g True pos ?x] n h(2) by auto
  have ne: "r \<noteq> []" "?g \<noteq> []" "h \<noteq> []" using r(2) n h(2) by auto
  have lst: "r ! n = None" "?g ! n = None"
    using r(2) n h(2) arg_cong [OF r(6), of "\<lambda>xs. xs ! 0"] by auto
  have bg: "butlast ?g = butlast g" using n h(2) by (simp add: butlast_list_update)
  let ?B = "heap_values (butlast h)"
  have "(heap_values (butlast g))[pos := ?x] = ?B[pos := ?x]"
    using h n by (intro nth_equalityI) (auto simp: heap_values_def nth_butlast nth_list_update)
  moreover have "heap_values ?g = heap_values (butlast g) @ [c_value (the None :: 'a cell)]"
    using values_snoc [OF ne(2)] bg lst(2) n(1) h(2) by simp
  moreover have "heap_values r = heap_values (butlast r) @ [c_value (the None :: 'a cell)]"
    using values_snoc [OF ne(1)] lst(1) n(1) h(2) r(2) by simp
  ultimately have "heap_bag (butlast r) = mset (?B[pos := ?x])"
    using r(5) n h(2) by (simp add: heap_bag_def list_update_append)
  moreover have "?B ! pos = heap_value h pos" "pos < length ?B"
    using n by (simp_all add: heap_values_def heap_value_def nth_butlast)
  moreover from this have "heap_value h pos \<in># mset ?B" by (metis nth_mem_mset)
  ultimately have "heap_bag (butlast r) = heap_bag h - {#heap_value h pos#}"
    using heap_bag_snoc [OF ne(3)] n(1) by (simp add: mset_update heap_bag_def)
  then show ?thesis using r heap_ok_butlast [of r] n(1) h(2) by simp
qed

lemma remove_hole_spec:
  assumes "heap_ok lt h" "length g = length h" "\<forall>i. i \<noteq> pos \<longrightarrow> g ! i = h ! i" "pos < length h"
  shows "heap_ok lt (remove_hole lt g pos) \<and>
    heap_bag (remove_hole lt g pos) = heap_bag h - {#heap_value h pos#}"
proof (cases "pos = length h - 1")
  case True
  have "butlast g = butlast h" using assms True by (intro nth_equalityI) (auto simp: nth_butlast)
  moreover have "h \<noteq> []" using assms(4) by auto
  ultimately show ?thesis
    using True assms(2) remove_last [OF assms(1)] heap_bag_snoc [of h]
    by (simp add: remove_hole_def Let_def)
next
  case False
  let ?n = "length h - 1"
  have n: "pos < ?n" using assms(4) False by auto
  have "heap_value (MakeHole g ?n) ?n = heap_value h ?n"
    using heap_value_MakeHole [of g ?n ?n] assms n cells_Some [of "length h" "{}" h ?n]
    by (auto simp: heap_ok_def heap_value_def)
  moreover have "move_out (MakeHole g ?n) ?n = g[?n := None]"
    by (simp add: move_out_def MakeHole_def ClearHeapHandle_def)
  ultimately show ?thesis
    using remove_inner [OF assms(1-3) refl n] False assms(2)
    by (auto simp: remove_hole_def Let_def)
qed

lemma MakeHole_agree: "length (MakeHole h pos) = length h" "\<forall>i. i \<noteq> pos \<longrightarrow> MakeHole h pos ! i = h ! i"
  by (simp_all add: MakeHole_def ClearHeapHandle_def)

lemma move_out_agree: "length (move_out h pos) = length h" "\<forall>i. i \<noteq> pos \<longrightarrow> move_out h pos ! i = h ! i"
  by (simp_all add: move_out_def)

lemma heap_ok_value: "heap_ok lt h \<Longrightarrow> i < length h \<Longrightarrow> h ! i = Some \<lparr>c_value = heap_value h i, c_handle = Some i\<rparr>"
  by (auto simp: heap_ok_def cells_ok_def)

lemma erase_spec:
  assumes "heap_ok lt h" "pos < length h"
  shows "heap_ok lt (heap_erase lt h pos) \<and> heap_bag (heap_erase lt h pos) = heap_bag h - {#heap_value h pos#}"
  unfolding heap_erase_def using remove_hole_spec [OF assms(1) MakeHole_agree assms(2)] .

lemma take_spec:
  assumes "heap_ok lt h" "pos < length h"
  shows "\<exists>h'. heap_take lt h pos = (heap_value h pos, h') \<and> heap_ok lt h' \<and>
    heap_bag h' = heap_bag h - {#heap_value h pos#}"
proof -
  let ?g = "move_out (MakeHole h pos) pos"
  have "length ?g = length h" "\<forall>i. i \<noteq> pos \<longrightarrow> ?g ! i = h ! i"
    by (simp_all add: MakeHole_agree move_out_agree)
  moreover have "heap_value (MakeHole h pos) pos = heap_value h pos"
    using heap_ok_value [OF assms] by (intro heap_value_MakeHole) simp
  ultimately show ?thesis
    using remove_hole_spec [OF assms(1) _ _ assms(2), of ?g] by (simp add: heap_take_def Let_def)
qed

text \<open>Putting \<open>x\<close> in the place of the element at \<open>pos\<close>: up when it is not smaller than
  what keeps the hole's children in order, down when it is not larger than the parent.\<close>

lemma refill_up:
  assumes h: "heap_ok lt h" "length g = length h" "\<forall>i. i \<noteq> pos \<longrightarrow> g ! i = h ! i" "pos < length h"
    and x: "above_children lt (length h) g pos x"
  shows "\<exists>r e. MoveHoleUpAndFill lt g pos x = (r, e) \<and> heap_ok lt r \<and> e < length r \<and> heap_value r e = x \<and>
    length r = length h \<and> heap_bag r = add_mset x (heap_bag h - {#heap_value h pos#})"
  using MoveHoleUp_spec [OF heap_hole(1) [OF h(1-3) order_refl h(4)] h(4)
      heap_hole(2) [OF h(1-3) order_refl h(4)] x] bag_update [OF h(2-4), of x] h(2)
  by (auto simp: heap_ok_def heap_bag_def)

lemma refill_down:
  assumes h: "heap_ok lt h" "length g = length h" "\<forall>i. i \<noteq> pos \<longrightarrow> g ! i = h ! i" "pos < length h"
    and x: "below_parent lt g pos x"
  shows "\<exists>r e. MoveHoleDownAndFill False lt g pos x = (r, e) \<and> heap_ok lt r \<and> e < length r \<and> heap_value r e = x \<and>
    length r = length h \<and> heap_bag r = add_mset x (heap_bag h - {#heap_value h pos#})"
  using MoveHoleDownAndFill_spec [OF _ heap_hole(1) [OF h(1-3) order_refl h(4)] h(4)
      heap_hole(2) [OF h(1-3) order_refl h(4)], of False x] bag_update [OF h(2-4), of x] h(2) x
  by (auto simp: heap_ok_def heap_bag_def)

lemma above_mono: "above_children lt n g pos y \<Longrightarrow> \<not> lt x y \<Longrightarrow> above_children lt n g pos x"
  using incomp_trans by (auto simp: above_children_def)

lemma below_mono: "below_parent lt g pos y \<Longrightarrow> \<not> lt y x \<Longrightarrow> below_parent lt g pos x"
  using incomp_trans by (auto simp: below_parent_def)

lemma replace_spec:
  assumes "heap_ok lt h" "pos < length h"
  shows "\<exists>r e. heap_replace lt h pos x = (r, e) \<and> heap_ok lt r \<and> e < length r \<and> heap_value r e = x \<and>
    length r = length h \<and> heap_bag r = add_mset x (heap_bag h - {#heap_value h pos#})"
proof -
  let ?g = "MakeHole h pos" and ?y = "heap_value h pos"
  note hole = heap_hole [OF assms(1) MakeHole_agree order_refl assms(2)]
  have y: "heap_value ?g pos = ?y" using heap_ok_value [OF assms] by (intro heap_value_MakeHole) simp
  show ?thesis
  proof (cases "lt x ?y")
    case True
    then show ?thesis
      using refill_down [OF assms(1) MakeHole_agree assms(2) below_mono [OF hole(4) lt_asym [OF True]]] y
      by (simp add: heap_replace_def Let_def)
  next
    case False
    then show ?thesis
      using refill_up [OF assms(1) MakeHole_agree assms(2) above_mono [OF hole(3) False]] y
      by (simp add: heap_replace_def Let_def)
  qed
qed

text \<open>\<open>Update\<close> after the element at \<open>pos\<close> was changed to \<open>x\<close> in place.\<close>

lemma update_spec:
  assumes "heap_ok lt h" "pos < length h"
    and g: "g = h[pos := Some \<lparr>c_value = x, c_handle = hdl\<rparr>]"
  shows "\<exists>r e. heap_update lt g pos = (r, e) \<and> heap_ok lt r \<and> e < length r \<and> heap_value r e = x \<and>
    length r = length h \<and> heap_bag r = add_mset x (heap_bag h - {#heap_value h pos#})"
proof -
  let ?m = "MakeHole g pos" and ?g = "move_out (MakeHole g pos) pos" and ?p = "ParentIndex pos"
  have ag: "length ?g = length h" "\<forall>i. i \<noteq> pos \<longrightarrow> ?g ! i = h ! i"
    by (auto simp: g MakeHole_def ClearHeapHandle_def move_out_def)
  note hole = heap_hole [OF assms(1) ag order_refl assms(2)]
  have x: "heap_value ?m pos = x"
    using assms(2) by (simp add: g heap_value_def MakeHole_def ClearHeapHandle_def)
  have p: "heap_value ?m ?p = heap_value ?g ?p" if "0 < pos"
    using ParentIndex_less [OF that] by (simp add: heap_value_def move_out_def)
  show ?thesis
  proof (cases "0 < pos \<and> \<not> lt x (heap_value ?m ?p)")
    case True
    then have "hole_ordered lt (length h) ?g pos" "\<not> lt x (heap_value ?g ?p)" using hole(2) p by simp_all
    then have "above_children lt (length h) ?g pos x"
      unfolding above_children_def hole_ordered_def
      using True incomp_trans ParentIndex_less by (metis less_irrefl)
    from refill_up [OF assms(1) ag assms(2) this] True x show ?thesis
      by (simp add: heap_update_def Let_def)
  next
    case False
    then have "below_parent lt ?g pos x" using p by (auto simp: below_parent_def dest: lt_asym)
    from refill_down [OF assms(1) ag assms(2) this] False x show ?thesis
      by (auto simp: heap_update_def Let_def)
  qed
qed

lemma modify_spec:
  assumes "heap_ok lt h" "pos < length h"
  shows "\<exists>r e. heap_modify lt h pos f = (r, e) \<and> heap_ok lt r \<and> e < length r \<and>
    heap_value r e = f (heap_value h pos) \<and> length r = length h \<and>
    heap_bag r = add_mset (f (heap_value h pos)) (heap_bag h - {#heap_value h pos#})"
  using update_spec [OF assms, of _ "f (heap_value h pos)" "Some pos"] heap_ok_value [OF assms]
  by (simp add: heap_modify_def)

lemma replace_top_spec:
  assumes "heap_ok lt h" "h \<noteq> []"
  shows "\<exists>r e. heap_replace_top lt h x = (r, e) \<and> heap_ok lt r \<and> e < length r \<and> heap_value r e = x \<and>
    length r = length h \<and> heap_bag r = add_mset x (heap_bag h - {#heap_top h#})"
  using refill_down [OF assms(1) MakeHole_agree, of 0 x] assms(2)
  by (simp add: heap_replace_top_def heap_top_def below_parent_def)

section \<open>The top\<close>

lemma top_max_index: "heap_ok lt h \<Longrightarrow> i < length h \<Longrightarrow> \<not> lt (heap_top h) (heap_value h i)"
proof (induction i rule: less_induct)
  case (less i)
  show ?case
  proof (cases "i = 0")
    case True
    then show ?thesis by (simp add: heap_top_def lt_irrefl)
  next
    case False
    then have p: "ParentIndex i < i" using ParentIndex_less by simp
    have "\<not> lt (heap_value h (ParentIndex i)) (heap_value h i)"
      using less.prems False by (auto simp: heap_ok_def heap_ordered_def)
    with less.IH [OF p] less.prems p show ?thesis using incomp_trans by (meson less_trans)
  qed
qed

lemma bag_index: "x \<in># heap_bag h \<longleftrightarrow> (\<exists>i < length h. x = heap_value h i)"
  by (auto simp: heap_bag_def heap_values_def heap_value_def in_set_conv_nth [of _ h] image_iff) (metis nth_mem)

end

sublocale strict_weak_order \<subseteq> heap_queue: priority_queue lt "heap_ok lt" heap_bag
  "\<lambda>h x. fst (heap_insert lt h x)" heap_top "heap_pop lt"
proof
  fix q :: "'a heap" and x assume q: "heap_ok lt q"
  show "heap_ok lt (fst (heap_insert lt q x)) \<and> heap_bag (fst (heap_insert lt q x)) = add_mset x (heap_bag q)"
    using insert_spec [OF q, of x] by auto
  show "\<not> lt (heap_top q) x" if "x \<in># heap_bag q"
    using that top_max_index [OF q] by (auto simp: bag_index)
  assume "heap_bag q \<noteq> {#}"
  then have "0 < length q" by (auto simp: heap_bag_def heap_values_def)
  then show "heap_top q \<in># heap_bag q"
    "heap_ok lt (heap_pop lt q) \<and> heap_bag (heap_pop lt q) = heap_bag q - {#heap_top q#}"
    using heap_bag_member [of 0 q] erase_spec [OF q, of 0] by (auto simp: heap_top_def heap_pop_def)
qed

context strict_weak_order
begin

lemma heap_sorts_list:
  "mset (take_all heap_top (heap_pop lt) (length xs) (heap_insert_range lt [] xs)) = mset xs \<and>
   sorted_wrt (\<lambda>x y. \<not> lt x y) (take_all heap_top (heap_pop lt) (length xs) (heap_insert_range lt [] xs))"
  using heap_queue.insert_take_sorts [of "[]" xs]
  by (simp add: heap_insert_range_def heap_ok_def cells_ok_def heap_ordered_def heap_bag_def heap_values_def)

end

section \<open>Whole-heap operations\<close>

lemma fold_SetHeapHandle:
  "k \<le> length h \<Longrightarrow> foldl SetHeapHandle h [0..<k] =
     map (\<lambda>i. if i < k then map_option (\<lambda>c. c\<lparr>c_handle := Some i\<rparr>) (h ! i) else h ! i) [0..<length h]"
proof (induction k)
  case 0
  then show ?case by (simp add: map_nth)
next
  case (Suc k)
  then show ?case
    by (simp add: SetHeapHandle_def) (rule nth_equalityI, auto simp: nth_list_update)
qed

lemma fold_ClearHeapHandle:
  "a \<le> k \<Longrightarrow> k \<le> length h \<Longrightarrow> foldl ClearHeapHandle h [a..<k] =
     map (\<lambda>i. if a \<le> i \<and> i < k then map_option (\<lambda>c. c\<lparr>c_handle := None\<rparr>) (h ! i) else h ! i) [0..<length h]"
proof (induction k)
  case 0
  then show ?case by (simp add: map_nth)
next
  case (Suc k)
  show ?case
  proof (cases "a = Suc k")
    case True
    then show ?thesis by (intro nth_equalityI) auto
  next
    case False
    then show ?thesis using Suc
      by (simp add: ClearHeapHandle_def) (rule nth_equalityI, auto simp: nth_list_update)
  qed
qed

text \<open>Setting all handles makes a vector of elements in heap order a heap.\<close>

lemma copy_spec:
  assumes "None \<notin> set h" "heap_ordered lt (length h) h"
  shows "heap_ok lt (heap_copy h) \<and> heap_values (heap_copy h) = heap_values h"
proof -
  have c: "heap_copy h = map (\<lambda>i. map_option (\<lambda>c. c\<lparr>c_handle := Some i\<rparr>) (h ! i)) [0..<length h]"
    unfolding heap_copy_def by (subst fold_SetHeapHandle) (auto intro: map_cong)
  have s: "\<exists>v k. h ! i = Some \<lparr>c_value = v, c_handle = k\<rparr>" if "i < length h" for i
    using assms(1) nth_mem [OF that] by (cases "h ! i") (auto, metis cell.surjective unit.exhaust)
  have v: "heap_value (heap_copy h) i = heap_value h i" if "i < length h" for i
    using s [OF that] that by (auto simp: c heap_value_def)
  have "ParentIndex i < length h" if "0 < i" "i < length h" for i using ParentIndex_less [OF that(1)] that by simp
  then have "heap_ordered lt (length h) (heap_copy h)" using assms(2) v by (simp add: heap_ordered_def)
  moreover have "cells_ok (length h) {} (heap_copy h)"
    using s by (fastforce simp: cells_ok_def c heap_value_def)
  moreover have "heap_values (heap_copy h) = heap_values h"
    using v by (intro nth_equalityI) (auto simp: heap_values_def heap_value_def c)
  ultimately show ?thesis by (simp add: heap_ok_def c)
qed

lemma clear_spec:
  assumes "heap_ok lt h"
  shows "snd (heap_clear h) = [] \<and> length (fst (heap_clear h)) = length h \<and>
    (\<forall>i < length h. GetHeapHandle (fst (heap_clear h)) i = None)"
  using assms by (auto simp: heap_clear_def fold_ClearHeapHandle GetHeapHandle_def heap_ok_def cells_ok_def)

text \<open>What \<open>EraseIf\<close> relies on in \<open>make_heap\<close>: it permutes the elements into heap order.\<close>

definition heap_maker :: "('a \<Rightarrow> 'a \<Rightarrow> bool) \<Rightarrow> ('a heap \<Rightarrow> 'a heap) \<Rightarrow> bool" where
  "heap_maker lt make_heap \<longleftrightarrow>
     (\<forall>l. None \<notin> set l \<longrightarrow> None \<notin> set (make_heap l) \<and>
        mset (heap_values (make_heap l)) = mset (heap_values l) \<and>
        heap_ordered lt (length (make_heap l)) (make_heap l))"

lemma EraseIf_parts:
  fixes h :: "'a heap" and predicate :: "'a \<Rightarrow> bool"
  defines "kept \<equiv> filter (\<lambda>c. \<not> predicate (c_value (the c))) h"
    and "gone \<equiv> filter (\<lambda>c. predicate (c_value (the c))) h"
  shows "heap_EraseIf mk predicate h =
    (if gone = [] then (kept, [])
     else (heap_copy (mk kept), map (map_option (\<lambda>c. c\<lparr>c_handle := None\<rparr>)) gone))"
proof -
  let ?p = "kept @ gone"
  let ?c = "foldl ClearHeapHandle ?p [length kept..<length ?p]"
  have "?c = kept @ map (map_option (\<lambda>c. c\<lparr>c_handle := None\<rparr>)) gone"
    by (subst fold_ClearHeapHandle) (auto intro!: nth_equalityI simp: nth_append)
  then have "take (length kept) ?c = kept"
    "drop (length kept) ?c = map (map_option (\<lambda>c. c\<lparr>c_handle := None\<rparr>)) gone" by simp_all
  then show ?thesis
    unfolding heap_EraseIf_def Let_def kept_def [symmetric] gone_def [symmetric] heap_copy_def by simp
qed

lemma EraseIf_spec:
  assumes "heap_ok lt h" "heap_maker lt mk" "heap_EraseIf mk predicate h = (r, gone)"
  shows "heap_ok lt r \<and> heap_bag r = filter_mset (\<lambda>x. \<not> predicate x) (heap_bag h) \<and>
    heap_bag gone = filter_mset predicate (heap_bag h) \<and> (\<forall>i < length gone. GetHeapHandle gone i = None)"
proof -
  let ?kept = "filter (\<lambda>c. \<not> predicate (c_value (the c))) h"
  let ?gone = "filter (\<lambda>c. predicate (c_value (the c))) h"
  have none: "None \<notin> set h" using assms(1) by (auto simp: heap_ok_def cells_ok_def in_set_conv_nth)
  have bags: "heap_bag ?kept = filter_mset (\<lambda>x. \<not> predicate x) (heap_bag h)"
    "heap_bag ?gone = filter_mset predicate (heap_bag h)"
    by (induction h) (auto simp: heap_bag_def heap_values_def)
  show ?thesis
  proof (cases "?gone = []")
    case True
    then have "?kept = h" by (auto simp: filter_empty_conv filter_id_conv)
    moreover from this True have "r = h" "gone = []"
      using assms(3) EraseIf_parts [of mk predicate h] by simp_all
    moreover have "heap_bag [] = {#}" by (simp add: heap_bag_def heap_values_def)
    ultimately show ?thesis using assms(1) bags True by simp
  next
    case False
    have mk: "None \<notin> set (mk ?kept)" "mset (heap_values (mk ?kept)) = mset (heap_values ?kept)"
      "heap_ordered lt (length (mk ?kept)) (mk ?kept)"
      using assms(2) none by (auto simp: heap_maker_def)
    have r: "r = heap_copy (mk ?kept)" "gone = map (map_option (\<lambda>c. c\<lparr>c_handle := None\<rparr>)) ?gone"
      using assms(3) False EraseIf_parts [of mk predicate h] by auto
    have s: "\<exists>c. ?gone ! i = Some c" if "i < length ?gone" for i
      using none nth_mem [OF that] by (cases "?gone ! i") auto
    have "heap_values gone = heap_values ?gone"
      unfolding r(2) heap_values_def using s by (intro nth_equalityI) (auto dest!: s)
    moreover have "\<forall>i < length gone. GetHeapHandle gone i = None"
      using s by (auto simp: r(2) GetHeapHandle_def dest!: s)
    ultimately show ?thesis
      using copy_spec [OF mk(1,3)] mk(2) bags by (simp add: r(1) heap_bag_def)
  qed
qed

section \<open>Properties\<close>

lemma heap_ok_Nil [simp]: "heap_ok lt []" "heap_bag [] = {#}"
  by (simp_all add: heap_ok_def cells_ok_def heap_ordered_def heap_bag_def heap_values_def)

text \<open>For every strict weak order, inserting into a heap gives a heap with one more
  element, the returned position is the one of the new element, and every element's
  handle is its position (part of the invariant \<open>heap_ok\<close>).\<close>

theorem heap_insert_correct:
  assumes "strict_weak_order lt" "heap_ok lt h"
  shows "\<exists>h' pos. heap_insert lt h x = (h', pos) \<and> heap_ok lt h' \<and> heap_bag h' = add_mset x (heap_bag h)
    \<and> pos < length h' \<and> heap_value h' pos = x \<and> GetHeapHandle h' pos = Some pos"
  using strict_weak_order.insert_spec [OF assms, of x]
  by (auto simp: GetHeapHandle_def heap_ok_def cells_ok_def)

text \<open>C6: removing an element through its handle, by \<open>erase\<close> or by \<open>take\<close>, removes exactly
  that element: the rest is a heap again with correct handles, and \<open>take\<close> returns the
  element.\<close>

theorem heap_remove_correct:
  assumes "strict_weak_order lt" "heap_ok lt h" "i < length h" "GetHeapHandle h i = Some k"
  shows "heap_ok lt (heap_erase lt h k) \<and> heap_bag (heap_erase lt h k) = heap_bag h - {#heap_value h i#} \<and>
    (\<exists>h'. heap_take lt h k = (heap_value h i, h') \<and> heap_ok lt h' \<and>
       heap_bag h' = heap_bag h - {#heap_value h i#})"
proof -
  have "k = i" using assms(2-4) by (auto simp: GetHeapHandle_def heap_ok_def cells_ok_def)
  then show ?thesis
    using strict_weak_order.erase_spec [OF assms(1,2,3)] strict_weak_order.take_spec [OF assms(1,2,3)] by simp
qed

lemma demo_heap_ok: "heap_ok (<) (heap_insert_range (<) [] [3 :: nat, 1, 4, 1, 5])"
  using std_less.heap_queue.ins_all [of "[] :: nat heap" "[3, 1, 4, 1, 5]"]
  by (simp add: heap_insert_range_def)

theorem heap_remove_correct_witness:
  "let h = heap_insert_range (<) [] [3 :: nat, 1, 4, 1, 5] in
     heap_ok (<) (heap_erase (<) h 1) \<and> heap_bag (heap_erase (<) h 1) = heap_bag h - {#4#}"
proof -
  have "GetHeapHandle (heap_insert_range (<) [] [3 :: nat, 1, 4, 1, 5]) 1 = Some 1"
    "heap_value (heap_insert_range (<) [] [3 :: nat, 1, 4, 1, 5]) 1 = 4"
    "length (heap_insert_range (<) [] [3 :: nat, 1, 4, 1, 5]) = 5" by (code_simp, code_simp, code_simp)
  with heap_remove_correct [OF std_less.strict_weak_order_axioms demo_heap_ok, of 1 1] show ?thesis
    by (simp add: Let_def)
qed

text \<open>Replacing the element at a position, replacing the top and modifying an element
  in place each give a heap of the same size with correct handles in which the new value
  stands for the old one, at the position returned, whether it has to move up or down.\<close>

theorem heap_replace_correct:
  assumes "strict_weak_order lt" "heap_ok lt h" "pos < length h"
  shows "(\<exists>r e. heap_replace lt h pos x = (r, e) \<and> heap_ok lt r \<and> e < length r \<and> heap_value r e = x \<and>
      heap_bag r = add_mset x (heap_bag h - {#heap_value h pos#})) \<and>
    (\<exists>r e. heap_replace_top lt h x = (r, e) \<and> heap_ok lt r \<and> e < length r \<and> heap_value r e = x \<and>
      heap_bag r = add_mset x (heap_bag h - {#heap_top h#})) \<and>
    (\<exists>r e. heap_modify lt h pos f = (r, e) \<and> heap_ok lt r \<and> e < length r \<and>
      heap_value r e = f (heap_value h pos) \<and>
      heap_bag r = add_mset (f (heap_value h pos)) (heap_bag h - {#heap_value h pos#}))"
proof -
  have "h \<noteq> []" using assms(3) by auto
  then show ?thesis
    using strict_weak_order.replace_spec [OF assms, of x] strict_weak_order.modify_spec [OF assms, of f]
      strict_weak_order.replace_top_spec [OF assms(1,2), of x] by blast
qed

text \<open>C15: the heap is a priority queue: no element is larger than the top, and inserting a
  list into the empty heap and popping until it is empty delivers a permutation of the
  list in which no element is smaller than a later one.\<close>

theorem heap_sorts:
  assumes "strict_weak_order lt"
  shows "mset (take_all heap_top (heap_pop lt) (length xs) (heap_insert_range lt [] xs)) = mset xs \<and>
    sorted_wrt (\<lambda>x y. \<not> lt x y) (take_all heap_top (heap_pop lt) (length xs) (heap_insert_range lt [] xs))"
  using strict_weak_order.heap_sorts_list [OF assms] .

theorem heap_sorts_witness:
  "sorted_wrt (\<lambda>x y. \<not> x < y)
     (take_all heap_top (heap_pop (<)) (length [3 :: nat, 1, 4]) (heap_insert_range (<) [] [3 :: nat, 1, 4]))"
  using heap_sorts [OF std_less.strict_weak_order_axioms, of "[3 :: nat, 1, 4]"] by blast

text \<open>\<open>EraseIf\<close> keeps the elements that do not match, as a heap with correct handles,
  and hands out the matching ones with invalid handles, for every \<open>make_heap\<close> that
  permutes its range into heap order.\<close>

theorem heap_EraseIf_correct:
  assumes "heap_ok lt h" "heap_maker lt make_heap" "heap_EraseIf make_heap predicate h = (r, gone)"
  shows "heap_ok lt r \<and> heap_bag r = filter_mset (\<lambda>x. \<not> predicate x) (heap_bag h) \<and>
    heap_bag gone = filter_mset predicate (heap_bag h) \<and> (\<forall>i < length gone. GetHeapHandle gone i = None)"
  by (rule EraseIf_spec [OF assms])

text \<open>A \<open>make_heap\<close> that inserts one by one.\<close>

definition insert_maker :: "nat heap \<Rightarrow> nat heap" where
  "insert_maker l = heap_insert_range (<) [] (heap_values l)"

lemma insert_maker_ok: "heap_maker (<) insert_maker"
proof -
  have "heap_ok (<) (insert_maker l) \<and> heap_bag (insert_maker l) = mset (heap_values l)" for l
    using std_less.heap_queue.ins_all [of "[] :: nat heap" "heap_values l"]
    by (simp add: insert_maker_def heap_insert_range_def)
  then show ?thesis
    by (auto simp: heap_maker_def heap_ok_def heap_bag_def cells_ok_def in_set_conv_nth)
qed

end
