(* ===== verification/Posix_Calls.thy ===== *)
theory Posix_Calls
  imports Sparo_Prelude
begin

text \<open>
  The system calls the socket programs make.  The kernel is not part of the repository:
  what its calls return is given by a script (the results of the reads on each
  descriptor, of the accepts, of the waits, and the return codes of the others), over
  which every theorem quantifies.  What a program does is the trace of its calls.
  A call for which the script has no result left does not return.
\<close>

datatype io_result =
    Data "u8 list"     \<comment> \<open>that many bytes were delivered\<close>
  | Eof                \<comment> \<open>the peer has closed: 0 is returned\<close>
  | Again              \<comment> \<open>-1 with \<open>EAGAIN\<close> (the same code as \<open>EWOULDBLOCK\<close>)\<close>
  | Failed             \<comment> \<open>-1 with another code\<close>

datatype io_act =
    Stdout "u8 list"
  | SocketWrite int "u8 list"
  | Close int
  | EpollCtl int int u32
  | SetNonblock int int
  | NoDelay int
  | Print "u8 list"        \<comment> \<open>a message of the program, up to its terminator\<close>
  | Overread              \<comment> \<open>a string was read past the end of its buffer\<close>

record world =
  io_reads :: "int \<Rightarrow> io_result list"
  io_accepts :: "int list"
  getfl_rc :: "int \<Rightarrow> int"
  setfl_rc :: "int \<Rightarrow> int"
  epctl_rc :: "int \<Rightarrow> int"
  io_trace :: "io_act list"

definition act :: "io_act \<Rightarrow> world \<Rightarrow> world" where
  "act a w = w\<lparr>io_trace := io_trace w @ [a]\<rparr>"

definition acts :: "io_act list \<Rightarrow> world \<Rightarrow> world" where
  "acts as w = w\<lparr>io_trace := io_trace w @ as\<rparr>"

definition set_reads :: "int \<Rightarrow> io_result list \<Rightarrow> world \<Rightarrow> world" where
  "set_reads fd rs w = w\<lparr>io_reads := (io_reads w)(fd := rs)\<rparr>"

lemma act_sel [simp]:
  "io_trace (act a w) = io_trace w @ [a]" "io_reads (act a w) = io_reads w"
  "io_accepts (act a w) = io_accepts w" "getfl_rc (act a w) = getfl_rc w"
  "setfl_rc (act a w) = setfl_rc w" "epctl_rc (act a w) = epctl_rc w"
  by (simp_all add: act_def)

lemma acts_simps [simp]:
  "acts [] w = w" "acts bs (acts as w) = acts (as @ bs) w" "act a w = acts [a] w"
  "set_reads fd rs (acts as w) = acts as (set_reads fd rs w)"
  "set_reads fd rs (set_reads fd rs' w) = set_reads fd rs w"
  by (simp_all add: acts_def act_def set_reads_def)

lemma acts_sel [simp]:
  "io_trace (acts as w) = io_trace w @ as" "io_reads (acts as w) = io_reads w"
  "io_accepts (acts as w) = io_accepts w" "getfl_rc (acts as w) = getfl_rc w"
  "setfl_rc (acts as w) = setfl_rc w" "epctl_rc (acts as w) = epctl_rc w"
  by (simp_all add: acts_def)

lemma set_reads_sel [simp]:
  "io_trace (set_reads fd rs w) = io_trace w" "io_reads (set_reads fd rs w) = (io_reads w)(fd := rs)"
  "io_accepts (set_reads fd rs w) = io_accepts w"
  by (simp_all add: set_reads_def)

text \<open>The event bits of \<open>sys/epoll.h\<close> and the flag of \<open>fcntl.h\<close> the programs use.\<close>

definition EPOLLIN :: u32 where "EPOLLIN = 0x001"
definition EPOLLOUT :: u32 where "EPOLLOUT = 0x004"
definition EPOLLERR :: u32 where "EPOLLERR = 0x008"
definition EPOLLHUP :: u32 where "EPOLLHUP = 0x010"
definition EPOLLET :: u32 where "EPOLLET = 0x80000000"
definition O_NONBLOCK :: int where "O_NONBLOCK = 2048"
definition EPOLL_CTL_ADD :: int where "EPOLL_CTL_ADD = 1"

lemmas epoll_bits = EPOLLIN_def EPOLLOUT_def EPOLLERR_def EPOLLHUP_def EPOLLET_def

text \<open>Testing a bit of an event mask, as \<open>events & EPOLLIN\<close> does.\<close>

definition has_bit :: "u32 \<Rightarrow> u32 \<Rightarrow> bool" where
  "has_bit events b \<longleftrightarrow> and events b \<noteq> 0"

text \<open>The results a read can give: data fits the buffer and is not empty.\<close>

fun result_ok :: "nat \<Rightarrow> io_result \<Rightarrow> bool" where
  "result_ok n (Data bs) \<longleftrightarrow> bs \<noteq> [] \<and> length bs \<le> n"
| "result_ok n _ \<longleftrightarrow> True"

fun is_data :: "io_result \<Rightarrow> bool" where
  "is_data (Data _) = True"
| "is_data _ = False"

end
