(* ===== verification/Epoll_Demo.thy ===== *)
theory Epoll_Demo
  imports Posix_Calls
begin

text \<open>
  The echo server \<open>src/demo/epoll_demo.c\<close>, over the scripted system calls of
  \<open>Posix_Calls\<close>: setting up the listening socket, the edge-triggered event loop,
  accepting connections, and reading a connection until it would block.  The endless
  loop of \<open>main\<close> runs over the list of the results of \<open>epoll_wait\<close>.
\<close>

section \<open>Sockets\<close>

definition MAX_EVENT :: nat where "MAX_EVENT = 20"
definition READ_BUF_LEN :: nat where "READ_BUF_LEN = 256"

definition make_socket_non_blocking :: "int \<Rightarrow> world \<Rightarrow> int \<times> world" where
  "make_socket_non_blocking fd w =
     (let flags = getfl_rc w fd in
      if -1 = flags then (-1, w)
      else
        let flags = or flags O_NONBLOCK;
            w = act (SetNonblock fd flags) w;
            s = setfl_rc w fd
        in if -1 = s then (-1, w) else (0, w))"

definition SetTCPNoDelay :: "int \<Rightarrow> world \<Rightarrow> world" where
  "SetTCPNoDelay fd w = act (NoDelay fd) w"

definition BindEvent :: "int \<Rightarrow> int \<Rightarrow> u32 \<Rightarrow> world \<Rightarrow> int \<times> world" where
  "BindEvent epfd ev_fd flags w = (epctl_rc w ev_fd, act (EpollCtl EPOLL_CTL_ADD ev_fd flags) w)"

text \<open>The loop over the pending connections; an empty script is an \<open>accept\<close> that
  returns -1.\<close>

fun accept_loop :: "int \<Rightarrow> int list \<Rightarrow> world \<Rightarrow> int list \<times> world" where
  "accept_loop epfd [] w = ([], w)"
| "accept_loop epfd (accp_fd # rest) w =
     (if -1 = accp_fd then (rest, w)
      else
        case make_socket_non_blocking accp_fd w of
          (result, w) \<Rightarrow>
            if -1 = result then (rest, w)
            else
              let w = snd (BindEvent epfd accp_fd (or (or EPOLLIN EPOLLOUT) EPOLLET) w);
                  w = SetTCPNoDelay accp_fd w
              in accept_loop epfd rest w)"

definition AcceptConnection :: "int \<Rightarrow> world \<Rightarrow> world" where
  "AcceptConnection epfd w =
     (case accept_loop epfd (io_accepts w) w of (rest, w) \<Rightarrow> w\<lparr>io_accepts := rest\<rparr>)"

section \<open>Reading\<close>

text \<open>The loop of \<open>ReadData\<close> over the results of the reads: what is left of them, the
  value returned and the trace.\<close>

fun read_loop :: "io_result list \<Rightarrow> world \<Rightarrow> (io_result list \<times> int \<times> world) option" where
  "read_loop [] w = None"
| "read_loop (r # rs) w =
     (case r of
        Again \<Rightarrow> Some (rs, 0, w)
      | Failed \<Rightarrow> Some (rs, 1, w)
      | Eof \<Rightarrow> Some (rs, 1, w)
      | Data bs \<Rightarrow> read_loop rs (act (Stdout bs) w))"

definition ReadData :: "int \<Rightarrow> world \<Rightarrow> (int \<times> world) option" where
  "ReadData client_fd w =
     (case read_loop (io_reads w client_fd) w of
        None \<Rightarrow> None
      | Some (rs, done, w) \<Rightarrow> Some (done, set_reads client_fd rs w))"

section \<open>The event loop\<close>

text \<open>The seven bytes of \<open>END666\<close> with its terminator.\<close>

definition END666 :: "u8 list" where
  "END666 = [0x45, 0x4E, 0x44, 0x36, 0x36, 0x36, 0x00]"

definition handle_event :: "int \<Rightarrow> int \<Rightarrow> u32 \<times> int \<Rightarrow> world \<Rightarrow> world option" where
  "handle_event listenfd epfd ev w =
     (case ev of (events, event_fd) \<Rightarrow>
        if has_bit events EPOLLHUP then Some (act (Close event_fd) w)
        else if has_bit events EPOLLERR then Some (act (Close event_fd) w)
        else if listenfd = event_fd then Some (AcceptConnection epfd w)
        else if event_fd < 0 then Some w
        else
          (case (if has_bit events EPOLLIN then ReadData event_fd w else Some (0, w)) of
             None \<Rightarrow> None
           | Some (done, w) \<Rightarrow>
               let w = (if has_bit events EPOLLOUT then act (SocketWrite event_fd END666) w else w)
               in Some (if done \<noteq> 0 then act (Close event_fd) w else w)))"

fun handle_events :: "int \<Rightarrow> int \<Rightarrow> (u32 \<times> int) list \<Rightarrow> world \<Rightarrow> world option" where
  "handle_events listenfd epfd [] w = Some w"
| "handle_events listenfd epfd (ev # evs) w =
     (case handle_event listenfd epfd ev w of
        None \<Rightarrow> None | Some w \<Rightarrow> handle_events listenfd epfd evs w)"

text \<open>The loop of \<open>main\<close> over the results of \<open>epoll_wait\<close>: \<open>None\<close> is a failed wait,
  which returns -1 and lets the inner loop run zero times.\<close>

fun serve :: "int \<Rightarrow> int \<Rightarrow> (u32 \<times> int) list option list \<Rightarrow> world \<Rightarrow> world option" where
  "serve listenfd epfd [] w = Some w"
| "serve listenfd epfd (wait # waits) w =
     (case wait of
        None \<Rightarrow> serve listenfd epfd waits w
      | Some evs \<Rightarrow>
          (case handle_events listenfd epfd evs w of
             None \<Rightarrow> None | Some w \<Rightarrow> serve listenfd epfd waits w))"

text \<open>The return codes of the calls that set up the server.\<close>

record setup_rc =
  rc_socket :: int
  rc_setsockopt :: int
  rc_bind :: int
  rc_listen :: int
  rc_epoll_create1 :: int

datatype main_result = Returned int world | Serving "world option"

definition main_demo :: "setup_rc \<Rightarrow> (u32 \<times> int) list option list \<Rightarrow> world \<Rightarrow> main_result" where
  "main_demo rc waits w =
     (let listenfd = rc_socket rc in
      if -1 = listenfd then Returned (-1) w
      else if -1 = rc_setsockopt rc then Returned 0 w
      else if -1 = rc_bind rc then Returned 0 w
      else
        case make_socket_non_blocking listenfd w of
          (result, w) \<Rightarrow>
            if -1 = result then Returned 0 w
            else if -1 = rc_listen rc then Returned 0 w
            else
              let epfd = rc_epoll_create1 rc in
              if 1 = epfd then Returned 0 w
              else
                case BindEvent epfd listenfd EPOLLIN w of
                  (result, w) \<Rightarrow>
                    if -1 = result then Returned 0 w else Serving (serve listenfd epfd waits w))"

section \<open>Reading everything\<close>

lemma read_loop_data:
  assumes "\<not> is_data r"
  shows "read_loop (map Data ds @ r # rs) w =
    Some (rs, if r = Again then 0 else 1, acts (map Stdout ds) w)"
proof (induction ds arbitrary: w)
  case Nil
  then show ?case using assms by (cases r) auto
qed simp

lemma ReadData_data:
  assumes "io_reads w fd = map Data ds @ r # rs" "\<not> is_data r"
  shows "ReadData fd w = Some (if r = Again then 0 else 1, acts (map Stdout ds) (set_reads fd rs w))"
  using read_loop_data [OF assms(2)] assms(1) by (simp add: ReadData_def)

section \<open>Accepting everything\<close>

text \<open>What registering one connection adds to the trace.\<close>

definition register_acts :: "world \<Rightarrow> int \<Rightarrow> io_act list" where
  "register_acts w fd =
     [SetNonblock fd (or (getfl_rc w fd) O_NONBLOCK),
      EpollCtl EPOLL_CTL_ADD fd (or (or EPOLLIN EPOLLOUT) EPOLLET), NoDelay fd]"

definition socket_ok :: "world \<Rightarrow> int \<Rightarrow> bool" where
  "socket_ok w fd \<longleftrightarrow> fd \<noteq> -1 \<and> getfl_rc w fd \<noteq> -1 \<and> setfl_rc w fd \<noteq> -1"

lemma register_acts_acts [simp]: "register_acts (acts as w) = register_acts w"
  by (simp add: register_acts_def fun_eq_iff)

lemma socket_ok_acts [simp]: "socket_ok (acts as w) = socket_ok w"
  by (simp add: socket_ok_def fun_eq_iff)

lemma accept_loop_all:
  "\<forall>fd \<in> set fds. socket_ok w fd \<Longrightarrow>
   accept_loop epfd (fds @ rest) w = accept_loop epfd rest (acts (concat (map (register_acts w) fds)) w)"
proof (induction fds arbitrary: w)
  case (Cons fd fds)
  have "accept_loop epfd ((fd # fds) @ rest) w = accept_loop epfd (fds @ rest) (acts (register_acts w fd) w)"
    using Cons.prems
    by (simp add: make_socket_non_blocking_def BindEvent_def SetTCPNoDelay_def socket_ok_def Let_def register_acts_def)
  with Cons show ?case by simp
qed simp

section \<open>Properties\<close>

text \<open>A readable connection that neither hung up nor failed is read to the end in one
  event, as edge triggering needs: for every sequence of data ended by a read that would
  block, meets the end of the stream or fails, all the data is copied to the standard
  output in order, the greeting is written if the socket is writable, and the connection is
  closed exactly when the last read did not just block.\<close>

theorem epoll_reads_all:
  assumes "io_reads w fd = map Data ds @ r # rs" "\<not> is_data r"
    and "\<not> has_bit events EPOLLHUP" "\<not> has_bit events EPOLLERR" "has_bit events EPOLLIN"
    and "fd \<noteq> listenfd" "0 \<le> fd"
  shows "handle_event listenfd epfd (events, fd) w =
    Some (acts (map Stdout ds @ (if has_bit events EPOLLOUT then [SocketWrite fd END666] else []) @
      (if r = Again then [] else [Close fd])) (set_reads fd rs w))"
  using assms(3-7) ReadData_data [OF assms(1,2)] by (auto simp: handle_event_def Let_def)

definition quiet_world :: world where
  "quiet_world = \<lparr>io_reads = (\<lambda>_. []), io_accepts = [], getfl_rc = (\<lambda>_. 2), setfl_rc = (\<lambda>_. 0),
     epctl_rc = (\<lambda>_. 0), io_trace = []\<rparr>"

text \<open>An event of the listening socket accepts every pending connection: up to the
  accept that fails each one is made non-blocking, registered for edge-triggered reading and
  writing, and set to no delay, in order.  A connection that cannot be made non-blocking
  ends the loop: it is neither registered nor closed.\<close>

theorem epoll_accepts_all:
  assumes "\<forall>fd \<in> set fds. socket_ok w fd" "io_accepts w = fds @ bad # rest"
    and "\<not> has_bit events EPOLLHUP" "\<not> has_bit events EPOLLERR"
    and "bad = -1 \<or> getfl_rc w bad = -1"
  shows "handle_event listenfd epfd (events, listenfd) w =
    Some ((acts (concat (map (register_acts w) fds)) w)\<lparr>io_accepts := rest\<rparr>)"
  using assms(2-5) accept_loop_all [OF assms(1), of epfd "bad # rest"]
  by (auto simp: handle_event_def AcceptConnection_def make_socket_non_blocking_def)

text \<open>The check after \<open>epoll_create1\<close> compares with 1 instead of -1: when the call fails
  the server goes on to register and wait on descriptor -1, and when it succeeds with
  descriptor 1 the server stops.\<close>

theorem epoll_create_unchecked:
  assumes "rc_socket rc \<noteq> -1" "rc_setsockopt rc \<noteq> -1" "rc_bind rc \<noteq> -1" "rc_listen rc \<noteq> -1"
    and "socket_ok w (rc_socket rc)" "epctl_rc w (rc_socket rc) \<noteq> -1"
  shows "(rc_epoll_create1 rc = -1 \<longrightarrow>
      (\<exists>w'. main_demo rc waits w = Serving (serve (rc_socket rc) (-1) waits w') \<and>
         EpollCtl EPOLL_CTL_ADD (rc_socket rc) EPOLLIN \<in> set (io_trace w'))) \<and>
    (rc_epoll_create1 rc = 1 \<longrightarrow> (\<exists>w'. main_demo rc waits w = Returned 0 w'))"
  using assms by (auto simp: main_demo_def make_socket_non_blocking_def BindEvent_def socket_ok_def Let_def)

end
