(* ===== verification/Epoll_Lt_Et.thy ===== *)
theory Epoll_Lt_Et
  imports Posix_Calls
begin

text \<open>
  The level- and edge-triggered reader \<open>src/demo/epoll_lt_et.c\<close>, over the scripted
  system calls of \<open>Posix_Calls\<close>.  A message is read into a buffer of five bytes and
  printed as a string; printing a buffer without a terminator reads past its end.
\<close>

section \<open>Receiving\<close>

definition MAX_BUFFER_SIZE :: nat where "MAX_BUFFER_SIZE = 5"

datatype epoll_type = EPOLL_LT | EPOLL_ET
datatype block_type = FD_BLOCK | FD_NONBLOCK

definition set_nonblock :: "int \<Rightarrow> world \<Rightarrow> int \<times> world" where
  "set_nonblock fd w = (getfl_rc w fd, act (SetNonblock fd (or (getfl_rc w fd) O_NONBLOCK)) w)"

definition addfd_to_epoll :: "int \<Rightarrow> int \<Rightarrow> epoll_type \<Rightarrow> block_type \<Rightarrow> world \<Rightarrow> world" where
  "addfd_to_epoll epoll_fd fd et bt w =
     (let events = (if et = EPOLL_ET then or EPOLLIN EPOLLET else EPOLLIN);
          w = (if bt = FD_NONBLOCK then snd (set_nonblock fd w) else w)
      in act (EpollCtl EPOLL_CTL_ADD fd events) w)"

text \<open>The string a buffer holds: the bytes before the first zero, if there is one.\<close>

definition c_string :: "u8 list \<Rightarrow> u8 list option" where
  "c_string buffer = (if 0 \<in> set buffer then Some (takeWhile (\<lambda>b. b \<noteq> 0) buffer) else None)"

text \<open>The zeroed buffer after \<open>recv\<close> delivered the bytes, and its printing.\<close>

definition filled :: "u8 list \<Rightarrow> u8 list" where
  "filled bs = bs @ replicate (MAX_BUFFER_SIZE - length bs) 0"

definition message :: "u8 list \<Rightarrow> io_act" where
  "message buffer = (case c_string buffer of Some s \<Rightarrow> Print s | None \<Rightarrow> Overread)"

definition epoll_lt :: "int \<Rightarrow> world \<Rightarrow> world option" where
  "epoll_lt sockfd w =
     (case io_reads w sockfd of
        [] \<Rightarrow> None
      | r # rs \<Rightarrow>
          let w = set_reads sockfd rs w
          in Some (case r of
               Data bs \<Rightarrow> act (message (filled bs)) w
             | _ \<Rightarrow> act (Close sockfd) w))"

fun et_loop :: "int \<Rightarrow> io_result list \<Rightarrow> world \<Rightarrow> (io_result list \<times> world) option" where
  "et_loop sockfd [] w = None"
| "et_loop sockfd (r # rs) w =
     (case r of
        Again \<Rightarrow> Some (rs, w)
      | Failed \<Rightarrow> Some (rs, act (Close sockfd) w)
      | Eof \<Rightarrow> Some (rs, act (Close sockfd) w)
      | Data bs \<Rightarrow> et_loop sockfd rs (act (message (filled bs)) w))"

definition epoll_et_loop :: "int \<Rightarrow> world \<Rightarrow> world option" where
  "epoll_et_loop sockfd w =
     map_option (\<lambda>(rs, w). set_reads sockfd rs w) (et_loop sockfd (io_reads w sockfd) w)"

definition epoll_et_nonloop :: "int \<Rightarrow> world \<Rightarrow> world option" where
  "epoll_et_nonloop sockfd w =
     (case io_reads w sockfd of
        [] \<Rightarrow> None
      | r # rs \<Rightarrow>
          let w = set_reads sockfd rs w
          in Some (case r of
               Data bs \<Rightarrow> act (message (filled bs)) w
             | _ \<Rightarrow> act (Close sockfd) w))"

section \<open>The event loop\<close>

text \<open>\<open>accept\<close> returns -1 when the script has no connection left; its result is not
  checked.\<close>

definition accept_one :: "world \<Rightarrow> int \<times> world" where
  "accept_one w = (case io_accepts w of [] \<Rightarrow> (-1, w) | fd # rest \<Rightarrow> (fd, w\<lparr>io_accepts := rest\<rparr>))"

fun epoll_process ::
  "int \<Rightarrow> (u32 \<times> int) list \<Rightarrow> int \<Rightarrow> epoll_type \<Rightarrow> block_type \<Rightarrow> world \<Rightarrow> world option" where
  "epoll_process epollfd [] sockfd et bt w = Some w"
| "epoll_process epollfd ((events, newfd) # evs) sockfd et bt w =
     (let step =
        (if newfd = sockfd then
           (case accept_one w of (connfd, w) \<Rightarrow> Some (addfd_to_epoll epollfd connfd et bt w))
         else if has_bit events EPOLLIN then
           (case et of EPOLL_LT \<Rightarrow> epoll_lt newfd w | EPOLL_ET \<Rightarrow> epoll_et_loop newfd w)
         else Some w)
      in case step of None \<Rightarrow> None | Some w \<Rightarrow> epoll_process epollfd evs sockfd et bt w)"

text \<open>Setting up: \<open>err_exit\<close> ends the program with status 1.\<close>

record lt_setup =
  su_inet_pton :: int
  su_socket :: int
  su_setsockopt :: int
  su_bind :: int
  su_listen :: int
  su_epoll_create1 :: int

definition create_socket :: "lt_setup \<Rightarrow> int option" where
  "create_socket su =
     (if su_inet_pton su = -1 then None
      else if su_socket su = -1 then None
      else if su_setsockopt su = -1 then None
      else if su_bind su = -1 then None
      else if su_listen su = -1 then None
      else Some (su_socket su))"

datatype lt_result = Exited int | Running "world option"

fun lt_serve :: "int \<Rightarrow> int \<Rightarrow> (u32 \<times> int) list option list \<Rightarrow> world \<Rightarrow> lt_result" where
  "lt_serve sockfd epollfd [] w = Running (Some w)"
| "lt_serve sockfd epollfd (wait # waits) w =
     (case wait of
        None \<Rightarrow> Exited 1
      | Some evs \<Rightarrow>
          (case epoll_process epollfd evs sockfd EPOLL_LT FD_BLOCK w of
             None \<Rightarrow> Running None
           | Some w \<Rightarrow> lt_serve sockfd epollfd waits w))"

definition main_lt_et :: "int \<Rightarrow> lt_setup \<Rightarrow> (u32 \<times> int) list option list \<Rightarrow> world \<Rightarrow> lt_result" where
  "main_lt_et argc su waits w =
     (if argc < 3 then Exited 1
      else
        case create_socket su of
          None \<Rightarrow> Exited 1
        | Some sockfd \<Rightarrow>
            let epollfd = su_epoll_create1 su in
            if epollfd = -1 then Exited 1
            else lt_serve sockfd epollfd waits (addfd_to_epoll epollfd sockfd EPOLL_LT FD_NONBLOCK w))"

section \<open>Level- and edge-triggered reading agree\<close>

lemma et_loop_data:
  "et_loop fd (map Data ds @ Again # rs) w = Some (rs, acts (map (message \<circ> filled) ds) w)"
  by (induction ds arbitrary: w) auto

lemma process_lt_data:
  assumes "has_bit events EPOLLIN" "fd \<noteq> sockfd"
  shows "io_reads w fd = map Data ds @ rs \<Longrightarrow>
    epoll_process epollfd (replicate (length ds) (events, fd)) sockfd EPOLL_LT bt w =
    Some (acts (map (message \<circ> filled) ds) (set_reads fd rs w))"
proof (induction ds arbitrary: w)
  case Nil
  then have "set_reads fd rs w = w" by (simp add: set_reads_def fun_upd_idem)
  then show ?case by simp
next
  case (Cons d ds)
  let ?w = "acts [message (filled d)] (set_reads fd (map Data ds @ rs) w)"
  have "epoll_lt fd w = Some ?w" using Cons.prems by (simp add: epoll_lt_def Let_def)
  then have "epoll_process epollfd (replicate (length (d # ds)) (events, fd)) sockfd EPOLL_LT bt w =
      epoll_process epollfd (replicate (length ds) (events, fd)) sockfd EPOLL_LT bt ?w"
    using assms by simp
  with Cons.IH [of ?w] show ?case by simp
qed

section \<open>Properties\<close>

text \<open>Level-triggered reading delivers what edge-triggered reading delivers: for every
  sequence of chunks on a connection, one readable event per chunk in level-triggered mode
  prints the same messages in the same order as a single event of the edge-triggered loop,
  which stops when the read would block.\<close>

theorem lt_reads_like_et:
  assumes "io_reads w fd = map Data ds @ Again # rs" "has_bit events EPOLLIN" "fd \<noteq> sockfd"
  shows "\<exists>lt et. epoll_process epollfd (replicate (length ds) (events, fd)) sockfd EPOLL_LT bt w = Some lt \<and>
    epoll_process epollfd [(events, fd)] sockfd EPOLL_ET bt w = Some et \<and>
    io_trace lt = io_trace et \<and> io_trace lt = io_trace w @ map (message \<circ> filled) ds \<and>
    io_reads lt fd = Again # rs \<and> io_reads et fd = rs"
  using process_lt_data [OF assms(2,3,1)] assms et_loop_data [of fd ds rs w]
  by (simp add: epoll_et_loop_def)

definition one_reader :: "io_result list \<Rightarrow> world" where
  "one_reader rs = \<lparr>io_reads = (\<lambda>_. rs), io_accepts = [], getfl_rc = (\<lambda>_. 2), setfl_rc = (\<lambda>_. 0),
     epctl_rc = (\<lambda>_. 0), io_trace = []\<rparr>"

text \<open>Printing a received message: data shorter than the buffer is printed up to its first
  zero byte; five bytes without a zero fill the buffer, and printing them reads past its
  end.\<close>

theorem lt_message:
  assumes "io_reads w fd = Data bs # rs" "result_ok MAX_BUFFER_SIZE (Data bs)"
  shows "epoll_lt fd w = Some (acts
    [if length bs = MAX_BUFFER_SIZE \<and> 0 \<notin> set bs then Overread else Print (takeWhile (\<lambda>b. b \<noteq> 0) bs)]
    (set_reads fd rs w))"
proof -
  have "takeWhile (\<lambda>b. b \<noteq> 0) (filled bs) = takeWhile (\<lambda>b. b \<noteq> 0) bs"
    by (auto simp: filled_def takeWhile_append takeWhile_eq_all_conv [THEN iffD2])
  moreover have "0 \<in> set (filled bs) \<longleftrightarrow> \<not> (length bs = MAX_BUFFER_SIZE \<and> 0 \<notin> set bs)"
    using assms(2) by (auto simp: filled_def)
  ultimately show ?thesis
    using assms(1) by (simp add: epoll_lt_def Let_def message_def c_string_def)
qed

end
