(* ===== verification/Kernel_Modules.thy ===== *)
theory Kernel_Modules
  imports Sparo_Prelude
begin

text \<open>
  The two demonstration kernel modules: the character device of \<open>fctl-test/hello.c\<close>
  with its user program \<open>fctl-test/test_hell.c\<close>, and the memory-mapped device of
  \<open>src/mmap/mymap.c\<close>.  The kernel is not part of the repository: the return codes of its
  calls are fields of an environment, the calls that acquire and release something are a
  trace, and access to user memory is a pair of functions with the contract
  \<open>user_access\<close>.
\<close>

section \<open>The ioctl commands: command.h\<close>

text \<open>The codes of the three commands are pairwise distinct labels of a switch; every other
  code is \<open>UnknownCmd\<close>.\<close>

datatype hello_cmd = HELLO_RESET | HELLO_READ | HELLO_WRITE | UnknownCmd u32

definition HELLO_CNT :: nat where "HELLO_CNT = 1"
definition ENODEV :: int where "ENODEV = 19"
definition EINVAL :: int where "EINVAL = 22"

section \<open>The device: hello.c\<close>

datatype kernel_act =
    ChrdevRegion int nat
  | CdevAdd int nat
  | ClassCreate
  | DeviceCreate int nat
  | DeviceDestroy int nat
  | ClassDestroy
  | CdevDel nat
  | ChrdevUnregister int

record hello_module =
  h_major :: int
  h_minor :: nat
  h_dev :: int                  \<comment> \<open>the major number in \<open>dev\<close>\<close>
  h_cdev :: "bool list"         \<comment> \<open>\<open>hello_cdev[i]\<close> is not NULL\<close>
  h_s_val :: u32
  h_trace :: "kernel_act list"

record hello_env =
  he_region_rc :: int
  he_region_major :: int
  he_cdev_alloc :: "nat \<Rightarrow> bool"
  he_cdev_add_rc :: "nat \<Rightarrow> int"

definition hello_module0 :: hello_module where
  "hello_module0 = \<lparr>h_major = 0, h_minor = 0, h_dev = 0, h_cdev = [False], h_s_val = 0, h_trace = []\<rparr>"

definition kact :: "kernel_act \<Rightarrow> hello_module \<Rightarrow> hello_module" where
  "kact a m = m\<lparr>h_trace := h_trace m @ [a]\<rparr>"

text \<open>\<open>hello_open\<close> with the minor number of the inode: the return value and the private
  data.\<close>

definition hello_open :: "nat \<Rightarrow> hello_module \<Rightarrow> int \<times> bool option" where
  "hello_open num m = (if num \<ge> HELLO_CNT then (- ENODEV, None) else (0, Some (h_cdev m ! num)))"

definition hello_release :: int where
  "hello_release = 0"

text \<open>\<open>hello_ioctl\<close>: the copies return the number of bytes they could not copy.\<close>

definition hello_ioctl ::
  "('m \<Rightarrow> nat \<Rightarrow> u32 \<Rightarrow> int \<times> 'm) \<Rightarrow> ('m \<Rightarrow> nat \<Rightarrow> u32 \<Rightarrow> int \<times> u32)
    \<Rightarrow> hello_cmd \<Rightarrow> nat \<Rightarrow> hello_module \<times> 'm \<Rightarrow> int \<times> hello_module \<times> 'm" where
  "hello_ioctl copy_to_user copy_from_user cmd val st =
     (case st of (m, mem) \<Rightarrow>
        (case cmd of
           HELLO_RESET \<Rightarrow> (0, m, mem)
         | HELLO_READ \<Rightarrow> (case copy_to_user mem val (h_s_val m) of (ret, mem) \<Rightarrow> (ret, m, mem))
         | HELLO_WRITE \<Rightarrow>
             (case copy_from_user mem val (h_s_val m) of (ret, v) \<Rightarrow> (ret, m\<lparr>h_s_val := v\<rparr>, mem))
         | UnknownCmd _ \<Rightarrow> (- EINVAL, m, mem)))"

text \<open>\<open>setup_cdev\<close>: initialising a device object that was not allocated is a fault
  (\<open>None\<close>); a failed \<open>cdev_add\<close> is only logged.\<close>

definition setup_cdev :: "hello_env \<Rightarrow> nat \<Rightarrow> hello_module \<Rightarrow> hello_module option" where
  "setup_cdev env index m =
     (if \<not> h_cdev m ! index then None
      else if he_cdev_add_rc env index \<noteq> 0 then Some m
      else Some (kact (CdevAdd (h_major m) index) m))"

definition hello_init :: "hello_env \<Rightarrow> hello_module \<Rightarrow> (int \<times> hello_module) option" where
  "hello_init env m =
     (let m = (if h_major m \<noteq> 0 then
                 let m = m\<lparr>h_dev := h_major m\<rparr>
                 in if he_region_rc env = 0 then kact (ChrdevRegion (h_dev m) (h_minor m)) m else m
               else
                 let m = (if he_region_rc env = 0
                          then kact (ChrdevRegion (he_region_major env) (h_minor m))
                                 (m\<lparr>h_dev := he_region_major env\<rparr>)
                          else m)
                 in m\<lparr>h_major := h_dev m\<rparr>);
          m = m\<lparr>h_cdev := map (he_cdev_alloc env) [0..<HELLO_CNT]\<rparr>
      in case setup_cdev env 0 m of
           None \<Rightarrow> None
         | Some m \<Rightarrow>
             let m = kact ClassCreate m;
                 m = kact (DeviceCreate (h_major m) 0) m
             in Some (0, m\<lparr>h_minor := HELLO_CNT\<rparr>))"

definition hello_exit :: "hello_module \<Rightarrow> hello_module" where
  "hello_exit m =
     (let m = kact (DeviceDestroy (h_major m) 0) m;
          m = m\<lparr>h_minor := HELLO_CNT\<rparr>;
          m = kact ClassDestroy m;
          m = kact (CdevDel 0) m
      in kact (ChrdevUnregister (h_dev m)) m)"

section \<open>The user program: test_hell.c\<close>

text \<open>The program against the device, with the address of its variable \<open>val\<close> and functions
  to read and write it: the exit status, and the value printed.\<close>

definition test_hell ::
  "('m \<Rightarrow> nat \<Rightarrow> u32 \<Rightarrow> int \<times> 'm) \<Rightarrow> ('m \<Rightarrow> nat \<Rightarrow> u32 \<Rightarrow> int \<times> u32)
    \<Rightarrow> ('m \<Rightarrow> nat \<Rightarrow> u32) \<Rightarrow> ('m \<Rightarrow> nat \<Rightarrow> u32 \<Rightarrow> 'm) \<Rightarrow> nat
    \<Rightarrow> int \<Rightarrow> hello_module \<times> 'm \<Rightarrow> int \<times> u32 option \<times> hello_module \<times> 'm" where
  "test_hell copy_to copy_from load store val fd st =
     (if fd < 0 then (-1, None, st)
      else
        case hello_ioctl copy_to copy_from HELLO_RESET 0 st of (rc, st) \<Rightarrow>
          if rc < 0 then (-1, None, st)
          else
            let st = (fst st, store (snd st) val 10) in
            case hello_ioctl copy_to copy_from HELLO_WRITE val st of (rc, st) \<Rightarrow>
              if rc < 0 then (-1, None, st)
              else
                let st = (fst st, store (snd st) val 2) in
                case hello_ioctl copy_to copy_from HELLO_READ val st of (rc, st) \<Rightarrow>
                  if rc < 0 then (-1, None, st) else (0, Some (load (snd st) val), st))"

text \<open>The documented contract of the copies for an address the process may access, and of
  ordinary loads and stores there.\<close>

definition user_access ::
  "('m \<Rightarrow> nat \<Rightarrow> u32 \<Rightarrow> int \<times> 'm) \<Rightarrow> ('m \<Rightarrow> nat \<Rightarrow> u32 \<Rightarrow> int \<times> u32)
    \<Rightarrow> ('m \<Rightarrow> nat \<Rightarrow> u32) \<Rightarrow> ('m \<Rightarrow> nat \<Rightarrow> u32 \<Rightarrow> 'm) \<Rightarrow> nat \<Rightarrow> bool" where
  "user_access copy_to copy_from load store a \<longleftrightarrow>
     (\<forall>m v. fst (copy_to m a v) = 0 \<and> load (snd (copy_to m a v)) a = v) \<and>
     (\<forall>m v. copy_from m a v = (0, load m a)) \<and>
     (\<forall>m v. load (store m a v) a = v)"

section \<open>The mapped device: mymap.c\<close>

text \<open>The buffer is one page; a mapping is the list of page frames the process gets.\<close>

definition PAGE_SHIFT :: nat where "PAGE_SHIFT = 12"
definition PAGE_SIZE :: nat where "PAGE_SIZE = 2 ^ PAGE_SHIFT"

definition map_array :: "u8 list" where
  "map_array = [0, 150, 2, 3, 4, 5, 6, 7, 80, 9]"

record vm_area_struct =
  vm_start :: nat
  vm_end :: nat

text \<open>\<open>remap_pfn_range\<close> maps every page of the range, from the given frame on.\<close>

definition frames :: "nat \<Rightarrow> nat \<Rightarrow> nat list" where
  "frames pfn sz = map (\<lambda>i. pfn + i) [0..<(sz + PAGE_SIZE - 1) div PAGE_SIZE]"

function copy_array :: "nat \<Rightarrow> u8 list \<Rightarrow> u8 list" where
  "copy_array i buf =
     (if i < 10 then copy_array (i + 1) (buf[i := map_array ! i]) else buf)"
  by pat_completeness auto
termination by (relation "measure (\<lambda>(i, _). 10 - i)") auto

declare copy_array.simps [simp del]

definition my_map ::
  "int \<Rightarrow> nat \<Rightarrow> vm_area_struct \<Rightarrow> u8 list \<Rightarrow> int \<times> nat list \<times> u8 list" where
  "my_map remap_rc phys vma buf =
     (let sz = vm_end vma - vm_start vma in
      if remap_rc \<noteq> 0 then (-1, [], buf)
      else (0, frames (drop_bit PAGE_SHIFT phys) sz, copy_array 0 buf))"

text \<open>\<open>dev_init\<close> registers the device first and does not check the allocation: reserving the
  page of a NULL buffer is a fault.\<close>

definition dev_init :: "int \<Rightarrow> u8 list option \<Rightarrow> (int \<times> u8 list) option" where
  "dev_init register_rc kmalloc_result =
     (case kmalloc_result of None \<Rightarrow> None | Some buf \<Rightarrow> Some (register_rc, buf))"

section \<open>Copying the array\<close>

lemma copy_array_gen:
  "i \<le> 10 \<Longrightarrow> 10 \<le> length buf \<Longrightarrow> take i buf = take i map_array \<Longrightarrow>
   copy_array i buf = map_array @ drop 10 buf"
proof (induction "10 - i" arbitrary: i buf)
  case 0
  then have "i = 10" by simp
  moreover have "take 10 map_array = map_array" by (simp add: map_array_def)
  ultimately show ?case using 0 append_take_drop_id [of 10 buf] by (subst copy_array.simps) simp
next
  case (Suc n)
  then have i: "i < 10" "i < length map_array" "i < length buf" by (auto simp: map_array_def)
  have "take (i + 1) (buf[i := map_array ! i]) = take (i + 1) map_array"
    using i Suc.prems(3) by (simp add: take_Suc_conv_app_nth)
  with Suc.hyps(1) [of "i + 1" "buf[i := map_array ! i]"] Suc.hyps(2) Suc.prems i
  show ?case by (subst copy_array.simps) simp
qed

section \<open>Properties\<close>

text \<open>The user program reads back through the device what it wrote: with user memory that
  obeys its contract at the address of \<open>val\<close> the program prints 10 and exits with 0,
  whatever the device held before, and the device then holds 10.\<close>

theorem hello_roundtrip:
  assumes "user_access copy_to copy_from load store val" "0 \<le> fd"
  shows "\<exists>mem'. test_hell copy_to copy_from load store val fd (m, mem) = (0, Some 10, m\<lparr>h_s_val := 10\<rparr>, mem')"
proof -
  let ?m1 = "store mem val 10" and ?m2 = "store (store mem val 10) val 2"
  obtain mem' where c: "copy_to ?m2 val 10 = (0, mem')" "load mem' val = 10"
    using assms(1) by (auto simp: user_access_def) (metis prod.collapse)
  moreover have "copy_from ?m1 val (h_s_val m) = (0, 10)"
    using assms(1) by (simp add: user_access_def)
  ultimately show ?thesis
    using assms(2) by (simp add: test_hell_def hello_ioctl_def)
qed

definition flat_copy_to :: "(nat \<Rightarrow> u32) \<Rightarrow> nat \<Rightarrow> u32 \<Rightarrow> int \<times> (nat \<Rightarrow> u32)" where
  "flat_copy_to m a v = (0, m(a := v))"

definition flat_copy_from :: "(nat \<Rightarrow> u32) \<Rightarrow> nat \<Rightarrow> u32 \<Rightarrow> int \<times> u32" where
  "flat_copy_from m a v = (0, m a)"

lemma flat_access: "user_access flat_copy_to flat_copy_from (\<lambda>m a. m a) (\<lambda>m a v. m(a := v)) a"
  by (simp add: user_access_def flat_copy_to_def flat_copy_from_def)

text \<open>A copy that fails is reported as the positive number of bytes left, not as a
  negative error code: the user program takes it for success and prints the value it had
  before.\<close>

theorem hello_ioctl_fault_unnoticed:
  assumes "\<And>m v. copy_to m val v = (4, m)" "\<And>m v. copy_from m val v = (4, 0)" "\<And>m v. load (store m val v) val = v"
    and "0 \<le> fd"
  shows "\<exists>st. test_hell copy_to copy_from load store val fd (m, mem) = (0, Some 2, st)"
  using assms by (simp add: test_hell_def hello_ioctl_def)

text \<open>Loading and removing the module: \<open>hello_init\<close> reports success whatever the kernel
  calls return, faulting only when no device object could be allocated; and when the calls
  succeed, \<open>hello_exit\<close> gives back everything in the reverse order.\<close>

theorem hello_init_exit:
  "(case hello_init env hello_module0 of
      None \<Rightarrow> \<not> he_cdev_alloc env 0
    | Some (rc, m) \<Rightarrow> rc = 0 \<and> he_cdev_alloc env 0 \<and>
        (he_region_rc env = 0 \<and> he_cdev_add_rc env 0 = 0 \<longrightarrow>
          (let M = he_region_major env in
           h_trace (hello_exit m) =
             [ChrdevRegion M 0, CdevAdd M 0, ClassCreate, DeviceCreate M 0,
              DeviceDestroy M 0, ClassDestroy, CdevDel 0, ChrdevUnregister M])))"
  by (auto simp: hello_init_def hello_exit_def hello_module0_def setup_cdev_def kact_def HELLO_CNT_def Let_def)

text \<open>Mapping the device: a failed remap changes nothing; otherwise the first ten bytes of
  the page are those of the array and the rest is unchanged.  The length of the mapping is
  not checked: a mapping longer than a page hands out the page frames behind the buffer.\<close>

theorem my_map_spec:
  assumes "length buf = PAGE_SIZE"
  shows "(remap_rc \<noteq> 0 \<longrightarrow> my_map remap_rc phys vma buf = (-1, [], buf)) \<and>
    (remap_rc = 0 \<longrightarrow>
       my_map remap_rc phys vma buf =
         (0, frames (drop_bit PAGE_SHIFT phys) (vm_end vma - vm_start vma), map_array @ drop 10 buf) \<and>
       (vm_end vma - vm_start vma > PAGE_SIZE \<longrightarrow>
          drop_bit PAGE_SHIFT phys + 1 \<in> set (fst (snd (my_map remap_rc phys vma buf)))))"
proof -
  have "copy_array 0 buf = map_array @ drop 10 buf"
    using assms by (intro copy_array_gen) (auto simp: PAGE_SIZE_def PAGE_SHIFT_def)
  moreover have "p + 1 \<in> set (frames p sz)" if "sz > PAGE_SIZE" for p sz
  proof -
    have "2 * PAGE_SIZE \<le> sz + PAGE_SIZE - 1" using that by simp
    then have "2 \<le> (sz + PAGE_SIZE - 1) div PAGE_SIZE"
      by (subst less_eq_div_iff_mult_less_eq) (auto simp: PAGE_SIZE_def)
    then show ?thesis by (auto simp: frames_def image_iff intro!: bexI [of _ 1])
  qed
  ultimately show ?thesis by (simp add: my_map_def Let_def)
qed

end
