(* ===== verification/Wire_Client.thy ===== *)
theory Wire_Client
  imports Sparo_Prelude
begin

unbundle bit_operations_syntax

text \<open>
  The test client \<open>src/test/client.c\<close>: the packed message it exchanges with the Python
  server, byte by byte in the order of a little-endian machine, and the program with the
  return codes of its calls as an environment.  The bytes received are written over a
  structure of ten bytes; more than that overwrites what lies behind it.
\<close>

section \<open>The message\<close>

definition MSG_CMD :: u8 where "MSG_CMD = 1"
definition MSG_FRAME :: u8 where "MSG_FRAME = 2"

record MyStruct =
  ms_len :: u32
  ms_type :: u8
  ms_c :: u8
  ms_d :: u16
  ms_e :: u16

definition sizeof_MyStruct :: nat where "sizeof_MyStruct = 10"

text \<open>The bytes of a word, least significant first.\<close>

definition bytes16 :: "u16 \<Rightarrow> u8 list" where
  "bytes16 x = [ucast x, ucast (drop_bit 8 x)]"

definition bytes32 :: "u32 \<Rightarrow> u8 list" where
  "bytes32 x = [ucast x, ucast (drop_bit 8 x), ucast (drop_bit 16 x), ucast (drop_bit 24 x)]"

definition word16 :: "u8 \<Rightarrow> u8 \<Rightarrow> u16" where
  "word16 a b = ucast a OR push_bit 8 (ucast b)"

definition word32 :: "u8 \<Rightarrow> u8 \<Rightarrow> u8 \<Rightarrow> u8 \<Rightarrow> u32" where
  "word32 a b c d = ucast a OR push_bit 8 (ucast b) OR push_bit 16 (ucast c) OR push_bit 24 (ucast d)"

definition encode :: "MyStruct \<Rightarrow> u8 list" where
  "encode m = bytes32 (ms_len m) @ [ms_type m, ms_c m] @ bytes16 (ms_d m) @ bytes16 (ms_e m)"

fun decode :: "u8 list \<Rightarrow> MyStruct option" where
  "decode [l0, l1, l2, l3, t, c, d0, d1, e0, e1] =
     Some \<lparr>ms_len = word32 l0 l1 l2 l3, ms_type = t, ms_c = c, ms_d = word16 d0 d1, ms_e = word16 e0 e1\<rparr>"
| "decode _ = None"

section \<open>The program\<close>

record client_env =
  ce_socket :: int
  ce_inet_pton :: int
  ce_connect :: int
  ce_send :: int              \<comment> \<open>bytes sent, or -1\<close>
  ce_recv :: "u8 list option" \<comment> \<open>the bytes received, \<open>None\<close> for -1\<close>

definition send_data :: MyStruct where
  "send_data = \<lparr>ms_len = of_nat sizeof_MyStruct, ms_type = MSG_CMD, ms_c = 0xF, ms_d = 0xF, ms_e = 0x2f\<rparr>"

text \<open>What the program ends with: an exit status and what it printed of the reply, or a write
  of that many bytes past the end of the reply structure.\<close>

datatype client_result =
    ClientExit int
  | Printed "u8 list"
  | Overflow nat

text \<open>A reply shorter than the structure leaves the rest of it as it was.\<close>

definition client_main :: "client_env \<Rightarrow> u8 list \<Rightarrow> u8 list \<times> client_result" where
  "client_main env recv_data =
     (if ce_socket env < 0 then ([], ClientExit (-1))
      else if ce_inet_pton env \<le> 0 then ([], ClientExit (-1))
      else if ce_connect env < 0 then ([], ClientExit (-1))
      else
        let out = encode send_data in
        if ce_send env \<noteq> int sizeof_MyStruct then (out, ClientExit (-1))
        else
          case ce_recv env of
            None \<Rightarrow> (out, ClientExit 0)
          | Some bs \<Rightarrow>
              if length bs > sizeof_MyStruct then (out, Overflow (length bs - sizeof_MyStruct))
              else if bs = [] then (out, ClientExit 0)
              else (out, Printed (bs @ drop (length bs) recv_data)))"

section \<open>Words and bytes\<close>

lemma word16_bytes: "word16 (ucast x) (ucast (drop_bit 8 x)) = (x :: u16)"
  by (rule bit_word_eqI)
    (auto simp: word16_def bit_or_iff bit_push_bit_iff bit_ucast_iff bit_drop_bit_eq)

lemma word32_bytes:
  "word32 (ucast x) (ucast (drop_bit 8 x)) (ucast (drop_bit 16 x)) (ucast (drop_bit 24 x)) = (x :: u32)"
proof (rule bit_word_eqI)
  fix n assume "n < LENGTH(32)"
  then show "bit (word32 (ucast x) (ucast (drop_bit 8 x)) (ucast (drop_bit 16 x)) (ucast (drop_bit 24 x))) n = bit x n"
    by (cases "n < 24"; cases "n < 16") (auto simp: word32_def bit_or_iff bit_push_bit_iff bit_ucast_iff bit_drop_bit_eq)
qed

lemma length_encode: "length (encode m) = sizeof_MyStruct"
  by (simp add: encode_def bytes16_def bytes32_def sizeof_MyStruct_def)

lemma decode_encode: "decode (encode m) = Some m"
  by (cases m) (simp add: encode_def bytes16_def bytes32_def word16_bytes word32_bytes)

section \<open>Properties\<close>

text \<open>Every message survives the wire: its encoding has exactly the ten bytes its packed
  layout promises and decodes to the same message.\<close>

theorem message_roundtrip: "length (encode m) = sizeof_MyStruct \<and> decode (encode m) = Some m"
  by (simp add: length_encode decode_encode)

text \<open>The client: it gives up with -1 exactly when it cannot connect or send the whole
  message; otherwise its request is on the wire with its own length in the first field, and
  a reply of a whole message is printed as received.  The reply is not bounded by the
  structure it is written to: a longer one overwrites what lies behind it.\<close>

theorem client_outcome:
  assumes "length recv_data = sizeof_MyStruct" "ce_recv env = Some bs"
  shows "(case client_main env recv_data of
      (out, ClientExit rc) \<Rightarrow>
        rc = -1 \<and> (ce_socket env < 0 \<or> ce_inet_pton env \<le> 0 \<or> ce_connect env < 0 \<or>
          ce_send env \<noteq> int sizeof_MyStruct) \<or> rc = 0 \<and> bs = [] \<and> decode out = Some send_data
    | (out, Printed shown) \<Rightarrow> decode out = Some send_data \<and> ms_len send_data = of_nat (length out) \<and>
        length shown = sizeof_MyStruct \<and> (length bs = sizeof_MyStruct \<longrightarrow> shown = bs)
    | (out, Overflow n) \<Rightarrow> decode out = Some send_data \<and> length bs = sizeof_MyStruct + n \<and> 0 < n)"
  using assms
  by (auto simp: client_main_def Let_def decode_encode length_encode) (simp_all add: send_data_def)

end
