(* ===== verification/Mpmc_Queue.thy ===== *)
theory Mpmc_Queue
  imports Queue_Interfaces
begin

unbundle bit_operations_syntax

text \<open>
  The bounded queue for many producers and consumers of
  \<open>src/base/bounded-mpmc-queue.h\<close>.  Positions and sequence numbers are 64-bit words; a
  call is a program counter, and each of its loads, stores and compare-exchanges is one
  step, interleaved with those of the other calls (the memory is sequentially
  consistent; the compare-exchange may fail spuriously).  The code casts a sequence number
  and a position to \<open>intptr_t\<close> and subtracts them; an overflow of that signed subtraction is
  undefined and ends the call in the program counter \<open>SignedOverflow\<close>.
\<close>

section \<open>State and steps\<close>

record 'a mpmc =
  mq_seq :: "u64 list"
  mq_data :: "'a option list"
  mq_mask :: u64
  mq_enqueue_pos :: u64
  mq_dequeue_pos :: u64

definition mpmc_bounded_queue :: "nat \<Rightarrow> 'a mpmc" where
  "mpmc_bounded_queue buffer_size =
     \<lparr>mq_seq = map of_nat [0..<buffer_size], mq_data = replicate buffer_size None,
      mq_mask = of_nat buffer_size - 1, mq_enqueue_pos = 0, mq_dequeue_pos = 0\<rparr>"

text \<open>The assertion of the constructor.\<close>

definition size_ok :: "u64 \<Rightarrow> bool" where
  "size_ok buffer_size \<longleftrightarrow> 2 \<le> buffer_size \<and> buffer_size AND (buffer_size - 1) = 0"

datatype 'a mpmc_pc =
    EnqLoad 'a
  | EnqCheck 'a u64
  | EnqCas 'a u64
  | EnqStore 'a u64
  | EnqPublish 'a u64
  | EnqDone bool
  | DeqLoad
  | DeqCheck u64
  | DeqCas u64
  | DeqRead u64
  | DeqRelease u64 'a
  | DeqDone "'a option"
  | SignedOverflow

definition mq_cell :: "'a mpmc \<Rightarrow> u64 \<Rightarrow> nat" where
  "mq_cell q pos = unat (pos AND mq_mask q)"

text \<open>The signed difference the loops branch on; \<open>None\<close> is the undefined overflow.\<close>

definition mq_dif :: "u64 \<Rightarrow> u64 \<Rightarrow> int option" where
  "mq_dif sq pos =
     (let dif = sint sq - sint pos
      in if - (2 ^ 63) \<le> dif \<and> dif < 2 ^ 63 then Some dif else None)"

text \<open>One step of a call of \<open>enqueue\<close>; \<open>weak\<close> lets the compare-exchange fail spuriously.\<close>

definition enqueue_step :: "bool \<Rightarrow> 'a mpmc_pc \<Rightarrow> 'a mpmc \<Rightarrow> 'a mpmc_pc \<times> 'a mpmc" where
  "enqueue_step weak pc q =
     (case pc of
        EnqLoad x \<Rightarrow> (EnqCheck x (mq_enqueue_pos q), q)
      | EnqCheck x pos \<Rightarrow>
          (case mq_dif (mq_seq q ! mq_cell q pos) pos of
             None \<Rightarrow> SignedOverflow
           | Some dif \<Rightarrow> if dif = 0 then EnqCas x pos else if dif < 0 then EnqDone False else EnqLoad x, q)
      | EnqCas x pos \<Rightarrow>
          if mq_enqueue_pos q = pos \<and> \<not> weak
          then (EnqStore x pos, q\<lparr>mq_enqueue_pos := pos + 1\<rparr>)
          else (EnqCheck x (mq_enqueue_pos q), q)
      | EnqStore x pos \<Rightarrow> (EnqPublish x pos, q\<lparr>mq_data := (mq_data q)[mq_cell q pos := Some x]\<rparr>)
      | EnqPublish x pos \<Rightarrow> (EnqDone True, q\<lparr>mq_seq := (mq_seq q)[mq_cell q pos := pos + 1]\<rparr>)
      | _ \<Rightarrow> (pc, q))"

definition dequeue_step :: "bool \<Rightarrow> 'a mpmc_pc \<Rightarrow> 'a mpmc \<Rightarrow> 'a mpmc_pc \<times> 'a mpmc" where
  "dequeue_step weak pc q =
     (case pc of
        DeqLoad \<Rightarrow> (DeqCheck (mq_dequeue_pos q), q)
      | DeqCheck pos \<Rightarrow>
          (case mq_dif (mq_seq q ! mq_cell q pos) (pos + 1) of
             None \<Rightarrow> SignedOverflow
           | Some dif \<Rightarrow> if dif = 0 then DeqCas pos else if dif < 0 then DeqDone None else DeqLoad, q)
      | DeqCas pos \<Rightarrow>
          if mq_dequeue_pos q = pos \<and> \<not> weak
          then (DeqRead pos, q\<lparr>mq_dequeue_pos := pos + 1\<rparr>)
          else (DeqCheck (mq_dequeue_pos q), q)
      | DeqRead pos \<Rightarrow> (DeqRelease pos (the (mq_data q ! mq_cell q pos)), q)
      | DeqRelease pos x \<Rightarrow>
          (DeqDone (Some x), q\<lparr>mq_seq := (mq_seq q)[mq_cell q pos := pos + mq_mask q + 1]\<rparr>)
      | _ \<Rightarrow> (pc, q))"

section \<open>A call without interference\<close>

fun enqueue_alone :: "nat \<Rightarrow> 'a mpmc_pc \<Rightarrow> 'a mpmc \<Rightarrow> (bool \<times> 'a mpmc) option" where
  "enqueue_alone fuel (EnqDone b) q = Some (b, q)"
| "enqueue_alone 0 pc q = None"
| "enqueue_alone (Suc fuel) pc q =
     (case enqueue_step False pc q of (pc', q') \<Rightarrow> enqueue_alone fuel pc' q')"

fun dequeue_alone :: "nat \<Rightarrow> 'a mpmc_pc \<Rightarrow> 'a mpmc \<Rightarrow> ('a option \<times> 'a mpmc) option" where
  "dequeue_alone fuel (DeqDone r) q = Some (r, q)"
| "dequeue_alone 0 pc q = None"
| "dequeue_alone (Suc fuel) pc q =
     (case dequeue_step False pc q of (pc', q') \<Rightarrow> dequeue_alone fuel pc' q')"

text \<open>The two calls, run to completion: five steps are enough, and \<open>None\<close> is a loop
  that does not end or the undefined overflow.\<close>

definition mq_enqueue :: "'a \<Rightarrow> 'a mpmc \<Rightarrow> (bool \<times> 'a mpmc) option" where
  "mq_enqueue x q = enqueue_alone 5 (EnqLoad x) q"

definition mq_dequeue :: "'a mpmc \<Rightarrow> ('a option \<times> 'a mpmc) option" where
  "mq_dequeue q = dequeue_alone 5 DeqLoad q"

section \<open>Words\<close>

lemma unat_and_mask: "unat ((p :: u64) AND (2 ^ k - 1)) = unat p mod 2 ^ k"
proof -
  have "(2 :: u64) ^ k - 1 = mask k" by (simp add: mask_eq_exp_minus_1)
  then show ?thesis by (simp add: take_bit_eq_mask [symmetric] unsigned_take_bit_eq) (simp add: take_bit_eq_mod)
qed

text \<open>The size of the queue and of its counters: a power of two of at least two, far below
  the width of a word.\<close>

definition mq_shape :: "nat \<Rightarrow> 'a mpmc \<Rightarrow> bool" where
  "mq_shape k q \<longleftrightarrow> 1 \<le> k \<and> k \<le> 61 \<and> length (mq_seq q) = 2 ^ k \<and> length (mq_data q) = 2 ^ k \<and>
     mq_mask q = 2 ^ k - 1"

lemma mq_cell_mod: "mq_shape k q \<Longrightarrow> mq_cell q p = unat p mod 2 ^ k"
  by (simp add: mq_shape_def mq_cell_def unat_and_mask)

lemma mq_cell_less: "mq_shape k q \<Longrightarrow> mq_cell q p < 2 ^ k"
  by (simp add: mq_cell_mod)

lemma unat_add_mod: "k \<le> 61 \<Longrightarrow> unat ((a :: u64) + b) mod 2 ^ k = (unat a + unat b) mod 2 ^ k"
proof -
  assume "k \<le> 61"
  then have "(2 :: nat) ^ k dvd 18446744073709551616" using le_imp_power_dvd [of k 64 "2 :: nat"] by simp
  then show ?thesis by (simp add: unat_word_ariths mod_mod_cancel)
qed

lemma unat_of_nat_small: "n < 2 ^ 64 \<Longrightarrow> unat (of_nat n :: u64) = n"
  by (simp add: unat_of_nat take_bit_eq_mod)

lemma mq_cell_add:
  assumes "mq_shape k q"
  shows "mq_cell q (p + of_nat j) = (unat p + j) mod 2 ^ k"
proof -
  have k: "k \<le> 61" using assms by (simp add: mq_shape_def)
  then have "(2 :: nat) ^ k dvd 18446744073709551616" using le_imp_power_dvd [of k 64 "2 :: nat"] by simp
  then have "unat (of_nat j :: u64) mod 2 ^ k = j mod 2 ^ k"
    by (simp add: unat_of_nat take_bit_eq_mod mod_mod_cancel)
  then show ?thesis
    using unat_add_mod [OF k, of p "of_nat j"] by (simp add: mq_cell_mod [OF assms]) (metis mod_add_right_eq)
qed

lemma pow61: "k \<le> 61 \<Longrightarrow> (2 :: nat) ^ k \<le> 2 ^ 61"
  by (rule power_increasing) auto

section \<open>The queue between calls\<close>

definition mq_count :: "'a mpmc \<Rightarrow> nat" where
  "mq_count q = unat (mq_enqueue_pos q - mq_dequeue_pos q)"

text \<open>The cells from the dequeue position on: first those that hold an element, with the
  sequence number one above their position, then the free ones.\<close>

definition mq_ok :: "nat \<Rightarrow> 'a mpmc \<Rightarrow> bool" where
  "mq_ok k q \<longleftrightarrow> mq_shape k q \<and> mq_count q \<le> 2 ^ k \<and>
     (\<forall>j < 2 ^ k.
        let p = mq_dequeue_pos q + of_nat j; i = (unat (mq_dequeue_pos q) + j) mod 2 ^ k
        in if j < mq_count q then mq_seq q ! i = p + 1 \<and> mq_data q ! i \<noteq> None
           else mq_seq q ! i = p)"

definition mq_list :: "'a mpmc \<Rightarrow> 'a list" where
  "mq_list q = map the (ring_elems (mq_data q) (unat (mq_dequeue_pos q)) (mq_count q))"

lemma mq_enq_pos: "mq_enqueue_pos q = mq_dequeue_pos q + of_nat (mq_count q)"
  by (simp add: mq_count_def)

text \<open>The largest sequence number in the queue is the dequeue position plus the size.  The
  room is the number of further elements that may be taken out before it leaves the signed
  range.\<close>

definition mq_room :: "nat \<Rightarrow> nat \<Rightarrow> 'a mpmc \<Rightarrow> bool" where
  "mq_room k n q \<longleftrightarrow> sint (mq_dequeue_pos q) + 2 ^ k + int n \<le> 2 ^ 63"

lemma mq_room_next: "mq_room k (Suc n) q \<Longrightarrow> sint (mq_dequeue_pos q) + int 1 < 2 ^ 63"
  using one_le_power [of "2 :: int" k] unfolding mq_room_def by linarith

lemma sint_range: "- (2 ^ 63) \<le> sint (w :: u64)" "sint (w :: u64) < 2 ^ 63"
  using sint_ge [of w] sint_lt [of w] by simp_all

lemma sint_add_small:
  fixes p :: u64
  assumes "sint p + int j < 2 ^ 63"
  shows "sint (p + of_nat j) = sint p + int j"
proof -
  have "sint (p + of_nat j) = sint (word_of_int (sint p + int j) :: u64)" by simp
  also have "\<dots> = signed_take_bit 63 (sint p + int j)" by (simp only: signed_of_int) simp
  also have "\<dots> = sint p + int j"
    using assms sint_range(1) [of p] by (intro signed_take_bit_int_eq_self) auto
  finally show ?thesis .
qed

lemma mq_dif_add:
  assumes "sint p + int i < 2 ^ 63" "sint p + int j < 2 ^ 63" "i < 2 ^ 62" "j < 2 ^ 62"
  shows "mq_dif (p + of_nat i) (p + of_nat j) = Some (int i - int j)"
proof -
  have "int i < 2 ^ 62" "int j < 2 ^ 62" using assms(3,4) by simp_all
  then show ?thesis unfolding mq_dif_def Let_def sint_add_small [OF assms(1)] sint_add_small [OF assms(2)] by simp
qed

lemma mq_countI:
  "mq_enqueue_pos q - mq_dequeue_pos q = of_nat n \<Longrightarrow> n < 2 ^ 64 \<Longrightarrow> mq_count q = n"
  by (simp only: mq_count_def unat_of_nat_small)

lemma mq_okD:
  assumes "mq_ok k q"
  shows "mq_shape k q" "mq_count q \<le> 2 ^ k"
    "\<And>j. j < mq_count q \<Longrightarrow> mq_seq q ! ((unat (mq_dequeue_pos q) + j) mod 2 ^ k) = mq_dequeue_pos q + of_nat j + 1
       \<and> mq_data q ! ((unat (mq_dequeue_pos q) + j) mod 2 ^ k) \<noteq> None"
    "\<And>j. mq_count q \<le> j \<Longrightarrow> j < 2 ^ k \<Longrightarrow>
       mq_seq q ! ((unat (mq_dequeue_pos q) + j) mod 2 ^ k) = mq_dequeue_pos q + of_nat j"
  using assms by (auto simp: mq_ok_def Let_def)

lemma five: "(5 :: nat) = Suc (Suc (Suc (Suc (Suc 0))))" by simp

lemma mq_dif_same [simp]: "mq_dif p p = Some 0"
  by (simp add: mq_dif_def)

lemma enqueue_full:
  assumes "mq_ok k q" "mq_count q = 2 ^ k" "mq_room k (Suc n) q"
  shows "mq_enqueue x q = Some (False, q)"
proof -
  note ok = mq_okD [OF assms(1)]
  have k: "1 \<le> k" "k \<le> 61" using ok(1) by (simp_all add: mq_shape_def)
  have c: "mq_cell q (mq_enqueue_pos q) = unat (mq_dequeue_pos q) mod 2 ^ k"
    using mq_cell_add [OF ok(1), of "mq_dequeue_pos q" "2 ^ k"] by (simp add: mq_enq_pos assms(2))
  have "mq_seq q ! mq_cell q (mq_enqueue_pos q) = mq_dequeue_pos q + 1"
    using ok(3) [of 0] assms(2) by (simp add: c)
  moreover have "mq_dif (mq_dequeue_pos q + of_nat 1) (mq_dequeue_pos q + of_nat (2 ^ k)) = Some (int 1 - int (2 ^ k))"
    using assms(3) pow61 [OF k(2)] power_increasing [of 1 k "2 :: int"] k
    by (intro mq_dif_add) (auto simp: mq_room_def)
  moreover have "(2 :: int) ^ 1 \<le> 2 ^ k" using k by (intro power_increasing) auto
  ultimately show ?thesis
    by (simp add: mq_enqueue_def five enqueue_step_def mq_enq_pos [of q] assms(2))
qed

lemma enqueue_room:
  assumes "mq_ok k q" "mq_count q < 2 ^ k"
  defines "i \<equiv> (unat (mq_dequeue_pos q) + mq_count q) mod 2 ^ k"
  shows "mq_enqueue x q = Some (True, q\<lparr>mq_enqueue_pos := mq_enqueue_pos q + 1,
    mq_data := (mq_data q)[i := Some x], mq_seq := (mq_seq q)[i := mq_enqueue_pos q + 1]\<rparr>)"
proof -
  note ok = mq_okD [OF assms(1)]
  have c: "mq_cell q (mq_enqueue_pos q) = i"
    using mq_cell_add [OF ok(1)] by (simp add: mq_enq_pos [of q] i_def)
  have s: "mq_seq q ! i = mq_enqueue_pos q"
    using ok(4) [OF order_refl assms(2)] by (simp add: i_def mq_enq_pos [of q])
  have c': "mq_cell (q\<lparr>mq_enqueue_pos := p\<rparr>) r = mq_cell q r" "mq_cell (q\<lparr>mq_enqueue_pos := p, mq_data := d\<rparr>) r = mq_cell q r"
    for p d r by (simp_all add: mq_cell_def)
  show ?thesis by (simp add: mq_enqueue_def five enqueue_step_def c c' s)
qed

lemma dequeue_empty:
  assumes "mq_ok k q" "mq_count q = 0" "mq_room k (Suc n) q"
  shows "mq_dequeue q = Some (None, q)"
proof -
  note ok = mq_okD [OF assms(1)]
  have "mq_seq q ! mq_cell q (mq_dequeue_pos q) = mq_dequeue_pos q"
    using ok(4) [of 0] assms(2) by (simp add: mq_cell_mod [OF ok(1)])
  moreover have "mq_dif (mq_dequeue_pos q + of_nat 0) (mq_dequeue_pos q + of_nat 1) = Some (int 0 - int 1)"
    using mq_room_next [OF assms(3)] by (intro mq_dif_add) auto
  ultimately show ?thesis by (simp add: mq_dequeue_def five dequeue_step_def)
qed

lemma dequeue_some:
  assumes "mq_ok k q" "0 < mq_count q"
  defines "i \<equiv> unat (mq_dequeue_pos q) mod 2 ^ k"
  shows "mq_dequeue q = Some (Some (the (mq_data q ! i)),
    q\<lparr>mq_dequeue_pos := mq_dequeue_pos q + 1, mq_seq := (mq_seq q)[i := mq_dequeue_pos q + 2 ^ k]\<rparr>)"
proof -
  note ok = mq_okD [OF assms(1)]
  have c: "mq_cell q (mq_dequeue_pos q) = i" by (simp add: mq_cell_mod [OF ok(1)] i_def)
  have s: "mq_seq q ! i = mq_dequeue_pos q + 1" using ok(3) [OF assms(2)] by (simp add: i_def)
  have c': "mq_cell (q\<lparr>mq_dequeue_pos := p\<rparr>) r = mq_cell q r" for p r by (simp add: mq_cell_def)
  have m: "p + mq_mask q + 1 = p + 2 ^ k" for p using ok(1) by (simp add: mq_shape_def)
  show ?thesis by (simp add: mq_dequeue_def five dequeue_step_def c c' s m)
qed

lemma count_less: "mq_ok k q \<Longrightarrow> mq_count q < 2 ^ 62"
  using mq_okD(1,2) [of k q] pow61 [of k] by (auto simp: mq_shape_def)

lemma enqueue_ok:
  fixes x :: 'a and q :: "'a mpmc"
  assumes "mq_ok k q" "mq_count q < 2 ^ k"
  defines "i \<equiv> (unat (mq_dequeue_pos q) + mq_count q) mod 2 ^ k"
  defines "q' \<equiv> q\<lparr>mq_enqueue_pos := mq_enqueue_pos q + 1,
    mq_data := (mq_data q)[i := Some x], mq_seq := (mq_seq q)[i := mq_enqueue_pos q + 1]\<rparr>"
  shows "mq_ok k q' \<and> mq_list q' = mq_list q @ [x]"
proof -
  note ok = mq_okD [OF assms(1)]
  have len: "length (mq_data q) = 2 ^ k" "length (mq_seq q) = 2 ^ k" "mq_shape k q'"
    using ok(1) by (auto simp: mq_shape_def q'_def)
  have "mq_enqueue_pos q + 1 - mq_dequeue_pos q = of_nat (mq_count q + 1)" by (simp add: mq_enq_pos [of q])
  then have n: "mq_count q' = Suc (mq_count q)"
    using count_less [OF assms(1)] by (intro mq_countI) (auto simp: q'_def)
  have "mq_ok k q'"
    unfolding mq_ok_def Let_def
  proof (intro conjI allI impI)
    show "mq_shape k q'" "mq_count q' \<le> 2 ^ k" using len n assms(2) by auto
    fix j :: nat assume j: "j < 2 ^ k"
    let ?d = "(unat (mq_dequeue_pos q) + j) mod 2 ^ k"
    have "?d = i \<longleftrightarrow> j = mq_count q"
      unfolding i_def using mod_add_inject [of j "2 ^ k" "mq_count q"] j assms(2) by auto
    then have s: "mq_seq q' ! ?d = (if j = mq_count q then mq_enqueue_pos q + 1 else mq_seq q ! ?d)"
      "mq_data q' ! ?d = (if j = mq_count q then Some x else mq_data q ! ?d)"
      using len by (auto simp: q'_def nth_list_update i_def)
    have "mq_dequeue_pos q' = mq_dequeue_pos q" by (simp add: q'_def)
    then show "if j < mq_count q' then mq_seq q' ! ((unat (mq_dequeue_pos q') + j) mod 2 ^ k) =
          mq_dequeue_pos q' + of_nat j + 1 \<and> mq_data q' ! ((unat (mq_dequeue_pos q') + j) mod 2 ^ k) \<noteq> None
        else mq_seq q' ! ((unat (mq_dequeue_pos q') + j) mod 2 ^ k) = mq_dequeue_pos q' + of_nat j"
      using s ok(3,4) [of j] j by (auto simp: n less_Suc_eq mq_enq_pos [of q])
  qed
  moreover have "mq_list q' = mq_list q @ [x]"
    using ring_elems_snoc [of "mq_count q" "mq_data q" "unat (mq_dequeue_pos q)" "Some x"] assms(2) len
    by (simp add: mq_list_def n) (simp add: q'_def i_def)
  ultimately show ?thesis by simp
qed

lemma dequeue_ok:
  fixes q :: "'a mpmc"
  assumes "mq_ok k q" "0 < mq_count q"
  defines "i \<equiv> unat (mq_dequeue_pos q) mod 2 ^ k"
  defines "q' \<equiv> q\<lparr>mq_dequeue_pos := mq_dequeue_pos q + 1, mq_seq := (mq_seq q)[i := mq_dequeue_pos q + 2 ^ k]\<rparr>"
  shows "mq_ok k q' \<and> mq_list q = the (mq_data q ! i) # mq_list q'"
proof -
  note ok = mq_okD [OF assms(1)]
  have k: "k \<le> 61" using ok(1) by (simp add: mq_shape_def)
  have len: "length (mq_data q) = 2 ^ k" "length (mq_seq q) = 2 ^ k" "mq_shape k q'"
    using ok(1) by (auto simp: mq_shape_def q'_def)
  obtain n where n: "mq_count q = Suc n" using assms(2) gr0_conv_Suc by auto
  have "mq_enqueue_pos q - (mq_dequeue_pos q + 1) = of_nat n" by (simp add: mq_enq_pos [of q] n)
  then have n': "mq_count q' = n"
    using count_less [OF assms(1)] n by (intro mq_countI) (auto simp: q'_def)
  have dp: "mq_dequeue_pos q' = mq_dequeue_pos q + 1" "mq_data q' = mq_data q" by (simp_all add: q'_def)
  have ix: "(unat (mq_dequeue_pos q + 1) + j) mod 2 ^ k = (unat (mq_dequeue_pos q) + Suc j) mod 2 ^ k" for j
    using unat_add_mod [OF k, of "mq_dequeue_pos q" 1] by (simp) (metis mod_add_left_eq add_Suc)
  have "mq_ok k q'"
    unfolding mq_ok_def Let_def
  proof (intro conjI allI impI)
    show "mq_shape k q'" "mq_count q' \<le> 2 ^ k" using len n n' ok(2) by auto
    fix j :: nat assume j: "j < 2 ^ k"
    let ?d = "(unat (mq_dequeue_pos q) + Suc j) mod 2 ^ k"
    have "?d = i \<longleftrightarrow> Suc j = 2 ^ k"
    proof
      assume "?d = i"
      then show "Suc j = 2 ^ k"
        using mod_add_inject [of "Suc j" "2 ^ k" 0 "unat (mq_dequeue_pos q)"] j by (fastforce simp: i_def)
    next
      assume "Suc j = 2 ^ k"
      then show "?d = i" by (simp only: i_def mod_add_self2)
    qed
    then have s: "mq_seq q' ! ?d = (if Suc j = 2 ^ k then mq_dequeue_pos q + 2 ^ k else mq_seq q ! ?d)"
      using len by (auto simp: q'_def nth_list_update i_def)
    have w: "(2 :: u64) ^ k = of_nat j + 1" if "Suc j = 2 ^ k"
      using arg_cong [OF that, of "of_nat :: nat \<Rightarrow> u64"] by (simp add: add.commute)
    show "if j < mq_count q' then mq_seq q' ! ((unat (mq_dequeue_pos q') + j) mod 2 ^ k) =
          mq_dequeue_pos q' + of_nat j + 1 \<and> mq_data q' ! ((unat (mq_dequeue_pos q') + j) mod 2 ^ k) \<noteq> None
        else mq_seq q' ! ((unat (mq_dequeue_pos q') + j) mod 2 ^ k) = mq_dequeue_pos q' + of_nat j"
      unfolding n' dp ix s
      using ok(3,4) [of "Suc j"] ok(2) j n w by (auto simp: algebra_simps)
  qed
  moreover have "ring_elems (mq_data q) (Suc (unat (mq_dequeue_pos q))) n =
      ring_elems (mq_data q) (unat (mq_dequeue_pos q + 1)) n"
    using ix len by (simp add: ring_elems_def)
  then have "mq_list q = the (mq_data q ! i) # mq_list q'"
    using ring_elems_Cons [of "mq_data q" "unat (mq_dequeue_pos q)" n] len
    by (simp add: mq_list_def n n' dp i_def)
  ultimately show ?thesis by simp
qed

section \<open>The contract of a bounded queue\<close>

definition mq_put :: "'a \<Rightarrow> 'a mpmc \<Rightarrow> 'a mpmc option" where
  "mq_put x q = (case mq_enqueue x q of Some (True, q') \<Rightarrow> Some q' | _ \<Rightarrow> None)"

definition mq_get :: "'a mpmc \<Rightarrow> ('a \<times> 'a mpmc) option" where
  "mq_get q = (case mq_dequeue q of Some (Some x, q') \<Rightarrow> Some (x, q') | _ \<Rightarrow> None)"

lemma length_mq_list [simp]: "length (mq_list q) = mq_count q"
  by (simp add: mq_list_def)

lemma mq_room_fewer: "mq_room k (Suc n) q \<Longrightarrow> mq_room k n q"
  by (simp add: mq_room_def)

lemma mq_room_dequeue:
  assumes "mq_room k (Suc n) q"
  shows "mq_room k n (q\<lparr>mq_dequeue_pos := mq_dequeue_pos q + 1, mq_seq := s\<rparr>)"
proof -
  have "sint (mq_dequeue_pos q + of_nat 1) = sint (mq_dequeue_pos q) + int 1"
    by (rule sint_add_small [OF mq_room_next [OF assms]])
  then show ?thesis using assms by (simp add: mq_room_def)
qed

interpretation mq: limited_fifo "\<lambda>n q. mq_ok k q \<and> mq_room k n q" mq_list "\<lambda>q. 2 ^ k" mq_put mq_get for k
proof unfold_locales
  fix q :: "'a mpmc" and x :: 'a and xs n
  show "length (mq_list q) \<le> 2 ^ k" if "mq_ok k q \<and> mq_room k n q" using mq_okD(2) [of k q] that by simp
  assume "mq_ok k q \<and> mq_room k (Suc n) q"
  then have q: "mq_ok k q" and room: "mq_room k (Suc n) q" by auto
  show "mq_ok k q \<and> mq_room k n q" using q mq_room_fewer [OF room] by simp
  show "length (mq_list q) = 2 ^ k \<Longrightarrow> mq_put x q = None"
    using enqueue_full [OF q _ room] by (simp add: mq_put_def)
  show "length (mq_list q) < 2 ^ k \<Longrightarrow> \<exists>q'. mq_put x q = Some q' \<and> (mq_ok k q' \<and> mq_room k n q') \<and>
      mq_list q' = mq_list q @ [x] \<and> (2 :: nat) ^ k = 2 ^ k"
    using enqueue_room [OF q] enqueue_ok [OF q] mq_room_fewer [OF room]
    by (simp add: mq_put_def) (simp add: mq_room_def)
  show "mq_list q = [] \<Longrightarrow> mq_get q = None"
    using dequeue_empty [OF q _ room] length_mq_list [of q] by (simp add: mq_get_def)
  assume l: "mq_list q = x # xs"
  then have "0 < mq_count q" using length_mq_list [of q] by simp
  from dequeue_some [OF q this] dequeue_ok [OF q this] mq_room_dequeue [OF room] l
  show "\<exists>q'. mq_get q = Some (x, q') \<and> (mq_ok k q' \<and> mq_room k n q') \<and> mq_list q' = xs \<and> (2 :: nat) ^ k = 2 ^ k"
    by (simp add: mq_get_def)
qed

lemma size_ok_power: "1 \<le> k \<Longrightarrow> k \<le> 61 \<Longrightarrow> size_ok (2 ^ k)"
proof -
  assume k: "1 \<le> k" "k \<le> 61"
  have "unat ((2 :: u64) ^ k) = 2 ^ k" using k pow61 [of k] unat_of_nat_small [of "2 ^ k"] by simp
  then have "unat ((2 :: u64) ^ k AND (2 ^ k - 1)) = 0" "2 \<le> unat ((2 :: u64) ^ k)"
    using k power_increasing [of 1 k "2 :: nat"] by (auto simp: unat_and_mask)
  then show ?thesis by (simp add: size_ok_def unat_eq_zero word_le_nat_alt)
qed

lemma fresh_mq_ok: "1 \<le> k \<Longrightarrow> k \<le> 61 \<Longrightarrow> mq_ok k (mpmc_bounded_queue (2 ^ k)) \<and> mq_list (mpmc_bounded_queue (2 ^ k)) = []"
  by (simp add: mq_ok_def mq_shape_def mpmc_bounded_queue_def mq_count_def mq_list_def Let_def)

lemma fresh_mq_room: "k \<le> 61 \<Longrightarrow> n \<le> 2 ^ 62 \<Longrightarrow> mq_room k n (mpmc_bounded_queue (2 ^ k))"
proof -
  assume k: "k \<le> 61" "n \<le> 2 ^ 62"
  have "(2 :: int) ^ k \<le> 2 ^ 61" using k(1) by (intro power_increasing) auto
  moreover have "int n \<le> 2 ^ 62" using k(2) by simp
  ultimately show ?thesis by (simp add: mq_room_def mpmc_bounded_queue_def)
qed

text \<open>The signed subtraction overflows when the positions cross \<open>2 ^ 63\<close>: a dequeue on the empty
  queue whose next position is the first one that is negative as an \<open>intptr_t\<close> has no defined
  behaviour, instead of reporting that the queue is empty.\<close>

lemma dequeue_signed_overflow:
  assumes "mq_ok k q" "mq_count q = 0" "mq_dequeue_pos q = 2 ^ 63 - 1"
  shows "mq_dequeue q = None"
proof -
  note ok = mq_okD [OF assms(1)]
  have "mq_seq q ! mq_cell q (mq_dequeue_pos q) = mq_dequeue_pos q"
    using ok(4) [of 0] assms(2) by (simp add: mq_cell_mod [OF ok(1)])
  moreover have "mq_dif (2 ^ 63 - 1) (2 ^ 63 - 1 + 1) = None" by (simp add: mq_dif_def)
  ultimately show ?thesis by (simp add: mq_dequeue_def five dequeue_step_def assms(3))
qed

text \<open>C14: Run one call after the other, the queue is a first-in first-out queue that holds as
  many elements as it has cells, as long as the positions do not cross \<open>2 ^ 63\<close>, where the
  signed subtraction of the code overflows (as signed numbers, the dequeue position plus the
  size plus the number of calls stays within the range; from a new queue that is true of the
  first \<open>2 ^ 62\<close> calls).  Over every such sequence of calls from any state between calls, what was
  taken out followed by what is inside is what was inside followed by what was accepted;
  afterwards both calls return, the enqueue with true exactly when there is a free cell, the
  dequeue with the front if there is one.
\<close>

theorem mpmc_fifo:
  assumes "mq_ok k q" "mq_room k (length ops + 1) q" "bounded_run mq_put mq_get ops q = (ins, outs, r)"
  shows "mq_ok k r \<and> outs @ mq_list r = mq_list q @ ins \<and>
    (\<exists>r'. mq_enqueue x r = Some (length (mq_list r) < 2 ^ k, r')) \<and>
    (\<exists>r'. mq_dequeue r = Some (if mq_list r = [] then None else Some (hd (mq_list r)), r'))"
proof -
  have r: "mq_ok k r" "mq_room k (Suc 0) r" "outs @ mq_list r = mq_list q @ ins"
    using mq.limited_run_conserves [where ops = ops and n = "Suc 0" and q = q] assms by auto
  have "\<exists>r'. mq_enqueue x r = Some (length (mq_list r) < 2 ^ k, r')"
    using enqueue_full [OF r(1) _ r(2)] enqueue_room [OF r(1)] mq_okD(2) [OF r(1)]
    by (cases "mq_count r = 2 ^ k") auto
  moreover have "\<exists>r'. mq_dequeue r = Some (if mq_list r = [] then None else Some (hd (mq_list r)), r')"
    using dequeue_empty [OF r(1) _ r(2)] dequeue_some [OF r(1)] dequeue_ok [OF r(1)] length_mq_list [of r]
    by (cases "mq_count r = 0") (auto simp del: length_mq_list)
  ultimately show ?thesis using r by blast
qed

text \<open>A queue of two cells whose unsigned counters are about to wrap around; as signed numbers
  they go from \<open>-2\<close> to \<open>1\<close>, which does not overflow.\<close>

definition mq_wrapping :: "nat mpmc" where
  "mq_wrapping = \<lparr>mq_seq = [-2, -1], mq_data = [None, None], mq_mask = 1,
     mq_enqueue_pos = -2, mq_dequeue_pos = -2\<rparr>"

lemmas mq_eval = mq_put_def mq_get_def mq_enqueue_def mq_dequeue_def five enqueue_step_def dequeue_step_def
  mq_dif_def mq_cell_def

lemma mq_wrapping_ok: "mq_ok 1 mq_wrapping" "mq_list mq_wrapping = []"
  by (auto simp: mq_ok_def mq_wrapping_def mq_shape_def mq_count_def mq_list_def less_2_cases_iff Let_def)

lemma mq_wrapping_room: "mq_room 1 (length [Put 1, Put 2, Put 3, Get, Put 4, Get :: nat queue_op] + 1) mq_wrapping"
  by (simp add: mq_room_def mq_wrapping_def)

theorem mpmc_fifo_witness:
  "\<exists>r. bounded_run mq_put mq_get [Put 1, Put 2, Put 3, Get, Put 4, Get] mq_wrapping = ([1, 2, 4], [1, 2], r) \<and>
     mq_enqueue_pos r = 1 \<and> mq_ok 1 r \<and> mq_list r = [4] \<and> (\<exists>r'. mq_dequeue r = Some (Some 4, r'))"
proof -
  obtain ins outs r where run:
    "bounded_run mq_put mq_get [Put 1, Put 2, Put 3, Get, Put 4, Get] mq_wrapping = (ins, outs, r)"
    by (cases "bounded_run mq_put mq_get [Put 1, Put 2, Put 3, Get, Put 4, Get] mq_wrapping") auto
  moreover have "bounded_run mq_put mq_get [Put 1, Put 2, Put 3, Get, Put 4, Get] mq_wrapping =
      ([1, 2, 4], [1, 2], \<lparr>mq_seq = [1, 1], mq_data = [Some 4, Some 2], mq_mask = 1,
         mq_enqueue_pos = 1, mq_dequeue_pos = 0\<rparr>)"
    by (simp add: mq_wrapping_def mq_eval)
  ultimately show ?thesis
    using mpmc_fifo [OF mq_wrapping_ok(1) mq_wrapping_room run, of 0] mq_wrapping_ok(2) by auto
qed

end
