(* ===== verification/Mpmc_Concurrent.thy ===== *)
theory Mpmc_Concurrent
  imports Mpmc_Queue
begin

text \<open>
  Any number of threads calling \<open>enqueue\<close> and \<open>dequeue\<close> of
  \<open>src/base/bounded-mpmc-queue.h\<close> at once.  A state has the shared queue and the program
  counter of each thread's call; two ghost fields record the accepted elements in the order
  of their tickets (the values of \<open>enqueue_pos_\<close> the compare-exchanges won) and the
  deliveries.  The invariant ties each cell's sequence number to the tickets.  It is shown
  for runs that accept fewer than \<open>2 ^ 62\<close> elements: a thread that sleeps while the
  counters go round once would win a compare-exchange on a cell it has not checked, and the
  signed subtraction of the code overflows when the positions cross \<open>2 ^ 63\<close>.
\<close>

section \<open>Threads\<close>

record 'a mpmc_sys =
  mq_shared :: "'a mpmc"
  mq_calls :: "'a mpmc_pc list"
  mq_accepted :: "'a list"
  mq_delivered :: "(nat \<times> 'a) list"

fun enq_ticket :: "'a mpmc_pc \<Rightarrow> nat option" where
  "enq_ticket (EnqStore x p) = Some (unat p)"
| "enq_ticket (EnqPublish x p) = Some (unat p)"
| "enq_ticket _ = None"

fun deq_ticket :: "'a mpmc_pc \<Rightarrow> nat option" where
  "deq_ticket (DeqRead p) = Some (unat p)"
| "deq_ticket (DeqRelease p x) = Some (unat p)"
| "deq_ticket _ = None"

fun call_done :: "'a mpmc_pc \<Rightarrow> bool" where
  "call_done (EnqDone b) = True"
| "call_done (DeqDone r) = True"
| "call_done _ = False"

text \<open>The next step of a call, with the element it gets accepted and the one it delivers.\<close>

definition call_step ::
  "bool \<Rightarrow> 'a mpmc_pc \<Rightarrow> 'a mpmc \<Rightarrow> 'a mpmc_pc \<times> 'a mpmc \<times> 'a list \<times> (nat \<times> 'a) list" where
  "call_step weak pc q =
     (case dequeue_step weak (fst (enqueue_step weak pc q)) (snd (enqueue_step weak pc q)) of
        (pc', q') \<Rightarrow>
          (pc', q',
           (case pc' of EnqStore x p \<Rightarrow> [x] | _ \<Rightarrow> []),
           (case pc of DeqRelease p x \<Rightarrow> [(unat p, x)] | _ \<Rightarrow> [])))"

inductive mq_step :: "'a mpmc_sys \<Rightarrow> 'a mpmc_sys \<Rightarrow> bool" where
  call_enqueue: "i < length (mq_calls s) \<Longrightarrow> call_done (mq_calls s ! i) \<Longrightarrow>
    mq_step s (s\<lparr>mq_calls := (mq_calls s)[i := EnqLoad x]\<rparr>)"
| call_dequeue: "i < length (mq_calls s) \<Longrightarrow> call_done (mq_calls s ! i) \<Longrightarrow>
    mq_step s (s\<lparr>mq_calls := (mq_calls s)[i := DeqLoad]\<rparr>)"
| advance: "i < length (mq_calls s) \<Longrightarrow> call_step weak (mq_calls s ! i) (mq_shared s) = (pc, q, acc, del) \<Longrightarrow>
    mq_step s (s\<lparr>mq_shared := q, mq_calls := (mq_calls s)[i := pc],
      mq_accepted := mq_accepted s @ acc, mq_delivered := mq_delivered s @ del\<rparr>)"

definition mq_start :: "nat \<Rightarrow> nat \<Rightarrow> 'a mpmc_sys" where
  "mq_start k threads = \<lparr>mq_shared = mpmc_bounded_queue (2 ^ k),
     mq_calls = replicate threads (EnqDone False), mq_accepted = [], mq_delivered = []\<rparr>"

inductive mq_reach :: "nat \<Rightarrow> nat \<Rightarrow> 'a mpmc_sys \<Rightarrow> bool" for k threads where
  start: "mq_reach k threads (mq_start k threads)"
| step: "mq_reach k threads s \<Longrightarrow> mq_step s t \<Longrightarrow> mq_reach k threads t"

section \<open>The invariant\<close>

text \<open>A cell either waits for a ticket, which is then its sequence number, or holds the
  element of the ticket one below its sequence number.\<close>

definition cell_ok :: "nat \<Rightarrow> nat \<Rightarrow> 'a list \<Rightarrow> nat \<Rightarrow> nat \<Rightarrow> 'a option \<Rightarrow> bool" where
  "cell_ok k D hist i sq d \<longleftrightarrow>
     (sq mod 2 ^ k = i \<and> D \<le> sq \<and> sq < D + 2 ^ k \<and> length hist \<le> sq + 2 ^ k) \<or>
     (\<exists>t. sq = Suc t \<and> t mod 2 ^ k = i \<and> t < length hist \<and> length hist \<le> t + 2 ^ k \<and> d = Some (hist ! t))"

definition cells_ok :: "nat \<Rightarrow> 'a mpmc \<Rightarrow> 'a list \<Rightarrow> bool" where
  "cells_ok k q hist \<longleftrightarrow> mq_shape k q \<and> unat (mq_enqueue_pos q) = length hist \<and>
     unat (mq_dequeue_pos q) \<le> length hist \<and> length hist \<le> unat (mq_dequeue_pos q) + 2 ^ k \<and>
     (\<forall>i < 2 ^ k. cell_ok k (unat (mq_dequeue_pos q)) hist i (unat (mq_seq q ! i)) (mq_data q ! i))"

text \<open>What a thread knows at each point of its call.\<close>

definition seq_at :: "'a mpmc \<Rightarrow> u64 \<Rightarrow> nat" where
  "seq_at q p = unat (mq_seq q ! mq_cell q p)"

fun call_ok :: "'a mpmc \<Rightarrow> 'a list \<Rightarrow> 'a mpmc_pc \<Rightarrow> bool" where
  "call_ok q hist (EnqCheck x p) \<longleftrightarrow> unat p \<le> length hist"
| "call_ok q hist (EnqCas x p) \<longleftrightarrow> unat p \<le> length hist \<and> (unat p = length hist \<longrightarrow> seq_at q p = unat p)"
| "call_ok q hist (EnqStore x p) \<longleftrightarrow> unat p < length hist \<and> hist ! unat p = x \<and> seq_at q p = unat p"
| "call_ok q hist (EnqPublish x p) \<longleftrightarrow> unat p < length hist \<and> hist ! unat p = x \<and> seq_at q p = unat p \<and>
     mq_data q ! mq_cell q p = Some x"
| "call_ok q hist (DeqCheck p) \<longleftrightarrow> unat p \<le> unat (mq_dequeue_pos q)"
| "call_ok q hist (DeqCas p) \<longleftrightarrow> unat p \<le> unat (mq_dequeue_pos q) \<and>
     (unat p = unat (mq_dequeue_pos q) \<longrightarrow> seq_at q p = Suc (unat p))"
| "call_ok q hist (DeqRead p) \<longleftrightarrow> unat p < unat (mq_dequeue_pos q) \<and> seq_at q p = Suc (unat p)"
| "call_ok q hist (DeqRelease p x) \<longleftrightarrow> unat p < unat (mq_dequeue_pos q) \<and> seq_at q p = Suc (unat p) \<and>
     x = hist ! unat p"
| "call_ok q hist SignedOverflow \<longleftrightarrow> False"
| "call_ok q hist _ \<longleftrightarrow> True"

definition tickets_unique :: "('a mpmc_pc \<Rightarrow> nat option) \<Rightarrow> 'a mpmc_pc list \<Rightarrow> bool" where
  "tickets_unique f cs \<longleftrightarrow> (\<forall>i < length cs. \<forall>j < length cs. i \<noteq> j \<longrightarrow> f (cs ! i) \<noteq> None \<longrightarrow> f (cs ! i) \<noteq> f (cs ! j))"

text \<open>Every ticket below the dequeue position has been delivered or is in the hands of one
  consumer.\<close>

definition delivered_ok :: "nat \<Rightarrow> 'a list \<Rightarrow> 'a mpmc_pc list \<Rightarrow> (nat \<times> 'a) list \<Rightarrow> bool" where
  "delivered_ok D hist cs out \<longleftrightarrow> distinct (map fst out) \<and> (\<forall>(t, x) \<in> set out. t < D \<and> x = hist ! t) \<and>
     (\<forall>t < D. t \<in> fst ` set out \<longleftrightarrow> \<not> (\<exists>i < length cs. deq_ticket (cs ! i) = Some t))"

definition mq_inv :: "nat \<Rightarrow> 'a mpmc_sys \<Rightarrow> bool" where
  "mq_inv k s \<longleftrightarrow> cells_ok k (mq_shared s) (mq_accepted s) \<and>
     (\<forall>i < length (mq_calls s). call_ok (mq_shared s) (mq_accepted s) (mq_calls s ! i)) \<and>
     tickets_unique enq_ticket (mq_calls s) \<and> tickets_unique deq_ticket (mq_calls s) \<and>
     delivered_ok (unat (mq_dequeue_pos (mq_shared s))) (mq_accepted s) (mq_calls s) (mq_delivered s)"

section \<open>Sequence numbers and tickets\<close>

lemma Suc_mod_neq:
  assumes "1 \<le> k"
  shows "Suc t mod 2 ^ k \<noteq> t mod 2 ^ k"
proof -
  have "(2 :: nat) \<le> 2 ^ k" using power_increasing [of 1 k "2 :: nat"] assms by simp
  then show ?thesis by (auto simp: mod_Suc)
qed

lemma cell_ok_waiting:
  "cell_ok k D hist (sq mod 2 ^ k) sq d \<Longrightarrow> 1 \<le> k \<Longrightarrow> D \<le> sq \<and> sq < D + 2 ^ k \<and> length hist \<le> sq + 2 ^ k"
  using Suc_mod_neq [of k "sq - 1"] by (auto simp: cell_ok_def)

lemma cell_ok_full:
  "cell_ok k D hist (t mod 2 ^ k) (Suc t) d \<Longrightarrow> 1 \<le> k \<Longrightarrow>
     t < length hist \<and> length hist \<le> t + 2 ^ k \<and> d = Some (hist ! t)"
  using Suc_mod_neq [of k t] by (auto simp: cell_ok_def)

lemma cell_ok_grow:
  assumes "cell_ok k D hist i sq d" "\<And>t. t mod 2 ^ k = i \<Longrightarrow> length hist \<noteq> t + 2 ^ k"
  shows "cell_ok k D (hist @ [x]) i sq d"
proof (cases "sq mod 2 ^ k = i \<and> D \<le> sq \<and> sq < D + 2 ^ k \<and> length hist \<le> sq + 2 ^ k")
  case True
  then show ?thesis using assms(2) [of sq] by (simp add: cell_ok_def)
next
  case False
  then obtain t where "sq = Suc t" "t mod 2 ^ k = i" "t < length hist" "length hist \<le> t + 2 ^ k" "d = Some (hist ! t)"
    using assms(1) by (auto simp: cell_ok_def)
  then show ?thesis using assms(2) [of t] by (auto simp: cell_ok_def nth_append)
qed

lemma cells_okD:
  assumes "cells_ok k q hist"
  shows "mq_shape k q" "1 \<le> k" "k \<le> 61" "unat (mq_enqueue_pos q) = length hist"
    "unat (mq_dequeue_pos q) \<le> length hist" "length hist \<le> unat (mq_dequeue_pos q) + 2 ^ k"
    "\<And>p. cell_ok k (unat (mq_dequeue_pos q)) hist (unat p mod 2 ^ k) (seq_at q p) (mq_data q ! mq_cell q p)"
    "\<And>p. mq_cell q p = unat p mod 2 ^ k"
  using assms by (auto simp: cells_ok_def mq_shape_def seq_at_def mq_cell_mod [of k q])

lemma waiting_cell:
  "cells_ok k q hist \<Longrightarrow> seq_at q p = unat p \<Longrightarrow>
     unat (mq_dequeue_pos q) \<le> unat p \<and> unat p < unat (mq_dequeue_pos q) + 2 ^ k \<and> length hist \<le> unat p + 2 ^ k"
  using cell_ok_waiting cells_okD(2) [of k q hist] cells_okD(7) [of k q hist p] by metis

lemma full_cell:
  "cells_ok k q hist \<Longrightarrow> seq_at q p = Suc (unat p) \<Longrightarrow>
     unat p < length hist \<and> length hist \<le> unat p + 2 ^ k \<and> mq_data q ! mq_cell q p = Some (hist ! unat p)"
  using cell_ok_full cells_okD(2) [of k q hist] cells_okD(7) [of k q hist p] by metis

text \<open>Two tickets in the same cell with the sequence numbers of a waiting or a full cell.\<close>

lemma same_cell_neq:
  "cells_ok k q hist \<Longrightarrow> seq_at q p = unat p \<Longrightarrow> seq_at q r = Suc (unat r) \<Longrightarrow> mq_cell q p \<noteq> mq_cell q r"
  using Suc_mod_neq [of k "unat r"] cells_okD(2,8) [of k q hist] by (metis seq_at_def)

section \<open>The steps that change the queue\<close>

text \<open>Winning the compare-exchange of an enqueue.\<close>

lemma win_enqueue_cells:
  assumes "cells_ok k q hist" "length hist < 2 ^ 62" "seq_at q (mq_enqueue_pos q) = unat (mq_enqueue_pos q)"
  shows "cells_ok k (q\<lparr>mq_enqueue_pos := mq_enqueue_pos q + 1\<rparr>) (hist @ [x])"
proof -
  note q = cells_okD [OF assms(1)]
  have room: "length hist < unat (mq_dequeue_pos q) + 2 ^ k"
    using waiting_cell [OF assms(1,3)] q(4) by simp
  have e: "unat (mq_enqueue_pos q + 1) = Suc (length hist)"
    using assms(2) q(4) by (simp add: unat_word_ariths)
  have "cell_ok k (unat (mq_dequeue_pos q)) (hist @ [x]) i (unat (mq_seq q ! i)) (mq_data q ! i)"
    if i: "i < 2 ^ k" for i
  proof (cases "i = mq_cell q (mq_enqueue_pos q)")
    case True
    then show ?thesis using waiting_cell [OF assms(1,3)] assms(3) q(4) q(8)
      by (auto simp: cell_ok_def seq_at_def)
  next
    case False
    have "cell_ok k (unat (mq_dequeue_pos q)) hist i (unat (mq_seq q ! i)) (mq_data q ! i)"
      using assms(1) i by (auto simp: cells_ok_def)
    moreover have "length hist \<noteq> t + 2 ^ k" if "t mod 2 ^ k = i" for t
      using False that q(4,8) by auto
    ultimately show ?thesis
      by (elim cell_ok_grow)
  qed
  then show ?thesis using q e room by (auto simp: cells_ok_def mq_shape_def)
qed

text \<open>Winning the compare-exchange of a dequeue.\<close>

lemma win_dequeue_cells:
  assumes "cells_ok k q hist" "length hist < 2 ^ 62"
    "seq_at q (mq_dequeue_pos q) = Suc (unat (mq_dequeue_pos q))"
  shows "cells_ok k (q\<lparr>mq_dequeue_pos := mq_dequeue_pos q + 1\<rparr>) hist"
    "unat (mq_dequeue_pos q + 1) = Suc (unat (mq_dequeue_pos q))"
proof -
  note q = cells_okD [OF assms(1)]
  let ?D = "unat (mq_dequeue_pos q)"
  show d: "unat (mq_dequeue_pos q + 1) = Suc ?D"
    using assms(2) q(5) by (simp add: unat_word_ariths)
  have "cell_ok k (Suc ?D) hist i (unat (mq_seq q ! i)) (mq_data q ! i)" if i: "i < 2 ^ k" for i
  proof -
    have c: "cell_ok k ?D hist i (unat (mq_seq q ! i)) (mq_data q ! i)"
      using assms(1) i by (auto simp: cells_ok_def)
    moreover have "unat (mq_seq q ! i) \<noteq> ?D" if "unat (mq_seq q ! i) mod 2 ^ k = i"
    proof
      assume "unat (mq_seq q ! i) = ?D"
      then show False using that assms(3) q(8) [of "mq_dequeue_pos q"] by (simp add: seq_at_def)
    qed
    ultimately show ?thesis by (auto simp: cell_ok_def)
  qed
  then show "cells_ok k (q\<lparr>mq_dequeue_pos := mq_dequeue_pos q + 1\<rparr>) hist"
    using q full_cell [OF assms(1,3)] by (auto simp: cells_ok_def mq_shape_def d)
qed

text \<open>A store to one cell.\<close>

lemma cells_ok_update:
  assumes "cells_ok k q hist"
    "cell_ok k (unat (mq_dequeue_pos q)) hist (mq_cell q p) (unat sq) d"
  shows "cells_ok k (q\<lparr>mq_seq := (mq_seq q)[mq_cell q p := sq], mq_data := (mq_data q)[mq_cell q p := d]\<rparr>) hist"
  using assms mq_cell_less [OF cells_okD(1) [OF assms(1)], of p]
  by (auto simp: cells_ok_def mq_shape_def nth_list_update)

lemma store_cells:
  assumes "cells_ok k q hist" "seq_at q p = unat p"
  shows "cells_ok k (q\<lparr>mq_data := (mq_data q)[mq_cell q p := d]\<rparr>) hist"
proof -
  have "cell_ok k (unat (mq_dequeue_pos q)) hist (mq_cell q p) (unat (mq_seq q ! mq_cell q p)) d"
    using waiting_cell [OF assms] assms(2) cells_okD(8) [OF assms(1)] by (auto simp: cell_ok_def seq_at_def)
  from cells_ok_update [OF assms(1) this] show ?thesis by simp
qed

lemma publish_cells:
  assumes "cells_ok k q hist" "length hist < 2 ^ 62" "seq_at q p = unat p" "unat p < length hist"
    "mq_data q ! mq_cell q p = Some (hist ! unat p)"
  shows "cells_ok k (q\<lparr>mq_seq := (mq_seq q)[mq_cell q p := p + 1]\<rparr>) hist" "unat (p + 1) = Suc (unat p)"
proof -
  show u: "unat (p + 1) = Suc (unat p)" using assms(2,4) by (simp add: unat_word_ariths)
  have "cell_ok k (unat (mq_dequeue_pos q)) hist (mq_cell q p) (unat (p + 1)) (mq_data q ! mq_cell q p)"
    using waiting_cell [OF assms(1,3)] cells_okD(8) [OF assms(1)] assms(4,5) u by (auto simp: cell_ok_def)
  from cells_ok_update [OF assms(1) this]
  show "cells_ok k (q\<lparr>mq_seq := (mq_seq q)[mq_cell q p := p + 1]\<rparr>) hist" by simp
qed

lemma release_cells:
  assumes "cells_ok k q hist" "length hist < 2 ^ 62" "seq_at q p = Suc (unat p)" "unat p < unat (mq_dequeue_pos q)"
  shows "cells_ok k (q\<lparr>mq_seq := (mq_seq q)[mq_cell q p := p + mq_mask q + 1]\<rparr>) hist"
    "unat (p + mq_mask q + 1) = unat p + 2 ^ k"
proof -
  note q = cells_okD [OF assms(1)]
  have m: "p + mq_mask q + 1 = p + of_nat (2 ^ k)" using q(1) by (simp add: mq_shape_def)
  have b: "unat p + 2 ^ k < 2 ^ 64" using assms(2,4) q(5) pow61 [OF q(3)] by simp
  show u: "unat (p + mq_mask q + 1) = unat p + 2 ^ k"
    using b unat_of_nat_small [of "2 ^ k"] unfolding m by (simp add: unat_word_ariths)
  have "cell_ok k (unat (mq_dequeue_pos q)) hist (mq_cell q p) (unat (p + mq_mask q + 1)) (mq_data q ! mq_cell q p)"
    using full_cell [OF assms(1,3)] assms(4) q(5) q(8) unfolding u cell_ok_def by auto
  from cells_ok_update [OF assms(1) this]
  show "cells_ok k (q\<lparr>mq_seq := (mq_seq q)[mq_cell q p := p + mq_mask q + 1]\<rparr>) hist" by simp
qed

section \<open>The steps seen by the other threads\<close>

lemma cell_frame [simp]:
  "mq_cell (q\<lparr>mq_enqueue_pos := e\<rparr>) p = mq_cell q p" "mq_cell (q\<lparr>mq_dequeue_pos := e\<rparr>) p = mq_cell q p"
  "mq_cell (q\<lparr>mq_data := d\<rparr>) p = mq_cell q p" "mq_cell (q\<lparr>mq_seq := s\<rparr>) p = mq_cell q p"
  "seq_at (q\<lparr>mq_enqueue_pos := e\<rparr>) p = seq_at q p" "seq_at (q\<lparr>mq_dequeue_pos := e\<rparr>) p = seq_at q p"
  "seq_at (q\<lparr>mq_data := d\<rparr>) p = seq_at q p"
  by (simp_all add: mq_cell_def seq_at_def)

lemma win_enqueue_others:
  assumes "cells_ok k q hist" "call_ok q hist pc"
  shows "call_ok (q\<lparr>mq_enqueue_pos := e\<rparr>) (hist @ [x]) pc"
  using assms(2) cells_okD(5) [OF assms(1)] by (cases pc) (auto simp: nth_append)

lemma win_dequeue_others:
  assumes "call_ok q hist pc" "unat d = Suc (unat (mq_dequeue_pos q))"
  shows "call_ok (q\<lparr>mq_dequeue_pos := d\<rparr>) hist pc"
  using assms by (cases pc) auto

lemma store_others:
  assumes "call_ok q hist pc" "seq_at q p = unat p" "enq_ticket pc \<noteq> Some (unat p)"
  shows "call_ok (q\<lparr>mq_data := (mq_data q)[mq_cell q p := d]\<rparr>) hist pc"
  using assms by (cases pc) (auto simp: seq_at_def, metis nth_list_update_neq)

lemma seq_at_update:
  assumes "cells_ok k q hist"
  shows "seq_at (q\<lparr>mq_seq := (mq_seq q)[mq_cell q p := v]\<rparr>) r =
    (if mq_cell q r = mq_cell q p then unat v else seq_at q r)"
  using mq_cell_less [OF cells_okD(1) [OF assms], of p] cells_okD(1) [OF assms]
  by (auto simp: seq_at_def mq_shape_def)

lemma publish_others:
  assumes "cells_ok k q hist" "call_ok q hist pc" "seq_at q p = unat p" "unat p < length hist"
    "enq_ticket pc \<noteq> Some (unat p)"
  shows "call_ok (q\<lparr>mq_seq := (mq_seq q)[mq_cell q p := v]\<rparr>) hist pc"
  using assms(2-5) same_cell_neq [OF assms(1,3)]
  by (cases pc) (auto simp: seq_at_update [OF assms(1)], (metis seq_at_def less_irrefl)+)

lemma release_others:
  assumes "cells_ok k q hist" "call_ok q hist pc" "seq_at q p = Suc (unat p)"
    "unat p < unat (mq_dequeue_pos q)" "deq_ticket pc \<noteq> Some (unat p)"
  shows "call_ok (q\<lparr>mq_seq := (mq_seq q)[mq_cell q p := v]\<rparr>) hist pc"
  using assms(2-5) same_cell_neq [OF assms(1) _ assms(3)]
  by (cases pc) (auto simp: seq_at_update [OF assms(1)], (metis seq_at_def less_irrefl nat.inject)+)

section \<open>Preservation\<close>

lemma all_update:
  "i < length cs \<Longrightarrow> (\<And>j. j < length cs \<Longrightarrow> j \<noteq> i \<Longrightarrow> P (cs ! j)) \<Longrightarrow> P c \<Longrightarrow> \<forall>j < length (cs[i := c]). P (cs[i := c] ! j)"
  by (auto simp: nth_list_update)

lemma tickets_unique_update:
  assumes "tickets_unique f cs" "i < length cs" "f c = None \<or> f c = f (cs ! i) \<or> (\<forall>j < length cs. f (cs ! j) \<noteq> f c)"
  shows "tickets_unique f (cs[i := c])"
  unfolding tickets_unique_def nth_list_update [OF assms(2)] length_list_update
proof (intro allI impI)
  fix a b assume ab: "a < length cs" "b < length cs" "a \<noteq> b" "f (if i = a then c else cs ! a) \<noteq> None"
  have u: "f (cs ! a) = None \<or> f (cs ! a) \<noteq> f (cs ! b)" "f (cs ! b) = None \<or> f (cs ! b) \<noteq> f (cs ! a)"
    using assms(1) ab unfolding tickets_unique_def by auto
  show "f (if i = a then c else cs ! a) \<noteq> f (if i = b then c else cs ! b)"
    using assms(3) ab u by (cases "i = a"; cases "i = b") auto
qed

lemma held_update:
  assumes "i < length cs"
  shows "(\<exists>j < length (cs[i := c]). f (cs[i := c] ! j) = Some t) \<longleftrightarrow>
    f c = Some t \<or> (\<exists>j < length cs. j \<noteq> i \<and> f (cs ! j) = Some t)"
  using assms by (auto simp: nth_list_update)

lemma delivered_same:
  assumes "delivered_ok D hist cs out" "i < length cs" "deq_ticket c = deq_ticket (cs ! i)" "D \<le> length hist"
  shows "delivered_ok D (hist @ acc) (cs[i := c]) out"
proof -
  have "(\<exists>j < length (cs[i := c]). deq_ticket (cs[i := c] ! j) = Some t) \<longleftrightarrow>
      (\<exists>j < length cs. deq_ticket (cs ! j) = Some t)" for t
    using held_update [OF assms(2), of c deq_ticket t] assms(2,3) by metis
  with assms(1,4) show ?thesis by (fastforce simp: delivered_ok_def nth_append)
qed

lemma delivered_win:
  assumes "delivered_ok D hist cs out" "i < length cs" "deq_ticket c = Some D" "deq_ticket (cs ! i) = None"
    "\<And>j. j < length cs \<Longrightarrow> deq_ticket (cs ! j) \<noteq> Some D"
  shows "delivered_ok (Suc D) hist (cs[i := c]) out"
proof -
  have "(\<exists>j < length (cs[i := c]). deq_ticket (cs[i := c] ! j) = Some t) \<longleftrightarrow>
      t = D \<or> (\<exists>j < length cs. deq_ticket (cs ! j) = Some t)" for t
    using held_update [OF assms(2), of c deq_ticket t] assms(3,4) by (metis option.distinct(1) option.inject)
  moreover have "D \<notin> fst ` set out" using assms(1) by (auto simp: delivered_ok_def)
  ultimately show ?thesis
    using assms(1) by (fastforce simp: delivered_ok_def less_Suc_eq)
qed

lemma delivered_release:
  assumes "delivered_ok D hist cs out" "i < length cs" "deq_ticket (cs ! i) = Some t" "deq_ticket c = None"
    "t < D" "tickets_unique deq_ticket cs"
  shows "delivered_ok D hist (cs[i := c]) (out @ [(t, hist ! t)])"
proof -
  have "deq_ticket (cs ! j) \<noteq> Some t" if "j < length cs" "j \<noteq> i" for j
    using assms(2,3,6) that by (metis tickets_unique_def option.distinct(1))
  then have "(\<exists>j < length (cs[i := c]). deq_ticket (cs[i := c] ! j) = Some u) \<longleftrightarrow>
      u \<noteq> t \<and> (\<exists>j < length cs. deq_ticket (cs ! j) = Some u)" for u
    using held_update [OF assms(2), of c deq_ticket u] assms(3,4) by (metis option.distinct(1) option.inject)
  moreover have "t \<notin> fst ` set out" using assms(1,2,3,5) by (auto simp: delivered_ok_def)
  ultimately show ?thesis
    using assms(1,5) by (auto simp: delivered_ok_def)
qed

text \<open>A step of thread \<open>i\<close> whose effects on the parts of the invariant are known.\<close>

lemma mq_invI:
  assumes "mq_inv k s" "i < length (mq_calls s)" "cells_ok k q (mq_accepted s @ acc)"
    "\<And>j. j < length (mq_calls s) \<Longrightarrow> j \<noteq> i \<Longrightarrow> call_ok q (mq_accepted s @ acc) (mq_calls s ! j)"
    "call_ok q (mq_accepted s @ acc) c"
    "enq_ticket c = None \<or> enq_ticket c = enq_ticket (mq_calls s ! i) \<or>
       (\<forall>j < length (mq_calls s). enq_ticket (mq_calls s ! j) \<noteq> enq_ticket c)"
    "deq_ticket c = None \<or> deq_ticket c = deq_ticket (mq_calls s ! i) \<or>
       (\<forall>j < length (mq_calls s). deq_ticket (mq_calls s ! j) \<noteq> deq_ticket c)"
    "delivered_ok (unat (mq_dequeue_pos q)) (mq_accepted s @ acc) ((mq_calls s)[i := c]) (mq_delivered s @ del)"
  shows "mq_inv k (s\<lparr>mq_shared := q, mq_calls := (mq_calls s)[i := c],
    mq_accepted := mq_accepted s @ acc, mq_delivered := mq_delivered s @ del\<rparr>)"
  using assms all_update [OF assms(2), of "call_ok q (mq_accepted s @ acc)" c]
    tickets_unique_update [of enq_ticket "mq_calls s" i c] tickets_unique_update [of deq_ticket "mq_calls s" i c]
  by (simp add: mq_inv_def)

lemma mq_invD:
  assumes "mq_inv k s" "i < length (mq_calls s)"
  shows "cells_ok k (mq_shared s) (mq_accepted s)" "call_ok (mq_shared s) (mq_accepted s) (mq_calls s ! i)"
    "\<And>j. j < length (mq_calls s) \<Longrightarrow> j \<noteq> i \<Longrightarrow> enq_ticket (mq_calls s ! i) \<noteq> None \<Longrightarrow>
       enq_ticket (mq_calls s ! j) \<noteq> enq_ticket (mq_calls s ! i)"
    "\<And>j. j < length (mq_calls s) \<Longrightarrow> j \<noteq> i \<Longrightarrow> deq_ticket (mq_calls s ! i) \<noteq> None \<Longrightarrow>
       deq_ticket (mq_calls s ! j) \<noteq> deq_ticket (mq_calls s ! i)"
    "delivered_ok (unat (mq_dequeue_pos (mq_shared s))) (mq_accepted s) (mq_calls s) (mq_delivered s)"
    "unat (mq_dequeue_pos (mq_shared s)) \<le> length (mq_accepted s)"
proof -
  show "cells_ok k (mq_shared s) (mq_accepted s)" "call_ok (mq_shared s) (mq_accepted s) (mq_calls s ! i)"
    "delivered_ok (unat (mq_dequeue_pos (mq_shared s))) (mq_accepted s) (mq_calls s) (mq_delivered s)"
    using assms by (auto simp: mq_inv_def)
  then show "unat (mq_dequeue_pos (mq_shared s)) \<le> length (mq_accepted s)" by (auto dest: cells_okD)
  have u: "tickets_unique enq_ticket (mq_calls s)" "tickets_unique deq_ticket (mq_calls s)"
    using assms by (auto simp: mq_inv_def)
  show "\<And>j. j < length (mq_calls s) \<Longrightarrow> j \<noteq> i \<Longrightarrow> enq_ticket (mq_calls s ! i) \<noteq> None \<Longrightarrow>
       enq_ticket (mq_calls s ! j) \<noteq> enq_ticket (mq_calls s ! i)"
    using u(1) assms(2) unfolding tickets_unique_def by metis
  show "\<And>j. j < length (mq_calls s) \<Longrightarrow> j \<noteq> i \<Longrightarrow> deq_ticket (mq_calls s ! i) \<noteq> None \<Longrightarrow>
       deq_ticket (mq_calls s ! j) \<noteq> deq_ticket (mq_calls s ! i)"
    using u(2) assms(2) unfolding tickets_unique_def by metis
qed

text \<open>Steps that only move the program counter.\<close>

lemma local_step:
  assumes "mq_inv k s" "i < length (mq_calls s)" "call_ok (mq_shared s) (mq_accepted s) c"
    "enq_ticket c = enq_ticket (mq_calls s ! i)" "deq_ticket c = deq_ticket (mq_calls s ! i)"
  shows "mq_inv k (s\<lparr>mq_calls := (mq_calls s)[i := c]\<rparr>)"
  using mq_invI [OF assms(1,2), of "mq_shared s" "[]" c "[]"] assms mq_invD [OF assms(1)]
    delivered_same [OF mq_invD(5) [OF assms(1,2)] assms(2,5) mq_invD(6) [OF assms(1,2)], of "[]"]
  by simp

lemma win_enqueue_inv:
  assumes inv: "mq_inv k s" "i < length (mq_calls s)" "length (mq_accepted s) < 2 ^ 62"
    and pc: "mq_calls s ! i = EnqCas x (mq_enqueue_pos (mq_shared s))"
  shows "mq_inv k (s\<lparr>mq_shared := (mq_shared s)\<lparr>mq_enqueue_pos := mq_enqueue_pos (mq_shared s) + 1\<rparr>,
    mq_calls := (mq_calls s)[i := EnqStore x (mq_enqueue_pos (mq_shared s))],
    mq_accepted := mq_accepted s @ [x], mq_delivered := mq_delivered s @ []\<rparr>)"
proof (rule mq_invI [OF inv(1,2)])
  note d = mq_invD [OF inv(1,2)]
  have e: "unat (mq_enqueue_pos (mq_shared s)) = length (mq_accepted s)" by (rule cells_okD [OF d(1)])
  then have sq: "seq_at (mq_shared s) (mq_enqueue_pos (mq_shared s)) = unat (mq_enqueue_pos (mq_shared s))"
    using d(2) by (simp add: pc)
  show "cells_ok k ((mq_shared s)\<lparr>mq_enqueue_pos := mq_enqueue_pos (mq_shared s) + 1\<rparr>) (mq_accepted s @ [x])"
    by (rule win_enqueue_cells [OF d(1) inv(3) sq])
  show "call_ok ((mq_shared s)\<lparr>mq_enqueue_pos := mq_enqueue_pos (mq_shared s) + 1\<rparr>) (mq_accepted s @ [x]) (mq_calls s ! j)"
    if "j < length (mq_calls s)" "j \<noteq> i" for j
    by (rule win_enqueue_others [OF d(1) mq_invD(2) [OF inv(1) that(1)]])
  show "call_ok ((mq_shared s)\<lparr>mq_enqueue_pos := mq_enqueue_pos (mq_shared s) + 1\<rparr>) (mq_accepted s @ [x])
      (EnqStore x (mq_enqueue_pos (mq_shared s)))"
    using e sq by simp
  have "enq_ticket (mq_calls s ! j) \<noteq> Some (length (mq_accepted s))" if "j < length (mq_calls s)" for j
    using mq_invD(2) [OF inv(1) that] by (cases "mq_calls s ! j") auto
  then show "enq_ticket (EnqStore x (mq_enqueue_pos (mq_shared s))) = None \<or>
      enq_ticket (EnqStore x (mq_enqueue_pos (mq_shared s))) = enq_ticket (mq_calls s ! i) \<or>
      (\<forall>j < length (mq_calls s). enq_ticket (mq_calls s ! j) \<noteq> enq_ticket (EnqStore x (mq_enqueue_pos (mq_shared s))))"
    by (simp add: e)
  show "delivered_ok (unat (mq_dequeue_pos ((mq_shared s)\<lparr>mq_enqueue_pos := mq_enqueue_pos (mq_shared s) + 1\<rparr>)))
     (mq_accepted s @ [x]) ((mq_calls s)[i := EnqStore x (mq_enqueue_pos (mq_shared s))]) (mq_delivered s @ [])"
    using delivered_same [OF d(5) inv(2) _ d(6), of "EnqStore x (mq_enqueue_pos (mq_shared s))" "[x]"] by (simp add: pc)
qed simp

lemma store_inv:
  assumes inv: "mq_inv k s" "i < length (mq_calls s)" and pc: "mq_calls s ! i = EnqStore x p"
  shows "mq_inv k (s\<lparr>mq_shared := (mq_shared s)\<lparr>mq_data := (mq_data (mq_shared s))[mq_cell (mq_shared s) p := Some x]\<rparr>,
    mq_calls := (mq_calls s)[i := EnqPublish x p],
    mq_accepted := mq_accepted s @ [], mq_delivered := mq_delivered s @ []\<rparr>)"
proof (rule mq_invI [OF inv])
  note d = mq_invD [OF inv]
  have c: "unat p < length (mq_accepted s)" "mq_accepted s ! unat p = x" "seq_at (mq_shared s) p = unat p"
    using d(2) by (simp_all add: pc)
  let ?q = "(mq_shared s)\<lparr>mq_data := (mq_data (mq_shared s))[mq_cell (mq_shared s) p := Some x]\<rparr>"
  show "cells_ok k ?q (mq_accepted s @ [])" using store_cells [OF d(1) c(3)] by simp
  show "call_ok ?q (mq_accepted s @ []) (mq_calls s ! j)" if "j < length (mq_calls s)" "j \<noteq> i" for j
    using store_others [OF mq_invD(2) [OF inv(1) that(1)] c(3)] d(3) [OF that] by (simp add: pc)
  have "mq_cell (mq_shared s) p < length (mq_data (mq_shared s))"
    using mq_cell_less [OF cells_okD(1) [OF d(1)], of p] cells_okD(1) [OF d(1)] by (simp add: mq_shape_def)
  then show "call_ok ?q (mq_accepted s @ []) (EnqPublish x p)" using c by simp
  show "delivered_ok (unat (mq_dequeue_pos ?q)) (mq_accepted s @ []) ((mq_calls s)[i := EnqPublish x p]) (mq_delivered s @ [])"
    using delivered_same [OF d(5) inv(2) _ d(6), of "EnqPublish x p" "[]"] by (simp add: pc)
qed (simp_all add: pc)

lemma publish_inv:
  assumes inv: "mq_inv k s" "i < length (mq_calls s)" "length (mq_accepted s) < 2 ^ 62"
    and pc: "mq_calls s ! i = EnqPublish x p"
  shows "mq_inv k (s\<lparr>mq_shared := (mq_shared s)\<lparr>mq_seq := (mq_seq (mq_shared s))[mq_cell (mq_shared s) p := p + 1]\<rparr>,
    mq_calls := (mq_calls s)[i := EnqDone True],
    mq_accepted := mq_accepted s @ [], mq_delivered := mq_delivered s @ []\<rparr>)"
proof (rule mq_invI [OF inv(1,2)])
  note d = mq_invD [OF inv(1,2)]
  have c: "unat p < length (mq_accepted s)" "seq_at (mq_shared s) p = unat p"
    "mq_data (mq_shared s) ! mq_cell (mq_shared s) p = Some (mq_accepted s ! unat p)"
    using d(2) by (simp_all add: pc)
  let ?q = "(mq_shared s)\<lparr>mq_seq := (mq_seq (mq_shared s))[mq_cell (mq_shared s) p := p + 1]\<rparr>"
  show "cells_ok k ?q (mq_accepted s @ [])" using publish_cells [OF d(1) inv(3) c(2,1,3)] by simp
  show "call_ok ?q (mq_accepted s @ []) (mq_calls s ! j)" if "j < length (mq_calls s)" "j \<noteq> i" for j
    using publish_others [OF d(1) mq_invD(2) [OF inv(1) that(1)] c(2,1)] d(3) [OF that] by (simp add: pc)
  show "delivered_ok (unat (mq_dequeue_pos ?q)) (mq_accepted s @ []) ((mq_calls s)[i := EnqDone True]) (mq_delivered s @ [])"
    using delivered_same [OF d(5) inv(2) _ d(6), of "EnqDone True" "[]"] by (simp add: pc)
qed simp_all

lemma win_dequeue_inv:
  assumes inv: "mq_inv k s" "i < length (mq_calls s)" "length (mq_accepted s) < 2 ^ 62"
    and pc: "mq_calls s ! i = DeqCas (mq_dequeue_pos (mq_shared s))"
  shows "mq_inv k (s\<lparr>mq_shared := (mq_shared s)\<lparr>mq_dequeue_pos := mq_dequeue_pos (mq_shared s) + 1\<rparr>,
    mq_calls := (mq_calls s)[i := DeqRead (mq_dequeue_pos (mq_shared s))],
    mq_accepted := mq_accepted s @ [], mq_delivered := mq_delivered s @ []\<rparr>)"
proof (rule mq_invI [OF inv(1,2)])
  note d = mq_invD [OF inv(1,2)]
  let ?D = "mq_dequeue_pos (mq_shared s)"
  have sq: "seq_at (mq_shared s) ?D = Suc (unat ?D)" using d(2) by (simp add: pc)
  note w = win_dequeue_cells [OF d(1) inv(3) sq]
  show "cells_ok k ((mq_shared s)\<lparr>mq_dequeue_pos := ?D + 1\<rparr>) (mq_accepted s @ [])" using w(1) by simp
  show "call_ok ((mq_shared s)\<lparr>mq_dequeue_pos := ?D + 1\<rparr>) (mq_accepted s @ []) (mq_calls s ! j)"
    if "j < length (mq_calls s)" "j \<noteq> i" for j
    using win_dequeue_others [OF mq_invD(2) [OF inv(1) that(1)] w(2)] by simp
  show "call_ok ((mq_shared s)\<lparr>mq_dequeue_pos := ?D + 1\<rparr>) (mq_accepted s @ []) (DeqRead ?D)"
    using w(2) sq by simp
  have o: "deq_ticket (mq_calls s ! j) \<noteq> Some (unat ?D)" if "j < length (mq_calls s)" for j
    using mq_invD(2) [OF inv(1) that] by (cases "mq_calls s ! j") auto
  then show "deq_ticket (DeqRead ?D :: 'a mpmc_pc) = None \<or>
      deq_ticket (DeqRead ?D :: 'a mpmc_pc) = deq_ticket (mq_calls s ! i) \<or>
      (\<forall>j < length (mq_calls s). deq_ticket (mq_calls s ! j) \<noteq> deq_ticket (DeqRead ?D :: 'a mpmc_pc))"
    by simp
  show "delivered_ok (unat (mq_dequeue_pos ((mq_shared s)\<lparr>mq_dequeue_pos := ?D + 1\<rparr>)))
     (mq_accepted s @ []) ((mq_calls s)[i := DeqRead ?D]) (mq_delivered s @ [])"
    using delivered_win [OF d(5) inv(2), of "DeqRead ?D"] o w(2) by (simp add: pc)
qed simp

lemma release_inv:
  assumes inv: "mq_inv k s" "i < length (mq_calls s)" "length (mq_accepted s) < 2 ^ 62"
    and pc: "mq_calls s ! i = DeqRelease p x"
  shows "mq_inv k (s\<lparr>mq_shared := (mq_shared s)\<lparr>mq_seq :=
      (mq_seq (mq_shared s))[mq_cell (mq_shared s) p := p + mq_mask (mq_shared s) + 1]\<rparr>,
    mq_calls := (mq_calls s)[i := DeqDone (Some x)],
    mq_accepted := mq_accepted s @ [], mq_delivered := mq_delivered s @ [(unat p, x)]\<rparr>)"
proof (rule mq_invI [OF inv(1,2)])
  note d = mq_invD [OF inv(1,2)]
  have c: "unat p < unat (mq_dequeue_pos (mq_shared s))" "seq_at (mq_shared s) p = Suc (unat p)"
    "x = mq_accepted s ! unat p"
    using d(2) by (simp_all add: pc)
  let ?q = "(mq_shared s)\<lparr>mq_seq := (mq_seq (mq_shared s))[mq_cell (mq_shared s) p := p + mq_mask (mq_shared s) + 1]\<rparr>"
  show "cells_ok k ?q (mq_accepted s @ [])" using release_cells [OF d(1) inv(3) c(2,1)] by simp
  show "call_ok ?q (mq_accepted s @ []) (mq_calls s ! j)" if "j < length (mq_calls s)" "j \<noteq> i" for j
    using release_others [OF d(1) mq_invD(2) [OF inv(1) that(1)] c(2,1)] d(4) [OF that] by (simp add: pc)
  have "tickets_unique deq_ticket (mq_calls s)" using inv(1) by (simp add: mq_inv_def)
  then show "delivered_ok (unat (mq_dequeue_pos ?q)) (mq_accepted s @ []) ((mq_calls s)[i := DeqDone (Some x)])
      (mq_delivered s @ [(unat p, x)])"
    using delivered_release [OF d(5) inv(2), of "unat p" "DeqDone (Some x)"] c(1,3) by (simp add: pc)
qed simp_all

text \<open>Below \<open>2 ^ 63\<close> the signed subtraction is the exact difference.\<close>

lemma sint_below: "unat (w :: u64) < 2 ^ 63 \<Longrightarrow> sint w = int (unat w)"
proof -
  assume "unat w < 2 ^ 63"
  then have "int (unat w) < int (2 ^ 63)" by (simp only: of_nat_less_iff)
  then have "sint (of_nat (unat w) :: u64) = int (unat w)"
    using sint_add_small [of 0 "unat w"] by simp
  then show ?thesis by simp
qed

lemma mq_dif_below:
  assumes "unat a < 2 ^ 63" "unat b < 2 ^ 63"
  obtains d where "mq_dif a b = Some d" "d = 0 \<longleftrightarrow> a = b"
proof -
  have "int (unat a) < int (2 ^ 63)" "int (unat b) < int (2 ^ 63)" using assms by (simp_all only: of_nat_less_iff)
  then have "mq_dif a b = Some (int (unat a) - int (unat b))"
    unfolding mq_dif_def Let_def sint_below [OF assms(1)] sint_below [OF assms(2)]
    by simp (intro conjI; use uint_ge_0 [of a] uint_ge_0 [of b] in linarith)
  then show ?thesis using that by (simp add: uint_word_ariths word_uint_eq_iff)
qed

lemma seq_below:
  assumes "cells_ok k q hist" "length hist < 2 ^ 62"
  shows "unat (mq_seq q ! mq_cell q p) < 2 ^ 63"
proof -
  note q = cells_okD [OF assms(1)]
  have "(2 :: nat) ^ k \<le> 2 ^ 61" using pow61 [OF q(3)] .
  then show ?thesis using q(5) q(7) [of p] assms(2) by (auto simp: cell_ok_def seq_at_def)
qed

lemma advance_inv:
  assumes inv: "mq_inv k s" "i < length (mq_calls s)" "length (mq_accepted s) < 2 ^ 62"
    and st: "call_step weak (mq_calls s ! i) (mq_shared s) = (pc, q, acc, del)"
  shows "mq_inv k (s\<lparr>mq_shared := q, mq_calls := (mq_calls s)[i := pc],
      mq_accepted := mq_accepted s @ acc, mq_delivered := mq_delivered s @ del\<rparr>)"
proof -
  note d = mq_invD [OF inv(1,2)]
  note q = cells_okD [OF d(1)]
  note local = local_step [OF inv(1,2)]
  show ?thesis
  proof (cases "mq_calls s ! i")
    case (EnqCheck x p)
    have "unat p < 2 ^ 63" using d(2) inv(3) by (simp add: EnqCheck)
    with seq_below [OF d(1) inv(3)] obtain dif where
      "mq_dif (mq_seq (mq_shared s) ! mq_cell (mq_shared s) p) p = Some dif"
      "dif = 0 \<longleftrightarrow> mq_seq (mq_shared s) ! mq_cell (mq_shared s) p = p" by (rule mq_dif_below)
    then show ?thesis
      using st d(2) local [of "EnqCas x p"] local [of "EnqDone False"] local [of "EnqLoad x"] EnqCheck
      by (auto simp: call_step_def enqueue_step_def dequeue_step_def seq_at_def split: if_splits)
  next
    case (EnqCas x p)
    then show ?thesis
      using st d(2) local [of "EnqCheck x (mq_enqueue_pos (mq_shared s))"] win_enqueue_inv [OF inv, of x] q(4)
      by (auto simp: call_step_def enqueue_step_def dequeue_step_def split: if_splits)
  next
    case (EnqStore x p)
    then show ?thesis using st store_inv [OF inv(1,2)]
      by (auto simp: call_step_def enqueue_step_def dequeue_step_def)
  next
    case (EnqPublish x p)
    then show ?thesis using st publish_inv [OF inv]
      by (auto simp: call_step_def enqueue_step_def dequeue_step_def)
  next
    case (DeqCheck p)
    have "unat p < 2 ^ 62" using d(2,6) inv(3) by (simp add: DeqCheck)
    then have p: "unat (p + 1) = Suc (unat p)" "unat (p + 1) < 2 ^ 63" by (simp_all add: unat_word_ariths)
    from seq_below [OF d(1) inv(3)] p(2) obtain dif where
      dif: "mq_dif (mq_seq (mq_shared s) ! mq_cell (mq_shared s) p) (p + 1) = Some dif"
      "dif = 0 \<longleftrightarrow> mq_seq (mq_shared s) ! mq_cell (mq_shared s) p = p + 1" by (rule mq_dif_below)
    show ?thesis
    proof (cases "mq_seq (mq_shared s) ! mq_cell (mq_shared s) p = p + 1")
      case True
      have "call_ok (mq_shared s) (mq_accepted s) (DeqCas p)" using d(2) True p by (simp add: DeqCheck seq_at_def)
      then show ?thesis using st True DeqCheck local [of "DeqCas p"] dif
        by (auto simp: call_step_def enqueue_step_def dequeue_step_def)
    next
      case False
      then show ?thesis using st DeqCheck local [of "DeqDone None"] local [of "DeqLoad"] dif
        by (auto simp: call_step_def enqueue_step_def dequeue_step_def split: if_splits)
    qed
  next
    case (DeqCas p)
    then show ?thesis
      using st d(2) local [of "DeqCheck (mq_dequeue_pos (mq_shared s))"] win_dequeue_inv [OF inv]
      by (auto simp: call_step_def enqueue_step_def dequeue_step_def split: if_splits)
  next
    case (DeqRead p)
    then have "seq_at (mq_shared s) p = Suc (unat p)" using d(2) by simp
    then show ?thesis
      using st d(2) DeqRead full_cell [OF d(1)] local [of "DeqRelease p (mq_accepted s ! unat p)"]
      by (auto simp: call_step_def enqueue_step_def dequeue_step_def)
  next
    case (DeqRelease p x)
    then show ?thesis using st release_inv [OF inv]
      by (auto simp: call_step_def enqueue_step_def dequeue_step_def)
  qed (use st local [of pc] q inv(1) d(2) in \<open>auto simp: call_step_def enqueue_step_def dequeue_step_def\<close>)
qed

lemma start_inv:
  assumes "1 \<le> k" "k \<le> 61"
  shows "mq_inv k (mq_start k threads :: 'a mpmc_sys)"
proof -
  have "cell_ok k 0 ([] :: 'a list) i (unat (of_nat i :: u64)) None" if "i < 2 ^ k" for i
    using that pow61 [OF assms(2)] unat_of_nat_small [of i] by (simp add: cell_ok_def)
  then have "cells_ok k (mpmc_bounded_queue (2 ^ k)) ([] :: 'a list)"
    using assms by (simp add: cells_ok_def mq_shape_def mpmc_bounded_queue_def)
  then show ?thesis
    by (simp add: mq_inv_def mq_start_def tickets_unique_def delivered_ok_def) (simp add: mpmc_bounded_queue_def)
qed

lemma mq_step_inv:
  assumes "mq_step s t" "mq_inv k s" "length (mq_accepted s) < 2 ^ 62"
  shows "mq_inv k t"
  using assms(1)
proof cases
  case (call_enqueue i x)
  then have "enq_ticket (mq_calls s ! i) = None" "deq_ticket (mq_calls s ! i) = None"
    by (cases "mq_calls s ! i"; simp)+
  with call_enqueue show ?thesis using local_step [OF assms(2), of i "EnqLoad x"] by simp
next
  case (call_dequeue i)
  then have "enq_ticket (mq_calls s ! i) = None" "deq_ticket (mq_calls s ! i) = None"
    by (cases "mq_calls s ! i"; simp)+
  with call_dequeue show ?thesis using local_step [OF assms(2), of i DeqLoad] by simp
next
  case (advance i weak pc q acc del)
  then show ?thesis using advance_inv [OF assms(2) _ assms(3)] by simp
qed

lemma mq_step_accepted: "mq_step s t \<Longrightarrow> length (mq_accepted s) \<le> length (mq_accepted t)"
  by (induction rule: mq_step.induct) auto

lemma mq_reach_inv:
  assumes "1 \<le> k" "k \<le> 61"
  shows "mq_reach k threads s \<Longrightarrow> length (mq_accepted s) < 2 ^ 62 \<Longrightarrow> mq_inv k s"
proof (induction rule: mq_reach.induct)
  case start
  then show ?case using start_inv [OF assms] by simp
next
  case (step s t)
  then show ?case using mq_step_inv mq_step_accepted by (metis le_less_trans)
qed

text \<open>C1: However the calls of any number of threads interleave, no element is lost, invented or
  delivered twice, and the deliveries follow the order of acceptance: each delivery carries
  its own ticket, and hands out the element that was accepted under that ticket; every
  ticket below the dequeue position has been delivered or is held by one consumer; the
  queue never holds more elements than it has cells; and no call runs into the undefined
  overflow of the signed subtraction.
\<close>

theorem mpmc_delivers_once:
  assumes "1 \<le> k" "k \<le> 61" "mq_reach k threads s" "length (mq_accepted s) < 2 ^ 62"
  defines "D \<equiv> unat (mq_dequeue_pos (mq_shared s))"
  shows "distinct (map fst (mq_delivered s)) \<and>
    (\<forall>(t, x) \<in> set (mq_delivered s). t < D \<and> x = mq_accepted s ! t) \<and>
    (\<forall>t < D. t \<in> fst ` set (mq_delivered s) \<longleftrightarrow> \<not> (\<exists>i < length (mq_calls s). deq_ticket (mq_calls s ! i) = Some t)) \<and>
    D \<le> length (mq_accepted s) \<and> length (mq_accepted s) \<le> D + 2 ^ k \<and> SignedOverflow \<notin> set (mq_calls s)"
proof -
  have inv: "mq_inv k s" by (rule mq_reach_inv [OF assms(1-4)])
  then have "SignedOverflow \<notin> set (mq_calls s)" by (force simp: mq_inv_def in_set_conv_nth)
  with inv show ?thesis
    unfolding mq_inv_def delivered_ok_def cells_ok_def D_def by blast
qed

section \<open>Between calls\<close>

text \<open>No cell is left behind: a cell that waits for a ticket already taken has its producer, a
  full cell below the dequeue position has its consumer.\<close>

definition ticket_held :: "('a mpmc_pc \<Rightarrow> nat option) \<Rightarrow> 'a mpmc_pc list \<Rightarrow> nat \<Rightarrow> bool" where
  "ticket_held f cs t \<longleftrightarrow> (\<exists>j < length cs. f (cs ! j) = Some t)"

definition pending_ok :: "'a mpmc \<Rightarrow> nat \<Rightarrow> 'a mpmc_pc list \<Rightarrow> bool" where
  "pending_ok q E cs \<longleftrightarrow>
     (\<forall>p. (seq_at q p = unat p \<and> unat p < E \<longrightarrow> ticket_held enq_ticket cs (unat p)) \<and>
       (seq_at q p = Suc (unat p) \<and> unat p < unat (mq_dequeue_pos q) \<longrightarrow> ticket_held deq_ticket cs (unat p)))"

lemma ticket_held_update:
  "i < length cs \<Longrightarrow> ticket_held f cs t \<Longrightarrow> f (cs ! i) = Some t \<longrightarrow> f c = Some t \<Longrightarrow> ticket_held f (cs[i := c]) t"
  unfolding ticket_held_def using held_update [of i cs c f t] by metis

lemma ticket_held_new: "i < length cs \<Longrightarrow> f c = Some t \<Longrightarrow> ticket_held f (cs[i := c]) t"
  unfolding ticket_held_def using held_update [of i cs c f t] by metis

lemma pending_local:
  assumes "pending_ok q E cs" "i < length cs" "enq_ticket c = enq_ticket (cs ! i)" "deq_ticket c = deq_ticket (cs ! i)"
  shows "pending_ok q E (cs[i := c])"
  using assms(1) ticket_held_update [OF assms(2), of _ _ c] assms(3,4) unfolding pending_ok_def by simp

lemma pending_win_enqueue:
  assumes "pending_ok q E cs" "i < length cs" "enq_ticket c = Some E"
    "enq_ticket (cs ! i) = None" "deq_ticket (cs ! i) = None"
  shows "pending_ok (q\<lparr>mq_enqueue_pos := e\<rparr>) (Suc E) (cs[i := c])"
  using assms(1) ticket_held_update [OF assms(2), of _ _ c] ticket_held_new [of i cs enq_ticket c, OF assms(2,3)] assms(4,5)
  unfolding pending_ok_def by (auto simp: less_Suc_eq)

lemma pending_win_dequeue:
  assumes "pending_ok q E cs" "i < length cs" "deq_ticket c = Some (unat (mq_dequeue_pos q))"
    "unat d = Suc (unat (mq_dequeue_pos q))" "enq_ticket (cs ! i) = None" "deq_ticket (cs ! i) = None"
  shows "pending_ok (q\<lparr>mq_dequeue_pos := d\<rparr>) E (cs[i := c])"
  using assms(1) ticket_held_update [OF assms(2), of _ _ c] ticket_held_new [of i cs deq_ticket c, OF assms(2,3)] assms(4,5,6)
  unfolding pending_ok_def by (auto simp: less_Suc_eq)

lemma pending_publish:
  assumes "pending_ok q (length hist) cs" "i < length cs" "cells_ok k q hist" "cs ! i = EnqPublish x p"
    "seq_at q p = unat p" "unat (p + 1) = Suc (unat p)"
  shows "pending_ok (q\<lparr>mq_seq := (mq_seq q)[mq_cell q p := p + 1]\<rparr>) (length hist) (cs[i := EnqDone True])"
proof -
  have "unat (mq_dequeue_pos q) \<le> unat p" using waiting_cell [OF assms(3,5)] by simp
  moreover have "unat r \<noteq> unat p" if "mq_cell q r \<noteq> mq_cell q p" for r
    using that by (auto simp: cells_okD(8) [OF assms(3)])
  moreover have "Suc (unat p) \<noteq> unat r" if "mq_cell q r = mq_cell q p" for r
    using that Suc_mod_neq [OF cells_okD(2) [OF assms(3)], of "unat p"] cells_okD(8) [OF assms(3)] by metis
  moreover have "ticket_held enq_ticket (cs[i := EnqDone True]) t" if "ticket_held enq_ticket cs t" "t \<noteq> unat p" for t
    using ticket_held_update [OF assms(2) that(1)] that(2) assms(4) by simp
  moreover have "ticket_held deq_ticket (cs[i := EnqDone True]) t" if "ticket_held deq_ticket cs t" for t
    using ticket_held_update [OF assms(2) that] assms(4) by simp
  ultimately show ?thesis
    using assms(1) unfolding pending_ok_def by (simp add: seq_at_update [OF assms(3)] assms(6))
qed

lemma pending_release:
  assumes "pending_ok q (length hist) cs" "i < length cs" "cells_ok k q hist" "cs ! i = DeqRelease p x"
    "seq_at q p = Suc (unat p)" "unat v = unat p + 2 ^ k"
  shows "pending_ok (q\<lparr>mq_seq := (mq_seq q)[mq_cell q p := v]\<rparr>) (length hist) (cs[i := DeqDone (Some x)])"
proof -
  have "length hist \<le> unat p + 2 ^ k" using full_cell [OF assms(3,5)] by simp
  moreover have "unat r \<noteq> unat p" if "mq_cell q r \<noteq> mq_cell q p" for r
    using that by (auto simp: cells_okD(8) [OF assms(3)])
  moreover have "unat p + 2 ^ k \<noteq> Suc (unat r)" if "mq_cell q r = mq_cell q p" for r
    using that Suc_mod_neq [OF cells_okD(2) [OF assms(3)], of "unat r"] cells_okD(8) [OF assms(3)]
    by (metis mod_add_self2)
  moreover have "ticket_held deq_ticket (cs[i := DeqDone (Some x)]) t" if "ticket_held deq_ticket cs t" "t \<noteq> unat p" for t
    using ticket_held_update [OF assms(2) that(1)] that(2) assms(4) by simp
  moreover have "ticket_held enq_ticket (cs[i := DeqDone (Some x)]) t" if "ticket_held enq_ticket cs t" for t
    using ticket_held_update [OF assms(2) that] assms(4) by simp
  ultimately show ?thesis
    using assms(1) unfolding pending_ok_def by (simp add: seq_at_update [OF assms(3)] assms(6))
qed

lemma advance_pending:
  assumes inv: "mq_inv k s" "i < length (mq_calls s)" "length (mq_accepted s) < 2 ^ 62"
    and st: "call_step weak (mq_calls s ! i) (mq_shared s) = (pc, q, acc, del)"
    and pend: "pending_ok (mq_shared s) (length (mq_accepted s)) (mq_calls s)"
  shows "pending_ok q (length (mq_accepted s @ acc)) ((mq_calls s)[i := pc])"
proof -
  note d = mq_invD [OF inv(1,2)]
  note q = cells_okD [OF d(1)]
  note eval = call_step_def enqueue_step_def dequeue_step_def Let_def
  note local = pending_local [OF pend inv(2)]
  show ?thesis
  proof (cases "mq_calls s ! i")
    case (EnqCas x p)
    then show ?thesis
      using st local [of "EnqCheck x (mq_enqueue_pos (mq_shared s))"] q(4)
        pending_win_enqueue [OF pend inv(2), of "EnqStore x p"] by (auto simp: eval split: if_splits)
  next
    case (EnqStore x p)
    then show ?thesis
      using st local [of "EnqPublish x p"] by (auto simp: eval pending_ok_def)
  next
    case (EnqPublish x p)
    then have c: "seq_at (mq_shared s) p = unat p" "unat p < length (mq_accepted s)"
      "mq_data (mq_shared s) ! mq_cell (mq_shared s) p = Some (mq_accepted s ! unat p)" using d(2) by auto
    show ?thesis
      using st EnqPublish pending_publish [OF pend inv(2) d(1) EnqPublish c(1) publish_cells(2) [OF d(1) inv(3) c]]
      by (auto simp: eval)
  next
    case (DeqCas p)
    then show ?thesis
      using st d(2) local [of "DeqCheck (mq_dequeue_pos (mq_shared s))"] win_dequeue_cells(2) [OF d(1) inv(3)]
        pending_win_dequeue [OF pend inv(2), of "DeqRead p" "mq_dequeue_pos (mq_shared s) + 1"]
      by (auto simp: eval split: if_splits)
  next
    case (DeqRelease p x)
    then have c: "seq_at (mq_shared s) p = Suc (unat p)" "unat p < unat (mq_dequeue_pos (mq_shared s))" using d(2) by auto
    show ?thesis
      using st DeqRelease pending_release [OF pend inv(2) d(1) DeqRelease c(1) release_cells(2) [OF d(1) inv(3) c]]
      by (auto simp: eval)
  qed (use st local [of pc] pend in \<open>auto simp: eval split: if_splits option.splits\<close>)
qed

lemma mq_reach_pending:
  assumes "1 \<le> k" "k \<le> 61"
  shows "mq_reach k threads s \<Longrightarrow> length (mq_accepted s) < 2 ^ 62 \<Longrightarrow>
    pending_ok (mq_shared s) (length (mq_accepted s)) (mq_calls s)"
proof (induction rule: mq_reach.induct)
  case start
  then show ?case by (simp add: pending_ok_def mq_start_def mpmc_bounded_queue_def)
next
  case (step s t)
  then have len: "length (mq_accepted s) < 2 ^ 62" using mq_step_accepted [OF step(2)] by simp
  note pend = step.IH [OF this] and inv = mq_reach_inv [OF assms step(1) len]
  from step(2) show ?case
  proof cases
    case (advance i weak pc q acc del)
    then show ?thesis using advance_pending [OF inv advance(2) len advance(3) pend] by simp
  qed (use pending_local [OF pend] in \<open>auto elim!: call_done.elims\<close>)
qed

text \<open>With no ticket held, the cells from the dequeue position on are as between calls.\<close>

lemma quiet_cell:
  assumes "cells_ok k q hist" "length hist < 2 ^ 62" "pending_ok q (length hist) cs"
    "\<And>f t. f \<in> {enq_ticket, deq_ticket} \<Longrightarrow> \<not> ticket_held f cs t" "j < 2 ^ k"
  defines "p \<equiv> mq_dequeue_pos q + of_nat j" and "D \<equiv> unat (mq_dequeue_pos q)"
  shows "unat p = D + j" "mq_cell q p = (D + j) mod 2 ^ k"
    "if j < length hist - D then seq_at q p = Suc (D + j) \<and> mq_data q ! mq_cell q p = Some (hist ! (D + j))
     else seq_at q p = D + j"
proof -
  note q = cells_okD [OF assms(1)]
  have "j < 2 ^ 61" using assms(5) pow61 [OF q(3)] by simp
  then show u: "unat p = D + j"
    using unat_of_nat_small [of j] q(5) assms(2) by (simp add: p_def D_def unat_word_ariths)
  then show "mq_cell q p = (D + j) mod 2 ^ k" by (simp add: q(8))
  have n: "\<not> (seq_at q p = unat p \<and> unat p < length hist)" "\<And>r. \<not> (seq_at q r = Suc (unat r) \<and> unat r < D)"
    using assms(3,4) unfolding pending_ok_def D_def by auto
  consider (wait) "seq_at q p mod 2 ^ k = (D + j) mod 2 ^ k" "D \<le> seq_at q p" "seq_at q p < D + 2 ^ k"
    | (full) t where "seq_at q p = Suc t" "t mod 2 ^ k = (D + j) mod 2 ^ k" "t < length hist" "length hist \<le> t + 2 ^ k"
      "mq_data q ! mq_cell q p = Some (hist ! t)"
    using q(7) [of p] unfolding cell_ok_def u D_def by auto
  then show "if j < length hist - D then seq_at q p = Suc (D + j) \<and> mq_data q ! mq_cell q p = Some (hist ! (D + j))
     else seq_at q p = D + j"
  proof cases
    case wait
    then have "seq_at q p = D + j"
      using mod_add_inject [of "seq_at q p - D" "2 ^ k" j D] assms(5) by auto
    then show ?thesis using n(1) u by auto
  next
    case full
    have "unat (of_nat t :: u64) = t" using full(3) assms(2) by (intro unat_of_nat_small) simp
    then have "D \<le> t" using n(2) [of "of_nat t"] full(1,2) by (fastforce simp: seq_at_def q(8) u)
    then have "t = D + j"
      using mod_add_inject [of "t - D" "2 ^ k" j D] assms(5) full(2,3) q(6) by (auto simp: D_def)
    then show ?thesis using full by auto
  qed
qed

lemma quiet_ok:
  assumes "cells_ok k q hist" "length hist < 2 ^ 62" "pending_ok q (length hist) cs"
    "\<And>f t. f \<in> {enq_ticket, deq_ticket} \<Longrightarrow> \<not> ticket_held f cs t"
  shows "mq_ok k q \<and> mq_list q = drop (unat (mq_dequeue_pos q)) hist"
proof -
  let ?D = "unat (mq_dequeue_pos q)"
  note q = cells_okD [OF assms(1)] and cell = quiet_cell [OF assms(1,2,3) assms(4)]
  have "of_nat (length hist) = mq_enqueue_pos q" "of_nat ?D = mq_dequeue_pos q"
    using q(4) [symmetric] by simp_all
  then have "mq_enqueue_pos q - mq_dequeue_pos q = of_nat (length hist - ?D)" using q(5) by (simp add: of_nat_diff)
  then have n: "mq_count q = length hist - ?D" using assms(2) by (intro mq_countI) auto
  have "mq_ok k q"
    unfolding mq_ok_def Let_def
  proof (intro conjI allI impI)
    show "mq_shape k q" "mq_count q \<le> 2 ^ k" using q n by auto
    fix j :: nat assume j: "j < 2 ^ k"
    let ?p = "mq_dequeue_pos q + of_nat j"
    have i: "unat ?p mod 2 ^ k = (?D + j) mod 2 ^ k" using cell(1) [OF _ j] by simp
    have "mq_seq q ! ((?D + j) mod 2 ^ k) = of_nat (seq_at q ?p)"
      by (simp add: seq_at_def q(8) i)
    moreover have "of_nat (?D + j) = ?p" by simp
    ultimately show "if j < mq_count q then mq_seq q ! ((?D + j) mod 2 ^ k) = ?p + 1 \<and> mq_data q ! ((?D + j) mod 2 ^ k) \<noteq> None
        else mq_seq q ! ((?D + j) mod 2 ^ k) = ?p"
      using cell(3) [OF _ j] by (auto simp: n q(8) i split: if_splits)
  qed
  moreover have "mq_list q = drop ?D hist"
  proof (rule nth_equalityI)
    fix j assume "j < length (mq_list q)"
    then have j: "j < length hist - ?D" "j < 2 ^ k" using q(6) by (auto simp: n)
    have "length (mq_data q) = 2 ^ k" using q(1) by (simp add: mq_shape_def)
    then show "mq_list q ! j = drop ?D hist ! j"
      using cell(2,3) [OF _ j(2)] j n by (simp add: mq_list_def nth_ring_elems)
  qed (simp add: n)
  ultimately show ?thesis by simp
qed

lemma mset_by_ticket:
  assumes "distinct (map fst out)" "fst ` set out = {..<D}" "\<forall>(t, x) \<in> set out. x = hist ! t" "D \<le> length hist"
  shows "mset (map snd out) = mset (take D hist)"
proof -
  have "map snd out = map (nth hist) (map fst out)" using assms(3) by auto
  moreover have "mset (map fst out) = mset [0..<D]"
    using assms(1,2) by (intro set_eq_iff_mset_eq_distinct [THEN iffD1]) (auto simp: atLeast0LessThan)
  moreover have "take D hist = map (nth hist) [0..<D]" using assms(4) by (intro nth_equalityI) auto
  ultimately show ?thesis by (metis mset_map)
qed

text \<open>When the calls of all threads have returned, the queue is back in a state between
  calls: it holds exactly the accepted elements that were not delivered, in the order of
  acceptance, and the delivered elements are the first ones accepted.
\<close>

theorem mpmc_quiescent:
  assumes "1 \<le> k" "k \<le> 61" "mq_reach k threads s" "length (mq_accepted s) < 2 ^ 62"
    "\<forall>pc \<in> set (mq_calls s). call_done pc"
  shows "mq_ok k (mq_shared s) \<and>
    mq_list (mq_shared s) = drop (length (mq_delivered s)) (mq_accepted s) \<and>
    mset (map snd (mq_delivered s)) = mset (take (length (mq_delivered s)) (mq_accepted s))"
proof -
  let ?D = "unat (mq_dequeue_pos (mq_shared s))"
  have inv: "mq_inv k s" and pend: "pending_ok (mq_shared s) (length (mq_accepted s)) (mq_calls s)"
    using mq_reach_inv [OF assms(1-4)] mq_reach_pending [OF assms(1-4)] by auto
  then have c: "cells_ok k (mq_shared s) (mq_accepted s)"
    and d: "delivered_ok ?D (mq_accepted s) (mq_calls s) (mq_delivered s)" by (simp_all add: mq_inv_def)
  have "enq_ticket pc = None \<and> deq_ticket pc = None" if "pc \<in> set (mq_calls s)" for pc
    using assms(5) that by (cases pc) auto
  then have free: "\<not> ticket_held f (mq_calls s) t" if "f \<in> {enq_ticket, deq_ticket}" for f t
    using that unfolding ticket_held_def by (metis insertE nth_mem option.distinct(1) singletonD)
  then have out: "fst ` set (mq_delivered s) = {..<?D}"
    using d unfolding delivered_ok_def ticket_held_def by fastforce
  have dst: "distinct (map fst (mq_delivered s))" using d by (simp add: delivered_ok_def)
  then have n: "length (mq_delivered s) = ?D"
    using out distinct_card [OF dst] by simp
  show ?thesis
    using quiet_ok [OF c assms(4) pend free] mset_by_ticket [OF dst out _ cells_okD(5) [OF c]] d
    by (auto simp: n delivered_ok_def)
qed

text \<open>Two threads on a queue of two cells: the consumer takes the element while the producer's
  second call is under way.\<close>

lemma call_step_eval:
  "call_step w (EnqLoad x) q = (EnqCheck x (mq_enqueue_pos q), q, [], [])"
  "call_step w (EnqCheck x p) q =
     (case mq_dif (mq_seq q ! mq_cell q p) p of
        None \<Rightarrow> SignedOverflow
      | Some dif \<Rightarrow> if dif = 0 then EnqCas x p else if dif < 0 then EnqDone False else EnqLoad x, q, [], [])"
  "call_step False (EnqCas x p) q = (if mq_enqueue_pos q = p
     then (EnqStore x p, q\<lparr>mq_enqueue_pos := p + 1\<rparr>, [x], []) else (EnqCheck x (mq_enqueue_pos q), q, [], []))"
  "call_step w (EnqStore x p) q = (EnqPublish x p, q\<lparr>mq_data := (mq_data q)[mq_cell q p := Some x]\<rparr>, [], [])"
  "call_step w (EnqPublish x p) q = (EnqDone True, q\<lparr>mq_seq := (mq_seq q)[mq_cell q p := p + 1]\<rparr>, [], [])"
  "call_step w DeqLoad q = (DeqCheck (mq_dequeue_pos q), q, [], [])"
  "call_step w (DeqCheck p) q =
     (case mq_dif (mq_seq q ! mq_cell q p) (p + 1) of
        None \<Rightarrow> SignedOverflow
      | Some dif \<Rightarrow> if dif = 0 then DeqCas p else if dif < 0 then DeqDone None else DeqLoad, q, [], [])"
  "call_step False (DeqCas p) q = (if mq_dequeue_pos q = p
     then (DeqRead p, q\<lparr>mq_dequeue_pos := p + 1\<rparr>, [], []) else (DeqCheck (mq_dequeue_pos q), q, [], []))"
  "call_step w (DeqRead p) q = (DeqRelease p (the (mq_data q ! mq_cell q p)), q, [], [])"
  "call_step w (DeqRelease p x) q = (DeqDone (Some x),
     q\<lparr>mq_seq := (mq_seq q)[mq_cell q p := p + mq_mask q + 1]\<rparr>, [], [(unat p, x)])"
  by (simp_all add: call_step_def enqueue_step_def dequeue_step_def split: option.split)

lemmas call_eval = call_step_eval mq_dif_def mq_cell_def

fun mq_schedule :: "nat list \<Rightarrow> 'a mpmc_sys \<Rightarrow> 'a mpmc_sys" where
  "mq_schedule [] s = s"
| "mq_schedule (i # is) s =
     (case call_step False (mq_calls s ! i) (mq_shared s) of (pc, q, acc, del) \<Rightarrow>
        mq_schedule is (s\<lparr>mq_shared := q, mq_calls := (mq_calls s)[i := pc],
          mq_accepted := mq_accepted s @ acc, mq_delivered := mq_delivered s @ del\<rparr>))"

lemma mq_schedule_reach:
  "mq_reach k threads s \<Longrightarrow> \<forall>i \<in> set is. i < length (mq_calls s) \<Longrightarrow> mq_reach k threads (mq_schedule is s)"
proof (induction "is" arbitrary: s)
  case Nil
  then show ?case by simp
next
  case (Cons i "is")
  obtain pc q acc del where st: "call_step False (mq_calls s ! i) (mq_shared s) = (pc, q, acc, del)"
    by (metis prod_cases4)
  with Cons.prems have "mq_step s (s\<lparr>mq_shared := q, mq_calls := (mq_calls s)[i := pc],
      mq_accepted := mq_accepted s @ acc, mq_delivered := mq_delivered s @ del\<rparr>)" by (intro advance) auto
  then show ?case using st Cons.prems by (auto intro!: Cons.IH intro: mq_reach.step [OF Cons.prems(1)])
qed

definition mq_example :: "nat mpmc_sys" where
  "mq_example = \<lparr>mq_shared = \<lparr>mq_seq = [2, 2], mq_data = [Some 7, Some 8], mq_mask = 1,
     mq_enqueue_pos = 2, mq_dequeue_pos = 1\<rparr>, mq_calls = [EnqDone True, DeqDone (Some 7)],
     mq_accepted = [7, 8], mq_delivered = [(0, 7)]\<rparr>"

lemma mq_example_reach: "mq_reach 1 2 mq_example"
proof -
  let ?s0 = "\<lparr>mq_shared = \<lparr>mq_seq = [0, 1], mq_data = [None, None], mq_mask = 1, mq_enqueue_pos = 0,
    mq_dequeue_pos = 0\<rparr>, mq_calls = [EnqDone False, EnqDone False], mq_accepted = [], mq_delivered = []\<rparr> :: nat mpmc_sys"
  let ?s1 = "\<lparr>mq_shared = \<lparr>mq_seq = [1, 1], mq_data = [Some 7, None], mq_mask = 1, mq_enqueue_pos = 1,
    mq_dequeue_pos = 0\<rparr>, mq_calls = [EnqDone True, EnqDone False], mq_accepted = [7], mq_delivered = []\<rparr> :: nat mpmc_sys"
  have "mq_start 1 2 = ?s0" by (simp add: mq_start_def mpmc_bounded_queue_def numeral_2_eq_2)
  then have "mq_reach 1 2 ?s0" by (metis start)
  then have "mq_reach 1 2 (?s0\<lparr>mq_calls := [EnqLoad 7, EnqDone False]\<rparr>)"
    using mq_reach.step [OF _ call_enqueue [of 0 ?s0 7]] by simp
  then have "mq_reach 1 2 (mq_schedule [0, 0, 0, 0, 0] (?s0\<lparr>mq_calls := [EnqLoad 7, EnqDone False]\<rparr>))"
    by (rule mq_schedule_reach) simp
  moreover have "mq_schedule [0, 0, 0, 0, 0] (?s0\<lparr>mq_calls := [EnqLoad 7, EnqDone False]\<rparr>) = ?s1"
    by (simp add: call_eval)
  ultimately have "mq_reach 1 2 ?s1" by (simp only:)
  then have "mq_reach 1 2 (?s1\<lparr>mq_calls := [EnqLoad 8, EnqDone False]\<rparr>)"
    using mq_reach.step [OF _ call_enqueue [of 0 ?s1 8]] by simp
  then have "mq_reach 1 2 (?s1\<lparr>mq_calls := [EnqLoad 8, DeqLoad]\<rparr>)"
    using mq_reach.step [OF _ call_dequeue [of 1 "?s1\<lparr>mq_calls := [EnqLoad 8, EnqDone False]\<rparr>"]] by simp
  then have "mq_reach 1 2 (mq_schedule [0, 1, 0, 1, 0, 1, 0, 1, 0, 1] (?s1\<lparr>mq_calls := [EnqLoad 8, DeqLoad]\<rparr>))"
    by (rule mq_schedule_reach) simp
  moreover have "mq_schedule [0, 1, 0, 1, 0, 1, 0, 1, 0, 1] (?s1\<lparr>mq_calls := [EnqLoad 8, DeqLoad]\<rparr>) = mq_example"
    by (simp add: call_eval mq_example_def)
  ultimately show ?thesis by (simp only:)
qed

theorem mpmc_delivers_once_witness:
  "\<exists>s :: nat mpmc_sys. mq_reach 1 2 s \<and> mq_delivered s = [(0, 7)] \<and> mq_accepted s = [7, 8] \<and>
     (\<forall>(t, x) \<in> set (mq_delivered s). x = mq_accepted s ! t)"
  using mpmc_delivers_once [OF _ _ mq_example_reach] mq_example_reach
  by (intro exI [of _ mq_example]) (auto simp: mq_example_def)

end
