(* ===== verification/Thread_Pool.thy ===== *)
theory Thread_Pool
  imports Sparo_Prelude
begin

text \<open>
  The thread pool of \<open>src/base/thread_pool.h\<close>.  A worker is a program counter in
  \<open>WorkerMain\<close>; each critical section, each access to \<open>should_quit_\<close> or
  \<open>active_tasks_\<close> outside the lock, and the call of a task is one step (sequentially
  consistent memory).  Threads that call \<open>WaitForAllTasks\<close> are program counters too: a
  sleeping thread continues only when \<open>finished_\<close> is notified, or spuriously.  The
  workers' own wait has a timeout of 200 ms, so it may always end.  Ghost fields record the
  tasks accepted, run and abandoned, and the calls of the completion callback.
\<close>

section \<open>State\<close>

record tp_task =
  tp_function :: nat
  tp_argument :: nat

datatype tp_worker =
    WTop
  | WWait
  | WPeek
  | WCheck tp_task
  | WRun tp_task
  | WDec
  | WTest
  | WNotify
  | WExit

datatype tp_waiter = WaitAsleep | WaitAwake | WaitReturned

record tp_pool =
  tp_thread_num :: int
  tp_tasks :: "tp_task list"
  tp_should_quit :: bool
  tp_active_tasks :: nat
  tp_callback :: "(nat \<times> nat) option"
  tp_workers :: "tp_worker list"
  tp_waiters :: "tp_waiter list"
  tp_enqueued :: "tp_task list"
  tp_executed :: "tp_task list"
  tp_abandoned :: "tp_task list"
  tp_callback_log :: "(nat \<times> nat) list"

definition ThreadPool :: "int \<Rightarrow> tp_pool" where
  "ThreadPool num = \<lparr>tp_thread_num = num, tp_tasks = [], tp_should_quit = False, tp_active_tasks = 0,
     tp_callback = None, tp_workers = [], tp_waiters = [], tp_enqueued = [], tp_executed = [],
     tp_abandoned = [], tp_callback_log = []\<rparr>"

section \<open>Operations\<close>

definition tp_Start :: "tp_pool \<Rightarrow> tp_pool" where
  "tp_Start p = p\<lparr>tp_should_quit := False,
     tp_workers := tp_workers p @ replicate (nat (tp_thread_num p)) WTop\<rparr>"

definition tp_EnqueueTask :: "nat \<Rightarrow> nat \<Rightarrow> tp_pool \<Rightarrow> bool \<times> tp_pool" where
  "tp_EnqueueTask f a p =
     (let task = \<lparr>tp_function = f, tp_argument = a\<rparr>
      in (True, p\<lparr>tp_tasks := tp_tasks p @ [task], tp_active_tasks := tp_active_tasks p + 1,
            tp_enqueued := tp_enqueued p @ [task]\<rparr>))"

definition PeekTask :: "tp_pool \<Rightarrow> (tp_task \<times> tp_pool) option" where
  "PeekTask p = (case tp_tasks p of [] \<Rightarrow> None | task # rest \<Rightarrow> Some (task, p\<lparr>tp_tasks := rest\<rparr>))"

definition ScheduleQuit :: "tp_pool \<Rightarrow> tp_pool" where
  "ScheduleQuit p = p\<lparr>tp_should_quit := True\<rparr>"

text \<open>The first part of \<open>Stop\<close>, and the condition under which its joins have returned.\<close>

definition tp_Stop :: "tp_pool \<Rightarrow> tp_pool" where
  "tp_Stop p = ScheduleQuit (p\<lparr>tp_should_quit := True\<rparr>)"

definition tp_joined :: "tp_pool \<Rightarrow> bool" where
  "tp_joined p \<longleftrightarrow> (\<forall>w \<in> set (tp_workers p). w = WExit)"

definition SetCompletionCallback :: "nat \<Rightarrow> nat \<Rightarrow> tp_pool \<Rightarrow> tp_pool" where
  "SetCompletionCallback f a p = p\<lparr>tp_callback := Some (f, a)\<rparr>"

definition ClearCompletionCallback :: "tp_pool \<Rightarrow> tp_pool" where
  "ClearCompletionCallback p = p\<lparr>tp_callback := None\<rparr>"

definition GetActiveTaskCount :: "tp_pool \<Rightarrow> nat" where
  "GetActiveTaskCount p = tp_active_tasks p"

text \<open>\<open>WaitForAllTasks\<close>, holding the lock: return or go to sleep.\<close>

definition wait_test :: "tp_pool \<Rightarrow> tp_waiter" where
  "wait_test p = (if tp_active_tasks p = 0 then WaitReturned else WaitAsleep)"

definition tp_wake :: "tp_waiter \<Rightarrow> tp_waiter" where
  "tp_wake w = (if w = WaitAsleep then WaitAwake else w)"

definition finish_notify :: "tp_pool \<Rightarrow> tp_pool" where
  "finish_notify p = p\<lparr>tp_waiters := map tp_wake (tp_waiters p),
     tp_callback_log := tp_callback_log p @ (case tp_callback p of None \<Rightarrow> [] | Some c \<Rightarrow> [c])\<rparr>"

text \<open>One step of \<open>WorkerMain\<close>; \<open>timeout\<close> ends the wait although there is no task.\<close>

definition WorkerMain :: "bool \<Rightarrow> tp_worker \<Rightarrow> tp_pool \<Rightarrow> tp_worker \<times> tp_pool" where
  "WorkerMain timeout w p =
     (case w of
        WTop \<Rightarrow> (if tp_should_quit p then WExit else WWait, p)
      | WWait \<Rightarrow> (if tp_should_quit p \<or> tp_tasks p \<noteq> [] \<or> timeout then WPeek else WWait, p)
      | WPeek \<Rightarrow> (case PeekTask p of None \<Rightarrow> (WTop, p) | Some (task, p') \<Rightarrow> (WCheck task, p'))
      | WCheck task \<Rightarrow>
          if tp_should_quit p then (WExit, p\<lparr>tp_abandoned := tp_abandoned p @ [task]\<rparr>) else (WRun task, p)
      | WRun task \<Rightarrow> (WDec, p\<lparr>tp_executed := tp_executed p @ [task]\<rparr>)
      | WDec \<Rightarrow> (WTest, p\<lparr>tp_active_tasks := tp_active_tasks p - 1\<rparr>)
      | WTest \<Rightarrow> (if tp_active_tasks p = 0 then WNotify else WTop, p)
      | WNotify \<Rightarrow> (WTop, finish_notify p)
      | WExit \<Rightarrow> (WExit, p))"

definition tp_worker_step :: "bool \<Rightarrow> nat \<Rightarrow> tp_pool \<Rightarrow> tp_pool" where
  "tp_worker_step timeout i p =
     (case WorkerMain timeout (tp_workers p ! i) p of (w, p') \<Rightarrow> p'\<lparr>tp_workers := (tp_workers p)[i := w]\<rparr>)"

inductive tp_step :: "tp_pool \<Rightarrow> tp_pool \<Rightarrow> bool" where
  tp_start: "tp_step p (tp_Start p)"
| tp_stop: "tp_step p (tp_Stop p)"
| tp_enqueue: "tp_step p (snd (tp_EnqueueTask f a p))"
| tp_set: "tp_step p (SetCompletionCallback f a p)"
| tp_clear: "tp_step p (ClearCompletionCallback p)"
| tp_wait: "tp_step p (p\<lparr>tp_waiters := tp_waiters p @ [wait_test p]\<rparr>)"
| tp_retest: "i < length (tp_waiters p) \<Longrightarrow> tp_waiters p ! i = WaitAwake \<Longrightarrow>
    tp_step p (p\<lparr>tp_waiters := (tp_waiters p)[i := wait_test p]\<rparr>)"
| tp_spurious: "i < length (tp_waiters p) \<Longrightarrow> tp_waiters p ! i = WaitAsleep \<Longrightarrow>
    tp_step p (p\<lparr>tp_waiters := (tp_waiters p)[i := WaitAwake]\<rparr>)"
| tp_work: "i < length (tp_workers p) \<Longrightarrow> tp_step p (tp_worker_step timeout i p)"

inductive tp_reach :: "int \<Rightarrow> tp_pool \<Rightarrow> bool" for num where
  tp_init: "tp_reach num (ThreadPool num)"
| tp_next: "tp_reach num p \<Longrightarrow> tp_step p q \<Longrightarrow> tp_reach num q"

section \<open>Counting the tasks\<close>

text \<open>The task a worker has taken and not yet run, and whether the count still includes it.\<close>

fun tp_in_hand :: "tp_worker \<Rightarrow> tp_task list" where
  "tp_in_hand (WCheck t) = [t]"
| "tp_in_hand (WRun t) = [t]"
| "tp_in_hand _ = []"

fun tp_counted :: "tp_worker \<Rightarrow> nat" where
  "tp_counted (WCheck t) = 1"
| "tp_counted (WRun t) = 1"
| "tp_counted WDec = 1"
| "tp_counted _ = 0"

definition tp_count_ok :: "tp_pool \<Rightarrow> bool" where
  "tp_count_ok p \<longleftrightarrow>
     tp_active_tasks p = length (tp_tasks p) + sum_list (map tp_counted (tp_workers p)) + length (tp_abandoned p)"

definition tp_tasks_ok :: "tp_pool \<Rightarrow> bool" where
  "tp_tasks_ok p \<longleftrightarrow>
     mset (tp_enqueued p) = mset (tp_tasks p) + sum_list (map (\<lambda>w. mset (tp_in_hand w)) (tp_workers p)) +
       mset (tp_executed p) + mset (tp_abandoned p)"

text \<open>A thread that sleeps although nothing is left to do has a worker on its way to tp_wake it.\<close>

definition tp_wake_ok :: "tp_pool \<Rightarrow> bool" where
  "tp_wake_ok p \<longleftrightarrow>
     (WaitAsleep \<in> set (tp_waiters p) \<and> tp_active_tasks p = 0 \<longrightarrow> WTest \<in> set (tp_workers p) \<or> WNotify \<in> set (tp_workers p))"

lemma counted_at: "i < length ws \<Longrightarrow> tp_counted (ws ! i) \<le> sum_list (map tp_counted ws)"
  using elem_le_sum_list [of i "map tp_counted ws"] by simp

lemma WorkerMain_count:
  assumes "WorkerMain timeout w p = (w', q)" "tp_counted w \<le> tp_active_tasks p"
  shows "tp_active_tasks q + (length (tp_tasks p) + tp_counted w + length (tp_abandoned p)) =
    tp_active_tasks p + (length (tp_tasks q) + tp_counted w' + length (tp_abandoned q))"
  using assms by (cases w) (auto simp: WorkerMain_def PeekTask_def finish_notify_def split: list.splits if_splits)

lemma WorkerMain_tasks:
  assumes "WorkerMain timeout w p = (w', q)"
  shows "mset (tp_tasks q) + mset (tp_in_hand w') + mset (tp_executed q) + mset (tp_abandoned q) =
    mset (tp_tasks p) + mset (tp_in_hand w) + mset (tp_executed p) + mset (tp_abandoned p)"
  using assms by (cases w) (auto simp: WorkerMain_def PeekTask_def finish_notify_def split: list.splits if_splits)

lemma WorkerMain_frame:
  assumes "WorkerMain timeout w p = (w', q)"
  shows "tp_workers q = tp_workers p" "tp_enqueued q = tp_enqueued p" "tp_should_quit q = tp_should_quit p"
    "tp_thread_num q = tp_thread_num p" "\<exists>ts. tp_abandoned q = tp_abandoned p @ ts" "\<exists>ts. tp_executed q = tp_executed p @ ts"
  using assms by (cases w; auto simp: WorkerMain_def PeekTask_def finish_notify_def split: list.splits if_splits)+

lemma worker_count:
  assumes "tp_count_ok p" "i < length (tp_workers p)"
  shows "tp_count_ok (tp_worker_step timeout i p)"
proof -
  obtain w q where st: "WorkerMain timeout (tp_workers p ! i) p = (w, q)" by force
  have "tp_counted (tp_workers p ! i) \<le> tp_active_tasks p"
    using assms(1) counted_at [OF assms(2)] by (simp add: tp_count_ok_def)
  from WorkerMain_count [OF st this] show ?thesis
    using assms(1) sum_list_map_update [OF assms(2), of tp_counted w]
    by (simp add: tp_count_ok_def tp_worker_step_def st)
qed

lemma worker_tasks:
  assumes "tp_tasks_ok p" "i < length (tp_workers p)"
  shows "tp_tasks_ok (tp_worker_step timeout i p)"
proof -
  obtain w q where st: "WorkerMain timeout (tp_workers p ! i) p = (w, q)" by force
  let ?h = "\<lambda>w. mset (tp_in_hand w)"
  let ?S = "sum_list (map ?h (tp_workers p))" and ?S' = "sum_list (map ?h ((tp_workers p)[i := w]))"
  have "mset (tp_enqueued p) + ?h w = mset (tp_tasks p) + (?S + ?h w) + mset (tp_executed p) + mset (tp_abandoned p)"
    using assms(1) by (simp add: tp_tasks_ok_def ac_simps)
  also have "\<dots> = mset (tp_tasks p) + (?S' + ?h (tp_workers p ! i)) + mset (tp_executed p) + mset (tp_abandoned p)"
    by (simp only: sum_list_map_update [OF assms(2), of ?h w])
  also have "\<dots> = (mset (tp_tasks q) + ?S' + mset (tp_executed q) + mset (tp_abandoned q)) + ?h w"
    using WorkerMain_tasks [OF st] by (simp add: ac_simps)
  finally show ?thesis
    using WorkerMain_frame [OF st] by (simp add: tp_tasks_ok_def tp_worker_step_def st)
qed

lemma tp_wake_asleep [simp]: "WaitAsleep \<notin> tp_wake ` ws"
  by (auto simp: tp_wake_def)

lemma tp_worker_wake:
  assumes "tp_wake_ok p" "i < length (tp_workers p)"
  shows "tp_wake_ok (tp_worker_step timeout i p)"
proof (cases "tp_workers p ! i \<in> {WDec, WTest, WNotify}")
  case True
  have "w \<in> set ((tp_workers p)[i := w])" for w using assms(2) by (rule set_update_memI)
  then show ?thesis
    using True by (auto simp: tp_wake_ok_def tp_worker_step_def WorkerMain_def finish_notify_def)
next
  case False
  obtain w q where st: "WorkerMain timeout (tp_workers p ! i) p = (w, q)" by force
  have "tp_waiters q = tp_waiters p" "tp_active_tasks q = tp_active_tasks p"
    using False st by (cases "tp_workers p ! i"; auto simp: WorkerMain_def PeekTask_def split: list.splits if_splits)+
  moreover have "v \<in> set ((tp_workers p)[i := w])" if "v \<in> set (tp_workers p)" "v \<noteq> tp_workers p ! i" for v
    using that by (metis in_set_conv_nth length_list_update nth_list_update_neq)
  ultimately show ?thesis
    using assms(1) False by (auto simp: tp_wake_ok_def tp_worker_step_def st)
qed

lemma sum_list_no_msets [simp]: "sum_list (replicate n {#}) = {#}"
  by (induction n) auto

lemma tp_step_ok:
  assumes "tp_step p q" "tp_count_ok p" "tp_tasks_ok p" "tp_wake_ok p"
  shows "tp_count_ok q \<and> tp_tasks_ok q \<and> tp_wake_ok q"
  using assms
proof (induction rule: tp_step.induct)
  case (tp_work i p timeout)
  then show ?case using worker_count worker_tasks tp_worker_wake by blast
next
  case (tp_retest i p)
  then show ?case
    using set_update_subset_insert [of "tp_waiters p" i "wait_test p"]
    by (auto simp: tp_count_ok_def tp_tasks_ok_def tp_wake_ok_def wait_test_def)
next
  case (tp_spurious i p)
  then show ?case
    using set_update_subset_insert [of "tp_waiters p" i WaitAwake]
    by (auto simp: tp_count_ok_def tp_tasks_ok_def tp_wake_ok_def)
qed (auto simp: tp_count_ok_def tp_tasks_ok_def tp_wake_ok_def tp_Start_def tp_Stop_def ScheduleQuit_def
  tp_EnqueueTask_def SetCompletionCallback_def ClearCompletionCallback_def wait_test_def Let_def
  sum_list_replicate map_replicate)

lemma tp_reach_ok: "tp_reach num p \<Longrightarrow> tp_count_ok p \<and> tp_tasks_ok p \<and> tp_wake_ok p"
proof (induction rule: tp_reach.induct)
  case tp_init
  then show ?case by (simp add: ThreadPool_def tp_count_ok_def tp_tasks_ok_def tp_wake_ok_def)
next
  case (tp_next p q)
  then show ?case using tp_step_ok by blast
qed

text \<open>C9: However clients and workers interleave, each enqueued task is queued, in the hands of one
  worker, executed or abandoned (taken by a worker that then saw \<open>should_quit_\<close>), exactly once; the active
  count is exactly the number of queued tasks, of tasks a worker has taken and not yet counted down, and of
  abandoned ones, so it never underflows; and \<open>GetActiveTaskCount\<close> is zero only when every
  task was executed, none of them more than once.\<close>

theorem tp_conserves_tasks:
  assumes "tp_reach num p"
  shows "mset (tp_enqueued p) = mset (tp_tasks p) + sum_list (map (\<lambda>w. mset (tp_in_hand w)) (tp_workers p)) +
      mset (tp_executed p) + mset (tp_abandoned p) \<and>
    GetActiveTaskCount p = length (tp_tasks p) + sum_list (map tp_counted (tp_workers p)) + length (tp_abandoned p) \<and>
    (\<forall>i < length (tp_workers p). tp_workers p ! i = WDec \<longrightarrow> 0 < tp_active_tasks p) \<and>
    (GetActiveTaskCount p = 0 \<longrightarrow> mset (tp_executed p) = mset (tp_enqueued p))"
proof -
  have ok: "tp_count_ok p" "tp_tasks_ok p" using tp_reach_ok [OF assms] by auto
  have idle: "tp_in_hand w = []" if "w \<in> set (tp_workers p)" "tp_active_tasks p = 0" for w
  proof -
    have "tp_counted w = 0" using ok(1) that by (auto simp: tp_count_ok_def sum_list_eq_0_iff)
    then show ?thesis by (cases w) auto
  qed
  have "mset (tp_executed p) = mset (tp_enqueued p)" if "tp_active_tasks p = 0"
  proof -
    have "map (\<lambda>w. mset (tp_in_hand w)) (tp_workers p) = replicate (length (tp_workers p)) {#}"
      using idle [OF _ that] by (intro replicate_eqI) auto
    then show ?thesis using ok that by (simp add: tp_count_ok_def tp_tasks_ok_def)
  qed
  moreover have "0 < tp_active_tasks p" if "i < length (tp_workers p)" "tp_workers p ! i = WDec" for i
    using counted_at [OF that(1)] ok(1) that(2) by (simp add: tp_count_ok_def)
  ultimately show ?thesis using ok by (auto simp: tp_tasks_ok_def tp_count_ok_def GetActiveTaskCount_def)
qed

text \<open>No wake-up of \<open>WaitForAllTasks\<close> is lost, although the count is decremented and tested
  without the lock: whenever a thread sleeps in it and no task is left, some worker is about to
  test the count or to notify, and two steps of that worker wake every sleeper.\<close>

theorem tp_no_lost_wakeup:
  assumes "tp_reach num p" "WaitAsleep \<in> set (tp_waiters p)" "tp_active_tasks p = 0"
  shows "\<exists>i < length (tp_workers p). \<exists>n \<le> 2.
    WaitAsleep \<notin> set (tp_waiters ((tp_worker_step False i ^^ n) p))"
proof -
  obtain i where i: "i < length (tp_workers p)" "tp_workers p ! i = WTest \<or> tp_workers p ! i = WNotify"
    using tp_reach_ok [OF assms(1)] assms(2,3) by (auto simp: tp_wake_ok_def in_set_conv_nth)
  have n: "WaitAsleep \<notin> set (tp_waiters (tp_worker_step False i q))" if "tp_workers q ! i = WNotify" for q
    using that by (simp add: tp_worker_step_def WorkerMain_def finish_notify_def)
  show ?thesis
  proof (cases "tp_workers p ! i = WNotify")
    case True
    then show ?thesis using n [of p] i(1) by (intro exI [of _ i] conjI exI [of _ "1 :: nat"]) auto
  next
    case False
    then have "tp_workers (tp_worker_step False i p) ! i = WNotify"
      using i assms(3) by (simp add: tp_worker_step_def WorkerMain_def)
    from n [OF this] show ?thesis
      using i(1) by (intro exI [of _ i] conjI exI [of _ "2 :: nat"]) (auto simp: numeral_2_eq_2)
  qed
qed

section \<open>Stopping\<close>

text \<open>The steps a worker still takes once the flag is up.\<close>

fun quit_rank :: "tp_worker \<Rightarrow> nat" where
  "quit_rank WExit = 0"
| "quit_rank WTop = 1"
| "quit_rank (WCheck t) = 1"
| "quit_rank WPeek = 2"
| "quit_rank WWait = 3"
| "quit_rank WNotify = 2"
| "quit_rank WTest = 3"
| "quit_rank WDec = 4"
| "quit_rank (WRun t) = 5"

lemma WorkerMain_quit:
  "WorkerMain timeout w p = (w', q) \<Longrightarrow> tp_should_quit p \<Longrightarrow> w \<noteq> WExit \<Longrightarrow> quit_rank w' < quit_rank w"
  by (cases w) (auto simp: WorkerMain_def PeekTask_def split: list.splits if_splits)

lemma worker_quit_frame:
  "tp_should_quit (tp_worker_step timeout i p) = tp_should_quit p"
  "length (tp_workers (tp_worker_step timeout i p)) = length (tp_workers p)"
  by (cases "WorkerMain timeout (tp_workers p ! i) p"; simp add: tp_worker_step_def WorkerMain_frame)+

lemma worker_quit_rank:
  assumes "tp_should_quit p" "i < length (tp_workers p)" "tp_workers p ! i \<noteq> WExit"
  shows "sum_list (map quit_rank (tp_workers (tp_worker_step timeout i p))) < sum_list (map quit_rank (tp_workers p))"
proof -
  obtain w q where st: "WorkerMain timeout (tp_workers p ! i) p = (w, q)" by force
  show ?thesis
    using sum_list_map_update [OF assms(2), of quit_rank w] WorkerMain_quit [OF st assms(1,3)]
    by (simp add: tp_worker_step_def st)
qed

text \<open>A run of the workers: each step is one of a worker that has not left.\<close>

inductive quit_run :: "nat \<Rightarrow> tp_pool \<Rightarrow> tp_pool \<Rightarrow> bool" where
  quit_stop: "quit_run 0 p p"
| quit_more: "i < length (tp_workers p) \<Longrightarrow> tp_workers p ! i \<noteq> WExit \<Longrightarrow>
    quit_run n (tp_worker_step timeout i p) q \<Longrightarrow> quit_run (Suc n) p q"

lemma quit_run_bound:
  "quit_run n p q \<Longrightarrow> tp_should_quit p \<Longrightarrow>
     n + sum_list (map quit_rank (tp_workers q)) \<le> sum_list (map quit_rank (tp_workers p)) \<and> tp_should_quit q"
proof (induction rule: quit_run.induct)
  case (quit_more i p n timeout q)
  then show ?case using worker_quit_rank [of p i timeout] by (simp add: worker_quit_frame)
qed simp

lemma quit_rank_le: "quit_rank w \<le> 5"
  by (cases w) auto

text \<open>The joins of \<open>Stop\<close> return: after the flag is set the workers together take at most
  five steps each, whatever their order and whatever is still queued; while one of them has not
  left it can take a step, and when none can, all have left.\<close>

theorem tp_stop_terminates:
  assumes "quit_run n (tp_Stop p) q"
  shows "n \<le> 5 * length (tp_workers p) \<and>
    (tp_joined q \<or> (\<exists>i r. i < length (tp_workers q) \<and> tp_workers q ! i \<noteq> WExit \<and> quit_run 1 q r))"
proof -
  have s: "tp_should_quit (tp_Stop p)" "tp_workers (tp_Stop p) = tp_workers p"
    by (simp_all add: tp_Stop_def ScheduleQuit_def)
  have "sum_list (map quit_rank (tp_workers p)) \<le> sum_list (map (\<lambda>w. 5) (tp_workers p))"
    by (intro sum_list_mono quit_rank_le)
  then have "n \<le> 5 * length (tp_workers p)"
    using quit_run_bound [OF assms s(1)] by (simp add: s(2) sum_list_triv mult.commute)
  moreover have "tp_joined q \<or> (\<exists>i r. i < length (tp_workers q) \<and> tp_workers q ! i \<noteq> WExit \<and> quit_run 1 q r)"
    unfolding tp_joined_def One_nat_def by (metis in_set_conv_nth quit_more quit_stop)
  ultimately show ?thesis by simp
qed

lemma abandoned_grows: "tp_step p q \<Longrightarrow> length (tp_abandoned p) \<le> length (tp_abandoned q)"
proof (induction rule: tp_step.induct)
  case (tp_work i p timeout)
  obtain w q where st: "WorkerMain timeout (tp_workers p ! i) p = (w, q)" by force
  then show ?case using WorkerMain_frame(5) [OF st] by (auto simp: tp_worker_step_def)
qed (simp_all add: tp_Start_def tp_Stop_def ScheduleQuit_def tp_EnqueueTask_def SetCompletionCallback_def
  ClearCompletionCallback_def Let_def)

lemma filter_update:
  "i < length ws \<Longrightarrow> ws ! i \<noteq> r \<Longrightarrow> y \<noteq> r \<Longrightarrow> length (filter ((=) r) (ws[i := y])) = length (filter ((=) r) ws)"
  by (induction ws arbitrary: i) (auto split: nat.splits)

lemma abandoned_step:
  assumes "tp_step p q" "0 < tp_active_tasks p"
  shows "length (filter ((=) WaitReturned) (tp_waiters q)) = length (filter ((=) WaitReturned) (tp_waiters p))"
  using assms
proof (induction rule: tp_step.induct)
  case (tp_work i p timeout)
  obtain w q where st: "WorkerMain timeout (tp_workers p ! i) p = (w, q)" by force
  have "length (filter ((=) WaitReturned) (map tp_wake ws)) = length (filter ((=) WaitReturned) ws)" for ws
    by (induction ws) (auto simp: tp_wake_def)
  then show ?case using st
    by (cases "tp_workers p ! i")
      (auto simp: tp_worker_step_def WorkerMain_def PeekTask_def finish_notify_def split: list.splits if_splits)
next
  case (tp_retest i p)
  then show ?case using filter_update [of i "tp_waiters p" WaitReturned WaitAsleep] by (simp add: wait_test_def)
next
  case (tp_spurious i p)
  then show ?case using filter_update [of i "tp_waiters p" WaitReturned WaitAwake] by simp
qed (simp_all add: tp_Start_def tp_Stop_def ScheduleQuit_def tp_EnqueueTask_def SetCompletionCallback_def
  ClearCompletionCallback_def wait_test_def Let_def)

text \<open>C39: Abandoned work hangs the waiters: once a worker has taken a task and left with it because
  the flag was up, the count never reaches zero again, so no later call of \<open>WaitForAllTasks\<close>
  returns and none that sleeps will, even after a new \<open>Start\<close>.\<close>

theorem tp_abandoned_hangs:
  assumes "tp_reach num p" "tp_abandoned p \<noteq> []" "tp_step\<^sup>*\<^sup>* p q"
  shows "0 < GetActiveTaskCount q \<and>
    length (filter ((=) WaitReturned) (tp_waiters q)) = length (filter ((=) WaitReturned) (tp_waiters p))"
proof -
  have pos: "0 < tp_active_tasks r" if "tp_reach num r" "0 < length (tp_abandoned r)" for r
    using tp_reach_ok [OF that(1)] that(2) by (auto simp: tp_count_ok_def)
  have "tp_reach num q \<and> 0 < length (tp_abandoned q) \<and>
      length (filter ((=) WaitReturned) (tp_waiters q)) = length (filter ((=) WaitReturned) (tp_waiters p))"
    using assms(3)
  proof (induction rule: rtranclp_induct)
    case base
    then show ?case using assms by simp
  next
    case (step q r)
    then show ?case
      using tp_next abandoned_grows [OF step(2)] abandoned_step [OF step(2)] pos by auto
  qed
  then show ?thesis using pos by (simp add: GetActiveTaskCount_def)
qed

section \<open>Runs\<close>

text \<open>A run of the workers in a given order, without timeouts.\<close>

fun tp_schedule :: "nat list \<Rightarrow> tp_pool \<Rightarrow> tp_pool" where
  "tp_schedule [] p = p"
| "tp_schedule (i # is) p = tp_schedule is (tp_worker_step False i p)"

lemma tp_schedule_reach:
  "tp_reach num p \<Longrightarrow> \<forall>i \<in> set is. i < length (tp_workers p) \<Longrightarrow> tp_reach num (tp_schedule is p)"
proof (induction "is" arbitrary: p)
  case (Cons i "is")
  then have "tp_reach num (tp_worker_step False i p)" by (intro tp_next [OF _ tp_work]) auto
  then show ?case using Cons by (simp add: worker_quit_frame)
qed simp

lemmas tp_ops = ThreadPool_def tp_Start_def tp_Stop_def ScheduleQuit_def tp_EnqueueTask_def
  SetCompletionCallback_def tp_worker_step_def WorkerMain_def PeekTask_def finish_notify_def

definition tp_two_tasks :: tp_pool where
  "tp_two_tasks = snd (tp_EnqueueTask 5 0 (snd (tp_EnqueueTask 4 0 (SetCompletionCallback 9 1 (tp_Start (ThreadPool 2))))))"

lemma tp_two_tasks_reach: "tp_reach 2 tp_two_tasks"
  unfolding tp_two_tasks_def by (intro tp_next [OF _ tp_enqueue] tp_next [OF _ tp_set] tp_next [OF _ tp_start] tp_init)

text \<open>The completion callback can be called twice for one completion: the decrement and the
  test of the count are separate, so two workers that finish the last two tasks can both see
  zero.\<close>

theorem tp_double_callback:
  "\<exists>p. tp_reach 2 p \<and> length (tp_enqueued p) = 2 \<and> mset (tp_executed p) = mset (tp_enqueued p) \<and>
     tp_callback_log p = [(9, 1), (9, 1)]"
proof -
  let ?p = "tp_schedule [0, 1, 0, 1, 0, 1, 0, 1, 0, 1, 0, 1, 0, 1, 0, 1] tp_two_tasks"
  have "tp_reach 2 ?p" by (rule tp_schedule_reach [OF tp_two_tasks_reach]) (simp add: tp_two_tasks_def tp_ops Let_def)
  moreover have "tp_enqueued ?p = [\<lparr>tp_function = 4, tp_argument = 0\<rparr>, \<lparr>tp_function = 5, tp_argument = 0\<rparr>] \<and>
      tp_executed ?p = [\<lparr>tp_function = 4, tp_argument = 0\<rparr>, \<lparr>tp_function = 5, tp_argument = 0\<rparr>] \<and>
      tp_callback_log ?p = [(9, 1), (9, 1)]"
    by (simp add: tp_two_tasks_def tp_ops Let_def numeral_2_eq_2)
  ultimately show ?thesis by (intro exI [of _ ?p]) simp
qed

text \<open>A worker has run the first task while a thread waits, and is about to test the count; and a pool
  stopped while a worker holds a task.\<close>

definition tp_waited :: tp_pool where
  "tp_waited = tp_schedule [0, 0, 0, 0, 0, 0]
     ((snd (tp_EnqueueTask 4 0 (tp_Start (ThreadPool 1))))\<lparr>tp_waiters := [WaitAsleep]\<rparr>)"

lemma tp_waited_reach: "tp_reach 1 tp_waited"
proof -
  let ?p = "snd (tp_EnqueueTask 4 0 (tp_Start (ThreadPool 1)))"
  have "tp_reach 1 ?p" by (intro tp_next [OF _ tp_enqueue] tp_next [OF _ tp_start] tp_init)
  from tp_next [OF this tp_wait] have "tp_reach 1 (?p\<lparr>tp_waiters := [WaitAsleep]\<rparr>)"
    by (simp add: wait_test_def tp_ops Let_def)
  then show ?thesis unfolding tp_waited_def
    by (rule tp_schedule_reach) (simp add: tp_ops Let_def)
qed

lemma tp_waited_eval:
  "tp_waiters tp_waited = [WaitAsleep] \<and> tp_active_tasks tp_waited = 0 \<and> tp_workers tp_waited = [WTest] \<and>
   tp_enqueued tp_waited = [\<lparr>tp_function = 4, tp_argument = 0\<rparr>]"
  by (simp add: tp_waited_def tp_ops Let_def)

theorem tp_conserves_tasks_witness:
  "tp_reach 1 tp_waited \<and> tp_executed tp_waited = [\<lparr>tp_function = 4, tp_argument = 0\<rparr>]"
  using tp_conserves_tasks [OF tp_waited_reach] tp_waited_reach tp_waited_eval
  by (auto simp: GetActiveTaskCount_def)

definition tp_stopped :: tp_pool where
  "tp_stopped = tp_schedule [0] (tp_Stop (tp_schedule [0, 0, 0] tp_two_tasks))"

lemma tp_stopped_reach: "tp_reach 2 tp_stopped"
proof -
  have w: "length (tp_workers tp_two_tasks) = 2" by (simp add: tp_two_tasks_def tp_ops Let_def)
  then have "tp_reach 2 (tp_schedule [0, 0, 0] tp_two_tasks)"
    by (intro tp_schedule_reach [OF tp_two_tasks_reach]) simp
  then have "tp_reach 2 (tp_Stop (tp_schedule [0, 0, 0] tp_two_tasks))" by (rule tp_next [OF _ tp_stop])
  then show ?thesis unfolding tp_stopped_def
    using w by (intro tp_schedule_reach) (simp_all add: tp_Stop_def ScheduleQuit_def worker_quit_frame)
qed

theorem tp_abandoned_hangs_witness: "0 < GetActiveTaskCount (tp_Start tp_stopped)"
proof -
  have "tp_abandoned tp_stopped \<noteq> []" by (simp add: tp_stopped_def tp_two_tasks_def tp_ops Let_def numeral_2_eq_2)
  moreover have "tp_step\<^sup>*\<^sup>* tp_stopped (tp_Start tp_stopped)" using tp_start by (rule r_into_rtranclp)
  ultimately show ?thesis using tp_abandoned_hangs [OF tp_stopped_reach] by blast
qed

end
