(* ===== verification/Std_Algorithms.thy ===== *)
theory Std_Algorithms
  imports Order_Interfaces
begin

text \<open>
  The algorithms of the standard library that the sorted containers call, as functions on
  lists: the binary searches with the halving the library uses, the stable sort, \<open>unique\<close>,
  \<open>adjacent_find\<close> and the merge of two sorted ranges; with their laws for a comparison
  that is a strict weak order.  Strictly sorted lists are determined by their elements.
\<close>

section \<open>Binary search\<close>

text \<open>\<open>std::lower_bound\<close> on the \<open>len\<close> cells from \<open>fst\<close> on; the predicate is the comparison of an
  element with the key.\<close>

function std_lower_bound :: "('v \<Rightarrow> bool) \<Rightarrow> 'v list \<Rightarrow> nat \<Rightarrow> nat \<Rightarrow> nat" where
  "std_lower_bound below xs b len =
     (if len = 0 then b
      else let half = len div 2; middle = b + half
        in if below (xs ! middle) then std_lower_bound below xs (middle + 1) (len - half - 1)
           else std_lower_bound below xs b half)"
  by pat_completeness auto
termination by (relation "measure (\<lambda>(below, xs, b, len). len)") auto

text \<open>\<open>std::upper_bound\<close>; the predicate is the comparison of the key with an element.\<close>

function std_upper_bound :: "('v \<Rightarrow> bool) \<Rightarrow> 'v list \<Rightarrow> nat \<Rightarrow> nat \<Rightarrow> nat" where
  "std_upper_bound over xs b len =
     (if len = 0 then b
      else let half = len div 2; middle = b + half
        in if over (xs ! middle) then std_upper_bound over xs b half
           else std_upper_bound over xs (middle + 1) (len - half - 1))"
  by pat_completeness auto
termination by (relation "measure (\<lambda>(over, xs, b, len). len)") auto

declare std_lower_bound.simps [simp del] std_upper_bound.simps [simp del]

lemma std_lower_bound_range:
  assumes "\<And>i j. b \<le> i \<Longrightarrow> i \<le> j \<Longrightarrow> j < b + len \<Longrightarrow> below (xs ! j) \<Longrightarrow> below (xs ! i)"
  shows "b \<le> std_lower_bound below xs b len \<and> std_lower_bound below xs b len \<le> b + len \<and>
    (\<forall>i. b \<le> i \<and> i < std_lower_bound below xs b len \<longrightarrow> below (xs ! i)) \<and>
    (\<forall>i. std_lower_bound below xs b len \<le> i \<and> i < b + len \<longrightarrow> \<not> below (xs ! i))"
  using assms
proof (induction below xs b len rule: std_lower_bound.induct)
  case (1 below xs b len)
  define m where "m = b + len div 2"
  show ?case
  proof (cases "len = 0")
    case False
    then have m: "b \<le> m" "m < b + len" "m + 1 + (len - len div 2 - 1) = b + len" by (auto simp: m_def)
    show ?thesis
    proof (cases "below (xs ! m)")
      case True
      have eq: "std_lower_bound below xs b len = std_lower_bound below xs (m + 1) (len - len div 2 - 1)"
        using False True by (subst std_lower_bound.simps) (simp add: Let_def m_def)
      have "below (xs ! i)" if "b \<le> i" "i < m + 1" for i
        using "1.prems" [of i m] True that m by auto
      then show ?thesis
        using "1.IH"(1) [OF False refl m_def True] "1.prems" m unfolding eq
        by (smt (verit) add.commute add_leD1 le_trans not_less)
    next
      case nb: False
      have eq: "std_lower_bound below xs b len = std_lower_bound below xs b (len div 2)"
        using False nb by (subst std_lower_bound.simps) (simp add: Let_def m_def)
      have "\<not> below (xs ! i)" if "m \<le> i" "i < b + len" for i
        using "1.prems" [of m i] nb that m by auto
      then show ?thesis
        using "1.IH"(2) [OF False refl m_def nb] "1.prems" m unfolding eq
        by (smt (verit) le_trans less_le_trans m_def nat_le_linear not_less order_less_imp_le)
    qed
  qed (auto simp: std_lower_bound.simps)
qed

lemma std_upper_bound_lower: "std_upper_bound over xs b len = std_lower_bound (\<lambda>x. \<not> over x) xs b len"
proof (induction over xs b len rule: std_upper_bound.induct)
  case (1 over xs b len)
  then show ?case
    by (subst std_upper_bound.simps, subst std_lower_bound.simps) (auto simp: Let_def)
qed

text \<open>On a range that is partitioned by the predicate, the search finds the partition point.\<close>

lemma std_lower_bound_takeWhile:
  assumes "n \<le> length xs" "\<And>i j. i \<le> j \<Longrightarrow> j < n \<Longrightarrow> below (xs ! j) \<Longrightarrow> below (xs ! i)"
  shows "std_lower_bound below xs 0 n = length (takeWhile below (take n xs))"
proof -
  let ?r = "std_lower_bound below xs 0 n"
  have r: "?r \<le> n" "\<And>i. i < ?r \<Longrightarrow> below (xs ! i)" "\<And>i. ?r \<le> i \<Longrightarrow> i < n \<Longrightarrow> \<not> below (xs ! i)"
    using std_lower_bound_range [of 0 n below xs] assms(2) by auto
  have "takeWhile below (take n xs) = take ?r (take n xs)"
    by (rule takeWhile_eq_take_P_nth) (use r assms(1) in auto)
  then show ?thesis using r(1) assms(1) by simp
qed

section \<open>Sorting, merging, removing repetitions\<close>

text \<open>A stable sort: an element goes before the elements that are not less than it.\<close>

fun std_insort :: "('v \<Rightarrow> 'v \<Rightarrow> bool) \<Rightarrow> 'v \<Rightarrow> 'v list \<Rightarrow> 'v list" where
  "std_insort lt x [] = [x]"
| "std_insort lt x (y # ys) = (if lt y x then y # std_insort lt x ys else x # y # ys)"

definition std_stable_sort :: "('v \<Rightarrow> 'v \<Rightarrow> bool) \<Rightarrow> 'v list \<Rightarrow> 'v list" where
  "std_stable_sort lt xs = foldr (std_insort lt) xs []"

text \<open>\<open>std::unique\<close> keeps the first of each run of elements that match.\<close>

fun std_unique :: "('v \<Rightarrow> 'v \<Rightarrow> bool) \<Rightarrow> 'v list \<Rightarrow> 'v list" where
  "std_unique same (x # y # ys) = (if same x y then std_unique same (x # ys) else x # std_unique same (y # ys))"
| "std_unique same xs = xs"

text \<open>The position of the first element that matches the one after it, or the length.\<close>

fun std_adjacent_find :: "('v \<Rightarrow> 'v \<Rightarrow> bool) \<Rightarrow> 'v list \<Rightarrow> nat" where
  "std_adjacent_find same (x # y # ys) = (if same x y then 0 else Suc (std_adjacent_find same (y # ys)))"
| "std_adjacent_find same xs = length xs"

fun std_merge :: "('v \<Rightarrow> 'v \<Rightarrow> bool) \<Rightarrow> 'v list \<Rightarrow> 'v list \<Rightarrow> 'v list" where
  "std_merge lt (x # xs) (y # ys) = (if lt y x then y # std_merge lt (x # xs) ys else x # std_merge lt xs (y # ys))"
| "std_merge lt [] ys = ys"
| "std_merge lt xs [] = xs"

lemma set_std_insort [simp]: "set (std_insort lt x xs) = insert x (set xs)"
  by (induction xs) auto

lemma set_std_stable_sort [simp]: "set (std_stable_sort lt xs) = set xs"
  by (induction xs) (auto simp: std_stable_sort_def)

lemma length_std_insort [simp]: "length (std_insort lt x xs) = Suc (length xs)"
  by (induction xs) auto

lemma length_std_stable_sort [simp]: "length (std_stable_sort lt xs) = length xs"
  by (induction xs) (auto simp: std_stable_sort_def)

lemma set_std_merge [simp]: "set (std_merge lt xs ys) = set xs \<union> set ys"
  by (induction lt xs ys rule: std_merge.induct) auto

text \<open>The reference for removing repetitions: the elements that match none before them, or none
  after them.\<close>

fun first_of :: "('v \<Rightarrow> 'v \<Rightarrow> bool) \<Rightarrow> 'v list \<Rightarrow> 'v \<Rightarrow> bool" where
  "first_of same [] v \<longleftrightarrow> False"
| "first_of same (x # xs) v \<longleftrightarrow> v = x \<or> (\<not> same x v \<and> first_of same xs v)"

fun last_of :: "('v \<Rightarrow> 'v \<Rightarrow> bool) \<Rightarrow> 'v list \<Rightarrow> 'v \<Rightarrow> bool" where
  "last_of same [] v \<longleftrightarrow> False"
| "last_of same (x # xs) v \<longleftrightarrow> (v = x \<and> (\<forall>w \<in> set xs. \<not> same x w)) \<or> last_of same xs v"

text \<open>The last of each run of elements that match.\<close>

fun run_lasts :: "('v \<Rightarrow> 'v \<Rightarrow> bool) \<Rightarrow> 'v list \<Rightarrow> 'v list" where
  "run_lasts same (x # y # ys) = (if same x y then run_lasts same (y # ys) else x # run_lasts same (y # ys))"
| "run_lasts same xs = xs"

lemma first_of_in: "first_of same xs v \<Longrightarrow> v \<in> set xs"
  by (induction xs) auto

lemma last_of_in: "last_of same xs v \<Longrightarrow> v \<in> set xs"
  by (induction xs) auto

section \<open>Under a strict weak order\<close>

definition matches :: "('v \<Rightarrow> 'v \<Rightarrow> bool) \<Rightarrow> 'v \<Rightarrow> 'v \<Rightarrow> bool" where
  "matches lt a b \<longleftrightarrow> \<not> lt a b \<and> \<not> lt b a"

context strict_weak_order
begin

lemma matches_refl: "matches lt x x"
  by (simp add: matches_def lt_irrefl)

lemma matches_sym: "matches lt x y \<Longrightarrow> matches lt y x"
  by (simp add: matches_def)

lemma matches_trans: "matches lt x y \<Longrightarrow> matches lt y z \<Longrightarrow> matches lt x z"
  unfolding matches_def using incomp_trans by blast

lemma std_insort_sorted:
  "sorted_wrt (\<lambda>a b. \<not> lt b a) xs \<Longrightarrow> sorted_wrt (\<lambda>a b. \<not> lt b a) (std_insort lt x xs)"
proof (induction xs)
  case (Cons y ys)
  show ?case
  proof (cases "lt y x")
    case True
    then show ?thesis using Cons lt_asym [OF True] by simp
  next
    case False
    then have "\<not> lt b x" if "b \<in> set ys" for b using that Cons.prems incomp_trans [of b y x] by simp
    then show ?thesis using False Cons.prems by simp
  qed
qed simp

lemma std_stable_sort_sorted: "sorted_wrt (\<lambda>a b. \<not> lt b a) (std_stable_sort lt xs)"
  by (induction xs) (auto simp: std_stable_sort_def std_insort_sorted)

lemma first_of_insort: "first_of (matches lt) (std_insort lt x ys) v = first_of (matches lt) (x # ys) v"
  by (induction ys) (auto simp: matches_def)

lemma last_of_insort: "last_of (matches lt) (std_insort lt x ys) v = last_of (matches lt) (x # ys) v"
  by (induction ys) (auto simp: matches_def)

lemma first_of_sort: "first_of (matches lt) (std_stable_sort lt xs) v = first_of (matches lt) xs v"
  by (induction xs arbitrary: v) (auto simp: std_stable_sort_def first_of_insort)

lemma last_of_sort: "last_of (matches lt) (std_stable_sort lt xs) v = last_of (matches lt) xs v"
proof (induction xs arbitrary: v)
  case (Cons x xs)
  then show ?case
    using set_std_stable_sort [of lt xs] by (simp add: std_stable_sort_def last_of_insort)
qed (simp add: std_stable_sort_def)

lemma two_step_induct:
  assumes "P []" "\<And>x. P [x]" "\<And>x y ys. P (x # ys) \<Longrightarrow> P (y # ys) \<Longrightarrow> P (x # y # ys)"
  shows "P xs"
proof (induction xs rule: length_induct)
  case (1 xs)
  show ?case
  proof (cases xs)
    case (Cons x zs)
    then show ?thesis using assms 1 by (cases zs) auto
  qed (simp add: assms)
qed

lemma std_unique_sorted:
  assumes "sorted_wrt (\<lambda>a b. \<not> lt b a) xs"
  shows "sorted_wrt lt (std_unique (\<lambda>a b. \<not> lt a b) xs) \<and>
    set (std_unique (\<lambda>a b. \<not> lt a b) xs) = {v. first_of (matches lt) xs v}"
  using assms
proof (induction xs rule: two_step_induct)
  case (3 x y ys)
  show ?case
  proof (cases "lt x y")
    case True
    then have above: "lt x v" if "v \<in> set (y # ys)" for v
      using that "3.prems" lt_le_trans [of x y v] by auto
    then have "\<not> matches lt x v" if "first_of (matches lt) (y # ys) v" for v
      using first_of_in [OF that] by (simp add: matches_def)
    then have eq: "{v. first_of (matches lt) (x # y # ys) v} = insert x {v. first_of (matches lt) (y # ys) v}"
      by (simp only: first_of.simps(2) [of _ x]) blast
    have "sorted_wrt lt (std_unique (\<lambda>a b. \<not> lt a b) (y # ys))"
      "set (std_unique (\<lambda>a b. \<not> lt a b) (y # ys)) = {v. first_of (matches lt) (y # ys) v}"
      using "3.IH"(2) "3.prems" by auto
    moreover have "lt x v" if "first_of (matches lt) (y # ys) v" for v using above [OF first_of_in [OF that]] .
    ultimately show ?thesis unfolding eq using True by (simp del: first_of.simps)
  next
    case False
    then have xy: "matches lt x y" using "3.prems" by (simp add: matches_def)
    have "matches lt x v" if "v = y \<or> matches lt y v" for v using that xy matches_trans [OF xy, of v] by blast
    then have eq: "first_of (matches lt) (x # y # ys) v = first_of (matches lt) (x # ys) v" for v by auto
    have "sorted_wrt lt (std_unique (\<lambda>a b. \<not> lt a b) (x # ys))"
      "set (std_unique (\<lambda>a b. \<not> lt a b) (x # ys)) = {v. first_of (matches lt) (x # ys) v}"
      using "3.IH"(1) "3.prems" by auto
    then show ?thesis unfolding eq using False by simp
  qed
qed auto

lemma run_lasts_sorted:
  assumes "sorted_wrt (\<lambda>a b. \<not> lt b a) xs"
  shows "sorted_wrt lt (run_lasts (\<lambda>a b. \<not> lt a b) xs) \<and>
    set (run_lasts (\<lambda>a b. \<not> lt a b) xs) = {v. last_of (matches lt) xs v}"
  using assms
proof (induction xs rule: two_step_induct)
  case (3 x y ys)
  show ?case
  proof (cases "lt x y")
    case True
    then have above: "lt x v" if "v \<in> set (y # ys)" for v
      using that "3.prems" lt_le_trans [of x y v] by auto
    then have nm: "\<forall>w \<in> set (y # ys). \<not> matches lt x w" by (simp add: matches_def)
    then have eq: "{v. last_of (matches lt) (x # y # ys) v} = insert x {v. last_of (matches lt) (y # ys) v}"
      by (simp only: last_of.simps(2) [of _ x]) blast
    have "sorted_wrt lt (run_lasts (\<lambda>a b. \<not> lt a b) (y # ys))"
      "set (run_lasts (\<lambda>a b. \<not> lt a b) (y # ys)) = {v. last_of (matches lt) (y # ys) v}"
      using "3.IH"(2) "3.prems" by auto
    moreover have "lt x v" if "last_of (matches lt) (y # ys) v" for v using above [OF last_of_in [OF that]] .
    ultimately show ?thesis unfolding eq using True by (simp del: last_of.simps)
  next
    case False
    then have xy: "matches lt x y" using "3.prems" by (simp add: matches_def)
    then have eq: "last_of (matches lt) (x # y # ys) v = last_of (matches lt) (y # ys) v" for v by simp
    have "sorted_wrt lt (run_lasts (\<lambda>a b. \<not> lt a b) (y # ys))"
      "set (run_lasts (\<lambda>a b. \<not> lt a b) (y # ys)) = {v. last_of (matches lt) (y # ys) v}"
      using "3.IH"(2) "3.prems" by auto
    then show ?thesis unfolding eq using False by simp
  qed
qed auto

lemma std_merge_sorted:
  "sorted_wrt lt xs \<Longrightarrow> sorted_wrt lt ys \<Longrightarrow> \<forall>x \<in> set xs. \<forall>y \<in> set ys. \<not> matches lt x y \<Longrightarrow>
     sorted_wrt lt (std_merge lt xs ys)"
proof (induction "length xs + length ys" arbitrary: xs ys rule: less_induct)
  case less
  show ?case
  proof (cases xs)
    case xs: (Cons x us)
    show ?thesis
    proof (cases ys)
      case ys: (Cons y vs)
      show ?thesis
      proof (cases "lt y x")
        case True
        then have "lt y v" if "v \<in> set us" for v using that less.prems(1) xs lt_trans [OF True] by simp
        moreover have "sorted_wrt lt (std_merge lt (x # us) vs)"
          by (rule less.hyps) (use less.prems xs ys in auto)
        ultimately show ?thesis using less.prems xs ys True by auto
      next
        case False
        then have xy: "lt x y" using less.prems(3) xs ys by (simp add: matches_def)
        then have "lt x v" if "v \<in> set vs" for v using that less.prems(2) ys lt_trans [OF xy] by simp
        moreover have "sorted_wrt lt (std_merge lt us (y # vs))"
          by (rule less.hyps) (use less.prems xs ys in auto)
        ultimately show ?thesis using less.prems xs ys False xy by auto
      qed
    qed (use less.prems xs in simp)
  qed (use less.prems in simp)
qed

text \<open>A strictly sorted list is determined by its elements.\<close>

lemma strictly_sorted_unique:
  "sorted_wrt lt xs \<Longrightarrow> sorted_wrt lt ys \<Longrightarrow> set xs = set ys \<Longrightarrow> xs = ys"
proof (induction xs arbitrary: ys)
  case (Cons x xs)
  then obtain y zs where ys: "ys = y # zs" by (cases ys) auto
  have "x = y"
  proof (rule ccontr)
    assume "x \<noteq> y"
    then have "x \<in> set zs" "y \<in> set xs" using Cons.prems(3) ys by auto
    then show False using Cons.prems(1,2) ys lt_asym [of x y] by simp
  qed
  moreover have "x \<notin> set xs" "y \<notin> set zs" using Cons.prems ys lt_irrefl by auto
  ultimately have "set xs = set zs" using Cons.prems ys by auto
  then show ?case using Cons.IH [of zs] Cons.prems ys \<open>x = y\<close> by simp
qed simp

end

end
