(* ===== verification/Flat_Tree.thy ===== *)
theory Flat_Tree
  imports Std_Algorithms
begin

text \<open>
  The sorted vector \<open>flat_tree\<close> of \<open>src/base/containers/flat_tree.h\<close> behind \<open>flat_map\<close> and
  \<open>flat_set\<close>.  A tree is its vector, a list; an iterator is an index.  The comparison of keys
  and the key extractor are arguments; the properties ask of the comparison what the
  standard library asks, a strict weak order.  \<open>LastUnique\<close> is modelled on the array it
  works on in place, and the insertion of a range with its batch of appended elements, its
  sort and its merge.
\<close>

section \<open>Removing repetitions in place\<close>

datatype FlatContainerDupes = KEEP_FIRST_OF_DUPES | KEEP_LAST_OF_DUPES

text \<open>The loop of \<open>LastUnique\<close>: \<open>n\<close> runs from one past \<open>f\<close> to the end, \<open>r\<close> is the cell to
  overwrite next.\<close>

fun last_unique_loop :: "('v \<Rightarrow> 'v \<Rightarrow> bool) \<Rightarrow> 'v list \<Rightarrow> nat \<Rightarrow> nat \<Rightarrow> nat \<Rightarrow> 'v list \<times> nat" where
  "last_unique_loop cmp xs r f 0 = (xs[r := xs ! f], Suc r)"
| "last_unique_loop cmp xs r f (Suc rest) =
     (if \<not> cmp (xs ! f) (xs ! Suc f)
      then last_unique_loop cmp (xs[r := xs ! f]) (Suc r) (Suc f) rest
      else last_unique_loop cmp xs r (Suc f) rest)"

text \<open>The new contents of the range and its new end.\<close>

definition LastUnique :: "('v \<Rightarrow> 'v \<Rightarrow> bool) \<Rightarrow> 'v list \<Rightarrow> 'v list \<times> nat" where
  "LastUnique cmp xs =
     (let replacable = std_adjacent_find cmp xs
      in if replacable = length xs then (xs, length xs)
         else let first = Suc replacable
           in if first = length xs then (xs, replacable)
              else last_unique_loop cmp xs replacable first (length xs - Suc first))"

section \<open>The tree\<close>

type_synonym 'v flat_tree = "'v list"

definition value_comp :: "('k \<Rightarrow> 'k \<Rightarrow> bool) \<Rightarrow> ('v \<Rightarrow> 'k) \<Rightarrow> 'v \<Rightarrow> 'v \<Rightarrow> bool" where
  "value_comp key_comp key a b \<longleftrightarrow> key_comp (key a) (key b)"

definition sort_and_unique ::
  "('k \<Rightarrow> 'k \<Rightarrow> bool) \<Rightarrow> ('v \<Rightarrow> 'k) \<Rightarrow> 'v flat_tree \<Rightarrow> nat \<Rightarrow> nat \<Rightarrow> FlatContainerDupes \<Rightarrow> 'v flat_tree" where
  "sort_and_unique key_comp key t b e dupes =
     (let range = std_stable_sort (value_comp key_comp key) (take (e - b) (drop b t));
          comparator = (\<lambda>lhs rhs. \<not> value_comp key_comp key lhs rhs);
          kept = (case dupes of
            KEEP_FIRST_OF_DUPES \<Rightarrow> std_unique comparator range
          | KEEP_LAST_OF_DUPES \<Rightarrow> (case LastUnique comparator range of (xs, n) \<Rightarrow> take n xs))
      in take b t @ kept @ drop e t)"

definition ft_construct ::
  "('k \<Rightarrow> 'k \<Rightarrow> bool) \<Rightarrow> ('v \<Rightarrow> 'k) \<Rightarrow> 'v list \<Rightarrow> FlatContainerDupes \<Rightarrow> 'v flat_tree" where
  "ft_construct key_comp key items dupes = sort_and_unique key_comp key items 0 (length items) dupes"

definition ft_assign :: "('k \<Rightarrow> 'k \<Rightarrow> bool) \<Rightarrow> ('v \<Rightarrow> 'k) \<Rightarrow> 'v list \<Rightarrow> 'v flat_tree" where
  "ft_assign key_comp key ilist = sort_and_unique key_comp key ilist 0 (length ilist) KEEP_FIRST_OF_DUPES"

subsection \<open>Search\<close>

definition ft_lower_bound :: "('k \<Rightarrow> 'k \<Rightarrow> bool) \<Rightarrow> ('v \<Rightarrow> 'k) \<Rightarrow> 'v flat_tree \<Rightarrow> 'k \<Rightarrow> nat" where
  "ft_lower_bound key_comp key t k = std_lower_bound (\<lambda>v. key_comp (key v) k) t 0 (length t)"

definition ft_upper_bound :: "('k \<Rightarrow> 'k \<Rightarrow> bool) \<Rightarrow> ('v \<Rightarrow> 'k) \<Rightarrow> 'v flat_tree \<Rightarrow> 'k \<Rightarrow> nat" where
  "ft_upper_bound key_comp key t k = std_upper_bound (\<lambda>v. key_comp k (key v)) t 0 (length t)"

definition ft_equal_range :: "('k \<Rightarrow> 'k \<Rightarrow> bool) \<Rightarrow> ('v \<Rightarrow> 'k) \<Rightarrow> 'v flat_tree \<Rightarrow> 'k \<Rightarrow> nat \<times> nat" where
  "ft_equal_range key_comp key t k =
     (let lower = ft_lower_bound key_comp key t k
      in if lower = length t \<or> key_comp k (key (t ! lower)) then (lower, lower) else (lower, Suc lower))"

definition ft_find :: "('k \<Rightarrow> 'k \<Rightarrow> bool) \<Rightarrow> ('v \<Rightarrow> 'k) \<Rightarrow> 'v flat_tree \<Rightarrow> 'k \<Rightarrow> nat" where
  "ft_find key_comp key t k = (case ft_equal_range key_comp key t k of (b, e) \<Rightarrow> if b = e then length t else b)"

definition ft_count :: "('k \<Rightarrow> 'k \<Rightarrow> bool) \<Rightarrow> ('v \<Rightarrow> 'k) \<Rightarrow> 'v flat_tree \<Rightarrow> 'k \<Rightarrow> nat" where
  "ft_count key_comp key t k = (case ft_equal_range key_comp key t k of (b, e) \<Rightarrow> e - b)"

subsection \<open>Insertion of one element\<close>

definition unsafe_emplace :: "'v flat_tree \<Rightarrow> nat \<Rightarrow> 'v \<Rightarrow> nat \<times> 'v flat_tree" where
  "unsafe_emplace t pos v = (pos, take pos t @ v # drop pos t)"

definition emplace_key_args ::
  "('k \<Rightarrow> 'k \<Rightarrow> bool) \<Rightarrow> ('v \<Rightarrow> 'k) \<Rightarrow> 'v flat_tree \<Rightarrow> 'k \<Rightarrow> 'v \<Rightarrow> (nat \<times> bool) \<times> 'v flat_tree" where
  "emplace_key_args key_comp key t k v =
     (let lower = ft_lower_bound key_comp key t k
      in if lower = length t \<or> key_comp k (key (t ! lower))
         then case unsafe_emplace t lower v of (pos, t') \<Rightarrow> ((pos, True), t')
         else ((lower, False), t))"

definition emplace_hint_key_args ::
  "('k \<Rightarrow> 'k \<Rightarrow> bool) \<Rightarrow> ('v \<Rightarrow> 'k) \<Rightarrow> 'v flat_tree \<Rightarrow> nat \<Rightarrow> 'k \<Rightarrow> 'v \<Rightarrow> (nat \<times> bool) \<times> 'v flat_tree" where
  "emplace_hint_key_args key_comp key t hint k v =
     (if hint = 0 \<or> key_comp (key (t ! (hint - 1))) k
      then if hint = length t \<or> key_comp k (key (t ! hint))
           then case unsafe_emplace t hint v of (pos, t') \<Rightarrow> ((pos, True), t')
           else if \<not> key_comp (key (t ! hint)) k then ((hint, False), t)
           else emplace_key_args key_comp key t k v
      else emplace_key_args key_comp key t k v)"

definition ft_insert ::
  "('k \<Rightarrow> 'k \<Rightarrow> bool) \<Rightarrow> ('v \<Rightarrow> 'k) \<Rightarrow> 'v flat_tree \<Rightarrow> 'v \<Rightarrow> (nat \<times> bool) \<times> 'v flat_tree" where
  "ft_insert key_comp key t v = emplace_key_args key_comp key t (key v) v"

definition ft_insert_hint ::
  "('k \<Rightarrow> 'k \<Rightarrow> bool) \<Rightarrow> ('v \<Rightarrow> 'k) \<Rightarrow> 'v flat_tree \<Rightarrow> nat \<Rightarrow> 'v \<Rightarrow> nat \<times> 'v flat_tree" where
  "ft_insert_hint key_comp key t hint v =
     (case emplace_hint_key_args key_comp key t hint (key v) v of ((pos, _), t') \<Rightarrow> (pos, t'))"

definition ft_insert_or_assign ::
  "('k \<Rightarrow> 'k \<Rightarrow> bool) \<Rightarrow> ('v \<Rightarrow> 'k) \<Rightarrow> 'v flat_tree \<Rightarrow> 'v \<Rightarrow> (nat \<times> bool) \<times> 'v flat_tree" where
  "ft_insert_or_assign key_comp key t v =
     (let position = ft_lower_bound key_comp key t (key v)
      in if position = length t \<or> value_comp key_comp key v (t ! position)
         then ((position, True), take position t @ v # drop position t)
         else ((position, False), t[position := v]))"

subsection \<open>Insertion of a range\<close>

definition append_or_assign ::
  "('k \<Rightarrow> 'k \<Rightarrow> bool) \<Rightarrow> ('v \<Rightarrow> 'k) \<Rightarrow> 'v flat_tree \<Rightarrow> nat \<Rightarrow> 'v \<Rightarrow> (nat \<times> bool) \<times> 'v flat_tree" where
  "append_or_assign key_comp key t lst v =
     (let position = std_lower_bound (\<lambda>x. value_comp key_comp key x v) t 0 lst
      in if position = lst \<or> value_comp key_comp key v (t ! position)
         then ((position, True), t @ [v])
         else ((position, False), t[position := v]))"

definition append_unique ::
  "('k \<Rightarrow> 'k \<Rightarrow> bool) \<Rightarrow> ('v \<Rightarrow> 'k) \<Rightarrow> 'v flat_tree \<Rightarrow> nat \<Rightarrow> 'v \<Rightarrow> (nat \<times> bool) \<times> 'v flat_tree" where
  "append_unique key_comp key t lst v =
     (let position = std_lower_bound (\<lambda>x. value_comp key_comp key x v) t 0 lst
      in if position = lst \<or> value_comp key_comp key v (t ! position)
         then ((position, True), t @ [v])
         else ((position, False), t))"

text \<open>The loop over the input: the tree with the new elements behind the old ones, and the
  first insertion point.\<close>

fun append_all ::
  "('v flat_tree \<Rightarrow> 'v \<Rightarrow> (nat \<times> bool) \<times> 'v flat_tree) \<Rightarrow> 'v list \<Rightarrow> nat \<Rightarrow> 'v flat_tree \<Rightarrow> nat \<times> 'v flat_tree" where
  "append_all app [] pos_first_new t = (pos_first_new, t)"
| "append_all app (v # vs) pos_first_new t =
     (case app t v of ((pos, inserted), t') \<Rightarrow>
        append_all app vs (if inserted then min pos_first_new pos else pos_first_new) t')"

definition ft_insert_range ::
  "('k \<Rightarrow> 'k \<Rightarrow> bool) \<Rightarrow> ('v \<Rightarrow> 'k) \<Rightarrow> bool \<Rightarrow> 'v flat_tree \<Rightarrow> 'v list \<Rightarrow> FlatContainerDupes \<Rightarrow> 'v flat_tree" where
  "ft_insert_range key_comp key multipass t vs dupes =
     (if vs = [] then t
      else let overwrite_existing = (dupes = KEEP_LAST_OF_DUPES); insert_inplace = (multipass \<and> length vs = 1)
        in if insert_inplace
           then if overwrite_existing then snd (ft_insert_or_assign key_comp key t (hd vs))
                else snd (ft_insert_hint key_comp key t (length t) (hd vs))
           else let middle = length t
             in case append_all (\<lambda>t. (if overwrite_existing then append_or_assign else append_unique) key_comp key t middle)
                    vs middle t of
                  (pos_first_new, t1) \<Rightarrow>
                    let t2 = sort_and_unique key_comp key t1 middle (length t1) dupes
                    in take pos_first_new t2 @
                       std_merge (value_comp key_comp key) (take (middle - pos_first_new) (drop pos_first_new t2)) (drop middle t2))"

subsection \<open>Erasure\<close>

definition ft_erase_at :: "'v flat_tree \<Rightarrow> nat \<Rightarrow> 'v flat_tree" where
  "ft_erase_at t pos = take pos t @ drop (Suc pos) t"

definition ft_erase_range :: "'v flat_tree \<Rightarrow> nat \<Rightarrow> nat \<Rightarrow> 'v flat_tree" where
  "ft_erase_range t b e = take b t @ drop e t"

definition ft_erase :: "('k \<Rightarrow> 'k \<Rightarrow> bool) \<Rightarrow> ('v \<Rightarrow> 'k) \<Rightarrow> 'v flat_tree \<Rightarrow> 'k \<Rightarrow> nat \<times> 'v flat_tree" where
  "ft_erase key_comp key t k = (case ft_equal_range key_comp key t k of (b, e) \<Rightarrow> (e - b, ft_erase_range t b e))"

definition ft_EraseIf :: "('v \<Rightarrow> bool) \<Rightarrow> 'v flat_tree \<Rightarrow> 'v flat_tree" where
  "ft_EraseIf pred t =
     (let kept = filter (\<lambda>v. \<not> pred v) t
      in ft_erase_range (kept @ drop (length kept) t) (length kept) (length t))"

definition ft_swap :: "'v flat_tree \<Rightarrow> 'v flat_tree \<Rightarrow> 'v flat_tree \<times> 'v flat_tree" where
  "ft_swap t u = (u, t)"

section \<open>Removing repetitions keeps the last of each run\<close>

lemma last_unique_loop_runs:
  "r < f \<Longrightarrow> f + rest + 1 = length xs \<Longrightarrow> last_unique_loop cmp xs r f rest = (ys, n) \<Longrightarrow>
     n \<le> length ys \<and> take n ys = take r xs @ run_lasts cmp (drop f xs)"
proof (induction rest arbitrary: xs r f)
  case 0
  then have "drop f xs = [xs ! f]" by (simp add: Cons_nth_drop_Suc [symmetric])
  then show ?case using 0 by (auto simp: take_Suc_conv_app_nth)
next
  case (Suc rest)
  then have d: "drop f xs = xs ! f # xs ! Suc f # drop (Suc (Suc f)) xs" "drop (Suc f) xs = xs ! Suc f # drop (Suc (Suc f)) xs"
    by (simp_all add: Cons_nth_drop_Suc)
  show ?case
  proof (cases "cmp (xs ! f) (xs ! Suc f)")
    case True
    then show ?thesis using Suc.IH [of r "Suc f" xs] Suc.prems d by simp
  next
    case False
    have "take (Suc r) (xs[r := xs ! f]) = take r xs @ [xs ! f]" using Suc.prems by (simp add: take_Suc_conv_app_nth)
    moreover have "drop (Suc f) (xs[r := xs ! f]) = drop (Suc f) xs" using Suc.prems by simp
    ultimately show ?thesis
      using Suc.IH [of "Suc r" "Suc f" "xs[r := xs ! f]"] Suc.prems False d by simp
  qed
qed

lemma adjacent_find_none: "std_adjacent_find cmp xs = length xs \<Longrightarrow> run_lasts cmp xs = xs"
  by (induction cmp xs rule: std_adjacent_find.induct) (auto split: if_splits)

lemma adjacent_find_some:
  "std_adjacent_find cmp xs \<noteq> length xs \<Longrightarrow> Suc (std_adjacent_find cmp xs) < length xs \<and>
     run_lasts cmp xs = take (std_adjacent_find cmp xs) xs @ run_lasts cmp (drop (Suc (std_adjacent_find cmp xs)) xs)"
  by (induction cmp xs rule: std_adjacent_find.induct) (auto split: if_splits)

lemma LastUnique_runs:
  assumes "LastUnique cmp xs = (ys, n)"
  shows "n \<le> length ys \<and> take n ys = run_lasts cmp xs"
proof (cases "std_adjacent_find cmp xs = length xs")
  case True
  then show ?thesis using assms adjacent_find_none [OF True] by (auto simp: LastUnique_def)
next
  case False
  note a = adjacent_find_some [OF False]
  then show ?thesis
    using assms False by (auto simp: LastUnique_def Let_def dest!: last_unique_loop_runs [rotated 2])
qed

section \<open>Sorted trees\<close>

definition ft_ok :: "('k \<Rightarrow> 'k \<Rightarrow> bool) \<Rightarrow> ('v \<Rightarrow> 'k) \<Rightarrow> 'v flat_tree \<Rightarrow> bool" where
  "ft_ok key_comp key t \<longleftrightarrow> sorted_wrt (value_comp key_comp key) t"

definition ft_has :: "('k \<Rightarrow> 'k \<Rightarrow> bool) \<Rightarrow> ('v \<Rightarrow> 'k) \<Rightarrow> 'v flat_tree \<Rightarrow> 'k \<Rightarrow> bool" where
  "ft_has key_comp key t k \<longleftrightarrow> (\<exists>v \<in> set t. matches key_comp (key v) k)"

lemma matches_value [simp]: "matches (value_comp key_comp key) a b = matches key_comp (key a) (key b)"
  by (simp add: matches_def value_comp_def)

context strict_weak_order
begin

lemma value_order: "strict_weak_order (value_comp lt key)"
  by unfold_locales (auto simp: value_comp_def lt_irrefl dest: lt_trans incomp_trans)

lemma ft_okD: "ft_ok lt key t \<Longrightarrow> i < j \<Longrightarrow> j < length t \<Longrightarrow> lt (key (t ! i)) (key (t ! j))"
  by (simp add: ft_ok_def sorted_wrt_iff_nth_less value_comp_def)

lemma ft_ok_below:
  "ft_ok lt key t \<Longrightarrow> i \<le> j \<Longrightarrow> j < length t \<Longrightarrow> lt (key (t ! j)) k \<Longrightarrow> lt (key (t ! i)) k"
  using ft_okD [of key t i j] lt_trans by (cases "i = j") auto

text \<open>The search, on the first cells of a longer vector too.\<close>

lemma search_prefix:
  assumes "ft_ok lt key t"
  shows "std_lower_bound (\<lambda>x. lt (key x) k) (t @ ns) 0 (length t) = ft_lower_bound lt key t k"
proof -
  have "std_lower_bound (\<lambda>x. lt (key x) k) us 0 (length t) = length (takeWhile (\<lambda>x. lt (key x) k) t)"
    if "take (length t) us = t" for us
  proof -
    have "length t \<le> length us" using that by (metis length_take min.absorb_iff2 min.commute)
    moreover have "us ! i = t ! i" if "i < length t" for i
      using that \<open>take (length t) us = t\<close> by (metis nth_take)
    ultimately show ?thesis
      using std_lower_bound_takeWhile [of "length t" us "\<lambda>x. lt (key x) k"] ft_ok_below [OF assms] that by simp
  qed
  then show ?thesis by (simp add: ft_lower_bound_def)
qed

lemma lower_bound_spec:
  fixes k :: 'a
  assumes "ft_ok lt key t"
  defines "p \<equiv> ft_lower_bound lt key t k"
  shows "p \<le> length t" "\<And>i. i < p \<Longrightarrow> lt (key (t ! i)) k" "\<And>i. p \<le> i \<Longrightarrow> i < length t \<Longrightarrow> \<not> lt (key (t ! i)) k"
  using std_lower_bound_range [of 0 "length t" "\<lambda>v. lt (key v) k" t] ft_ok_below [OF assms(1)]
  by (auto simp: p_def ft_lower_bound_def)

lemma lower_bound_unique:
  assumes "ft_ok lt key t" "p \<le> length t" "p = 0 \<or> lt (key (t ! (p - 1))) k" "p = length t \<or> \<not> lt (key (t ! p)) k"
  shows "ft_lower_bound lt key t k = p"
proof (rule antisym)
  note s = lower_bound_spec [OF assms(1), where k = k]
  show "ft_lower_bound lt key t k \<le> p"
    using s(1) s(2) [of p] assms(2,4) by (metis leI order_le_imp_less_or_eq not_less)
  show "p \<le> ft_lower_bound lt key t k"
  proof (rule ccontr)
    assume n: "\<not> p \<le> ft_lower_bound lt key t k"
    then have "\<not> lt (key (t ! (p - 1))) k" using s(3) [of "p - 1"] assms(2) by simp
    then show False using n assms(3) by auto
  qed
qed

text \<open>Where the search ends: at the one element with the key, or between the smaller and the
  greater ones.\<close>

lemma search_cases:
  fixes k :: 'a
  assumes "ft_ok lt key t"
  defines "p \<equiv> ft_lower_bound lt key t k"
  obtains (hit) "p < length t" "\<not> lt k (key (t ! p))" "matches lt (key (t ! p)) k"
      "\<And>i. i < p \<Longrightarrow> lt (key (t ! i)) k" "\<And>i. p < i \<Longrightarrow> i < length t \<Longrightarrow> lt k (key (t ! i))"
  | (miss) "p \<le> length t" "p = length t \<or> lt k (key (t ! p))" "\<not> ft_has lt key t k"
      "\<And>i. i < p \<Longrightarrow> lt (key (t ! i)) k" "\<And>i. p \<le> i \<Longrightarrow> i < length t \<Longrightarrow> lt k (key (t ! i))"
proof (cases "p < length t \<and> \<not> lt k (key (t ! p))")
  case True
  note s = lower_bound_spec [OF assms(1), where k = k, folded p_def]
  have "matches lt (key (t ! p)) k" using True s(3) [of p] by (simp add: matches_def)
  moreover have "lt k (key (t ! i))" if "p < i" "i < length t" for i
    using True s(3) [of p] ft_okD [OF assms(1) that] le_lt_trans [of "key (t ! p)" k "key (t ! i)"] by simp
  ultimately show thesis using True s(2) by (intro hit) auto
next
  case False
  note s = lower_bound_spec [OF assms(1), where k = k, folded p_def]
  have above: "lt k (key (t ! i))" if "p \<le> i" "i < length t" for i
    using False that ft_okD [OF assms(1), of p i] lt_trans [of k "key (t ! p)" "key (t ! i)"] by (cases "p = i") auto
  have "\<not> matches lt (key (t ! i)) k" if "i < length t" for i
    using s(2) [of i] above [of i] that by (cases "i < p") (auto simp: matches_def)
  then have "\<not> ft_has lt key t k" by (auto simp: ft_has_def in_set_conv_nth)
  moreover have "p = length t \<or> lt k (key (t ! p))" using False s(1) by auto
  ultimately show thesis using s(1,2) above by (intro miss) auto
qed

lemma ft_ok_emplace:
  assumes "ft_ok lt key t" "p \<le> length t" "\<And>i. i < p \<Longrightarrow> lt (key (t ! i)) (key v)"
    "\<And>i. p \<le> i \<Longrightarrow> i < length t \<Longrightarrow> lt (key v) (key (t ! i))"
  shows "ft_ok lt key (take p t @ v # drop p t)"
proof -
  have "\<forall>x \<in> set (take p t). lt (key x) (key v)" "\<forall>y \<in> set (drop p t). lt (key v) (key y)"
    using assms(2,3,4) by (auto simp: in_set_conv_nth)
  moreover have "sorted_wrt (value_comp lt key) (take p t @ drop p t)" using assms(1) by (simp add: ft_ok_def)
  moreover have "lt (key x) (key y)" if "x \<in> set (take p t)" "y \<in> set (drop p t)" for x y
    using calculation(1,2) that lt_trans by blast
  ultimately show ?thesis by (simp add: ft_ok_def sorted_wrt_append value_comp_def)
qed

lemma set_emplace: "set (take p t @ v # drop p t) = insert v (set t)"
  by (metis Un_insert_right append_take_drop_id list.simps(15) set_append)

lemma ft_has_cong: "matches lt j k \<Longrightarrow> ft_has lt key t j = ft_has lt key t k"
  unfolding ft_has_def using matches_trans matches_sym by blast

lemma emplace_spec:
  assumes "ft_ok lt key t" "matches lt (key v) k"
    and "emplace_key_args lt key t k v = ((pos, new), t')"
  shows "ft_ok lt key t' \<and> new = (\<not> ft_has lt key t k) \<and> set t' = (if new then insert v (set t) else set t) \<and>
    pos < length t' \<and> matches lt (key (t' ! pos)) k \<and> pos = ft_lower_bound lt key t k"
  using assms(1)
proof (cases rule: search_cases [where k = k])
  case hit
  then have "ft_has lt key t k" by (auto simp: ft_has_def)
  then show ?thesis using assms hit by (auto simp: emplace_key_args_def Let_def)
next
  case miss
  let ?p = "ft_lower_bound lt key t k"
  have t': "t' = take ?p t @ v # drop ?p t" "pos = ?p" "new"
    using assms(3) miss(2) by (auto simp: emplace_key_args_def unsafe_emplace_def Let_def)
  have "ft_ok lt key t'"
    unfolding t' using miss assms(2) by (intro ft_ok_emplace [OF assms(1)]) (auto simp: matches_def intro: lt_le_trans le_lt_trans)
  moreover have "set t' = insert v (set t)" unfolding t' by (rule set_emplace)
  moreover have "t' ! pos = v" "pos < length t'" using miss(1) by (simp_all add: t' nth_append)
  ultimately show ?thesis using t' miss assms(2) by simp
qed

text \<open>A hint only saves the search.\<close>

lemma emplace_hint:
  assumes "ft_ok lt key t" "hint \<le> length t"
  shows "emplace_hint_key_args lt key t hint k v = emplace_key_args lt key t k v"
proof (cases "(hint = 0 \<or> lt (key (t ! (hint - 1))) k) \<and> (hint = length t \<or> \<not> lt (key (t ! hint)) k)")
  case True
  then have "ft_lower_bound lt key t k = hint" by (intro lower_bound_unique [OF assms]) auto
  then show ?thesis
    using True by (auto simp: emplace_hint_key_args_def emplace_key_args_def Let_def)
next
  case False
  then show ?thesis using lt_asym [of k "key (t ! hint)"] by (auto simp: emplace_hint_key_args_def)
qed

lemma ft_ok_update:
  assumes "ft_ok lt key t" "p < length t" "matches lt (key (t ! p)) (key v)"
  shows "ft_ok lt key (t[p := v])"
  unfolding ft_ok_def sorted_wrt_iff_nth_less
proof (intro allI impI)
  fix i j assume ij: "i < j" "j < length (t[p := v])"
  then have "lt (key (t ! i)) (key (t ! j))" using ft_okD [OF assms(1)] by simp
  moreover have "lt (key v) k" if "lt (key (t ! p)) k" for k
    using that assms(3) le_lt_trans [of "key (t ! p)" "key v" k] by (simp add: matches_def)
  moreover have "lt k (key v)" if "lt k (key (t ! p))" for k
    using that assms(3) lt_le_trans [of k "key (t ! p)" "key v"] by (simp add: matches_def)
  ultimately show "value_comp lt key (t[p := v] ! i) (t[p := v] ! j)"
    using ij assms(2) by (simp add: value_comp_def nth_list_update)
qed

lemma set_update_match:
  assumes "ft_ok lt key t" "p < length t" "matches lt (key (t ! p)) (key v)"
  shows "set (t[p := v]) = insert v {u \<in> set t. \<not> matches lt (key u) (key v)}"
proof -
  have "matches lt (key (t ! i)) (key v) \<longleftrightarrow> i = p" if "i < length t" for i
  proof
    assume m: "matches lt (key (t ! i)) (key v)"
    then have "matches lt (key (t ! i)) (key (t ! p))" using assms(3) matches_trans matches_sym by blast
    then show "i = p" using ft_okD [OF assms(1), of i p] ft_okD [OF assms(1), of p i] that assms(2)
      by (cases i p rule: linorder_cases) (auto simp: matches_def)
  qed (use assms(3) in simp)
  then show ?thesis using assms(2) by (auto simp: set_conv_nth nth_list_update) (metis nth_list_update_neq)+
qed

lemma insert_or_assign_spec:
  assumes "ft_ok lt key t" "ft_insert_or_assign lt key t v = ((pos, new), t')"
  shows "ft_ok lt key t' \<and> new = (\<not> ft_has lt key t (key v)) \<and>
    set t' = insert v {u \<in> set t. \<not> matches lt (key u) (key v)} \<and> pos < length t' \<and> t' ! pos = v"
  using assms(1)
proof (cases rule: search_cases [where k = "key v"])
  case hit
  let ?p = "ft_lower_bound lt key t (key v)"
  have "ft_has lt key t (key v)" using hit by (auto simp: ft_has_def)
  then show ?thesis
    using assms(2) hit ft_ok_update [OF assms(1) hit(1,3)] set_update_match [OF assms(1) hit(1,3)]
    by (auto simp: ft_insert_or_assign_def Let_def value_comp_def)
next
  case miss
  let ?p = "ft_lower_bound lt key t (key v)"
  have t': "t' = take ?p t @ v # drop ?p t" "pos = ?p" "new"
    using assms(2) miss(2) by (auto simp: ft_insert_or_assign_def value_comp_def Let_def)
  have "ft_ok lt key t'" unfolding t' using miss by (intro ft_ok_emplace [OF assms(1)]) auto
  moreover have "set t' = insert v (set t)" unfolding t' by (rule set_emplace)
  moreover have "{u \<in> set t. \<not> matches lt (key u) (key v)} = set t" using miss(3) by (auto simp: ft_has_def)
  ultimately show ?thesis using t' miss by (auto simp: nth_append)
qed

lemma filter_ok: "ft_ok lt key t \<Longrightarrow> ft_ok lt key (filter P t)"
  by (simp add: ft_ok_def sorted_wrt_filter)

text \<open>The result of \<open>sort_and_unique\<close>.\<close>

lemma sort_and_unique_spec:
  fixes key :: "'v \<Rightarrow> 'a" and t :: "'v list" and dupes :: FlatContainerDupes
  assumes "b \<le> length t"
  defines "u \<equiv> sort_and_unique lt key t b (length t) dupes"
  shows "take b u = take b t \<and> ft_ok lt key (drop b u) \<and>
    set (drop b u) = {v. (case dupes of KEEP_FIRST_OF_DUPES \<Rightarrow> first_of (\<lambda>x y. matches lt (key x) (key y)) (drop b t) v
      | KEEP_LAST_OF_DUPES \<Rightarrow> last_of (\<lambda>x y. matches lt (key x) (key y)) (drop b t) v)}"
proof -
  note o = value_order [of key]
  let ?c = "value_comp lt key" and ?xs = "std_stable_sort (value_comp lt key) (drop b t)"
  have m: "matches ?c = (\<lambda>x y. matches lt (key x) (key y))" by (intro ext) simp
  note st = strict_weak_order.std_stable_sort_sorted [OF o, of "drop b t"]
  obtain ys n where l: "LastUnique (\<lambda>x y. \<not> ?c x y) ?xs = (ys, n)" by force
  show ?thesis
  proof (cases dupes)
    case KEEP_FIRST_OF_DUPES
    then show ?thesis
      using strict_weak_order.std_unique_sorted [OF o st] assms(1)
      by (simp add: u_def sort_and_unique_def Let_def ft_ok_def strict_weak_order.first_of_sort [OF o, unfolded m] m)
  next
    case KEEP_LAST_OF_DUPES
    then show ?thesis
      using strict_weak_order.run_lasts_sorted [OF o st] assms(1) LastUnique_runs [OF l]
      by (simp add: u_def sort_and_unique_def Let_def ft_ok_def strict_weak_order.last_of_sort [OF o, unfolded m] m l)
  qed
qed

section \<open>Range insertion against insertion one by one\<close>

lemma matches_key_sym: "matches lt (key a) (key b) = matches lt (key b) (key a)"
  using matches_sym by blast

lemma insert_fold_set:
  "ft_ok lt key t \<Longrightarrow> ft_ok lt key (foldl (\<lambda>t v. snd (ft_insert lt key t v)) t vs) \<and>
     set (foldl (\<lambda>t v. snd (ft_insert lt key t v)) t vs) =
       set t \<union> {v. first_of (\<lambda>x y. matches lt (key x) (key y)) vs v \<and> \<not> ft_has lt key t (key v)}"
proof (induction vs arbitrary: t)
  case (Cons x xs)
  obtain pos new t1 where i: "ft_insert lt key t x = ((pos, new), t1)" by (metis prod.exhaust)
  note e = emplace_spec [OF Cons.prems matches_refl i [unfolded ft_insert_def]]
  have h: "ft_has lt key t1 k \<longleftrightarrow> ft_has lt key t k \<or> matches lt (key x) k" for k
  proof (cases "ft_has lt key t (key x)")
    case True
    then show ?thesis using e ft_has_cong [of "key x" k key t] by (auto simp: ft_has_def)
  qed (use e in \<open>auto simp: ft_has_def\<close>)
  have n: "x \<in> set t1 \<longleftrightarrow> x \<in> set t \<or> \<not> ft_has lt key t (key x)" using e by auto
  have "set (foldl (\<lambda>t v. snd (ft_insert lt key t v)) t1 xs) =
      set t1 \<union> {v. first_of (\<lambda>x y. matches lt (key x) (key y)) xs v \<and> \<not> ft_has lt key t1 (key v)}"
    using Cons.IH [of t1] e by simp
  then show ?case using Cons.IH [of t1] e by (auto simp: i h)
qed simp

lemma assign_fold_set:
  "ft_ok lt key t \<Longrightarrow> ft_ok lt key (foldl (\<lambda>t v. snd (ft_insert_or_assign lt key t v)) t vs) \<and>
     set (foldl (\<lambda>t v. snd (ft_insert_or_assign lt key t v)) t vs) =
       {u \<in> set t. \<forall>v \<in> set vs. \<not> matches lt (key u) (key v)} \<union> {v. last_of (\<lambda>x y. matches lt (key x) (key y)) vs v}"
proof (induction vs arbitrary: t)
  case (Cons x xs)
  obtain pos new t1 where i: "ft_insert_or_assign lt key t x = ((pos, new), t1)" by (metis prod.exhaust)
  note e = insert_or_assign_spec [OF Cons.prems i]
  then show ?case using Cons.IH [of t1] by (auto simp: i)
qed auto

text \<open>Dropping the elements whose key is already there commutes with the choice among
  repetitions.\<close>

lemma first_of_filter:
  "(\<And>x y. matches lt (key x) (key y) \<Longrightarrow> P x = P y) \<Longrightarrow>
     first_of (\<lambda>x y. matches lt (key x) (key y)) (filter P vs) v = (first_of (\<lambda>x y. matches lt (key x) (key y)) vs v \<and> P v)"
  by (induction vs) auto

lemma last_of_filter:
  "(\<And>x y. matches lt (key x) (key y) \<Longrightarrow> P x = P y) \<Longrightarrow>
     last_of (\<lambda>x y. matches lt (key x) (key y)) (filter P vs) v = (last_of (\<lambda>x y. matches lt (key x) (key y)) vs v \<and> P v)"
proof (induction vs)
  case (Cons x xs)
  then show ?case by (cases "P x") auto
qed simp

lemma append_unique_all:
  assumes "ft_ok lt key t" "pos \<le> length t" "\<And>i v. i < pos \<Longrightarrow> v \<in> set ns \<Longrightarrow> lt (key (t ! i)) (key v)"
  shows "\<exists>pos'. append_all (\<lambda>u. append_unique lt key u (length t)) vs pos (t @ ns) =
      (pos', t @ ns @ filter (\<lambda>v. \<not> ft_has lt key t (key v)) vs) \<and> pos' \<le> length t \<and>
      (\<forall>i < pos'. \<forall>v \<in> set (ns @ filter (\<lambda>v. \<not> ft_has lt key t (key v)) vs). lt (key (t ! i)) (key v))"
  using assms(2,3)
proof (induction vs arbitrary: pos ns)
  case (Cons x xs)
  have p: "std_lower_bound (\<lambda>v. value_comp lt key v x) (t @ ns) 0 (length t) = ft_lower_bound lt key t (key x)"
    unfolding value_comp_def by (rule search_prefix [OF assms(1)])
  from assms(1) show ?case
  proof (cases rule: search_cases [where k = "key x"])
    case hit
    then have "ft_has lt key t (key x)" by (auto simp: ft_has_def)
    moreover have "append_unique lt key (t @ ns) (length t) x = ((ft_lower_bound lt key t (key x), False), t @ ns)"
      using hit unfolding append_unique_def p by (simp add: Let_def value_comp_def nth_append)
    ultimately show ?thesis using Cons.IH [OF Cons.prems] by simp
  next
    case miss
    let ?p = "ft_lower_bound lt key t (key x)"
    have "append_unique lt key (t @ ns) (length t) x = ((?p, True), t @ ns @ [x])"
      using miss unfolding append_unique_def p by (auto simp: Let_def value_comp_def nth_append)
    moreover have "min pos ?p \<le> length t" using miss(1) by simp
    moreover have "lt (key (t ! i)) (key v)" if "i < min pos ?p" "v \<in> set (ns @ [x])" for i v
      using that Cons.prems(2) [of i v] miss(4) [of i] by auto
    ultimately show ?thesis using Cons.IH [of "min pos ?p" "ns @ [x]"] miss(3) by simp
  qed
qed auto

lemma ft_has_update:
  assumes "ft_ok lt key t" "p < length t" "matches lt (key (t ! p)) (key v)"
  shows "ft_has lt key (t[p := v]) k = ft_has lt key t k"
proof (cases "matches lt (key v) k")
  case True
  then have "ft_has lt key t k"
    unfolding ft_has_def using nth_mem [OF assms(2)] matches_trans [OF assms(3)] by blast
  then show ?thesis using True assms(2) by (auto simp: ft_has_def set_update_match [OF assms])
next
  case False
  then have "\<not> matches lt (key u) (key v)" if "matches lt (key u) k" for u
    using that matches_trans [of "key v" "key u" k] matches_sym by blast
  then show ?thesis using False by (auto simp: ft_has_def set_update_match [OF assms])
qed

text \<open>The old part of the vector after the loop that overwrites.\<close>

definition overwritten :: "('v \<Rightarrow> 'a) \<Rightarrow> 'v list \<Rightarrow> 'v list \<Rightarrow> 'v list \<Rightarrow> bool" where
  "overwritten key t vs t' \<longleftrightarrow> ft_ok lt key t' \<and> length t' = length t \<and> (\<forall>k. ft_has lt key t' k = ft_has lt key t k) \<and>
     set t' = {u \<in> set t. \<forall>v \<in> set vs. \<not> matches lt (key u) (key v)} \<union>
       {v. last_of (\<lambda>x y. matches lt (key x) (key y)) vs v \<and> ft_has lt key t (key v)}"

lemma overwritten_hit:
  assumes "ft_ok lt key t" "p < length t" "matches lt (key (t ! p)) (key x)" "overwritten key (t[p := x]) xs t'"
  shows "overwritten key t (x # xs) t'"
proof -
  have "ft_has lt key t (key x)" using assms(2,3) by (auto simp: ft_has_def)
  then show ?thesis
    using assms(4) unfolding overwritten_def ft_has_update [OF assms(1-3)] set_update_match [OF assms(1-3)] by auto
qed

lemma overwritten_miss:
  assumes "\<not> ft_has lt key t (key x)" "overwritten key t xs t'"
  shows "overwritten key t (x # xs) t'"
proof -
  have "\<not> matches lt (key u) (key x)" if "u \<in> set t" for u using assms(1) that by (auto simp: ft_has_def)
  then show ?thesis using assms unfolding overwritten_def by auto
qed

lemma append_or_assign_all:
  assumes "ft_ok lt key t" "pos \<le> length t" "\<And>i v. i < pos \<Longrightarrow> v \<in> set ns \<Longrightarrow> lt (key (t ! i)) (key v)"
  shows "\<exists>pos' t'. append_all (\<lambda>u. append_or_assign lt key u (length t)) vs pos (t @ ns) =
      (pos', t' @ ns @ filter (\<lambda>v. \<not> ft_has lt key t (key v)) vs) \<and> pos' \<le> length t \<and> overwritten key t vs t' \<and>
      (\<forall>i < pos'. \<forall>v \<in> set (ns @ filter (\<lambda>v. \<not> ft_has lt key t (key v)) vs). lt (key (t' ! i)) (key v))"
  using assms
proof (induction vs arbitrary: pos ns t)
  case Nil
  then show ?case by (auto simp: overwritten_def)
next
  case (Cons x xs)
  have p: "std_lower_bound (\<lambda>v. value_comp lt key v x) (t @ ns) 0 (length t) = ft_lower_bound lt key t (key x)"
    unfolding value_comp_def by (rule search_prefix [OF Cons.prems(1)])
  from Cons.prems(1) show ?case
  proof (cases rule: search_cases [where k = "key x"])
    case hit
    let ?p = "ft_lower_bound lt key t (key x)" let ?t = "t[?p := x]"
    have has: "ft_has lt key t (key x)" using hit by (auto simp: ft_has_def)
    have app: "append_or_assign lt key (t @ ns) (length t) x = ((?p, False), ?t @ ns)"
      using hit unfolding append_or_assign_def p by (simp add: Let_def value_comp_def nth_append list_update_append)
    have "lt (key (?t ! i)) (key v)" if "i < pos" "v \<in> set ns" for i v
    proof (cases "i = ?p")
      case True
      then show ?thesis
        using Cons.prems(3) [OF that] hit(1,3) le_lt_trans [of "key (t ! ?p)" "key x" "key v"] by (simp add: matches_def)
    qed (use Cons.prems(3) [OF that] in simp)
    moreover have "pos \<le> length ?t" using Cons.prems(2) by simp
    ultimately obtain pos' t' where
      "append_all (\<lambda>u. append_or_assign lt key u (length ?t)) xs pos (?t @ ns) =
        (pos', t' @ ns @ filter (\<lambda>v. \<not> ft_has lt key ?t (key v)) xs)" "pos' \<le> length ?t" "overwritten key ?t xs t'"
      "\<forall>i < pos'. \<forall>v \<in> set (ns @ filter (\<lambda>v. \<not> ft_has lt key ?t (key v)) xs). lt (key (t' ! i)) (key v)"
      using Cons.IH [OF ft_ok_update [OF Cons.prems(1) hit(1,3)], of pos ns] by metis
    note r = this [unfolded ft_has_update [OF Cons.prems(1) hit(1,3)] length_list_update]
    show ?thesis
      using r app has overwritten_hit [OF Cons.prems(1) hit(1,3) r(3)] by (intro exI [of _ pos'] exI [of _ t']) simp
  next
    case miss
    let ?p = "ft_lower_bound lt key t (key x)"
    have app: "append_or_assign lt key (t @ ns) (length t) x = ((?p, True), t @ ns @ [x])"
      using miss unfolding append_or_assign_def p by (auto simp: Let_def value_comp_def nth_append)
    have "lt (key (t ! i)) (key v)" if "i < min pos ?p" "v \<in> set (ns @ [x])" for i v
      using that Cons.prems(3) [of i v] miss(4) [of i] by auto
    moreover have "min pos ?p \<le> length t" using miss(1) by simp
    ultimately obtain pos' t' where r:
      "append_all (\<lambda>u. append_or_assign lt key u (length t)) xs (min pos ?p) (t @ ns @ [x]) =
        (pos', t' @ (ns @ [x]) @ filter (\<lambda>v. \<not> ft_has lt key t (key v)) xs)" "pos' \<le> length t" "overwritten key t xs t'"
      "\<forall>i < pos'. \<forall>v \<in> set ((ns @ [x]) @ filter (\<lambda>v. \<not> ft_has lt key t (key v)) xs). lt (key (t' ! i)) (key v)"
      using Cons.IH [OF Cons.prems(1), of "min pos ?p" "ns @ [x]"] by metis
    show ?thesis
      using r app miss(3) overwritten_miss [OF miss(3) r(3)] by (intro exI [of _ pos'] exI [of _ t']) simp
  qed
qed

text \<open>Merging the new elements in behind the ones that are smaller than all of them.\<close>

lemma merge_tail:
  assumes "ft_ok lt key t" "ft_ok lt key ns" "pos \<le> length t" "\<And>v. v \<in> set ns \<Longrightarrow> \<not> ft_has lt key t (key v)"
    "\<And>i v. i < pos \<Longrightarrow> v \<in> set ns \<Longrightarrow> lt (key (t ! i)) (key v)"
  defines "r \<equiv> take pos t @ std_merge (value_comp lt key) (drop pos t) ns"
  shows "ft_ok lt key r \<and> set r = set t \<union> set ns"
proof -
  have td: "sorted_wrt (value_comp lt key) (take pos t @ drop pos t)" using assms(1) by (simp add: ft_ok_def)
  have nm: "\<not> matches lt (key x) (key y)" if "x \<in> set t" "y \<in> set ns" for x y
    using assms(4) [OF that(2)] that(1) by (auto simp: ft_has_def)
  then have "sorted_wrt (value_comp lt key) (std_merge (value_comp lt key) (drop pos t) ns)"
    using td assms(2) set_drop_subset [of pos t]
    by (intro strict_weak_order.std_merge_sorted [OF value_order]) (auto simp: sorted_wrt_append ft_ok_def)
  moreover have "lt (key x) (key y)" if "x \<in> set (take pos t)" "y \<in> set ns" for x y
  proof -
    note xy = that
    obtain i where "i < length (take pos t)" "take pos t ! i = x" using xy(1) in_set_conv_nth [of x "take pos t"] by blast
    then show ?thesis using assms(5) [of i y] xy(2) by simp
  qed
  moreover have "set (take pos t) \<union> set (drop pos t) = set t" by (metis append_take_drop_id set_append)
  moreover note sorted_wrt_append [THEN iffD1, OF td]
  ultimately show ?thesis
    by (auto simp: r_def ft_ok_def sorted_wrt_append value_comp_def)
qed

lemma insert_range_batch:
  assumes "ft_ok lt key t" "overwritten key t (if dupes = KEEP_LAST_OF_DUPES then vs else []) t'"
    "pos \<le> length t" "ns = filter (\<lambda>v. \<not> ft_has lt key t (key v)) vs"
    "\<And>i v. i < pos \<Longrightarrow> v \<in> set ns \<Longrightarrow> lt (key (t' ! i)) (key v)"
  defines "t2 \<equiv> sort_and_unique lt key (t' @ ns) (length t) (length (t' @ ns)) dupes"
  defines "r \<equiv> take pos t2 @ std_merge (value_comp lt key) (take (length t - pos) (drop pos t2)) (drop (length t) t2)"
  shows "ft_ok lt key r \<and> set r = set t' \<union> {v. (case dupes of
      KEEP_FIRST_OF_DUPES \<Rightarrow> first_of (\<lambda>x y. matches lt (key x) (key y)) vs v
    | KEEP_LAST_OF_DUPES \<Rightarrow> last_of (\<lambda>x y. matches lt (key x) (key y)) vs v) \<and> \<not> ft_has lt key t (key v)}"
proof -
  have t': "ft_ok lt key t'" "length t' = length t" "\<And>k. ft_has lt key t' k = ft_has lt key t k"
    using assms(2) by (auto simp: overwritten_def)
  have "take (length t) t2 = t' \<and> ft_ok lt key (drop (length t) t2) \<and> set (drop (length t) t2) =
      {v. (case dupes of KEEP_FIRST_OF_DUPES \<Rightarrow> first_of (\<lambda>x y. matches lt (key x) (key y)) ns v
        | KEEP_LAST_OF_DUPES \<Rightarrow> last_of (\<lambda>x y. matches lt (key x) (key y)) ns v)}"
  proof -
    have e: "drop (length t) (t' @ ns) = ns" "take (length t) (t' @ ns) = t'" "length t \<le> length (t' @ ns)"
      using t'(2) by auto
    show ?thesis using sort_and_unique_spec [OF e(3), of key dupes] unfolding t2_def e(1,2) .
  qed
  then obtain us where us: "t2 = t' @ us" "ft_ok lt key us" "set us =
      {v. (case dupes of KEEP_FIRST_OF_DUPES \<Rightarrow> first_of (\<lambda>x y. matches lt (key x) (key y)) ns v
        | KEEP_LAST_OF_DUPES \<Rightarrow> last_of (\<lambda>x y. matches lt (key x) (key y)) ns v)}"
    by (metis append_take_drop_id)
  have P: "matches lt (key x) (key y) \<Longrightarrow> (\<not> ft_has lt key t (key x)) = (\<not> ft_has lt key t (key y))" for x y
    using ft_has_cong by blast
  have fl: "first_of (\<lambda>x y. matches lt (key x) (key y)) ns v \<longleftrightarrow>
      first_of (\<lambda>x y. matches lt (key x) (key y)) vs v \<and> \<not> ft_has lt key t (key v)"
    "last_of (\<lambda>x y. matches lt (key x) (key y)) ns v \<longleftrightarrow>
      last_of (\<lambda>x y. matches lt (key x) (key y)) vs v \<and> \<not> ft_has lt key t (key v)" for v
    unfolding assms(4) using first_of_filter [of key "\<lambda>v. \<not> ft_has lt key t (key v)" vs v, OF P]
      last_of_filter [of key "\<lambda>v. \<not> ft_has lt key t (key v)" vs v, OF P] by auto
  have in_ns: "v \<in> set ns \<and> \<not> ft_has lt key t (key v)" if "v \<in> set us" for v
    using that us(3) fl first_of_in last_of_in by (cases dupes) fastforce+
  have "take pos t2 = take pos t'" "take (length t - pos) (drop pos t2) = drop pos t'" "drop (length t) t2 = us"
    using us(1) t'(2) assms(3) by auto
  then have r: "r = take pos t' @ std_merge (value_comp lt key) (drop pos t') us" by (simp add: r_def)
  have "ft_ok lt key r \<and> set r = set t' \<union> set us"
    unfolding r using assms(3,5) t' in_ns by (intro merge_tail [OF t'(1) us(2)]) auto
  then show ?thesis using us(3) fl by (cases dupes) auto
qed

lemma insert_range_first:
  assumes "ft_ok lt key t"
  shows "ft_insert_range lt key mp t vs KEEP_FIRST_OF_DUPES = foldl (\<lambda>t v. snd (ft_insert lt key t v)) t vs"
proof -
  consider "vs = []" | (one) v where "mp" "vs = [v]" | (batch) "vs \<noteq> []" "\<not> (mp \<and> length vs = 1)"
    by (metis One_nat_def length_0_conv length_Suc_conv)
  then show ?thesis
  proof cases
    case one
    then show ?thesis
      using emplace_hint [OF assms, of "length t" "key v" v]
      by (simp add: ft_insert_range_def ft_insert_hint_def ft_insert_def split: prod.splits)
  next
    case batch
    obtain pos where a: "append_all (\<lambda>u. append_unique lt key u (length t)) vs (length t) (t @ []) =
        (pos, t @ [] @ filter (\<lambda>v. \<not> ft_has lt key t (key v)) vs)" "pos \<le> length t"
        "\<forall>i < pos. \<forall>v \<in> set ([] @ filter (\<lambda>v. \<not> ft_has lt key t (key v)) vs). lt (key (t ! i)) (key v)"
      using append_unique_all [OF assms order_refl, of "[]" vs] by auto
    have "overwritten key t (if KEEP_FIRST_OF_DUPES = KEEP_LAST_OF_DUPES then vs else []) t"
      using assms by (auto simp: overwritten_def)
    from insert_range_batch [OF assms this a(2) refl] a(3)
    have "ft_ok lt key (ft_insert_range lt key mp t vs KEEP_FIRST_OF_DUPES) \<and>
        set (ft_insert_range lt key mp t vs KEEP_FIRST_OF_DUPES) =
          set t \<union> {v. first_of (\<lambda>x y. matches lt (key x) (key y)) vs v \<and> \<not> ft_has lt key t (key v)}"
      using batch a(1) unfolding ft_insert_range_def Let_def by auto
    then show ?thesis
      using insert_fold_set [OF assms, of vs] strict_weak_order.strictly_sorted_unique [OF value_order [of key]]
      unfolding ft_ok_def by metis
  qed (simp add: ft_insert_range_def)
qed

lemma insert_range_last:
  assumes "ft_ok lt key t"
  shows "ft_insert_range lt key mp t vs KEEP_LAST_OF_DUPES = foldl (\<lambda>t v. snd (ft_insert_or_assign lt key t v)) t vs"
proof -
  consider "vs = []" | (one) v where "mp" "vs = [v]" | (batch) "vs \<noteq> []" "\<not> (mp \<and> length vs = 1)"
    by (metis One_nat_def length_0_conv length_Suc_conv)
  then show ?thesis
  proof cases
    case batch
    obtain pos t' where a: "append_all (\<lambda>u. append_or_assign lt key u (length t)) vs (length t) (t @ []) =
        (pos, t' @ [] @ filter (\<lambda>v. \<not> ft_has lt key t (key v)) vs)" "pos \<le> length t" "overwritten key t vs t'"
        "\<forall>i < pos. \<forall>v \<in> set ([] @ filter (\<lambda>v. \<not> ft_has lt key t (key v)) vs). lt (key (t' ! i)) (key v)"
      using append_or_assign_all [OF assms order_refl, of "[]" vs] by auto
    then have "overwritten key t (if KEEP_LAST_OF_DUPES = KEEP_LAST_OF_DUPES then vs else []) t'" by simp
    from insert_range_batch [OF assms this a(2) refl] a(4)
    have "ft_ok lt key (ft_insert_range lt key mp t vs KEEP_LAST_OF_DUPES) \<and>
        set (ft_insert_range lt key mp t vs KEEP_LAST_OF_DUPES) =
          set t' \<union> {v. last_of (\<lambda>x y. matches lt (key x) (key y)) vs v \<and> \<not> ft_has lt key t (key v)}"
      using batch a(1) unfolding ft_insert_range_def Let_def by auto
    moreover have "set t' \<union> {v. last_of (\<lambda>x y. matches lt (key x) (key y)) vs v \<and> \<not> ft_has lt key t (key v)} =
        {u \<in> set t. \<forall>v \<in> set vs. \<not> matches lt (key u) (key v)} \<union> {v. last_of (\<lambda>x y. matches lt (key x) (key y)) vs v}"
      using a(3) unfolding overwritten_def by auto
    ultimately show ?thesis
      using assign_fold_set [OF assms, of vs] strict_weak_order.strictly_sorted_unique [OF value_order [of key]]
      unfolding ft_ok_def by metis
  qed (simp_all add: ft_insert_range_def)
qed

lemma construct_fold:
  "ft_construct lt key items KEEP_FIRST_OF_DUPES = foldl (\<lambda>t v. snd (ft_insert lt key t v)) [] items \<and>
   ft_construct lt key items KEEP_LAST_OF_DUPES = foldl (\<lambda>t v. snd (ft_insert_or_assign lt key t v)) [] items"
proof -
  have e: "ft_ok lt key []" "\<not> ft_has lt key [] k" for k by (simp_all add: ft_ok_def ft_has_def)
  have s: "ft_ok lt key (ft_construct lt key items dupes) \<and> set (ft_construct lt key items dupes) =
      {v. (case dupes of KEEP_FIRST_OF_DUPES \<Rightarrow> first_of (\<lambda>x y. matches lt (key x) (key y)) items v
        | KEEP_LAST_OF_DUPES \<Rightarrow> last_of (\<lambda>x y. matches lt (key x) (key y)) items v)}" for dupes
    using sort_and_unique_spec [of 0 items key dupes, unfolded drop0] unfolding ft_construct_def by blast
  note u = strict_weak_order.strictly_sorted_unique [OF value_order [of key], folded ft_ok_def]
  show ?thesis
    using s [of KEEP_FIRST_OF_DUPES] s [of KEEP_LAST_OF_DUPES] insert_fold_set [OF e(1), of items]
      assign_fold_set [OF e(1), of items] e(2) by (intro conjI u) auto
qed

lemma filter_prefix:
  assumes "p \<le> length t" "\<And>i. i < p \<Longrightarrow> P (t ! i)" "\<And>i. p \<le> i \<Longrightarrow> i < length t \<Longrightarrow> \<not> P (t ! i)"
  shows "length (filter P t) = p"
proof -
  have "filter P (take p t) = take p t" using assms(1,2) by (auto simp: filter_id_conv in_set_conv_nth)
  moreover have "filter P (drop p t) = []" using assms(3) by (auto simp: filter_empty_conv in_set_conv_nth)
  ultimately have "filter P (take p t @ drop p t) = take p t" by (simp only: filter_append append_Nil2)
  then show ?thesis using assms(1) by simp
qed

lemma lower_bound_filter:
  assumes "ft_ok lt key t"
  shows "ft_lower_bound lt key t k = length (filter (\<lambda>v. lt (key v) k) t)"
  by (rule filter_prefix [symmetric]) (use lower_bound_spec [OF assms, where k = k] in auto)

lemma upper_bound_filter:
  assumes "ft_ok lt key t"
  shows "ft_upper_bound lt key t k = length (filter (\<lambda>v. \<not> lt k (key v)) t)"
proof -
  have m: "\<not> lt k (key (t ! i))" if "0 \<le> i" "i \<le> j" "j < 0 + length t" "\<not> lt k (key (t ! j))" for i j
    using ft_okD [OF assms, of i j] that lt_trans [of k "key (t ! i)" "key (t ! j)"] by (cases "i = j") auto
  note r = std_lower_bound_range [of 0 "length t" "\<lambda>v. \<not> lt k (key v)" t, OF m,
      folded std_upper_bound_lower, folded ft_upper_bound_def]
  show ?thesis by (rule filter_prefix [symmetric]) (use r in auto)
qed

lemma find_spec:
  assumes "ft_ok lt key t"
  shows "(if ft_has lt key t k then ft_find lt key t k < length t \<and> matches lt (key (t ! ft_find lt key t k)) k
      else ft_find lt key t k = length t) \<and> ft_count lt key t k = of_bool (ft_has lt key t k) \<and>
    ft_erase lt key t k = (of_bool (ft_has lt key t k), filter (\<lambda>v. \<not> matches lt (key v) k) t)"
  using assms
proof (cases rule: search_cases [where k = k])
  case hit
  let ?p = "ft_lower_bound lt key t k"
  have has: "ft_has lt key t k" using hit by (auto simp: ft_has_def)
  have "filter (\<lambda>v. \<not> matches lt (key v) k) (take ?p t) = take ?p t"
    using hit(1,4) by (auto simp: filter_id_conv in_set_conv_nth matches_def)
  moreover have "filter (\<lambda>v. \<not> matches lt (key v) k) (drop (Suc ?p) t) = drop (Suc ?p) t"
    using hit(5) by (auto simp: filter_id_conv in_set_conv_nth matches_def)
  ultimately have "filter (\<lambda>v. \<not> matches lt (key v) k) (take ?p t @ t ! ?p # drop (Suc ?p) t) = take ?p t @ drop (Suc ?p) t"
    using hit(3) by simp
  then have "filter (\<lambda>v. \<not> matches lt (key v) k) t = take ?p t @ drop (Suc ?p) t"
    using id_take_nth_drop [OF hit(1)] by simp
  then show ?thesis
    using hit has by (simp add: ft_find_def ft_count_def ft_erase_def ft_equal_range_def ft_erase_range_def Let_def)
next
  case miss
  have "filter (\<lambda>v. \<not> matches lt (key v) k) t = t" using miss(3) by (auto simp: filter_id_conv ft_has_def)
  then show ?thesis
    using miss by (auto simp: ft_find_def ft_count_def ft_erase_def ft_equal_range_def ft_erase_range_def Let_def)
qed

end

section \<open>The properties\<close>

text \<open>Searching a sorted tree: \<open>lower_bound\<close> and \<open>upper_bound\<close> are the numbers of elements that are
  smaller, and not greater, than the key; \<open>find\<close> returns the element whose key is equivalent and the
  end when there is none; and \<open>count\<close> is one or zero accordingly.\<close>

theorem flat_search:
  assumes "strict_weak_order key_comp" "ft_ok key_comp key t"
  shows "ft_lower_bound key_comp key t k = length (filter (\<lambda>v. key_comp (key v) k) t) \<and>
    ft_upper_bound key_comp key t k = length (filter (\<lambda>v. \<not> key_comp k (key v)) t) \<and>
    (if ft_has key_comp key t k
     then ft_find key_comp key t k < length t \<and> matches key_comp (key (t ! ft_find key_comp key t k)) k
     else ft_find key_comp key t k = length t) \<and>
    ft_count key_comp key t k = of_bool (ft_has key_comp key t k)"
  using strict_weak_order.lower_bound_filter [OF assms] strict_weak_order.upper_bound_filter [OF assms]
    strict_weak_order.find_spec [OF assms, of k] by simp

text \<open>Inserting one element keeps the tree sorted and without equivalent keys, adds the element
  exactly when its key is not there, and returns the position of the element with that key; with
  any valid hint the outcome is the same as without.\<close>

theorem flat_insert:
  assumes "strict_weak_order key_comp" "ft_ok key_comp key t" "hint \<le> length t"
    "ft_insert key_comp key t v = ((pos, new), t')"
  shows "ft_ok key_comp key t' \<and> new = (\<not> ft_has key_comp key t (key v)) \<and>
    set t' = (if new then insert v (set t) else set t) \<and>
    pos < length t' \<and> matches key_comp (key (t' ! pos)) (key v) \<and>
    ft_insert_hint key_comp key t hint v = (pos, t')"
  using strict_weak_order.emplace_spec [OF assms(1,2) strict_weak_order.matches_refl [OF assms(1)]
      assms(4) [unfolded ft_insert_def]]
    strict_weak_order.emplace_hint [OF assms(1,2,3), of "key v" v] assms(4)
  by (auto simp: ft_insert_hint_def ft_insert_def)

text \<open>C7: Inserting a range, in one batch that is sorted, stripped of repetitions and merged, gives the
  tree that inserting the elements one by one gives: with \<open>KEEP_FIRST_OF_DUPES\<close> as by \<open>insert\<close>, with
  \<open>KEEP_LAST_OF_DUPES\<close> as by \<open>insert_or_assign\<close>; and constructing a tree from a range is inserting the
  range into an empty tree.\<close>

theorem flat_insert_range:
  assumes "strict_weak_order key_comp" "ft_ok key_comp key t"
  shows "ft_insert_range key_comp key multipass t vs KEEP_FIRST_OF_DUPES =
      foldl (\<lambda>t v. snd (ft_insert key_comp key t v)) t vs \<and>
    ft_insert_range key_comp key multipass t vs KEEP_LAST_OF_DUPES =
      foldl (\<lambda>t v. snd (ft_insert_or_assign key_comp key t v)) t vs \<and>
    ft_construct key_comp key vs dupes = ft_insert_range key_comp key multipass [] vs dupes"
proof -
  have "ft_ok key_comp key []" by (simp add: ft_ok_def)
  note e = this
  show ?thesis
    using strict_weak_order.insert_range_first [OF assms] strict_weak_order.insert_range_last [OF assms]
      strict_weak_order.insert_range_first [OF assms(1) e, of multipass vs]
      strict_weak_order.insert_range_last [OF assms(1) e, of multipass vs]
      strict_weak_order.construct_fold [OF assms(1), of key vs] by (cases dupes) auto
qed

text \<open>Erasing a key removes exactly the element with an equivalent key and reports whether there was
  one; \<open>EraseIf\<close> removes exactly the matching elements; both keep the order.\<close>

theorem flat_erase:
  assumes "strict_weak_order key_comp" "ft_ok key_comp key t"
  shows "ft_erase key_comp key t k = (of_bool (ft_has key_comp key t k), filter (\<lambda>v. \<not> matches key_comp (key v) k) t) \<and>
    ft_EraseIf pred t = filter (\<lambda>v. \<not> pred v) t \<and>
    ft_ok key_comp key (snd (ft_erase key_comp key t k)) \<and> ft_ok key_comp key (ft_EraseIf pred t)"
proof -
  have "length (filter (\<lambda>v. \<not> pred v) t) \<le> length t" by simp
  then have "ft_EraseIf pred t = filter (\<lambda>v. \<not> pred v) t"
    by (simp add: ft_EraseIf_def Let_def ft_erase_range_def)
  then show ?thesis
    using strict_weak_order.find_spec [OF assms, of k] strict_weak_order.filter_ok [OF assms] by simp
qed

section \<open>Concrete trees\<close>

lemma nat_order: "strict_weak_order ((<) :: nat \<Rightarrow> nat \<Rightarrow> bool)"
  by (rule std_less.strict_weak_order_axioms)

lemma three_ok: "ft_ok (<) fst [(1, 10), (3, 30), (5, 50 :: nat) :: nat \<times> nat]"
  by (simp add: ft_ok_def value_comp_def)

theorem flat_insert_range_witness:
  "ft_insert_range (<) fst True [(1, 10), (3, 30), (5, 50 :: nat) :: nat \<times> nat] [(4, 1), (3, 2), (4, 3)] KEEP_LAST_OF_DUPES =
     [(1, 10), (3, 2), (4, 3), (5, 50)]"
proof -
  have "foldl (\<lambda>t v. snd (ft_insert_or_assign (<) fst t v)) [(1, 10), (3, 30), (5, 50 :: nat) :: nat \<times> nat] [(4, 1), (3, 2), (4, 3)] =
      [(1, 10), (3, 2), (4, 3), (5, 50)]"
    by code_simp
  then show ?thesis using flat_insert_range [OF nat_order three_ok, of True "[(4, 1), (3, 2), (4, 3)]"] by simp
qed

end
