(* ===== verification/Map_Interfaces.thy ===== *)
theory Map_Interfaces
  imports Order_Interfaces
begin

text \<open>
  The contract of a map whose keys count as equal under an equivalence given by the
  comparison, and what its clients get: after any sequence of updates a key has the value of
  the last update of it.
\<close>

locale keyed_map =
  fixes inv :: "'m \<Rightarrow> bool"
    and lookup :: "'m \<Rightarrow> 'k \<Rightarrow> 'v option"
    and update :: "'k \<Rightarrow> 'v \<Rightarrow> 'm \<Rightarrow> 'm"
    and delete :: "'k \<Rightarrow> 'm \<Rightarrow> 'm"
    and eqv :: "'k \<Rightarrow> 'k \<Rightarrow> bool"
  assumes update_inv: "inv m \<Longrightarrow> inv (update k v m)"
    and delete_inv: "inv m \<Longrightarrow> inv (delete k m)"
    and lookup_update: "inv m \<Longrightarrow> lookup (update k v m) j = (if eqv k j then Some v else lookup m j)"
    and lookup_delete: "inv m \<Longrightarrow> lookup (delete k m) j = (if eqv k j then None else lookup m j)"
begin

lemma updates_inv: "inv m \<Longrightarrow> inv (foldl (\<lambda>m (k, v). update k v m) m kvs)"
  by (induction kvs arbitrary: m) (auto simp: update_inv)

lemma lookup_updates:
  "inv m \<Longrightarrow> lookup (foldl (\<lambda>m (k, v). update k v m) m kvs) j =
     (case List.find (\<lambda>(k, v). eqv k j) (rev kvs) of None \<Rightarrow> lookup m j | Some (k, v) \<Rightarrow> Some v)"
proof (induction kvs rule: rev_induct)
  case (snoc kv kvs)
  then show ?case by (cases kv) (simp add: lookup_update updates_inv)
qed simp

lemma update_delete:
  assumes "inv m"
  shows "lookup (update k v (delete k m)) = lookup (update k v m)"
  by (intro ext) (simp add: lookup_update lookup_delete delete_inv assms)

end

end
