(* ===== verification/Flat_Map.thy ===== *)
theory Flat_Map
  imports Flat_Tree Map_Interfaces
begin

text \<open>
  The map of \<open>src/base/containers/flat_map.h\<close> on top of the sorted vector: the elements are
  pairs of a key and a value, the key extractor is the first projection, and the operations
  that construct or overwrite a value go through the insertions of the tree.  The value a
  default constructor makes is an argument.
\<close>

section \<open>Operations\<close>

type_synonym ('k, 'm) flat_map = "('k \<times> 'm) list"

definition fm_construct ::
  "('k \<Rightarrow> 'k \<Rightarrow> bool) \<Rightarrow> ('k \<times> 'm) list \<Rightarrow> FlatContainerDupes \<Rightarrow> ('k, 'm) flat_map" where
  "fm_construct key_comp items dupes = ft_construct key_comp fst items dupes"

definition fm_assign :: "('k \<Rightarrow> 'k \<Rightarrow> bool) \<Rightarrow> ('k \<times> 'm) list \<Rightarrow> ('k, 'm) flat_map" where
  "fm_assign key_comp ilist = ft_assign key_comp fst ilist"

text \<open>\<open>operator[]\<close>: the position of the value it refers to.\<close>

definition fm_index :: "('k \<Rightarrow> 'k \<Rightarrow> bool) \<Rightarrow> 'm \<Rightarrow> ('k, 'm) flat_map \<Rightarrow> 'k \<Rightarrow> nat \<times> ('k, 'm) flat_map" where
  "fm_index key_comp mapped t k =
     (let found = ft_lower_bound key_comp fst t k
      in if found = length t \<or> key_comp k (fst (t ! found)) then unsafe_emplace t found (k, mapped) else (found, t))"

definition fm_insert_or_assign ::
  "('k \<Rightarrow> 'k \<Rightarrow> bool) \<Rightarrow> ('k, 'm) flat_map \<Rightarrow> 'k \<Rightarrow> 'm \<Rightarrow> (nat \<times> bool) \<times> ('k, 'm) flat_map" where
  "fm_insert_or_assign key_comp t k obj =
     (case emplace_key_args key_comp fst t k (k, obj) of ((pos, new), t') \<Rightarrow>
        ((pos, new), if new then t' else t'[pos := (fst (t' ! pos), obj)]))"

definition fm_insert_or_assign_hint ::
  "('k \<Rightarrow> 'k \<Rightarrow> bool) \<Rightarrow> ('k, 'm) flat_map \<Rightarrow> nat \<Rightarrow> 'k \<Rightarrow> 'm \<Rightarrow> nat \<times> ('k, 'm) flat_map" where
  "fm_insert_or_assign_hint key_comp t hint k obj =
     (case emplace_hint_key_args key_comp fst t hint k (k, obj) of ((pos, new), t') \<Rightarrow>
        (pos, if new then t' else t'[pos := (fst (t' ! pos), obj)]))"

definition fm_try_emplace ::
  "('k \<Rightarrow> 'k \<Rightarrow> bool) \<Rightarrow> ('k, 'm) flat_map \<Rightarrow> 'k \<Rightarrow> 'm \<Rightarrow> (nat \<times> bool) \<times> ('k, 'm) flat_map" where
  "fm_try_emplace key_comp t k obj = emplace_key_args key_comp fst t k (k, obj)"

definition fm_try_emplace_hint ::
  "('k \<Rightarrow> 'k \<Rightarrow> bool) \<Rightarrow> ('k, 'm) flat_map \<Rightarrow> nat \<Rightarrow> 'k \<Rightarrow> 'm \<Rightarrow> nat \<times> ('k, 'm) flat_map" where
  "fm_try_emplace_hint key_comp t hint k obj =
     (case emplace_hint_key_args key_comp fst t hint k (k, obj) of ((pos, new), t') \<Rightarrow> (pos, t'))"

section \<open>The map a vector stands for\<close>

definition fm_lookup :: "('k \<Rightarrow> 'k \<Rightarrow> bool) \<Rightarrow> ('k, 'm) flat_map \<Rightarrow> 'k \<Rightarrow> 'm option" where
  "fm_lookup key_comp t k =
     (let i = ft_find key_comp fst t k in if i = length t then None else Some (snd (t ! i)))"

context strict_weak_order
begin

lemma matches_cong: "matches lt a b \<Longrightarrow> matches lt u a = matches lt u b"
  using matches_trans [of u a b] matches_trans [of u b a] matches_sym [of a b] by blast

lemma ft_ok_inj:
  assumes "ft_ok lt key t" "a \<in> set t" "b \<in> set t" "matches lt (key a) (key b)"
  shows "a = b"
proof -
  obtain i j where ij: "i < length t" "t ! i = a" "j < length t" "t ! j = b"
    using assms(2,3) by (auto simp: in_set_conv_nth)
  then show ?thesis
    using ft_okD [OF assms(1), of i j] ft_okD [OF assms(1), of j i] assms(4)
    by (cases i j rule: linorder_cases) (auto simp: matches_def)
qed

lemma fm_lookup_set:
  assumes "ft_ok lt fst t"
  shows "fm_lookup lt t k = Some m \<longleftrightarrow> (\<exists>j. (j, m) \<in> set t \<and> matches lt j k)"
proof (cases "ft_has lt fst t k")
  case True
  let ?i = "ft_find lt fst t k"
  have i: "?i < length t" "matches lt (fst (t ! ?i)) k" using find_spec [OF assms, of k] True by auto
  then have l: "fm_lookup lt t k = Some (snd (t ! ?i))" by (simp add: fm_lookup_def)
  have "(j, m) = t ! ?i" if "(j, m) \<in> set t" "matches lt j k" for j
    using ft_ok_inj [OF assms that(1) nth_mem [OF i(1)]] that(2) i(2) matches_trans matches_sym by (metis fst_conv)
  then show ?thesis using l i nth_mem [OF i(1)] by (metis option.inject prod.collapse snd_conv)
next
  case False
  then show ?thesis using find_spec [OF assms, of k] by (auto simp: fm_lookup_def ft_has_def)
qed

lemma fm_lookup_None: "ft_ok lt fst t \<Longrightarrow> fm_lookup lt t k = None \<longleftrightarrow> \<not> ft_has lt fst t k"
  using find_spec [of fst t k] by (auto simp: fm_lookup_def)

text \<open>Two sorted vectors that differ in the elements with one key only.\<close>

lemma fm_lookup_change:
  assumes "ft_ok lt fst t" "ft_ok lt fst t'" "\<And>j m. \<not> matches lt k j \<Longrightarrow> (j, m) \<in> set t' \<longleftrightarrow> (j, m) \<in> set t"
    "\<not> matches lt k j"
  shows "fm_lookup lt t' j = fm_lookup lt t j"
proof -
  have "(\<exists>i. (i, m) \<in> set t' \<and> matches lt i j) \<longleftrightarrow> (\<exists>i. (i, m) \<in> set t \<and> matches lt i j)" for m
    using assms(3,4) matches_trans by metis
  then have "fm_lookup lt t' j = Some m \<longleftrightarrow> fm_lookup lt t j = Some m" for m
    using fm_lookup_set [OF assms(1)] fm_lookup_set [OF assms(2)] by simp
  then show ?thesis by (metis option.exhaust)
qed

lemma fm_update_law:
  assumes "ft_ok lt fst t" "ft_ok lt fst t'" "set t' = insert (k', m) {u \<in> set t. \<not> matches lt (fst u) k}"
    "matches lt k' k"
  shows "fm_lookup lt t' j = (if matches lt k j then Some m else fm_lookup lt t j)"
proof (cases "matches lt k j")
  case True
  then have "fm_lookup lt t' j = Some m"
    unfolding fm_lookup_set [OF assms(2)] using assms(3,4) matches_trans [of k' k j] by auto
  then show ?thesis using True by simp
next
  case False
  have "(i, n) \<in> set t' \<longleftrightarrow> (i, n) \<in> set t" if "\<not> matches lt k i" for i n
    using that assms(3,4) matches_sym by auto
  then show ?thesis using fm_lookup_change [OF assms(1,2) _ False] False by simp
qed

lemma no_match_filter: "\<not> ft_has lt fst t k \<Longrightarrow> {u \<in> set t. \<not> matches lt (fst u) k} = set t"
  by (auto simp: ft_has_def)

lemma fm_insert_or_assign_law:
  assumes "ft_ok lt fst t"
  shows "ft_ok lt fst (snd (fm_insert_or_assign lt t k m)) \<and>
    fm_lookup lt (snd (fm_insert_or_assign lt t k m)) j = (if matches lt k j then Some m else fm_lookup lt t j)"
proof -
  obtain pos new t' where e: "emplace_key_args lt fst t k (k, m) = ((pos, new), t')" by (metis prod.exhaust)
  have "matches lt (fst (k, m)) k" by (simp add: matches_refl)
  note s = emplace_spec [OF assms this e]
  show ?thesis
  proof (cases new)
    case True
    then have "set t' = insert (k, m) {u \<in> set t. \<not> matches lt (fst u) k}" using s no_match_filter by auto
    then show ?thesis using s True e fm_update_law [OF assms, of t' k m k j] by (simp add: fm_insert_or_assign_def matches_refl)
  next
    case False
    let ?k = "fst (t' ! pos)"
    have st: "ft_ok lt fst t'" "set t' = set t" "pos < length t'" "matches lt ?k k" using s False by auto
    have m: "matches lt (fst (t' ! pos)) (fst (?k, m))" by (simp add: matches_refl)
    have "set (t'[pos := (?k, m)]) = insert (?k, m) {u \<in> set t. \<not> matches lt (fst u) k}"
      unfolding set_update_match [OF st(1,3) m] st(2) by (simp add: matches_cong [OF st(4)])
    then show ?thesis
      using fm_update_law [OF assms ft_ok_update [OF st(1,3) m] _ st(4), of m] ft_ok_update [OF st(1,3) m] False e
      by (simp add: fm_insert_or_assign_def)
  qed
qed

lemma fm_try_emplace_law:
  assumes "ft_ok lt fst t"
  shows "ft_ok lt fst (snd (fm_try_emplace lt t k m)) \<and>
    fm_lookup lt (snd (fm_try_emplace lt t k m)) j =
      (if matches lt k j \<and> fm_lookup lt t k = None then Some m else fm_lookup lt t j)"
proof -
  obtain pos new t' where e: "emplace_key_args lt fst t k (k, m) = ((pos, new), t')" by (metis prod.exhaust)
  have "matches lt (fst (k, m)) k" by (simp add: matches_refl)
  note s = emplace_spec [OF assms this e]
  show ?thesis
  proof (cases new)
    case True
    then have "set t' = insert (k, m) {u \<in> set t. \<not> matches lt (fst u) k}" using s no_match_filter by auto
    then show ?thesis
      using s True e fm_update_law [OF assms, of t' k m k j] by (simp add: fm_try_emplace_def matches_refl fm_lookup_None [OF assms])
  next
    case False
    then have "t' = t" using e by (auto simp: emplace_key_args_def unsafe_emplace_def Let_def split: if_splits)
    then show ?thesis using s False e by (simp add: fm_try_emplace_def fm_lookup_None [OF assms])
  qed
qed

lemma fm_index_law:
  assumes "ft_ok lt fst t" "fm_index lt dflt t k = (i, t')"
  shows "t' = snd (fm_try_emplace lt t k dflt) \<and> i < length t' \<and>
    snd (t' ! i) = (case fm_lookup lt t k of None \<Rightarrow> dflt | Some m \<Rightarrow> m)"
proof -
  obtain pos new u where e: "emplace_key_args lt fst t k (k, dflt) = ((pos, new), u)" by (metis prod.exhaust)
  then have eq: "i = pos" "t' = u"
    using assms(2) by (auto simp: fm_index_def emplace_key_args_def unsafe_emplace_def Let_def split: if_splits)
  have "matches lt (fst (k, dflt)) k" by (simp add: matches_refl)
  note s = emplace_spec [OF assms(1) this e]
  have u: "u = snd (fm_try_emplace lt t k dflt)" by (simp add: fm_try_emplace_def e)
  have "fm_lookup lt u k = Some (snd (u ! pos))"
    using s nth_mem [of pos u] by (subst fm_lookup_set) (auto intro!: exI [of _ "fst (u ! pos)"])
  moreover have "fm_lookup lt u k = (if fm_lookup lt t k = None then Some dflt else fm_lookup lt t k)"
    using fm_try_emplace_law [OF assms(1), of k dflt k] by (simp add: u matches_refl)
  ultimately show ?thesis using s eq u by (auto split: option.splits)
qed

lemma fm_erase_law:
  assumes "ft_ok lt fst t"
  shows "ft_ok lt fst (snd (ft_erase lt fst t k)) \<and>
    fm_lookup lt (snd (ft_erase lt fst t k)) j = (if matches lt k j then None else fm_lookup lt t j)"
proof -
  have e: "snd (ft_erase lt fst t k) = filter (\<lambda>v. \<not> matches lt (fst v) k) t" using find_spec [OF assms, of k] by simp
  have ok: "ft_ok lt fst (filter (\<lambda>v. \<not> matches lt (fst v) k) t)" by (rule filter_ok [OF assms])
  show ?thesis
  proof (cases "matches lt k j")
    case True
    then have "\<not> ft_has lt fst (filter (\<lambda>v. \<not> matches lt (fst v) k) t) j"
      by (simp add: ft_has_def matches_cong [OF True])
    then show ?thesis using True ok fm_lookup_None [OF ok] by (simp add: e)
  next
    case False
    have "(i, n) \<in> set (filter (\<lambda>v. \<not> matches lt (fst v) k) t) \<longleftrightarrow> (i, n) \<in> set t" if "\<not> matches lt k i" for i n
      using that matches_sym by auto
    then show ?thesis using fm_lookup_change [OF assms ok _ False] False ok by (simp add: e)
  qed
qed

end

sublocale strict_weak_order \<subseteq> flat: keyed_map "ft_ok lt fst" "fm_lookup lt"
  "\<lambda>k m t. snd (fm_insert_or_assign lt t k m)" "\<lambda>k t. snd (ft_erase lt fst t k)" "matches lt"
  by unfold_locales (auto simp: fm_insert_or_assign_law fm_erase_law)

text \<open>The assignment of the tree, which replaces the whole pair, obeys the same contract.\<close>

sublocale strict_weak_order \<subseteq> flat_pairs: keyed_map "ft_ok lt fst" "fm_lookup lt"
  "\<lambda>k m t. snd (ft_insert_or_assign lt fst t (k, m))" "\<lambda>k t. snd (ft_erase lt fst t k)" "matches lt"
proof unfold_locales
  fix t :: "('a \<times> 'b) list" and k j :: 'a and m :: 'b
  assume t: "ft_ok lt fst t"
  obtain pos new u where e: "ft_insert_or_assign lt fst t (k, m) = ((pos, new), u)" by (metis prod.exhaust)
  note s = insert_or_assign_spec [OF t e]
  show "ft_ok lt fst (snd (ft_insert_or_assign lt fst t (k, m)))" using s by (simp add: e)
  show "fm_lookup lt (snd (ft_insert_or_assign lt fst t (k, m))) j = (if matches lt k j then Some m else fm_lookup lt t j)"
    using s fm_update_law [OF t, of u k m k j] by (simp add: e matches_refl)
qed (auto simp: fm_erase_law)

context strict_weak_order
begin

lemmas assign_updates = flat.lookup_updates

lemmas pair_updates = flat_pairs.lookup_updates

end

section \<open>The properties\<close>

text \<open>C17: A \<open>flat_map\<close> is a map up to the equivalence of its comparison: \<open>insert_or_assign\<close> sets the value
  of the key, \<open>try_emplace\<close> and \<open>operator[]\<close> only where there was none, \<open>erase\<close> removes it, and no
  other key is affected; \<open>operator[]\<close> refers to the value of the key; the hinted forms have the
  same effect; and the vector stays sorted.\<close>

theorem flat_map_refines:
  assumes "strict_weak_order key_comp" "ft_ok key_comp fst t" "hint \<le> length t" "fm_index key_comp mapped t k = (i, u)"
  shows "fm_lookup key_comp (snd (fm_insert_or_assign key_comp t k m)) j =
      (if matches key_comp k j then Some m else fm_lookup key_comp t j) \<and>
    snd (fm_insert_or_assign_hint key_comp t hint k m) = snd (fm_insert_or_assign key_comp t k m) \<and>
    fm_lookup key_comp (snd (fm_try_emplace key_comp t k m)) j =
      (if matches key_comp k j \<and> fm_lookup key_comp t k = None then Some m else fm_lookup key_comp t j) \<and>
    snd (fm_try_emplace_hint key_comp t hint k m) = snd (fm_try_emplace key_comp t k m) \<and>
    (u = snd (fm_try_emplace key_comp t k mapped) \<and> i < length u \<and>
      snd (u ! i) = (case fm_lookup key_comp t k of None \<Rightarrow> mapped | Some m \<Rightarrow> m)) \<and>
    fm_lookup key_comp (snd (ft_erase key_comp fst t k)) j =
      (if matches key_comp k j then None else fm_lookup key_comp t j) \<and>
    ft_ok key_comp fst (snd (fm_insert_or_assign key_comp t k m)) \<and>
    ft_ok key_comp fst (snd (fm_try_emplace key_comp t k m)) \<and> ft_ok key_comp fst (snd (ft_erase key_comp fst t k))"
proof -
  have h: "emplace_hint_key_args key_comp fst t hint k v = emplace_key_args key_comp fst t k v" for v
    by (rule strict_weak_order.emplace_hint [OF assms(1,2,3)])
  have "snd (fm_insert_or_assign_hint key_comp t hint k m) = snd (fm_insert_or_assign key_comp t k m)"
    "snd (fm_try_emplace_hint key_comp t hint k m) = snd (fm_try_emplace key_comp t k m)"
    by (simp_all add: fm_insert_or_assign_hint_def fm_insert_or_assign_def fm_try_emplace_hint_def fm_try_emplace_def h
      split: prod.splits)
  then show ?thesis
    using strict_weak_order.fm_insert_or_assign_law [OF assms(1,2), of k m j]
      strict_weak_order.fm_try_emplace_law [OF assms(1,2), of k m j] strict_weak_order.fm_erase_law [OF assms(1,2), of k j]
      strict_weak_order.fm_index_law [OF assms(1,2,4)] by blast
qed

text \<open>After any sequence of \<open>insert_or_assign\<close> calls on a map, a key has the value of the last call
  with an equivalent key, and the value it had before when there was none; a map constructed from
  the same pairs with \<open>KEEP_LAST_OF_DUPES\<close> has the same contents.\<close>

theorem flat_map_last_wins:
  assumes "strict_weak_order key_comp" "ft_ok key_comp fst t"
  shows "fm_lookup key_comp (foldl (\<lambda>t (k, m). snd (fm_insert_or_assign key_comp t k m)) t kms) j =
      (case List.find (\<lambda>(k, m). matches key_comp k j) (rev kms) of
         None \<Rightarrow> fm_lookup key_comp t j | Some (k, m) \<Rightarrow> Some m) \<and>
    fm_lookup key_comp (fm_construct key_comp kms KEEP_LAST_OF_DUPES) j =
      map_option snd (List.find (\<lambda>(k, m). matches key_comp k j) (rev kms))"
proof -
  have e: "ft_ok key_comp fst []" "fm_lookup key_comp [] j = None"
    by (simp_all add: ft_ok_def fm_lookup_def ft_find_def ft_equal_range_def ft_lower_bound_def std_lower_bound.simps)
  have "foldl (\<lambda>t v. snd (ft_insert_or_assign key_comp fst t v)) [] kms =
      foldl (\<lambda>t (k, m). snd (ft_insert_or_assign key_comp fst t (k, m))) [] kms" by (intro foldl_cong) auto
  then have "fm_construct key_comp kms KEEP_LAST_OF_DUPES =
      foldl (\<lambda>t (k, m). snd (ft_insert_or_assign key_comp fst t (k, m))) [] kms"
    using strict_weak_order.construct_fold [OF assms(1), of fst kms] by (simp add: fm_construct_def)
  then have "fm_lookup key_comp (fm_construct key_comp kms KEEP_LAST_OF_DUPES) j =
      map_option snd (List.find (\<lambda>(k, m). matches key_comp k j) (rev kms))"
    using strict_weak_order.pair_updates [OF assms(1) e(1), of kms j] e(2)
    by (auto split: option.splits)
  then show ?thesis using strict_weak_order.assign_updates [OF assms, of kms j] by simp
qed

section \<open>A concrete map\<close>

theorem flat_map_refines_witness:
  "fm_lookup (<) (snd (fm_insert_or_assign (<) [(1, 10), (3, 30), (5, 50 :: nat) :: nat \<times> nat] 3 31)) 3 = Some 31 \<and>
   snd (fm_index (<) 0 [(1, 10), (3, 30), (5, 50 :: nat) :: nat \<times> nat] 4) = [(1, 10), (3, 30), (4, 0), (5, 50)]"
proof -
  have "fm_index (<) 0 [(1, 10), (3, 30), (5, 50 :: nat) :: nat \<times> nat] 4 = (2, [(1, 10), (3, 30), (4, 0), (5, 50)])"
    by code_simp
  moreover have "fm_index (<) 0 [(1, 10), (3, 30), (5, 50 :: nat) :: nat \<times> nat] 3 = (1, [(1, 10), (3, 30), (5, 50)])"
    by code_simp
  from flat_map_refines [OF nat_order three_ok _ this, of 0 31 3]
  have "fm_lookup (<) (snd (fm_insert_or_assign (<) [(1, 10), (3, 30), (5, 50 :: nat) :: nat \<times> nat] 3 31)) 3 = Some 31"
    by (simp add: matches_def)
  ultimately show ?thesis by simp
qed

end
