(* ===== verification/Command_Line.thy ===== *)
theory Command_Line
  imports Sparo_Prelude
begin

text \<open>
  The command line of \<open>src/base/command_line.{h,cc}\<close>, in its POSIX build: strings are lists of
  characters, the switches are a map from keys to values, \<open>argv_\<close> is a list whose switches
  come before its arguments, with \<open>begin_args_\<close> the index that divides them.  An insertion
  into the vector behind its end is undefined and makes the operation \<open>None\<close>.
\<close>

section \<open>Operations\<close>

record command_line =
  cl_argv :: "string list"
  cl_switches :: "string \<rightharpoonup> string"
  cl_begin_args :: nat

definition kSwitchTerminator :: string where "kSwitchTerminator = ''--''"

definition kSwitchValueSeparator :: char where "kSwitchValueSeparator = CHR ''=''"

definition kSwitchPrefixes :: "string list" where "kSwitchPrefixes = [''--'', ''-'']"

definition ToLowerASCII_char :: "char \<Rightarrow> char" where
  "ToLowerASCII_char c = (if of_char c \<ge> (65 :: nat) \<and> of_char c \<le> (90 :: nat)
     then char_of (of_char c + (32 :: nat)) else c)"

definition ToLowerASCII :: "string \<Rightarrow> string" where
  "ToLowerASCII str = map ToLowerASCII_char str"

fun prefix_length :: "string list \<Rightarrow> string \<Rightarrow> nat" where
  "prefix_length [] s = 0"
| "prefix_length (p # ps) s = (if take (length p) s = p then length p else prefix_length ps s)"

definition GetSwitchPrefixLength :: "string \<Rightarrow> nat" where
  "GetSwitchPrefixLength s = prefix_length kSwitchPrefixes s"

text \<open>\<open>find\<close> of the separator: \<open>None\<close> is \<open>npos\<close>.\<close>

fun find_char :: "char \<Rightarrow> string \<Rightarrow> nat option" where
  "find_char c [] = None"
| "find_char c (x # xs) = (if x = c then Some 0 else map_option Suc (find_char c xs))"

definition IsSwitch :: "string \<Rightarrow> (string \<times> string) option" where
  "IsSwitch s =
     (let n = GetSwitchPrefixLength s
      in if n = 0 \<or> n = length s then None
         else case find_char kSwitchValueSeparator s of
             None \<Rightarrow> Some (s, [])
           | Some i \<Rightarrow> Some (take i s, drop (i + 1) s))"

definition IsSwitchWithKey :: "string \<Rightarrow> string \<Rightarrow> bool" where
  "IsSwitchWithKey s switch_key_without_prefix =
     (let n = GetSwitchPrefixLength s
      in if n = 0 \<or> n = length s then False
         else (case find_char kSwitchValueSeparator s of
             None \<Rightarrow> drop n s
           | Some i \<Rightarrow> take (i - n) (drop n s)) = switch_key_without_prefix)"

definition CommandLine :: command_line where
  "CommandLine = \<lparr>cl_argv = [[]], cl_switches = Map.empty, cl_begin_args = 1\<rparr>"

definition AppendSwitchNative :: "string \<Rightarrow> string \<Rightarrow> command_line \<Rightarrow> command_line option" where
  "AppendSwitchNative switch_string switch_value cl =
     (let n = GetSwitchPrefixLength switch_string;
          key = drop n switch_string;
          combined = (if n = 0 then hd kSwitchPrefixes @ switch_string else switch_string) @
            (if switch_value = [] then [] else kSwitchValueSeparator # switch_value);
          at = cl_begin_args cl
      in if at \<le> length (cl_argv cl)
         then Some (cl\<lparr>cl_switches := (cl_switches cl)(key \<mapsto> switch_value),
                cl_argv := take at (cl_argv cl) @ combined # drop at (cl_argv cl), cl_begin_args := at + 1\<rparr>)
         else None)"

definition AppendSwitch :: "string \<Rightarrow> command_line \<Rightarrow> command_line option" where
  "AppendSwitch switch_string cl = AppendSwitchNative switch_string [] cl"

definition AppendArgNative :: "string \<Rightarrow> command_line \<Rightarrow> command_line" where
  "AppendArgNative arg cl = cl\<lparr>cl_argv := cl_argv cl @ [arg]\<rparr>"

fun append_args :: "bool \<Rightarrow> string list \<Rightarrow> command_line \<Rightarrow> command_line option" where
  "append_args parse_switches [] cl = Some cl"
| "append_args parse_switches (arg # args) cl =
     (let parse_switches = (parse_switches \<and> arg \<noteq> kSwitchTerminator)
      in case (if parse_switches then IsSwitch arg else None) of
           Some (switch_string, switch_value) \<Rightarrow>
             (case AppendSwitchNative switch_string switch_value cl of
                None \<Rightarrow> None
              | Some cl' \<Rightarrow> append_args parse_switches args cl')
         | None \<Rightarrow> append_args parse_switches args (AppendArgNative arg cl))"

definition AppendSwitchesAndArguments :: "string list \<Rightarrow> command_line \<Rightarrow> command_line option" where
  "AppendSwitchesAndArguments argv cl = append_args True (tl argv) cl"

definition InitFromArgv :: "string list \<Rightarrow> command_line \<Rightarrow> command_line option" where
  "InitFromArgv argv cl = AppendSwitchesAndArguments argv (cl\<lparr>cl_argv := [[]], cl_switches := Map.empty\<rparr>)"

definition HasSwitch :: "string \<Rightarrow> command_line \<Rightarrow> bool" where
  "HasSwitch switch_string cl \<longleftrightarrow> cl_switches cl switch_string \<noteq> None"

definition GetSwitchValueNative :: "string \<Rightarrow> command_line \<Rightarrow> string" where
  "GetSwitchValueNative switch_string cl = (case cl_switches cl switch_string of None \<Rightarrow> [] | Some v \<Rightarrow> v)"

definition RemoveSwitch :: "string \<Rightarrow> command_line \<Rightarrow> command_line" where
  "RemoveSwitch key cl =
     (if cl_switches cl key = None then cl
      else let section = take (cl_begin_args cl - 1) (tl (cl_argv cl));
               kept = filter (\<lambda>arg. \<not> IsSwitchWithKey arg key) section;
               cl' = cl\<lparr>cl_switches := (cl_switches cl)(key := None)\<rparr>
        in if length kept = length section then cl'
           else cl'\<lparr>cl_begin_args := cl_begin_args cl - (length section - length kept),
                  cl_argv := take 1 (cl_argv cl) @ kept @ drop (cl_begin_args cl) (cl_argv cl)\<rparr>)"

fun CopySwitchesFrom :: "command_line \<Rightarrow> string list \<Rightarrow> command_line \<Rightarrow> command_line option" where
  "CopySwitchesFrom source [] cl = Some cl"
| "CopySwitchesFrom source (sw # sws) cl =
     (if HasSwitch sw source
      then case AppendSwitchNative sw (GetSwitchValueNative sw source) cl of
             None \<Rightarrow> None
           | Some cl' \<Rightarrow> CopySwitchesFrom source sws cl'
      else CopySwitchesFrom source sws cl)"

definition GetArgs :: "command_line \<Rightarrow> string list" where
  "GetArgs cl = remove1 kSwitchTerminator (drop (cl_begin_args cl) (cl_argv cl))"

definition AppendArguments :: "command_line \<Rightarrow> bool \<Rightarrow> command_line \<Rightarrow> command_line option" where
  "AppendArguments other include_program cl = AppendSwitchesAndArguments (cl_argv other) cl"

fun arguments_string :: "bool \<Rightarrow> string list \<Rightarrow> bool \<Rightarrow> string" where
  "arguments_string parse_switches [] frst = []"
| "arguments_string parse_switches (arg # args) frst =
     (let parse_switches = (parse_switches \<and> arg \<noteq> kSwitchTerminator)
      in (if frst then [] else '' '') @
         (case (if parse_switches then IsSwitch arg else None) of
            Some (switch_string, switch_value) \<Rightarrow>
              switch_string @ (if switch_value = [] then [] else kSwitchValueSeparator # switch_value)
          | None \<Rightarrow> arg) @
         arguments_string parse_switches args False)"

definition GetArgumentsString :: "command_line \<Rightarrow> string" where
  "GetArgumentsString cl = arguments_string True (tl (cl_argv cl)) True"

definition GetCommandLineString :: "command_line \<Rightarrow> string" where
  "GetCommandLineString cl =
     (let params = GetArgumentsString cl
      in hd (cl_argv cl) @ (if params = [] then [] else '' '' @ params))"

section \<open>The command line of the process\<close>

text \<open>\<open>current_process_commandline_\<close>: \<open>None\<close> is the null pointer.  The outcome of \<open>Init\<close> is whether it
  returned true and the new pointer.\<close>

definition cl_Init :: "string list \<Rightarrow> command_line option \<Rightarrow> (bool \<times> command_line option) option" where
  "cl_Init argv current =
     (case current of
        Some cl \<Rightarrow> Some (False, current)
      | None \<Rightarrow> (case InitFromArgv argv CommandLine of None \<Rightarrow> None | Some cl \<Rightarrow> Some (True, Some cl)))"

definition cl_Reset :: "command_line option \<Rightarrow> command_line option" where
  "cl_Reset current = None"

section \<open>Reading one argument\<close>

lemma prefix_cases:
  "GetSwitchPrefixLength [] = 0"
  "GetSwitchPrefixLength (c # cs) =
     (if c = CHR ''-'' then (case cs of d # ds \<Rightarrow> if d = CHR ''-'' then 2 else 1 | [] \<Rightarrow> 1) else 0)"
  by (auto simp: GetSwitchPrefixLength_def kSwitchPrefixes_def split: list.splits)

lemma find_char_Some:
  "find_char c s = Some i \<Longrightarrow> i < length s \<and> s = take i s @ c # drop (Suc i) s \<and> c \<notin> set (take i s)"
  by (induction s arbitrary: i) (auto split: if_splits)

lemma find_char_None: "find_char c s = None \<longleftrightarrow> c \<notin> set s"
  by (induction s) auto

lemma find_char_append: "c \<notin> set s \<Longrightarrow> find_char c (s @ c # t) = Some (length s)"
  by (induction s) auto

text \<open>A switch is its name, with the prefix and without a separator, and its value.\<close>

lemma IsSwitch_Some:
  assumes "IsSwitch arg = Some (s, v)"
  shows "0 < GetSwitchPrefixLength arg" "GetSwitchPrefixLength s = GetSwitchPrefixLength arg"
    "GetSwitchPrefixLength arg \<le> length s" "kSwitchValueSeparator \<notin> set s"
    "arg = s @ kSwitchValueSeparator # v \<or> (arg = s \<and> v = [])"
proof -
  let ?e = kSwitchValueSeparator
  have n: "0 < GetSwitchPrefixLength arg" using assms by (auto simp: IsSwitch_def Let_def split: if_splits)
  then show "0 < GetSwitchPrefixLength arg" .
  have e: "?e \<noteq> CHR ''-''" by (simp add: kSwitchValueSeparator_def)
  have sv: "?e \<notin> set s" "arg = s @ ?e # v \<or> (arg = s \<and> v = [])"
    using assms find_char_Some [of ?e arg] find_char_None [of ?e arg]
    by (auto simp: IsSwitch_def Let_def split: if_splits option.splits)
  then show "?e \<notin> set s" "arg = s @ ?e # v \<or> (arg = s \<and> v = [])" .
  have "GetSwitchPrefixLength s = GetSwitchPrefixLength arg \<and> GetSwitchPrefixLength arg \<le> length s"
  proof (cases s)
    case Nil
    then show ?thesis using sv(2) n e by (auto simp: prefix_cases split: if_splits)
  next
    case (Cons c cs)
    then show ?thesis using sv(2) n e by (cases cs) (auto simp: prefix_cases split: if_splits list.splits)
  qed
  then show "GetSwitchPrefixLength s = GetSwitchPrefixLength arg" "GetSwitchPrefixLength arg \<le> length s" by auto
qed

text \<open>What a switch is, independently of the code: it begins with a dash and is more than one or two dashes; its name ends
  before the first separator, its value begins behind it.\<close>

definition is_switch :: "string \<Rightarrow> bool" where
  "is_switch arg \<longleftrightarrow> take 1 arg = ''-'' \<and> arg \<noteq> ''-'' \<and> arg \<noteq> ''--''"

definition switch_name :: "string \<Rightarrow> string" where
  "switch_name arg = takeWhile (\<lambda>c. c \<noteq> CHR ''='') arg"

definition switch_value :: "string \<Rightarrow> string" where
  "switch_value arg = drop 1 (dropWhile (\<lambda>c. c \<noteq> CHR ''='') arg)"

text \<open>The key, without the prefix, and the value.\<close>

definition switch_entry :: "string \<Rightarrow> string \<times> string" where
  "switch_entry arg = (drop (if take 2 (switch_name arg) = ''--'' then 2 else 1) (switch_name arg), switch_value arg)"

text \<open>How \<open>AppendSwitchNative\<close> writes a parsed switch back: without an empty value.\<close>

definition switch_arg :: "string \<Rightarrow> string" where
  "switch_arg arg = switch_name arg @ (if switch_value arg = [] then [] else CHR ''='' # switch_value arg)"

lemma find_char_takeWhile: "find_char c s = (if c \<in> set s then Some (length (takeWhile (\<lambda>x. x \<noteq> c) s)) else None)"
  by (induction s) auto

lemma find_char_split:
  "c \<notin> set s \<Longrightarrow> takeWhile (\<lambda>x. x \<noteq> c) s = s \<and> dropWhile (\<lambda>x. x \<noteq> c) s = []"
  by (auto simp: takeWhile_eq_all_conv dropWhile_eq_Nil_conv)

lemma IsSwitch_spec: "IsSwitch arg = (if is_switch arg then Some (switch_name arg, switch_value arg) else None)"
proof -
  have "GetSwitchPrefixLength arg = 0 \<or> GetSwitchPrefixLength arg = length arg \<longleftrightarrow> \<not> is_switch arg"
    by (cases arg; cases "tl arg") (auto simp: prefix_cases is_switch_def)
  moreover have "take (length (takeWhile (\<lambda>c. c \<noteq> CHR ''='') arg)) arg = switch_name arg"
    "drop (length (takeWhile (\<lambda>c. c \<noteq> CHR ''='') arg) + 1) arg = switch_value arg"
    unfolding switch_name_def switch_value_def
    by (rule takeWhile_eq_take [symmetric]) (simp only: dropWhile_eq_drop drop_drop add.commute)
  moreover have "switch_name arg = arg" "switch_value arg = []" if "CHR ''='' \<notin> set arg"
    unfolding switch_name_def switch_value_def using find_char_split [OF that] by (blast, metis drop_Nil)
  ultimately show ?thesis by (auto simp: IsSwitch_def Let_def kSwitchValueSeparator_def find_char_takeWhile)
qed

lemma is_switch_IsSwitch: "is_switch arg \<longleftrightarrow> IsSwitch arg \<noteq> None"
  by (simp add: IsSwitch_spec)

lemma prefix_of_name: "0 < GetSwitchPrefixLength s \<Longrightarrow> GetSwitchPrefixLength s = (if take 2 s = ''--'' then 2 else 1)"
  by (cases s; cases "tl s") (auto simp: prefix_cases split: if_splits)

lemma switch_parts:
  assumes "IsSwitch arg = Some (s, v)"
  shows "switch_entry arg = (drop (GetSwitchPrefixLength s) s, v)"
    "switch_arg arg = s @ (if v = [] then [] else kSwitchValueSeparator # v)"
proof -
  have "s = switch_name arg" "v = switch_value arg" using assms by (simp_all add: IsSwitch_spec split: if_splits)
  moreover have "0 < GetSwitchPrefixLength s" using IsSwitch_Some(1,2) [OF assms] by simp
  ultimately show "switch_entry arg = (drop (GetSwitchPrefixLength s) s, v)"
    "switch_arg arg = s @ (if v = [] then [] else kSwitchValueSeparator # v)"
    using prefix_of_name [of s] by (simp_all add: switch_entry_def switch_arg_def kSwitchValueSeparator_def)
qed

lemma append_parsed:
  assumes "IsSwitch arg = Some (s, v)" "cl_begin_args cl \<le> length (cl_argv cl)"
  shows "AppendSwitchNative s v cl = Some (cl\<lparr>
    cl_switches := (cl_switches cl)(fst (switch_entry arg) \<mapsto> snd (switch_entry arg)),
    cl_argv := take (cl_begin_args cl) (cl_argv cl) @ switch_arg arg # drop (cl_begin_args cl) (cl_argv cl),
    cl_begin_args := cl_begin_args cl + 1\<rparr>)"
  using assms IsSwitch_Some [OF assms(1)] by (simp add: AppendSwitchNative_def Let_def switch_parts [OF assms(1)])

lemma IsSwitchWithKey_entry: "IsSwitchWithKey arg k \<longleftrightarrow> is_switch arg \<and> fst (switch_entry arg) = k"
proof (cases "IsSwitch arg")
  case None
  then show ?thesis by (auto simp: is_switch_IsSwitch IsSwitch_def IsSwitchWithKey_def Let_def split: option.splits if_splits)
next
  case (Some sv)
  obtain s v where sv: "sv = (s, v)" by force
  note p = IsSwitch_Some [OF Some [unfolded sv]]
  have "(case find_char kSwitchValueSeparator arg of None \<Rightarrow> drop (GetSwitchPrefixLength arg) arg
      | Some i \<Rightarrow> take (i - GetSwitchPrefixLength arg) (drop (GetSwitchPrefixLength arg) arg)) = drop (GetSwitchPrefixLength s) s"
    using p(2-5) find_char_append [OF p(4), of v] find_char_None [of kSwitchValueSeparator arg]
    by (auto simp: drop_take [symmetric] simp del: drop_append)
  then show ?thesis
    using Some sv switch_parts(1) [OF Some [unfolded sv]] by (auto simp: is_switch_IsSwitch IsSwitchWithKey_def IsSwitch_def Let_def split: if_splits)
qed

section \<open>Reading all of them\<close>

text \<open>The arguments before the first terminator, and from it on.\<close>

definition args_before :: "string list \<Rightarrow> string list" where
  "args_before args = takeWhile (\<lambda>a. a \<noteq> kSwitchTerminator) args"

definition args_after :: "string list \<Rightarrow> string list" where
  "args_after args = dropWhile (\<lambda>a. a \<noteq> kSwitchTerminator) args"

text \<open>What parsing makes of a list of arguments.\<close>

definition parsed :: "string list \<Rightarrow> nat \<Rightarrow> command_line" where
  "parsed args skip =
     (let sws = filter is_switch (args_before args)
      in \<lparr>cl_argv = [[]] @ map switch_arg sws @ filter (\<lambda>a. \<not> is_switch a) (args_before args) @ args_after args,
          cl_switches = map_of (rev (map switch_entry sws)), cl_begin_args = skip + length sws\<rparr>)"

lemma append_args_rest: "append_args False args cl = Some (cl\<lparr>cl_argv := cl_argv cl @ args\<rparr>)"
  by (induction args arbitrary: cl) (simp_all add: AppendArgNative_def)

lemma terminator_no_switch: "\<not> is_switch kSwitchTerminator"
  by (simp add: is_switch_IsSwitch IsSwitch_def kSwitchTerminator_def prefix_cases)

lemma append_args_parse:
  assumes "cl_argv cl = H @ A" "cl_begin_args cl = length H"
  shows "append_args True args cl = Some (cl\<lparr>
    cl_argv := H @ map switch_arg (filter is_switch (args_before args)) @ A @
      filter (\<lambda>a. \<not> is_switch a) (args_before args) @ args_after args,
    cl_switches := cl_switches cl ++ map_of (rev (map switch_entry (filter is_switch (args_before args)))),
    cl_begin_args := length H + length (filter is_switch (args_before args))\<rparr>)"
  using assms
proof (induction args arbitrary: cl H A)
  case Nil
  then show ?case by (simp add: args_before_def args_after_def)
next
  case (Cons arg args)
  show ?case
  proof (cases "arg = kSwitchTerminator")
    case True
    then show ?thesis using Cons.prems by (simp add: append_args_rest args_before_def args_after_def AppendArgNative_def)
  next
    case nt: False
    show ?thesis
    proof (cases "IsSwitch arg")
      case None
      then show ?thesis
        using nt Cons.prems Cons.IH [of "AppendArgNative arg cl" H "A @ [arg]"]
        by (simp add: AppendArgNative_def args_before_def args_after_def is_switch_IsSwitch)
    next
      case (Some sv)
      obtain s v where sv: "sv = (s, v)" by force
      have "cl_begin_args cl \<le> length (cl_argv cl)" using Cons.prems by simp
      note a = append_parsed [OF Some [unfolded sv] this]
      show ?thesis
        using nt Some sv Cons.prems Cons.IH [of "the (AppendSwitchNative s v cl)" "H @ [switch_arg arg]" A]
        by (simp add: a args_before_def args_after_def is_switch_IsSwitch) (simp add: fun_upd_def)
    qed
  qed
qed

lemma InitFromArgv_parsed: "InitFromArgv argv CommandLine = Some (parsed (tl argv) 1)"
  using append_args_parse [of CommandLine "[[]]" "[]" "tl argv"]
  by (simp add: InitFromArgv_def AppendSwitchesAndArguments_def CommandLine_def parsed_def Let_def)

lemma args_after_cases: "args_after args = [] \<or> (\<exists>rest. args_after args = kSwitchTerminator # rest)"
  unfolding args_after_def by (induction args) auto

text \<open>C16: Parsing an argument vector always succeeds on a fresh command line.  The switches are the
  arguments before the first \<open>--\<close> that begin with a dash, other than \<open>-\<close>; the key of one is what stands
  between the leading one or two dashes and the first equals sign, its value what stands behind it: \<open>HasSwitch\<close> holds exactly for their keys, and \<open>GetSwitchValueNative\<close> is the
  value of the last one; \<open>GetArgs\<close> are the other arguments in order, with the first \<open>--\<close> left out;
  \<open>argv_\<close> keeps the switches before the arguments, and an empty string instead of the program.\<close>

theorem cl_parse:
  "\<exists>cl. InitFromArgv (program # args) CommandLine = Some cl \<and>
     (let sws = filter is_switch (args_before args)
      in (\<forall>k. HasSwitch k cl \<longleftrightarrow> k \<in> fst ` switch_entry ` set sws) \<and>
         (\<forall>k. GetSwitchValueNative k cl = (case map_of (rev (map switch_entry sws)) k of None \<Rightarrow> [] | Some v \<Rightarrow> v)) \<and>
         GetArgs cl = filter (\<lambda>a. \<not> is_switch a) (args_before args) @ drop 1 (args_after args) \<and>
         take (cl_begin_args cl) (cl_argv cl) = [[]] @ map switch_arg sws)"
proof -
  let ?cl = "parsed args 1" and ?n = "filter (\<lambda>a. \<not> is_switch a) (args_before args)"
  have "kSwitchTerminator \<notin> set (args_before args)" unfolding args_before_def using set_takeWhileD by fastforce
  then have "remove1 kSwitchTerminator (?n @ args_after args) = ?n @ drop 1 (args_after args)"
    using args_after_cases [of args] by (auto simp: remove1_append)
  moreover have "dom (map_of (rev (map switch_entry sws))) = fst ` switch_entry ` set sws" for sws
    by (simp add: dom_map_of_conv_image_fst)
  ultimately show ?thesis
    by (intro exI [of _ ?cl]) (auto simp: InitFromArgv_parsed parsed_def Let_def HasSwitch_def GetSwitchValueNative_def
        GetArgs_def domIff [symmetric] simp del: not_None_eq)
qed

section \<open>Writing switches back\<close>

text \<open>A bare prefix with a separator is read as a switch with an empty name and no value, and is
  written back as the bare prefix, which is no switch.\<close>

definition bare :: "string \<Rightarrow> bool" where
  "bare arg \<longleftrightarrow> arg = ''--='' \<or> arg = ''-=''"

lemma IsSwitch_switch_arg:
  assumes "is_switch arg" "\<not> bare arg"
  shows "IsSwitch (switch_arg arg) = IsSwitch arg"
proof -
  obtain s v where sv: "IsSwitch arg = Some (s, v)" using assms(1) by (auto simp: is_switch_IsSwitch)
  note p = IsSwitch_Some [OF sv]
  show ?thesis
  proof (cases "arg = s @ kSwitchValueSeparator # v \<and> v = []")
    case True
    have "GetSwitchPrefixLength s \<noteq> length s"
    proof
      assume l: "GetSwitchPrefixLength s = length s"
      then have "s = ''--'' \<or> s = ''-''" using p(1,2)
        by (cases s; cases "tl s") (auto simp: prefix_cases split: if_splits)
      then show False using True assms(2) by (auto simp: bare_def kSwitchValueSeparator_def)
    qed
    then have "IsSwitch s = Some (s, [])"
      using p(1,2,4) find_char_None [of kSwitchValueSeparator s] by (simp add: IsSwitch_def Let_def)
    then show ?thesis using switch_parts(2) [OF sv] sv True by simp
  next
    case False
    then have "switch_arg arg = arg" using p(5) by (auto simp: switch_parts(2) [OF sv])
    then show ?thesis by simp
  qed
qed

lemma switch_arg_facts:
  assumes "is_switch arg" "\<not> bare arg"
  shows "is_switch (switch_arg arg)" "switch_entry (switch_arg arg) = switch_entry arg"
    "switch_arg (switch_arg arg) = switch_arg arg" "switch_arg arg \<noteq> kSwitchTerminator"
proof -
  note i = IsSwitch_switch_arg [OF assms]
  show s: "is_switch (switch_arg arg)" using assms(1) by (simp add: is_switch_IsSwitch i)
  obtain n v where sv: "IsSwitch arg = Some (n, v)" using assms(1) by (auto simp: is_switch_IsSwitch)
  note sv' = trans [OF i sv]
  show "switch_entry (switch_arg arg) = switch_entry arg" "switch_arg (switch_arg arg) = switch_arg arg"
    using switch_parts [OF sv] switch_parts [OF sv'] by simp_all
  show "switch_arg arg \<noteq> kSwitchTerminator" using s terminator_no_switch by auto
qed

lemma args_split_append:
  "\<forall>x \<in> set xs. x \<noteq> kSwitchTerminator \<Longrightarrow>
     args_before (xs @ ys) = xs @ args_before ys \<and> args_after (xs @ ys) = args_after ys"
  unfolding args_before_def args_after_def by (induction xs) auto

text \<open>Parsing the \<open>argv_\<close> of a parsed command line gives the same command line again, unless an
  argument before the first \<open>--\<close> is a bare prefix with a separator.\<close>

theorem cl_reparse:
  assumes "InitFromArgv argv CommandLine = Some cl" "\<forall>arg \<in> set (args_before (tl argv)). \<not> bare arg"
  shows "InitFromArgv (cl_argv cl) CommandLine = Some cl"
proof -
  let ?b = "args_before (tl argv)"
  let ?sws = "map switch_arg (filter is_switch ?b)" and ?n = "filter (\<lambda>a. \<not> is_switch a) ?b"
  have cl: "cl = parsed (tl argv) 1" using assms(1) by (simp add: InitFromArgv_parsed)
  have t: "tl (cl_argv cl) = ?sws @ ?n @ args_after (tl argv)" by (simp add: cl parsed_def Let_def)
  have sw: "is_switch (switch_arg a)" "switch_entry (switch_arg a) = switch_entry a"
    "switch_arg (switch_arg a) = switch_arg a" "switch_arg a \<noteq> kSwitchTerminator"
    if "a \<in> set (filter is_switch ?b)" for a
    using switch_arg_facts [of a] assms(2) that by auto
  have nt: "kSwitchTerminator \<notin> set ?b" unfolding args_before_def using set_takeWhileD by fastforce
  then have all: "\<forall>x \<in> set (?sws @ ?n). x \<noteq> kSwitchTerminator" using sw(4) by (auto dest!: sym [of kSwitchTerminator])
  have "args_before r = [] \<and> args_after r = r" if "r = [] \<or> (\<exists>rest. r = kSwitchTerminator # rest)" for r
    using that by (auto simp: args_before_def args_after_def)
  from this [OF args_after_cases [of "tl argv"]]
  have ba: "args_before (tl (cl_argv cl)) = ?sws @ ?n" "args_after (tl (cl_argv cl)) = args_after (tl argv)"
    using args_split_append [OF all, of "args_after (tl argv)"] unfolding t append_assoc by simp_all
  have f1: "filter is_switch ?sws = ?sws" using sw(1) by (auto simp: filter_id_conv)
  have f2: "filter (\<lambda>a. \<not> is_switch a) ?sws = []" using sw(1) by (auto simp: filter_empty_conv)
  have m1: "map switch_arg ?sws = ?sws" using sw(3) by (auto simp: map_idI)
  have m2: "map switch_entry ?sws = map switch_entry (filter is_switch ?b)" using sw(2) by auto
  have f3: "filter is_switch ?n = []" "filter (\<lambda>a. \<not> is_switch a) ?n = ?n" by (simp_all add: filter_empty_conv filter_id_conv)
  have "parsed (tl (cl_argv cl)) 1 = parsed (tl argv) 1"
    unfolding parsed_def ba Let_def filter_append f1 f2 f3 append_Nil append_Nil2 m1 m2 length_map append_assoc ..
  then show ?thesis by (simp add: InitFromArgv_parsed cl)
qed

text \<open>\<open>RemoveSwitch\<close> on a parsed command line: the key is gone from the switches and from \<open>argv_\<close>, every
  other switch keeps its value, and the arguments are unchanged, unless an argument before the
  first \<open>--\<close> is a bare prefix with a separator.\<close>

theorem cl_remove_switch:
  fixes key :: string
  assumes "InitFromArgv argv CommandLine = Some cl" "\<forall>arg \<in> set (args_before (tl argv)). \<not> bare arg"
  defines "cl' \<equiv> RemoveSwitch key cl"
  shows "\<not> HasSwitch key cl' \<and> (\<forall>k. k \<noteq> key \<longrightarrow> cl_switches cl' k = cl_switches cl k) \<and>
    GetArgs cl' = GetArgs cl \<and>
    take (cl_begin_args cl') (cl_argv cl') =
      filter (\<lambda>arg. \<not> IsSwitchWithKey arg key) (take (cl_begin_args cl) (cl_argv cl))"
proof -
  let ?b = "args_before (tl argv)"
  let ?sws = "map switch_arg (filter is_switch ?b)" and ?as = "filter (\<lambda>a. \<not> is_switch a) ?b @ args_after (tl argv)"
  let ?kept = "filter (\<lambda>arg. \<not> IsSwitchWithKey arg key) ?sws"
  have cl: "cl = parsed (tl argv) 1" using assms(1) by (simp add: InitFromArgv_parsed)
  have st: "cl_argv cl = [] # ?sws @ ?as" "cl_begin_args cl = Suc (length ?sws)"
    by (simp_all add: cl parsed_def Let_def)
  have sec: "take (cl_begin_args cl - 1) (tl (cl_argv cl)) = ?sws" "drop (cl_begin_args cl) (cl_argv cl) = ?as"
    "take (cl_begin_args cl) (cl_argv cl) = [] # ?sws" by (simp_all add: st)
  have empty: "\<not> IsSwitchWithKey [] key" by (simp add: IsSwitchWithKey_def prefix_cases Let_def)
  have lk: "length ?kept \<le> length ?sws" by (rule length_filter_le)
  show ?thesis
  proof (cases "cl_switches cl key = None")
    case True
    have "\<not> IsSwitchWithKey (switch_arg a) key" if "a \<in> set (filter is_switch ?b)" for a
    proof -
      have "fst (switch_entry a) \<in> dom (cl_switches cl)"
        using that by (simp add: cl parsed_def Let_def dom_map_of_conv_image_fst)
      then show ?thesis using True that switch_arg_facts [of a] assms(2) by (auto simp: IsSwitchWithKey_entry)
    qed
    then have "?kept = ?sws" by (auto simp: filter_id_conv)
    then show ?thesis using True sec empty by (simp add: cl'_def RemoveSwitch_def HasSwitch_def)
  next
    case False
    show ?thesis
    proof (cases "length ?kept = length ?sws")
      case True
      then have "?kept = ?sws" by (metis length_filter_less filter_id_conv nat_neq_iff)
      then show ?thesis
        using True False sec empty by (simp add: cl'_def RemoveSwitch_def HasSwitch_def GetArgs_def Let_def)
    next
      case less: False
      have "cl' = cl\<lparr>cl_switches := (cl_switches cl)(key := None), cl_begin_args := Suc (length ?kept),
          cl_argv := [] # ?kept @ ?as\<rparr>"
        using less False lk unfolding cl'_def RemoveSwitch_def Let_def sec by (auto simp: st)
      then show ?thesis using sec empty by (simp add: HasSwitch_def GetArgs_def)
    qed
  qed
qed

section \<open>Initialising again\<close>

text \<open>\<open>InitFromArgv\<close> forgets to reset the divider: on a command line that already has a switch, an
  argument vector that begins with a switch makes it insert behind the end of the emptied
  vector.\<close>

theorem cl_init_again_undefined:
  assumes "1 < cl_begin_args cl" "args \<noteq> []" "is_switch (hd args)"
  shows "InitFromArgv (program # args) cl = None"
proof -
  obtain a as where args: "args = a # as" using assms(2) by (cases args) auto
  then obtain s v where sv: "IsSwitch a = Some (s, v)" using assms(3) by (auto simp: is_switch_IsSwitch)
  moreover have "a \<noteq> kSwitchTerminator" using assms(3) args terminator_no_switch by auto
  ultimately show ?thesis
    using assms(1) args by (simp add: InitFromArgv_def AppendSwitchesAndArguments_def AppendSwitchNative_def Let_def)
qed

section \<open>A concrete command line\<close>

definition demo_argv :: "string list" where
  "demo_argv = [''prog'', ''--size=10'', ''in.txt'', ''-v'', ''--'', ''--x'']"

lemmas cl_eval = demo_argv_def InitFromArgv_def AppendSwitchesAndArguments_def CommandLine_def AppendSwitchNative_def
  AppendArgNative_def IsSwitch_def IsSwitchWithKey_def GetSwitchPrefixLength_def kSwitchPrefixes_def
  kSwitchValueSeparator_def kSwitchTerminator_def args_before_def bare_def is_switch_IsSwitch

definition demo_line :: command_line where
  "demo_line = \<lparr>cl_argv = [[], ''--size=10'', ''-v'', ''in.txt'', ''--'', ''--x''],
     cl_switches = [''size'' \<mapsto> ''10'', ''v'' \<mapsto> []], cl_begin_args = 3\<rparr>"

lemma demo_line_init: "InitFromArgv demo_argv CommandLine = Some demo_line"
  by (simp add: cl_eval demo_line_def Let_def)

lemma demo_not_bare: "\<forall>arg \<in> set (args_before (tl demo_argv)). \<not> bare arg"
  by (simp add: cl_eval)

end
