(* ===== verification/Int_Types.thy ===== *)
theory Int_Types
  imports Sparo_Prelude "HOL-Library.Signed_Division"
begin

text \<open>
  The integer types of the numeric templates and what C++ does with their values.  A
  value is an \<open>int\<close>; the type it has at a place of the program is a value of \<open>int_type\<close>,
  as a template parameter.  A conversion wraps around (C++20, LP64): \<open>static_cast\<close>.
  The usual arithmetic conversions give the type in which mixed operands are compared
  and combined: \<open>common_type\<close>, the type of \<open>decltype(a + b)\<close>.  The collection
  \<open>type_facts\<close> holds the rewriting rules for the type traits.
\<close>

unbundle bit_operations_syntax

named_theorems type_facts \<open>rewriting of type traits\<close>

datatype int_type =
    int8_t | uint8_t | int16_t | uint16_t | int32_t | uint32_t | int64_t | uint64_t

fun is_signed :: "int_type \<Rightarrow> bool" where
  "is_signed int8_t = True"
| "is_signed int16_t = True"
| "is_signed int32_t = True"
| "is_signed int64_t = True"
| "is_signed _ = False"

fun int_bits :: "int_type \<Rightarrow> nat" where
  "int_bits int8_t = 8"
| "int_bits uint8_t = 8"
| "int_bits int16_t = 16"
| "int_bits uint16_t = 16"
| "int_bits int32_t = 32"
| "int_bits uint32_t = 32"
| "int_bits int64_t = 64"
| "int_bits uint64_t = 64"

text \<open>The members of \<open>std::numeric_limits\<close>.\<close>

definition digits :: "int_type \<Rightarrow> nat" where
  "digits T = (if is_signed T then int_bits T - 1 else int_bits T)"

definition type_max :: "int_type \<Rightarrow> int" where
  "type_max T = 2 ^ digits T - 1"

definition type_lowest :: "int_type \<Rightarrow> int" where
  "type_lowest T = (if is_signed T then - (2 ^ digits T) else 0)"

definition in_type :: "int_type \<Rightarrow> int \<Rightarrow> bool" where
  "in_type T x \<longleftrightarrow> type_lowest T \<le> x \<and> x \<le> type_max T"

fun make_signed :: "int_type \<Rightarrow> int_type" where
  "make_signed uint8_t = int8_t"
| "make_signed uint16_t = int16_t"
| "make_signed uint32_t = int32_t"
| "make_signed uint64_t = int64_t"
| "make_signed T = T"

fun make_unsigned :: "int_type \<Rightarrow> int_type" where
  "make_unsigned int8_t = uint8_t"
| "make_unsigned int16_t = uint16_t"
| "make_unsigned int32_t = uint32_t"
| "make_unsigned int64_t = uint64_t"
| "make_unsigned T = T"

definition static_cast :: "int_type \<Rightarrow> int \<Rightarrow> int" where
  "static_cast T x = (if is_signed T then signed_take_bit (int_bits T - 1) x else take_bit (int_bits T) x)"

text \<open>Integral promotion, and the usual arithmetic conversions on promoted types: of equal
  signedness the wider type; of mixed signedness the unsigned type unless the signed one
  is wider.\<close>

definition promote :: "int_type \<Rightarrow> int_type" where
  "promote T = (if int_bits T < 32 then int32_t else T)"

definition common_type :: "int_type \<Rightarrow> int_type \<Rightarrow> int_type" where
  "common_type T U =
     (let T = promote T; U = promote U in
      if is_signed T = is_signed U then (if int_bits T < int_bits U then U else T)
      else if is_signed U then (if int_bits T < int_bits U then U else T)
      else if int_bits U < int_bits T then T else U)"

text \<open>Comparing operands of two types.\<close>

definition cpp_less :: "int_type \<Rightarrow> int_type \<Rightarrow> int \<Rightarrow> int \<Rightarrow> bool" where
  "cpp_less T U x y \<longleftrightarrow> static_cast (common_type T U) x < static_cast (common_type T U) y"

definition cpp_le :: "int_type \<Rightarrow> int_type \<Rightarrow> int \<Rightarrow> int \<Rightarrow> bool" where
  "cpp_le T U x y \<longleftrightarrow> static_cast (common_type T U) x \<le> static_cast (common_type T U) y"

definition cpp_eq :: "int_type \<Rightarrow> int_type \<Rightarrow> int \<Rightarrow> int \<Rightarrow> bool" where
  "cpp_eq T U x y \<longleftrightarrow> static_cast (common_type T U) x = static_cast (common_type T U) y"

section \<open>Facts about the types\<close>

lemma int_bits_cases: "int_bits T = 8 \<or> int_bits T = 16 \<or> int_bits T = 32 \<or> int_bits T = 64"
  by (cases T) simp_all

lemma int_bits_pos [simp]: "0 < int_bits T"
  by (cases T) simp_all

lemma digits_bounds: "7 \<le> digits T" "digits T \<le> 64"
  by (cases T; simp add: digits_def)+

lemma make_unsigned_facts [simp, type_facts]:
  "is_signed (make_unsigned T) = False" "int_bits (make_unsigned T) = int_bits T"
  "make_unsigned (make_unsigned T) = make_unsigned T" "make_unsigned (make_signed T) = make_unsigned T"
  by (cases T; simp)+

lemma make_signed_facts [simp, type_facts]:
  "is_signed (make_signed T)" "int_bits (make_signed T) = int_bits T"
  "make_signed (make_unsigned T) = make_signed T"
  by (cases T; simp)+

lemma make_unsigned_id: "\<not> is_signed T \<Longrightarrow> make_unsigned T = T"
  by (cases T) simp_all

lemma make_signed_id: "is_signed T \<Longrightarrow> make_signed T = T"
  by (cases T) simp_all

lemma type_max_pos [simp]: "0 < type_max T" "0 \<le> type_max T"
proof -
  have "(2 :: int) ^ 7 \<le> 2 ^ digits T" using digits_bounds by (intro power_increasing) auto
  then show "0 < type_max T" by (simp add: type_max_def)
  then show "0 \<le> type_max T" by simp
qed

lemma type_lowest_le [simp]: "type_lowest T \<le> 0"
  by (simp add: type_lowest_def)

lemma in_type_0 [simp]: "in_type T 0"
  by (simp add: in_type_def)

lemma in_type_max [simp]: "in_type T (type_max T)"
  using order.trans [OF type_lowest_le type_max_pos(2)] by (simp add: in_type_def)

lemma in_type_lowest [simp]: "in_type T (type_lowest T)"
  using order.trans [OF type_lowest_le type_max_pos(2)] by (simp add: in_type_def)

lemma in_type_unsigned: "\<not> is_signed T \<Longrightarrow> in_type T x \<longleftrightarrow> 0 \<le> x \<and> x < 2 ^ int_bits T"
  by (auto simp: in_type_def type_lowest_def type_max_def digits_def)

lemma in_type_signed:
  "is_signed T \<Longrightarrow> in_type T x \<longleftrightarrow> - (2 ^ (int_bits T - 1)) \<le> x \<and> x < 2 ^ (int_bits T - 1)"
  by (auto simp: in_type_def type_lowest_def type_max_def digits_def)

lemma static_cast_id_iff: "static_cast T x = x \<longleftrightarrow> in_type T x"
  by (cases "is_signed T")
    (simp_all add: static_cast_def in_type_unsigned in_type_signed take_bit_int_eq_self_iff
      signed_take_bit_int_eq_self_iff)

lemma static_cast_id [simp]: "in_type T x \<Longrightarrow> static_cast T x = x"
  by (simp add: static_cast_id_iff)

lemma static_cast_in [simp]: "in_type T (static_cast T x)"
  by (cases "is_signed T") (simp_all add: static_cast_def in_type_unsigned in_type_signed)

text \<open>A conversion depends on the value modulo the width only.\<close>

lemma take_bit_static_cast [simp]: "n \<le> int_bits T \<Longrightarrow> take_bit n (static_cast T x) = take_bit n x"
  using int_bits_pos [of T] by (auto simp: static_cast_def take_bit_signed_take_bit)

lemma static_cast_cong: "take_bit (int_bits T) x = take_bit (int_bits T) y \<Longrightarrow> static_cast T x = static_cast T y"
  using int_bits_pos [of T]
  by (simp add: static_cast_def signed_take_bit_eq_iff_take_bit_eq Suc_diff_Suc)

lemma static_cast_static_cast:
  "int_bits T \<le> int_bits U \<Longrightarrow> static_cast T (static_cast U x) = static_cast T x"
  by (rule static_cast_cong) simp

lemma static_cast_exact:
  "in_type T y \<Longrightarrow> take_bit (int_bits T) x = take_bit (int_bits T) y \<Longrightarrow> static_cast T x = y"
  using static_cast_cong static_cast_id by metis

section \<open>Facts about common types\<close>

lemma in_type_mono: "type_lowest U \<le> type_lowest T \<Longrightarrow> type_max T \<le> type_max U \<Longrightarrow> in_type T x \<Longrightarrow> in_type U x"
  by (auto simp: in_type_def)

lemma type_max_mono: "digits T \<le> digits U \<longleftrightarrow> type_max T \<le> type_max U"
proof -
  have "digits T \<le> digits U \<longleftrightarrow> (2 :: int) ^ digits T \<le> 2 ^ digits U" by simp
  then show ?thesis unfolding type_max_def by linarith
qed

lemma common_max: "type_max T \<le> type_max (common_type T U)" "type_max U \<le> type_max (common_type T U)"
  unfolding type_max_mono [symmetric]
  by (cases T; cases U; simp add: common_type_def promote_def digits_def)+

lemma common_same_sign:
  assumes "is_signed T = is_signed U" "in_type T x" "in_type U y"
  shows "in_type (common_type T U) x" "in_type (common_type T U) y"
proof -
  have "type_lowest (common_type T U) \<le> type_lowest T" "type_lowest (common_type T U) \<le> type_lowest U"
    using assms(1) by (cases T; cases U; simp add: common_type_def promote_def type_lowest_def digits_def)+
  with assms show "in_type (common_type T U) x" "in_type (common_type T U) y"
    using in_type_mono common_max by metis+
qed

lemma common_nonneg:
  "in_type T x \<Longrightarrow> 0 \<le> x \<Longrightarrow> in_type (common_type T U) x"
  "in_type U y \<Longrightarrow> 0 \<le> y \<Longrightarrow> in_type (common_type T U) y"
  using common_max [where T = T and U = U] type_lowest_le [of "common_type T U"]
  unfolding in_type_def by linarith+

lemma common_type_sym: "common_type T U = common_type U T"
  by (cases T; cases U; simp add: common_type_def promote_def)

lemma common_type_self: "common_type T T = promote T"
  by (simp add: common_type_def Let_def)

text \<open>With operands of the common type a mixed comparison is a comparison of numbers.\<close>

lemma cpp_cmp_exact:
  assumes "in_type (common_type T U) x" "in_type (common_type T U) y"
  shows "cpp_less T U x y \<longleftrightarrow> x < y" "cpp_le T U x y \<longleftrightarrow> x \<le> y" "cpp_eq T U x y \<longleftrightarrow> x = y"
  using assms by (simp_all add: cpp_less_def cpp_le_def cpp_eq_def)

lemma cpp_cmp_same_sign:
  assumes "is_signed T = is_signed U" "in_type T x" "in_type U y"
  shows "cpp_less T U x y \<longleftrightarrow> x < y" "cpp_le T U x y \<longleftrightarrow> x \<le> y" "cpp_eq T U x y \<longleftrightarrow> x = y"
  using cpp_cmp_exact common_same_sign [OF assms] by simp_all

end
