(* ===== verification/Safe_Conversions.thy ===== *)
theory Safe_Conversions
  imports Int_Types
begin

text \<open>
  The range checks, conversions and mixed comparisons of
  \<open>base/numerics/safe_conversions_impl.h\<close> and \<open>safe_conversions.h\<close>, on the integer types.
  A template parameter is an argument of type \<open>int_type\<close>; a template specialisation is a
  branch.  The properties: a range check finds exactly the values outside the range of the
  destination, for all pairs of types and in both of its implementations; comparisons of
  mixed types are comparisons of numbers; \<open>saturated_cast\<close> clamps.
\<close>

section \<open>Type traits\<close>

definition MaxExponent :: "int_type \<Rightarrow> nat" where
  "MaxExponent T = digits T + 1"

definition IntegerBitsPlusSign :: "int_type \<Rightarrow> nat" where
  "IntegerBitsPlusSign T = digits T + (if is_signed T then 1 else 0)"

definition PositionOfSignBit :: "int_type \<Rightarrow> nat" where
  "PositionOfSignBit T = IntegerBitsPlusSign T - 1"

definition IsValueNegative :: "int_type \<Rightarrow> int \<Rightarrow> bool" where
  "IsValueNegative T value \<longleftrightarrow> (if is_signed T then value < 0 else False)"

definition ConditionalNegate :: "int_type \<Rightarrow> int \<Rightarrow> bool \<Rightarrow> int" where
  "ConditionalNegate T x is_negative =
     static_cast (make_signed T)
       ((static_cast (make_unsigned T) x XOR
         static_cast (make_unsigned T) (- static_cast (make_signed T) (of_bool is_negative))) +
        of_bool is_negative)"

definition SafeUnsignedAbs :: "int_type \<Rightarrow> int \<Rightarrow> int" where
  "SafeUnsignedAbs T value =
     (let UnsignedT = make_unsigned T in
      if IsValueNegative T value then static_cast UnsignedT (0 - static_cast UnsignedT value)
      else static_cast UnsignedT value)"

datatype NumericRangeRepresentation = NUMERIC_RANGE_NOT_CONTAINED | NUMERIC_RANGE_CONTAINED

definition StaticDstRangeRelationToSrcRange :: "int_type \<Rightarrow> int_type \<Rightarrow> NumericRangeRepresentation" where
  "StaticDstRangeRelationToSrcRange Dst Src =
     (if is_signed Dst = is_signed Src then
        (if MaxExponent Dst \<ge> MaxExponent Src then NUMERIC_RANGE_CONTAINED else NUMERIC_RANGE_NOT_CONTAINED)
      else if is_signed Dst then
        (if MaxExponent Dst > MaxExponent Src then NUMERIC_RANGE_CONTAINED else NUMERIC_RANGE_NOT_CONTAINED)
      else NUMERIC_RANGE_NOT_CONTAINED)"

definition IsTypeInRangeForNumericType :: "int_type \<Rightarrow> int_type \<Rightarrow> bool" where
  "IsTypeInRangeForNumericType Dst Src \<longleftrightarrow>
     StaticDstRangeRelationToSrcRange Dst Src = NUMERIC_RANGE_CONTAINED"

section \<open>Range checks\<close>

record RangeCheck =
  is_underflow :: bool
  is_overflow :: bool

definition MkRangeCheck :: "bool \<Rightarrow> bool \<Rightarrow> RangeCheck" where
  "MkRangeCheck is_in_lower_bound is_in_upper_bound =
     \<lparr>is_underflow = \<not> is_in_lower_bound, is_overflow = \<not> is_in_upper_bound\<rparr>"

definition IsValid :: "RangeCheck \<Rightarrow> bool" where
  "IsValid r \<longleftrightarrow> \<not> is_overflow r \<and> \<not> is_underflow r"

definition IsOverflow :: "RangeCheck \<Rightarrow> bool" where
  "IsOverflow r \<longleftrightarrow> is_overflow r \<and> \<not> is_underflow r"

definition IsUnderflow :: "RangeCheck \<Rightarrow> bool" where
  "IsUnderflow r \<longleftrightarrow> \<not> is_overflow r \<and> is_underflow r"

text \<open>The template parameter \<open>Bounds\<close>, and the one that is used by default.\<close>

record bounds =
  b_lowest :: "int_type \<Rightarrow> int"
  b_max :: "int_type \<Rightarrow> int"

definition numeric_limits :: bounds where
  "numeric_limits = \<lparr>b_lowest = type_lowest, b_max = type_max\<rparr>"

definition kShift :: "int_type \<Rightarrow> int_type \<Rightarrow> nat" where
  "kShift Dst Src =
     (if MaxExponent Src > MaxExponent Dst \<and> digits Src < digits Dst then digits Dst - digits Src else 0)"

text \<open>The operands of the mask have the promoted unsigned type.\<close>

definition Adjust :: "int_type \<Rightarrow> int_type \<Rightarrow> int \<Rightarrow> int" where
  "Adjust Dst Src value =
     (let UnsignedDst = make_unsigned Dst; P = promote UnsignedDst in
      static_cast Dst
        (ConditionalNegate P
           (SafeUnsignedAbs Dst value AND static_cast P (NOT (static_cast P (push_bit (kShift Dst Src) 1 - 1))))
           (IsValueNegative Dst value)))"

definition NarrowingRange_max :: "'b bounds_scheme \<Rightarrow> int_type \<Rightarrow> int_type \<Rightarrow> int" where
  "NarrowingRange_max B Dst Src = Adjust Dst Src (b_max B Dst)"

definition NarrowingRange_lowest :: "'b bounds_scheme \<Rightarrow> int_type \<Rightarrow> int_type \<Rightarrow> int" where
  "NarrowingRange_lowest B Dst Src = Adjust Dst Src (b_lowest B Dst)"

definition DstRangeRelationToSrcRange :: "'b bounds_scheme \<Rightarrow> int_type \<Rightarrow> int_type \<Rightarrow> int \<Rightarrow> RangeCheck" where
  "DstRangeRelationToSrcRange B Dst Src value =
     (let lowest = NarrowingRange_lowest B Dst Src; highest = NarrowingRange_max B Dst Src;
          Promotion = common_type Src Dst in
      case StaticDstRangeRelationToSrcRange Dst Src of
        NUMERIC_RANGE_CONTAINED \<Rightarrow>
          MkRangeCheck
            (static_cast Dst (type_lowest Src) \<ge> lowest \<or> static_cast Dst value \<ge> lowest)
            (static_cast Dst (type_max Src) \<le> highest \<or> static_cast Dst value \<le> highest)
      | NUMERIC_RANGE_NOT_CONTAINED \<Rightarrow>
          if is_signed Dst \<and> is_signed Src then
            MkRangeCheck (cpp_le Dst Src lowest value) (cpp_le Src Dst value highest)
          else if \<not> is_signed Dst \<and> \<not> is_signed Src then
            MkRangeCheck (lowest = 0 \<or> cpp_le Dst Src lowest value) (cpp_le Src Dst value highest)
          else if is_signed Dst then
            MkRangeCheck
              (lowest \<le> 0 \<or> static_cast Promotion value \<ge> static_cast Promotion lowest)
              (static_cast Promotion value \<le> static_cast Promotion highest)
          else
            let ge_zero = value \<ge> 0 in
            MkRangeCheck
              (ge_zero \<and> (lowest = 0 \<or> static_cast Dst value \<ge> lowest))
              (static_cast Promotion (type_max Src) \<le> static_cast Promotion highest \<or>
               static_cast Promotion value \<le> static_cast Promotion highest))"

section \<open>Promotions\<close>

text \<open>The table of integer types by width and sign; a missing entry does not compile.\<close>

fun IntegerForDigitsAndSign :: "nat \<Rightarrow> bool \<Rightarrow> int_type option" where
  "IntegerForDigitsAndSign width sgned =
     (if width = 8 then Some (if sgned then int8_t else uint8_t)
      else if width = 16 then Some (if sgned then int16_t else uint16_t)
      else if width = 32 then Some (if sgned then int32_t else uint32_t)
      else if width = 64 then Some (if sgned then int64_t else uint64_t)
      else None)"

definition TwiceWiderInteger :: "int_type \<Rightarrow> bool \<Rightarrow> int_type option" where
  "TwiceWiderInteger T sgned = IntegerForDigitsAndSign (IntegerBitsPlusSign T * 2) sgned"

definition MaxExponentPromotion :: "int_type \<Rightarrow> int_type \<Rightarrow> int_type" where
  "MaxExponentPromotion Lhs Rhs = (if MaxExponent Lhs > MaxExponent Rhs then Lhs else Rhs)"

definition LowestValuePromotion :: "int_type \<Rightarrow> int_type \<Rightarrow> int_type" where
  "LowestValuePromotion Lhs Rhs =
     (if is_signed Lhs then
        (if is_signed Rhs then (if MaxExponent Lhs > MaxExponent Rhs then Lhs else Rhs) else Lhs)
      else if is_signed Rhs then Rhs
      else if MaxExponent Lhs < MaxExponent Rhs then Lhs else Rhs)"

text \<open>The type and \<open>is_contained\<close>.\<close>

definition BigEnoughPromotion :: "int_type \<Rightarrow> int_type \<Rightarrow> int_type \<times> bool" where
  "BigEnoughPromotion Lhs Rhs =
     (let M = MaxExponentPromotion Lhs Rhs;
          is_intmax_type = IntegerBitsPlusSign M = IntegerBitsPlusSign int64_t;
          is_max_exponent = StaticDstRangeRelationToSrcRange M Lhs = NUMERIC_RANGE_CONTAINED \<and>
            StaticDstRangeRelationToSrcRange M Rhs = NUMERIC_RANGE_CONTAINED in
      if is_max_exponent then (M, True)
      else if \<not> is_intmax_type then (the (TwiceWiderInteger M (is_signed Lhs \<or> is_signed Rhs)), True)
      else (M, False))"

definition IsIntegerArithmeticSafe :: "int_type \<Rightarrow> int_type \<Rightarrow> int_type \<Rightarrow> bool" where
  "IsIntegerArithmeticSafe T Lhs Rhs \<longleftrightarrow>
     (is_signed Lhs \<longrightarrow> is_signed T) \<and> IntegerBitsPlusSign T \<ge> 2 * IntegerBitsPlusSign Lhs \<and>
     (is_signed Rhs \<longrightarrow> is_signed T) \<and> IntegerBitsPlusSign T \<ge> 2 * IntegerBitsPlusSign Rhs"

definition FastIntegerArithmeticPromotion :: "int_type \<Rightarrow> int_type \<Rightarrow> int_type \<times> bool" where
  "FastIntegerArithmeticPromotion Lhs Rhs =
     (let M = MaxExponentPromotion Lhs Rhs;
          widest = (if is_signed Lhs \<or> is_signed Rhs then int64_t else uint64_t) in
      if IsIntegerArithmeticSafe widest M M then
        (the (TwiceWiderInteger M (is_signed Lhs \<or> is_signed Rhs)), True)
      else (fst (BigEnoughPromotion Lhs Rhs), False))"

section \<open>Comparisons\<close>

definition IsLess :: "int_type \<Rightarrow> int_type \<Rightarrow> int \<Rightarrow> int \<Rightarrow> bool" where
  "IsLess L R lhs rhs =
     (let l_range = DstRangeRelationToSrcRange numeric_limits R L lhs;
          r_range = DstRangeRelationToSrcRange numeric_limits L R rhs in
      IsUnderflow l_range \<or> IsOverflow r_range \<or> (l_range = r_range \<and> cpp_less L R lhs rhs))"

definition IsLessOrEqual :: "int_type \<Rightarrow> int_type \<Rightarrow> int \<Rightarrow> int \<Rightarrow> bool" where
  "IsLessOrEqual L R lhs rhs =
     (let l_range = DstRangeRelationToSrcRange numeric_limits R L lhs;
          r_range = DstRangeRelationToSrcRange numeric_limits L R rhs in
      IsUnderflow l_range \<or> IsOverflow r_range \<or> (l_range = r_range \<and> cpp_le L R lhs rhs))"

definition IsGreater :: "int_type \<Rightarrow> int_type \<Rightarrow> int \<Rightarrow> int \<Rightarrow> bool" where
  "IsGreater L R lhs rhs =
     (let l_range = DstRangeRelationToSrcRange numeric_limits R L lhs;
          r_range = DstRangeRelationToSrcRange numeric_limits L R rhs in
      IsOverflow l_range \<or> IsUnderflow r_range \<or> (l_range = r_range \<and> cpp_less R L rhs lhs))"

definition IsGreaterOrEqual :: "int_type \<Rightarrow> int_type \<Rightarrow> int \<Rightarrow> int \<Rightarrow> bool" where
  "IsGreaterOrEqual L R lhs rhs =
     (let l_range = DstRangeRelationToSrcRange numeric_limits R L lhs;
          r_range = DstRangeRelationToSrcRange numeric_limits L R rhs in
      IsOverflow l_range \<or> IsUnderflow r_range \<or> (l_range = r_range \<and> cpp_le R L rhs lhs))"

definition IsEqual :: "int_type \<Rightarrow> int_type \<Rightarrow> int \<Rightarrow> int \<Rightarrow> bool" where
  "IsEqual L R lhs rhs \<longleftrightarrow>
     DstRangeRelationToSrcRange numeric_limits R L lhs = DstRangeRelationToSrcRange numeric_limits L R rhs \<and>
     cpp_eq L R lhs rhs"

definition IsNotEqual :: "int_type \<Rightarrow> int_type \<Rightarrow> int \<Rightarrow> int \<Rightarrow> bool" where
  "IsNotEqual L R lhs rhs \<longleftrightarrow>
     DstRangeRelationToSrcRange numeric_limits R L lhs \<noteq> DstRangeRelationToSrcRange numeric_limits L R rhs \<or>
     \<not> cpp_eq L R lhs rhs"

definition SafeCompare :: "(int_type \<Rightarrow> int_type \<Rightarrow> int \<Rightarrow> int \<Rightarrow> bool) \<Rightarrow>
    int_type \<Rightarrow> int_type \<Rightarrow> int \<Rightarrow> int \<Rightarrow> bool" where
  "SafeCompare C L R lhs rhs =
     (case BigEnoughPromotion L R of (BigType, is_contained) \<Rightarrow>
        if is_contained then
          C BigType BigType (static_cast BigType (static_cast L lhs)) (static_cast BigType (static_cast R rhs))
        else C L R lhs rhs)"

definition IsMaxInRangeForNumericType :: "int_type \<Rightarrow> int_type \<Rightarrow> bool" where
  "IsMaxInRangeForNumericType Dst Src = IsGreaterOrEqual Dst Src (type_max Dst) (type_max Src)"

definition IsMinInRangeForNumericType :: "int_type \<Rightarrow> int_type \<Rightarrow> bool" where
  "IsMinInRangeForNumericType Dst Src = IsLessOrEqual Dst Src (type_lowest Dst) (type_lowest Src)"

definition CommonMax :: "int_type \<Rightarrow> int_type \<Rightarrow> int" where
  "CommonMax Dst Src =
     (if \<not> IsMaxInRangeForNumericType Dst Src then static_cast Dst (type_max Dst) else static_cast Dst (type_max Src))"

definition CommonMin :: "int_type \<Rightarrow> int_type \<Rightarrow> int" where
  "CommonMin Dst Src =
     (if \<not> IsMinInRangeForNumericType Dst Src then static_cast Dst (type_lowest Dst)
      else static_cast Dst (type_lowest Src))"

definition CommonMaxOrMin :: "int_type \<Rightarrow> int_type \<Rightarrow> bool \<Rightarrow> int" where
  "CommonMaxOrMin Dst Src is_min = (if is_min then CommonMin Dst Src else CommonMax Dst Src)"

section \<open>Conversions\<close>

definition as_signed :: "int_type \<Rightarrow> int \<Rightarrow> int" where
  "as_signed Src value = static_cast (make_signed Src) value"

definition as_unsigned :: "int_type \<Rightarrow> int \<Rightarrow> int" where
  "as_unsigned Src value = static_cast (make_unsigned Src) value"

definition fast_range_supported :: "int_type \<Rightarrow> int_type \<Rightarrow> bool" where
  "fast_range_supported Dst Src \<longleftrightarrow> is_signed Src \<and> \<not> IsTypeInRangeForNumericType Dst Src"

definition IsValueInRangeFastOp :: "int_type \<Rightarrow> int_type \<Rightarrow> int \<Rightarrow> bool" where
  "IsValueInRangeFastOp Dst Src value =
     (if is_signed Dst then cpp_eq Src Dst value (static_cast Dst value)
      else as_unsigned Src value \<le> as_unsigned Src (CommonMax Src Dst))"

definition IsValueInRangeForNumericType :: "int_type \<Rightarrow> int_type \<Rightarrow> int \<Rightarrow> bool" where
  "IsValueInRangeForNumericType Dst Src value =
     (if fast_range_supported Dst Src then IsValueInRangeFastOp Dst Src value
      else IsValid (DstRangeRelationToSrcRange numeric_limits Dst Src value))"

text \<open>\<open>None\<close>: the check failed and the program is trapped.\<close>

definition checked_cast :: "int_type \<Rightarrow> int_type \<Rightarrow> int \<Rightarrow> int option" where
  "checked_cast Dst Src value =
     (if IsValueInRangeForNumericType Dst Src value then Some (static_cast Dst value) else None)"

record saturation_handler = bounds +
  h_Overflow :: "int_type \<Rightarrow> int"
  h_Underflow :: "int_type \<Rightarrow> int"

definition SaturationDefaultLimits :: saturation_handler where
  "SaturationDefaultLimits =
     bounds.extend numeric_limits \<lparr>h_Overflow = type_max, h_Underflow = type_lowest\<rparr>"

definition saturated_cast_impl :: "int_type \<Rightarrow> saturation_handler \<Rightarrow> int \<Rightarrow> RangeCheck \<Rightarrow> int" where
  "saturated_cast_impl Dst S value constraint =
     (if \<not> is_overflow constraint then
        (if \<not> is_underflow constraint then static_cast Dst value else h_Underflow S Dst)
      else h_Overflow S Dst)"

definition SaturateFastOp :: "int_type \<Rightarrow> int_type \<Rightarrow> int \<Rightarrow> int" where
  "SaturateFastOp Dst Src value =
     (let saturated = CommonMaxOrMin Dst Src
            (IsMaxInRangeForNumericType Dst Src \<or>
             (\<not> IsMinInRangeForNumericType Dst Src \<and> IsValueNegative Src value)) in
      if IsValueInRangeForNumericType Dst Src value then static_cast Dst value else saturated)"

text \<open>No handler given is the default one; the fast operation is skipped when the cast is
  evaluated at compile time.\<close>

definition saturated_cast :: "bool \<Rightarrow> saturation_handler option \<Rightarrow> int_type \<Rightarrow> int_type \<Rightarrow> int \<Rightarrow> int" where
  "saturated_cast constant_evaluated handler Dst Src value =
     (if \<not> constant_evaluated \<and> handler = None then SaturateFastOp Dst Src value
      else
        let S = (case handler of None \<Rightarrow> SaturationDefaultLimits | Some S \<Rightarrow> S) in
        saturated_cast_impl Dst S value (DstRangeRelationToSrcRange S Dst Src value))"

text \<open>\<open>None\<close>: does not compile.\<close>

definition strict_cast :: "int_type \<Rightarrow> int_type \<Rightarrow> int \<Rightarrow> int option" where
  "strict_cast Dst Src value =
     (if StaticDstRangeRelationToSrcRange Dst Src = NUMERIC_RANGE_CONTAINED then Some (static_cast Dst value)
      else None)"

section \<open>Facts about the traits\<close>

lemma IntegerBitsPlusSign_bits [simp, type_facts]: "IntegerBitsPlusSign T = int_bits T"
  by (cases T) (simp_all add: IntegerBitsPlusSign_def digits_def)

lemma contained_iff:
  "StaticDstRangeRelationToSrcRange Dst Src = NUMERIC_RANGE_CONTAINED \<longleftrightarrow>
     type_lowest Dst \<le> type_lowest Src \<and> type_max Src \<le> type_max Dst"
  unfolding type_max_mono [symmetric]
  by (cases Dst; cases Src; simp add: StaticDstRangeRelationToSrcRange_def MaxExponent_def digits_def type_lowest_def)

lemma contained_in_type:
  "StaticDstRangeRelationToSrcRange Dst Src = NUMERIC_RANGE_CONTAINED \<Longrightarrow> in_type Src x \<Longrightarrow> in_type Dst x"
  by (auto simp: contained_iff in_type_def)

lemma not_contained_iff [simp]:
  "r \<noteq> NUMERIC_RANGE_CONTAINED \<longleftrightarrow> r = NUMERIC_RANGE_NOT_CONTAINED"
  by (cases r) simp_all

text \<open>For integer types nothing is masked out.\<close>

lemma kShift_0 [simp]: "kShift Dst Src = 0"
  by (simp add: kShift_def MaxExponent_def)

lemma SafeUnsignedAbs_abs: "in_type T x \<Longrightarrow> SafeUnsignedAbs T x = \<bar>x\<bar>"
proof -
  assume x: "in_type T x"
  have "in_type (make_unsigned T) \<bar>x\<bar>"
    using x by (cases T) (auto simp: in_type_unsigned in_type_signed)
  then have "static_cast (make_unsigned T) y = \<bar>x\<bar>"
    if "take_bit (int_bits T) y = take_bit (int_bits T) \<bar>x\<bar>" for y
    using that by (intro static_cast_exact) simp_all
  moreover have "\<not> IsValueNegative T x \<Longrightarrow> 0 \<le> x"
    using x by (auto simp: IsValueNegative_def in_type_unsigned split: if_splits)
  moreover have "take_bit (int_bits T) (0 - static_cast (make_unsigned T) x) = take_bit (int_bits T) (- x)"
    using take_bit_minus [of "int_bits T" "static_cast (make_unsigned T) x"] take_bit_minus [of "int_bits T" x]
    by simp
  ultimately show ?thesis by (auto simp: SafeUnsignedAbs_def Let_def IsValueNegative_def)
qed

lemma ConditionalNegate_cast:
  "ConditionalNegate T x neg = static_cast (make_signed T) (if neg then - x else x)"
proof (cases neg)
  case True
  let ?b = "int_bits T"
  have one: "static_cast (make_signed T) 1 = 1"
    by (rule static_cast_id) (simp add: in_type_signed, cases T; simp)
  have "take_bit ?b (static_cast (make_unsigned T) x XOR static_cast (make_unsigned T) (-1)) = take_bit ?b (NOT x)"
  proof -
    have "take_bit ?b x XOR mask ?b = take_bit ?b (NOT x)" by (rule bit_eqI) (auto simp: bit_simps)
    then show ?thesis by (simp add: take_bit_xor)
  qed
  then have "take_bit ?b ((static_cast (make_unsigned T) x XOR static_cast (make_unsigned T) (-1)) + 1) =
      take_bit ?b (NOT x + 1)"
    by (metis take_bit_add)
  then show ?thesis
    using True one by (simp add: ConditionalNegate_def not_int_def) (rule static_cast_cong, simp)
next
  case False
  have zero: "static_cast U 0 = 0" for U by simp
  show ?thesis
    using False by (simp add: ConditionalNegate_def static_cast_static_cast)
qed

lemma take_bit_minus_cong: "take_bit n x = take_bit n y \<Longrightarrow> take_bit n (- x) = take_bit n (- y)" for x y :: int
  by (metis take_bit_minus)

lemma Adjust_id: "in_type Dst x \<Longrightarrow> Adjust Dst Src x = x"
proof -
  assume x: "in_type Dst x"
  define P where "P = promote (make_unsigned Dst)"
  define masked where "masked = \<bar>x\<bar> AND static_cast P (NOT (static_cast P (push_bit 0 1 - 1)))"
  have bits: "int_bits Dst \<le> int_bits P" by (cases Dst) (simp_all add: P_def promote_def)
  have "masked = (if is_signed P then \<bar>x\<bar> else take_bit (int_bits P) \<bar>x\<bar>)"
    by (simp add: masked_def static_cast_def take_bit_eq_mask)
  then have "take_bit (int_bits Dst) masked = take_bit (int_bits Dst) \<bar>x\<bar>"
    using bits by simp
  then have "take_bit (int_bits Dst) (if IsValueNegative Dst x then - masked else masked) = take_bit (int_bits Dst) x"
    using x take_bit_minus_cong [of "int_bits Dst" masked "\<bar>x\<bar>"]
    by (auto simp: IsValueNegative_def in_type_unsigned split: if_splits)
  moreover have "Adjust Dst Src x = static_cast Dst (if IsValueNegative Dst x then - masked else masked)"
    using x bits
    by (simp add: Adjust_def Let_def SafeUnsignedAbs_abs ConditionalNegate_cast static_cast_static_cast masked_def P_def)
  ultimately show ?thesis using x static_cast_exact by simp
qed

section \<open>Exactness of the range checks\<close>

definition bounds_ok :: "'b bounds_scheme \<Rightarrow> int_type \<Rightarrow> bool" where
  "bounds_ok B T \<longleftrightarrow> in_type T (b_lowest B T) \<and> in_type T (b_max B T) \<and> 0 \<le> b_max B T"

lemma numeric_limits_ok [simp]: "bounds_ok numeric_limits T"
  by (simp add: bounds_ok_def numeric_limits_def)

lemma narrowing_id:
  "bounds_ok B Dst \<Longrightarrow> NarrowingRange_lowest B Dst Src = b_lowest B Dst"
  "bounds_ok B Dst \<Longrightarrow> NarrowingRange_max B Dst Src = b_max B Dst"
  by (simp_all add: bounds_ok_def NarrowingRange_lowest_def NarrowingRange_max_def Adjust_id)

lemmas range_defs = DstRangeRelationToSrcRange_def Let_def MkRangeCheck_def

lemma static_range_cases:
  obtains (contained) "StaticDstRangeRelationToSrcRange Dst Src = NUMERIC_RANGE_CONTAINED"
  | (same_sign) "StaticDstRangeRelationToSrcRange Dst Src = NUMERIC_RANGE_NOT_CONTAINED" "is_signed Dst = is_signed Src"
  | (to_signed) "StaticDstRangeRelationToSrcRange Dst Src = NUMERIC_RANGE_NOT_CONTAINED" "is_signed Dst" "\<not> is_signed Src"
  | (to_unsigned) "StaticDstRangeRelationToSrcRange Dst Src = NUMERIC_RANGE_NOT_CONTAINED" "\<not> is_signed Dst" "is_signed Src"
  by (metis NumericRangeRepresentation.exhaust)

lemma unsigned_nonneg: "\<not> is_signed T \<Longrightarrow> in_type T x \<Longrightarrow> 0 \<le> x"
  by (simp add: in_type_unsigned)

text \<open>A check against a signed destination, or between unsigned types, is exact.\<close>

lemma range_flags:
  assumes "bounds_ok B Dst" "in_type Src x" "is_signed Dst \<or> \<not> is_signed Src"
  shows "DstRangeRelationToSrcRange B Dst Src x =
    \<lparr>is_underflow = x < b_lowest B Dst, is_overflow = b_max B Dst < x\<rparr>"
proof -
  let ?lo = "b_lowest B Dst" and ?hi = "b_max B Dst"
  have lim: "in_type Dst ?lo" "in_type Dst ?hi" "0 \<le> ?hi" using assms by (simp_all add: bounds_ok_def)
  have src: "type_lowest Src \<le> x" "x \<le> type_max Src" using assms(2) by (simp_all add: in_type_def)
  note defs = range_defs narrowing_id [OF assms(1)]
  show ?thesis
  proof (cases rule: static_range_cases [of Dst Src])
    case contained
    then have "static_cast Dst x = x" "static_cast Dst (type_lowest Src) = type_lowest Src"
      "static_cast Dst (type_max Src) = type_max Src"
      using assms(2) contained_in_type by simp_all
    with contained show ?thesis using src by (auto simp: defs)
  next
    case same_sign
    have "?lo = 0 \<Longrightarrow> \<not> is_signed Dst \<Longrightarrow> 0 \<le> x"
      using same_sign assms(2) by (simp add: unsigned_nonneg)
    then show ?thesis
      using same_sign lim assms(2) by (auto simp: defs cpp_cmp_same_sign)
  next
    case to_signed
    then have "0 \<le> x" using assms(2) by (simp add: unsigned_nonneg)
    moreover from this have "in_type (common_type Src Dst) x" "in_type (common_type Src Dst) ?hi"
      "0 < ?lo \<Longrightarrow> in_type (common_type Src Dst) ?lo"
      using common_nonneg assms(2) lim by auto
    ultimately show ?thesis using to_signed by (cases "0 < ?lo") (auto simp: defs)
  qed (use assms(3) in simp)
qed

lemma range_flags_unsigned:
  assumes "bounds_ok B Dst" "in_type Src x" "\<not> is_signed Dst" "is_signed Src"
  shows "DstRangeRelationToSrcRange B Dst Src x =
    \<lparr>is_underflow = \<not> (0 \<le> x \<and> (b_lowest B Dst = 0 \<or> b_lowest B Dst \<le> static_cast Dst x)),
     is_overflow = \<not> (type_max Src \<le> b_max B Dst \<or> static_cast (common_type Src Dst) x \<le> b_max B Dst)\<rparr>"
proof -
  have "in_type Dst (b_max B Dst)" "0 \<le> b_max B Dst" using assms(1) by (simp_all add: bounds_ok_def)
  then have "in_type (common_type Src Dst) (type_max Src)" "in_type (common_type Src Dst) (b_max B Dst)"
    using common_nonneg by simp_all
  moreover have "StaticDstRangeRelationToSrcRange Dst Src = NUMERIC_RANGE_NOT_CONTAINED"
    using assms(3,4) by (simp add: StaticDstRangeRelationToSrcRange_def)
  ultimately show ?thesis
    using assms(3,4) by (simp add: range_defs narrowing_id [OF assms(1)])
qed

lemma signed_wider:
  "is_signed Src \<Longrightarrow> \<not> is_signed Dst \<Longrightarrow> type_max Dst < type_max Src \<Longrightarrow>
   type_lowest (common_type Src Dst) \<le> type_lowest Src"
  unfolding not_le [symmetric] type_max_mono [symmetric]
  by (cases Src; cases Dst; simp add: common_type_def promote_def digits_def type_lowest_def)

lemma range_exact:
  assumes "in_type Src x"
  shows "DstRangeRelationToSrcRange numeric_limits Dst Src x =
    \<lparr>is_underflow = x < type_lowest Dst, is_overflow = type_max Dst < x\<rparr>"
proof (cases "is_signed Dst \<or> \<not> is_signed Src")
  case True
  then show ?thesis using range_flags [OF numeric_limits_ok assms] by (simp add: numeric_limits_def)
next
  case False
  then have "type_lowest Dst = 0" by (simp add: type_lowest_def)
  moreover have "type_max Dst < type_max Src \<Longrightarrow> static_cast (common_type Src Dst) x = x"
    using False assms signed_wider [of Src Dst] common_max(1) [of Src Dst]
    by (intro static_cast_id) (auto simp: in_type_def)
  moreover have "x \<le> type_max Src" using assms by (simp add: in_type_def)
  ultimately show ?thesis
    using False range_flags_unsigned [OF numeric_limits_ok assms, of Dst] 
    by (cases "type_max Dst < type_max Src") (auto simp: numeric_limits_def)
qed

lemma range_valid:
  assumes "bounds_ok B Dst" "in_type Src x"
  shows "IsValid (DstRangeRelationToSrcRange B Dst Src x) \<longleftrightarrow> b_lowest B Dst \<le> x \<and> x \<le> b_max B Dst"
proof (cases "is_signed Dst \<or> \<not> is_signed Src")
  case True
  then show ?thesis using range_flags [OF assms] by (auto simp: IsValid_def)
next
  case False
  have lim: "in_type Dst (b_lowest B Dst)" "in_type Dst (b_max B Dst)" using assms(1) by (simp_all add: bounds_ok_def)
  then have "0 \<le> x \<Longrightarrow> x \<le> b_max B Dst \<Longrightarrow> static_cast Dst x = x" "0 \<le> b_lowest B Dst"
    using False by (simp_all add: in_type_unsigned)
  moreover have "0 \<le> x \<Longrightarrow> static_cast (common_type Src Dst) x = x" "x \<le> type_max Src"
    using assms(2) common_nonneg(1) by (auto simp: in_type_def)
  ultimately show ?thesis
    using False range_flags_unsigned [OF assms] by (auto simp: IsValid_def)
qed
section \<open>Exactness of the comparisons\<close>

lemma common_both: "in_type L x \<Longrightarrow> in_type R x \<Longrightarrow> in_type (common_type L R) x"
  using common_same_sign(1) common_nonneg unsigned_nonneg by metis

lemma same_ranges:
  assumes "in_type L x" "in_type R y"
    "DstRangeRelationToSrcRange numeric_limits R L x = DstRangeRelationToSrcRange numeric_limits L R y"
  shows "in_type (common_type L R) x" "in_type (common_type L R) y"
proof -
  have "in_type R x" "in_type L y"
    using assms by (auto simp: range_exact in_type_def)
  with assms show "in_type (common_type L R) x" "in_type (common_type L R) y"
    using common_both common_type_sym by metis+
qed

lemmas compare_defs = IsLess_def IsLessOrEqual_def IsGreater_def IsGreaterOrEqual_def IsEqual_def IsNotEqual_def

lemma compare_exact:
  assumes "in_type L x" "in_type R y"
  shows "IsLess L R x y \<longleftrightarrow> x < y" "IsLessOrEqual L R x y \<longleftrightarrow> x \<le> y"
    "IsGreater L R x y \<longleftrightarrow> y < x" "IsGreaterOrEqual L R x y \<longleftrightarrow> y \<le> x"
    "IsEqual L R x y \<longleftrightarrow> x = y" "IsNotEqual L R x y \<longleftrightarrow> x \<noteq> y"
proof -
  note ranges = range_exact [OF assms(1)] range_exact [OF assms(2)]
  have xy: "type_lowest L \<le> x" "x \<le> type_max L" "type_lowest R \<le> y" "y \<le> type_max R"
    using assms by (simp_all add: in_type_def)
  have cmp: "cpp_less L R x y \<longleftrightarrow> x < y" "cpp_le L R x y \<longleftrightarrow> x \<le> y" "cpp_eq L R x y \<longleftrightarrow> x = y"
    "cpp_less R L y x \<longleftrightarrow> y < x" "cpp_le R L y x \<longleftrightarrow> y \<le> x"
    if "DstRangeRelationToSrcRange numeric_limits R L x = DstRangeRelationToSrcRange numeric_limits L R y"
    using same_ranges [OF assms that] cpp_cmp_exact common_type_sym [of R L] by (metis)+
  show "IsLess L R x y \<longleftrightarrow> x < y"
    using xy cmp by (auto simp: IsLess_def Let_def IsUnderflow_def IsOverflow_def ranges)
  show "IsLessOrEqual L R x y \<longleftrightarrow> x \<le> y"
    using xy cmp by (auto simp: IsLessOrEqual_def Let_def IsUnderflow_def IsOverflow_def ranges)
  show "IsGreater L R x y \<longleftrightarrow> y < x"
    using xy cmp by (auto simp: IsGreater_def Let_def IsUnderflow_def IsOverflow_def ranges)
  show "IsGreaterOrEqual L R x y \<longleftrightarrow> y \<le> x"
    using xy cmp by (auto simp: IsGreaterOrEqual_def Let_def IsUnderflow_def IsOverflow_def ranges)
  show "IsEqual L R x y \<longleftrightarrow> x = y"
    using xy cmp by (auto simp: IsEqual_def ranges)
  show "IsNotEqual L R x y \<longleftrightarrow> x \<noteq> y"
    using xy cmp by (auto simp: IsNotEqual_def ranges)
qed

lemma big_enough_contained:
  "snd (BigEnoughPromotion L R) \<Longrightarrow> in_type L x \<Longrightarrow> in_type (fst (BigEnoughPromotion L R)) x"
  "snd (BigEnoughPromotion L R) \<Longrightarrow> in_type R y \<Longrightarrow> in_type (fst (BigEnoughPromotion L R)) y"
proof -
  have "snd (BigEnoughPromotion L R) \<Longrightarrow>
      StaticDstRangeRelationToSrcRange (fst (BigEnoughPromotion L R)) L = NUMERIC_RANGE_CONTAINED \<and>
      StaticDstRangeRelationToSrcRange (fst (BigEnoughPromotion L R)) R = NUMERIC_RANGE_CONTAINED"
    by (cases L; cases R; simp add: BigEnoughPromotion_def Let_def MaxExponentPromotion_def MaxExponent_def
        digits_def StaticDstRangeRelationToSrcRange_def TwiceWiderInteger_def)
  then show "snd (BigEnoughPromotion L R) \<Longrightarrow> in_type L x \<Longrightarrow> in_type (fst (BigEnoughPromotion L R)) x"
    "snd (BigEnoughPromotion L R) \<Longrightarrow> in_type R y \<Longrightarrow> in_type (fst (BigEnoughPromotion L R)) y"
    using contained_in_type by blast+
qed

lemma SafeCompare_exact:
  assumes "in_type L x" "in_type R y" "\<And>L R. in_type L x \<Longrightarrow> in_type R y \<Longrightarrow> C L R x y = P"
  shows "SafeCompare C L R x y = P"
  using assms big_enough_contained [of L R]
  by (cases "BigEnoughPromotion L R") (auto simp: SafeCompare_def)

lemma max_min_in_range:
  "IsMaxInRangeForNumericType Dst Src \<longleftrightarrow> type_max Src \<le> type_max Dst"
  "IsMinInRangeForNumericType Dst Src \<longleftrightarrow> type_lowest Dst \<le> type_lowest Src"
  by (simp_all add: IsMaxInRangeForNumericType_def IsMinInRangeForNumericType_def compare_exact)

lemma CommonMax_min: "CommonMax Dst Src = min (type_max Dst) (type_max Src)"
proof -
  have "type_max Src \<le> type_max Dst \<Longrightarrow> in_type Dst (type_max Src)"
    using order.trans [OF type_lowest_le type_max_pos(2)] by (simp add: in_type_def)
  then show ?thesis by (simp add: CommonMax_def max_min_in_range min_def)
qed

lemma CommonMin_max: "CommonMin Dst Src = max (type_lowest Dst) (type_lowest Src)"
proof -
  have "type_lowest Dst \<le> type_lowest Src \<Longrightarrow> in_type Dst (type_lowest Src)"
    using order.trans [OF type_lowest_le type_max_pos(2)] by (simp add: in_type_def)
  then show ?thesis by (simp add: CommonMin_def max_min_in_range max_def)
qed

lemma as_unsigned_of_signed:
  assumes "is_signed T" "in_type T x"
  shows "as_unsigned T x = (if x < 0 then x + 2 ^ int_bits T else x)"
  unfolding as_unsigned_def
proof (rule static_cast_exact)
  show "in_type (make_unsigned T) (if x < 0 then x + 2 ^ int_bits T else x)"
    using assms by (cases T) (auto simp: in_type_unsigned in_type_signed)
  show "take_bit (int_bits (make_unsigned T)) x =
      take_bit (int_bits (make_unsigned T)) (if x < 0 then x + 2 ^ int_bits T else x)"
    by (simp add: take_bit_eq_mod)
qed

lemma as_unsigned_le:
  assumes "is_signed T" "in_type T x" "m \<le> type_max T"
  shows "as_unsigned T x \<le> m \<longleftrightarrow> 0 \<le> x \<and> x \<le> m"
  using assms by (cases T) (auto simp: as_unsigned_of_signed in_type_signed type_max_def digits_def)

lemma in_range_exact: "in_type Src x \<Longrightarrow> IsValueInRangeForNumericType Dst Src x \<longleftrightarrow> in_type Dst x"
proof -
  assume x: "in_type Src x"
  have general: "IsValid (DstRangeRelationToSrcRange numeric_limits Dst Src x) \<longleftrightarrow> in_type Dst x"
    using range_valid [OF numeric_limits_ok x, of Dst] by (simp add: numeric_limits_def in_type_def)
  show ?thesis
  proof (cases "fast_range_supported Dst Src")
    case fast: True
    then have src: "is_signed Src" by (simp add: fast_range_supported_def)
    show ?thesis
    proof (cases "is_signed Dst")
      case True
      then have "cpp_eq Src Dst x (static_cast Dst x) \<longleftrightarrow> x = static_cast Dst x"
        using src x by (simp add: cpp_cmp_same_sign)
      then show ?thesis
        using fast True static_cast_id_iff [of Dst x]
        by (auto simp: IsValueInRangeForNumericType_def IsValueInRangeFastOp_def)
    next
      case False
      let ?m = "min (type_max Src) (type_max Dst)"
      have "0 \<le> ?m" by simp
      moreover from this have "in_type Src ?m"
        using type_lowest_le [of Src] unfolding in_type_def by linarith
      ultimately have "as_unsigned Src ?m = ?m" using src as_unsigned_of_signed [of Src ?m] by (metis not_less)
      moreover have "as_unsigned Src x \<le> ?m \<longleftrightarrow> 0 \<le> x \<and> x \<le> ?m"
        by (rule as_unsigned_le [OF src x]) simp
      ultimately have "IsValueInRangeFastOp Dst Src x \<longleftrightarrow> 0 \<le> x \<and> x \<le> ?m"
        using False by (simp only: IsValueInRangeFastOp_def CommonMax_min if_False)
      then show ?thesis
        using fast False x by (auto simp: IsValueInRangeForNumericType_def in_type_def type_lowest_def)
    qed
  qed (simp add: IsValueInRangeForNumericType_def general)
qed

section \<open>Saturation\<close>

text \<open>The nearest value of a type.\<close>

definition clamp :: "int_type \<Rightarrow> int \<Rightarrow> int" where
  "clamp T x = (if x < type_lowest T then type_lowest T else if type_max T < x then type_max T else x)"

lemma SaturateFastOp_clamp:
  assumes "in_type Src x"
  shows "SaturateFastOp Dst Src x = clamp Dst x"
proof -
  have src: "type_lowest Src \<le> x" "x \<le> type_max Src" using assms by (simp_all add: in_type_def)
  have neg: "IsValueNegative Src x \<longleftrightarrow> x < 0"
    using assms by (auto simp: IsValueNegative_def unsigned_nonneg not_less)
  have "type_max Dst < x \<Longrightarrow> 0 \<le> x" using type_max_pos(2) [of Dst] by linarith
  moreover have "x < type_lowest Dst \<Longrightarrow> x < 0" using type_lowest_le [of Dst] by linarith
  moreover have "type_lowest Dst \<le> type_max Dst" using in_type_max [of Dst] by (simp add: in_type_def)
  ultimately show ?thesis
    using src
    by (auto simp: SaturateFastOp_def Let_def CommonMaxOrMin_def CommonMax_min CommonMin_max max_min_in_range
        in_range_exact [OF assms] neg clamp_def in_type_def)
qed

lemma saturated_impl_flags:
  assumes "constraint = \<lparr>is_underflow = x < lo, is_overflow = hi < x\<rparr>" "lo \<le> x \<Longrightarrow> x \<le> hi \<Longrightarrow> in_type Dst x" "lo \<le> hi"
  shows "saturated_cast_impl Dst S x constraint =
    (if x < lo then h_Underflow S Dst else if hi < x then h_Overflow S Dst else x)"
  using assms by (auto simp: saturated_cast_impl_def)

lemma SaturationDefaultLimits_sel [simp]:
  "b_lowest SaturationDefaultLimits = type_lowest" "b_max SaturationDefaultLimits = type_max"
  "h_Overflow SaturationDefaultLimits = type_max" "h_Underflow SaturationDefaultLimits = type_lowest"
  by (simp_all add: SaturationDefaultLimits_def numeric_limits_def bounds.extend_def)

lemma range_check_bounds_only:
  "b_lowest B = b_lowest B' \<Longrightarrow> b_max B = b_max B' \<Longrightarrow>
   DstRangeRelationToSrcRange B Dst Src x = DstRangeRelationToSrcRange B' Dst Src x"
  by (simp add: DstRangeRelationToSrcRange_def NarrowingRange_lowest_def NarrowingRange_max_def)

lemma saturated_default_impl:
  assumes "in_type Src x"
  shows "saturated_cast_impl Dst SaturationDefaultLimits x (DstRangeRelationToSrcRange SaturationDefaultLimits Dst Src x)
    = clamp Dst x"
proof -
  have "DstRangeRelationToSrcRange SaturationDefaultLimits Dst Src x = DstRangeRelationToSrcRange numeric_limits Dst Src x"
    by (rule range_check_bounds_only) (simp_all add: numeric_limits_def)
  also have "\<dots> = \<lparr>is_underflow = x < type_lowest Dst, is_overflow = type_max Dst < x\<rparr>"
    by (rule range_exact [OF assms])
  finally have flags: "DstRangeRelationToSrcRange SaturationDefaultLimits Dst Src x =
      \<lparr>is_underflow = x < type_lowest Dst, is_overflow = type_max Dst < x\<rparr>" .
  have "type_lowest Dst \<le> type_max Dst" using in_type_max [of Dst] by (simp add: in_type_def)
  then show ?thesis
    by (subst saturated_impl_flags [OF flags]) (simp_all add: in_type_def clamp_def)
qed

text \<open>A custom handler works for signed destinations and unsigned sources, but a negative value
  can be taken for a large one: it is compared after conversion to an unsigned type.\<close>

lemma saturate_custom:
  assumes "bounds_ok S Dst" "in_type Src x" "is_signed Dst \<or> \<not> is_signed Src" "b_lowest S Dst \<le> b_max S Dst"
  shows "saturated_cast c (Some S) Dst Src x =
    (if x < b_lowest S Dst then h_Underflow S Dst else if b_max S Dst < x then h_Overflow S Dst else x)"
proof -
  have "b_lowest S Dst \<le> x \<Longrightarrow> x \<le> b_max S Dst \<Longrightarrow> in_type Dst x"
    using assms(1) by (auto simp: bounds_ok_def in_type_def)
  then show ?thesis
    using saturated_impl_flags [OF range_flags [OF assms(1-3)]] assms(4) by (simp add: saturated_cast_def)
qed

lemma saturate_custom_negative:
  assumes "bounds_ok S uint32_t" "in_type int32_t x" "x < 0" "b_max S uint32_t < type_max int32_t"
  shows "saturated_cast c (Some S) uint32_t int32_t x = h_Overflow S uint32_t"
proof -
  have "common_type int32_t uint32_t = uint32_t" by (simp add: common_type_def promote_def)
  moreover have "static_cast uint32_t x = x + 2 ^ 32"
    using as_unsigned_of_signed [of int32_t x] assms(2,3) by (simp add: as_unsigned_def)
  ultimately have "is_overflow (DstRangeRelationToSrcRange S uint32_t int32_t x)"
    using assms range_flags_unsigned [OF assms(1,2)] by (auto simp: in_type_def type_lowest_def type_max_def digits_def)
  then show ?thesis by (simp add: saturated_cast_def saturated_cast_impl_def)
qed

section \<open>Properties\<close>

text \<open>C20: range checks are exact for every pair of integer types: the underflow flag is set
  exactly for the values below the range of the destination, the overflow flag exactly for
  the values above it; the test that uses a cheaper comparison where there is one agrees;
  \<open>checked_cast\<close> returns the value unchanged or traps, and \<open>strict_cast\<close> compiles only if no
  value of the source type is out of range.\<close>

theorem range_check_exact:
  assumes "in_type Src x"
  shows "DstRangeRelationToSrcRange numeric_limits Dst Src x =
      \<lparr>is_underflow = x < type_lowest Dst, is_overflow = type_max Dst < x\<rparr> \<and>
    (IsValueInRangeForNumericType Dst Src x \<longleftrightarrow> in_type Dst x) \<and>
    checked_cast Dst Src x = (if in_type Dst x then Some x else None) \<and>
    (strict_cast Dst Src x = (if \<forall>y. in_type Src y \<longrightarrow> in_type Dst y then Some x else None))"
proof -
  have "StaticDstRangeRelationToSrcRange Dst Src = NUMERIC_RANGE_CONTAINED \<longleftrightarrow> (\<forall>y. in_type Src y \<longrightarrow> in_type Dst y)"
    using contained_in_type [of Dst Src] in_type_max [of Src] in_type_lowest [of Src] contained_iff [of Dst Src]
    by (metis in_type_def)
  then show ?thesis
    using assms by (auto simp: range_exact in_range_exact checked_cast_def strict_cast_def)
qed

theorem range_check_exact_witness:
  "checked_cast uint8_t int32_t 200 = Some 200 \<and> checked_cast uint8_t int32_t (-1) = None"
  using range_check_exact [of int32_t 200 uint8_t] range_check_exact [of int32_t "-1" uint8_t]
  by (simp add: in_type_def type_max_def type_lowest_def digits_def)

text \<open>C19: comparing values of two integer types, signed or unsigned and of any width, compares
  the numbers: all six operators of the checked and strict numeric types, also where no type
  holds both operands.\<close>

theorem safe_compare_exact:
  assumes "in_type L x" "in_type R y"
  shows "(SafeCompare IsLess L R x y \<longleftrightarrow> x < y) \<and> (SafeCompare IsLessOrEqual L R x y \<longleftrightarrow> x \<le> y) \<and>
    (SafeCompare IsGreater L R x y \<longleftrightarrow> x > y) \<and> (SafeCompare IsGreaterOrEqual L R x y \<longleftrightarrow> x \<ge> y) \<and>
    (SafeCompare IsEqual L R x y \<longleftrightarrow> x = y) \<and> (SafeCompare IsNotEqual L R x y \<longleftrightarrow> x \<noteq> y)"
  by (intro conjI SafeCompare_exact [OF assms] compare_exact)

theorem safe_compare_exact_witness:
  "SafeCompare IsLess int64_t uint64_t (-1) 1 \<and> \<not> SafeCompare IsEqual int32_t uint32_t (-1) 4294967295"
  using safe_compare_exact [of int64_t "-1" uint64_t 1] safe_compare_exact [of int32_t "-1" uint32_t 4294967295]
  by (simp add: in_type_def type_max_def type_lowest_def digits_def)

text \<open>\<open>saturated_cast\<close> with the default limits returns the value of the destination type
  nearest to its argument, whether it is evaluated at compile time or takes the fast path.\<close>

theorem saturated_cast_clamps:
  assumes "in_type Src x"
  shows "saturated_cast constant_evaluated None Dst Src x = clamp Dst x"
  using SaturateFastOp_clamp [OF assms] saturated_default_impl [OF assms] by (simp add: saturated_cast_def)

end
