(* ===== verification/Checked_Math.thy ===== *)
theory Checked_Math
  imports Safe_Conversions
begin

text \<open>
  Checked arithmetic on integers: \<open>base/numerics/checked_math_impl.h\<close>, \<open>checked_math.h\<close>,
  \<open>safe_math_shared_impl.h\<close> and \<open>safe_math_clang_gcc_impl.h\<close>.  An operation \<open>Do\<close> is given
  the types of its operands and of its result, the operands and the value the result
  variable has before the call; it returns whether it succeeded and the value the variable
  has afterwards.  The compiler is a parameter: the portable implementation, or the one on
  the overflow builtins of GCC or of Clang.
\<close>

datatype math_build = Portable | Gcc | Clang

section \<open>The overflow builtins\<close>

text \<open>Documented as: computed with unlimited precision, stored wrapped around, and the return
  value tells whether the stored value differs.\<close>

definition builtin_overflow :: "int_type \<Rightarrow> int \<Rightarrow> bool \<times> int" where
  "builtin_overflow V r = (static_cast V r \<noteq> r, static_cast V r)"

definition fast_add_supported :: "math_build \<Rightarrow> bool" where
  "fast_add_supported b \<longleftrightarrow> b \<noteq> Portable"

definition fast_mul_supported :: "math_build \<Rightarrow> int_type \<Rightarrow> int_type \<Rightarrow> bool" where
  "fast_mul_supported b T U =
     (case b of
        Portable \<Rightarrow> False
      | Gcc \<Rightarrow> True
      | Clang \<Rightarrow>
          (IsTypeInRangeForNumericType int64_t T \<and> IsTypeInRangeForNumericType int64_t U) \<or>
          (IsTypeInRangeForNumericType uint64_t T \<and> IsTypeInRangeForNumericType uint64_t U))"

definition CheckedAddFastOp :: "int_type \<Rightarrow> int \<Rightarrow> int \<Rightarrow> bool \<times> int" where
  "CheckedAddFastOp V x y = (case builtin_overflow V (x + y) of (overflow, r) \<Rightarrow> (\<not> overflow, r))"

definition CheckedSubFastOp :: "int_type \<Rightarrow> int \<Rightarrow> int \<Rightarrow> bool \<times> int" where
  "CheckedSubFastOp V x y = (case builtin_overflow V (x - y) of (overflow, r) \<Rightarrow> (\<not> overflow, r))"

definition CheckedMulFastOp :: "int_type \<Rightarrow> int \<Rightarrow> int \<Rightarrow> bool \<times> int" where
  "CheckedMulFastOp V x y = (case builtin_overflow V (x * y) of (overflow, r) \<Rightarrow> (\<not> overflow, r))"

section \<open>Addition, subtraction and multiplication\<close>

definition CheckedAddImpl :: "int_type \<Rightarrow> int \<Rightarrow> int \<Rightarrow> int \<Rightarrow> bool \<times> int" where
  "CheckedAddImpl T x y result =
     (let UnsignedDst = make_unsigned T; SignedDst = make_signed T;
          ux = static_cast UnsignedDst x; uy = static_cast UnsignedDst y;
          uresult = static_cast UnsignedDst (ux + uy) in
      if (if is_signed T then static_cast SignedDst ((uresult XOR ux) AND (uresult XOR uy)) < 0
          else uresult < uy)
      then (False, result)
      else (True, static_cast T uresult))"

definition add_promotion :: "int_type \<Rightarrow> int_type \<Rightarrow> int_type" where
  "add_promotion T U =
     (let FastPromotion = fst (FastIntegerArithmeticPromotion T U) in
      if IntegerBitsPlusSign FastPromotion > IntegerBitsPlusSign int64_t then fst (BigEnoughPromotion T U)
      else FastPromotion)"

definition CheckedAddOp :: "math_build \<Rightarrow> int_type \<Rightarrow> int_type \<Rightarrow> int_type \<Rightarrow> int \<Rightarrow> int \<Rightarrow> int \<Rightarrow> bool \<times> int" where
  "CheckedAddOp b T U V x y result =
     (if fast_add_supported b then CheckedAddFastOp V x y
      else
        let Promotion = add_promotion T U in
        if \<not> IsValueInRangeForNumericType Promotion T x \<or> \<not> IsValueInRangeForNumericType Promotion U y
        then (False, result)
        else
          let (is_valid, presult) =
            (if IsIntegerArithmeticSafe Promotion T U
             then (True, static_cast Promotion (static_cast Promotion x + static_cast Promotion y))
             else CheckedAddImpl Promotion (static_cast Promotion x) (static_cast Promotion y) 0) in
          if \<not> is_valid \<or> \<not> IsValueInRangeForNumericType V Promotion presult then (False, result)
          else (True, static_cast V presult))"

definition CheckedSubImpl :: "int_type \<Rightarrow> int \<Rightarrow> int \<Rightarrow> int \<Rightarrow> bool \<times> int" where
  "CheckedSubImpl T x y result =
     (let UnsignedDst = make_unsigned T; SignedDst = make_signed T;
          ux = static_cast UnsignedDst x; uy = static_cast UnsignedDst y;
          uresult = static_cast UnsignedDst (ux - uy) in
      if (if is_signed T then static_cast SignedDst ((uresult XOR ux) AND (ux XOR uy)) < 0 else x < y)
      then (False, result)
      else (True, static_cast T uresult))"

definition CheckedSubOp :: "math_build \<Rightarrow> int_type \<Rightarrow> int_type \<Rightarrow> int_type \<Rightarrow> int \<Rightarrow> int \<Rightarrow> int \<Rightarrow> bool \<times> int" where
  "CheckedSubOp b T U V x y result =
     (if fast_add_supported b then CheckedSubFastOp V x y
      else
        let Promotion = add_promotion T U in
        if \<not> IsValueInRangeForNumericType Promotion T x \<or> \<not> IsValueInRangeForNumericType Promotion U y
        then (False, result)
        else
          let (is_valid, presult) =
            (if IsIntegerArithmeticSafe Promotion T U
             then (True, static_cast Promotion (static_cast Promotion x - static_cast Promotion y))
             else CheckedSubImpl Promotion (static_cast Promotion x) (static_cast Promotion y) 0) in
          if \<not> is_valid \<or> \<not> IsValueInRangeForNumericType V Promotion presult then (False, result)
          else (True, static_cast V presult))"

definition CheckedMulImpl :: "int_type \<Rightarrow> int \<Rightarrow> int \<Rightarrow> int \<Rightarrow> bool \<times> int" where
  "CheckedMulImpl T x y result =
     (let UnsignedDst = make_unsigned T; SignedDst = make_signed T;
          ux = SafeUnsignedAbs T x; uy = SafeUnsignedAbs T y;
          uresult = static_cast UnsignedDst (ux * uy);
          is_negative = is_signed T \<and> static_cast SignedDst (x XOR y) < 0 in
      if uy > of_bool (\<not> is_signed T \<or> is_negative) \<and>
         ux > static_cast (common_type T UnsignedDst) (type_max T + of_bool is_negative) div uy
      then (False, result)
      else (True, static_cast T (if is_negative then static_cast (promote UnsignedDst) (0 - uresult) else uresult)))"

definition CheckedMulOp :: "math_build \<Rightarrow> int_type \<Rightarrow> int_type \<Rightarrow> int_type \<Rightarrow> int \<Rightarrow> int \<Rightarrow> int \<Rightarrow> bool \<times> int" where
  "CheckedMulOp b T U V x y result =
     (if fast_mul_supported b T U then CheckedMulFastOp V x y
      else
        let Promotion = fst (FastIntegerArithmeticPromotion T U) in
        if (\<not> IsValueInRangeForNumericType Promotion T x \<or> \<not> IsValueInRangeForNumericType Promotion U y)
           \<and> x \<noteq> 0 \<and> y \<noteq> 0
        then (False, result)
        else
          let (is_valid, presult) =
            (if fast_mul_supported b Promotion Promotion
             then CheckedMulFastOp Promotion (static_cast Promotion x) (static_cast Promotion y)
             else if IsIntegerArithmeticSafe Promotion T U
             then (True, static_cast Promotion (static_cast Promotion x * static_cast Promotion y))
             else CheckedMulImpl Promotion (static_cast Promotion x) (static_cast Promotion y) 0) in
          if \<not> is_valid \<or> \<not> IsValueInRangeForNumericType V Promotion presult then (False, result)
          else (True, static_cast V presult))"

section \<open>Division and remainder\<close>

text \<open>Division of C++ truncates: \<open>sdiv\<close> and \<open>smod\<close>.\<close>

definition division_wraps :: "int_type \<Rightarrow> int_type \<Rightarrow> int \<Rightarrow> int \<Rightarrow> bool" where
  "division_wraps T U x y \<longleftrightarrow>
     (let Promotion = fst (BigEnoughPromotion T U) in
      is_signed T \<and> is_signed U \<and> IsTypeInRangeForNumericType T Promotion \<and>
      static_cast Promotion x = type_lowest Promotion \<and> y = static_cast U (-1))"

definition CheckedDivOp :: "int_type \<Rightarrow> int_type \<Rightarrow> int_type \<Rightarrow> int \<Rightarrow> int \<Rightarrow> int \<Rightarrow> bool \<times> int" where
  "CheckedDivOp T U V x y result =
     (if y = 0 then (False, result)
      else
        let Promotion = fst (BigEnoughPromotion T U) in
        if division_wraps T U x y then (False, result)
        else if (\<not> IsValueInRangeForNumericType Promotion T x \<or> \<not> IsValueInRangeForNumericType Promotion U y) \<and> x \<noteq> 0
        then (False, result)
        else
          let presult = static_cast Promotion (static_cast Promotion x sdiv static_cast Promotion y) in
          if \<not> IsValueInRangeForNumericType V Promotion presult then (False, result)
          else (True, static_cast V presult))"

definition CheckedModOp :: "int_type \<Rightarrow> int_type \<Rightarrow> int_type \<Rightarrow> int \<Rightarrow> int \<Rightarrow> int \<Rightarrow> bool \<times> int" where
  "CheckedModOp T U V x y result =
     (if y = 0 then (False, result)
      else
        let Promotion = fst (BigEnoughPromotion T U) in
        if division_wraps T U x y then (True, 0)
        else
          let presult = static_cast Promotion (static_cast Promotion x smod static_cast Promotion y) in
          if \<not> IsValueInRangeForNumericType V Promotion presult then (False, result)
          else (True, static_cast V (static_cast Promotion presult)))"

section \<open>Shifts and bitwise operations\<close>

text \<open>The operand of the left shift is promoted; what is shifted out of it is lost.\<close>

definition CheckedLshOp :: "int_type \<Rightarrow> int_type \<Rightarrow> int_type \<Rightarrow> int \<Rightarrow> int \<Rightarrow> int \<Rightarrow> bool \<times> int" where
  "CheckedLshOp T U V x shift result =
     (if \<not> IsValueNegative T x \<and> as_unsigned U shift < as_unsigned int32_t (int (digits T)) then
        let result = static_cast V (static_cast (promote (make_unsigned T)) (push_bit (nat shift) (as_unsigned T x))) in
        (cpp_eq V T (drop_bit (nat shift) result) x, result)
      else if \<not> is_signed T \<or> x \<noteq> 0 \<or> as_unsigned U shift \<noteq> as_unsigned int32_t (int (digits T))
      then (False, result)
      else (True, 0))"

definition CheckedRshOp :: "int_type \<Rightarrow> int_type \<Rightarrow> int_type \<Rightarrow> int \<Rightarrow> int \<Rightarrow> int \<Rightarrow> bool \<times> int" where
  "CheckedRshOp T U V x shift result =
     (if as_unsigned U shift \<ge> int (IntegerBitsPlusSign T) then (False, result)
      else
        let tmp = drop_bit (nat shift) x in
        if \<not> IsValueInRangeForNumericType V T tmp then (False, result) else (True, static_cast V tmp))"

definition bitwise_type :: "int_type \<Rightarrow> int_type \<Rightarrow> int_type" where
  "bitwise_type T U = make_unsigned (MaxExponentPromotion T U)"

definition checked_bitwise :: "(int \<Rightarrow> int \<Rightarrow> int) \<Rightarrow> int_type \<Rightarrow> int_type \<Rightarrow> int_type \<Rightarrow> int \<Rightarrow> int \<Rightarrow> int \<Rightarrow> bool \<times> int" where
  "checked_bitwise f T U V x y result =
     (let result_type = bitwise_type T U;
          tmp = static_cast result_type (f (static_cast result_type x) (static_cast result_type y)) in
      if \<not> IsValueInRangeForNumericType V result_type tmp then (False, result) else (True, static_cast V tmp))"

definition CheckedAndOp :: "int_type \<Rightarrow> int_type \<Rightarrow> int_type \<Rightarrow> int \<Rightarrow> int \<Rightarrow> int \<Rightarrow> bool \<times> int" where
  "CheckedAndOp = checked_bitwise (AND)"

definition CheckedOrOp :: "int_type \<Rightarrow> int_type \<Rightarrow> int_type \<Rightarrow> int \<Rightarrow> int \<Rightarrow> int \<Rightarrow> bool \<times> int" where
  "CheckedOrOp = checked_bitwise (OR)"

definition CheckedXorOp :: "int_type \<Rightarrow> int_type \<Rightarrow> int_type \<Rightarrow> int \<Rightarrow> int \<Rightarrow> int \<Rightarrow> bool \<times> int" where
  "CheckedXorOp = checked_bitwise (XOR)"


definition CheckedMaxOp :: "int_type \<Rightarrow> int_type \<Rightarrow> int_type \<Rightarrow> int \<Rightarrow> int \<Rightarrow> int \<Rightarrow> bool \<times> int" where
  "CheckedMaxOp T U V x y result =
     (let result_type = MaxExponentPromotion T U;
          tmp = (if IsGreater T U x y then static_cast result_type x else static_cast result_type y) in
      if \<not> IsValueInRangeForNumericType V result_type tmp then (False, result) else (True, static_cast V tmp))"

definition CheckedMinOp :: "int_type \<Rightarrow> int_type \<Rightarrow> int_type \<Rightarrow> int \<Rightarrow> int \<Rightarrow> int \<Rightarrow> bool \<times> int" where
  "CheckedMinOp T U V x y result =
     (let result_type = LowestValuePromotion T U;
          tmp = (if IsLess T U x y then static_cast result_type x else static_cast result_type y) in
      if \<not> IsValueInRangeForNumericType V result_type tmp then (False, result) else (True, static_cast V tmp))"

section \<open>The overflow tests are exact\<close>

text \<open>The bit that is the sign when the value is read as signed.\<close>

definition neg_bit :: "int_type \<Rightarrow> int \<Rightarrow> bool" where
  "neg_bit T z \<longleftrightarrow> bit z (int_bits T - 1)"

lemma static_cast_neg: "static_cast (make_signed T) z < 0 \<longleftrightarrow> neg_bit T z"
  by (simp add: static_cast_def neg_bit_def)

lemma neg_bit_bitwise [simp]:
  "neg_bit T (x XOR y) \<longleftrightarrow> neg_bit T x \<noteq> neg_bit T y" "neg_bit T (x AND y) \<longleftrightarrow> neg_bit T x \<and> neg_bit T y"
  by (auto simp: neg_bit_def bit_simps)

lemma neg_bit_static_cast [simp]: "neg_bit T (static_cast (make_unsigned T) z) \<longleftrightarrow> neg_bit T z"
  by (simp add: neg_bit_def static_cast_def bit_simps)

lemma sign_bit: "is_signed T \<Longrightarrow> in_type T x \<Longrightarrow> neg_bit T x \<longleftrightarrow> x < 0"
  using static_cast_neg [of T x] by (simp add: make_signed_id)

lemma sign_bit_wrap:
  assumes "is_signed T" "- (2 ^ int_bits T) \<le> z" "z < 2 ^ int_bits T"
  shows "neg_bit T z \<longleftrightarrow>
    (if 0 \<le> z then 2 ^ (int_bits T - 1) \<le> z else - (2 ^ (int_bits T - 1)) \<le> z)"
proof -
  have "static_cast T z = (if z < - (2 ^ (int_bits T - 1)) then z + 2 ^ int_bits T
      else if z < 2 ^ (int_bits T - 1) then z else z - 2 ^ int_bits T)"
  proof (rule static_cast_exact)
    show "in_type T (if z < - (2 ^ (int_bits T - 1)) then z + 2 ^ int_bits T
      else if z < 2 ^ (int_bits T - 1) then z else z - 2 ^ int_bits T)"
      using assms by (cases T) (auto simp: in_type_signed)
    show "take_bit (int_bits T) z = take_bit (int_bits T)
       (if z < - (2 ^ (int_bits T - 1)) then z + 2 ^ int_bits T
      else if z < 2 ^ (int_bits T - 1) then z else z - 2 ^ int_bits T)"
      by (simp add: take_bit_eq_mod)
  qed
  then show ?thesis
    using assms static_cast_neg [of T z] by (cases T) (auto split: if_splits)
qed

text \<open>Success with the result exactly if it has the type; otherwise the variable keeps its value.\<close>

definition fits :: "int_type \<Rightarrow> int \<Rightarrow> int \<Rightarrow> bool \<times> int" where
  "fits V r result = (if in_type V r then (True, r) else (False, result))"

lemma CheckedAddImpl_exact:
  assumes "in_type T x" "in_type T y"
  shows "CheckedAddImpl T x y result = fits T (x + y) result"
proof -
  define U where "U = make_unsigned T"
  define r where "r = static_cast U (static_cast U x + static_cast U y)"
  have r: "r = static_cast U (x + y)"
    unfolding r_def U_def by (rule static_cast_cong) (metis make_unsigned_facts(2) order_refl take_bit_add take_bit_static_cast)
  have cast: "static_cast T r = static_cast T (x + y)"
    by (simp add: r U_def static_cast_static_cast)
  have "(if is_signed T then static_cast (make_signed T) ((r XOR static_cast U x) AND (r XOR static_cast U y)) < 0
      else r < static_cast U y) \<longleftrightarrow> \<not> in_type T (x + y)"
  proof (cases "is_signed T")
    case True
    have range: "- (2 ^ int_bits T) \<le> x + y" "x + y < 2 ^ int_bits T"
      using True assms by (cases T; auto simp: in_type_signed)+
    have "static_cast (make_signed T) ((r XOR static_cast U x) AND (r XOR static_cast U y)) < 0 \<longleftrightarrow>
        neg_bit T (x + y) \<noteq> neg_bit T x \<and> neg_bit T (x + y) \<noteq> neg_bit T y"
      by (simp add: static_cast_neg r U_def)
    also have "\<dots> \<longleftrightarrow> \<not> in_type T (x + y)"
      unfolding sign_bit [OF True assms(1)] sign_bit [OF True assms(2)] sign_bit_wrap [OF True range]
      using True assms by (auto simp: in_type_signed)
    finally show ?thesis using True by simp
  next
    case False
    then have "U = T" by (simp add: U_def make_unsigned_id)
    moreover have "\<not> in_type T (x + y) \<Longrightarrow> static_cast T (x + y) = x + y - 2 ^ int_bits T"
      using False assms by (intro static_cast_exact) (simp add: in_type_unsigned, simp only: take_bit_eq_mod minus_mod_self2)
    ultimately show ?thesis
      using False assms by (cases "in_type T (x + y)") (auto simp: r in_type_unsigned)
  qed
  then show ?thesis
    by (auto simp: CheckedAddImpl_def Let_def fits_def U_def [symmetric] r_def [symmetric] cast split: if_splits)
qed

lemma CheckedSubImpl_exact:
  assumes "in_type T x" "in_type T y"
  shows "CheckedSubImpl T x y result = fits T (x - y) result"
proof -
  define U where "U = make_unsigned T"
  define r where "r = static_cast U (static_cast U x - static_cast U y)"
  have r: "r = static_cast U (x - y)"
    unfolding r_def U_def by (rule static_cast_cong) (metis make_unsigned_facts(2) order_refl take_bit_diff take_bit_static_cast)
  have cast: "static_cast T r = static_cast T (x - y)"
    by (simp add: r U_def static_cast_static_cast)
  have "(if is_signed T then static_cast (make_signed T) ((r XOR static_cast U x) AND (static_cast U x XOR static_cast U y)) < 0
      else x < y) \<longleftrightarrow> \<not> in_type T (x - y)"
  proof (cases "is_signed T")
    case True
    have range: "- (2 ^ int_bits T) \<le> x - y" "x - y < 2 ^ int_bits T"
      using True assms by (cases T; auto simp: in_type_signed)+
    have "static_cast (make_signed T) ((r XOR static_cast U x) AND (static_cast U x XOR static_cast U y)) < 0 \<longleftrightarrow>
        neg_bit T (x - y) \<noteq> neg_bit T x \<and> neg_bit T x \<noteq> neg_bit T y"
      by (simp add: static_cast_neg r U_def)
    also have "\<dots> \<longleftrightarrow> \<not> in_type T (x - y)"
      unfolding sign_bit [OF True assms(1)] sign_bit [OF True assms(2)] sign_bit_wrap [OF True range]
      using True assms by (auto simp: in_type_signed)
    finally show ?thesis using True by simp
  next
    case False
    then show ?thesis using assms by (auto simp: in_type_unsigned)
  qed
  then show ?thesis
    by (auto simp: CheckedSubImpl_def Let_def fits_def U_def [symmetric] r_def [symmetric] cast split: if_splits)
qed

lemma int_div_less_iff:
  fixes a b M :: int
  assumes "0 < b"
  shows "M div b < a \<longleftrightarrow> M < a * b"
proof -
  have M: "M = (M div b) * b + M mod b" "0 \<le> M mod b" "M mod b < b"
    using assms by (simp_all add: div_mult_mod_eq)
  show ?thesis
  proof
    assume "M div b < a"
    then have "(M div b + 1) * b \<le> a * b" using assms by (intro mult_right_mono) auto
    then have "(M div b) * b + b \<le> a * b" by (simp add: distrib_right)
    then show "M < a * b" using M by linarith
  next
    assume "M < a * b"
    then have "(M div b) * b < a * b" using M by linarith
    then show "M div b < a" using assms by (simp add: mult_less_cancel_right)
  qed
qed

lemma CheckedMulImpl_exact:
  assumes "in_type T x" "in_type T y"
  shows "CheckedMulImpl T x y result = fits T (x * y) result"
proof -
  define neg where "neg \<longleftrightarrow> is_signed T \<and> (x < 0) \<noteq> (y < 0)"
  define M where "M = type_max T + of_bool neg"
  have neg: "(is_signed T \<and> static_cast (make_signed T) (x XOR y) < 0) \<longleftrightarrow> neg"
    using assms by (auto simp: static_cast_neg sign_bit neg_def)
  have M: "static_cast (common_type T (make_unsigned T)) M = M"
    by (rule static_cast_id) (cases T; simp add: M_def neg_def in_type_def common_type_def promote_def type_max_def type_lowest_def digits_def)
  have nn: "\<not> is_signed T \<Longrightarrow> 0 \<le> x \<and> 0 \<le> y" using assms by (simp add: unsigned_nonneg)
  have prod: "x * y = (if neg then - (\<bar>x\<bar> * \<bar>y\<bar>) else \<bar>x\<bar> * \<bar>y\<bar>)"
    using nn by (auto simp: neg_def abs_if not_less mult_less_0_iff)
  have fit: "in_type T (x * y) \<longleftrightarrow> \<bar>x\<bar> * \<bar>y\<bar> \<le> M"
  proof -
    define p where "p = \<bar>x\<bar> * \<bar>y\<bar>"
    have "0 \<le> p" by (simp add: p_def)
    moreover have "neg \<Longrightarrow> type_lowest T = - (type_max T + 1)"
      by (simp add: neg_def type_lowest_def type_max_def)
    ultimately show ?thesis
      unfolding prod in_type_def M_def p_def [symmetric]
      using type_max_pos(2) [of T] type_lowest_le [of T] by (cases neg; simp; linarith)
  qed
  have ok: "\<bar>y\<bar> > of_bool (\<not> is_signed T \<or> neg) \<and> \<bar>x\<bar> > M div \<bar>y\<bar> \<longleftrightarrow> \<not> in_type T (x * y)"
  proof -
    have x: "\<bar>x\<bar> \<le> M" if "\<not> is_signed T \<or> neg"
      using that assms nn by (auto simp: M_def in_type_def neg_def type_lowest_def type_max_def)
    have "0 \<le> M" by (simp add: M_def)
    consider "\<bar>y\<bar> = 0" | "\<bar>y\<bar> = 1" | "1 < \<bar>y\<bar>" by linarith
    then show ?thesis
      unfolding fit using x \<open>0 \<le> M\<close> int_div_less_iff [of "\<bar>y\<bar>" M "\<bar>x\<bar>"] by cases auto
  qed
  have "take_bit (int_bits T) (if neg then static_cast (promote (make_unsigned T)) (0 - static_cast (make_unsigned T) (\<bar>x\<bar> * \<bar>y\<bar>))
      else static_cast (make_unsigned T) (\<bar>x\<bar> * \<bar>y\<bar>)) = take_bit (int_bits T) (x * y)"
  proof -
    have "int_bits T \<le> int_bits (promote (make_unsigned T))" by (cases T) (simp_all add: promote_def)
    moreover have "take_bit (int_bits T) (- static_cast (make_unsigned T) (\<bar>x\<bar> * \<bar>y\<bar>)) = take_bit (int_bits T) (- (\<bar>x\<bar> * \<bar>y\<bar>))"
      by (rule take_bit_minus_cong) simp
    ultimately show ?thesis unfolding prod by simp
  qed
  then have "in_type T (x * y) \<Longrightarrow> static_cast T (if neg then static_cast (promote (make_unsigned T)) (0 - static_cast (make_unsigned T) (\<bar>x\<bar> * \<bar>y\<bar>))
      else static_cast (make_unsigned T) (\<bar>x\<bar> * \<bar>y\<bar>)) = x * y"
    using static_cast_exact by blast
  then show ?thesis
    unfolding CheckedMulImpl_def Let_def neg M_def [symmetric] M SafeUnsignedAbs_abs [OF assms(1)]
      SafeUnsignedAbs_abs [OF assms(2)] ok
    by (simp add: fits_def)
qed
section \<open>The promotions are wide enough\<close>

lemmas promotion_defs = FastIntegerArithmeticPromotion_def BigEnoughPromotion_def MaxExponentPromotion_def
  MaxExponent_def IsIntegerArithmeticSafe_def StaticDstRangeRelationToSrcRange_def TwiceWiderInteger_def digits_def

lemma add_promotion_fast [simp]: "add_promotion T U = fst (FastIntegerArithmeticPromotion T U)"
  by (cases T; cases U; simp add: add_promotion_def promotion_defs)

definition max_abs :: "int_type \<Rightarrow> int" where
  "max_abs T = (if is_signed T then 2 ^ digits T else type_max T)"

lemma abs_le_max_abs: "in_type T x \<Longrightarrow> \<bar>x\<bar> \<le> max_abs T"
  by (auto simp: in_type_def max_abs_def type_lowest_def type_max_def)

lemma fast_safe_bounds:
  assumes "P = fst (FastIntegerArithmeticPromotion T U)" "IsIntegerArithmeticSafe P T U"
  shows "max_abs T * max_abs U \<le> type_max P" "max_abs T + max_abs U \<le> type_max P"
    "\<not> is_signed P \<Longrightarrow> \<not> is_signed T \<and> \<not> is_signed U"
  using assms
  by (cases T; cases U; simp add: promotion_defs max_abs_def type_max_def)+

lemma in_type_abs: "\<bar>z\<bar> \<le> type_max P \<Longrightarrow> is_signed P \<or> 0 \<le> z \<Longrightarrow> in_type P z"
  by (auto simp: in_type_def type_lowest_def type_max_def)

lemma fast_safe_in_type:
  assumes "P = fst (FastIntegerArithmeticPromotion T U)" "IsIntegerArithmeticSafe P T U" "in_type T x" "in_type U y"
  shows "in_type P (x + y)" "in_type P (x * y)" "is_signed P \<or> y \<le> x \<Longrightarrow> in_type P (x - y)"
proof -
  have xy: "\<bar>x\<bar> \<le> max_abs T" "\<bar>y\<bar> \<le> max_abs U" using assms abs_le_max_abs by blast+
  have nn: "is_signed P \<or> 0 \<le> x \<and> 0 \<le> y"
    using fast_safe_bounds(3) [OF assms(1,2)] assms(3,4) unsigned_nonneg by blast
  have "\<bar>x + y\<bar> \<le> type_max P" "\<bar>x - y\<bar> \<le> type_max P"
    using xy fast_safe_bounds(2) [OF assms(1,2)] by linarith+
  then show "in_type P (x + y)" "is_signed P \<or> y \<le> x \<Longrightarrow> in_type P (x - y)"
    using nn by (auto intro!: in_type_abs)
  have "\<bar>x * y\<bar> \<le> max_abs T * max_abs U"
    using xy by (simp add: abs_mult mult_mono')
  then show "in_type P (x * y)"
    using nn fast_safe_bounds(1) [OF assms(1,2)] by (intro in_type_abs) auto
qed

text \<open>The types a result is stored in: the common type, or that of the left operand in an
  assignment.\<close>

definition dst_ok :: "int_type \<Rightarrow> int_type \<Rightarrow> int_type \<Rightarrow> bool" where
  "dst_ok T U V \<longleftrightarrow> V = T \<or> V = MaxExponentPromotion T U"

lemma fast_contained:
  assumes "snd (BigEnoughPromotion T U)" "dst_ok T U V"
  defines "P \<equiv> fst (FastIntegerArithmeticPromotion T U)" 
  shows "StaticDstRangeRelationToSrcRange P T = NUMERIC_RANGE_CONTAINED"
    "StaticDstRangeRelationToSrcRange P U = NUMERIC_RANGE_CONTAINED"
    "StaticDstRangeRelationToSrcRange P V = NUMERIC_RANGE_CONTAINED"
proof -
  show PT: "StaticDstRangeRelationToSrcRange P T = NUMERIC_RANGE_CONTAINED" and
    PU: "StaticDstRangeRelationToSrcRange P U = NUMERIC_RANGE_CONTAINED"
    using assms(1) unfolding P_def by (cases T; cases U; simp add: promotion_defs)+
  show "StaticDstRangeRelationToSrcRange P V = NUMERIC_RANGE_CONTAINED"
    using assms(2) PT PU by (auto simp: dst_ok_def MaxExponentPromotion_def)
qed

text \<open>A difference that wrapped around is too large for every such type.\<close>

lemma fast_wrapped_difference:
  assumes "P = fst (FastIntegerArithmeticPromotion T U)" "IsIntegerArithmeticSafe P T U" "dst_ok T U V"
    and "in_type T x" "in_type U y" "\<not> in_type P (x - y)"
  shows "\<not> in_type V (static_cast P (x - y))" "\<not> in_type V (x - y)"
proof -
  have "\<not> (is_signed P \<or> y \<le> x)" using fast_safe_in_type(3) [OF assms(1,2,4,5)] assms(6) by blast
  then have u: "\<not> is_signed P" "x < y" by simp_all
  then have TU: "\<not> is_signed T" "\<not> is_signed U" using fast_safe_bounds(3) [OF assms(1,2)] by blast+
  then have V: "\<not> is_signed V" using assms(3) by (auto simp: dst_ok_def MaxExponentPromotion_def split: if_splits)
  then show "\<not> in_type V (x - y)" using u(2) by (auto simp: in_type_unsigned)
  have bound: "type_max U + type_max V < 2 ^ int_bits P"
    using assms(1-3) TU unfolding dst_ok_def
    by (cases T; cases U; auto simp: promotion_defs type_max_def)
  have y: "0 \<le> x" "y \<le> type_max U" using assms(4,5) TU by (simp_all add: unsigned_nonneg in_type_def)
  have P: "type_max P = 2 ^ int_bits P - 1" using u(1) by (simp add: type_max_def digits_def)
  have "0 \<le> x - y + 2 ^ int_bits P" using y bound type_max_pos(2) [of V] by linarith
  then have "static_cast P (x - y) = x - y + 2 ^ int_bits P"
    using u by (intro static_cast_exact) (simp add: in_type_unsigned, simp only: take_bit_eq_mod mod_add_self2)
  then show "\<not> in_type V (static_cast P (x - y))"
    using y bound by (simp add: in_type_def)
qed

section \<open>Exactness of the operations\<close>

lemma fast_op_exact: "in_type V r \<Longrightarrow> builtin_overflow V r = (False, r)" "\<not> in_type V r \<Longrightarrow> fst (builtin_overflow V r)"
  by (simp_all add: builtin_overflow_def static_cast_id_iff)

text \<open>The end of the three operations: the promoted result is checked and stored.\<close>

lemma store_promoted:
  assumes "in_type P r \<Longrightarrow> d = (True, r)"
    and "\<not> in_type P r \<Longrightarrow> \<not> fst d \<or> in_type P (snd d) \<and> \<not> in_type V (snd d)"
  shows "(let (is_valid, presult) = d in
      if \<not> is_valid \<or> \<not> IsValueInRangeForNumericType V P presult then (False, result)
      else (True, static_cast V presult)) = (if in_type P r then fits V r result else (False, result))"
  using assms by (cases d; cases "in_type P r") (auto simp: in_range_exact fits_def)

lemma add_portable:
  assumes "in_type T x" "in_type U y" "P = fst (FastIntegerArithmeticPromotion T U)"
  shows "CheckedAddOp Portable T U V x y result =
    (if in_type P x \<and> in_type P y \<and> in_type P (x + y) then fits V (x + y) result else (False, result))"
proof (cases "in_type P x \<and> in_type P y")
  case True
  have "IsIntegerArithmeticSafe P T U \<Longrightarrow> in_type P (x + y)"
    using fast_safe_in_type(1) [OF assms(3) _ assms(1,2)] .
  then show ?thesis
    using True
    unfolding CheckedAddOp_def fast_add_supported_def add_promotion_fast assms(3) [symmetric] Let_def
    by (subst store_promoted [where r = "x + y", unfolded Let_def])
      (auto simp: in_range_exact assms(1,2) CheckedAddImpl_exact fits_def)
qed (auto simp: CheckedAddOp_def fast_add_supported_def in_range_exact assms)

lemma sub_portable:
  assumes "in_type T x" "in_type U y" "P = fst (FastIntegerArithmeticPromotion T U)" "dst_ok T U V"
  shows "CheckedSubOp Portable T U V x y result =
    (if in_type P x \<and> in_type P y \<and> in_type P (x - y) then fits V (x - y) result else (False, result))"
proof (cases "in_type P x \<and> in_type P y")
  case True
  have "IsIntegerArithmeticSafe P T U \<Longrightarrow> \<not> in_type P (x - y) \<Longrightarrow> \<not> in_type V (static_cast P (x - y))"
    using fast_wrapped_difference(1) [OF assms(3) _ assms(4,1,2)] .
  then show ?thesis
    using True
    unfolding CheckedSubOp_def fast_add_supported_def add_promotion_fast assms(3) [symmetric] Let_def
    by (subst store_promoted [where r = "x - y", unfolded Let_def])
      (auto simp: in_range_exact assms(1,2) CheckedSubImpl_exact fits_def)
qed (auto simp: CheckedSubOp_def fast_add_supported_def in_range_exact assms)

lemma mul_promoted:
  assumes "in_type T x" "in_type U y" "P = fst (FastIntegerArithmeticPromotion T U)" "\<not> fast_mul_supported b T U"
  shows "CheckedMulOp b T U V x y result =
    (if (in_type P x \<and> in_type P y \<or> x = 0 \<or> y = 0) \<and> in_type P (x * y) then fits V (x * y) result
     else (False, result))"
proof (cases "in_type P x \<and> in_type P y \<or> x = 0 \<or> y = 0")
  case True
  then have prod: "static_cast P x * static_cast P y = x * y" by auto
  have "IsIntegerArithmeticSafe P T U \<Longrightarrow> in_type P (x * y)"
    using fast_safe_in_type(2) [OF assms(3) _ assms(1,2)] .
  then show ?thesis
    using True
    unfolding CheckedMulOp_def assms(3) [symmetric] Let_def
    by (subst store_promoted [where r = "x * y", unfolded Let_def])
      (auto simp: in_range_exact assms(1,2,4) CheckedMulImpl_exact fits_def prod CheckedMulFastOp_def
        builtin_overflow_def static_cast_id_iff)
qed (auto simp: CheckedMulOp_def in_range_exact assms)
lemma add_sound:
  assumes "in_type T x" "in_type U y" "CheckedAddOp b T U V x y result = (True, r)"
  shows "r = x + y \<and> in_type V r"
proof (cases "b = Portable")
  case True
  then show ?thesis
    using assms(3) add_portable [OF assms(1,2) refl, of V result] by (auto simp: fits_def split: if_splits)
next
  case False
  then have "(static_cast V (x + y) = x + y \<and> static_cast V (x + y) = r)"
    using assms(3) by (simp add: CheckedAddOp_def fast_add_supported_def CheckedAddFastOp_def builtin_overflow_def)
  then show ?thesis using static_cast_in [of V "x + y"] by simp
qed

lemma sub_sound:
  assumes "in_type T x" "in_type U y" "dst_ok T U V" "CheckedSubOp b T U V x y result = (True, r)"
  shows "r = x - y \<and> in_type V r"
proof (cases "b = Portable")
  case True
  then show ?thesis
    using assms(4) sub_portable [OF assms(1,2) refl assms(3), of result] by (auto simp: fits_def split: if_splits)
next
  case False
  then have "(static_cast V (x - y) = x - y \<and> static_cast V (x - y) = r)"
    using assms(4) by (simp add: CheckedSubOp_def fast_add_supported_def CheckedSubFastOp_def builtin_overflow_def)
  then show ?thesis using static_cast_in [of V "x - y"] by simp
qed

lemma mul_sound:
  assumes "in_type T x" "in_type U y" "CheckedMulOp b T U V x y result = (True, r)"
  shows "r = x * y \<and> in_type V r"
proof (cases "fast_mul_supported b T U")
  case True
  then have "(static_cast V (x * y) = x * y \<and> static_cast V (x * y) = r)"
    using assms(3) by (simp add: CheckedMulOp_def CheckedMulFastOp_def builtin_overflow_def)
  then show ?thesis using static_cast_in [of V "x * y"] by simp
next
  case False
  then show ?thesis
    using assms(3) mul_promoted [OF assms(1,2) refl, of b V result] by (auto simp: fits_def split: if_splits)
qed

text \<open>The operand types for which no representable result is rejected.\<close>

definition complete_for :: "math_build \<Rightarrow> int_type \<Rightarrow> int_type \<Rightarrow> bool" where
  "complete_for b T U \<longleftrightarrow> b = Gcc \<or> snd (BigEnoughPromotion T U)"

lemma arith_complete:
  assumes "in_type T x" "in_type U y" "dst_ok T U V" "complete_for b T U"
  shows "in_type V (x + y) \<Longrightarrow> CheckedAddOp b T U V x y result = (True, x + y)"
    "in_type V (x - y) \<Longrightarrow> CheckedSubOp b T U V x y result = (True, x - y)"
    "in_type V (x * y) \<Longrightarrow> CheckedMulOp b T U V x y result = (True, x * y)"
proof -
  let ?P = "fst (FastIntegerArithmeticPromotion T U)"
  have P: "in_type ?P x \<and> in_type ?P y \<and> (\<forall>r. in_type V r \<longrightarrow> in_type ?P r)" if "snd (BigEnoughPromotion T U)"
    using fast_contained [OF that assms(3)] contained_in_type assms(1,2) by blast
  show "in_type V (x + y) \<Longrightarrow> CheckedAddOp b T U V x y result = (True, x + y)"
  proof (cases b)
    case Portable
    then show "in_type V (x + y) \<Longrightarrow> ?thesis" using P assms(4) add_portable [OF assms(1,2) refl] by (simp add: complete_for_def fits_def)
  qed (simp_all add: CheckedAddOp_def fast_add_supported_def CheckedAddFastOp_def builtin_overflow_def)
  show "in_type V (x - y) \<Longrightarrow> CheckedSubOp b T U V x y result = (True, x - y)"
  proof (cases b)
    case Portable
    then show "in_type V (x - y) \<Longrightarrow> ?thesis" using P assms(4) sub_portable [OF assms(1,2) refl assms(3)] by (simp add: complete_for_def fits_def)
  qed (simp_all add: CheckedSubOp_def fast_add_supported_def CheckedSubFastOp_def builtin_overflow_def)
  show "in_type V (x * y) \<Longrightarrow> CheckedMulOp b T U V x y result = (True, x * y)"
  proof (cases "fast_mul_supported b T U")
    case False
    then show "in_type V (x * y) \<Longrightarrow> ?thesis"
      using P assms(4) mul_promoted [OF assms(1,2) refl False]
      by (auto simp: complete_for_def fast_mul_supported_def fits_def)
  qed (simp add: CheckedMulOp_def CheckedMulFastOp_def builtin_overflow_def)
qed

section \<open>Division\<close>

lemma big_static:
  "division_wraps T U x y \<Longrightarrow> T = fst (BigEnoughPromotion T U) \<and> MaxExponentPromotion T U = T"
  "snd (BigEnoughPromotion T U) \<Longrightarrow> is_signed U \<Longrightarrow>
     type_lowest T \<le> type_lowest (fst (BigEnoughPromotion T U)) \<Longrightarrow> is_signed T \<and> T = fst (BigEnoughPromotion T U)"
  unfolding division_wraps_def
  by (cases T; cases U; simp add: promotion_defs Let_def IsTypeInRangeForNumericType_def type_lowest_def)+

lemma sdiv_abs_le: "\<bar>x sdiv y\<bar> \<le> \<bar>x\<bar>" for x y :: int
proof (cases "y = 0")
  case False
  have "0 \<le> \<bar>x\<bar> div \<bar>y\<bar>" by (simp add: div_int_pos_iff)
  moreover have "\<bar>x\<bar> div \<bar>y\<bar> \<le> \<bar>x\<bar>" using False zdiv_mono2 [of "\<bar>x\<bar>" 1 "\<bar>y\<bar>"] by simp
  moreover have "\<bar>sgn x * sgn y * q\<bar> \<le> \<bar>q\<bar>" for q by (simp add: abs_mult sgn_if)
  ultimately show ?thesis unfolding signed_divide_int_def by (metis abs_of_nonneg order.trans)
qed simp

lemma sdiv_nonneg: "0 \<le> x \<Longrightarrow> 0 \<le> y \<Longrightarrow> 0 \<le> x sdiv y" for x y :: int
  by (simp add: signed_divide_int_def pos_imp_zdiv_nonneg_iff sgn_if)

lemma smod_in_type: "in_type P x \<Longrightarrow> in_type P (x smod y)"
proof -
  assume x: "in_type P x"
  have "\<bar>x\<bar> mod \<bar>y\<bar> \<le> \<bar>x\<bar>" "0 \<le> \<bar>x\<bar> mod \<bar>y\<bar>"
    by (cases "y = 0"; simp add: zmod_le_nonneg_dividend)+
  then have "0 \<le> x \<Longrightarrow> 0 \<le> x smod y \<and> x smod y \<le> x" "x < 0 \<Longrightarrow> x \<le> x smod y \<and> x smod y \<le> 0"
    by (auto simp: signed_modulo_int_def sgn_if)
  then show ?thesis using x type_lowest_le [of P] type_max_pos(2) [of P] unfolding in_type_def by linarith
qed

text \<open>Without the one overflow, a quotient has the type of its operands.\<close>

lemma sdiv_in_type:
  assumes "in_type P x" "in_type P y" "\<not> (is_signed P \<and> x = type_lowest P \<and> y = - 1)"
  shows "in_type P (x sdiv y)"
proof (cases "is_signed P")
  case True
  have le: "\<bar>x sdiv y\<bar> \<le> \<bar>x\<bar>" by (rule sdiv_abs_le)
  have max: "type_max P = - type_lowest P - 1" using True by (simp add: type_max_def type_lowest_def)
  show ?thesis
  proof (cases "x = type_lowest P")
    case x: True
    then have "x sdiv y \<noteq> - x" using True assms(3) max type_max_pos(2) [of P] by simp
    then show ?thesis using le x max type_max_pos(2) [of P] unfolding in_type_def by linarith
  next
    case False
    then show ?thesis using le assms(1) max unfolding in_type_def by linarith
  qed
next
  case False
  then show ?thesis
    using assms sdiv_abs_le [of x y] sdiv_nonneg [of x y] by (auto simp: in_type_unsigned)
qed

lemma div_cases:
  assumes "in_type T x" "in_type U y" "P = fst (BigEnoughPromotion T U)" "y \<noteq> 0" "\<not> division_wraps T U x y"
    and "in_type P x \<and> in_type P y \<or> x = 0"
  shows "CheckedDivOp T U V x y result = fits V (x sdiv y) result"
proof -
  have "in_type P (x sdiv y)"
  proof (cases "x = 0")
    case False
    then have P: "in_type P x" "in_type P y" using assms(6) by simp_all
    have "\<not> (is_signed P \<and> x = type_lowest P \<and> y = - 1)"
    proof
      assume *: "is_signed P \<and> x = type_lowest P \<and> y = - 1"
      then have U: "is_signed U" using assms(2) unsigned_nonneg [of U y] by auto
      have "snd (BigEnoughPromotion T U)"
        using * assms(3) U by (cases T; cases U; simp add: promotion_defs Let_def)
      then have "is_signed T \<and> T = P"
        using big_static(2) [OF _ U] assms(1,3) * by (simp add: in_type_def)
      then have "division_wraps T U x y"
        using * U assms(2,3) by (auto simp: division_wraps_def Let_def IsTypeInRangeForNumericType_def contained_iff)
      then show False using assms(5) by simp
    qed
    then show ?thesis using sdiv_in_type P by blast
  qed simp
  then show ?thesis
    using assms(1,2,4-6)
    by (auto simp: CheckedDivOp_def Let_def assms(3) [symmetric] in_range_exact fits_def)
qed

lemma div_exact:
  assumes "in_type T x" "in_type U y" "dst_ok T U V" "snd (BigEnoughPromotion T U)" "y \<noteq> 0"
  shows "CheckedDivOp T U V x y result = fits V (x sdiv y) result"
proof (cases "division_wraps T U x y")
  case True
  have V: "V = T" "T = fst (BigEnoughPromotion T U)"
    using big_static(1) [OF True] assms(3) unfolding dst_ok_def by metis+
  then have "x = type_lowest T" "y = static_cast U (-1)" "is_signed U" "is_signed T"
    using True assms(1) by (auto simp: division_wraps_def Let_def)
  moreover from this have "y = - 1" by (cases U) (simp_all add: static_cast_def)
  ultimately have "\<not> in_type V (x sdiv y)"
    using V by (simp add: in_type_def type_lowest_def type_max_def)
  then show ?thesis using True assms(5) by (simp add: CheckedDivOp_def fits_def Let_def)
next
  case False
  then show ?thesis
    using div_cases [OF assms(1,2) refl assms(5)] big_enough_contained [OF assms(4)] assms(1,2) by blast
qed

lemma div_sound:
  assumes "in_type T x" "in_type U y" "CheckedDivOp T U V x y result = (True, r)"
  shows "y \<noteq> 0 \<and> r = x sdiv y \<and> in_type V r"
proof -
  let ?P = "fst (BigEnoughPromotion T U)"
  have "y \<noteq> 0" "\<not> division_wraps T U x y" "in_type ?P x \<and> in_type ?P y \<or> x = 0"
    using assms by (auto simp: CheckedDivOp_def Let_def in_range_exact split: if_splits)
  then show ?thesis
    using div_cases [OF assms(1,2) refl, of V result] assms(3) by (auto simp: fits_def split: if_splits)
qed

lemma mod_exact:
  assumes "in_type T x" "in_type U y" "snd (BigEnoughPromotion T U)" "y \<noteq> 0"
  shows "CheckedModOp T U V x y result = fits V (x smod y) result"
proof (cases "division_wraps T U x y")
  case True
  then have "y = - 1" by (auto simp: division_wraps_def Let_def static_cast_def)
  then show ?thesis using True by (simp add: CheckedModOp_def fits_def signed_modulo_int_def)
next
  case False
  then show ?thesis
    using assms big_enough_contained [OF assms(3)] smod_in_type
    by (simp add: CheckedModOp_def fits_def Let_def in_range_exact)
qed

text \<open>The remainder of a 64-bit signed and a 64-bit unsigned number is taken after the
  conversion to unsigned, without the range check the other operations make.\<close>

lemma mod_mixed_wraps:
  assumes "in_type int64_t x" "x < 0" "in_type uint64_t y" "y \<noteq> 0"
  shows "CheckedModOp int64_t uint64_t uint64_t x y result = (True, (x + 2 ^ 64) mod y)"
proof -
  have P: "fst (BigEnoughPromotion int64_t uint64_t) = uint64_t" by (simp add: promotion_defs Let_def)
  have "static_cast uint64_t x = x + 2 ^ 64"
    using as_unsigned_of_signed [of int64_t x] assms(1,2) by (simp add: as_unsigned_def)
  moreover have "0 \<le> x + 2 ^ 64" "0 < y" "y < 2 ^ 64" using assms by (simp_all add: in_type_signed in_type_unsigned)
  moreover from this have "(x + 2 ^ 64) smod y = (x + 2 ^ 64) mod y"
    by (simp add: signed_modulo_int_def sgn_if)
  moreover have "in_type uint64_t ((x + 2 ^ 64) mod y)"
  proof -
    have "in_type uint64_t z" if "0 \<le> z" "z < y" for z
      using that \<open>y < 2 ^ 64\<close> by (simp add: in_type_unsigned)
    then show ?thesis using \<open>0 < y\<close> by simp
  qed
  ultimately show ?thesis
    using assms by (simp add: CheckedModOp_def P Let_def division_wraps_def in_range_exact)
qed
section \<open>Shifts, bitwise operations and extrema\<close>

text \<open>The conversion to unsigned pushes a negative shift out of range.\<close>

lemma as_unsigned_nonneg: "in_type U s \<Longrightarrow> 0 \<le> s \<Longrightarrow> as_unsigned U s = s"
proof -
  assume "in_type U s" "0 \<le> s"
  then have "in_type (make_unsigned U) s"
    by (cases U) (simp_all add: in_type_def type_lowest_def type_max_def digits_def)
  then show ?thesis by (simp add: as_unsigned_def)
qed

lemma as_unsigned_negative: "in_type U s \<Longrightarrow> s < 0 \<Longrightarrow> 128 \<le> as_unsigned U s"
proof -
  assume s: "in_type U s" "s < 0"
  then have "is_signed U" using unsigned_nonneg [of U s] by auto
  then show ?thesis
    using s by (cases U) (simp_all add: as_unsigned_of_signed in_type_signed)
qed

lemma shift_in_range:
  assumes "in_type U s" "0 \<le> n" "n < 128"
  shows "as_unsigned U s < n \<longleftrightarrow> 0 \<le> s \<and> s < n" "as_unsigned U s = n \<longleftrightarrow> s = n" "as_unsigned U s \<ge> n \<longleftrightarrow> s < 0 \<or> n \<le> s"
  using as_unsigned_nonneg [OF assms(1)] as_unsigned_negative [OF assms(1)] assms(2,3)
  by (cases "0 \<le> s"; auto)+

lemma drop_bit_in_type: "in_type T x \<Longrightarrow> in_type T (drop_bit n x)"
proof -
  assume x: "in_type T x"
  have "drop_bit n x = x div 2 ^ n" by (simp add: drop_bit_eq_div)
  have "0 \<le> x \<Longrightarrow> 0 \<le> x div 2 ^ n \<and> x div 2 ^ n \<le> x"
    using zdiv_mono2 [of x 1 "2 ^ n"] by (simp add: pos_imp_zdiv_nonneg_iff)
  moreover have "x < 0 \<Longrightarrow> x \<le> x div 2 ^ n \<and> x div 2 ^ n < 0"
    using zdiv_mono2_neg [of x 1 "2 ^ n"] by (simp add: pos_imp_zdiv_neg_iff)
  ultimately show ?thesis
    using x type_lowest_le [of T] type_max_pos(2) [of T] unfolding in_type_def drop_bit_eq_div by linarith
qed

lemma lsh_exact:
  assumes "in_type T x" "in_type U s"
  shows "fst (CheckedLshOp T U T x s result) \<longleftrightarrow>
      0 \<le> x \<and> 0 \<le> s \<and> in_type T (x * 2 ^ nat s) \<and> (nat s < digits T \<or> nat s = digits T \<and> x = 0 \<and> is_signed T)"
    "fst (CheckedLshOp T U T x s result) \<Longrightarrow> snd (CheckedLshOp T U T x s result) = x * 2 ^ nat s"
proof -
  have d: "as_unsigned int32_t (int (digits T)) = int (digits T)" "int (digits T) < 128"
    using digits_bounds [of T] as_unsigned_nonneg [of int32_t "int (digits T)"]
    by (simp_all add: in_type_def type_lowest_def type_max_def digits_def [of int32_t])
  have neg: "IsValueNegative T x \<longleftrightarrow> x < 0"
    using assms(1) unsigned_nonneg [of T x] by (auto simp: IsValueNegative_def not_less)
  have cast: "static_cast T (static_cast (promote (make_unsigned T)) z) = static_cast T z" for z
    by (rule static_cast_static_cast) (cases T; simp add: promote_def)
  have roundtrip: "drop_bit (nat s) (static_cast T (x * 2 ^ nat s)) = x \<longleftrightarrow> in_type T (x * 2 ^ nat s)" if "0 \<le> x"
  proof (cases "in_type T (x * 2 ^ nat s)")
    case False
    have "0 \<le> x * 2 ^ nat s" using that by simp
    then have "type_max T < x * 2 ^ nat s" using False type_lowest_le [of T] by (auto simp: in_type_def)
    then have "static_cast T (x * 2 ^ nat s) < x * 2 ^ nat s"
      using static_cast_in [of T "x * 2 ^ nat s"] unfolding in_type_def by linarith
    then show ?thesis using False by (simp add: drop_bit_eq_div flip: int_div_less_iff)
  qed (simp add: drop_bit_eq_div)
  have eq: "cpp_eq T T (drop_bit (nat s) (static_cast T z)) x \<longleftrightarrow> drop_bit (nat s) (static_cast T z) = x" for z
    using assms(1) drop_bit_in_type static_cast_in by (intro cpp_cmp_same_sign(3)) auto
  note defs = CheckedLshOp_def Let_def d(1) neg cast eq push_bit_eq_mult shift_in_range [OF assms(2) _ d(2)]
  show "fst (CheckedLshOp T U T x s result) \<longleftrightarrow>
      0 \<le> x \<and> 0 \<le> s \<and> in_type T (x * 2 ^ nat s) \<and> (nat s < digits T \<or> nat s = digits T \<and> x = 0 \<and> is_signed T)"
    using roundtrip as_unsigned_nonneg [OF assms(1)] by (auto simp: defs)
  show "fst (CheckedLshOp T U T x s result) \<Longrightarrow> snd (CheckedLshOp T U T x s result) = x * 2 ^ nat s"
    using roundtrip as_unsigned_nonneg [OF assms(1)] by (auto simp: defs split: if_splits)
qed

lemma rsh_exact:
  assumes "in_type T x" "in_type U s"
  shows "CheckedRshOp T U V x s result =
    (if 0 \<le> s \<and> s < int (int_bits T) then fits V (x div 2 ^ nat s) result else (False, result))"
proof -
  have "int (int_bits T) < 128" using int_bits_cases [of T] by auto
  then show ?thesis
    using shift_in_range(3) [OF assms(2), of "int (int_bits T)"] drop_bit_in_type [OF assms(1), of "nat s"]
    by (auto simp: CheckedRshOp_def Let_def in_range_exact fits_def drop_bit_eq_div)
qed

lemma bitwise_exact:
  "checked_bitwise f T U V x y result =
     fits V (static_cast (bitwise_type T U) (f (static_cast (bitwise_type T U) x) (static_cast (bitwise_type T U) y))) result"
  by (simp add: checked_bitwise_def Let_def in_range_exact fits_def)

lemma max_exact:
  assumes "in_type T x" "in_type U y"
  shows "CheckedMaxOp T U V x y result = fits V (max x y) result"
proof -
  let ?M = "MaxExponentPromotion T U"
  have M: "type_max T \<le> type_max ?M" "type_max U \<le> type_max ?M"
    by (auto simp: MaxExponentPromotion_def MaxExponent_def type_max_mono [symmetric])
  have "type_lowest ?M \<le> max x y"
    using assms unfolding MaxExponentPromotion_def in_type_def by auto
  then have "in_type ?M (max x y)" using assms M by (auto simp: in_type_def max_def)
  then show ?thesis
    using assms by (auto simp: CheckedMaxOp_def Let_def compare_exact in_range_exact fits_def max_def)
qed

lemma min_exact:
  assumes "in_type T x" "in_type U y"
  shows "CheckedMinOp T U V x y result = fits V (min x y) result"
proof -
  let ?M = "LowestValuePromotion T U"
  have "type_lowest ?M \<le> type_lowest T" "type_lowest ?M \<le> type_lowest U" "?M = T \<or> ?M = U"
    by (cases T; cases U; simp add: LowestValuePromotion_def MaxExponent_def type_lowest_def digits_def)+
  then have "in_type ?M (min x y)" using assms unfolding in_type_def by (auto simp: min_def)
  then show ?thesis
    using assms by (auto simp: CheckedMinOp_def Let_def compare_exact in_range_exact fits_def min_def)
qed
section \<open>Properties\<close>

text \<open>C10: checked addition, subtraction and multiplication never report a wrong result: for
  every pair of operand types, every compiler and a result stored in the common type or in
  the type of the left operand, success means that the stored number is the exact result.
  Conversely every representable result is accepted, with the builtins of GCC for all types,
  otherwise for all operand types that fit into one 64-bit type; there the builds agree.\<close>

theorem checked_arith_exact:
  assumes "in_type T x" "in_type U y" "dst_ok T U V"
  shows "(CheckedAddOp b T U V x y result = (True, r) \<longrightarrow> r = x + y \<and> in_type V r) \<and>
    (CheckedSubOp b T U V x y result = (True, r) \<longrightarrow> r = x - y \<and> in_type V r) \<and>
    (CheckedMulOp b T U V x y result = (True, r) \<longrightarrow> r = x * y \<and> in_type V r) \<and>
    (complete_for b T U \<longrightarrow>
      (in_type V (x + y) \<longrightarrow> CheckedAddOp b T U V x y result = (True, x + y)) \<and>
      (in_type V (x - y) \<longrightarrow> CheckedSubOp b T U V x y result = (True, x - y)) \<and>
      (in_type V (x * y) \<longrightarrow> CheckedMulOp b T U V x y result = (True, x * y)))"
  using add_sound [OF assms(1,2)] sub_sound [OF assms] mul_sound [OF assms(1,2)] arith_complete [OF assms] by blast

theorem checked_arith_exact_witness:
  "CheckedSubOp Portable uint32_t int32_t uint32_t 5 (-7) 0 = (True, 12) \<and>
   CheckedMulOp Gcc int64_t uint64_t int64_t (-3) 5 0 = (True, -15)"
proof -
  have "complete_for Portable uint32_t int32_t" "complete_for Gcc int64_t uint64_t"
    "dst_ok uint32_t int32_t uint32_t" "dst_ok int64_t uint64_t int64_t"
    by (simp_all add: complete_for_def dst_ok_def promotion_defs Let_def)
  then show ?thesis
    using checked_arith_exact [of uint32_t 5 int32_t "-7" uint32_t Portable 0 0]
      checked_arith_exact [of int64_t "-3" uint64_t 5 int64_t Gcc 0 0]
    by (simp add: in_type_def type_max_def type_lowest_def digits_def)
qed

text \<open>Checked division never reports a wrong quotient, for all operand types; where one
  type holds both operands, division by a number other than zero succeeds exactly if the
  quotient, rounded towards zero, is representable, and so does the remainder.  A zero
  divisor always fails.\<close>

theorem checked_division_exact:
  assumes "in_type T x" "in_type U y" "dst_ok T U V"
  shows "(CheckedDivOp T U V x y result = (True, r) \<longrightarrow> y \<noteq> 0 \<and> r = x sdiv y \<and> in_type V r) \<and>
    (snd (BigEnoughPromotion T U) \<and> y \<noteq> 0 \<longrightarrow>
      CheckedDivOp T U V x y result = (if in_type V (x sdiv y) then (True, x sdiv y) else (False, result)) \<and>
      CheckedModOp T U V x y result = (if in_type V (x smod y) then (True, x smod y) else (False, result))) \<and>
    CheckedDivOp T U V x 0 result = (False, result) \<and> CheckedModOp T U V x 0 result = (False, result)"
proof -
  have "CheckedDivOp T U V x 0 result = (False, result)" "CheckedModOp T U V x 0 result = (False, result)"
    by (simp_all only: CheckedDivOp_def CheckedModOp_def if_True simp_thms)
  then show ?thesis
    using div_sound [OF assms(1,2)] div_exact [OF assms, unfolded fits_def] mod_exact [OF assms(1,2), unfolded fits_def]
    by blast
qed

end
