(* ===== verification/Checked_Numeric.thy ===== *)
theory Checked_Numeric
  imports Checked_Math
begin

text \<open>
  The class \<open>CheckedNumeric\<close> of \<open>base/numerics/checked_math.h\<close> for integer types: a value
  with a validity flag, on which the operations of the previous theory are composed into
  expressions.  The contract of one operation is the locale \<open>checked_op\<close>: success means that
  the stored value is the one a mathematical specification gives, for the operand types the
  contract allows.  It is interpreted by the operations of the code, and what is proved in it
  once carries over to all of them.  The remainder is allowed only on operand types that fit
  into one type: on mixed 64-bit operands it stores a wrong value (\<open>mod_mixed_wraps\<close>).
\<close>

section \<open>The class\<close>

record checked_numeric =
  cn_is_valid :: bool
  cn_value :: int

definition CheckedNumericState :: "int_type \<Rightarrow> int_type \<Rightarrow> int \<Rightarrow> bool \<Rightarrow> checked_numeric" where
  "CheckedNumericState T Src value is_valid =
     \<lparr>cn_is_valid = is_valid \<and> IsValueInRangeForNumericType T Src value, cn_value = static_cast T value\<rparr>"

definition CheckedNumeric :: "int_type \<Rightarrow> int_type \<Rightarrow> int \<Rightarrow> checked_numeric" where
  "CheckedNumeric T Src value = CheckedNumericState T Src value True"

definition cn_IsValid :: "int_type \<Rightarrow> int_type \<Rightarrow> checked_numeric \<Rightarrow> bool" where
  "cn_IsValid T Dst c \<longleftrightarrow> cn_is_valid c \<and> IsValueInRangeForNumericType Dst T (cn_value c)"


definition AssignIfValid :: "int_type \<Rightarrow> int_type \<Rightarrow> checked_numeric \<Rightarrow> int \<Rightarrow> bool \<times> int" where
  "AssignIfValid T Dst c result =
     (if cn_IsValid T Dst c then (True, static_cast Dst (cn_value c)) else (False, result))"

text \<open>\<open>None\<close>: the check handler traps.\<close>

definition ValueOrDie :: "int_type \<Rightarrow> int_type \<Rightarrow> checked_numeric \<Rightarrow> int option" where
  "ValueOrDie T Dst c = (if cn_IsValid T Dst c then Some (static_cast Dst (cn_value c)) else None)"

definition ValueOrDefault :: "int_type \<Rightarrow> int_type \<Rightarrow> int_type \<Rightarrow> checked_numeric \<Rightarrow> int \<Rightarrow> int option" where
  "ValueOrDefault T Dst Src c default_value =
     (if cn_IsValid T Dst c then Some (static_cast Dst (cn_value c)) else checked_cast Dst Src default_value)"

definition NegateWrapper :: "int_type \<Rightarrow> int \<Rightarrow> int" where
  "NegateWrapper T value = static_cast T (static_cast (make_unsigned T) 0 - static_cast (make_unsigned T) value)"


definition cn_negate :: "int_type \<Rightarrow> checked_numeric \<Rightarrow> checked_numeric" where
  "cn_negate T c =
     CheckedNumericState T T (NegateWrapper T (cn_value c))
       (cn_IsValid T T c \<and> (\<not> is_signed T \<or> NegateWrapper T (cn_value c) \<noteq> type_lowest T))"


definition cn_Abs :: "int_type \<Rightarrow> checked_numeric \<Rightarrow> checked_numeric" where
  "cn_Abs T c = (if \<not> IsValueNegative T (cn_value c) then c else cn_negate T c)"

definition cn_UnsignedAbs :: "int_type \<Rightarrow> checked_numeric \<Rightarrow> checked_numeric" where
  "cn_UnsignedAbs T c =
     CheckedNumericState (make_unsigned T) (make_unsigned T) (SafeUnsignedAbs T (cn_value c)) (cn_is_valid c)"

text \<open>A plain operand is wrapped as a valid one.  \<open>Do\<close> is called only if both are valid; the
  result variable starts as zero.\<close>

type_synonym math_op = "int_type \<Rightarrow> int_type \<Rightarrow> int_type \<Rightarrow> int \<Rightarrow> int \<Rightarrow> int \<Rightarrow> bool \<times> int"

definition MathOp :: "math_op \<Rightarrow> int_type \<Rightarrow> int_type \<Rightarrow> int_type \<Rightarrow> checked_numeric \<Rightarrow> checked_numeric \<Rightarrow> checked_numeric" where
  "MathOp M T L R lhs rhs =
     (let (is_valid, result) =
        (if cn_IsValid L L lhs \<and> cn_IsValid R R rhs then M L R T (cn_value lhs) (cn_value rhs) 0 else (False, 0)) in
      CheckedNumericState T T result is_valid)"

definition CheckMathOp :: "math_op \<Rightarrow> (int_type \<Rightarrow> int_type \<Rightarrow> int_type) \<Rightarrow>
    int_type \<Rightarrow> int_type \<Rightarrow> checked_numeric \<Rightarrow> checked_numeric \<Rightarrow> checked_numeric" where
  "CheckMathOp M result_type L R lhs rhs = MathOp M (result_type L R) L R lhs rhs"

text \<open>The variadic form: the arguments are folded from the left.\<close>

fun CheckMathOps :: "math_op \<Rightarrow> (int_type \<Rightarrow> int_type \<Rightarrow> int_type) \<Rightarrow>
    int_type \<times> checked_numeric \<Rightarrow> (int_type \<times> checked_numeric) list \<Rightarrow> int_type \<times> checked_numeric" where
  "CheckMathOps M result_type lhs [] = lhs"
| "CheckMathOps M result_type (L, lhs) ((R, rhs) # args) =
     CheckMathOps M result_type (result_type L R, CheckMathOp M result_type L R lhs rhs) args"

definition cn_assign_op :: "math_op \<Rightarrow> int_type \<Rightarrow> int_type \<Rightarrow> checked_numeric \<Rightarrow> checked_numeric \<Rightarrow> checked_numeric" where
  "cn_assign_op M T R c rhs =
     (let (is_valid, result) =
        (if cn_is_valid c \<and> cn_IsValid R R rhs then M T R T (cn_value c) (cn_value rhs) 0 else (False, 0)) in
      CheckedNumericState T T result is_valid)"

definition cn_increment :: "math_build \<Rightarrow> int_type \<Rightarrow> checked_numeric \<Rightarrow> checked_numeric" where
  "cn_increment b T c = cn_assign_op (CheckedAddOp b) T int32_t c (CheckedNumeric int32_t int32_t 1)"

definition cn_decrement :: "math_build \<Rightarrow> int_type \<Rightarrow> checked_numeric \<Rightarrow> checked_numeric" where
  "cn_decrement b T c = cn_assign_op (CheckedSubOp b) T int32_t c (CheckedNumeric int32_t int32_t 1)"

text \<open>Pointer arithmetic: \<open>elem_size\<close> is the size of the elements, \<open>uintptr_t\<close> and \<open>size_t\<close> have 64
  bits.\<close>

definition pointer_op :: "math_op \<Rightarrow> math_build \<Rightarrow> int_type \<Rightarrow> int \<Rightarrow> int \<Rightarrow> int \<Rightarrow> int option" where
  "pointer_op M b R elem_size lhs rhs =
     (let offset = CheckMathOp (CheckedMulOp b) MaxExponentPromotion uint64_t R
            (CheckedNumeric uint64_t uint64_t elem_size) (CheckedNumeric R R rhs);
          O_type = MaxExponentPromotion uint64_t R in
      ValueOrDie (MaxExponentPromotion uint64_t O_type) uint64_t
        (CheckMathOp M MaxExponentPromotion uint64_t O_type (CheckedNumeric uint64_t uint64_t lhs) offset))"

definition pointer_plus :: "math_build \<Rightarrow> int_type \<Rightarrow> int \<Rightarrow> int \<Rightarrow> int \<Rightarrow> int option" where
  "pointer_plus b = pointer_op (CheckedAddOp b) b"

definition pointer_minus :: "math_build \<Rightarrow> int_type \<Rightarrow> int \<Rightarrow> int \<Rightarrow> int \<Rightarrow> int option" where
  "pointer_minus b = pointer_op (CheckedSubOp b) b"

section \<open>The contract of an operation\<close>

definition cn_ok :: "int_type \<Rightarrow> checked_numeric \<Rightarrow> bool" where
  "cn_ok T c \<longleftrightarrow> in_type T (cn_value c)"

lemma state_ok [simp]: "cn_ok T (CheckedNumericState T Src v ok)"
  by (simp add: cn_ok_def CheckedNumericState_def)

lemma cn_IsValid_self: "cn_ok T c \<Longrightarrow> cn_IsValid T T c \<longleftrightarrow> cn_is_valid c"
  by (simp add: cn_IsValid_def cn_ok_def in_range_exact)

locale checked_op =
  fixes Do :: math_op
    and result_type :: "int_type \<Rightarrow> int_type \<Rightarrow> int_type"
    and allowed :: "int_type \<Rightarrow> int_type \<Rightarrow> bool"
    and spec :: "int_type \<Rightarrow> int_type \<Rightarrow> int \<Rightarrow> int \<Rightarrow> int option"
  assumes sound: "in_type T x \<Longrightarrow> in_type U y \<Longrightarrow> V = T \<or> V = result_type T U \<Longrightarrow> allowed T U \<Longrightarrow>
    Do T U V x y result = (True, r) \<Longrightarrow> spec T U x y = Some r \<and> in_type V r"
begin

lemma MathOp_sound:
  assumes "cn_ok L lhs" "cn_ok R rhs" "T = L \<or> T = result_type L R" "allowed L R" "cn_is_valid (MathOp Do T L R lhs rhs)"
  shows "cn_is_valid lhs \<and> cn_is_valid rhs \<and>
    spec L R (cn_value lhs) (cn_value rhs) = Some (cn_value (MathOp Do T L R lhs rhs))"
proof -
  obtain r where r: "cn_is_valid lhs" "cn_is_valid rhs" "Do L R T (cn_value lhs) (cn_value rhs) 0 = (True, r)"
    "cn_value (MathOp Do T L R lhs rhs) = static_cast T r"
    using assms by (auto simp: MathOp_def CheckedNumericState_def cn_IsValid_self split: prod.splits if_splits)
  then have "spec L R (cn_value lhs) (cn_value rhs) = Some r \<and> in_type T r"
    using assms(1-4) sound unfolding cn_ok_def by blast
  then show ?thesis using r by simp
qed

lemma assign_sound:
  assumes "cn_ok T c" "cn_ok R rhs" "allowed T R" "cn_is_valid (cn_assign_op Do T R c rhs)"
  shows "cn_is_valid c \<and> cn_is_valid rhs \<and>
    spec T R (cn_value c) (cn_value rhs) = Some (cn_value (cn_assign_op Do T R c rhs))"
proof -
  have "cn_assign_op Do T R c rhs = MathOp Do T T R c rhs"
    using assms(1) by (simp add: cn_assign_op_def MathOp_def cn_IsValid_self)
  then show ?thesis using MathOp_sound [of T c R rhs T] assms by simp
qed

text \<open>The variadic form computes the fold of the specification, with the types of the results so far.\<close>

lemma CheckMathOps_sound:
  assumes "cn_ok L lhs" "\<forall>(R, rhs) \<in> set args. cn_ok R rhs" "\<And>T U. allowed T U"
    and "CheckMathOps Do result_type (L, lhs) args = (T, c)" "cn_is_valid c"
  shows "cn_is_valid lhs \<and> cn_ok T c \<and>
    foldl (\<lambda>(L, acc) (R, rhs). (result_type L R, Option.bind acc (\<lambda>x. spec L R x (cn_value rhs)))) (L, Some (cn_value lhs)) args =
      (T, Some (cn_value c))"
  using assms(1,2,4,5)
proof (induction args arbitrary: L lhs)
  case (Cons a args)
  obtain R rhs where a: "a = (R, rhs)" by fastforce
  let ?m = "CheckMathOp Do result_type L R lhs rhs"
  have m: "cn_ok (result_type L R) ?m" by (simp add: CheckMathOp_def MathOp_def split: prod.splits)
  have IH: "cn_is_valid ?m \<and> cn_ok T c \<and>
      foldl (\<lambda>(L, acc) (R, rhs). (result_type L R, Option.bind acc (\<lambda>x. spec L R x (cn_value rhs))))
        (result_type L R, Some (cn_value ?m)) args = (T, Some (cn_value c))"
    using Cons.IH [OF m] Cons.prems a by simp
  then have "cn_is_valid lhs \<and> spec L R (cn_value lhs) (cn_value rhs) = Some (cn_value ?m)"
    using MathOp_sound [of L lhs R rhs "result_type L R"] Cons.prems assms(3) a by (simp add: CheckMathOp_def)
  then show ?case using IH a by simp
qed simp

end

interpretation add_op: checked_op "CheckedAddOp b" MaxExponentPromotion "\<lambda>T U. True" "\<lambda>T U x y. Some (x + y)" for b
  by unfold_locales (use add_sound in blast)

interpretation sub_op: checked_op "CheckedSubOp b" MaxExponentPromotion "\<lambda>T U. True" "\<lambda>T U x y. Some (x - y)" for b
  by unfold_locales (use sub_sound dst_ok_def in blast)

interpretation mul_op: checked_op "CheckedMulOp b" MaxExponentPromotion "\<lambda>T U. True" "\<lambda>T U x y. Some (x * y)" for b
  by unfold_locales (use mul_sound in blast)

interpretation div_op: checked_op CheckedDivOp MaxExponentPromotion "\<lambda>T U. True"
  "\<lambda>T U x y. if y = 0 then None else Some (x sdiv y)"
proof unfold_locales
  fix T x U y V result r
  assume "in_type T x" "in_type U y" "CheckedDivOp T U V x y result = (True, r)"
  then have "y \<noteq> 0 \<and> r = x sdiv y \<and> in_type V r" by (rule div_sound)
  then show "(if y = 0 then None else Some (x sdiv y)) = Some r \<and> in_type V r" by auto
qed

interpretation mod_op: checked_op CheckedModOp MaxExponentPromotion "\<lambda>T U. snd (BigEnoughPromotion T U)"
  "\<lambda>T U x y. if y = 0 then None else Some (x smod y)"
proof unfold_locales
  fix T x U y V result r
  assume m: "in_type T x" "in_type U y" "snd (BigEnoughPromotion T U)" "CheckedModOp T U V x y result = (True, r)"
  then have "y \<noteq> 0" by (auto simp: CheckedModOp_def)
  then show "(if y = 0 then None else Some (x smod y)) = Some r \<and> in_type V r"
    using m mod_exact [OF m(1-3), of V result] by (auto simp: fits_def split: if_splits)
qed

text \<open>A bitwise operation works on the representations in the unsigned type of the larger width.\<close>

lemma bitwise_sound:
  assumes "checked_bitwise f T U V x y result = (True, r)" "\<And>n a b. take_bit n (f a b) = f (take_bit n a) (take_bit n b)"
  shows "r = take_bit (int_bits (bitwise_type T U)) (f x y) \<and> in_type V r"
proof -
  let ?B = "bitwise_type T U"
  have u: "\<not> is_signed ?B" by (cases "MaxExponentPromotion T U") (simp_all add: bitwise_type_def)
  have "static_cast ?B (f (static_cast ?B x) (static_cast ?B y)) = take_bit (int_bits ?B) (f x y)"
    using u by (simp add: static_cast_def assms(2))
  then show ?thesis using assms(1) by (auto simp: bitwise_exact fits_def split: if_splits)
qed

interpretation and_op: checked_op CheckedAndOp bitwise_type "\<lambda>T U. True"
  "\<lambda>T U x y. Some (take_bit (int_bits (bitwise_type T U)) (x AND y))"
  by unfold_locales (use bitwise_sound [of "(AND)"] in \<open>auto simp: CheckedAndOp_def take_bit_and\<close>)

interpretation or_op: checked_op CheckedOrOp bitwise_type "\<lambda>T U. True"
  "\<lambda>T U x y. Some (take_bit (int_bits (bitwise_type T U)) (x OR y))"
  by unfold_locales (use bitwise_sound [of "(OR)"] in \<open>auto simp: CheckedOrOp_def take_bit_or\<close>)

interpretation xor_op: checked_op CheckedXorOp bitwise_type "\<lambda>T U. True"
  "\<lambda>T U x y. Some (take_bit (int_bits (bitwise_type T U)) (x XOR y))"
  by unfold_locales (use bitwise_sound [of "(XOR)"] in \<open>auto simp: CheckedXorOp_def take_bit_xor\<close>)

interpretation max_op: checked_op CheckedMaxOp MaxExponentPromotion "\<lambda>T U. True" "\<lambda>T U x y. Some (max x y)"
  by unfold_locales (auto simp: max_exact fits_def split: if_splits)

interpretation min_op: checked_op CheckedMinOp LowestValuePromotion "\<lambda>T U. True" "\<lambda>T U x y. Some (min x y)"
  by unfold_locales (auto simp: min_exact fits_def split: if_splits)

interpretation lsh_op: checked_op CheckedLshOp "\<lambda>T U. T" "\<lambda>T U. True"
  "\<lambda>T U x s. if 0 \<le> x \<and> 0 \<le> s then Some (x * 2 ^ nat s) else None"
proof unfold_locales
  fix T x U s V result r
  assume "in_type T x" "in_type U s" "V = T \<or> V = T" "CheckedLshOp T U V x s result = (True, r)"
  then show "(if 0 \<le> x \<and> 0 \<le> s then Some (x * 2 ^ nat s) else None) = Some r \<and> in_type V r"
    using lsh_exact [of T x U s result] by auto
qed

interpretation rsh_op: checked_op CheckedRshOp "\<lambda>T U. T" "\<lambda>T U. True" "\<lambda>T U x s. if 0 \<le> s then Some (x div 2 ^ nat s) else None"
  by unfold_locales (auto simp: rsh_exact fits_def split: if_splits)

section \<open>Unary operations\<close>

lemma NegateWrapper_cast: "NegateWrapper T v = static_cast T (- v)"
proof -
  have "take_bit (int_bits T) (- static_cast (make_unsigned T) v) = take_bit (int_bits T) (- v)"
    by (rule take_bit_minus_cong) simp
  then show ?thesis unfolding NegateWrapper_def by (intro static_cast_cong) simp
qed

lemma negate_signed:
  assumes "is_signed T" "in_type T v"
  shows "NegateWrapper T v \<noteq> type_lowest T \<longleftrightarrow> in_type T (- v)" "in_type T (- v) \<Longrightarrow> NegateWrapper T v = - v"
proof -
  have wrap: "NegateWrapper T v = type_lowest T" if "\<not> in_type T (- v)"
  proof -
    have "v = type_lowest T" using that assms by (auto simp: in_type_def type_lowest_def type_max_def)
    moreover have "take_bit (int_bits T) (- type_lowest T) = take_bit (int_bits T) (type_lowest T)"
      using assms(1) by (cases T) (simp_all add: type_lowest_def digits_def take_bit_eq_mod)
    ultimately show ?thesis unfolding NegateWrapper_cast by (intro static_cast_exact) simp_all
  qed
  have "in_type T (- v) \<Longrightarrow> - v \<noteq> type_lowest T"
    using assms by (auto simp: in_type_def type_lowest_def type_max_def)
  then show "NegateWrapper T v \<noteq> type_lowest T \<longleftrightarrow> in_type T (- v)" "in_type T (- v) \<Longrightarrow> NegateWrapper T v = - v"
    using wrap by (auto simp: NegateWrapper_cast)
qed

lemma negate_exact:
  assumes "is_signed T" "cn_ok T c"
  shows "cn_is_valid (cn_negate T c) \<longleftrightarrow> cn_is_valid c \<and> in_type T (- cn_value c)"
    "cn_is_valid (cn_negate T c) \<Longrightarrow> cn_value (cn_negate T c) = - cn_value c"
proof -
  have "in_type T (NegateWrapper T v)" for v by (simp add: NegateWrapper_cast)
  then show "cn_is_valid (cn_negate T c) \<longleftrightarrow> cn_is_valid c \<and> in_type T (- cn_value c)"
    using assms negate_signed [of T "cn_value c"]
    by (auto simp: cn_negate_def CheckedNumericState_def cn_IsValid_self in_range_exact cn_ok_def)
  then show "cn_is_valid (cn_negate T c) \<Longrightarrow> cn_value (cn_negate T c) = - cn_value c"
    using assms negate_signed(2) [of T "cn_value c"]
    by (simp add: cn_negate_def CheckedNumericState_def cn_ok_def)
qed

text \<open>The negation of an unsigned number wraps around and is still called valid.\<close>

lemma negate_unsigned:
  assumes "\<not> is_signed T" "cn_ok T c" "cn_is_valid c" "0 < cn_value c"
  shows "cn_negate T c = \<lparr>cn_is_valid = True, cn_value = 2 ^ int_bits T - cn_value c\<rparr>"
proof -
  have "static_cast T (- cn_value c) = 2 ^ int_bits T - cn_value c"
    using assms by (intro static_cast_exact) (simp add: in_type_unsigned cn_ok_def, simp add: take_bit_eq_mod mod_simps)
  then show ?thesis
    using assms by (simp add: cn_negate_def CheckedNumericState_def cn_IsValid_self NegateWrapper_cast in_range_exact
        flip: static_cast_id_iff) (metis static_cast_in static_cast_id_iff in_range_exact)
qed

lemma abs_exact:
  assumes "cn_ok T c"
  shows "cn_is_valid (cn_Abs T c) \<Longrightarrow> cn_is_valid c \<and> cn_value (cn_Abs T c) = \<bar>cn_value c\<bar>"
    "cn_is_valid c \<Longrightarrow> in_type T \<bar>cn_value c\<bar> \<Longrightarrow> cn_is_valid (cn_Abs T c)"
proof -
  have neg: "IsValueNegative T (cn_value c) \<longleftrightarrow> is_signed T \<and> cn_value c < 0" by (simp add: IsValueNegative_def)
  have nn: "\<not> is_signed T \<Longrightarrow> 0 \<le> cn_value c" using assms unsigned_nonneg by (simp add: cn_ok_def)
  show "cn_is_valid (cn_Abs T c) \<Longrightarrow> cn_is_valid c \<and> cn_value (cn_Abs T c) = \<bar>cn_value c\<bar>"
    using negate_exact [OF _ assms] nn by (auto simp: cn_Abs_def neg split: if_splits)
  show "cn_is_valid c \<Longrightarrow> in_type T \<bar>cn_value c\<bar> \<Longrightarrow> cn_is_valid (cn_Abs T c)"
    using negate_exact(1) [OF _ assms] by (auto simp: cn_Abs_def neg)
qed

lemma unsigned_abs_exact:
  assumes "cn_ok T c"
  shows "cn_UnsignedAbs T c = \<lparr>cn_is_valid = cn_is_valid c, cn_value = \<bar>cn_value c\<bar>\<rparr>"
proof -
  have "in_type (make_unsigned T) \<bar>cn_value c\<bar>"
    using assms SafeUnsignedAbs_abs [of T "cn_value c"] static_cast_in
    by (metis SafeUnsignedAbs_def cn_ok_def)
  then show ?thesis
    using assms by (simp add: cn_UnsignedAbs_def SafeUnsignedAbs_abs cn_ok_def CheckedNumericState_def in_range_exact)
qed



section \<open>Expressions\<close>

text \<open>Expressions over checked numbers as a client writes them, with the type C++ gives them;
  \<open>Assign\<close> is an assignment operator such as \<open>+=\<close> on a temporary (\<open>++\<close> and \<open>--\<close> are \<open>+= 1\<close> and
  \<open>-= 1\<close>).  All operators of the class are there.\<close>

datatype binop = OpAdd | OpSub | OpMul | OpDiv | OpMod | OpLsh | OpRsh | OpAnd | OpOr | OpXor | OpMax | OpMin



fun op_Do :: "math_build \<Rightarrow> binop \<Rightarrow> math_op" where
  "op_Do b OpAdd = CheckedAddOp b"
| "op_Do b OpSub = CheckedSubOp b"
| "op_Do b OpMul = CheckedMulOp b"
| "op_Do b OpDiv = CheckedDivOp"
| "op_Do b OpMod = CheckedModOp"
| "op_Do b OpLsh = CheckedLshOp"
| "op_Do b OpRsh = CheckedRshOp"
| "op_Do b OpAnd = CheckedAndOp"
| "op_Do b OpOr = CheckedOrOp"
| "op_Do b OpXor = CheckedXorOp"
| "op_Do b OpMax = CheckedMaxOp"
| "op_Do b OpMin = CheckedMinOp"

fun op_type :: "binop \<Rightarrow> int_type \<Rightarrow> int_type \<Rightarrow> int_type" where
  "op_type OpLsh T U = T"
| "op_type OpRsh T U = T"
| "op_type OpAnd T U = bitwise_type T U"
| "op_type OpOr T U = bitwise_type T U"
| "op_type OpXor T U = bitwise_type T U"
| "op_type OpMin T U = LowestValuePromotion T U"
| "op_type _ T U = MaxExponentPromotion T U"



text \<open>What the operators mean on integers, given the types of the operands: the bitwise ones depend on
  the width.\<close>

fun op_spec :: "binop \<Rightarrow> int_type \<Rightarrow> int_type \<Rightarrow> int \<Rightarrow> int \<Rightarrow> int option" where
  "op_spec OpAdd T U x y = Some (x + y)"
| "op_spec OpSub T U x y = Some (x - y)"
| "op_spec OpMul T U x y = Some (x * y)"
| "op_spec OpDiv T U x y = (if y = 0 then None else Some (x sdiv y))"
| "op_spec OpMod T U x y = (if y = 0 then None else Some (x smod y))"
| "op_spec OpLsh T U x y = (if 0 \<le> x \<and> 0 \<le> y then Some (x * 2 ^ nat y) else None)"
| "op_spec OpRsh T U x y = (if 0 \<le> y then Some (x div 2 ^ nat y) else None)"
| "op_spec OpAnd T U x y = Some (take_bit (int_bits (bitwise_type T U)) (x AND y))"
| "op_spec OpOr T U x y = Some (take_bit (int_bits (bitwise_type T U)) (x OR y))"
| "op_spec OpXor T U x y = Some (take_bit (int_bits (bitwise_type T U)) (x XOR y))"
| "op_spec OpMax T U x y = Some (max x y)"
| "op_spec OpMin T U x y = Some (min x y)"





text \<open>The expressions on which the code is right: constants have their types, the remainder is taken of
  operands that fit into one type (\<open>mod_mixed_wraps\<close>), and a negated number is signed
  (\<open>negate_unsigned\<close>).\<close>

fun op_allowed :: "binop \<Rightarrow> int_type \<Rightarrow> int_type \<Rightarrow> bool" where
  "op_allowed OpMod T U = snd (BigEnoughPromotion T U)"
| "op_allowed _ T U = True"



interpretation expr_op: checked_op "op_Do b p" "op_type p" "op_allowed p" "op_spec p" for b p
proof unfold_locales
  fix T x U y V result r
  assume "in_type T x" "in_type U y" "V = T \<or> V = op_type p T U" "op_allowed p T U" "op_Do b p T U V x y result = (True, r)"
  then show "op_spec p T U x y = Some r \<and> in_type V r"
    using add_op.sound [of T x U y V b result r] sub_op.sound [of T x U y V b result r]
      mul_op.sound [of T x U y V b result r] div_op.sound [of T x U y V result r] mod_op.sound [of T x U y V result r]
      and_op.sound [of T x U y V result r] or_op.sound [of T x U y V result r] xor_op.sound [of T x U y V result r]
      max_op.sound [of T x U y V result r] min_op.sound [of T x U y V result r]
      lsh_op.sound [of T x U y V result r] rsh_op.sound [of T x U y V result r]
    by (cases p) simp_all
qed








lemma op_complete:
  assumes "in_type T x" "in_type U y" "dst_ok T U V" "complete_for b T U" "p \<in> {OpAdd, OpSub, OpMul}"
    "op_spec p T U x y = Some v" "in_type V v"
  shows "op_Do b p T U V x y result = (True, v)"
  using assms arith_complete [OF assms(1-4), of result] by auto




section \<open>Pointers\<close>

lemma CheckedNumeric_plain: "in_type T v \<Longrightarrow> CheckedNumeric T T v = \<lparr>cn_is_valid = True, cn_value = v\<rparr>"
  by (simp add: CheckedNumeric_def CheckedNumericState_def in_range_exact)

lemma MaxExponent_uint64 [simp]: "MaxExponentPromotion uint64_t R = uint64_t"
  by (cases R) (simp_all add: MaxExponentPromotion_def MaxExponent_def digits_def)

lemma fast_uint64: "fst (FastIntegerArithmeticPromotion uint64_t R) = uint64_t"
  by (cases R) (simp_all add: promotion_defs)

text \<open>With an unsigned left operand of 64 bits no build rejects a representable product.\<close>

lemma mul_uint64:
  assumes "in_type uint64_t s" "in_type R n"
  shows "fst (CheckedMulOp b uint64_t R uint64_t s n result) \<longleftrightarrow> in_type uint64_t (s * n)"
proof (cases "fast_mul_supported b uint64_t R")
  case True
  then show ?thesis
    by (simp add: CheckedMulOp_def CheckedMulFastOp_def builtin_overflow_def static_cast_id_iff)
next
  case False
  have "in_type uint64_t (s * n) \<Longrightarrow> in_type uint64_t n \<or> s = 0"
  proof -
    assume "in_type uint64_t (s * n)"
    then have "0 \<le> s * n" "0 \<le> s" using assms(1) unsigned_nonneg [of uint64_t] by simp_all
    then have "s = 0 \<or> 0 \<le> n" by (auto simp: zero_le_mult_iff)
    moreover have "type_max R \<le> type_max uint64_t"
      using digits_bounds(2) [of R] by (simp add: type_max_mono [symmetric] digits_def)
    ultimately show ?thesis using assms(2) by (auto simp: in_type_def type_lowest_def)
  qed
  then show ?thesis
    using mul_promoted [OF assms fast_uint64 [symmetric] False] assms(1) by (auto simp: fits_def)
qed

lemma pointer_offset:
  assumes "in_type uint64_t s" "in_type R n"
    and d_def: "d = CheckMathOp (CheckedMulOp b) MaxExponentPromotion uint64_t R (CheckedNumeric uint64_t uint64_t s)
      (CheckedNumeric R R n)"
  shows "cn_ok uint64_t d" "cn_is_valid d \<longleftrightarrow> in_type uint64_t (s * n)" "cn_is_valid d \<Longrightarrow> cn_value d = s * n"
proof -
  show ok: "cn_ok uint64_t d" by (simp add: d_def CheckMathOp_def MathOp_def split: prod.splits)
  have run: "d = (let (ok, r) = CheckedMulOp b uint64_t R uint64_t s n 0 in CheckedNumericState uint64_t uint64_t r ok)"
    using assms(1,2) by (simp add: d_def CheckMathOp_def MathOp_def CheckedNumeric_plain cn_IsValid_def in_range_exact)
  have "fst (CheckedMulOp b uint64_t R uint64_t s n 0) \<Longrightarrow>
      snd (CheckedMulOp b uint64_t R uint64_t s n 0) = s * n \<and> in_type uint64_t (s * n)"
    using mul_sound [OF assms(1,2), of b uint64_t 0] by (metis prod.collapse)
  then show "cn_is_valid d \<longleftrightarrow> in_type uint64_t (s * n)" "cn_is_valid d \<Longrightarrow> cn_value d = s * n"
    using mul_uint64 [OF assms(1,2), of b 0] unfolding run
    by (auto simp: CheckedNumericState_def in_range_exact split: prod.splits)
qed

lemma pointer_exact:
  assumes "in_type uint64_t s" "in_type uint64_t p" "in_type R n"
    and M: "\<And>y. in_type uint64_t y \<Longrightarrow> M uint64_t uint64_t uint64_t p y 0 =
      (if in_type uint64_t (f p y) then (True, f p y) else (False, g y))"
  shows "pointer_op M b R s p n = (if in_type uint64_t (s * n) \<and> in_type uint64_t (f p (s * n)) then Some (f p (s * n)) else None)"
proof -
  define d where "d = CheckMathOp (CheckedMulOp b) MaxExponentPromotion uint64_t R (CheckedNumeric uint64_t uint64_t s)
      (CheckedNumeric R R n)"
  note off = pointer_offset [OF assms(1,3) d_def]
  show ?thesis
    using off M [of "cn_value d"] assms(2) unfolding pointer_op_def d_def [symmetric] Let_def
    by (auto simp: ValueOrDie_def CheckMathOp_def MathOp_def cn_IsValid_self CheckedNumeric_plain cn_ok_def
        CheckedNumericState_def in_range_exact cn_IsValid_def split: if_splits)
qed

section \<open>Properties\<close>



text \<open>The unary operations: negation of a signed number is valid exactly if the negated
  number has the type and then it is that number; \<open>Abs\<close> is the absolute value, valid whenever
  the type holds it; \<open>UnsignedAbs\<close> is always the absolute value, also of the lowest number.\<close>

theorem checked_unary_exact:
  assumes "cn_ok T c"
  shows "(is_signed T \<longrightarrow> (cn_is_valid (cn_negate T c) \<longleftrightarrow> cn_is_valid c \<and> in_type T (- cn_value c)) \<and>
      (cn_is_valid (cn_negate T c) \<longrightarrow> cn_value (cn_negate T c) = - cn_value c)) \<and>
    (cn_is_valid (cn_Abs T c) \<longrightarrow> cn_is_valid c \<and> cn_value (cn_Abs T c) = \<bar>cn_value c\<bar>) \<and>
    (cn_is_valid c \<and> in_type T \<bar>cn_value c\<bar> \<longrightarrow> cn_is_valid (cn_Abs T c)) \<and>
    cn_UnsignedAbs T c = \<lparr>cn_is_valid = cn_is_valid c, cn_value = \<bar>cn_value c\<bar>\<rparr>"
  using negate_exact [OF _ assms] abs_exact [OF assms] unsigned_abs_exact [OF assms] by blast

text \<open>Checked pointer arithmetic never wraps around: for every compiler and every integer
  type of the offset, the result is the address moved by that many elements if neither the
  scaled offset nor the address leaves the range of addresses; otherwise the program traps.
  A negative offset of a non-empty element type always traps.\<close>

theorem pointer_arith_exact:
  assumes "in_type uint64_t elem_size" "in_type uint64_t p" "in_type R n"
  shows "pointer_plus b R elem_size p n =
      (if in_type uint64_t (elem_size * n) \<and> in_type uint64_t (p + elem_size * n) then Some (p + elem_size * n) else None) \<and>
    pointer_minus b R elem_size p n =
      (if in_type uint64_t (elem_size * n) \<and> in_type uint64_t (p - elem_size * n) then Some (p - elem_size * n) else None)"
proof -
  have big: "snd (BigEnoughPromotion uint64_t uint64_t)" "dst_ok uint64_t uint64_t uint64_t"
    by (simp_all add: promotion_defs dst_ok_def Let_def)
  have ops: "op_Do b q uint64_t uint64_t uint64_t p y 0 =
      (if in_type uint64_t z then (True, z) else (False, snd (op_Do b q uint64_t uint64_t uint64_t p y 0)))"
    if "q \<in> {OpAdd, OpSub}" "op_spec q uint64_t uint64_t p y = Some z" "in_type uint64_t y" for q y z
  proof (cases "in_type uint64_t z")
    case True
    then show ?thesis using that op_complete [OF assms(2) that(3) big(2), of b q z 0] big(1) by (auto simp: complete_for_def)
  next
    case False
    then have "\<not> fst (op_Do b q uint64_t uint64_t uint64_t p y 0)"
      using that expr_op.sound [OF assms(2) that(3), of uint64_t q b 0] by (metis option.inject prod.collapse op_allowed.simps empty_iff insert_iff)
    then show ?thesis using False by (metis prod.collapse)
  qed
  show ?thesis
    unfolding pointer_plus_def pointer_minus_def
    using pointer_exact [OF assms, of "CheckedAddOp b" "(+)"] pointer_exact [OF assms, of "CheckedSubOp b" "(-)"]
      ops [of OpAdd] ops [of OpSub] by simp
qed

end
