(* ===== verification/String_Search.thy ===== *)
theory String_Search
  imports Sparo_Prelude
begin

text \<open>
  What searching in strings means: the first and the last index with a property, the first and
  the last occurrence of a string in another, and the loops both string classes are written
  with.  A result is an index or \<open>npos\<close>, the largest \<open>size_t\<close>.  The contract of a searching
  class is the locale \<open>string_searcher\<close>, with what a client gets from it.
\<close>

definition npos :: nat where
  "npos = 2 ^ 64 - 1"

section \<open>Specification\<close>

text \<open>Occurrences of \<open>s\<close> in \<open>xs\<close>.\<close>

definition occurs_at :: "'c list \<Rightarrow> 'c list \<Rightarrow> nat \<Rightarrow> bool" where
  "occurs_at xs s i \<longleftrightarrow> i + length s \<le> length xs \<and> take (length s) (drop i xs) = s"

text \<open>The least index from \<open>pos\<close> on, and the greatest up to \<open>pos\<close>, among those up to \<open>n\<close>.\<close>

definition first_index :: "(nat \<Rightarrow> bool) \<Rightarrow> nat \<Rightarrow> nat \<Rightarrow> nat" where
  "first_index P n pos = (case filter P [pos..<Suc n] of [] \<Rightarrow> npos | i # _ \<Rightarrow> i)"

definition last_index :: "(nat \<Rightarrow> bool) \<Rightarrow> nat \<Rightarrow> nat \<Rightarrow> nat" where
  "last_index P n pos = (case rev (filter P [0..<Suc (min n pos)]) of [] \<Rightarrow> npos | i # _ \<Rightarrow> i)"

definition has_char :: "('c \<Rightarrow> bool) \<Rightarrow> 'c list \<Rightarrow> nat \<Rightarrow> bool" where
  "has_char P xs i \<longleftrightarrow> i < length xs \<and> P (xs ! i)"

lemma upt_split: "k \<le> i \<Longrightarrow> i \<le> n \<Longrightarrow> [k..<Suc n] = [k..<i] @ i # [Suc i..<Suc n]"
  using upt_add_eq_append [of k i "Suc n - i"] upt_conv_Cons [of i "Suc n"] by (simp del: upt_Suc)

lemma first_index_eqI:
  assumes "P i" "pos \<le> i" "i \<le> n" "\<And>j. pos \<le> j \<Longrightarrow> j < i \<Longrightarrow> \<not> P j"
  shows "first_index P n pos = i"
proof -
  have "[pos..<Suc n] = [pos..<i] @ i # [Suc i..<Suc n]"
    using assms(2,3) upt_split [of pos i n] by simp
  moreover have "filter P [pos..<i] = []" using assms(4) by (auto simp: filter_empty_conv)
  ultimately show ?thesis using assms(1) by (simp add: first_index_def del: upt_Suc)
qed

lemma first_index_none:
  assumes "\<And>j. pos \<le> j \<Longrightarrow> j \<le> n \<Longrightarrow> \<not> P j"
  shows "first_index P n pos = npos"
proof -
  have "filter P [pos..<Suc n] = []" using assms by (simp add: filter_empty_conv del: upt_Suc)
  then show ?thesis by (simp add: first_index_def del: upt_Suc)
qed

lemma last_index_eqI:
  assumes "P i" "i \<le> pos" "i \<le> n" "\<And>j. i < j \<Longrightarrow> j \<le> pos \<Longrightarrow> j \<le> n \<Longrightarrow> \<not> P j"
  shows "last_index P n pos = i"
proof -
  have "[0..<Suc (min n pos)] = [0..<i] @ i # [Suc i..<Suc (min n pos)]"
    using assms(2,3) by (intro upt_split) simp_all
  moreover have "filter P [Suc i..<Suc (min n pos)] = []"
    using assms(4) by (auto simp: filter_empty_conv simp del: upt_Suc)
  ultimately show ?thesis using assms(1) by (simp add: last_index_def del: upt_Suc)
qed

lemma last_index_none:
  assumes "\<And>j. j \<le> pos \<Longrightarrow> j \<le> n \<Longrightarrow> \<not> P j"
  shows "last_index P n pos = npos"
proof -
  have "filter P [0..<Suc (min n pos)] = []" using assms by (simp add: filter_empty_conv del: upt_Suc)
  then show ?thesis by (simp add: last_index_def del: upt_Suc)
qed

lemma first_index_cases:
  obtains (found) "P (first_index P n pos)" "pos \<le> first_index P n pos" "first_index P n pos \<le> n"
      "\<forall>j. pos \<le> j \<and> j < first_index P n pos \<longrightarrow> \<not> P j"
  | (none) "first_index P n pos = npos" "\<forall>j. pos \<le> j \<and> j \<le> n \<longrightarrow> \<not> P j"
proof (cases "\<exists>j. pos \<le> j \<and> j \<le> n \<and> P j")
  case True
  define i where "i = (LEAST j. pos \<le> j \<and> j \<le> n \<and> P j)"
  have i: "pos \<le> i \<and> i \<le> n \<and> P i" unfolding i_def by (rule LeastI_ex [OF True])
  have less: "\<not> P j" if "pos \<le> j" "j < i" for j
    using not_less_Least [of j "\<lambda>j. pos \<le> j \<and> j \<le> n \<and> P j"] that i unfolding i_def by auto
  then have "first_index P n pos = i" using i first_index_eqI [of P i pos n] by blast
  then show thesis using found i less by blast
next
  case False
  then show thesis using none first_index_none [of pos n P] by blast
qed

lemma last_index_cases:
  obtains (found) "P (last_index P n pos)" "last_index P n pos \<le> pos" "last_index P n pos \<le> n"
      "\<forall>j. last_index P n pos < j \<and> j \<le> pos \<and> j \<le> n \<longrightarrow> \<not> P j"
  | (none) "last_index P n pos = npos" "\<forall>j. j \<le> pos \<and> j \<le> n \<longrightarrow> \<not> P j"
proof (cases "\<exists>j. j \<le> pos \<and> j \<le> n \<and> P j")
  case True
  define i where "i = (GREATEST j. j \<le> pos \<and> j \<le> n \<and> P j)"
  have i: "i \<le> pos \<and> i \<le> n \<and> P i" unfolding i_def by (rule GreatestI_ex_nat [OF True, of n]) simp
  have less: "\<not> P j" if "i < j" "j \<le> pos" "j \<le> n" for j
    using Greatest_le_nat [of "\<lambda>j. j \<le> pos \<and> j \<le> n \<and> P j" j n] that unfolding i_def by auto
  then have "last_index P n pos = i" using i last_index_eqI [of P i pos n] by blast
  then show thesis using found i less by blast
next
  case False
  then show thesis using none last_index_none [of pos n P] by blast
qed

text \<open>The same, as the least and the greatest index.\<close>

lemma first_index_Least:
  assumes "\<And>j. P j \<Longrightarrow> j \<le> n"
  shows "first_index P n pos = (if \<exists>i. pos \<le> i \<and> P i then LEAST i. pos \<le> i \<and> P i else npos)"
proof (cases rule: first_index_cases [of P n pos])
  case found
  then have "(LEAST i. pos \<le> i \<and> P i) = first_index P n pos" by (intro Least_equality) (auto simp: not_less [symmetric])
  then show ?thesis using found by auto
next
  case none
  then show ?thesis using assms by auto
qed

lemma last_index_Greatest:
  assumes "\<And>j. P j \<Longrightarrow> j \<le> n"
  shows "last_index P n pos = (if \<exists>i. i \<le> pos \<and> P i then GREATEST i. i \<le> pos \<and> P i else npos)"
proof (cases rule: last_index_cases [of P n pos])
  case found
  then have "(GREATEST i. i \<le> pos \<and> P i) = last_index P n pos"
    using assms by (intro Greatest_equality) (auto simp: not_less [symmetric])
  then show ?thesis using found by auto
next
  case none
  then show ?thesis using assms by auto
qed

text \<open>Only what the predicate says on the indices in question matters.\<close>

lemma first_index_cong: "(\<And>i. pos \<le> i \<Longrightarrow> i \<le> n \<Longrightarrow> P i = Q i) \<Longrightarrow> first_index P n pos = first_index Q n pos"
  unfolding first_index_def by (rule arg_cong [where f = "case_list npos (\<lambda>i _. i)"], rule filter_cong) auto

lemma last_index_cong: "(\<And>i. i \<le> pos \<Longrightarrow> i \<le> n \<Longrightarrow> P i = Q i) \<Longrightarrow> last_index P n pos = last_index Q n pos"
  unfolding last_index_def
  by (rule arg_cong [where f = "\<lambda>l. case_list npos (\<lambda>i _. i) (rev l)"], rule filter_cong) auto

section \<open>The loops\<close>

text \<open>\<open>for (i = pos; i < size; ++i) if (...) return i; return npos;\<close>\<close>

function scan_up :: "('c \<Rightarrow> bool) \<Rightarrow> 'c list \<Rightarrow> nat \<Rightarrow> nat" where
  "scan_up P xs i = (if i < length xs then if P (xs ! i) then i else scan_up P xs (Suc i) else npos)"
  by pat_completeness auto
termination
  by (relation "measure (\<lambda>(_, xs, i). length xs - i)") auto

declare scan_up.simps [simp del]

text \<open>\<open>for (;; --i) { if (...) return i; if (i == 0) break; } return npos;\<close>\<close>

fun scan_down :: "('c \<Rightarrow> bool) \<Rightarrow> 'c list \<Rightarrow> nat \<Rightarrow> nat" where
  "scan_down P xs 0 = (if P (xs ! 0) then 0 else npos)"
| "scan_down P xs (Suc i) = (if P (xs ! Suc i) then Suc i else scan_down P xs i)"

text \<open>Any loop of these two shapes computes the index, whatever it returns at its end.\<close>

lemma up_loop:
  assumes step: "\<And>i. f i = (if i < N then if P i then i else f (Suc i) else bad)"
    and bound: "\<And>j. P j \<Longrightarrow> j < N" "N \<le> Suc n"
  shows "f pos = (if \<exists>j \<ge> pos. P j then first_index P n pos else bad)"
proof (induction "N - pos" arbitrary: pos rule: less_induct)
  case less
  show ?case
  proof (cases "pos < N \<and> \<not> P pos")
    case True
    then have "first_index P n (Suc pos) = first_index P n pos"
      using bound(2) by (simp add: first_index_def upt_conv_Cons del: upt_Suc)
    moreover have "(\<exists>j \<ge> Suc pos. P j) \<longleftrightarrow> (\<exists>j \<ge> pos. P j)"
      using True by (metis Suc_leD Suc_leI order_le_less)
    ultimately show ?thesis using True less [of "Suc pos"] step [of pos] by auto
  next
    case False
    have "P pos \<Longrightarrow> first_index P n pos = pos"
      using bound(1) [of pos] bound(2) by (intro first_index_eqI) auto
    then show ?thesis
      using False step [of pos] bound(1) by (auto simp: not_less dest: le_less_trans)
  qed
qed

lemma down_loop:
  assumes step: "f 0 = (if P 0 then 0 else bad)" "\<And>i. f (Suc i) = (if P (Suc i) then Suc i else f i)"
    and "i \<le> n"
  shows "f i = (if \<exists>j \<le> i. P j then last_index P n i else bad)"
  using assms(3)
proof (induction i)
  case 0
  then show ?case by (simp add: step last_index_def)
next
  case (Suc i)
  have "P (Suc i) \<Longrightarrow> last_index P n (Suc i) = Suc i" "\<not> P (Suc i) \<Longrightarrow> last_index P n (Suc i) = last_index P n i"
    using Suc.prems by (simp_all add: last_index_def)
  moreover have "\<not> P (Suc i) \<Longrightarrow> (\<exists>j \<le> Suc i. P j) \<longleftrightarrow> (\<exists>j \<le> i. P j)" by (metis le_SucE le_SucI)
  ultimately show ?case using Suc step(2) [of i] by auto
qed

lemma scan_up_first: "scan_up P xs pos = first_index (has_char P xs) (length xs) pos"
proof -
  have "scan_up P xs pos = (if \<exists>j \<ge> pos. has_char P xs j then first_index (has_char P xs) (length xs) pos else npos)"
    by (rule up_loop [where N = "length xs"]) (subst scan_up.simps, auto simp: has_char_def)
  then show ?thesis using first_index_none [of pos "length xs" "has_char P xs"] by auto
qed

lemma scan_down_last:
  assumes "i < length xs"
  shows "scan_down P xs i = last_index (has_char P xs) (length xs) i"
proof -
  have "scan_down P xs i = (if \<exists>j \<le> i. P (xs ! j) then last_index (\<lambda>j. P (xs ! j)) (length xs) i else npos)"
    using assms by (intro down_loop) auto
  moreover have "last_index (\<lambda>j. P (xs ! j)) (length xs) i = last_index (has_char P xs) (length xs) i"
    using assms by (intro last_index_cong) (auto simp: has_char_def)
  ultimately show ?thesis using last_index_none [of i "length xs" "has_char P xs"] by (auto simp: has_char_def)
qed

text \<open>The start of a downward loop: \<open>std::min(pos, size() - 1)\<close>.\<close>

lemma scan_down_from:
  assumes "xs \<noteq> []"
  shows "scan_down P xs (min pos (length xs - 1)) = last_index (has_char P xs) (length xs) pos"
proof -
  have len: "0 < length xs" using assms by simp
  have "scan_down P xs (min pos (length xs - 1)) = last_index (has_char P xs) (length xs) (min pos (length xs - 1))"
    using len by (intro scan_down_last) linarith
  also have "\<dots> = last_index (has_char P xs) (length xs) pos"
  proof (cases rule: last_index_cases [of "has_char P xs" "length xs" pos])
    case found
    then have "last_index (has_char P xs) (length xs) pos < length xs" by (simp add: has_char_def)
    then show ?thesis
      using found len by (intro last_index_eqI) (auto simp: has_char_def)
  next
    case none
    then show ?thesis using len by (subst last_index_none) auto
  qed
  finally show ?thesis .
qed

section \<open>The contract of a searching class\<close>

locale string_searcher =
  fixes find_string :: "'c list \<Rightarrow> 'c list \<Rightarrow> nat \<Rightarrow> nat"
    and rfind_string :: "'c list \<Rightarrow> 'c list \<Rightarrow> nat \<Rightarrow> nat"
  assumes find_exact: "length xs < npos \<Longrightarrow> find_string xs s pos = first_index (occurs_at xs s) (length xs) pos"
    and rfind_exact: "length xs < npos \<Longrightarrow> rfind_string xs s pos = last_index (occurs_at xs s) (length xs) pos"
begin

text \<open>A string splits around what was found in it.\<close>

lemma find_splits:
  assumes "length xs < npos" "find_string xs s pos = i" "i \<noteq> npos"
  shows "xs = take i xs @ s @ drop (i + length s) xs \<and> pos \<le> i"
proof (cases rule: first_index_cases [of "occurs_at xs s" "length xs" pos])
  case found
  then have "take (length s) (drop i xs) = s" "pos \<le> i"
    using assms find_exact by (simp_all add: occurs_at_def)
  then show ?thesis by (metis append_take_drop_id drop_drop add.commute)
next
  case none
  then show ?thesis using assms find_exact by simp
qed

text \<open>Both searches agree on whether there is anything to find.\<close>

lemma find_rfind:
  assumes "length xs < npos"
  shows "find_string xs s 0 = npos \<longleftrightarrow> rfind_string xs s npos = npos"
    "rfind_string xs s npos \<noteq> npos \<Longrightarrow> find_string xs s 0 \<le> rfind_string xs s npos"
proof -
  let ?f = "find_string xs s 0" and ?r = "rfind_string xs s npos"
  have f: "?f = first_index (occurs_at xs s) (length xs) 0" and r: "?r = last_index (occurs_at xs s) (length xs) npos"
    using assms find_exact rfind_exact by blast+
  have "(?f = npos \<longleftrightarrow> ?r = npos) \<and> (?r \<noteq> npos \<longrightarrow> ?f \<le> ?r)"
  proof (cases rule: last_index_cases [of "occurs_at xs s" "length xs" npos])
    case last: found
    show ?thesis
      by (cases rule: first_index_cases [of "occurs_at xs s" "length xs" 0])
        (use last assms f r in \<open>auto simp: not_less [symmetric]\<close>)
  next
    case none
    then show ?thesis using assms f r first_index_none [of 0 "length xs" "occurs_at xs s"] by auto
  qed
  then show "?f = npos \<longleftrightarrow> ?r = npos" "?r \<noteq> npos \<Longrightarrow> ?f \<le> ?r" by blast+
qed

end

end
