(* ===== verification/String_Piece.thy ===== *)
theory String_Piece
  imports String_Search
begin

text \<open>
  \<open>BasicStringPiece\<close> of \<open>base/strings/string_piece.h\<close> and \<open>string_piece.cc\<close>.  A piece points
  into an object: the characters from the pointer to the end of the object and a length.
  Searches and comparisons read only inside a piece, so they are given its characters as a
  list.  Each search has two implementations, one for constant evaluation and one for run
  time (with a lookup table for 8-bit characters and brute force for wider ones); all are
  shown to find the same.
\<close>

section \<open>Pieces\<close>

record 'c piece =
  sp_ptr :: "'c list"     \<comment> \<open>from the pointer to the end of the object\<close>
  sp_length :: nat

definition piece_ok :: "'c piece \<Rightarrow> bool" where
  "piece_ok p \<longleftrightarrow> sp_length p \<le> length (sp_ptr p) \<and> sp_length p < npos"

definition sp_view :: "'c piece \<Rightarrow> 'c list" where
  "sp_view p = take (sp_length p) (sp_ptr p)"

text \<open>Subtraction of \<open>size_t\<close>.\<close>

definition size_minus :: "nat \<Rightarrow> nat \<Rightarrow> nat" where
  "size_minus a b = (a + (2 ^ 64 - b mod 2 ^ 64)) mod 2 ^ 64"

text \<open>\<open>None\<close>: read outside of the object.\<close>

definition sp_at :: "'c piece \<Rightarrow> nat \<Rightarrow> 'c option" where
  "sp_at p pos = (if pos < length (sp_ptr p) then Some (sp_ptr p ! pos) else None)"

definition sp_front :: "'c piece \<Rightarrow> 'c option" where
  "sp_front p = sp_at p 0"

definition sp_back :: "'c piece \<Rightarrow> 'c option" where
  "sp_back p = sp_at p (size_minus (sp_length p) 1)"

definition remove_prefix :: "nat \<Rightarrow> 'c piece \<Rightarrow> 'c piece" where
  "remove_prefix n p = \<lparr>sp_ptr = drop n (sp_ptr p), sp_length = size_minus (sp_length p) n\<rparr>"

definition remove_suffix :: "nat \<Rightarrow> 'c piece \<Rightarrow> 'c piece" where
  "remove_suffix n p = p\<lparr>sp_length := size_minus (sp_length p) n\<rparr>"

definition sp_swap :: "'c piece \<Rightarrow> 'c piece \<Rightarrow> 'c piece \<times> 'c piece" where
  "sp_swap p v =
     (let ptr = sp_ptr p; p = p\<lparr>sp_ptr := sp_ptr v\<rparr>; v = v\<lparr>sp_ptr := ptr\<rparr>;
          len = sp_length p in
      (p\<lparr>sp_length := sp_length v\<rparr>, v\<lparr>sp_length := len\<rparr>))"

definition sp_copy :: "'c piece \<Rightarrow> nat \<Rightarrow> nat \<Rightarrow> ('c list \<times> nat) option" where
  "sp_copy p cnt pos =
     (let rcount = min cnt (size_minus (sp_length p) pos) in
      if pos + rcount \<le> length (sp_ptr p) then Some (take rcount (drop pos (sp_ptr p)), rcount) else None)"

definition sp_substr :: "'c piece \<Rightarrow> nat \<Rightarrow> nat \<Rightarrow> 'c piece" where
  "sp_substr p pos cnt =
     (let rcount = min cnt (size_minus (sp_length p) pos) in
      \<lparr>sp_ptr = drop pos (sp_ptr p), sp_length = rcount\<rparr>)"

section \<open>Comparison\<close>

text \<open>\<open>traits_type::compare\<close> on ranges of equal length.\<close>

fun traits_compare :: "'c :: linorder list \<Rightarrow> 'c list \<Rightarrow> int" where
  "traits_compare (x # xs) (y # ys) = (if x < y then -1 else if y < x then 1 else traits_compare xs ys)"
| "traits_compare _ _ = 0"

definition sp_compare :: "'c :: linorder list \<Rightarrow> 'c list \<Rightarrow> int" where
  "sp_compare a v =
     (let rlen = min (length a) (length v);
          result = traits_compare (take rlen a) (take rlen v) in
      if result \<noteq> 0 then result
      else if length a = length v then 0
      else if length a < length v then -1 else 1)"

definition sub_list :: "'c list \<Rightarrow> nat \<Rightarrow> nat \<Rightarrow> 'c list" where
  "sub_list a pos cnt = take (min cnt (length a - pos)) (drop pos a)"

definition sp_eq :: "'c :: linorder list \<Rightarrow> 'c list \<Rightarrow> bool" where
  "sp_eq lhs rhs \<longleftrightarrow> length lhs = length rhs \<and> sp_compare lhs rhs = 0"

definition sp_less :: "'c :: linorder list \<Rightarrow> 'c list \<Rightarrow> bool" where
  "sp_less lhs rhs \<longleftrightarrow> sp_compare lhs rhs < 0"

section \<open>Searching for a string\<close>

text \<open>\<open>std::search\<close> from index \<open>i\<close>: the end of the range if nothing is found.\<close>

function std_search :: "'c list \<Rightarrow> 'c list \<Rightarrow> nat \<Rightarrow> nat" where
  "std_search xs s i =
     (if i + length s \<le> length xs then
        if take (length s) (drop i xs) = s then i else std_search xs s (Suc i)
      else length xs)"
  by pat_completeness auto
termination
  by (relation "measure (\<lambda>(xs, _, i). Suc (length xs) - i)") auto

declare std_search.simps [simp del]

text \<open>\<open>std::find_end\<close> in the first \<open>lst\<close> characters: \<open>lst\<close> if nothing is found.\<close>

fun find_end_loop :: "'c list \<Rightarrow> 'c list \<Rightarrow> nat \<Rightarrow> nat \<Rightarrow> nat" where
  "find_end_loop xs s lst 0 = (if take (length s) xs = s then 0 else lst)"
| "find_end_loop xs s lst (Suc i) =
     (if take (length s) (drop (Suc i) xs) = s then Suc i else find_end_loop xs s lst i)"

definition std_find_end :: "'c list \<Rightarrow> 'c list \<Rightarrow> nat \<Rightarrow> nat" where
  "std_find_end xs s lst = (if s = [] \<or> lst < length s then lst else find_end_loop xs s lst (lst - length s))"

definition findT :: "'c list \<Rightarrow> 'c list \<Rightarrow> nat \<Rightarrow> nat" where
  "findT self s pos =
     (if pos > length self then npos
      else let xpos = std_search self s pos in if xpos + length s \<le> length self then xpos else npos)"

definition rfindT :: "'c list \<Rightarrow> 'c list \<Rightarrow> nat \<Rightarrow> nat" where
  "rfindT self s pos =
     (if length self < length s then npos
      else if s = [] then min (length self) pos
      else
        let lst = min (length self - length s) pos + length s;
            result = std_find_end self s lst in
        if result \<noteq> lst then result else npos)"

function find_const_loop :: "'c :: linorder list \<Rightarrow> 'c list \<Rightarrow> nat \<Rightarrow> nat" where
  "find_const_loop self v p =
     (if p \<le> length self - length v then
        if sp_compare (sub_list self p (length v)) v = 0 then p else find_const_loop self v (Suc p)
      else npos)"
  by pat_completeness auto
termination
  by (relation "measure (\<lambda>(self, v, p). Suc (length self - length v) - p)") auto

declare find_const_loop.simps [simp del]

definition sp_find :: "bool \<Rightarrow> 'c :: linorder list \<Rightarrow> 'c list \<Rightarrow> nat \<Rightarrow> nat" where
  "sp_find constant_evaluated self v pos =
     (if constant_evaluated then if length v > length self then npos else find_const_loop self v pos
      else findT self v pos)"

fun rfind_const_loop :: "'c :: linorder list \<Rightarrow> 'c list \<Rightarrow> nat \<Rightarrow> nat" where
  "rfind_const_loop self v 0 = (if sp_compare (sub_list self 0 (length v)) v = 0 then 0 else npos)"
| "rfind_const_loop self v (Suc p) =
     (if sp_compare (sub_list self (Suc p) (length v)) v = 0 then Suc p else rfind_const_loop self v p)"

definition sp_rfind :: "bool \<Rightarrow> 'c :: linorder list \<Rightarrow> 'c list \<Rightarrow> nat \<Rightarrow> nat" where
  "sp_rfind constant_evaluated self v pos =
     (if constant_evaluated then
        if length v > length self then npos else rfind_const_loop self v (min (length self - length v) pos)
      else rfindT self v pos)"

section \<open>Searching for characters\<close>

text \<open>\<open>traits_type::find\<close>: the index in the range.\<close>

fun traits_find :: "'c list \<Rightarrow> 'c \<Rightarrow> nat option" where
  "traits_find [] c = None"
| "traits_find (x # xs) c = (if x = c then Some 0 else map_option Suc (traits_find xs c))"

definition sp_find_char :: "'c list \<Rightarrow> 'c \<Rightarrow> nat \<Rightarrow> nat" where
  "sp_find_char self c pos =
     (if pos \<ge> length self then npos
      else case traits_find (drop pos self) c of None \<Rightarrow> npos | Some i \<Rightarrow> pos + i)"

definition sp_rfind_char :: "'c list \<Rightarrow> 'c \<Rightarrow> nat \<Rightarrow> nat" where
  "sp_rfind_char self c pos =
     (if self = [] then npos else scan_down (\<lambda>x. x = c) self (min pos (length self - 1)))"

definition find_first_not_of_char :: "'c list \<Rightarrow> 'c \<Rightarrow> nat \<Rightarrow> nat" where
  "find_first_not_of_char self c pos = (if self = [] then npos else scan_up (\<lambda>x. x \<noteq> c) self pos)"

definition find_last_not_of_char :: "'c list \<Rightarrow> 'c \<Rightarrow> nat \<Rightarrow> nat" where
  "find_last_not_of_char self c pos =
     (if self = [] then npos else scan_down (\<lambda>x. x \<noteq> c) self (min pos (length self - 1)))"

definition BuildLookupTable :: "u8 list \<Rightarrow> bool list \<Rightarrow> bool list" where
  "BuildLookupTable characters_wanted table = foldl (\<lambda>t c. t[unat c := True]) table characters_wanted"

definition find_first_of8 :: "u8 list \<Rightarrow> u8 list \<Rightarrow> nat \<Rightarrow> nat" where
  "find_first_of8 self s pos =
     (if self = [] \<or> s = [] then npos
      else if length s = 1 then sp_find_char self (s ! 0) pos
      else let lookup = BuildLookupTable s (replicate 256 False) in scan_up (\<lambda>c. lookup ! unat c) self pos)"

definition find_first_not_of8 :: "u8 list \<Rightarrow> u8 list \<Rightarrow> nat \<Rightarrow> nat" where
  "find_first_not_of8 self s pos =
     (if pos \<ge> length self then npos
      else if s = [] then pos
      else if length s = 1 then find_first_not_of_char self (s ! 0) pos
      else let lookup = BuildLookupTable s (replicate 256 False) in scan_up (\<lambda>c. \<not> lookup ! unat c) self pos)"

definition find_last_of8 :: "u8 list \<Rightarrow> u8 list \<Rightarrow> nat \<Rightarrow> nat" where
  "find_last_of8 self s pos =
     (if self = [] \<or> s = [] then npos
      else if length s = 1 then sp_rfind_char self (s ! 0) pos
      else let lookup = BuildLookupTable s (replicate 256 False) in
        scan_down (\<lambda>c. lookup ! unat c) self (min pos (length self - 1)))"

definition find_last_not_of8 :: "u8 list \<Rightarrow> u8 list \<Rightarrow> nat \<Rightarrow> nat" where
  "find_last_not_of8 self s pos =
     (if self = [] then npos
      else
        let i = min pos (length self - 1) in
        if s = [] then i
        else if length s = 1 then find_last_not_of_char self (s ! 0) pos
        else let lookup = BuildLookupTable s (replicate 256 False) in scan_down (\<lambda>c. \<not> lookup ! unat c) self i)"

text \<open>The versions for wider characters.  \<open>None\<close>: an iterator past the end of the piece.\<close>

definition find_first_ofT :: "'c list \<Rightarrow> 'c list \<Rightarrow> nat \<Rightarrow> nat option" where
  "find_first_ofT self s pos =
     (if pos > length self then None
      else
        let found = (if length s = 1 then (case traits_find (drop pos self) (s ! 0) of None \<Rightarrow> length self | Some i \<Rightarrow> pos + i)
          else (let i = scan_up (\<lambda>c. c \<in> set s) self pos in if i = npos then length self else i)) in
        Some (if found = length self then npos else found))"

definition find_first_not_ofT :: "'c list \<Rightarrow> 'c list \<Rightarrow> nat \<Rightarrow> nat" where
  "find_first_not_ofT self s pos =
     (if self = [] then npos else scan_up (\<lambda>x. \<not> list_ex (\<lambda>c. x = c) s) self pos)"

definition find_last_ofT :: "'c list \<Rightarrow> 'c list \<Rightarrow> nat \<Rightarrow> nat" where
  "find_last_ofT self s pos =
     (if self = [] then npos else scan_down (\<lambda>x. list_ex (\<lambda>c. x = c) s) self (min pos (length self - 1)))"

definition find_last_not_ofT :: "'c list \<Rightarrow> 'c list \<Rightarrow> nat \<Rightarrow> nat" where
  "find_last_not_ofT self s pos =
     (if self = [] then npos else scan_down (\<lambda>x. \<not> list_ex (\<lambda>c. x = c) s) self (min pos (length self - 1)))"

text \<open>The member functions on 8-bit characters.\<close>

definition sp_find_first_of :: "bool \<Rightarrow> u8 list \<Rightarrow> u8 list \<Rightarrow> nat \<Rightarrow> nat" where
  "sp_find_first_of constant_evaluated self v pos =
     (if constant_evaluated then
        if self = [] \<or> v = [] then npos else scan_up (\<lambda>c. sp_find_char v c 0 \<noteq> npos) self pos
      else find_first_of8 self v pos)"

definition sp_find_last_of :: "bool \<Rightarrow> u8 list \<Rightarrow> u8 list \<Rightarrow> nat \<Rightarrow> nat" where
  "sp_find_last_of constant_evaluated self v pos =
     (if constant_evaluated then
        if self = [] \<or> v = [] then npos
        else scan_down (\<lambda>c. sp_find_char v c 0 \<noteq> npos) self (min pos (length self - 1))
      else find_last_of8 self v pos)"

definition sp_find_first_not_of :: "bool \<Rightarrow> u8 list \<Rightarrow> u8 list \<Rightarrow> nat \<Rightarrow> nat" where
  "sp_find_first_not_of constant_evaluated self v pos =
     (if constant_evaluated then
        if self = [] then npos else scan_up (\<lambda>c. sp_find_char v c 0 = npos) self pos
      else find_first_not_of8 self v pos)"

definition sp_find_last_not_of :: "bool \<Rightarrow> u8 list \<Rightarrow> u8 list \<Rightarrow> nat \<Rightarrow> nat" where
  "sp_find_last_not_of constant_evaluated self v pos =
     (if constant_evaluated then
        if self = [] then npos else scan_down (\<lambda>c. sp_find_char v c 0 = npos) self (min pos (length self - 1))
      else find_last_not_of8 self v pos)"

text \<open>The hash: \<open>char\<close> is signed, so its conversion to \<open>size_t\<close> extends the sign.\<close>

definition StringPieceHash :: "u8 list \<Rightarrow> u64" where
  "StringPieceHash sp = foldl (\<lambda>result c. result * 131 + scast c) 0 sp"

section \<open>Comparison is the lexicographic order\<close>

lemma traits_compare_range: "traits_compare xs ys \<in> {-1, 0, 1}"
  by (induction xs ys rule: traits_compare.induct) auto

lemma sp_compare_cases:
  "(sp_compare a v = 0 \<longleftrightarrow> a = v) \<and> (sp_compare a v < 0 \<longleftrightarrow> ord_class.lexordp a v) \<and>
   (sp_compare a v > 0 \<longleftrightarrow> ord_class.lexordp v a)"
proof (induction a arbitrary: v)
  case Nil
  then show ?case by (cases v) (auto simp: sp_compare_def)
next
  case (Cons x a)
  show ?case
  proof (cases v)
    case Nil
    then show ?thesis by (simp add: sp_compare_def)
  next
    case v: (Cons y v')
    have "sp_compare (x # a) (y # v') = (if x < y then -1 else if y < x then 1 else sp_compare a v')"
      by (simp add: sp_compare_def Let_def)
    then show ?thesis using Cons.IH [of v'] v by auto
  qed
qed

lemma sp_compare_range: "sp_compare a v \<in> {-1, 0, 1}"
  using traits_compare_range [of "take (min (length a) (length v)) a" "take (min (length a) (length v)) v"]
  by (auto simp: sp_compare_def Let_def)

lemma sub_list_occurs:
  "p + length v \<le> length self \<Longrightarrow> sp_compare (sub_list self p (length v)) v = 0 \<longleftrightarrow> occurs_at self v p"
  using sp_compare_cases [of "sub_list self p (length v)" v] by (simp add: sub_list_def occurs_at_def min_def)

section \<open>Every implementation finds the same string\<close>

text \<open>The number of places where a string can start.\<close>

lemma occurs_at_bound: "occurs_at xs s i \<Longrightarrow> i < Suc (length xs) - length s"
  by (auto simp: occurs_at_def)

lemma findT_first: "findT self s pos = first_index (occurs_at self s) (length self) pos"
proof -
  let ?P = "occurs_at self s"
  have search: "std_search self s pos = (if \<exists>j \<ge> pos. ?P j then first_index ?P (length self) pos else length self)"
    by (rule up_loop [where N = "Suc (length self) - length s"])
      (subst std_search.simps, auto simp: occurs_at_def)
  show ?thesis
  proof (cases "\<exists>j \<ge> pos. ?P j")
    case True
    then obtain j where j: "pos \<le> j" "?P j" by blast
    then have "j \<le> length self" by (simp add: occurs_at_def)
    then show ?thesis
      using j search by (cases rule: first_index_cases [of ?P "length self" pos]) (auto simp: findT_def Let_def occurs_at_def)
  next
    case False
    have "s = [] \<Longrightarrow> pos \<le> length self \<Longrightarrow> ?P pos" by (simp add: occurs_at_def)
    then have "findT self s pos = npos" using False search by (auto simp: findT_def Let_def)
    then show ?thesis using False first_index_none [of pos "length self" ?P] by auto
  qed
qed

lemma find_const_first: "length v \<le> length self \<Longrightarrow> find_const_loop self v pos = first_index (occurs_at self v) (length self) pos"
proof -
  assume v: "length v \<le> length self"
  let ?P = "occurs_at self v"
  have "find_const_loop self v pos = (if \<exists>j \<ge> pos. ?P j then first_index ?P (length self) pos else npos)"
  proof (rule up_loop [where N = "Suc (length self) - length v"])
    show "find_const_loop self v i = (if i < Suc (length self) - length v then if ?P i then i
        else find_const_loop self v (Suc i) else npos)" for i
      using v sub_list_occurs [of i v self] by (subst find_const_loop.simps) auto
  qed (use occurs_at_bound in auto)
  then show ?thesis using first_index_none [of pos "length self" ?P] by auto
qed

lemma sp_find_first: "sp_find ce self v pos = first_index (occurs_at self v) (length self) pos"
proof (cases "ce \<and> length v > length self")
  case True
  then show ?thesis
    using first_index_none [of pos "length self" "occurs_at self v"] by (auto simp: sp_find_def occurs_at_def)
qed (auto simp: sp_find_def findT_first find_const_first)

text \<open>A match up to \<open>pos\<close> starts at the latest where the rest is as long as the pattern.\<close>

lemma last_occurs_min:
  assumes "length s \<le> length xs"
  shows "last_index (occurs_at xs s) (length xs) (min (length xs - length s) pos) = last_index (occurs_at xs s) (length xs) pos"
proof -
  have "occurs_at xs s j \<Longrightarrow> j \<le> length xs - length s" for j using assms by (auto simp: occurs_at_def)
  then show ?thesis
    by (cases rule: last_index_cases [of "occurs_at xs s" "length xs" pos])
      (auto intro!: last_index_eqI last_index_none)
qed

lemma rfind_const_last:
  assumes "length v \<le> length self"
  shows "rfind_const_loop self v (min (length self - length v) pos) = last_index (occurs_at self v) (length self) pos"
proof -
  let ?P = "\<lambda>i. sp_compare (sub_list self i (length v)) v = 0" and ?i = "min (length self - length v) pos"
  have "rfind_const_loop self v ?i = (if \<exists>j \<le> ?i. ?P j then last_index ?P (length self) ?i else npos)"
    by (rule down_loop) auto
  moreover have P: "j \<le> ?i \<Longrightarrow> ?P j \<longleftrightarrow> occurs_at self v j" for j
    using assms by (intro sub_list_occurs) auto
  moreover have "last_index ?P (length self) ?i = last_index (occurs_at self v) (length self) ?i"
    using P by (intro last_index_cong) auto
  ultimately show ?thesis
    using last_occurs_min [OF assms, of pos] last_index_none [of ?i "length self" "occurs_at self v"] by auto
qed

lemma rfindT_last: "rfindT self s pos = last_index (occurs_at self s) (length self) pos"
proof -
  let ?P = "\<lambda>i. take (length s) (drop i self) = s"
  consider "length self < length s" | "s = []" | "length s \<le> length self" "s \<noteq> []" by fastforce
  then show ?thesis
  proof cases
    case 1
    then show ?thesis using last_index_none [of pos "length self" "occurs_at self s"] by (auto simp: rfindT_def occurs_at_def)
  next
    case 2
    then show ?thesis by (auto simp: rfindT_def occurs_at_def intro!: last_index_eqI [symmetric])
  next
    case 3
    define i where "i = min (length self - length s) pos"
    define L where "L = last_index (occurs_at self s) (length self) i"
    have "find_end_loop self s (i + length s) i = (if \<exists>j \<le> i. ?P j then last_index ?P (length self) i else i + length s)"
      by (rule down_loop) (auto simp: i_def)
    moreover have P: "j \<le> i \<Longrightarrow> ?P j \<longleftrightarrow> occurs_at self s j" for j
      using 3 by (auto simp: occurs_at_def i_def)
    moreover have "last_index ?P (length self) i = L"
      unfolding L_def using P by (intro last_index_cong) auto
    ultimately have e: "std_find_end self s (i + length s) = (if \<exists>j \<le> i. occurs_at self s j then L else i + length s)"
      using 3 by (auto simp: std_find_end_def)
    have "L \<le> i \<or> L = npos \<and> \<not> (\<exists>j \<le> i. occurs_at self s j)"
      by (cases rule: last_index_cases [of "occurs_at self s" "length self" i]) (auto simp: L_def i_def)
    moreover have "L = last_index (occurs_at self s) (length self) pos"
      using last_occurs_min 3(1) by (simp add: L_def i_def)
    moreover have "rfindT self s pos = (if std_find_end self s (i + length s) \<noteq> i + length s
        then std_find_end self s (i + length s) else npos)"
      using 3 by (simp add: rfindT_def Let_def i_def)
    moreover have "\<not> (\<exists>j \<le> i. occurs_at self s j) \<Longrightarrow> L = npos"
      unfolding L_def by (rule last_index_none) auto
    ultimately show ?thesis using e 3(2) by (cases "\<exists>j \<le> i. occurs_at self s j") auto
  qed
qed

lemma sp_rfind_last: "sp_rfind ce self v pos = last_index (occurs_at self v) (length self) pos"
proof (cases "ce \<and> length v > length self")
  case True
  then show ?thesis
    using last_index_none [of pos "length self" "occurs_at self v"] by (auto simp: sp_rfind_def occurs_at_def)
qed (auto simp: sp_rfind_def rfindT_last rfind_const_last)

interpretation piece_search: string_searcher "sp_find ce" "sp_rfind ce" for ce
  by unfold_locales (simp_all add: sp_find_first sp_rfind_last)

section \<open>Every implementation finds the same characters\<close>

lemma u8_index: "unat (c :: u8) < 256"
proof -
  have "unat c < 2 ^ LENGTH(8)" by (rule unsigned_less)
  then show ?thesis by simp
qed

lemma lookup_table:
  assumes "length table = 256"
  shows "length (BuildLookupTable s table) = 256 \<and> (BuildLookupTable s table ! unat c \<longleftrightarrow> table ! unat c \<or> c \<in> set s)"
  using assms
proof (induction s arbitrary: table)
  case (Cons x s)
  have "table[unat x := True] ! unat c \<longleftrightarrow> table ! unat c \<or> c = x"
    using Cons.prems u8_index by (auto simp: nth_list_update word_unat_eq_iff)
  then show ?case using Cons.IH [of "table[unat x := True]"] Cons.prems by (auto simp: BuildLookupTable_def)
qed (simp add: BuildLookupTable_def)

lemma lookup_fresh: "BuildLookupTable s (replicate 256 False) ! unat c \<longleftrightarrow> c \<in> set s"
  using lookup_table [of "replicate 256 False" s c] u8_index [of c] by simp

lemma traits_find_scan:
  "(case traits_find xs c of None \<Rightarrow> \<forall>i < length xs. xs ! i \<noteq> c
    | Some i \<Rightarrow> i < length xs \<and> xs ! i = c \<and> (\<forall>j < i. xs ! j \<noteq> c))"
proof (induction xs)
  case (Cons x xs)
  then show ?case
    by (cases "traits_find xs c") (auto simp: nth_Cons split: nat.splits)
qed simp

text \<open>Where \<open>traits_type::find\<close> starts inside a string its answer is an index of the string.\<close>

lemma traits_find_drop:
  assumes "pos \<le> length self"
  shows "(case traits_find (drop pos self) c of None \<Rightarrow> npos | Some i \<Rightarrow> pos + i) =
         first_index (has_char (\<lambda>x. x = c) self) (length self) pos"
proof (cases "traits_find (drop pos self) c")
  case None
  have "\<not> has_char (\<lambda>x. x = c) self j" if "pos \<le> j" for j
    using traits_find_scan [of "drop pos self" c] None that
    by (auto simp: has_char_def dest!: spec [of _ "j - pos"])
  then show ?thesis using None first_index_none [of pos "length self" "has_char (\<lambda>x. x = c) self"] by simp
next
  case (Some i)
  have "\<not> has_char (\<lambda>x. x = c) self j" if "pos \<le> j" "j < pos + i" for j
    using traits_find_scan [of "drop pos self" c] Some that
    by (auto simp: has_char_def dest!: spec [of _ "j - pos"])
  moreover have "has_char (\<lambda>x. x = c) self (pos + i)"
    using traits_find_scan [of "drop pos self" c] Some by (auto simp: has_char_def)
  ultimately show ?thesis
    using Some first_index_eqI [of "has_char (\<lambda>x. x = c) self" "pos + i" pos "length self"] by (simp add: has_char_def)
qed

lemma start_past_end: "length xs \<le> pos \<Longrightarrow> first_index (has_char P xs) (length xs) pos = npos"
  by (rule first_index_none) (auto simp: has_char_def)

lemma find_char_first: "sp_find_char self c pos = first_index (has_char (\<lambda>x. x = c) self) (length self) pos"
  using traits_find_drop [of pos self c] by (simp add: sp_find_char_def start_past_end)

lemma found_iff:
  assumes "length v < npos"
  shows "sp_find_char v c 0 = npos \<longleftrightarrow> c \<notin> set v"
proof (cases rule: first_index_cases [of "has_char (\<lambda>x. x = c) v" "length v" 0])
  case found
  then show ?thesis using assms by (auto simp: find_char_first has_char_def in_set_conv_nth)
next
  case none
  then have "v ! i \<noteq> c" if "i < length v" for i using that by (auto simp: has_char_def dest!: spec [of _ i])
  then have "c \<notin> set v" by (auto simp: in_set_conv_nth)
  then show ?thesis using none by (simp add: find_char_first)
qed

lemma rfind_char_last: "sp_rfind_char self c pos = last_index (has_char (\<lambda>x. x = c) self) (length self) pos"
  by (auto simp: sp_rfind_char_def scan_down_from [simplified] has_char_def intro!: last_index_none [symmetric])

text \<open>Where no, or every, character is wanted.\<close>

lemma no_chars:
  "first_index (has_char (\<lambda>c. False) xs) n pos = npos" "last_index (has_char (\<lambda>c. False) xs) n pos = npos"
  "first_index (has_char P []) n pos = npos" "last_index (has_char P []) n pos = npos"
  by (auto simp: has_char_def intro!: first_index_none last_index_none)

lemma all_chars:
  "pos < length xs \<Longrightarrow> first_index (has_char (\<lambda>c. True) xs) (length xs) pos = pos"
  "xs \<noteq> [] \<Longrightarrow> last_index (has_char (\<lambda>c. True) xs) (length xs) pos = min pos (length xs - 1)"
proof -
  show "pos < length xs \<Longrightarrow> first_index (has_char (\<lambda>c. True) xs) (length xs) pos = pos"
    by (intro first_index_eqI) (auto simp: has_char_def)
  assume "xs \<noteq> []"
  then have "min pos (length xs - 1) < length xs" by (cases xs) auto
  then show "last_index (has_char (\<lambda>c. True) xs) (length xs) pos = min pos (length xs - 1)"
    by (intro last_index_eqI) (auto simp: has_char_def)
qed

text \<open>A set of one character is that character.\<close>

lemma single_char:
  assumes "length v = 1"
  shows "(\<lambda>c. c \<in> set v) = (\<lambda>c. c = v ! 0)" "(\<lambda>c. c \<notin> set v) = (\<lambda>c. c \<noteq> v ! 0)"
  using assms by (cases v; simp)+

lemmas of_simps = lookup_fresh scan_up_first scan_down_from [simplified] no_chars single_char all_chars start_past_end
  find_first_not_of_char_def find_last_not_of_char_def rfind_char_last

lemma first_of8_exact:
  "find_first_of8 self v pos = first_index (has_char (\<lambda>c. c \<in> set v) self) (length self) pos"
  "find_first_not_of8 self v pos = first_index (has_char (\<lambda>c. c \<notin> set v) self) (length self) pos"
  by (auto simp: find_first_of8_def find_first_not_of8_def of_simps find_char_first not_le Let_def)

lemma last_of8_exact:
  "find_last_of8 self v pos = last_index (has_char (\<lambda>c. c \<in> set v) self) (length self) pos"
  "find_last_not_of8 self v pos = last_index (has_char (\<lambda>c. c \<notin> set v) self) (length self) pos"
  by (auto simp: find_last_of8_def find_last_not_of8_def of_simps Let_def)

lemma first_of_exact:
  assumes "length v < npos"
  shows "sp_find_first_of ce self v pos = first_index (has_char (\<lambda>c. c \<in> set v) self) (length self) pos"
    "sp_find_first_not_of ce self v pos = first_index (has_char (\<lambda>c. c \<notin> set v) self) (length self) pos"
  by (auto simp: sp_find_first_of_def sp_find_first_not_of_def first_of8_exact found_iff [OF assms] of_simps)

lemma last_of_exact:
  assumes "length v < npos"
  shows "sp_find_last_of ce self v pos = last_index (has_char (\<lambda>c. c \<in> set v) self) (length self) pos"
    "sp_find_last_not_of ce self v pos = last_index (has_char (\<lambda>c. c \<notin> set v) self) (length self) pos"
  by (auto simp: sp_find_last_of_def sp_find_last_not_of_def last_of8_exact found_iff [OF assms] of_simps)

text \<open>The brute-force versions.\<close>

lemma list_ex_eq: "list_ex (\<lambda>c. x = c) s \<longleftrightarrow> x \<in> set s"
  by (auto simp: list_ex_iff)

lemma brute_force_exact:
  "find_first_not_ofT self v pos = first_index (has_char (\<lambda>c. c \<notin> set v) self) (length self) pos"
  "find_last_ofT self v pos = last_index (has_char (\<lambda>c. c \<in> set v) self) (length self) pos"
  "find_last_not_ofT self v pos = last_index (has_char (\<lambda>c. c \<notin> set v) self) (length self) pos"
  by (auto simp: find_first_not_ofT_def find_last_ofT_def find_last_not_ofT_def list_ex_eq scan_up_first
      scan_down_from [simplified] no_chars)

text \<open>\<open>find_first_ofT\<close> is the only one that needs its start inside the string.\<close>

lemma first_ofT_exact:
  assumes "length self < npos"
  shows "find_first_ofT self v pos =
    (if pos \<le> length self then Some (first_index (has_char (\<lambda>c. c \<in> set v) self) (length self) pos) else None)"
proof -
  let ?f = "first_index (has_char (\<lambda>c. c \<in> set v) self) (length self) pos"
  have f: "?f < length self \<or> ?f = npos"
    by (cases rule: first_index_cases [of "has_char (\<lambda>c. c \<in> set v) self" "length self" pos]) (auto simp: has_char_def)
  show ?thesis
  proof (cases "length v = 1 \<and> pos \<le> length self")
    case True
    let ?t = "traits_find (drop pos self) (v ! 0)"
    have "(case ?t of None \<Rightarrow> npos | Some i \<Rightarrow> pos + i) = ?f"
      using True traits_find_drop [of pos self "v ! 0"] single_char(1) [of v] by simp
    then show ?thesis
      using True f assms by (auto simp: find_first_ofT_def Let_def split: option.splits)
  next
    case False
    then show ?thesis using f assms by (auto simp: find_first_ofT_def Let_def scan_up_first)
  qed
qed

section \<open>Slices\<close>

lemma size_minus_exact: "b \<le> a \<Longrightarrow> a < 2 ^ 64 \<Longrightarrow> size_minus a b = a - b"
proof -
  assume "b \<le> a" "a < 2 ^ 64"
  then have "a + (2 ^ 64 - b mod 2 ^ 64) = (a - b) + 2 ^ 64" by simp
  then show ?thesis using \<open>a < 2 ^ 64\<close> by (simp add: size_minus_def)
qed

lemma size_minus_wraps: "a < b \<Longrightarrow> b < 2 ^ 64 \<Longrightarrow> size_minus a b = 2 ^ 64 - (b - a)"
  by (simp add: size_minus_def)

lemma piece_size: "piece_ok p \<Longrightarrow> sp_length p < 2 ^ 64 \<and> length (sp_view p) = sp_length p"
  by (auto simp: piece_ok_def sp_view_def npos_def)

text \<open>In range every slice is the slice of the characters, and a well-formed piece.\<close>

lemma substr_slice:
  assumes "piece_ok p" "pos \<le> sp_length p"
  shows "piece_ok (sp_substr p pos cnt) \<and> sp_view (sp_substr p pos cnt) = take cnt (drop pos (sp_view p))"
proof -
  have "size_minus (sp_length p) pos = sp_length p - pos" using assms piece_size size_minus_exact by blast
  then show ?thesis using assms
    by (auto simp: sp_substr_def piece_ok_def sp_view_def Let_def drop_take min.commute)
qed

lemma prefix_suffix_slice:
  assumes "piece_ok p" "n \<le> sp_length p"
  shows "piece_ok (remove_prefix n p) \<and> sp_view (remove_prefix n p) = drop n (sp_view p)"
    "piece_ok (remove_suffix n p) \<and> sp_view (remove_suffix n p) = take (sp_length p - n) (sp_view p)"
proof -
  have "size_minus (sp_length p) n = sp_length p - n" using assms piece_size size_minus_exact by blast
  then show "piece_ok (remove_prefix n p) \<and> sp_view (remove_prefix n p) = drop n (sp_view p)"
    "piece_ok (remove_suffix n p) \<and> sp_view (remove_suffix n p) = take (sp_length p - n) (sp_view p)"
    using assms by (auto simp: remove_prefix_def remove_suffix_def piece_ok_def sp_view_def drop_take min_def)
qed

lemma copy_slice:
  assumes "piece_ok p" "pos \<le> sp_length p"
  shows "\<exists>r. sp_copy p cnt pos = Some (take cnt (drop pos (sp_view p)), r) \<and> r = min cnt (sp_length p - pos)"
proof -
  have "size_minus (sp_length p) pos = sp_length p - pos" using assms piece_size size_minus_exact by blast
  then show ?thesis using assms by (auto simp: sp_copy_def piece_ok_def sp_view_def Let_def drop_take)
qed

lemma at_exact: "piece_ok p \<Longrightarrow> pos < sp_length p \<Longrightarrow> sp_at p pos = Some (sp_view p ! pos)"
  by (simp add: sp_at_def piece_ok_def sp_view_def)

lemma front_back_exact:
  assumes "piece_ok p" "sp_length p \<noteq> 0"
  shows "sp_front p = Some (hd (sp_view p)) \<and> sp_back p = Some (last (sp_view p))"
proof -
  have ne: "sp_view p \<noteq> []" using assms piece_size [of p] by auto
  have "size_minus (sp_length p) 1 = sp_length p - 1" using assms piece_size [of p] by (intro size_minus_exact) auto
  then show ?thesis
    using assms at_exact [of p 0] at_exact [of p "sp_length p - 1"] piece_size [of p] ne
    by (simp add: sp_front_def sp_back_def hd_conv_nth last_conv_nth)
qed

lemma swap_exchanges: "sp_swap p v = (v, p)"
  by (cases p; cases v) (simp add: sp_swap_def Let_def)

text \<open>Nothing checks the range: one character past the end \<open>substr\<close> makes a piece of nearly
  \<open>2 ^ 64\<close> characters, and \<open>at\<close> reads the object behind the piece.\<close>

lemma substr_past_end:
  assumes "piece_ok p" "sp_length p < pos" "pos < 2 ^ 63" "length (sp_ptr p) < 2 ^ 63"
  shows "sp_length (sp_substr p pos npos) = 2 ^ 64 - (pos - sp_length p) \<and> \<not> piece_ok (sp_substr p pos npos)"
proof -
  have "size_minus (sp_length p) pos = 2 ^ 64 - (pos - sp_length p)"
    using assms by (intro size_minus_wraps) auto
  then have "sp_length (sp_substr p pos npos) = 2 ^ 64 - (pos - sp_length p)"
    using assms by (auto simp: sp_substr_def Let_def npos_def)
  then show ?thesis using assms by (auto simp: piece_ok_def sp_substr_def Let_def)
qed

lemma at_past_end: "sp_length p \<le> pos \<Longrightarrow> pos < length (sp_ptr p) \<Longrightarrow> sp_at p pos = Some (sp_ptr p ! pos)"
  by (simp add: sp_at_def)

text \<open>The slice a search compares is \<open>sub_list\<close>.\<close>

lemma substr_sub_list:
  "piece_ok p \<Longrightarrow> pos \<le> sp_length p \<Longrightarrow> sp_view (sp_substr p pos cnt) = sub_list (sp_view p) pos cnt"
  using substr_slice [of p pos cnt] by (simp add: sub_list_def min_def)

text \<open>Cutting a piece where a string was found: what is before, the string, what is behind.\<close>

lemma split_at_found:
  assumes "piece_ok p" "sp_find ce (sp_view p) v pos = i" "i \<noteq> npos"
  shows "sp_view p = sp_view (sp_substr p 0 i) @ v @ sp_view (remove_prefix (i + length v) p)"
proof -
  have len: "length (sp_view p) < npos" using assms(1) by (simp add: piece_ok_def sp_view_def)
  note split = piece_search.find_splits [OF len assms(2,3)]
  then have "i + length v \<le> sp_length p"
    using piece_search.find_exact [OF len, of ce v pos] assms first_index_cases [of "occurs_at (sp_view p) v" "length (sp_view p)" pos]
      piece_size [OF assms(1)] by (metis occurs_at_def)
  then show ?thesis
    using split substr_slice [OF assms(1), of 0 i] prefix_suffix_slice(1) [OF assms(1), of "i + length v"] by simp
qed

end
