(* ===== verification/String_View.thy ===== *)
theory String_View
  imports String_Piece
begin

text \<open>
  \<open>absl::string_view\<close> as adapted in \<open>base/strings/string_view.h\<close> and \<open>string_view.cc\<close>.  A view
  has the fields of a piece.  Its accessors assert their range where assertions are compiled
  in (\<open>hardening\<close>); the exceptions of the original are gone.  Searches and comparisons read only
  inside a view, so they are given its characters as a list.
\<close>

section \<open>Views\<close>

type_synonym view = "u8 piece"

datatype view_error = Aborted | Overread

definition kMaxSize :: nat where
  "kMaxSize = 2 ^ 63 - 1"

definition hardening_assert :: "bool \<Rightarrow> bool \<Rightarrow> view_error + 'a \<Rightarrow> view_error + 'a" where
  "hardening_assert hardening expr rest = (if hardening \<and> \<not> expr then Inl Aborted else rest)"

definition sv_read :: "view \<Rightarrow> nat \<Rightarrow> view_error + u8" where
  "sv_read v i = (case sp_at v i of None \<Rightarrow> Inl Overread | Some c \<Rightarrow> Inr c)"

definition sv_make :: "bool \<Rightarrow> u8 list \<Rightarrow> nat \<Rightarrow> view_error + view" where
  "sv_make hardening dat len = hardening_assert hardening (len \<le> kMaxSize) (Inr \<lparr>sp_ptr = dat, sp_length = len\<rparr>)"

definition sv_index :: "bool \<Rightarrow> view \<Rightarrow> nat \<Rightarrow> view_error + u8" where
  "sv_index hardening v i = hardening_assert hardening (i < sp_length v) (sv_read v i)"

definition sv_at :: "view \<Rightarrow> nat \<Rightarrow> view_error + u8" where
  "sv_at v i = (if i < sp_length v then sv_read v i else sv_read v i)"

definition sv_front :: "bool \<Rightarrow> view \<Rightarrow> view_error + u8" where
  "sv_front hardening v = hardening_assert hardening (sp_length v \<noteq> 0) (sv_read v 0)"

definition sv_back :: "bool \<Rightarrow> view \<Rightarrow> view_error + u8" where
  "sv_back hardening v = hardening_assert hardening (sp_length v \<noteq> 0) (sv_read v (size_minus (sp_length v) 1))"

definition sv_remove_prefix :: "bool \<Rightarrow> nat \<Rightarrow> view \<Rightarrow> view_error + view" where
  "sv_remove_prefix hardening n v =
     hardening_assert hardening (n \<le> sp_length v)
       (Inr \<lparr>sp_ptr = drop n (sp_ptr v), sp_length = size_minus (sp_length v) n\<rparr>)"

definition sv_remove_suffix :: "bool \<Rightarrow> nat \<Rightarrow> view \<Rightarrow> view_error + view" where
  "sv_remove_suffix hardening n v =
     hardening_assert hardening (n \<le> sp_length v) (Inr (v\<lparr>sp_length := size_minus (sp_length v) n\<rparr>))"

definition sv_swap :: "view \<Rightarrow> view \<Rightarrow> view \<times> view" where
  "sv_swap this s = (let t = this; this = s; s = t in (this, s))"

definition sv_copy :: "view \<Rightarrow> nat \<Rightarrow> nat \<Rightarrow> view_error + (u8 list \<times> nat)" where
  "sv_copy v n pos =
     (let rlen = min (size_minus (sp_length v) pos) n in
      if rlen > 0 then
        if pos + rlen \<le> length (sp_ptr v) then Inr (take rlen (drop pos (sp_ptr v)), rlen) else Inl Overread
      else Inr ([], rlen))"

definition sv_substr :: "bool \<Rightarrow> view \<Rightarrow> nat \<Rightarrow> nat \<Rightarrow> view_error + view" where
  "sv_substr hardening v pos n =
     (if pos > sp_length v then Inr \<lparr>sp_ptr = [], sp_length = 0\<rparr>
      else sv_make hardening (drop pos (sp_ptr v)) (min n (size_minus (sp_length v) pos)))"

definition ClippedSubstr :: "bool \<Rightarrow> view \<Rightarrow> nat \<Rightarrow> nat \<Rightarrow> view_error + view" where
  "ClippedSubstr hardening s pos n = sv_substr hardening s (min pos (sp_length s)) n"

section \<open>Comparison\<close>

definition CompareImpl :: "nat \<Rightarrow> nat \<Rightarrow> int \<Rightarrow> int" where
  "CompareImpl length_a length_b compare_result =
     (if compare_result = 0 then of_bool (length_a > length_b) - of_bool (length_a < length_b)
      else if compare_result < 0 then -1 else 1)"

definition sv_compare :: "u8 list \<Rightarrow> u8 list \<Rightarrow> int" where
  "sv_compare a x =
     CompareImpl (length a) (length x)
       (if min (length a) (length x) = 0 then 0
        else traits_compare (take (min (length a) (length x)) a) (take (min (length a) (length x)) x))"

definition sv_eq :: "u8 list \<Rightarrow> u8 list \<Rightarrow> bool" where
  "sv_eq x y \<longleftrightarrow> length x = length y \<and> (x = [] \<or> traits_compare x y = 0)"

definition sv_less :: "u8 list \<Rightarrow> u8 list \<Rightarrow> bool" where
  "sv_less x y \<longleftrightarrow> sv_compare x y < 0"

section \<open>Searching for a string\<close>

text \<open>The loop of \<open>memmatch\<close>: \<open>memchr\<close> jumps to the next candidate before \<open>hayend\<close>.\<close>

lemma traits_find_bound: "traits_find (take n xs) c = Some k \<Longrightarrow> k < n"
proof -
  assume "traits_find (take n xs) c = Some k"
  then have "k < length (take n xs)" using traits_find_scan [of "take n xs" c] by simp
  then show ?thesis by simp
qed

function memmatch_loop :: "u8 list \<Rightarrow> u8 list \<Rightarrow> nat \<Rightarrow> nat \<Rightarrow> nat option" where
  "memmatch_loop hay needle hayend i =
     (case traits_find (take (hayend - i) (drop i hay)) (needle ! 0) of
        None \<Rightarrow> None
      | Some k \<Rightarrow>
          if traits_compare (take (length needle) (drop (i + k) hay)) needle = 0 then Some (i + k)
          else memmatch_loop hay needle hayend (Suc (i + k)))"
  by pat_completeness auto
termination
  by (relation "measure (\<lambda>(_, _, hayend, i). hayend - i)") (auto dest!: traits_find_bound)

declare memmatch_loop.simps [simp del]

definition memmatch :: "u8 list \<Rightarrow> u8 list \<Rightarrow> nat option" where
  "memmatch hay needle =
     (if length needle = 0 then Some 0
      else if length hay < length needle then None
      else memmatch_loop hay needle (length hay - length needle + 1) 0)"

definition sv_find :: "u8 list \<Rightarrow> u8 list \<Rightarrow> nat \<Rightarrow> nat" where
  "sv_find self s pos =
     (if self = [] \<or> pos > length self then if self = [] \<and> pos = 0 \<and> s = [] then 0 else npos
      else case memmatch (drop pos self) s of None \<Rightarrow> npos | Some result \<Rightarrow> pos + result)"

definition sv_find_char :: "u8 list \<Rightarrow> u8 \<Rightarrow> nat \<Rightarrow> nat" where
  "sv_find_char self c pos =
     (if self = [] \<or> pos \<ge> length self then npos
      else case traits_find (drop pos self) c of None \<Rightarrow> npos | Some result \<Rightarrow> pos + result)"

definition sv_rfind :: "u8 list \<Rightarrow> u8 list \<Rightarrow> nat \<Rightarrow> nat" where
  "sv_rfind self s pos =
     (if length self < length s then npos
      else if s = [] then min (length self) pos
      else
        let lst = min (length self - length s) pos + length s;
            result = std_find_end self s lst in
        if result \<noteq> lst then result else npos)"

definition sv_rfind_char :: "u8 list \<Rightarrow> u8 \<Rightarrow> nat \<Rightarrow> nat" where
  "sv_rfind_char self c pos =
     (if self = [] then npos else scan_down (\<lambda>x. x = c) self (min pos (length self - 1)))"

section \<open>Searching for characters\<close>

definition LookupTable :: "u8 list \<Rightarrow> bool list" where
  "LookupTable wanted = foldl (\<lambda>table c. table[unat c := True]) (replicate 256 False) wanted"

definition sv_find_first_of :: "u8 list \<Rightarrow> u8 list \<Rightarrow> nat \<Rightarrow> nat" where
  "sv_find_first_of self s pos =
     (if self = [] \<or> s = [] then npos
      else if length s = 1 then sv_find_char self (s ! 0) pos
      else let tbl = LookupTable s in scan_up (\<lambda>c. tbl ! unat c) self pos)"

definition sv_find_first_not_of_char :: "u8 list \<Rightarrow> u8 \<Rightarrow> nat \<Rightarrow> nat" where
  "sv_find_first_not_of_char self c pos = (if self = [] then npos else scan_up (\<lambda>x. x \<noteq> c) self pos)"

definition sv_find_first_not_of :: "u8 list \<Rightarrow> u8 list \<Rightarrow> nat \<Rightarrow> nat" where
  "sv_find_first_not_of self s pos =
     (if self = [] then npos
      else if length s = 1 then sv_find_first_not_of_char self (s ! 0) pos
      else let tbl = LookupTable s in scan_up (\<lambda>c. \<not> tbl ! unat c) self pos)"

definition sv_find_last_of :: "u8 list \<Rightarrow> u8 list \<Rightarrow> nat \<Rightarrow> nat" where
  "sv_find_last_of self s pos =
     (if self = [] \<or> s = [] then npos
      else if length s = 1 then sv_rfind_char self (s ! 0) pos
      else let tbl = LookupTable s in scan_down (\<lambda>c. tbl ! unat c) self (min pos (length self - 1)))"

definition sv_find_last_not_of_char :: "u8 list \<Rightarrow> u8 \<Rightarrow> nat \<Rightarrow> nat" where
  "sv_find_last_not_of_char self c pos =
     (if self = [] then npos else let i = min pos (length self - 1) in scan_down (\<lambda>x. x \<noteq> c) self i)"

definition sv_find_last_not_of :: "u8 list \<Rightarrow> u8 list \<Rightarrow> nat \<Rightarrow> nat" where
  "sv_find_last_not_of self s pos =
     (if self = [] then npos
      else
        let i = min pos (length self - 1) in
        if s = [] then i
        else if length s = 1 then sv_find_last_not_of_char self (s ! 0) pos
        else let tbl = LookupTable s in scan_down (\<lambda>c. \<not> tbl ! unat c) self i)"

section \<open>The searches of a view are those of a piece\<close>

lemma traits_compare_eq: "length xs = length ys \<Longrightarrow> traits_compare xs ys = 0 \<longleftrightarrow> xs = ys"
  by (induction xs ys rule: list_induct2) auto

text \<open>No match starts at an index that \<open>memchr\<close> skips.\<close>

lemma memchr_candidates:
  assumes "needle \<noteq> []" "length needle \<le> length hay" "hayend = length hay - length needle + 1"
  shows "case traits_find (take (hayend - i) (drop i hay)) (needle ! 0) of
      None \<Rightarrow> \<forall>j \<ge> i. \<not> occurs_at hay needle j
    | Some k \<Rightarrow> i + k + length needle \<le> length hay \<and> (\<forall>j. i \<le> j \<and> j < i + k \<longrightarrow> \<not> occurs_at hay needle j)"
proof -
  let ?range = "take (hayend - i) (drop i hay)" and ?P = "occurs_at hay needle"
  note t = traits_find_scan [of ?range "needle ! 0"]
  have head: "j - i < length ?range \<and> ?range ! (j - i) = needle ! 0" if "?P j" "i \<le> j" for j
  proof -
    have "needle ! 0 = take (length needle) (drop j hay) ! 0" using that by (simp add: occurs_at_def)
    moreover have "j + length needle \<le> length hay" "0 < length needle"
      using that assms(1) by (simp_all add: occurs_at_def)
    moreover from this have "j < length hay" "j < hayend" using assms(3) by linarith+
    ultimately show ?thesis using that(2) by (simp add: diff_less_mono)
  qed
  show ?thesis
  proof (cases "traits_find ?range (needle ! 0)")
    case None
    then have absent: "\<forall>k < length ?range. ?range ! k \<noteq> needle ! 0" using t by simp
    have "\<not> ?P j" if "i \<le> j" for j using head [of j] absent that by blast
    then show ?thesis using None by simp
  next
    case (Some k)
    then have absent: "\<forall>l < k. ?range ! l \<noteq> needle ! 0" using t by (simp del: nth_take)
    have "\<not> ?P j" if "i \<le> j" "j < i + k" for j
      using head [of j] absent that by (metis less_diff_conv2 add.commute)
    moreover have "k < hayend - i" using traits_find_bound [OF Some] .
    ultimately show ?thesis using Some assms(2,3) by auto
  qed
qed

lemma memmatch_loop_first:
  assumes "needle \<noteq> []" "length needle \<le> length hay" "hayend = length hay - length needle + 1"
  shows "case memmatch_loop hay needle hayend i of
      None \<Rightarrow> \<forall>j \<ge> i. \<not> occurs_at hay needle j
    | Some k \<Rightarrow> i \<le> k \<and> occurs_at hay needle k \<and> (\<forall>j. i \<le> j \<and> j < k \<longrightarrow> \<not> occurs_at hay needle j)"
  using assms
proof (induction hay needle hayend i rule: memmatch_loop.induct)
  case (1 hay needle hayend i)
  note c = memchr_candidates [OF 1(2-4), of i]
  show ?case
  proof (cases "traits_find (take (hayend - i) (drop i hay)) (needle ! 0)")
    case None
    then show ?thesis using c by (subst memmatch_loop.simps) simp
  next
    case (Some k)
    then have here: "traits_compare (take (length needle) (drop (i + k) hay)) needle = 0 \<longleftrightarrow> occurs_at hay needle (i + k)"
      using c traits_compare_eq [of "take (length needle) (drop (i + k) hay)" needle] by (auto simp: occurs_at_def)
    show ?thesis
    proof (cases "occurs_at hay needle (i + k)")
      case True
      then show ?thesis using Some here c by (subst memmatch_loop.simps) simp
    next
      case False
      have "\<not> occurs_at hay needle j" if "i \<le> j" "j < Suc (i + k)" for j
        using c Some that False by (cases "j = i + k") auto
      then have none: "\<not> occurs_at hay needle j" if "i \<le> j" "\<not> Suc (i + k) \<le> j" for j using that by auto
      have "memmatch_loop hay needle hayend i = memmatch_loop hay needle hayend (Suc (i + k))"
        using Some False here by (subst memmatch_loop.simps) simp
      then show ?thesis using 1(1) [OF Some] False here 1(2-4) none by (force split: option.splits)
    qed
  qed
qed

text \<open>An occurrence behind \<open>pos\<close> is an occurrence in what follows \<open>pos\<close>.\<close>

lemma occurs_at_drop: "pos \<le> length xs \<Longrightarrow> occurs_at (drop pos xs) s j \<longleftrightarrow> occurs_at xs s (pos + j)"
  by (auto simp: occurs_at_def add.commute add.left_commute)

lemma memmatch_first:
  "case memmatch hay needle of
      None \<Rightarrow> \<forall>j. \<not> occurs_at hay needle j
    | Some k \<Rightarrow> occurs_at hay needle k \<and> (\<forall>j < k. \<not> occurs_at hay needle j)"
proof (cases "needle = [] \<or> length hay < length needle")
  case True
  then show ?thesis by (auto simp: memmatch_def occurs_at_def)
next
  case False
  then show ?thesis
    using memmatch_loop_first [of needle hay "length hay - length needle + 1" 0] by (auto simp: memmatch_def split: option.splits)
qed

lemma sv_find_first: "sv_find self s pos = first_index (occurs_at self s) (length self) pos"
proof -
  consider (empty) "self = []" "pos = 0" "s = []" | (out) "pos > length self \<or> self = [] \<and> s \<noteq> []"
    | (inside) "self \<noteq> []" "pos \<le> length self" by fastforce
  then show ?thesis
  proof cases
    case empty
    then show ?thesis using first_index_eqI [of "occurs_at [] []" 0 0 0] by (simp add: sv_find_def occurs_at_def)
  next
    case out
    then show ?thesis by (auto simp: sv_find_def occurs_at_def intro!: first_index_none [symmetric])
  next
    case inside
    note m = memmatch_first [of "drop pos self" s, unfolded occurs_at_drop [OF inside(2)]]
    show ?thesis
    proof (cases "memmatch (drop pos self) s")
      case None
      then have "\<not> occurs_at self s j" if "pos \<le> j" for j using m le_Suc_ex [OF that] by auto
      then show ?thesis using None inside first_index_none [of pos "length self" "occurs_at self s"] by (simp add: sv_find_def)
    next
      case (Some k)
      then have "\<not> occurs_at self s j" if "pos \<le> j" "j < pos + k" for j using m that le_Suc_ex [OF that(1)] by auto
      moreover have "occurs_at self s (pos + k)" using m Some by simp
      ultimately have "first_index (occurs_at self s) (length self) pos = pos + k"
        by (intro first_index_eqI) (auto simp: occurs_at_def)
      then show ?thesis using Some inside by (simp add: sv_find_def)
    qed
  qed
qed

lemma sv_rfind_last: "sv_rfind self s pos = last_index (occurs_at self s) (length self) pos"
proof -
  have "sv_rfind self s pos = rfindT self s pos" by (simp add: sv_rfind_def rfindT_def)
  then show ?thesis by (simp add: rfindT_last)
qed

interpretation view_search: string_searcher sv_find sv_rfind
  by unfold_locales (simp_all add: sv_find_first sv_rfind_last)


section \<open>The character searches\<close>

lemma view_char_search:
  "sv_find_char self c pos = sp_find_char self c pos" "sv_rfind_char self c pos = sp_rfind_char self c pos"
  "sv_find_first_not_of_char self c pos = find_first_not_of_char self c pos"
  "sv_find_last_not_of_char self c pos = find_last_not_of_char self c pos"
  by (auto simp: sv_find_char_def sp_find_char_def sv_rfind_char_def sp_rfind_char_def Let_def
      sv_find_first_not_of_char_def find_first_not_of_char_def sv_find_last_not_of_char_def find_last_not_of_char_def)

lemma view_table: "LookupTable s = BuildLookupTable s (replicate 256 False)"
  by (simp add: LookupTable_def BuildLookupTable_def)

lemma view_of_exact:
  "sv_find_first_of self v pos = first_index (has_char (\<lambda>c. c \<in> set v) self) (length self) pos"
  "sv_find_first_not_of self v pos = first_index (has_char (\<lambda>c. c \<notin> set v) self) (length self) pos"
  "sv_find_last_of self v pos = last_index (has_char (\<lambda>c. c \<in> set v) self) (length self) pos"
  "sv_find_last_not_of self v pos = last_index (has_char (\<lambda>c. c \<notin> set v) self) (length self) pos"
  by (auto simp: sv_find_first_of_def sv_find_first_not_of_def sv_find_last_of_def sv_find_last_not_of_def
      view_char_search view_table of_simps find_char_first Let_def)

section \<open>Comparison\<close>

lemma sv_compare_eq: "sv_compare a x = sp_compare a x"
proof -
  define n where "n = min (length a) (length x)"
  have "traits_compare (take n a) (take n x) \<in> {-1, 0, 1}" by (rule traits_compare_range)
  then show ?thesis
    unfolding sv_compare_def sp_compare_def CompareImpl_def Let_def n_def [symmetric] by (cases "n = 0") auto
qed

lemma sv_eq_iff: "sv_eq x y \<longleftrightarrow> x = y"
  using traits_compare_eq [of x y] by (auto simp: sv_eq_def)

section \<open>Accessors\<close>

text \<open>With assertions no accessor reads outside of the view; only \<open>at\<close> and \<open>copy\<close> do not assert.\<close>

lemma read_inside: "piece_ok v \<Longrightarrow> i < sp_length v \<Longrightarrow> sv_read v i = Inr (sp_view v ! i)"
  by (simp add: sv_read_def at_exact)

lemma hardened_accessors:
  assumes "piece_ok v"
  shows "sv_index True v i = (if i < length (sp_view v) then Inr (sp_view v ! i) else Inl Aborted)"
    "sv_front True v = (if sp_view v \<noteq> [] then Inr (hd (sp_view v)) else Inl Aborted)"
    "sv_back True v = (if sp_view v \<noteq> [] then Inr (last (sp_view v)) else Inl Aborted)"
proof -
  have len: "length (sp_view v) = sp_length v" and lt: "sp_length v < 2 ^ 64" using piece_size [OF assms] by simp_all
  have empty: "0 < sp_length v \<longleftrightarrow> sp_view v \<noteq> []" using len [symmetric] by simp
  show "sv_index True v i = (if i < length (sp_view v) then Inr (sp_view v ! i) else Inl Aborted)"
    using read_inside [OF assms] len by (simp add: sv_index_def hardening_assert_def)
  show "sv_front True v = (if sp_view v \<noteq> [] then Inr (hd (sp_view v)) else Inl Aborted)"
    using read_inside [OF assms, of 0] len empty by (simp add: sv_front_def hardening_assert_def hd_conv_nth)
  have "sp_view v \<noteq> [] \<Longrightarrow> size_minus (sp_length v) 1 = sp_length v - 1"
    using lt empty by (intro size_minus_exact) auto
  then show "sv_back True v = (if sp_view v \<noteq> [] then Inr (last (sp_view v)) else Inl Aborted)"
    using read_inside [OF assms, of "sp_length v - 1"] len empty
    by (auto simp: sv_back_def hardening_assert_def last_conv_nth)
qed

lemma hardened_remove:
  assumes "piece_ok v"
  shows "sv_remove_prefix True n v = (if n \<le> sp_length v then Inr (remove_prefix n v) else Inl Aborted)"
    "sv_remove_suffix True n v = (if n \<le> sp_length v then Inr (remove_suffix n v) else Inl Aborted)"
  by (simp_all add: sv_remove_prefix_def sv_remove_suffix_def hardening_assert_def remove_prefix_def remove_suffix_def)

text \<open>\<open>substr\<close> of a view is clipped instead of wrapped, and \<open>ClippedSubstr\<close> clips as documented.\<close>

lemma sv_substr_exact:
  assumes "piece_ok v" "sp_length v \<le> kMaxSize"
  shows "\<exists>r. sv_substr hardening v pos n = Inr r \<and> piece_ok r \<and> sp_view r = take n (drop pos (sp_view v))"
proof (cases "pos \<le> sp_length v")
  case True
  have "size_minus (sp_length v) pos = sp_length v - pos" using True assms piece_size [of v] by (intro size_minus_exact) auto
  then have "sv_substr hardening v pos n = Inr (sp_substr v pos n)"
    using True assms(2) by (simp add: sv_substr_def sv_make_def hardening_assert_def sp_substr_def Let_def min.coboundedI2)
  then show ?thesis using substr_slice [OF assms(1) True, of n] by simp
next
  case False
  then show ?thesis using piece_size [OF assms(1)] by (simp add: sv_substr_def piece_ok_def sp_view_def npos_def)
qed

lemma ClippedSubstr_exact:
  assumes "piece_ok v" "sp_length v \<le> kMaxSize"
  shows "\<exists>r. ClippedSubstr hardening v pos n = Inr r \<and> piece_ok r \<and> sp_view r = take n (drop pos (sp_view v))"
  using sv_substr_exact [OF assms, of hardening "min pos (sp_length v)" n] piece_size [OF assms(1)]
  by (cases "pos \<le> sp_length v") (auto simp: ClippedSubstr_def min_def)

lemma sv_copy_exact:
  assumes "piece_ok v" "pos \<le> sp_length v"
  shows "sv_copy v n pos = Inr (take n (drop pos (sp_view v)), min n (sp_length v - pos))"
proof -
  have "size_minus (sp_length v) pos = sp_length v - pos" using assms piece_size [of v] by (intro size_minus_exact) auto
  then show ?thesis using assms by (auto simp: sv_copy_def piece_ok_def sp_view_def Let_def drop_take min.commute)
qed

lemma sv_at_past_end: "sp_length v \<le> i \<Longrightarrow> i < length (sp_ptr v) \<Longrightarrow> sv_at v i = Inr (sp_ptr v ! i)"
  by (simp add: sv_at_def sv_read_def sp_at_def)

section \<open>Properties\<close>

text \<open>C18: every search for a string, \<open>StringPiece::find\<close> and \<open>rfind\<close> at run time and in constant
  evaluation and \<open>string_view::find\<close> (with \<open>memmatch\<close>) and \<open>rfind\<close>, returns the least index from
  \<open>pos\<close> on, respectively the greatest index up to \<open>pos\<close>, where the string occurs, and \<open>npos\<close> if
  there is none.\<close>

theorem string_find_exact:
  fixes self v :: "u8 list"
  shows "sp_find ce self v pos =
      (if \<exists>i. pos \<le> i \<and> occurs_at self v i then LEAST i. pos \<le> i \<and> occurs_at self v i else npos) \<and>
    sp_rfind ce self v pos =
      (if \<exists>i. i \<le> pos \<and> occurs_at self v i then GREATEST i. i \<le> pos \<and> occurs_at self v i else npos) \<and>
    sv_find self v pos = sp_find ce self v pos \<and> sv_rfind self v pos = sp_rfind ce self v pos"
proof -
  have "occurs_at self v j \<Longrightarrow> j \<le> length self" for j by (simp add: occurs_at_def)
  then show ?thesis
    unfolding sp_find_first sp_rfind_last sv_find_first sv_rfind_last
    using first_index_Least [of "occurs_at self v" "length self" pos]
      last_index_Greatest [of "occurs_at self v" "length self" pos] by blast
qed

text \<open>The four searches for characters in or not in a set, in each of their implementations
  (constant evaluation, the 8-bit lookup table, the brute force for wide characters,
  \<open>string_view\<close>'s table), return the first or the last index with such a character; only the
  brute-force \<open>find_first_of\<close> needs its start inside the string.\<close>

theorem string_find_of_exact:
  fixes self v :: "u8 list"
  assumes "length self < npos" "length v < npos" "pos \<le> length self"
  shows "(\<forall>r \<in> {Some (sp_find_first_of ce self v pos), find_first_ofT self v pos, Some (sv_find_first_of self v pos)}.
      r = Some (first_index (has_char (\<lambda>c. c \<in> set v) self) (length self) pos)) \<and>
    (\<forall>r \<in> {sp_find_first_not_of ce self v pos, find_first_not_ofT self v pos, sv_find_first_not_of self v pos}.
      r = first_index (has_char (\<lambda>c. c \<notin> set v) self) (length self) pos) \<and>
    (\<forall>r \<in> {sp_find_last_of ce self v pos, find_last_ofT self v pos, sv_find_last_of self v pos}.
      r = last_index (has_char (\<lambda>c. c \<in> set v) self) (length self) pos) \<and>
    (\<forall>r \<in> {sp_find_last_not_of ce self v pos, find_last_not_ofT self v pos, sv_find_last_not_of self v pos}.
      r = last_index (has_char (\<lambda>c. c \<notin> set v) self) (length self) pos)"
  using assms by (simp add: first_of_exact last_of_exact first_ofT_exact brute_force_exact view_of_exact)

text \<open>\<open>compare\<close> of both classes is the lexicographic order of the characters as unsigned
  bytes: its sign tells which string comes first, and the operators \<open>==\<close> and \<open><\<close> are equality and
  that order.\<close>

theorem string_compare_order:
  "sgn (sp_compare a b) = (if ord_class.lexordp a b then -1 else if a = b then 0 else 1) \<and>
   sv_compare a b = sp_compare a b \<and> sp_compare b a = - sp_compare a b \<and>
   (sp_eq a b \<longleftrightarrow> a = b) \<and> (sv_eq a b \<longleftrightarrow> a = b) \<and>
   (sp_less a b \<longleftrightarrow> ord_class.lexordp a b) \<and> (sv_less a b \<longleftrightarrow> ord_class.lexordp a b)"
proof -
  have range: "sp_compare a b \<in> {-1, 0, 1}" "sp_compare b a \<in> {-1, 0, 1}" by (rule sp_compare_range)+
  then have "sp_compare b a = - sp_compare a b" using sp_compare_cases [of a b] sp_compare_cases [of b a] by auto
  then show ?thesis using range(1) sp_compare_cases [of a b] sv_eq_iff [of a b]
    by (auto simp: sp_eq_def sp_less_def sv_less_def sv_compare_eq)
qed

text \<open>With assertions compiled in, the accessors of a well-formed \<open>string_view\<close> return the
  character asked for or abort, and removing a prefix or a suffix aborts or leaves a well-formed
  view of the remaining characters; \<open>substr\<close> and \<open>ClippedSubstr\<close> never fail and clip to the view
  in every build.\<close>

theorem string_view_checked:
  assumes "piece_ok v" "sp_length v \<le> kMaxSize"
  shows "sv_index True v i = (if i < length (sp_view v) then Inr (sp_view v ! i) else Inl Aborted) \<and>
    sv_front True v = (if sp_view v \<noteq> [] then Inr (hd (sp_view v)) else Inl Aborted) \<and>
    sv_back True v = (if sp_view v \<noteq> [] then Inr (last (sp_view v)) else Inl Aborted) \<and>
    (if i \<le> length (sp_view v)
     then \<exists>p s. sv_remove_prefix True i v = Inr p \<and> piece_ok p \<and> sp_view p = drop i (sp_view v) \<and>
       sv_remove_suffix True i v = Inr s \<and> piece_ok s \<and> sp_view s @ drop (length (sp_view v) - i) (sp_view v) = sp_view v
     else sv_remove_prefix True i v = Inl Aborted \<and> sv_remove_suffix True i v = Inl Aborted) \<and>
    (\<exists>r c. sv_substr hardening v i n = Inr r \<and> piece_ok r \<and> sp_view r = take n (drop i (sp_view v)) \<and>
      ClippedSubstr hardening v i n = Inr c \<and> piece_ok c \<and> sp_view c = take n (drop i (sp_view v)))"
  using hardened_accessors [OF assms(1)] hardened_remove [OF assms(1), of i] prefix_suffix_slice [OF assms(1), of i]
    piece_size [OF assms(1)] sv_substr_exact [OF assms, of hardening i n] ClippedSubstr_exact [OF assms, of hardening i n]
  by auto

end
