(* ===== verification/Std_Heap.thy ===== *)
theory Std_Heap
  imports Order_Interfaces
begin

text \<open>
  \<open>std::push_heap\<close> and \<open>std::pop_heap\<close> on a vector, seen as a list.  The standard fixes what
  they achieve, not the order of the remaining elements; these are the usual sifting loops.
  The order is a strict weak order \<open>lt\<close>; the first element is a greatest one.
\<close>

definition heap_parent :: "nat \<Rightarrow> nat" where
  "heap_parent i = (i - 1) div 2"

definition swap_elems :: "'a list \<Rightarrow> nat \<Rightarrow> nat \<Rightarrow> 'a list" where
  "swap_elems xs i j = xs[i := xs ! j, j := xs ! i]"

function sift_up :: "('a \<Rightarrow> 'a \<Rightarrow> bool) \<Rightarrow> 'a list \<Rightarrow> nat \<Rightarrow> 'a list" where
  "sift_up lt xs i =
     (if i \<noteq> 0 \<and> lt (xs ! heap_parent i) (xs ! i) then sift_up lt (swap_elems xs i (heap_parent i)) (heap_parent i)
      else xs)"
  by pat_completeness auto
termination
  by (relation "measure (\<lambda>(_, _, i). i)") (auto simp: heap_parent_def)

definition bigger_child :: "('a \<Rightarrow> 'a \<Rightarrow> bool) \<Rightarrow> 'a list \<Rightarrow> nat \<Rightarrow> nat \<Rightarrow> nat" where
  "bigger_child lt xs n i =
     (if 2 * i + 2 < n \<and> lt (xs ! (2 * i + 1)) (xs ! (2 * i + 2)) then 2 * i + 2 else 2 * i + 1)"

function sift_down :: "('a \<Rightarrow> 'a \<Rightarrow> bool) \<Rightarrow> nat \<Rightarrow> 'a list \<Rightarrow> nat \<Rightarrow> 'a list" where
  "sift_down lt n xs i =
     (if 2 * i + 1 < n \<and> lt (xs ! i) (xs ! bigger_child lt xs n i)
      then sift_down lt n (swap_elems xs i (bigger_child lt xs n i)) (bigger_child lt xs n i)
      else xs)"
  by pat_completeness auto
termination
  by (relation "measure (\<lambda>(_, n, _, i). n - i)") (auto simp: bigger_child_def)

declare sift_up.simps [simp del] sift_down.simps [simp del]

definition std_push_heap :: "('a \<Rightarrow> 'a \<Rightarrow> bool) \<Rightarrow> 'a list \<Rightarrow> 'a list" where
  "std_push_heap lt xs = sift_up lt xs (length xs - 1)"

definition std_pop_heap :: "('a \<Rightarrow> 'a \<Rightarrow> bool) \<Rightarrow> 'a list \<Rightarrow> 'a list" where
  "std_pop_heap lt xs = sift_down lt (length xs - 1) (swap_elems xs 0 (length xs - 1)) 0"

text \<open>The first \<open>n\<close> elements are a heap.\<close>

definition is_heap :: "('a \<Rightarrow> 'a \<Rightarrow> bool) \<Rightarrow> nat \<Rightarrow> 'a list \<Rightarrow> bool" where
  "is_heap lt n xs \<longleftrightarrow> (\<forall>i. 0 < i \<and> i < n \<longrightarrow> \<not> lt (xs ! heap_parent i) (xs ! i))"

text \<open>They are a heap except that \<open>i\<close> may be greater than its parent, or smaller than a child.\<close>

definition heap_above :: "('a \<Rightarrow> 'a \<Rightarrow> bool) \<Rightarrow> nat \<Rightarrow> 'a list \<Rightarrow> nat \<Rightarrow> bool" where
  "heap_above lt n xs i \<longleftrightarrow>
     (\<forall>j. 0 < j \<and> j < n \<and> j \<noteq> i \<longrightarrow> \<not> lt (xs ! heap_parent j) (xs ! j)) \<and>
     (\<forall>j. 0 < j \<and> j < n \<and> heap_parent j = i \<and> 0 < i \<longrightarrow> \<not> lt (xs ! heap_parent i) (xs ! j))"

definition heap_below :: "('a \<Rightarrow> 'a \<Rightarrow> bool) \<Rightarrow> nat \<Rightarrow> 'a list \<Rightarrow> nat \<Rightarrow> bool" where
  "heap_below lt n xs i \<longleftrightarrow>
     (\<forall>j. 0 < j \<and> j < n \<and> heap_parent j \<noteq> i \<longrightarrow> \<not> lt (xs ! heap_parent j) (xs ! j)) \<and>
     (\<forall>j. 0 < j \<and> j < n \<and> heap_parent j = i \<and> 0 < i \<longrightarrow> \<not> lt (xs ! heap_parent i) (xs ! j))"

lemma heap_parent_less: "0 < i \<Longrightarrow> heap_parent i < i"
  by (simp add: heap_parent_def)

lemma heap_parent_iff: "0 < j \<Longrightarrow> heap_parent j = i \<longleftrightarrow> j = 2 * i + 1 \<or> j = 2 * i + 2"
  by (auto simp: heap_parent_def)

lemma length_swap_elems [simp]: "length (swap_elems xs i j) = length xs"
  by (simp add: swap_elems_def)

lemma nth_swap_elems:
  "i < length xs \<Longrightarrow> j < length xs \<Longrightarrow>
   swap_elems xs i j ! k = (if k = j then xs ! i else if k = i then xs ! j else xs ! k)"
  by (auto simp: swap_elems_def nth_list_update)

lemma mset_swap_elems: "i < length xs \<Longrightarrow> j < length xs \<Longrightarrow> mset (swap_elems xs i j) = mset xs"
  by (simp add: swap_elems_def mset_swap)

lemma length_sift_up [simp]: "length (sift_up lt xs i) = length xs"
  by (induction lt xs i rule: sift_up.induct) (subst sift_up.simps, simp)

context strict_weak_order
begin

lemma above_step:
  assumes "heap_above lt n xs i" "0 < i" "i < n" "n \<le> length xs" "lt (xs ! heap_parent i) (xs ! i)"
  shows "heap_above lt n (swap_elems xs i (heap_parent i)) (heap_parent i)"
proof -
  let ?p = "heap_parent i" and ?ys = "swap_elems xs i (heap_parent i)"
  have p: "?p < i" "?p < length xs" "i < length xs" using assms heap_parent_less [of i] by auto
  note nth = nth_swap_elems [OF p(3,2)]
  have old: "\<not> lt (xs ! heap_parent j) (xs ! j)" if "0 < j" "j < n" "j \<noteq> i" for j
    using assms(1) that by (simp add: heap_above_def)
  have "\<not> lt (?ys ! heap_parent j) (?ys ! j)" if j: "0 < j" "j < n" "j \<noteq> ?p" for j
  proof -
    consider "j = i" | "j \<noteq> i" "heap_parent j = i" | "j \<noteq> i" "heap_parent j = ?p"
      | "j \<noteq> i" "heap_parent j \<noteq> i" "heap_parent j \<noteq> ?p" by blast
    then show ?thesis
    proof cases
      case 1
      then show ?thesis using assms(5) p(1) lt_asym by (simp add: nth)
    next
      case 2
      then show ?thesis using assms(1,2) j p(1) by (simp add: nth heap_above_def)
    next
      case 3
      then have "\<not> lt (xs ! ?p) (xs ! j)" using old j by metis
      then show ?thesis using 3 j assms(5) lt_trans by (auto simp: nth)
    next
      case 4
      then show ?thesis using old j by (simp add: nth)
    qed
  qed
  moreover have "\<not> lt (?ys ! heap_parent ?p) (?ys ! j)" if j: "0 < j" "j < n" "heap_parent j = ?p" "0 < ?p" for j
  proof -
    have q: "heap_parent ?p < ?p" "j \<noteq> ?p" using heap_parent_less [OF j(4)] heap_parent_less [OF j(1)] j(3) by auto
    have up: "\<not> lt (xs ! heap_parent ?p) (xs ! ?p)" using old [of ?p] p assms(3) j(4) by simp
    moreover have "j \<noteq> i \<Longrightarrow> \<not> lt (xs ! ?p) (xs ! j)" using old [of j] j by simp
    ultimately show ?thesis using q p(1) incomp_trans by (cases "j = i") (auto simp: nth)
  qed
  ultimately show ?thesis unfolding heap_above_def by blast
qed

lemma above_done:
  assumes "heap_above lt n xs i" "i = 0 \<or> \<not> lt (xs ! heap_parent i) (xs ! i)"
  shows "is_heap lt n xs"
  using assms by (auto simp: heap_above_def is_heap_def)

lemma sift_up_heap:
  assumes "heap_above lt n xs i" "i < n" "n \<le> length xs"
  shows "is_heap lt n (sift_up lt xs i) \<and> mset (sift_up lt xs i) = mset xs"
  using assms
proof (induction i arbitrary: xs rule: less_induct)
  case (less i)
  show ?case
  proof (cases "i \<noteq> 0 \<and> lt (xs ! heap_parent i) (xs ! i)")
    case True
    let ?ys = "swap_elems xs i (heap_parent i)"
    have p: "heap_parent i < i" using True heap_parent_less by simp
    then have "is_heap lt n (sift_up lt ?ys (heap_parent i)) \<and> mset (sift_up lt ?ys (heap_parent i)) = mset ?ys"
      using True less.prems above_step by (intro less.IH) auto
    moreover have "mset ?ys = mset xs" using p less.prems by (intro mset_swap_elems) auto
    ultimately show ?thesis using True by (simp add: sift_up.simps [of lt xs i])
  next
    case False
    then show ?thesis using above_done [OF less.prems(1)] by (subst (1 2) sift_up.simps) auto
  qed
qed

lemma bigger_child_max:
  assumes "0 < j" "j < n" "heap_parent j = i"
  shows "\<not> lt (xs ! bigger_child lt xs n i) (xs ! j)"
  using assms lt_irrefl lt_asym by (auto simp: bigger_child_def heap_parent_iff)

lemma below_step:
  assumes "heap_below lt n xs i" "n \<le> length xs" "2 * i + 1 < n" "lt (xs ! i) (xs ! bigger_child lt xs n i)"
  shows "heap_below lt n (swap_elems xs i (bigger_child lt xs n i)) (bigger_child lt xs n i)"
proof -
  let ?c = "bigger_child lt xs n i"
  let ?ys = "swap_elems xs i ?c"
  have c: "i < ?c" "?c < n" "heap_parent ?c = i" "i < length xs" "?c < length xs"
    using assms(2,3) by (auto simp: bigger_child_def heap_parent_def)
  note nth = nth_swap_elems [OF c(4,5)]
  have old: "\<not> lt (xs ! heap_parent j) (xs ! j)" if "0 < j" "j < n" "heap_parent j \<noteq> i" for j
    using assms(1) that by (simp add: heap_below_def)
  have "\<not> lt (?ys ! heap_parent j) (?ys ! j)" if j: "0 < j" "j < n" "heap_parent j \<noteq> ?c" for j
  proof -
    consider "j = ?c" | "j \<noteq> ?c" "heap_parent j = i" | "j = i" | "j \<noteq> ?c" "j \<noteq> i" "heap_parent j \<noteq> i" by blast
    then show ?thesis
    proof cases
      case 1
      then show ?thesis using assms(4) c lt_asym by (simp add: nth)
    next
      case 2
      then have "j \<noteq> i" using heap_parent_less [OF j(1)] by auto
      then show ?thesis using 2 c bigger_child_max [of j n i xs] j by (simp add: nth)
    next
      case 3
      then have "heap_parent i \<noteq> i" using heap_parent_less [of i] j by simp
      moreover have "\<not> lt (xs ! heap_parent i) (xs ! ?c)" using assms(1) c 3 j by (simp add: heap_below_def)
      ultimately show ?thesis using 3 c j by (simp add: nth)
    next
      case 4
      then show ?thesis using old j by (simp add: nth)
    qed
  qed
  moreover have "\<not> lt (?ys ! heap_parent ?c) (?ys ! j)" if j: "0 < j" "j < n" "heap_parent j = ?c" for j
  proof -
    have "?c < j" using heap_parent_less [OF j(1)] j(3) by simp
    then show ?thesis using old [of j] j c by (simp add: nth)
  qed
  ultimately show ?thesis unfolding heap_below_def by blast
qed

lemma below_done:
  assumes "heap_below lt n xs i" "\<not> (2 * i + 1 < n \<and> lt (xs ! i) (xs ! bigger_child lt xs n i))"
  shows "is_heap lt n xs"
  unfolding is_heap_def
proof (intro allI impI)
  fix j assume j: "0 < j \<and> j < n"
  show "\<not> lt (xs ! heap_parent j) (xs ! j)"
  proof (cases "heap_parent j = i")
    case True
    then have "2 * i + 1 < n" using j by (auto simp: heap_parent_iff)
    then show ?thesis using assms(2) True bigger_child_max [of j n i xs] j incomp_trans by blast
  qed (use assms(1) j in \<open>simp add: heap_below_def\<close>)
qed

lemma sift_down_heap:
  assumes "heap_below lt n xs i" "n \<le> length xs"
  shows "is_heap lt n (sift_down lt n xs i) \<and> mset (sift_down lt n xs i) = mset xs \<and>
    (\<forall>j \<ge> n. sift_down lt n xs i ! j = xs ! j) \<and> length (sift_down lt n xs i) = length xs"
  using assms
proof (induction "n - i" arbitrary: i xs rule: less_induct)
  case less
  show ?case
  proof (cases "2 * i + 1 < n \<and> lt (xs ! i) (xs ! bigger_child lt xs n i)")
    case True
    let ?c = "bigger_child lt xs n i"
    let ?ys = "swap_elems xs i ?c"
    have c: "i < ?c" "?c < n" using True by (auto simp: bigger_child_def)
    have "is_heap lt n (sift_down lt n ?ys ?c) \<and> mset (sift_down lt n ?ys ?c) = mset ?ys \<and>
        (\<forall>j \<ge> n. sift_down lt n ?ys ?c ! j = ?ys ! j) \<and> length (sift_down lt n ?ys ?c) = length ?ys"
      using True less.prems below_step c by (intro less.hyps) auto
    moreover have "mset ?ys = mset xs" using c less.prems by (intro mset_swap_elems) auto
    moreover have "\<forall>j \<ge> n. ?ys ! j = xs ! j" using c less.prems by (auto simp: nth_swap_elems)
    ultimately show ?thesis using True by (simp add: sift_down.simps [of lt n xs i])
  next
    case False
    then have "sift_down lt n xs i = xs" by (subst sift_down.simps) auto
    then show ?thesis using below_done [OF less.prems(1) False] by simp
  qed
qed

lemma push_heap_ok:
  assumes "is_heap lt (length xs) xs"
  shows "is_heap lt (Suc (length xs)) (std_push_heap lt (xs @ [x])) \<and>
    mset (std_push_heap lt (xs @ [x])) = add_mset x (mset xs)"
proof -
  have "heap_above lt (Suc (length xs)) (xs @ [x]) (length xs)"
    unfolding heap_above_def
  proof (intro conjI allI impI)
    fix j assume j: "0 < j \<and> j < Suc (length xs) \<and> j \<noteq> length xs"
    then have "heap_parent j < length xs" using heap_parent_less [of j] by simp
    then show "\<not> lt ((xs @ [x]) ! heap_parent j) ((xs @ [x]) ! j)"
      using j assms by (simp add: is_heap_def nth_append)
  next
    fix j assume "0 < j \<and> j < Suc (length xs) \<and> heap_parent j = length xs \<and> 0 < length xs"
    then show "\<not> lt ((xs @ [x]) ! heap_parent (length xs)) ((xs @ [x]) ! j)" using heap_parent_less [of j] by auto
  qed
  then show ?thesis using sift_up_heap [of "Suc (length xs)" "xs @ [x]" "length xs"] by (simp add: std_push_heap_def)
qed

lemma heap_top_max: "is_heap lt n xs \<Longrightarrow> i < n \<Longrightarrow> \<not> lt (xs ! 0) (xs ! i)"
proof (induction i rule: less_induct)
  case (less i)
  show ?case
  proof (cases "i = 0")
    case False
    then have "\<not> lt (xs ! 0) (xs ! heap_parent i)" using less heap_parent_less [of i] by simp
    moreover have "\<not> lt (xs ! heap_parent i) (xs ! i)" using less.prems False by (simp add: is_heap_def)
    ultimately show ?thesis by (rule incomp_trans)
  qed (simp add: lt_irrefl)
qed

lemma pop_heap_ok:
  assumes "is_heap lt (length xs) xs" "xs \<noteq> []"
  defines "ys \<equiv> std_pop_heap lt xs"
  shows "is_heap lt (length (butlast ys)) (butlast ys) \<and> last ys = xs ! 0 \<and> ys \<noteq> [] \<and>
    add_mset (xs ! 0) (mset (butlast ys)) = mset xs"
proof -
  let ?n = "length xs - 1"
  let ?zs = "swap_elems xs 0 ?n"
  have len: "0 < length xs" "?n < length xs" using assms(2) by simp_all
  have "heap_below lt ?n ?zs 0"
    unfolding heap_below_def
  proof (intro conjI allI impI)
    fix j assume j: "0 < j \<and> j < ?n \<and> heap_parent j \<noteq> 0"
    then have "heap_parent j < ?n" "j < length xs" using heap_parent_less [of j] by auto
    moreover from this have "\<not> lt (xs ! heap_parent j) (xs ! j)" using j assms(1) by (simp add: is_heap_def)
    ultimately show "\<not> lt (?zs ! heap_parent j) (?zs ! j)" using j len by (simp add: nth_swap_elems)
  qed simp
  then have d: "is_heap lt ?n ys" "mset ys = mset ?zs" "\<forall>j \<ge> ?n. ys ! j = ?zs ! j" "length ys = length xs"
    using sift_down_heap [of ?n ?zs 0] by (auto simp: ys_def std_pop_heap_def)
  then have ne: "ys \<noteq> []" using assms(2) by auto
  have lst: "last ys = xs ! 0" using d(3,4) ne len by (auto simp: last_conv_nth nth_swap_elems)
  have "is_heap lt (length (butlast ys)) (butlast ys)"
    unfolding is_heap_def
  proof (intro allI impI)
    fix i assume i: "0 < i \<and> i < length (butlast ys)"
    then have "heap_parent i < length (butlast ys)" using heap_parent_less [of i] by simp
    then show "\<not> lt (butlast ys ! heap_parent i) (butlast ys ! i)"
      using i d(1,4) by (simp add: is_heap_def nth_butlast)
  qed
  moreover have "mset ys = mset xs" using d(2) mset_swap_elems [OF len] by simp
  moreover have "mset ys = add_mset (last ys) (mset (butlast ys))"
    using append_butlast_last_id [OF ne] by (metis add_mset_add_single mset_append mset_single_iff_right union_mset_add_mset_right)
  ultimately show ?thesis using lst ne by simp
qed

text \<open>The two algorithms make a priority queue of a vector.\<close>

lemma heap_queue:
  "priority_queue lt (\<lambda>h. is_heap lt (length h) h) mset (\<lambda>h x. std_push_heap lt (h @ [x])) (\<lambda>h. h ! 0) (\<lambda>h. butlast (std_pop_heap lt h))"
proof (intro_locales, unfold_locales)
  fix q :: "'a list" and x
  assume q: "is_heap lt (length q) q"
  have "length (std_push_heap lt (q @ [x])) = Suc (length q)"
    using push_heap_ok [of q x] q by (metis size_add_mset size_mset)
  then show "is_heap lt (length (std_push_heap lt (q @ [x]))) (std_push_heap lt (q @ [x])) \<and>
      mset (std_push_heap lt (q @ [x])) = add_mset x (mset q)"
    using push_heap_ok [of q x] q by simp
  show "x \<in># mset q \<Longrightarrow> \<not> lt (q ! 0) x"
    using heap_top_max [of "length q" q] q by (auto simp: in_set_conv_nth)
  assume "mset q \<noteq> {#}"
  then have ne: "q \<noteq> []" by auto
  then show "q ! 0 \<in># mset q" by simp
  show "is_heap lt (length (butlast (std_pop_heap lt q))) (butlast (std_pop_heap lt q)) \<and>
      mset (butlast (std_pop_heap lt q)) = mset q - {#q ! 0#}"
    using pop_heap_ok [of q] q ne by (metis add_mset_remove_trivial)
qed

end

end
