(* ===== verification/Message_Queue.thy ===== *)
theory Message_Queue
  imports Std_Heap
begin

text \<open>
  \<open>MessageQueue\<close> of \<open>mojo/core/ports/message_queue.cc\<close>: the incoming user messages of a port, a
  heap ordered by sequence number, from which only the message with the next expected number
  is handed out.  Sequence numbers are 64-bit words.  A message is its number, the size
  \<open>GetSizeIfSerialized\<close> reports and a body the queue does not look at.
\<close>

record 'm user_message =
  sequence_num :: u64
  serialized_size :: u64
  body :: 'm

record 'm message_queue =
  q_heap :: "'m user_message list"
  next_sequence_num :: u64
  signalable :: bool
  total_queued_bytes :: u64

definition kInitialSequenceNum :: u64 where
  "kInitialSequenceNum = 1"

text \<open>\<open>operator<\<close> on messages: the standard heap then has the smallest number first.\<close>

definition later :: "'m user_message \<Rightarrow> 'm user_message \<Rightarrow> bool" where
  "later a b \<longleftrightarrow> sequence_num a > sequence_num b"

definition MessageQueue :: "u64 \<Rightarrow> 'm message_queue" where
  "MessageQueue n = \<lparr>q_heap = [], next_sequence_num = n, signalable = True, total_queued_bytes = 0\<rparr>"

definition HasNextMessage :: "'m message_queue \<Rightarrow> bool" where
  "HasNextMessage q \<longleftrightarrow> q_heap q \<noteq> [] \<and> sequence_num (q_heap q ! 0) = next_sequence_num q"

definition GetNextMessage ::
  "('m user_message \<Rightarrow> bool) option \<Rightarrow> 'm message_queue \<Rightarrow> 'm user_message option \<times> 'm message_queue" where
  "GetNextMessage filt q =
     (if \<not> HasNextMessage q \<or> (case filt of None \<Rightarrow> False | Some match \<Rightarrow> \<not> match (q_heap q ! 0)) then (None, q)
      else
        let h = std_pop_heap later (q_heap q); message = last h in
        (Some message,
         q\<lparr>q_heap := butlast h, total_queued_bytes := total_queued_bytes q - serialized_size message\<rparr>))"

definition AcceptMessage :: "'m user_message \<Rightarrow> 'm message_queue \<Rightarrow> bool \<times> 'm message_queue" where
  "AcceptMessage message q =
     (let q = q\<lparr>total_queued_bytes := total_queued_bytes q + serialized_size message\<rparr>;
          q = q\<lparr>q_heap := std_push_heap later (q_heap q @ [message])\<rparr> in
      (if \<not> signalable q then False else sequence_num (q_heap q ! 0) = next_sequence_num q, q))"

definition TakeAllMessages :: "'m message_queue \<Rightarrow> 'm user_message list \<times> 'm message_queue" where
  "TakeAllMessages q = (q_heap q, q\<lparr>q_heap := [], total_queued_bytes := 0\<rparr>)"

definition MessageProcessed :: "'m message_queue \<Rightarrow> 'm message_queue" where
  "MessageProcessed q = q\<lparr>next_sequence_num := next_sequence_num q + 1\<rparr>"

definition set_signalable :: "bool \<Rightarrow> 'm message_queue \<Rightarrow> 'm message_queue" where
  "set_signalable b q = q\<lparr>signalable := b\<rparr>"

text \<open>What \<open>Node::GetMessage\<close> does with the queue: the message goes to the user and counts as
  processed.\<close>

definition receive_message ::
  "('m user_message \<Rightarrow> bool) option \<Rightarrow> 'm message_queue \<Rightarrow> 'm user_message option \<times> 'm message_queue" where
  "receive_message filt q =
     (case GetNextMessage filt q of
        (None, q) \<Rightarrow> (None, q)
      | (Some message, q) \<Rightarrow> (Some message, MessageProcessed q))"

section \<open>The heap of messages\<close>

interpretation later: strict_weak_order later
  by unfold_locales (auto simp: later_def)

definition q_inv :: "'m user_message list \<Rightarrow> bool" where
  "q_inv h \<longleftrightarrow> is_heap later (length h) h"

interpretation message_heap: priority_queue later q_inv mset "\<lambda>h m. std_push_heap later (h @ [m])"
    "\<lambda>h. h ! 0" "\<lambda>h. butlast (std_pop_heap later h)"
  using later.heap_queue by (simp add: q_inv_def [abs_def])

section \<open>Order of delivery\<close>

text \<open>Messages arrive and are asked for in any order.\<close>

datatype 'm queue_event = Arrives "'m user_message" | Asks "('m user_message \<Rightarrow> bool) option"

fun queue_run :: "'m queue_event list \<Rightarrow> 'm message_queue \<Rightarrow> 'm user_message list \<times> 'm message_queue" where
  "queue_run [] q = ([], q)"
| "queue_run (Arrives m # es) q = queue_run es (snd (AcceptMessage m q))"
| "queue_run (Asks filt # es) q =
     (case receive_message filt q of (r, q) \<Rightarrow>
        case queue_run es q of (ms, q) \<Rightarrow> ((case r of None \<Rightarrow> ms | Some m \<Rightarrow> m # ms), q))"

fun arrivals :: "'m queue_event list \<Rightarrow> 'm user_message list" where
  "arrivals [] = []"
| "arrivals (Arrives m # es) = m # arrivals es"
| "arrivals (Asks _ # es) = arrivals es"

text \<open>The queue after \<open>acc\<close> arrived and \<open>del\<close> was delivered, starting with number \<open>n\<close>.\<close>

definition queue_at :: "u64 \<Rightarrow> 'm user_message list \<Rightarrow> 'm user_message list \<Rightarrow> 'm message_queue \<Rightarrow> bool" where
  "queue_at n acc del q \<longleftrightarrow>
     q_inv (q_heap q) \<and> total_queued_bytes q = sum_list (map serialized_size (q_heap q)) \<and>
     next_sequence_num q = n + of_nat (length del) \<and> unat n + length del \<le> 2 ^ 64 \<and>
     mset acc = mset del + mset (q_heap q) \<and> distinct (map sequence_num acc) \<and>
     map (\<lambda>m. unat (sequence_num m)) del = [unat n..<unat n + length del] \<and>
     (\<forall>m \<in> set (q_heap q). unat n + length del \<le> unat (sequence_num m))"

lemma bytes_mset: "mset xs = mset ys \<Longrightarrow> sum_list (map serialized_size xs) = sum_list (map serialized_size ys)"
  by (metis mset_map sum_mset_sum_list)

lemma queue_at_start: "queue_at n [] [] (MessageQueue n)"
proof -
  have "unat n < 2 ^ LENGTH(64)" by (rule unsigned_less)
  then show ?thesis by (simp add: queue_at_def MessageQueue_def q_inv_def is_heap_def)
qed

lemma accept_at:
  assumes "queue_at n acc del q" "n \<le> sequence_num m" "sequence_num m \<notin> sequence_num ` set acc"
  shows "queue_at n (acc @ [m]) del (snd (AcceptMessage m q))"
proof -
  let ?h = "std_push_heap later (q_heap q @ [m])"
  have h: "q_inv ?h" "mset ?h = add_mset m (mset (q_heap q))"
    using assms(1) message_heap.ins_ok [of "q_heap q" m] by (auto simp: queue_at_def)
  have "sum_list (map serialized_size ?h) = sum_list (map serialized_size (m # q_heap q))"
    using h(2) by (intro bytes_mset) simp
  moreover have "unat n + length del \<le> unat (sequence_num m)"
  proof (rule ccontr)
    assume "\<not> unat n + length del \<le> unat (sequence_num m)"
    then have "unat (sequence_num m) \<in> set [unat n..<unat n + length del]"
      using assms(2) by (simp add: word_le_nat_alt)
    then have "unat (sequence_num m) \<in> set (map (\<lambda>m. unat (sequence_num m)) del)"
      using assms(1) unfolding queue_at_def by metis
    then obtain m' where "m' \<in> set del" "sequence_num m = sequence_num m'"
      by (auto simp: word_unat_eq_iff)
    moreover have "set del \<subseteq> set acc" using assms(1) unfolding queue_at_def by (metis mset_subset_eq_add_left set_mset_mono set_mset_mset)
    ultimately show False using assms(3) by auto
  qed
  moreover have "set ?h = insert m (set (q_heap q))" using arg_cong [OF h(2), of set_mset] by simp
  ultimately show ?thesis using assms(1,3) h by (simp add: queue_at_def AcceptMessage_def Let_def)
qed

text \<open>The first message of the heap has the smallest number.\<close>

lemma heap_front:
  assumes "queue_at n acc del q" "m \<in> set (q_heap q)"
  shows "q_heap q ! 0 \<in> set (q_heap q)" "sequence_num (q_heap q ! 0) \<le> sequence_num m"
proof -
  show "q_heap q ! 0 \<in> set (q_heap q)" using assms(2) by (cases "q_heap q") auto
  show "sequence_num (q_heap q ! 0) \<le> sequence_num m"
    using message_heap.top_max [of "q_heap q" m] assms by (auto simp: queue_at_def later_def not_less)
qed

lemma unat_next:
  assumes "unat n + k < 2 ^ 64"
  shows "unat (n + of_nat k :: u64) = unat n + k"
proof -
  have "unat (of_nat k :: u64) = k" using assms by (simp add: unsigned_of_nat take_bit_nat_eq_self)
  then show ?thesis using assms by (simp add: unat_word_ariths)
qed

lemma HasNext_iff:
  assumes "queue_at n acc del q"
  shows "HasNextMessage q \<longleftrightarrow> (\<exists>m \<in># mset acc - mset del. sequence_num m = next_sequence_num q)"
proof -
  have bag: "mset acc - mset del = mset (q_heap q)" using assms by (simp add: queue_at_def)
  show ?thesis
  proof
    assume "HasNextMessage q"
    then show "\<exists>m \<in># mset acc - mset del. sequence_num m = next_sequence_num q"
      unfolding bag HasNextMessage_def by (intro bexI [of _ "q_heap q ! 0"]) auto
  next
    assume "\<exists>m \<in># mset acc - mset del. sequence_num m = next_sequence_num q"
    then obtain m where m: "m \<in> set (q_heap q)" "sequence_num m = next_sequence_num q" unfolding bag by auto
    have low: "unat n + length del \<le> unat (sequence_num m')" if "m' \<in> set (q_heap q)" for m'
      using assms that by (simp add: queue_at_def)
    have "unat (sequence_num m) < 2 ^ LENGTH(64)" by (rule unsigned_less)
    then have "unat (next_sequence_num q) = unat n + length del"
      using assms low [OF m(1)] by (simp add: queue_at_def unat_next)
    then have "sequence_num (q_heap q ! 0) = next_sequence_num q"
      using low [OF heap_front(1) [OF assms m(1)]] heap_front(2) [OF assms m(1)] m(2)
      by (simp add: word_unat_eq_iff word_le_nat_alt)
    then show "HasNextMessage q" using m by (auto simp: HasNextMessage_def)
  qed
qed

lemma receive_at:
  assumes "queue_at n acc del q" "receive_message filt q = (r, q')"
  shows "queue_at n acc (del @ (case r of None \<Rightarrow> [] | Some m \<Rightarrow> [m])) q'"
proof (cases "\<not> HasNextMessage q \<or> (case filt of None \<Rightarrow> False | Some match \<Rightarrow> \<not> match (q_heap q ! 0))")
  case True
  then show ?thesis using assms by (auto simp: receive_message_def GetNextMessage_def)
next
  case False
  let ?h = "std_pop_heap later (q_heap q)" and ?m = "q_heap q ! 0"
  have ne: "q_heap q \<noteq> []" "sequence_num ?m = next_sequence_num q" using False by (auto simp: HasNextMessage_def)
  have inv: "q_inv (q_heap q)" using assms(1) by (simp add: queue_at_def)
  have pop: "last ?h = ?m" "q_inv (butlast ?h)" "add_mset ?m (mset (butlast ?h)) = mset (q_heap q)"
    using later.pop_heap_ok [of "q_heap q"] inv ne by (auto simp: q_inv_def)
  have r: "r = Some ?m" "q' = MessageProcessed (q\<lparr>q_heap := butlast ?h,
      total_queued_bytes := total_queued_bytes q - serialized_size ?m\<rparr>)"
    using False assms(2) pop(1) by (simp_all add: receive_message_def GetNextMessage_def Let_def)
  have bytes: "sum_list (map serialized_size (q_heap q)) = serialized_size ?m + sum_list (map serialized_size (butlast ?h))"
    using bytes_mset [of "q_heap q" "?m # butlast ?h"] pop(3) by simp
  have low: "unat n + length del \<le> unat (sequence_num m)" if "m \<in> set (q_heap q)" for m
    using assms(1) that by (simp add: queue_at_def)
  have "unat (sequence_num ?m) < 2 ^ LENGTH(64)" by (rule unsigned_less)
  moreover have "?m \<in> set (q_heap q)" using ne(1) by simp
  ultimately have num: "unat n + length del < 2 ^ 64" using low [of ?m] by simp
  then have seq: "unat (sequence_num ?m) = unat n + length del" using ne(2) assms(1) by (simp add: queue_at_def unat_next)
  have later: "Suc (unat n + length del) \<le> unat (sequence_num m)" if "m \<in> set (butlast ?h)" for m
  proof -
    have "mset acc = mset (del @ ?m # butlast ?h)" using assms(1) pop(3) by (simp add: queue_at_def)
    then have "mset (map sequence_num acc) = mset (map sequence_num (del @ ?m # butlast ?h))" by (simp only: mset_map)
    then have "distinct (map sequence_num (del @ ?m # butlast ?h))"
      using assms(1) mset_eq_imp_distinct_iff unfolding queue_at_def by blast
    then have "sequence_num ?m \<notin> sequence_num ` set (butlast ?h)" by simp
    then have "sequence_num m \<noteq> sequence_num ?m" using that by (metis imageI)
    then have "unat (sequence_num m) \<noteq> unat n + length del" using seq by (simp add: word_unat_eq_iff)
    moreover have "m \<in> set (q_heap q)" using that arg_cong [OF pop(3), of set_mset] by auto
    ultimately show ?thesis using low [of m] by linarith
  qed
  have "mset acc = mset del + add_mset ?m (mset (butlast ?h))" "total_queued_bytes q = sum_list (map serialized_size (q_heap q))"
    "next_sequence_num q = n + of_nat (length del)" "distinct (map sequence_num acc)"
    "map (\<lambda>m. unat (sequence_num m)) del = [unat n..<unat n + length del]"
    using assms(1) pop(3) by (auto simp: queue_at_def)
  then show ?thesis
    using pop(2) bytes num seq later unfolding r by (simp add: queue_at_def MessageProcessed_def)
qed

lemma run_at:
  assumes "queue_at n acc del q" "queue_run es q = (ms, q')"
    "distinct (map sequence_num (acc @ arrivals es))" "\<forall>m \<in> set (arrivals es). n \<le> sequence_num m"
  shows "queue_at n (acc @ arrivals es) (del @ ms) q'"
  using assms
proof (induction es arbitrary: acc del q ms)
  case (Cons e es)
  show ?case
  proof (cases e)
    case (Arrives m)
    then have "queue_at n (acc @ [m]) del (snd (AcceptMessage m q))"
      using Cons.prems by (intro accept_at) auto
    then show ?thesis using Cons.IH [of "acc @ [m]"] Cons.prems Arrives by simp
  next
    case (Asks filt)
    obtain r q1 where r: "receive_message filt q = (r, q1)" by (cases "receive_message filt q")
    obtain ms1 where ms: "queue_run es q1 = (ms1, q')" "ms = (case r of None \<Rightarrow> ms1 | Some m \<Rightarrow> m # ms1)"
      using Cons.prems(2) Asks r by (auto split: prod.splits)
    then show ?thesis
      using Cons.IH [OF receive_at [OF Cons.prems(1) r], of ms1] Cons.prems Asks by (cases r) auto
  qed
qed simp

lemma AcceptMessage_signal: "fst (AcceptMessage m q) \<longleftrightarrow> signalable q \<and> HasNextMessage (snd (AcceptMessage m q))"
proof -
  have "std_push_heap later (q_heap q @ [m]) \<noteq> []" by (simp add: std_push_heap_def flip: length_0_conv)
  then show ?thesis by (simp add: AcceptMessage_def HasNextMessage_def Let_def)
qed

lemma arrivals_delivered:
  assumes "queue_run es (MessageQueue n) = (ms, q)"
    "distinct (map sequence_num (arrivals es))" "\<forall>m \<in> set (arrivals es). n \<le> sequence_num m"
  shows "queue_at n (arrivals es) ms q"
  using run_at [OF queue_at_start assms(1)] assms(2,3) by simp

text \<open>\<open>has_next_message\<close> is not an edge trigger: while the next message waits to be read every
  further arrival reports it again.\<close>

lemma accept_signals_again:
  assumes "queue_at n acc del q" "HasNextMessage q" "signalable q" "n \<le> sequence_num m"
    "sequence_num m \<notin> sequence_num ` set acc"
  shows "fst (AcceptMessage m q)"
proof -
  let ?q = "snd (AcceptMessage m q)"
  have "\<exists>m' \<in># mset acc - mset del. sequence_num m' = next_sequence_num q"
    using HasNext_iff [OF assms(1)] assms(2) by blast
  moreover have "next_sequence_num ?q = next_sequence_num q" by (simp add: AcceptMessage_def Let_def)
  moreover have "mset acc - mset del \<subseteq># mset (acc @ [m]) - mset del" by (auto simp: subseteq_mset_def)
  ultimately have "HasNextMessage ?q"
    using HasNext_iff [OF accept_at [OF assms(1,4,5)]] by (metis mset_subset_eqD)
  then show ?thesis using assms(3) by (simp add: AcceptMessage_signal)
qed

text \<open>When the numbers wrap around, the message after the last number hides that number.\<close>

lemma rollover_blocks:
  "\<not> HasNextMessage (snd (AcceptMessage \<lparr>sequence_num = 0, serialized_size = 8, body = b\<rparr>
     (snd (AcceptMessage \<lparr>sequence_num = 18446744073709551615, serialized_size = 8, body = a\<rparr>
       (MessageQueue 18446744073709551615)))))"
  by (simp add: AcceptMessage_def MessageQueue_def HasNextMessage_def std_push_heap_def sift_up.simps
      heap_parent_def swap_elems_def later_def Let_def)

text \<open>C24: whatever order the messages of a port arrive in and whenever they are asked for, the queue
  hands out exactly the numbers from the first one on, in order and without gaps, each with
  its own message; nothing is lost, the number of queued bytes is exact, and a message is
  waiting exactly when the one with the next number has arrived and was not handed out.\<close>

theorem message_queue_in_order:
  assumes "queue_run es (MessageQueue n) = (ms, q)"
    and "distinct (map sequence_num (arrivals es))" and "\<forall>m \<in> set (arrivals es). n \<le> sequence_num m"
  shows "map (\<lambda>m. unat (sequence_num m)) ms = [unat n..<unat n + length ms] \<and>
    mset (arrivals es) = mset ms + mset (q_heap q) \<and>
    total_queued_bytes q = sum_list (map serialized_size (q_heap q)) \<and>
    (HasNextMessage q \<longleftrightarrow> (\<exists>m \<in># mset (arrivals es) - mset ms. sequence_num m = next_sequence_num q)) \<and>
    next_sequence_num q = n + of_nat (length ms)"
  using arrivals_delivered [OF assms] HasNext_iff [OF arrivals_delivered [OF assms]] by (simp add: queue_at_def)

definition demo_message :: "u64 \<Rightarrow> nat user_message" where
  "demo_message i = \<lparr>sequence_num = i, serialized_size = 10, body = unat i\<rparr>"

theorem message_queue_in_order_witness:
  "\<exists>ms q. queue_run [Arrives (demo_message 2), Asks None, Arrives (demo_message 1), Asks None, Asks None]
      (MessageQueue kInitialSequenceNum) = (ms, q) \<and> map (\<lambda>m. unat (sequence_num m)) ms = [1, 2] \<and> q_heap q = []"
proof -
  let ?es = "[Arrives (demo_message 2), Asks None, Arrives (demo_message 1), Asks None, Asks None]"
  obtain ms q where r: "queue_run ?es (MessageQueue kInitialSequenceNum) = (ms, q)"
    by (cases "queue_run ?es (MessageQueue kInitialSequenceNum)")
  then have "length ms = 2" "q_heap q = []"
    by (auto simp: receive_message_def GetNextMessage_def HasNextMessage_def AcceptMessage_def MessageProcessed_def
        MessageQueue_def kInitialSequenceNum_def demo_message_def std_push_heap_def std_pop_heap_def sift_up.simps
        sift_down.simps bigger_child_def heap_parent_def swap_elems_def later_def Let_def)
  then show ?thesis
    using message_queue_in_order [OF r] r
    by (auto simp: demo_message_def kInitialSequenceNum_def upt_rec)
qed

end
