(* ===== verification/Mojo_Types.thy ===== *)
theory Mojo_Types
  imports Sparo_Prelude
begin

text \<open>
  The result codes, handles and signals the parts of mojo share
  (\<open>mojo/public/c/system/types.h\<close>).
\<close>

datatype MojoResult =
    MOJO_RESULT_OK | MOJO_RESULT_CANCELLED | MOJO_RESULT_UNKNOWN | MOJO_RESULT_INVALID_ARGUMENT
  | MOJO_RESULT_DEADLINE_EXCEEDED | MOJO_RESULT_NOT_FOUND | MOJO_RESULT_ALREADY_EXISTS
  | MOJO_RESULT_PERMISSION_DENIED | MOJO_RESULT_RESOURCE_EXHAUSTED | MOJO_RESULT_FAILED_PRECONDITION
  | MOJO_RESULT_ABORTED | MOJO_RESULT_OUT_OF_RANGE | MOJO_RESULT_UNIMPLEMENTED | MOJO_RESULT_INTERNAL
  | MOJO_RESULT_UNAVAILABLE | MOJO_RESULT_DATA_LOSS | MOJO_RESULT_BUSY | MOJO_RESULT_SHOULD_WAIT

type_synonym MojoHandle = u64

definition MOJO_HANDLE_INVALID :: MojoHandle where
  "MOJO_HANDLE_INVALID = 0"

text \<open>A signals state: which signals are satisfied, and which may still become so.\<close>

datatype signal = READABLE | WRITABLE | PEER_CLOSED | NEW_DATA_READABLE | PEER_REMOTE | QUOTA_EXCEEDED

record signals_state =
  satisfied_signals :: "signal set"
  satisfiable_signals :: "signal set"

end
