(* ===== verification/Handle_Table.thy ===== *)
theory Handle_Table
  imports Mojo_Types
begin

text \<open>
  \<open>HandleTable\<close> of \<open>mojo/core/handle_table.cc\<close>: the dispatchers a process holds under handles,
  with a cache of the last lookup, and the protocol by which handles leave in a message
  (\<open>BeginTransit\<close>, then \<open>CompleteTransitAndClose\<close> or \<open>CancelTransit\<close>).  Dispatchers are
  references \<open>'d\<close>; their virtual functions are arguments that act on a state \<open>'s\<close> of all
  dispatchers.  Every function runs under the table's lock.
\<close>

section \<open>The table\<close>

record 'd entry =
  e_dispatcher :: 'd
  e_busy :: bool

record 'd handle_table =
  handles :: "MojoHandle \<rightharpoonup> 'd entry"
  last_read_dispatcher :: "'d option"
  last_read_handle :: MojoHandle
  next_available_handle :: MojoHandle

definition HandleTable :: "'d handle_table" where
  "HandleTable = \<lparr>handles = Map.empty, last_read_dispatcher = None, last_read_handle = MOJO_HANDLE_INVALID,
     next_available_handle = 1\<rparr>"

definition Entry :: "'d \<Rightarrow> 'd entry" where
  "Entry d = \<lparr>e_dispatcher = d, e_busy = False\<rparr>"

datatype RemovalCondition = kRemoveOnlyIfBusy | kRemoveOnlyIfNotBusy

definition ea_Add :: "MojoHandle \<Rightarrow> 'd entry \<Rightarrow> 'd handle_table \<Rightarrow> bool \<times> 'd handle_table" where
  "ea_Add handle entry t =
     (case handles t handle of
        None \<Rightarrow> (True, t\<lparr>handles := (handles t)(handle \<mapsto> entry)\<rparr>)
      | Some _ \<Rightarrow> (False, t))"

definition ea_GetDispatcher :: "MojoHandle \<Rightarrow> 'd handle_table \<Rightarrow> 'd option \<times> 'd handle_table" where
  "ea_GetDispatcher handle t =
     (if last_read_handle t \<noteq> MOJO_HANDLE_INVALID \<and> last_read_handle t = handle then (last_read_dispatcher t, t)
      else case handles t handle of
        None \<Rightarrow> (None, t)
      | Some e \<Rightarrow>
          (Some (e_dispatcher e), t\<lparr>last_read_handle := handle, last_read_dispatcher := Some (e_dispatcher e)\<rparr>))"

text \<open>\<open>GetMutable\<close> gives a reference; here the entry is replaced with \<open>set_busy\<close>.\<close>

definition ea_GetMutable :: "MojoHandle \<Rightarrow> 'd handle_table \<Rightarrow> 'd entry option" where
  "ea_GetMutable handle t = handles t handle"

definition set_busy :: "MojoHandle \<Rightarrow> 'd entry \<Rightarrow> bool \<Rightarrow> 'd handle_table \<Rightarrow> 'd handle_table" where
  "set_busy handle e b t = t\<lparr>handles := (handles t)(handle \<mapsto> e\<lparr>e_busy := b\<rparr>)\<rparr>"

definition ea_Remove ::
  "MojoHandle \<Rightarrow> RemovalCondition \<Rightarrow> 'd handle_table \<Rightarrow> MojoResult \<times> 'd option \<times> 'd handle_table" where
  "ea_Remove handle removal_condition t =
     (case handles t handle of
        None \<Rightarrow> (MOJO_RESULT_NOT_FOUND, None, t)
      | Some e \<Rightarrow>
          let is_busy = e_busy e;
              remove_only_if_busy = (removal_condition = kRemoveOnlyIfBusy);
              (dispatcher, t) =
                (if remove_only_if_busy = is_busy then
                   let t = (if handle = last_read_handle t
                            then t\<lparr>last_read_handle := MOJO_HANDLE_INVALID, last_read_dispatcher := None\<rparr> else t)
                   in (Some (e_dispatcher e), t\<lparr>handles := (handles t)(handle := None)\<rparr>)
                 else (None, t)) in
          (if is_busy then MOJO_RESULT_BUSY else MOJO_RESULT_OK, dispatcher, t))"

definition AddDispatcher :: "'d \<Rightarrow> 'd handle_table \<Rightarrow> MojoHandle \<times> 'd handle_table" where
  "AddDispatcher dispatcher t =
     (if next_available_handle t = MOJO_HANDLE_INVALID then (MOJO_HANDLE_INVALID, t)
      else
        let handle = next_available_handle t;
            t = t\<lparr>next_available_handle := next_available_handle t + 1\<rparr> in
        (handle, snd (ea_Add handle (Entry dispatcher) t)))"

fun add_from_transit :: "'d option list \<Rightarrow> 'd handle_table \<Rightarrow> MojoHandle list \<times> 'd handle_table" where
  "add_from_transit [] t = ([], t)"
| "add_from_transit (dispatcher # ds) t =
     (let (handle, t) =
        (case dispatcher of
           None \<Rightarrow> (MOJO_HANDLE_INVALID, t)
         | Some d \<Rightarrow>
             let handle = next_available_handle t;
                 t = t\<lparr>next_available_handle := next_available_handle t + 1\<rparr> in
             (handle, snd (ea_Add handle (Entry d) t)))
      in case add_from_transit ds t of (hs, t) \<Rightarrow> (handle # hs, t))"

definition AddDispatchersFromTransit ::
  "'d option list \<Rightarrow> 'd handle_table \<Rightarrow> MojoHandle list option \<times> 'd handle_table" where
  "AddDispatchersFromTransit dispatchers t =
     (if next_available_handle t = MOJO_HANDLE_INVALID then (None, t)
      else
        let num_handles_available = - 1 - next_available_handle t + 1 in
        if unat num_handles_available < length dispatchers then (None, t)
        else case add_from_transit dispatchers t of (hs, t) \<Rightarrow> (Some hs, t))"

definition GetDispatcher :: "MojoHandle \<Rightarrow> 'd handle_table \<Rightarrow> 'd option \<times> 'd handle_table" where
  "GetDispatcher handle t = ea_GetDispatcher handle t"

definition GetAndRemoveDispatcher :: "MojoHandle \<Rightarrow> 'd handle_table \<Rightarrow> (MojoResult + 'd) \<times> 'd handle_table" where
  "GetAndRemoveDispatcher handle t =
     (case ea_Remove handle kRemoveOnlyIfNotBusy t of
        (remove_result, removed_dispatcher, t) \<Rightarrow>
          if remove_result = MOJO_RESULT_NOT_FOUND then (Inl MOJO_RESULT_INVALID_ARGUMENT, t)
          else if remove_result = MOJO_RESULT_BUSY then (Inl MOJO_RESULT_BUSY, t)
          else (Inr (the removed_dispatcher), t))"

section \<open>Transit\<close>

text \<open>A dispatcher in transit with its local handle.\<close>

type_synonym 'd in_transit = "MojoHandle \<times> 'd"

fun ht_BeginTransit ::
  "('d \<Rightarrow> 's \<Rightarrow> bool \<times> 's) \<Rightarrow> MojoHandle list \<Rightarrow> 'd handle_table \<Rightarrow> 's \<Rightarrow>
   MojoResult \<times> 'd in_transit list \<times> 'd handle_table \<times> 's" where
  "ht_BeginTransit begin_transit [] t s = (MOJO_RESULT_OK, [], t, s)"
| "ht_BeginTransit begin_transit (handle # hs) t s =
     (case ea_GetMutable handle t of
        None \<Rightarrow> (MOJO_RESULT_INVALID_ARGUMENT, [], t, s)
      | Some e \<Rightarrow>
          if e_busy e then (MOJO_RESULT_BUSY, [], t, s)
          else case begin_transit (e_dispatcher e) s of (ok, s) \<Rightarrow>
            if \<not> ok then (MOJO_RESULT_BUSY, [], t, s)
            else case ht_BeginTransit begin_transit hs (set_busy handle e True t) s of
              (r, ds, t, s) \<Rightarrow> (r, (handle, e_dispatcher e) # ds, t, s))"

fun ht_CompleteTransitAndClose ::
  "('d \<Rightarrow> 's \<Rightarrow> 's) \<Rightarrow> 'd in_transit list \<Rightarrow> 'd handle_table \<Rightarrow> 's \<Rightarrow> 'd handle_table \<times> 's" where
  "ht_CompleteTransitAndClose complete [] t s = (t, s)"
| "ht_CompleteTransitAndClose complete ((handle, d) # ds) t s =
     (case ea_Remove handle kRemoveOnlyIfBusy t of
        (remove_result, _, t) \<Rightarrow> ht_CompleteTransitAndClose complete ds t (complete d s))"

text \<open>\<open>None\<close>: a null entry is dereferenced.\<close>

fun ht_CancelTransit ::
  "('d \<Rightarrow> 's \<Rightarrow> 's) \<Rightarrow> 'd in_transit list \<Rightarrow> 'd handle_table \<Rightarrow> 's \<Rightarrow> ('d handle_table \<times> 's) option" where
  "ht_CancelTransit cancel [] t s = Some (t, s)"
| "ht_CancelTransit cancel ((handle, d) # ds) t s =
     (case ea_GetMutable handle t of
        None \<Rightarrow> None
      | Some e \<Rightarrow> ht_CancelTransit cancel ds (set_busy handle e False t) (cancel d s))"

section \<open>The invariant\<close>

text \<open>The number of the next handle; \<open>2 ^ 64\<close> when there is none left.\<close>

definition next_number :: "'d handle_table \<Rightarrow> nat" where
  "next_number t = (if next_available_handle t = 0 then 2 ^ 64 else unat (next_available_handle t))"

text \<open>The cache agrees with the map, and only handles given out are in the map.\<close>

definition ht_ok :: "'d handle_table \<Rightarrow> bool" where
  "ht_ok t \<longleftrightarrow>
     (last_read_handle t \<noteq> 0 \<longrightarrow>
        (\<exists>e. handles t (last_read_handle t) = Some e \<and> last_read_dispatcher t = Some (e_dispatcher e))) \<and>
     (\<forall>h \<in> dom (handles t). 0 < unat h \<and> unat h < next_number t)"

definition ht_lookup :: "'d handle_table \<Rightarrow> MojoHandle \<Rightarrow> 'd option" where
  "ht_lookup t h = map_option e_dispatcher (handles t h)"

lemma ht_ok_start: "ht_ok HandleTable"
  by (simp add: ht_ok_def HandleTable_def MOJO_HANDLE_INVALID_def)

text \<open>Giving out one handle.\<close>

lemma next_number_Suc:
  assumes "next_available_handle t \<noteq> 0"
  shows "next_number (t\<lparr>next_available_handle := next_available_handle t + 1\<rparr>) = Suc (next_number t)"
proof (cases "next_available_handle t + 1 = 0")
  case True
  then have "next_available_handle t = - 1" by (simp add: eq_neg_iff_add_eq_0)
  then have "unat (next_available_handle t) = 2 ^ 64 - 1" by (simp add: unsigned_minus_1_eq_mask mask_eq_exp_minus_1)
  then show ?thesis using assms True by (simp add: next_number_def)
next
  case False
  then have "unat (next_available_handle t + 1) = Suc (unat (next_available_handle t))"
    using unatSuc [of "next_available_handle t"] by (simp add: add.commute)
  then show ?thesis using assms False by (simp add: next_number_def)
qed

lemma give_out:
  fixes d :: 'd
  assumes "ht_ok t" "next_available_handle t \<noteq> 0"
  defines "h \<equiv> next_available_handle t"
  defines "t' \<equiv> snd (ea_Add h (Entry d) (t\<lparr>next_available_handle := next_available_handle t + 1\<rparr>))"
  shows "ht_ok t' \<and> unat h = next_number t \<and> next_number t' = Suc (next_number t) \<and>
    handles t' = (handles t)(h \<mapsto> Entry d) \<and> h \<notin> dom (handles t)"
proof -
  have num: "unat h = next_number t" using assms(2) by (simp add: next_number_def h_def)
  then have new: "h \<notin> dom (handles t)" using assms(1) unfolding ht_ok_def by (metis less_irrefl)
  then have t': "t' = t\<lparr>next_available_handle := h + 1, handles := (handles t)(h \<mapsto> Entry d)\<rparr>"
    by (auto simp: t'_def ea_Add_def h_def split: option.splits)
  then have upd: "handles t' = (handles t)(h \<mapsto> Entry d)" by simp
  have "next_number t' = next_number (t\<lparr>next_available_handle := next_available_handle t + 1\<rparr>)"
    by (simp add: next_number_def t' h_def)
  then have n: "next_number t' = Suc (next_number t)" using next_number_Suc [OF assms(2)] by simp
  have "0 < unat h" using assms(2) by (simp add: h_def unat_gt_0)
  then have "ht_ok t'"
    using assms(1) new n num unfolding ht_ok_def
    by (auto simp: t' less_Suc_eq)
  then show ?thesis using num new upd n by blast
qed

text \<open>Changing the busy mark or the cache.\<close>

lemma set_busy_ok:
  assumes "ht_ok t" "handles t h = Some e"
  shows "ht_ok (set_busy h e b t)" "next_number (set_busy h e b t) = next_number t"
    "dom (handles (set_busy h e b t)) = dom (handles t)"
proof -
  show d: "dom (handles (set_busy h e b t)) = dom (handles t)" using assms(2) by (auto simp: set_busy_def)
  show n: "next_number (set_busy h e b t) = next_number t" by (simp add: set_busy_def next_number_def)
  show "ht_ok (set_busy h e b t)" using assms unfolding ht_ok_def d n by (auto simp: set_busy_def)
qed

lemma GetDispatcher_ok:
  assumes "ht_ok t" "GetDispatcher h t = (x, t')"
  shows "x = ht_lookup t h \<and> ht_ok t' \<and> handles t' = handles t \<and> next_number t' = next_number t"
  using assms
  by (auto simp: GetDispatcher_def ea_GetDispatcher_def ht_lookup_def ht_ok_def next_number_def MOJO_HANDLE_INVALID_def
      split: if_splits option.splits)

lemma Remove_ok:
  assumes "ht_ok t" "ea_Remove h c t = (r, x, t')"
  shows "ht_ok t' \<and> next_number t' = next_number t \<and>
    (case handles t h of
       None \<Rightarrow> r = MOJO_RESULT_NOT_FOUND \<and> x = None \<and> handles t' = handles t
     | Some e \<Rightarrow> r = (if e_busy e then MOJO_RESULT_BUSY else MOJO_RESULT_OK) \<and>
         (if (c = kRemoveOnlyIfBusy) = e_busy e then x = Some (e_dispatcher e) \<and> handles t' = (handles t)(h := None)
          else x = None \<and> handles t' = handles t))"
  using assms
  by (auto simp: ea_Remove_def ht_ok_def next_number_def MOJO_HANDLE_INVALID_def Let_def
      split: option.splits if_splits)

section \<open>Handing in many dispatchers\<close>

lemma add_from_transit_ok:
  assumes "ht_ok t" "next_number t + length (filter (\<lambda>d. d \<noteq> None) ds) \<le> 2 ^ 64" "add_from_transit ds t = (hs, t')"
  shows "ht_ok t' \<and> next_number t' = next_number t + length (filter (\<lambda>d. d \<noteq> None) ds) \<and> length hs = length ds \<and>
    map unat (filter (\<lambda>h. h \<noteq> 0) hs) = [next_number t..<next_number t'] \<and>
    dom (handles t') = dom (handles t) \<union> (set hs - {0}) \<and>
    (\<forall>i < length ds. (hs ! i = 0 \<longleftrightarrow> ds ! i = None)) \<and>
    (\<forall>i < length ds. hs ! i \<noteq> 0 \<longrightarrow> ht_lookup t' (hs ! i) = ds ! i) \<and>
    (\<forall>h. h \<notin> set hs - {0} \<longrightarrow> handles t' h = handles t h)"
  using assms
proof (induction ds arbitrary: t hs)
  case (Cons d ds)
  show ?case
  proof (cases d)
    case None
    then obtain hs1 where hs: "add_from_transit ds t = (hs1, t')" "hs = 0 # hs1"
      using Cons.prems(3) by (auto simp: MOJO_HANDLE_INVALID_def split: prod.splits)
    then show ?thesis
      using Cons.IH [OF Cons.prems(1) _ hs(1)] Cons.prems(2) None by (auto simp: less_Suc_eq_0_disj nth_Cons')
  next
    case (Some d')
    let ?h = "next_available_handle t"
    let ?t = "snd (ea_Add ?h (Entry d') (t\<lparr>next_available_handle := ?h + 1\<rparr>))"
    have ne: "?h \<noteq> 0" using Cons.prems(2) Some by (auto simp: next_number_def)
    have g: "ht_ok ?t" "unat ?h = next_number t" "next_number ?t = Suc (next_number t)"
      "handles ?t = (handles t)(?h \<mapsto> Entry d')" "?h \<notin> dom (handles t)"
      using give_out [OF Cons.prems(1) ne, of d'] by blast+
    obtain hs1 where hs: "add_from_transit ds ?t = (hs1, t')" "hs = ?h # hs1"
      using Cons.prems(3) Some by (auto simp: Let_def split: prod.splits)
    have bound: "next_number ?t + length (filter (\<lambda>d. d \<noteq> None) ds) \<le> 2 ^ 64" using Cons.prems(2) Some g(3) by simp
    note IH = Cons.IH [OF g(1) bound hs(1)]
    have "?h \<notin> set hs1 - {0}"
    proof
      assume "?h \<in> set hs1 - {0}"
      then have "unat ?h \<in> set (map unat (filter (\<lambda>h. h \<noteq> 0) hs1))" by simp
      then have "unat ?h \<in> set [next_number ?t..<next_number t']" using IH by (simp del: set_map)
      then show False using g(2,3) by simp
    qed
    then have "handles t' ?h = handles ?t ?h" using IH by blast
    then have "ht_lookup t' ?h = Some d'" using g(4) by (simp add: ht_lookup_def Entry_def)
    moreover have "next_number t < next_number t'" using IH g(3) by simp
    then have "[next_number t..<next_number t'] = next_number t # [next_number ?t..<next_number t']"
      using upt_conv_Cons g(3) by simp
    ultimately show ?thesis
      using IH g ne Some hs(2) by (auto simp: less_Suc_eq_0_disj nth_Cons' simp del: upt_Suc split: if_split_asm)
  qed
qed auto

section \<open>Handles in transit\<close>

text \<open>The entries of \<open>ds\<close> with the given busy mark.\<close>

definition marked :: "bool \<Rightarrow> 'd in_transit list \<Rightarrow> 'd handle_table \<Rightarrow> bool" where
  "marked b ds t \<longleftrightarrow> distinct (map fst ds) \<and> (\<forall>(h, d) \<in> set ds. handles t h = Some \<lparr>e_dispatcher = d, e_busy = b\<rparr>)"

lemma marked_Cons:
  "marked b ((h, d) # ds) t \<longleftrightarrow>
   h \<notin> fst ` set ds \<and> handles t h = Some \<lparr>e_dispatcher = d, e_busy = b\<rparr> \<and> marked b ds t"
  by (auto simp: marked_def)

lemma marked_cong: "(\<And>h. h \<in> fst ` set ds \<Longrightarrow> handles t h = handles t' h) \<Longrightarrow> marked b ds t = marked b ds t'"
  by (force simp: marked_def)

lemma begin_marks:
  assumes "ht_ok t" "ht_BeginTransit begin_transit hs t s = (r, ds, t', s')"
  shows "ht_ok t' \<and> next_number t' = next_number t \<and> dom (handles t') = dom (handles t) \<and>
    map fst ds = take (length ds) hs \<and> marked False ds t \<and> marked True ds t' \<and>
    (\<forall>h. h \<notin> fst ` set ds \<longrightarrow> handles t' h = handles t h) \<and> (r = MOJO_RESULT_OK \<longleftrightarrow> length ds = length hs)"
  using assms
proof (induction hs arbitrary: t s ds)
  case (Cons h hs)
  show ?case
  proof (cases "\<exists>e. handles t h = Some e \<and> \<not> e_busy e \<and> fst (begin_transit (e_dispatcher e) s)")
    case False
    then have "ds = [] \<and> t' = t \<and> r \<noteq> MOJO_RESULT_OK"
      using Cons.prems(2) by (auto simp: ea_GetMutable_def split: option.splits if_splits prod.splits)
    then show ?thesis using Cons.prems(1) by (auto simp: marked_def)
  next
    case True
    then obtain e s1 where e: "handles t h = Some e" "\<not> e_busy e" "begin_transit (e_dispatcher e) s = (True, s1)"
      by (metis prod.collapse)
    let ?t = "set_busy h e True t"
    obtain ds1 where ds: "ht_BeginTransit begin_transit hs ?t s1 = (r, ds1, t', s')" "ds = (h, e_dispatcher e) # ds1"
      using Cons.prems(2) e by (auto simp: ea_GetMutable_def split: prod.splits)
    note IH = Cons.IH [OF set_busy_ok(1) [OF Cons.prems(1) e(1)] ds(1)]
    note busy = set_busy_ok [OF Cons.prems(1) e(1), of True]
    have upd: "handles ?t = (handles t)(h \<mapsto> \<lparr>e_dispatcher = e_dispatcher e, e_busy = True\<rparr>)"
      by (cases e) (simp add: set_busy_def)
    have h: "h \<notin> fst ` set ds1" using IH upd by (auto simp: marked_def)
    have "marked False ds1 t = marked False ds1 ?t" using h upd by (intro marked_cong) auto
    moreover have "handles t' h = Some \<lparr>e_dispatcher = e_dispatcher e, e_busy = True\<rparr>" using IH h upd by simp
    moreover have "handles t h = Some \<lparr>e_dispatcher = e_dispatcher e, e_busy = False\<rparr>" using e by (cases e) simp
    ultimately show ?thesis using IH busy ds(2) h upd by (auto simp: marked_Cons)
  qed
qed (simp add: marked_def)

lemma cancel_unmarks:
  assumes "ht_ok t" "marked True ds t"
  shows "\<exists>t' s'. ht_CancelTransit cancel ds t s = Some (t', s') \<and> ht_ok t' \<and> next_number t' = next_number t \<and>
    marked False ds t' \<and> (\<forall>h. h \<notin> fst ` set ds \<longrightarrow> handles t' h = handles t h)"
  using assms
proof (induction ds arbitrary: t s)
  case (Cons x ds)
  obtain h d where x: "x = (h, d)" by (cases x)
  let ?e = "\<lparr>e_dispatcher = d, e_busy = True\<rparr>"
  have h: "handles t h = Some ?e" "h \<notin> fst ` set ds" "marked True ds t" using Cons.prems(2) x by (auto simp: marked_Cons)
  let ?t = "set_busy h ?e False t"
  have upd: "handles ?t = (handles t)(h \<mapsto> \<lparr>e_dispatcher = d, e_busy = False\<rparr>)" by (simp add: set_busy_def)
  have "marked True ds ?t = marked True ds t" using h(2) upd by (intro marked_cong) auto
  then have "marked True ds ?t" using h(3) by blast
  then obtain t' s' where c: "ht_CancelTransit cancel ds ?t (cancel d s) = Some (t', s')" "ht_ok t'"
      "next_number t' = next_number ?t" "marked False ds t'" "\<forall>h. h \<notin> fst ` set ds \<longrightarrow> handles t' h = handles ?t h"
    using Cons.IH [OF set_busy_ok(1) [OF Cons.prems(1) h(1)]] by blast
  have "handles t' h = Some \<lparr>e_dispatcher = d, e_busy = False\<rparr>" using c(5) h(2) upd by simp
  then have "marked False (x # ds) t'" using c(4) h(2) x by (simp add: marked_Cons)
  moreover have "\<forall>k. k \<notin> fst ` set (x # ds) \<longrightarrow> handles t' k = handles t k" using c(5) upd x by simp
  ultimately show ?case using c(1-3) h(1) x set_busy_ok(2) [OF Cons.prems(1) h(1), of False] by (simp add: ea_GetMutable_def)
qed (simp add: marked_def)

lemma complete_removes:
  assumes "ht_ok t" "ht_CompleteTransitAndClose complete ds t s = (t', s')"
  shows "ht_ok t' \<and> next_number t' = next_number t \<and> dom (handles t') \<subseteq> dom (handles t) \<and>
    (marked True ds t \<longrightarrow> handles t' = (\<lambda>h. if h \<in> fst ` set ds then None else handles t h))"
  using assms
proof (induction ds arbitrary: t s)
  case (Cons x ds)
  obtain h d where x: "x = (h, d)" by (cases x)
  obtain r y t1 where rm: "ea_Remove h kRemoveOnlyIfBusy t = (r, y, t1)" by (cases "ea_Remove h kRemoveOnlyIfBusy t")
  note R = Remove_ok [OF Cons.prems(1) rm]
  have dom1: "dom (handles t1) \<subseteq> dom (handles t)" using R by (auto split: option.splits if_splits)
  have IH: "ht_ok t' \<and> next_number t' = next_number t1 \<and> dom (handles t') \<subseteq> dom (handles t1) \<and>
      (marked True ds t1 \<longrightarrow> handles t' = (\<lambda>h. if h \<in> fst ` set ds then None else handles t1 h))"
    using Cons.IH [of t1 "complete d s"] Cons.prems(2) R rm x by simp
  show ?case
  proof (cases "marked True (x # ds) t")
    case True
    then have h: "handles t1 = (handles t)(h := None)" "h \<notin> fst ` set ds" "marked True ds t"
      using R x by (auto simp: marked_Cons)
    have "marked True ds t1 = marked True ds t" using h(1,2) by (intro marked_cong) auto
    then have "handles t' = (\<lambda>k. if k \<in> fst ` set ds then None else handles t1 k)" using IH h(3) by blast
    then have "handles t' = (\<lambda>k. if k \<in> fst ` set (x # ds) then None else handles t k)" using h(1) x by (auto simp: fun_eq_iff)
    moreover have "dom (handles t') \<subseteq> dom (handles t)" using IH dom1 by blast
    ultimately show ?thesis using IH R by simp
  next
    case False
    moreover have "dom (handles t') \<subseteq> dom (handles t)" using IH dom1 by blast
    ultimately show ?thesis using IH R by simp
  qed
qed simp

section \<open>Histories\<close>

text \<open>One call on the table, the valid handles it gave out, and the state of the dispatchers.\<close>

inductive table_step :: "'d handle_table \<times> 's \<Rightarrow> MojoHandle list \<Rightarrow> 'd handle_table \<times> 's \<Rightarrow> bool" where
  add: "AddDispatcher d t = (h, t') \<Longrightarrow> table_step (t, s) (filter (\<lambda>h. h \<noteq> 0) [h]) (t', s)"
| add_many: "AddDispatchersFromTransit ds t = (r, t') \<Longrightarrow>
    table_step (t, s) (case r of None \<Rightarrow> [] | Some hs \<Rightarrow> filter (\<lambda>h. h \<noteq> 0) hs) (t', s)"
| look: "GetDispatcher h t = (x, t') \<Longrightarrow> table_step (t, s) [] (t', s)"
| remove: "GetAndRemoveDispatcher h t = (r, t') \<Longrightarrow> table_step (t, s) [] (t', s)"
| send: "ht_BeginTransit b hs t s = (r, ds, t', s') \<Longrightarrow> table_step (t, s) [] (t', s')"
| sent: "ht_CompleteTransitAndClose c ds t s = (t', s') \<Longrightarrow> table_step (t, s) [] (t', s')"
| unsent: "marked True ds t \<Longrightarrow> ht_CancelTransit c ds t s = Some (t', s') \<Longrightarrow> table_step (t, s) [] (t', s')"
| other: "table_step (t, s) [] (t, s')"

inductive table_run :: "'d handle_table \<times> 's \<Rightarrow> MojoHandle list \<Rightarrow> 'd handle_table \<times> 's \<Rightarrow> bool" where
  start: "table_run x [] x"
| step: "table_run x hs y \<Longrightarrow> table_step y hs' z \<Longrightarrow> table_run x (hs @ hs') z"

text \<open>What every call keeps: the handles it gives out are the next numbers.\<close>

definition issues :: "'d handle_table \<Rightarrow> MojoHandle list \<Rightarrow> 'd handle_table \<Rightarrow> bool" where
  "issues t hs t' \<longleftrightarrow> ht_ok t' \<and> map unat hs = [next_number t..<next_number t'] \<and> next_number t \<le> next_number t' \<and>
     dom (handles t') \<subseteq> dom (handles t) \<union> set hs"

lemma add_issues:
  assumes "ht_ok t" "AddDispatcher d t = (h, t')"
  shows "issues t (filter (\<lambda>h. h \<noteq> 0) [h]) t'"
proof (cases "next_available_handle t = 0")
  case True
  then show ?thesis using assms by (auto simp: AddDispatcher_def issues_def MOJO_HANDLE_INVALID_def)
next
  case False
  then have "h = next_available_handle t"
      "t' = snd (ea_Add h (Entry d) (t\<lparr>next_available_handle := next_available_handle t + 1\<rparr>))"
    using assms(2) by (auto simp: AddDispatcher_def MOJO_HANDLE_INVALID_def Let_def)
  then show ?thesis using give_out [OF assms(1) False, of d] False by (auto simp: issues_def)
qed

lemma handles_left: "next_available_handle t \<noteq> 0 \<Longrightarrow> unat (- 1 - next_available_handle t + 1) = 2 ^ 64 - next_number t"
proof -
  assume n: "next_available_handle t \<noteq> 0"
  have "unat (0 - next_available_handle t) = 2 ^ 64 - unat (next_available_handle t)"
    using n by (simp only: unat_sub_if_size word_size) (simp add: unat_eq_zero)
  then show ?thesis using n by (simp add: next_number_def)
qed

lemma add_many_issues:
  assumes "ht_ok t" "AddDispatchersFromTransit ds t = (r, t')"
  shows "issues t (case r of None \<Rightarrow> [] | Some hs \<Rightarrow> filter (\<lambda>h. h \<noteq> 0) hs) t'"
proof (cases r)
  case None
  then have "t' = t" using assms(2) by (auto simp: AddDispatchersFromTransit_def Let_def split: if_splits prod.splits)
  then show ?thesis using None assms(1) by (simp add: issues_def)
next
  case (Some hs)
  then have a: "next_available_handle t \<noteq> 0" "length ds \<le> unat (- 1 - next_available_handle t + 1)"
      "add_from_transit ds t = (hs, t')"
    using assms(2) by (auto simp: AddDispatchersFromTransit_def MOJO_HANDLE_INVALID_def Let_def split: if_splits prod.splits)
  have "next_number t \<le> 2 ^ 64"
    using unsigned_less [of "next_available_handle t", where 'a = nat] by (simp add: next_number_def)
  moreover have "length (filter (\<lambda>d. d \<noteq> None) ds) \<le> length ds" by simp
  ultimately have "next_number t + length (filter (\<lambda>d. d \<noteq> None) ds) \<le> 2 ^ 64"
    using a(1,2) handles_left [of t] by linarith
  then show ?thesis using add_from_transit_ok [OF assms(1) _ a(3)] Some by (auto simp: issues_def)
qed

lemma remove_issues:
  assumes "ht_ok t" "GetAndRemoveDispatcher h t = (r, t')"
  shows "issues t [] t'"
proof -
  obtain r1 x t1 where rm: "ea_Remove h kRemoveOnlyIfNotBusy t = (r1, x, t1)" by (cases "ea_Remove h kRemoveOnlyIfNotBusy t")
  then have "t' = t1" using assms(2) by (auto simp: GetAndRemoveDispatcher_def split: if_splits)
  then show ?thesis using Remove_ok [OF assms(1) rm] by (auto simp: issues_def split: option.splits if_splits)
qed

lemma cancel_issues:
  assumes "ht_ok t" "marked True ds t" "ht_CancelTransit c ds t s = Some (t', s')"
  shows "issues t [] t'"
proof -
  obtain u: "ht_ok t'" "next_number t' = next_number t" "\<forall>h. h \<notin> fst ` set ds \<longrightarrow> handles t' h = handles t h"
    using cancel_unmarks [OF assms(1,2), of c s] assms(3) by auto
  have "h \<in> dom (handles t)" if "h \<in> dom (handles t')" for h
    using that u(3) assms(2) by (cases "h \<in> fst ` set ds") (auto simp: marked_def)
  then show ?thesis using u by (auto simp: issues_def)
qed

lemma step_issues: "table_step x hs y \<Longrightarrow> ht_ok (fst x) \<Longrightarrow> issues (fst x) hs (fst y)"
proof (induction rule: table_step.induct)
  case (look h t x t' s)
  then show ?case using GetDispatcher_ok [of t h x t'] by (auto simp: issues_def)
next
  case (send b hs t s r ds t' s')
  then show ?case using begin_marks [of t b hs s r ds t' s'] by (auto simp: issues_def)
next
  case (sent c ds t s t' s')
  then show ?case using complete_removes [of t c ds s t' s'] by (auto simp: issues_def)
next
  case (other t s s')
  then show ?case by (simp add: issues_def)
qed (simp_all only: fst_conv add_issues add_many_issues remove_issues cancel_issues)

lemma run_issues: "table_run x hs y \<Longrightarrow> ht_ok (fst x) \<Longrightarrow> issues (fst x) hs (fst y)"
proof (induction rule: table_run.induct)
  case (step x hs y hs' z)
  then have a: "issues (fst x) hs (fst y)" by blast
  then have b: "issues (fst y) hs' (fst z)" using step_issues [OF step.hyps(2)] by (simp add: issues_def)
  let ?n = "\<lambda>x. next_number (fst x)"
  have "[?n x..<?n z] = [?n x..<?n y] @ [?n y..<?n z]"
    using a b upt_add_eq_append [of "?n x" "?n y" "?n z - ?n y"] by (simp add: issues_def)
  moreover have "dom (handles (fst z)) \<subseteq> dom (handles (fst x)) \<union> set (hs @ hs')"
    using a b unfolding issues_def by fastforce
  ultimately show ?case using a b by (simp add: issues_def)
qed (simp add: issues_def)

text \<open>C26: however a handle table is used, no handle is given out twice, the invalid handle never is,
  and only handles given out are ever in the table; a lookup, through its cache, returns the
  dispatcher of the entry and changes no entry.\<close>

theorem handles_unique:
  assumes "table_run (HandleTable, s0) hs (t, s)"
  shows "distinct hs \<and> MOJO_HANDLE_INVALID \<notin> set hs \<and> dom (handles t) \<subseteq> set hs \<and>
    fst (GetDispatcher h t) = map_option e_dispatcher (handles t h) \<and> handles (snd (GetDispatcher h t)) = handles t"
proof -
  have i: "issues HandleTable hs t" using run_issues [OF assms] ht_ok_start by simp
  then have m: "map unat hs = [1..<next_number t]" by (simp add: issues_def HandleTable_def next_number_def)
  then have "distinct (map unat hs)" by simp
  then have "distinct hs" using distinct_map by blast
  moreover have "0 \<notin> set hs"
  proof
    assume "0 \<in> set hs"
    then have "unat (0 :: u64) \<in> set (map unat hs)" by (simp only: set_map imageI)
    then show False unfolding m by simp
  qed
  moreover have "dom (handles t) \<subseteq> set hs" using i by (simp add: issues_def HandleTable_def)
  moreover have "ht_ok t" using i by (simp add: issues_def)
  ultimately show ?thesis
    using GetDispatcher_ok [of t h "fst (GetDispatcher h t)" "snd (GetDispatcher h t)"]
    by (simp add: MOJO_HANDLE_INVALID_def ht_lookup_def)
qed

definition demo_table :: "nat handle_table" where
  "demo_table = snd (AddDispatcher 7 (snd (AddDispatcher 5 HandleTable)))"

theorem handles_unique_witness:
  "MOJO_HANDLE_INVALID \<notin> set [1, 2] \<and> fst (GetDispatcher 2 demo_table) = Some 7"
proof -
  let ?t = "snd (AddDispatcher (5 :: nat) HandleTable)"
  have "table_step (HandleTable, ()) [1] (?t, ())"
    using table_step.add [of 5 HandleTable 1 ?t "()"] by (simp add: AddDispatcher_def HandleTable_def MOJO_HANDLE_INVALID_def Let_def)
  then have "table_run (HandleTable, ()) ([] @ [1]) (?t, ())" by (rule table_run.step [OF table_run.start])
  moreover have "table_step (?t, ()) [2] (demo_table, ())"
    using table_step.add [of 7 ?t 2 demo_table "()"]
    by (simp add: demo_table_def AddDispatcher_def HandleTable_def MOJO_HANDLE_INVALID_def ea_Add_def Let_def)
  ultimately have "table_run (HandleTable, ()) (([] @ [1]) @ [2]) (demo_table, ())" by (rule table_run.step)
  from handles_unique [OF this, of 2] show ?thesis
    by (simp add: demo_table_def AddDispatcher_def HandleTable_def MOJO_HANDLE_INVALID_def ea_Add_def Entry_def Let_def)
qed

text \<open>C27: beginning the transit of handles marks a prefix of them busy, all of them exactly when it
  succeeds; busy handles cannot be closed or sent a second time; cancelling, also after a
  failure in the middle, restores every entry, and completing removes exactly these handles.\<close>

theorem handle_transit:
  assumes "ht_ok t" "ht_BeginTransit begin_transit hs t s = (r, ds, t', s')"
  shows "map fst ds = take (length ds) hs \<and> (r = MOJO_RESULT_OK \<longleftrightarrow> length ds = length hs) \<and> distinct (map fst ds) \<and>
    (\<forall>h \<in> set (map fst ds). fst (GetAndRemoveDispatcher h t') = Inl MOJO_RESULT_BUSY \<and>
      fst (ht_BeginTransit begin_transit (h # gs) t' s') = MOJO_RESULT_BUSY) \<and>
    (\<exists>u s1. ht_CancelTransit cancel ds t' s' = Some (u, s1) \<and> handles u = handles t) \<and>
    handles (fst (ht_CompleteTransitAndClose complete ds t' s')) =
      (\<lambda>h. if h \<in> set (map fst ds) then None else handles t h)"
proof -
  note b = begin_marks [OF assms]
  have busy: "fst (GetAndRemoveDispatcher h t') = Inl MOJO_RESULT_BUSY \<and>
      fst (ht_BeginTransit begin_transit (h # gs) t' s') = MOJO_RESULT_BUSY" if "h \<in> set (map fst ds)" for h
  proof -
    obtain d where "(h, d) \<in> set ds" using \<open>h \<in> set (map fst ds)\<close> by auto
    then have "handles t' h = Some \<lparr>e_dispatcher = d, e_busy = True\<rparr>" using b by (auto simp: marked_def)
    then show ?thesis by (simp add: GetAndRemoveDispatcher_def ea_Remove_def ea_GetMutable_def)
  qed
  obtain u s1 where u: "ht_CancelTransit cancel ds t' s' = Some (u, s1)" "marked False ds u"
      "\<forall>h. h \<notin> fst ` set ds \<longrightarrow> handles u h = handles t' h"
    using cancel_unmarks [of t' ds cancel s'] b by blast
  have "handles u h = handles t h" for h
    using u(2,3) b by (cases "h \<in> fst ` set ds") (auto simp: marked_def split: prod.splits)
  then have "handles u = handles t" by (rule ext)
  moreover have "distinct (map fst ds)" using b unfolding marked_def by blast
  moreover obtain v s2 where v: "ht_CompleteTransitAndClose complete ds t' s' = (v, s2)" by fastforce
  then have "handles v = (\<lambda>h. if h \<in> fst ` set ds then None else handles t' h)"
    using complete_removes [of t' complete ds s' v s2] b by blast
  then have "handles v = (\<lambda>h. if h \<in> set (map fst ds) then None else handles t h)" 
    using b unfolding set_map by fastforce
  ultimately show ?thesis using b busy u(1) v by simp
qed

theorem handle_transit_witness:
  "\<exists>u s1. ht_CancelTransit (\<lambda>d s. s) [(1, 5)] (set_busy 1 (Entry 5) True demo_table) () = Some (u, s1) \<and>
     handles u = handles demo_table"
proof -
  have ok: "ht_ok demo_table"
    by (simp add: demo_table_def AddDispatcher_def HandleTable_def MOJO_HANDLE_INVALID_def ea_Add_def Let_def ht_ok_def
        next_number_def)
  have "ht_BeginTransit (\<lambda>d s. (True, s)) [1, 9] demo_table () =
      (MOJO_RESULT_INVALID_ARGUMENT, [(1, 5)], set_busy 1 (Entry 5) True demo_table, ())"
    by (simp add: demo_table_def AddDispatcher_def HandleTable_def MOJO_HANDLE_INVALID_def ea_Add_def Entry_def
        ea_GetMutable_def set_busy_def Let_def)
  from handle_transit [OF ok this, where cancel = "\<lambda>d s. s"] show ?thesis by blast
qed

end
