(* ===== verification/Ring_Copy.thy ===== *)
theory Ring_Copy
  imports Sparo_Prelude
begin

text \<open>
  Copying into and out of a ring buffer with \<open>memcpy\<close>: at most two pieces, one up to the end of
  the memory and one from its start.
\<close>

text \<open>\<open>memcpy\<close> into and out of the shared memory.\<close>

definition copy_to :: "'a list \<Rightarrow> nat \<Rightarrow> 'a list \<Rightarrow> 'a list" where
  "copy_to data offset bytes = take offset data @ bytes @ drop (offset + length bytes) data"

definition copy_from :: "'a list \<Rightarrow> nat \<Rightarrow> nat \<Rightarrow> 'a list" where
  "copy_from data offset n = take n (drop offset data)"

text \<open>The two \<open>memcpy\<close> of a write that may wrap around.\<close>

definition ring_put :: "'a list \<Rightarrow> nat \<Rightarrow> 'a list \<Rightarrow> 'a list" where
  "ring_put data offset bytes =
     (let tail = min (length data - offset) (length bytes) in
      copy_to (copy_to data offset (take tail bytes)) 0 (drop tail bytes))"

lemma copy_to_Nil [simp]: "copy_to data offset [] = data"
  by (simp add: copy_to_def)

lemma length_copy_to [simp]: "offset + length bytes \<le> length data \<Longrightarrow> length (copy_to data offset bytes) = length data"
  by (simp add: copy_to_def)

lemma nth_copy_to:
  "offset + length bytes \<le> length data \<Longrightarrow> k < length data \<Longrightarrow>
   copy_to data offset bytes ! k =
     (if offset \<le> k \<and> k < offset + length bytes then bytes ! (k - offset) else data ! k)"
  by (auto simp: copy_to_def nth_append)

lemma ring_put_nth:
  assumes "offset < length data" "length bytes \<le> length data" "k < length data"
  shows "length (ring_put data offset bytes) = length data"
    "ring_put data offset bytes ! k =
      (if offset \<le> k \<and> k < offset + length bytes then bytes ! (k - offset)
       else if k + length data < offset + length bytes then bytes ! (k + length data - offset) else data ! k)"
proof -
  define t where "t = min (length data - offset) (length bytes)"
  have len: "offset + length (take t bytes) \<le> length data" "length (drop t bytes) \<le> length data"
    using assms by (auto simp: t_def)
  then show "length (ring_put data offset bytes) = length data" by (simp add: ring_put_def t_def [symmetric])
  have wrapped: "k < length (drop t bytes) \<longleftrightarrow> k + length data < offset + length bytes"
    using assms by (auto simp: t_def)
  have there: "offset \<le> k \<and> k < offset + length (take t bytes) \<longleftrightarrow> offset \<le> k \<and> k < offset + length bytes"
    using assms by (auto simp: t_def)
  have apart: "k + length data < offset + length bytes \<Longrightarrow> \<not> offset \<le> k" "k + length data < offset + length bytes \<Longrightarrow> t + k = k + length data - offset"
    using assms by (auto simp: t_def)
  have inner: "offset \<le> k \<and> k < offset + length bytes \<Longrightarrow> take t bytes ! (k - offset) = bytes ! (k - offset)"
    using assms(3) by (intro nth_take) (auto simp: t_def)
  have "ring_put data offset bytes ! k =
      (if k < length (drop t bytes) then drop t bytes ! k else copy_to data offset (take t bytes) ! k)"
    using len assms by (simp add: ring_put_def t_def [symmetric] nth_copy_to)
  also have "\<dots> = (if k + length data < offset + length bytes then bytes ! (t + k)
      else if offset \<le> k \<and> k < offset + length bytes then take t bytes ! (k - offset) else data ! k)"
    unfolding wrapped nth_copy_to [OF len(1) assms(3)] there using assms by (auto simp: t_def)
  finally show "ring_put data offset bytes ! k =
      (if offset \<le> k \<and> k < offset + length bytes then bytes ! (k - offset)
       else if k + length data < offset + length bytes then bytes ! (k + length data - offset) else data ! k)"
    using apart inner by simp
qed

text \<open>The same by the distance from the offset.\<close>

lemma ring_put_at:
  assumes "offset < length data" "length bytes \<le> length data" "i < length data"
  shows "ring_put data offset bytes ! ((offset + i) mod length data) =
    (if i < length bytes then bytes ! i else data ! ((offset + i) mod length data))"
proof (cases "offset + i < length data")
  case True
  then show ?thesis using ring_put_nth(2) [OF assms(1,2), of "offset + i"] assms by auto
next
  case False
  then have m: "(offset + i) mod length data = offset + i - length data" using assms by (simp add: mod_if)
  then show ?thesis using False ring_put_nth(2) [OF assms(1,2), of "offset + i - length data"] assms by auto
qed

text \<open>Written behind the \<open>n\<close> used cells from \<open>s\<close> on, bytes extend them.\<close>

lemma ring_put_extends:
  assumes "s < length data" "n + length bytes \<le> length data"
  shows "ring_elems (ring_put data ((s + n) mod length data) bytes) s (n + length bytes) = ring_elems data s n @ bytes"
proof -
  let ?c = "length data" and ?o = "(s + n) mod length data"
  let ?d = "ring_put data ?o bytes"
  have o: "?o < ?c" using assms(1) by (intro mod_less_divisor) auto
  have len: "length ?d = ?c" using ring_put_nth(1) [OF o, of bytes ?o] o assms by simp
  have "?d ! ((s + i) mod ?c) = data ! ((s + i) mod ?c)" if "i < n" for i
  proof -
    let ?j = "?c - n + i"
    have "(?o + ?j) mod ?c = (s + n + (?c - n + i)) mod ?c" by (simp add: mod_add_left_eq add.assoc)
    also have "\<dots> = (s + i + ?c) mod ?c" using assms(2) by (intro arg_cong [where f = "\<lambda>x. x mod ?c"]) simp
    finally have "(?o + ?j) mod ?c = (s + i) mod ?c" by simp
    then show ?thesis using ring_put_at [OF o, of bytes ?j] that assms by auto
  qed
  then have "ring_elems ?d s n = ring_elems data s n" using len by (intro ring_elems_cong) auto
  moreover have "ring_elems ?d (s + n) (length bytes) = bytes"
  proof (rule nth_equalityI)
    fix i assume "i < length (ring_elems ?d (s + n) (length bytes))"
    then show "ring_elems ?d (s + n) (length bytes) ! i = bytes ! i"
      using ring_put_at [OF o, of bytes i] assms len by (simp add: nth_ring_elems mod_add_left_eq)
  qed simp
  ultimately show ?thesis by (simp add: ring_elems_append)
qed

text \<open>Storing into the free cells behind them, without wrapping around, keeps them.\<close>

lemma copy_to_free:
  assumes "s < length data" "(s + n) mod length data \<le> offset" "offset + length bytes \<le> length data"
    "offset + length bytes \<le> (s + n) mod length data + (length data - n)" "n \<le> length data"
  shows "ring_elems (copy_to data offset bytes) s n = ring_elems data s n"
proof (rule ring_elems_cong)
  let ?c = "length data"
  fix i assume i: "i < n"
  let ?k = "(s + i) mod ?c"
  have "\<not> (offset \<le> ?k \<and> ?k < offset + length bytes)"
  proof
    assume k: "offset \<le> ?k \<and> ?k < offset + length bytes"
    let ?j = "?k - (s + n) mod ?c"
    have j: "n + ?j < ?c" "?k = (s + n) mod ?c + ?j" using k assms by auto
    then have "?k = (s + (n + ?j)) mod ?c"
      using assms(1) by (metis add.assoc mod_add_left_eq mod_mod_trivial)
    then show False using mod_add_inject [of i ?c "n + ?j" s] i j assms by auto
  qed
  moreover have "?k < ?c" using assms(1) by (intro mod_less_divisor) auto
  ultimately show "copy_to data offset bytes ! ((s + i) mod length (copy_to data offset bytes)) =
      data ! ((s + i) mod length (copy_to data offset bytes))"
    using assms(3) by (auto simp: nth_copy_to)
qed (use assms in simp)

text \<open>The two \<open>memcpy\<close> of a read that may wrap around.\<close>

lemma ring_get:
  assumes "s < length data" "n \<le> length data"
  shows "copy_from data s (min (length data - s) n) @ copy_from data 0 (n - min (length data - s) n) = ring_elems data s n"
proof (cases "s + n \<le> length data")
  case True
  then show ?thesis by (simp add: copy_from_def ring_elems_straight)
next
  case False
  define t where "t = length data - s"
  have t: "n = t + (n - t)" "min (length data - s) n = t" using False assms by (auto simp: t_def)
  have "ring_elems data s n = ring_elems data s t @ ring_elems data (s + t) (n - t)"
    using ring_elems_append [of data s t "n - t"] t(1) by simp
  also have "ring_elems data (s + t) (n - t) = ring_elems data 0 (n - t)"
    using ring_elems_mod_start [of data "s + t" "n - t"] assms by (simp add: t_def)
  finally show ?thesis using t assms by (simp add: copy_from_def ring_elems_straight t_def)
qed

end
