(* ===== verification/Data_Pipe.thy ===== *)
theory Data_Pipe
  imports Mojo_Types Checked_Math Ring_Copy
begin

text \<open>
  The two ends of a data pipe, \<open>mojo/core/data_pipe_producer_dispatcher.cc\<close> and
  \<open>data_pipe_consumer_dispatcher.cc\<close>.  They share a ring buffer of \<open>capacity_num_bytes\<close> bytes and
  tell each other through a control port how many bytes they wrote and read.  A dispatcher is
  its fields; the shared memory is a list of bytes given to the calls that touch it; what a call
  sends through the control port is part of its result, and what the node reports about the
  port is an argument.  Offsets and amounts are 32-bit words.  \<open>None\<close> is a failed \<open>CHECK\<close>.
  Every call runs under the lock of its dispatcher; the lock is released only to send the
  control message.  \<open>EndWriteData\<close> and \<open>EndReadData\<close> have more to do when they have it again: they
  are given as two sections, up to the release and from there on.
\<close>

unbundle bit_operations_syntax

section \<open>Shared definitions\<close>

record pipe_options =
  element_num_bytes :: u32
  capacity_num_bytes :: u32

datatype DataPipeCommand = DATA_WAS_WRITTEN | DATA_WAS_READ

text \<open>A message on the control port; a payload may be too short to be one.\<close>

datatype control_message = TooShort | Control DataPipeCommand u32

datatype watch_event = NotifyState signals_state | NotifyClosed

record port_status =
  has_messages :: bool
  receiving_messages :: bool
  peer_remote :: bool

definition has_flag :: "u32 \<Rightarrow> nat \<Rightarrow> bool" where
  "has_flag flags k = bit flags k"

definition WRITE_DATA_FLAG_ALL_OR_NONE :: nat where "WRITE_DATA_FLAG_ALL_OR_NONE = 0"
definition READ_DATA_FLAG_ALL_OR_NONE :: nat where "READ_DATA_FLAG_ALL_OR_NONE = 0"
definition READ_DATA_FLAG_DISCARD :: nat where "READ_DATA_FLAG_DISCARD = 1"
definition READ_DATA_FLAG_QUERY :: nat where "READ_DATA_FLAG_QUERY = 2"
definition READ_DATA_FLAG_PEEK :: nat where "READ_DATA_FLAG_PEEK = 3"

text \<open>\<open>base::CheckAdd(a, n).AssignIfValid(...)\<close> on \<open>uint32_t\<close>.\<close>

definition CheckAdd :: "math_build \<Rightarrow> u32 \<Rightarrow> u32 \<Rightarrow> u32 option" where
  "CheckAdd b a n =
     (case CheckedAddOp b uint32_t uint32_t uint32_t (uint a) (uint n) 0 of
        (is_valid, result) \<Rightarrow> if is_valid then Some (word_of_int result) else None)"

section \<open>The producer\<close>

record producer =
  p_options :: pipe_options
  p_pipe_id :: u64
  p_buffer :: bool         \<comment> \<open>\<open>shared_ring_buffer_.IsValid()\<close>\<close>
  p_mapping :: bool        \<comment> \<open>\<open>ring_buffer_mapping_.IsValid()\<close>\<close>
  p_in_transit :: bool
  p_is_closed :: bool
  p_peer_closed :: bool
  p_peer_remote :: bool
  p_transferred :: bool
  in_two_phase_write :: bool
  write_offset :: u32
  available_capacity :: u32
  p_watch :: "watch_event list"
  p_port_closed :: bool    \<comment> \<open>\<open>ClosePort\<close> was called on the control port\<close>

definition p_capacity :: "producer \<Rightarrow> u32" where
  "p_capacity p = capacity_num_bytes (p_options p)"

definition new_producer :: "bool \<Rightarrow> pipe_options \<Rightarrow> u64 \<Rightarrow> producer" where
  "new_producer region options pipe_id =
     \<lparr>p_options = options, p_pipe_id = pipe_id, p_buffer = region, p_mapping = False, p_in_transit = False,
      p_is_closed = False, p_peer_closed = False, p_peer_remote = False, p_transferred = False,
      in_two_phase_write = False, write_offset = 0, available_capacity = capacity_num_bytes options,
      p_watch = [], p_port_closed = False\<rparr>"

text \<open>\<open>InitializeNoLock\<close>; \<open>mapped\<close> tells whether the memory could be mapped.\<close>

definition p_Initialize :: "bool \<Rightarrow> producer \<Rightarrow> bool \<times> producer" where
  "p_Initialize mapped p =
     (if \<not> p_buffer p then (False, p)
      else if \<not> mapped then (False, p\<lparr>p_buffer := False\<rparr>)
      else (True, p\<lparr>p_mapping := True\<rparr>))"

definition p_Create :: "bool \<Rightarrow> bool \<Rightarrow> pipe_options \<Rightarrow> u64 \<Rightarrow> producer option" where
  "p_Create region mapped options pipe_id =
     (case p_Initialize mapped (new_producer region options pipe_id) of (ok, x) \<Rightarrow> if ok then Some x else None)"

definition p_signals :: "producer \<Rightarrow> signals_state" where
  "p_signals p =
     (if \<not> p_peer_closed p then
        \<lparr>satisfied_signals =
           (if \<not> in_two_phase_write p \<and> p_buffer p \<and> available_capacity p > 0 then {WRITABLE} else {}) \<union>
           (if p_peer_remote p then {PEER_REMOTE} else {}),
         satisfiable_signals = {WRITABLE, PEER_REMOTE, PEER_CLOSED}\<rparr>
      else \<lparr>satisfied_signals = {PEER_CLOSED}, satisfiable_signals = {PEER_CLOSED}\<rparr>)"

definition p_notify :: "producer \<Rightarrow> producer" where
  "p_notify p = p\<lparr>p_watch := p_watch p @ [NotifyState (p_signals p)]\<rparr>"

text \<open>\<open>WriteData\<close>: the result, the number of bytes reported, the amount announced to the peer,
  the dispatcher and the memory.  \<open>elements\<close> is \<open>None\<close> for a null pointer.\<close>

definition WriteData ::
  "u8 list option \<Rightarrow> u32 \<Rightarrow> u32 \<Rightarrow> producer \<Rightarrow> u8 list \<Rightarrow>
   (MojoResult \<times> u32 \<times> u32 option \<times> producer \<times> u8 list) option" where
  "WriteData elements num_bytes flags p data =
     (if \<not> p_buffer p \<or> p_in_transit p then Some (MOJO_RESULT_INVALID_ARGUMENT, num_bytes, None, p, data)
      else if in_two_phase_write p then Some (MOJO_RESULT_BUSY, num_bytes, None, p, data)
      else if p_peer_closed p then Some (MOJO_RESULT_FAILED_PRECONDITION, num_bytes, None, p, data)
      else if num_bytes mod element_num_bytes (p_options p) \<noteq> 0
      then Some (MOJO_RESULT_INVALID_ARGUMENT, num_bytes, None, p, data)
      else if num_bytes = 0 then Some (MOJO_RESULT_OK, num_bytes, None, p, data)
      else if has_flag flags WRITE_DATA_FLAG_ALL_OR_NONE \<and> num_bytes > available_capacity p
      then Some (MOJO_RESULT_OUT_OF_RANGE, num_bytes, None, p, data)
      else
        let num_bytes_to_write = min num_bytes (available_capacity p) in
        if num_bytes_to_write = 0 then Some (MOJO_RESULT_SHOULD_WAIT, num_bytes, None, p, data)
        else if \<not> p_mapping p then None
        else case elements of
          None \<Rightarrow> None
        | Some source \<Rightarrow>
            let tail_bytes_to_write = min (p_capacity p - write_offset p) num_bytes_to_write;
                head_bytes_to_write = num_bytes_to_write - tail_bytes_to_write;
                data = copy_to data (unat (write_offset p)) (take (unat tail_bytes_to_write) source);
                data = (if head_bytes_to_write > 0
                        then copy_to data 0 (copy_from source (unat tail_bytes_to_write) (unat head_bytes_to_write))
                        else data);
                p = p\<lparr>available_capacity := available_capacity p - num_bytes_to_write,
                      write_offset := (write_offset p + num_bytes_to_write) mod p_capacity p\<rparr> in
            Some (MOJO_RESULT_OK, num_bytes_to_write, Some num_bytes_to_write, p_notify p, data))"

text \<open>\<open>BeginWriteData\<close>: on success the offset and the size of the buffer to write to.  Its flags are
  not used.\<close>

definition BeginWriteData :: "producer \<Rightarrow> (MojoResult \<times> (u32 \<times> u32) option \<times> producer) option" where
  "BeginWriteData p =
     (if \<not> p_buffer p \<or> p_in_transit p then Some (MOJO_RESULT_INVALID_ARGUMENT, None, p)
      else if in_two_phase_write p then Some (MOJO_RESULT_BUSY, None, p)
      else if p_peer_closed p then Some (MOJO_RESULT_FAILED_PRECONDITION, None, p)
      else if available_capacity p = 0
      then Some (if p_peer_closed p then MOJO_RESULT_FAILED_PRECONDITION else MOJO_RESULT_SHOULD_WAIT, None, p)
      else
        let p = p\<lparr>in_two_phase_write := True\<rparr>;
            buffer_num_bytes = min (p_capacity p - write_offset p) (available_capacity p) in
        if \<not> p_mapping p then None
        else Some (MOJO_RESULT_OK, Some (write_offset p, buffer_num_bytes), p))"

text \<open>\<open>EndWriteData\<close>: what is done once the lock is held again, and the call up to its return or to the
  release of the lock.\<close>

definition EndWriteData_relocked :: "producer \<Rightarrow> producer" where
  "EndWriteData_relocked p = p_notify (p\<lparr>in_two_phase_write := False\<rparr>)"

definition EndWriteData :: "u32 \<Rightarrow> producer \<Rightarrow> MojoResult \<times> u32 option \<times> producer" where
  "EndWriteData num_bytes_written p =
     (if p_is_closed p \<or> p_in_transit p then (MOJO_RESULT_INVALID_ARGUMENT, None, p)
      else if \<not> in_two_phase_write p then (MOJO_RESULT_FAILED_PRECONDITION, None, p)
      else if num_bytes_written > available_capacity p \<or>
              num_bytes_written mod element_num_bytes (p_options p) \<noteq> 0 \<or>
              write_offset p + num_bytes_written > p_capacity p
      then (MOJO_RESULT_INVALID_ARGUMENT, None, EndWriteData_relocked p)
      else
        (MOJO_RESULT_OK, Some num_bytes_written,
         p\<lparr>available_capacity := available_capacity p - num_bytes_written,
           write_offset := (write_offset p + num_bytes_written) mod p_capacity p\<rparr>))"

definition p_CloseNoLock :: "producer \<Rightarrow> MojoResult \<times> producer" where
  "p_CloseNoLock p =
     (if p_is_closed p \<or> p_in_transit p then (MOJO_RESULT_INVALID_ARGUMENT, p)
      else
        let p = p\<lparr>p_is_closed := True, p_mapping := False, p_buffer := False, p_watch := p_watch p @ [NotifyClosed]\<rparr> in
        (MOJO_RESULT_OK, if \<not> p_transferred p then p\<lparr>p_port_closed := True\<rparr> else p))"

definition p_BeginTransit :: "producer \<Rightarrow> bool \<times> producer" where
  "p_BeginTransit p =
     (if p_in_transit p then (False, p)
      else let p = p\<lparr>p_in_transit := \<not> in_two_phase_write p\<rparr> in (p_in_transit p, p))"

definition p_CompleteTransitAndClose :: "producer \<Rightarrow> producer" where
  "p_CompleteTransitAndClose p = snd (p_CloseNoLock (p\<lparr>p_transferred := True, p_in_transit := False\<rparr>))"

definition p_CancelTransit :: "producer \<Rightarrow> producer" where
  "p_CancelTransit p = p_notify (p\<lparr>p_in_transit := False\<rparr>)"

text \<open>The loop of \<open>UpdateSignalsStateNoLock\<close> over the messages \<open>GetMessage\<close> returns; \<open>failed\<close> when the
  call after them reports an error.  The messages behind a \<open>break\<close> stay in the port.\<close>

fun p_read_control :: "math_build \<Rightarrow> bool \<Rightarrow> control_message list \<Rightarrow> producer \<Rightarrow> producer \<times> control_message list" where
  "p_read_control b failed [] p = ((if failed then p\<lparr>p_peer_closed := True\<rparr> else p), [])"
| "p_read_control b failed (TooShort # ms) p = (p\<lparr>p_peer_closed := True\<rparr>, ms)"
| "p_read_control b failed (Control command num_bytes # ms) p =
     (if command \<noteq> DATA_WAS_READ then (p\<lparr>p_peer_closed := True\<rparr>, ms)
      else case CheckAdd b (available_capacity p) num_bytes of
        None \<Rightarrow> (p, ms)
      | Some new_available_capacity \<Rightarrow>
          if new_available_capacity > p_capacity p then (p, ms)
          else p_read_control b failed ms (p\<lparr>available_capacity := new_available_capacity\<rparr>))"

definition p_UpdateSignals ::
  "math_build \<Rightarrow> port_status option \<Rightarrow> bool \<Rightarrow> control_message list \<Rightarrow> producer \<Rightarrow> producer \<times> control_message list" where
  "p_UpdateSignals b status failed ms p =
     (let p1 = p\<lparr>p_peer_remote := (case status of None \<Rightarrow> False | Some st \<Rightarrow> peer_remote st)\<rparr>;
          (p2, rest) =
            (case status of
               None \<Rightarrow> (p1\<lparr>p_peer_closed := True\<rparr>, ms)
             | Some st \<Rightarrow>
                 if \<not> receiving_messages st then (p1\<lparr>p_peer_closed := True\<rparr>, ms)
                 else if has_messages st \<and> \<not> p_in_transit p1 then p_read_control b failed ms p1
                 else (p1, ms)) in
      (if p_peer_closed p2 \<noteq> p_peer_closed p \<or> available_capacity p2 \<noteq> available_capacity p \<or>
          p_peer_remote p2 \<noteq> p_peer_remote p
       then p_notify p2 else p2, rest))"

definition p_OnPortStatusChanged ::
  "math_build \<Rightarrow> port_status option \<Rightarrow> bool \<Rightarrow> control_message list \<Rightarrow> producer \<Rightarrow> producer \<times> control_message list" where
  "p_OnPortStatusChanged b status failed ms p =
     (if p_transferred p then (p, ms) else p_UpdateSignals b status failed ms p)"

section \<open>The consumer\<close>

record consumer =
  c_options :: pipe_options
  c_pipe_id :: u64
  c_buffer :: bool
  c_mapping :: bool
  c_in_transit :: bool
  c_is_closed :: bool
  c_peer_closed :: bool
  c_peer_remote :: bool
  c_transferred :: bool
  in_two_phase_read :: bool
  two_phase_max_bytes_read :: u32
  read_offset :: u32
  bytes_available :: u32
  new_data_available :: bool
  c_watch :: "watch_event list"
  c_port_closed :: bool

definition c_capacity :: "consumer \<Rightarrow> u32" where
  "c_capacity c = capacity_num_bytes (c_options c)"

definition new_consumer :: "bool \<Rightarrow> pipe_options \<Rightarrow> u64 \<Rightarrow> consumer" where
  "new_consumer region options pipe_id =
     \<lparr>c_options = options, c_pipe_id = pipe_id, c_buffer = region, c_mapping = False, c_in_transit = False,
      c_is_closed = False, c_peer_closed = False, c_peer_remote = False, c_transferred = False,
      in_two_phase_read = False, two_phase_max_bytes_read = 0, read_offset = 0, bytes_available = 0,
      new_data_available = False, c_watch = [], c_port_closed = False\<rparr>"

definition c_Initialize :: "bool \<Rightarrow> consumer \<Rightarrow> bool \<times> consumer" where
  "c_Initialize mapped c =
     (if \<not> c_buffer c then (False, c)
      else if \<not> mapped then (False, c\<lparr>c_buffer := False, c_is_closed := True\<rparr>)
      else (True, c\<lparr>c_mapping := True\<rparr>))"

definition c_Create :: "bool \<Rightarrow> bool \<Rightarrow> pipe_options \<Rightarrow> u64 \<Rightarrow> consumer option" where
  "c_Create region mapped options pipe_id =
     (case c_Initialize mapped (new_consumer region options pipe_id) of (ok, x) \<Rightarrow> if ok then Some x else None)"

definition c_signals :: "consumer \<Rightarrow> signals_state" where
  "c_signals c =
     \<lparr>satisfied_signals =
        (if c_buffer c \<and> bytes_available c \<noteq> 0 \<and> \<not> in_two_phase_read c
         then insert READABLE (if new_data_available c then {NEW_DATA_READABLE} else {}) else {}) \<union>
        (if c_peer_closed c then {PEER_CLOSED} else if c_peer_remote c then {PEER_REMOTE} else {}),
      satisfiable_signals =
        (if c_buffer c \<and> bytes_available c \<noteq> 0 then {READABLE}
         else if \<not> c_peer_closed c \<and> c_buffer c then {READABLE} else {}) \<union>
        (if c_buffer c \<and> (new_data_available c \<or> \<not> c_peer_closed c) then {NEW_DATA_READABLE} else {}) \<union>
        (if c_peer_closed c then {} else {PEER_REMOTE}) \<union> {PEER_CLOSED}\<rparr>"

definition c_notify :: "consumer \<Rightarrow> consumer" where
  "c_notify c = c\<lparr>c_watch := c_watch c @ [NotifyState (c_signals c)]\<rparr>"

text \<open>\<open>ReadData\<close>: the result, the bytes stored through \<open>elements\<close>, the number of bytes reported, the
  amount announced to the peer and the dispatcher.\<close>

definition c_ReadData ::
  "u32 \<Rightarrow> bool \<Rightarrow> u32 \<Rightarrow> consumer \<Rightarrow> u8 list \<Rightarrow>
   (MojoResult \<times> u8 list \<times> u32 \<times> u32 option \<times> consumer) option" where
  "c_ReadData flags elements_null num_bytes c data =
     (if \<not> c_buffer c \<or> c_in_transit c then Some (MOJO_RESULT_INVALID_ARGUMENT, [], num_bytes, None, c)
      else if in_two_phase_read c then Some (MOJO_RESULT_BUSY, [], num_bytes, None, c)
      else
        let had_new_data = new_data_available c;
            c = c\<lparr>new_data_available := False\<rparr>;
            c_told = (if had_new_data then c_notify c else c) in
        if has_flag flags READ_DATA_FLAG_QUERY then
          if has_flag flags READ_DATA_FLAG_PEEK \<or> has_flag flags READ_DATA_FLAG_DISCARD
          then Some (MOJO_RESULT_INVALID_ARGUMENT, [], num_bytes, None, c)
          else Some (MOJO_RESULT_OK, [], bytes_available c, None, c_told)
        else if has_flag flags READ_DATA_FLAG_DISCARD \<and> has_flag flags READ_DATA_FLAG_PEEK
        then Some (MOJO_RESULT_INVALID_ARGUMENT, [], num_bytes, None, c)
        else
          let discard = has_flag flags READ_DATA_FLAG_DISCARD; max_num_bytes_to_read = num_bytes in
          if max_num_bytes_to_read mod element_num_bytes (c_options c) \<noteq> 0
          then Some (MOJO_RESULT_INVALID_ARGUMENT, [], num_bytes, None, c)
          else
            let all_or_none = has_flag flags READ_DATA_FLAG_ALL_OR_NONE;
                min_num_bytes_to_read = (if all_or_none then max_num_bytes_to_read else 0) in
            if min_num_bytes_to_read > bytes_available c
            then Some (if c_peer_closed c then MOJO_RESULT_FAILED_PRECONDITION else MOJO_RESULT_OUT_OF_RANGE,
                       [], num_bytes, None, c_told)
            else
              let bytes_to_read = min max_num_bytes_to_read (bytes_available c) in
              if bytes_to_read = 0
              then Some (if c_peer_closed c then MOJO_RESULT_FAILED_PRECONDITION else MOJO_RESULT_SHOULD_WAIT,
                         [], num_bytes, None, c_told)
              else if \<not> discard \<and> (\<not> c_mapping c \<or> elements_null) then None
              else
                let tail_bytes_to_copy = min (c_capacity c - read_offset c) bytes_to_read;
                    head_bytes_to_copy = bytes_to_read - tail_bytes_to_copy;
                    destination =
                      (if discard then []
                       else copy_from data (unat (read_offset c)) (unat tail_bytes_to_copy) @
                            copy_from data 0 (unat head_bytes_to_copy));
                    peek = has_flag flags READ_DATA_FLAG_PEEK in
                if discard \<or> \<not> peek
                then Some (MOJO_RESULT_OK, destination, bytes_to_read, Some bytes_to_read,
                           c_notify (c\<lparr>read_offset := (read_offset c + bytes_to_read) mod c_capacity c,
                                       bytes_available := bytes_available c - bytes_to_read\<rparr>))
                else Some (MOJO_RESULT_OK, destination, bytes_to_read, None, c_notify c))"

definition BeginReadData :: "consumer \<Rightarrow> (MojoResult \<times> (u32 \<times> u32) option \<times> consumer) option" where
  "BeginReadData c =
     (if \<not> c_buffer c \<or> c_in_transit c then Some (MOJO_RESULT_INVALID_ARGUMENT, None, c)
      else if in_two_phase_read c then Some (MOJO_RESULT_BUSY, None, c)
      else
        let had_new_data = new_data_available c;
            c = c\<lparr>new_data_available := False\<rparr> in
        if bytes_available c = 0
        then Some (if c_peer_closed c then MOJO_RESULT_FAILED_PRECONDITION else MOJO_RESULT_SHOULD_WAIT, None,
                   if had_new_data then c_notify c else c)
        else
          let bytes_to_read = min (bytes_available c) (c_capacity c - read_offset c) in
          if \<not> c_mapping c then None
          else
            let c = c\<lparr>in_two_phase_read := True, two_phase_max_bytes_read := bytes_to_read\<rparr> in
            Some (MOJO_RESULT_OK, Some (read_offset c, bytes_to_read), if had_new_data then c_notify c else c))"

definition EndReadData_relocked :: "consumer \<Rightarrow> consumer" where
  "EndReadData_relocked c = c_notify (c\<lparr>in_two_phase_read := False, two_phase_max_bytes_read := 0\<rparr>)"

definition EndReadData :: "u32 \<Rightarrow> consumer \<Rightarrow> (MojoResult \<times> u32 option \<times> consumer) option" where
  "EndReadData num_bytes_read c =
     (if \<not> in_two_phase_read c then Some (MOJO_RESULT_FAILED_PRECONDITION, None, c)
      else if c_in_transit c then Some (MOJO_RESULT_INVALID_ARGUMENT, None, c)
      else if \<not> c_buffer c then None
      else if num_bytes_read > two_phase_max_bytes_read c \<or> num_bytes_read mod element_num_bytes (c_options c) \<noteq> 0
      then Some (MOJO_RESULT_INVALID_ARGUMENT, None, EndReadData_relocked c)
      else
        Some (MOJO_RESULT_OK, Some num_bytes_read,
          c\<lparr>read_offset := (read_offset c + num_bytes_read) mod c_capacity c,
            bytes_available := bytes_available c - num_bytes_read\<rparr>))"

definition c_CloseNoLock :: "consumer \<Rightarrow> MojoResult \<times> consumer" where
  "c_CloseNoLock c =
     (if c_is_closed c \<or> c_in_transit c then (MOJO_RESULT_INVALID_ARGUMENT, c)
      else
        let c = c\<lparr>c_is_closed := True, c_mapping := False, c_buffer := False, c_watch := c_watch c @ [NotifyClosed]\<rparr> in
        (MOJO_RESULT_OK, if \<not> c_transferred c then c\<lparr>c_port_closed := True\<rparr> else c))"

fun c_read_control :: "math_build \<Rightarrow> bool \<Rightarrow> control_message list \<Rightarrow> consumer \<Rightarrow> consumer \<times> control_message list" where
  "c_read_control b failed [] c = ((if failed then c\<lparr>c_peer_closed := True\<rparr> else c), [])"
| "c_read_control b failed (TooShort # ms) c = (c\<lparr>c_peer_closed := True\<rparr>, ms)"
| "c_read_control b failed (Control command num_bytes # ms) c =
     (if command \<noteq> DATA_WAS_WRITTEN then (c\<lparr>c_peer_closed := True\<rparr>, ms)
      else case CheckAdd b (bytes_available c) num_bytes of
        None \<Rightarrow> (c\<lparr>c_peer_closed := True\<rparr>, ms)
      | Some new_bytes_available \<Rightarrow>
          if new_bytes_available > c_capacity c then (c\<lparr>c_peer_closed := True\<rparr>, ms)
          else c_read_control b failed ms (c\<lparr>bytes_available := new_bytes_available\<rparr>))"

definition c_UpdateSignals ::
  "math_build \<Rightarrow> port_status option \<Rightarrow> bool \<Rightarrow> control_message list \<Rightarrow> consumer \<Rightarrow> consumer \<times> control_message list" where
  "c_UpdateSignals b status failed ms c =
     (let c1 = c\<lparr>c_peer_remote := (case status of None \<Rightarrow> False | Some st \<Rightarrow> peer_remote st)\<rparr>;
          (c2, rest) =
            (case status of
               None \<Rightarrow> (c1\<lparr>c_peer_closed := True\<rparr>, ms)
             | Some st \<Rightarrow>
                 if \<not> receiving_messages st then (c1\<lparr>c_peer_closed := True\<rparr>, ms)
                 else if has_messages st \<and> \<not> c_in_transit c1 then c_read_control b failed ms c1
                 else (c1, ms));
          has_new_data = (bytes_available c2 \<noteq> bytes_available c);
          c3 = (if has_new_data then c2\<lparr>new_data_available := True\<rparr> else c2) in
      (if c_peer_closed c3 \<noteq> c_peer_closed c \<or> has_new_data \<or> c_peer_remote c3 \<noteq> c_peer_remote c
       then c_notify c3 else c3, rest))"

definition c_OnPortStatusChanged ::
  "math_build \<Rightarrow> port_status option \<Rightarrow> bool \<Rightarrow> control_message list \<Rightarrow> consumer \<Rightarrow> consumer \<times> control_message list" where
  "c_OnPortStatusChanged b status failed ms c =
     (if c_transferred c then (c, ms) else c_UpdateSignals b status failed ms c)"

definition c_BeginTransit :: "consumer \<Rightarrow> bool \<times> consumer" where
  "c_BeginTransit c =
     (if c_in_transit c then (False, c)
      else let c = c\<lparr>c_in_transit := \<not> in_two_phase_read c\<rparr> in (c_in_transit c, c))"

definition c_CompleteTransitAndClose :: "consumer \<Rightarrow> consumer" where
  "c_CompleteTransitAndClose c = snd (c_CloseNoLock (c\<lparr>c_in_transit := False, c_transferred := True\<rparr>))"

definition c_CancelTransit ::
  "math_build \<Rightarrow> port_status option \<Rightarrow> bool \<Rightarrow> control_message list \<Rightarrow> consumer \<Rightarrow> consumer \<times> control_message list" where
  "c_CancelTransit b status failed ms c = c_UpdateSignals b status failed ms (c\<lparr>c_in_transit := False\<rparr>)"

section \<open>Moving an end to another process\<close>

text \<open>\<open>SerializedState\<close>; the region handle and the port travel beside it.\<close>

record serialized_state =
  s_options :: pipe_options
  s_pipe_id :: u64
  s_offset :: u32
  s_amount :: u32      \<comment> \<open>\<open>available_capacity\<close> or \<open>bytes_available\<close>\<close>
  s_flags :: u8

definition kFlagPeerClosed :: u8 where
  "kFlagPeerClosed = 1"

definition p_EndSerialize :: "bool \<Rightarrow> producer \<Rightarrow> bool \<times> serialized_state \<times> producer" where
  "p_EndSerialize handle_valid p =
     (handle_valid,
      \<lparr>s_options = p_options p, s_pipe_id = p_pipe_id p, s_offset = write_offset p, s_amount = available_capacity p,
       s_flags = (if p_peer_closed p then kFlagPeerClosed else 0)\<rparr>,
      p\<lparr>p_buffer := False\<rparr>)"

definition c_EndSerialize :: "bool \<Rightarrow> consumer \<Rightarrow> bool \<times> serialized_state \<times> consumer" where
  "c_EndSerialize handle_valid c =
     (handle_valid,
      \<lparr>s_options = c_options c, s_pipe_id = c_pipe_id c, s_offset = read_offset c, s_amount = bytes_available c,
       s_flags = (if c_peer_closed c then kFlagPeerClosed else 0)\<rparr>,
      c\<lparr>c_buffer := False\<rparr>)"

text \<open>What the receiving process can check of the state.\<close>

definition state_acceptable :: "serialized_state \<Rightarrow> bool" where
  "state_acceptable s \<longleftrightarrow>
     \<not> (capacity_num_bytes (s_options s) = 0 \<or> element_num_bytes (s_options s) = 0 \<or>
        capacity_num_bytes (s_options s) < element_num_bytes (s_options s) \<or>
        s_offset s \<ge> capacity_num_bytes (s_options s) \<or> s_amount s > capacity_num_bytes (s_options s))"

text \<open>\<open>Deserialize\<close>: \<open>shape\<close> for the numbers of ports, handles and bytes, \<open>found\<close> for the port, \<open>region\<close>
  for the shared memory; \<open>mapped_size\<close> is \<open>None\<close> when mapping fails.\<close>

definition p_Deserialize ::
  "math_build \<Rightarrow> bool \<Rightarrow> bool \<Rightarrow> bool \<Rightarrow> nat option \<Rightarrow> port_status option \<Rightarrow> bool \<Rightarrow> control_message list \<Rightarrow>
   serialized_state \<Rightarrow> (producer \<times> control_message list) option" where
  "p_Deserialize b shape found region mapped_size status failed ms s =
     (if \<not> shape \<or> \<not> state_acceptable s \<or> \<not> found \<or> \<not> region then None
      else
        let p = (new_producer True (s_options s) (s_pipe_id s))\<lparr>write_offset := s_offset s, available_capacity := s_amount s,
                   p_peer_closed := (s_flags s AND kFlagPeerClosed \<noteq> 0)\<rparr>;
            (ok, p) = p_Initialize (mapped_size \<noteq> None) p in
        if \<not> ok then None
        else if unat (capacity_num_bytes (s_options s)) > the mapped_size then None
        else Some (p_UpdateSignals b status failed ms p))"

definition c_Deserialize ::
  "math_build \<Rightarrow> bool \<Rightarrow> bool \<Rightarrow> bool \<Rightarrow> nat option \<Rightarrow> port_status option \<Rightarrow> bool \<Rightarrow> control_message list \<Rightarrow>
   serialized_state \<Rightarrow> (consumer \<times> control_message list) option" where
  "c_Deserialize b shape found region mapped_size status failed ms s =
     (if \<not> shape \<or> \<not> state_acceptable s \<or> \<not> found \<or> \<not> region then None
      else
        let c = (new_consumer True (s_options s) (s_pipe_id s))\<lparr>read_offset := s_offset s, bytes_available := s_amount s,
                   new_data_available := s_amount s > 0, c_peer_closed := (s_flags s AND kFlagPeerClosed \<noteq> 0)\<rparr>;
            (ok, c) = c_Initialize (mapped_size \<noteq> None) c in
        if \<not> ok then None
        else if unat (capacity_num_bytes (s_options s)) > the mapped_size then None
        else Some (c_UpdateSignals b status failed ms c))"

section \<open>Arithmetic\<close>

lemma u32_in_type: "in_type uint32_t x \<longleftrightarrow> 0 \<le> x \<and> x < 2 ^ 32"
  by (auto simp: in_type_def type_max_def type_lowest_def digits_def)

lemma uint_u32: "in_type uint32_t (uint (a :: u32))"
proof -
  have "uint a < 2 ^ LENGTH(32)" by (rule unsigned_less)
  then show ?thesis by (simp add: u32_in_type)
qed

lemma check_add_exact: "CheckAdd b a n = (if unat a + unat n < 2 ^ 32 then Some (a + n) else None)"
proof -
  let ?op = "CheckedAddOp b uint32_t uint32_t uint32_t (uint a) (uint n) 0"
  have fits: "in_type uint32_t (uint a + uint n) \<longleftrightarrow> unat a + unat n < 2 ^ 32"
  proof -
    have "uint a + uint n = int (unat a + unat n)" by simp
    then show ?thesis by (simp add: u32_in_type del: of_nat_add of_nat_unat)
  qed
  show ?thesis
  proof (cases "unat a + unat n < 2 ^ 32")
    case True
    have "dst_ok uint32_t uint32_t uint32_t" "complete_for b uint32_t uint32_t"
      by (simp_all add: dst_ok_def complete_for_def promotion_defs Let_def)
    then have "?op = (True, uint a + uint n)"
      using True fits by (intro arith_complete(1) uint_u32) simp_all
    then show ?thesis using True by (simp add: CheckAdd_def word_of_int_uint flip: wi_hom_add)
  next
    case False
    then have "fst ?op = False"
      using add_sound [of uint32_t "uint a" uint32_t "uint n" b uint32_t 0 "snd ?op"] uint_u32 fits by (cases ?op) auto
    then show ?thesis using False by (simp add: CheckAdd_def split_beta)
  qed
qed

lemma unat_diff: "b \<le> a \<Longrightarrow> unat (a - b :: u32) = unat a - unat b"
  by (simp add: unat_sub)

lemma unat_min: "unat (min a b :: u32) = min (unat a) (unat b)"
  by (simp add: min_def word_le_nat_alt)

text \<open>Advancing an offset is exact up to a capacity of \<open>2 ^ 31\<close>.\<close>

lemma advance_offset:
  fixes offset n cap :: u32
  assumes "unat offset < unat cap" "unat n \<le> unat cap" "unat cap \<le> 2 ^ 31"
  shows "unat ((offset + n) mod cap) = (unat offset + unat n) mod unat cap"
proof -
  have "unat offset + unat n < 2 ^ LENGTH(32)" using assms by simp
  then have "unat (offset + n) = unat offset + unat n" by (simp only: unat_add_lem)
  then show ?thesis by (simp add: unat_mod)
qed

end
