(* ===== verification/Data_Pipe_Stream.thy ===== *)
theory Data_Pipe_Stream
  imports Data_Pipe
begin

text \<open>
  A data pipe as a whole: the producer, the consumer, the shared memory and the control
  messages that are on their way, with the calls of both ends, the deliveries and the transfers
  to other processes interleaved in any order.  Control messages may be delivered in any order;
  that covers the time between a call and its sending of the message.  The calls that end a
  two-phase write or read are two steps, with the lock released between them; a client is
  taken to end a two-phase read from one thread at a time (\<open>end_read_twice\<close> shows what happens
  otherwise).  The bytes committed and the bytes consumed are recorded: the pipe is a stream of
  bytes.
\<close>

section \<open>The system\<close>

record pipe =
  producer_end :: producer
  consumer_end :: consumer
  memory :: "u8 list"
  to_cons :: "u32 multiset"    \<comment> \<open>\<open>DATA_WAS_WRITTEN\<close> messages on their way\<close>
  to_prod :: "u32 multiset"    \<comment> \<open>\<open>DATA_WAS_READ\<close> messages on their way\<close>
  written :: "u8 list"
  consumed :: "u8 list"
  ending_write :: nat          \<comment> \<open>calls of \<open>EndWriteData\<close> that have released the lock\<close>
  ending_read :: bool

definition announced :: "u32 option \<Rightarrow> u32 multiset" where
  "announced note = (case note of None \<Rightarrow> {#} | Some n \<Rightarrow> {#n#})"

definition noted :: "u32 option \<Rightarrow> nat" where
  "noted note = (case note of None \<Rightarrow> 0 | Some n \<Rightarrow> unat n)"

fun message_amount :: "control_message \<Rightarrow> u32" where
  "message_amount (Control _ n) = n"
| "message_amount TooShort = 0"

text \<open>The messages of \<open>ns\<close> are taken from the port, except the rest that is left there.\<close>

definition take_messages :: "u32 list \<Rightarrow> control_message list \<Rightarrow> u32 multiset \<Rightarrow> u32 multiset" where
  "take_messages ns rest M = M - mset ns + mset (map message_amount rest)"

inductive pipe_step :: "pipe \<Rightarrow> pipe \<Rightarrow> bool" where
  write_data: "WriteData (Some es) n flags (producer_end s) (memory s) = Some (r, n', note, p, data) \<Longrightarrow> unat n \<le> length es \<Longrightarrow>
    pipe_step s (s\<lparr>producer_end := p, memory := data, to_cons := to_cons s + announced note,
                   written := written s @ take (noted note) es\<rparr>)"
| begin_write: "BeginWriteData (producer_end s) = Some (r, w, p) \<Longrightarrow> pipe_step s (s\<lparr>producer_end := p\<rparr>)"
| fill: "in_two_phase_write (producer_end s) \<Longrightarrow> unat (write_offset (producer_end s)) \<le> offset \<Longrightarrow>
    offset + length bs \<le> unat (write_offset (producer_end s)) +
      unat (min (p_capacity (producer_end s) - write_offset (producer_end s)) (available_capacity (producer_end s))) \<Longrightarrow>
    pipe_step s (s\<lparr>memory := copy_to (memory s) offset bs\<rparr>)"
| end_write: "EndWriteData n (producer_end s) = (r, note, p) \<Longrightarrow>
    pipe_step s (s\<lparr>producer_end := p, to_cons := to_cons s + announced note,
                   written := written s @ copy_from (memory s) (unat (write_offset (producer_end s))) (noted note),
                   ending_write := ending_write s + (if note = None then 0 else 1)\<rparr>)"
| end_write_relock: "ending_write s > 0 \<Longrightarrow>
    pipe_step s (s\<lparr>producer_end := EndWriteData_relocked (producer_end s), ending_write := ending_write s - 1\<rparr>)"
| read_data: "c_ReadData flags nul n (consumer_end s) (memory s) = Some (r, bs, n', note, c) \<Longrightarrow>
    pipe_step s (s\<lparr>consumer_end := c, to_prod := to_prod s + announced note,
                   consumed := consumed s @ ring_elems (memory s) (unat (read_offset (consumer_end s))) (noted note)\<rparr>)"
| begin_read: "BeginReadData (consumer_end s) = Some (r, w, c) \<Longrightarrow> pipe_step s (s\<lparr>consumer_end := c\<rparr>)"
| end_read: "\<not> ending_read s \<Longrightarrow> EndReadData n (consumer_end s) = Some (r, note, c) \<Longrightarrow>
    pipe_step s (s\<lparr>consumer_end := c, to_prod := to_prod s + announced note,
                   consumed := consumed s @ copy_from (memory s) (unat (read_offset (consumer_end s))) (noted note),
                   ending_read := (note \<noteq> None)\<rparr>)"
| end_read_relock: "ending_read s \<Longrightarrow>
    pipe_step s (s\<lparr>consumer_end := EndReadData_relocked (consumer_end s), ending_read := False\<rparr>)"
| tell_prod: "mset ns \<subseteq># to_prod s \<Longrightarrow>
    p_OnPortStatusChanged b status failed (map (Control DATA_WAS_READ) ns) (producer_end s) = (p, rest) \<Longrightarrow>
    pipe_step s (s\<lparr>producer_end := p, to_prod := take_messages ns rest (to_prod s)\<rparr>)"
| tell_cons: "mset ns \<subseteq># to_cons s \<Longrightarrow>
    c_OnPortStatusChanged b status failed (map (Control DATA_WAS_WRITTEN) ns) (consumer_end s) = (c, rest) \<Longrightarrow>
    pipe_step s (s\<lparr>consumer_end := c, to_cons := take_messages ns rest (to_cons s)\<rparr>)"
| close_prod: "p_CloseNoLock (producer_end s) = (r, p) \<Longrightarrow> pipe_step s (s\<lparr>producer_end := p\<rparr>)"
| close_cons: "c_CloseNoLock (consumer_end s) = (r, c) \<Longrightarrow> pipe_step s (s\<lparr>consumer_end := c\<rparr>)"
| begin_transit_prod: "p_BeginTransit (producer_end s) = (ok, p) \<Longrightarrow> pipe_step s (s\<lparr>producer_end := p\<rparr>)"
| begin_transit_cons: "c_BeginTransit (consumer_end s) = (ok, c) \<Longrightarrow> pipe_step s (s\<lparr>consumer_end := c\<rparr>)"
| cancel_prod: "p_in_transit (producer_end s) \<Longrightarrow> pipe_step s (s\<lparr>producer_end := p_CancelTransit (producer_end s)\<rparr>)"
| cancel_cons: "c_in_transit (consumer_end s) \<Longrightarrow> mset ns \<subseteq># to_cons s \<Longrightarrow>
    c_CancelTransit b status failed (map (Control DATA_WAS_WRITTEN) ns) (consumer_end s) = (c, rest) \<Longrightarrow>
    pipe_step s (s\<lparr>consumer_end := c, to_cons := take_messages ns rest (to_cons s)\<rparr>)"
| move_prod: "p_in_transit (producer_end s) \<Longrightarrow> p_EndSerialize True (producer_end s) = (ok, st, old) \<Longrightarrow> mset ns \<subseteq># to_prod s \<Longrightarrow>
    p_Deserialize b True True True msize status failed (map (Control DATA_WAS_READ) ns) st = Some (p, rest) \<Longrightarrow>
    pipe_step s (s\<lparr>producer_end := p, to_prod := take_messages ns rest (to_prod s)\<rparr>)"
| move_cons: "c_in_transit (consumer_end s) \<Longrightarrow> c_EndSerialize True (consumer_end s) = (ok, st, old) \<Longrightarrow> mset ns \<subseteq># to_cons s \<Longrightarrow>
    c_Deserialize b True True True msize status failed (map (Control DATA_WAS_WRITTEN) ns) st = Some (c, rest) \<Longrightarrow>
    pipe_step s (s\<lparr>consumer_end := c, to_cons := take_messages ns rest (to_cons s)\<rparr>)"

definition pipe_start :: "pipe_options \<Rightarrow> pipe \<Rightarrow> bool" where
  "pipe_start options s \<longleftrightarrow>
     capacity_num_bytes options \<noteq> 0 \<and>
     (\<exists>i. p_Create True True options i = Some (producer_end s) \<and> c_Create True True options i = Some (consumer_end s)) \<and>
     length (memory s) = unat (capacity_num_bytes options) \<and>
     to_cons s = {#} \<and> to_prod s = {#} \<and> written s = [] \<and> consumed s = [] \<and>
     ending_write s = 0 \<and> \<not> ending_read s"

section \<open>The invariant\<close>

definition amount :: "u32 multiset \<Rightarrow> nat" where
  "amount M = (\<Sum>n \<in># M. unat n)"

lemma amount_simps [simp]:
  "amount {#} = 0" "amount (M + N) = amount M + amount N" "amount (add_mset n M) = unat n + amount M"
  "amount (announced note) = noted note"
  by (auto simp: amount_def announced_def noted_def split: option.splits)

lemma amount_mset: "amount (mset ns) = sum_list (map unat ns)"
  by (simp add: amount_def flip: sum_mset_sum_list)

text \<open>The bytes between the two ends: \<open>unread\<close> of them, behind the read offset, are the part of the
  stream that is written and not consumed; every byte of the memory is either unread, free as
  the producer knows, or free with the producer still to be told.\<close>

definition unread :: "pipe \<Rightarrow> nat" where
  "unread s = unat (bytes_available (consumer_end s)) + amount (to_cons s)"

definition pipe_ok :: "nat \<Rightarrow> pipe \<Rightarrow> bool" where
  "pipe_ok cap s \<longleftrightarrow>
     unat (p_capacity (producer_end s)) = cap \<and> unat (c_capacity (consumer_end s)) = cap \<and> cap \<le> 2 ^ 31 \<and> length (memory s) = cap \<and>
     unat (write_offset (producer_end s)) < cap \<and> unat (read_offset (consumer_end s)) < cap \<and>
     unat (available_capacity (producer_end s)) + amount (to_prod s) + unread s = cap \<and>
     unat (write_offset (producer_end s)) = (unat (read_offset (consumer_end s)) + unread s) mod cap \<and>
     written s = consumed s @ ring_elems (memory s) (unat (read_offset (consumer_end s))) (unread s) \<and>
     (in_two_phase_read (consumer_end s) \<and> \<not> ending_read s \<longrightarrow>
        unat (two_phase_max_bytes_read (consumer_end s)) \<le> unat (bytes_available (consumer_end s)) \<and>
        unat (read_offset (consumer_end s)) + unat (two_phase_max_bytes_read (consumer_end s)) \<le> cap)"

lemma pipe_ok_start:
  assumes "pipe_start options s" "unat (capacity_num_bytes options) \<le> 2 ^ 31"
  shows "pipe_ok (unat (capacity_num_bytes options)) s"
  using assms
  by (cases s) (auto simp: pipe_start_def pipe_ok_def unread_def p_Create_def c_Create_def p_Initialize_def c_Initialize_def
      new_producer_def new_consumer_def p_capacity_def c_capacity_def unat_gt_0)

text \<open>What the invariant looks at in the two ends.\<close>

definition p_core :: "producer \<Rightarrow> u32 \<times> u32 \<times> u32" where
  "p_core p = (p_capacity p, write_offset p, available_capacity p)"

definition c_core :: "consumer \<Rightarrow> u32 \<times> u32 \<times> u32 \<times> (u32 option)" where
  "c_core c = (c_capacity c, read_offset c, bytes_available c,
     if in_two_phase_read c then Some (two_phase_max_bytes_read c) else None)"

lemma notify_core [simp]: "p_core (p_notify p) = p_core p" "c_core (c_notify c) = c_core c"
  by (simp_all add: p_core_def c_core_def p_notify_def c_notify_def p_capacity_def c_capacity_def)

lemma pipe_ok_prod: "pipe_ok cap s \<Longrightarrow> p_core p = p_core (producer_end s) \<Longrightarrow> pipe_ok cap (s\<lparr>producer_end := p\<rparr>)"
  by (simp add: pipe_ok_def p_core_def unread_def)

lemma pipe_ok_cons: "pipe_ok cap s \<Longrightarrow> c_core c = c_core (consumer_end s) \<Longrightarrow> pipe_ok cap (s\<lparr>consumer_end := c\<rparr>)"
  by (auto simp: pipe_ok_def c_core_def unread_def split: if_splits)

lemma pipe_ok_ending [simp]: "pipe_ok cap (s\<lparr>ending_write := k\<rparr>) = pipe_ok cap s"
  by (simp add: pipe_ok_def unread_def)

section \<open>The producer\<close>

text \<open>Committing \<open>n\<close> bytes that are in the memory behind the unread ones.\<close>

lemma commit:
  assumes ok: "pipe_ok cap s" and n: "n \<le> available_capacity (producer_end s)"
    and p: "p_core p = (p_capacity (producer_end s), (write_offset (producer_end s) + n) mod p_capacity (producer_end s),
      available_capacity (producer_end s) - n)"
    and data: "length data = cap"
      "ring_elems data (unat (read_offset (consumer_end s))) (unread s + unat n) =
       ring_elems (memory s) (unat (read_offset (consumer_end s))) (unread s) @ bs"
  shows "pipe_ok cap (s\<lparr>producer_end := p, memory := data, to_cons := to_cons s + {#n#}, written := written s @ bs\<rparr>)"
proof -
  let ?p = "producer_end s"
  have le: "unat n \<le> unat (available_capacity ?p)" using n by (simp add: word_le_nat_alt)
  then have "unat ((write_offset ?p + n) mod p_capacity ?p) = (unat (write_offset ?p) + unat n) mod cap"
    using ok advance_offset [of "write_offset ?p" "p_capacity ?p" n] by (simp add: pipe_ok_def)
  moreover have "unat (available_capacity ?p - n) = unat (available_capacity ?p) - unat n" using n by (rule unat_diff)
  moreover have "((unat (read_offset (consumer_end s)) + unread s) mod cap + unat n) mod cap =
      (unat (read_offset (consumer_end s)) + unread s + unat n) mod cap" by (simp add: mod_add_left_eq)
  ultimately show ?thesis
    using ok le p data by (auto simp: pipe_ok_def p_core_def unread_def ac_simps)
qed

lemma WriteData_effect:
  assumes "WriteData (Some es) n flags p data = Some (r, n', note, p', data')" "unat n \<le> length es"
    "unat (write_offset p) < length data" "length data = unat (p_capacity p)" "available_capacity p \<le> p_capacity p"
  shows "note = None \<and> p' = p \<and> data' = data \<or>
    (\<exists>k. note = Some k \<and> k \<le> n \<and> k \<le> available_capacity p \<and> r = MOJO_RESULT_OK \<and> n' = k \<and>
      p_core p' = (p_capacity p, (write_offset p + k) mod p_capacity p, available_capacity p - k) \<and>
      data' = ring_put data (unat (write_offset p)) (take (unat k) es))"
proof (cases "note")
  case None
  then show ?thesis using assms(1) by (auto simp: WriteData_def Let_def split: if_splits)
next
  case (Some k)
  define t where "t = min (p_capacity p - write_offset p) k"
  have w: "k = min n (available_capacity p)" "r = MOJO_RESULT_OK" "n' = k"
      "p' = p_notify (p\<lparr>available_capacity := available_capacity p - k, write_offset := (write_offset p + k) mod p_capacity p\<rparr>)"
      "data' = (if k - t > 0 then copy_to (copy_to data (unat (write_offset p)) (take (unat t) es)) 0 (copy_from es (unat t) (unat (k - t)))
                else copy_to data (unat (write_offset p)) (take (unat t) es))"
    using assms(1) Some by (auto simp: WriteData_def Let_def t_def split: if_splits)
  have le: "k \<le> n" "k \<le> available_capacity p" using w(1) by auto
  have tk: "t \<le> k" "unat t = min (length data - unat (write_offset p)) (unat k)"
    using assms(3,4) by (auto simp: t_def unat_min unat_diff word_le_nat_alt)
  have "unat (k - t) = unat k - unat t" using tk(1) by (rule unat_diff)
  moreover have "drop (unat t) (take (unat k) es) = take (unat k - unat t) (drop (unat t) es)" by (simp add: drop_take)
  moreover have "k - t > 0 \<longleftrightarrow> unat k - unat t \<noteq> 0" using calculation(1) by (simp add: word_less_nat_alt not_le)
  moreover have "unat k \<le> length es" using le assms(2) by (simp add: word_le_nat_alt)
  moreover have "take (unat t) (take (unat k) es) = take (unat t) es" using tk(2) by simp
  ultimately have "data' = ring_put data (unat (write_offset p)) (take (unat k) es)"
    using w(5) tk(2) by (auto simp: ring_put_def copy_from_def Let_def)
  moreover have "p_core p' = (p_capacity p, (write_offset p + k) mod p_capacity p, available_capacity p - k)"
    unfolding w(4) notify_core by (simp add: p_core_def p_capacity_def)
  ultimately show ?thesis using Some le w(2,3) by simp
qed

lemma write_ok:
  assumes "pipe_ok cap s" "WriteData (Some es) n flags (producer_end s) (memory s) = Some (r, n', note, p, data)" "unat n \<le> length es"
  shows "pipe_ok cap (s\<lparr>producer_end := p, memory := data, to_cons := to_cons s + announced note,
    written := written s @ take (noted note) es\<rparr>)"
proof -
  let ?p = "producer_end s" and ?r = "unat (read_offset (consumer_end s))"
  have ok: "unat (write_offset ?p) < length (memory s)" "length (memory s) = unat (p_capacity ?p)"
      "available_capacity ?p \<le> p_capacity ?p" "?r < length (memory s)" "unat (write_offset ?p) = (?r + unread s) mod length (memory s)"
      "unat (available_capacity ?p) + unread s \<le> length (memory s)" "cap = length (memory s)"
    using assms(1) by (auto simp: pipe_ok_def word_le_nat_alt)
  from WriteData_effect [OF assms(2,3) ok(1-3)] show ?thesis
  proof (elim disjE exE conjE)
    assume "note = None" "p = ?p" "data = memory s"
    then show ?thesis using assms(1) by (simp add: announced_def noted_def)
  next
    fix k assume k: "note = Some k" "k \<le> n" "k \<le> available_capacity ?p"
        "p_core p = (p_capacity ?p, (write_offset ?p + k) mod p_capacity ?p, available_capacity ?p - k)"
        "data = ring_put (memory s) (unat (write_offset ?p)) (take (unat k) es)"
    have len: "length (take (unat k) es) = unat k" "unread s + unat k \<le> length (memory s)"
      using k(2,3) assms(3) ok(6) by (auto simp: word_le_nat_alt)
    then have "ring_elems data ?r (unread s + unat k) = ring_elems (memory s) ?r (unread s) @ take (unat k) es"
      using ring_put_extends [OF ok(4), of "unread s" "take (unat k) es"] ok(5) k(5) by simp
    moreover have "length data = cap"
      using ring_put_nth(1) [OF ok(1), of "take (unat k) es" 0] len ok k(5) by auto
    ultimately show ?thesis
      using commit [OF assms(1) k(3,4)] k(1) by (simp add: announced_def noted_def)
  qed
qed

lemma fill_ok:
  assumes "pipe_ok cap s" "unat (write_offset (producer_end s)) \<le> offset"
    "offset + length bs \<le> unat (write_offset (producer_end s)) +
      unat (min (p_capacity (producer_end s) - write_offset (producer_end s)) (available_capacity (producer_end s)))"
  shows "pipe_ok cap (s\<lparr>memory := copy_to (memory s) offset bs\<rparr>)"
proof -
  let ?p = "producer_end s" and ?r = "unat (read_offset (consumer_end s))"
  have ok: "?r < length (memory s)" "unat (write_offset ?p) = (?r + unread s) mod length (memory s)"
      "unat (available_capacity ?p) + unread s \<le> length (memory s)" "unat (write_offset ?p) < length (memory s)"
      "unat (p_capacity ?p) = length (memory s)" "cap = length (memory s)"
    using assms(1) by (auto simp: pipe_ok_def)
  have "offset + length bs \<le> unat (write_offset ?p) + min (length (memory s) - unat (write_offset ?p)) (unat (available_capacity ?p))"
    using assms(3) ok(4,5) by (simp add: unat_min unat_diff word_le_nat_alt)
  then have b: "offset + length bs \<le> length (memory s)" "offset + length bs \<le> unat (write_offset ?p) + (length (memory s) - unread s)"
    using ok by auto
  then have "ring_elems (copy_to (memory s) offset bs) ?r (unread s) = ring_elems (memory s) ?r (unread s)"
    using ok assms(2) by (intro copy_to_free) auto
  then show ?thesis using assms(1) b(1) by (simp add: pipe_ok_def unread_def)
qed

lemma EndWriteData_effect:
  assumes "EndWriteData n p = (r, note, p')" "available_capacity p \<le> p_capacity p" "write_offset p < p_capacity p"
    "unat (p_capacity p) \<le> 2 ^ 31"
  shows "note = None \<and> p_core p' = p_core p \<or>
    note = Some n \<and> n \<le> available_capacity p \<and> unat (write_offset p) + unat n \<le> unat (p_capacity p) \<and>
      p_core p' = (p_capacity p, (write_offset p + n) mod p_capacity p, available_capacity p - n)"
proof (cases "note")
  case None
  then show ?thesis using assms(1) by (auto simp: EndWriteData_def EndWriteData_relocked_def p_core_def p_capacity_def p_notify_def split: if_splits)
next
  case (Some k)
  then have w: "k = n" "n \<le> available_capacity p" "write_offset p + n \<le> p_capacity p"
      "p_core p' = (p_capacity p, (write_offset p + n) mod p_capacity p, available_capacity p - n)"
    using assms(1) by (auto simp: EndWriteData_def p_core_def p_capacity_def not_less split: if_splits)
  have "unat (write_offset p) + unat n < 2 ^ LENGTH(32)" using w(2) assms(2-4) by (simp add: word_le_nat_alt word_less_nat_alt)
  then have "unat (write_offset p + n) = unat (write_offset p) + unat n" by (simp only: unat_add_lem)
  then show ?thesis using Some w by (simp add: word_le_nat_alt)
qed

lemma end_write_ok:
  assumes "pipe_ok cap s" "EndWriteData n (producer_end s) = (r, note, p)"
  shows "pipe_ok cap (s\<lparr>producer_end := p, to_cons := to_cons s + announced note,
    written := written s @ copy_from (memory s) (unat (write_offset (producer_end s))) (noted note), ending_write := k\<rparr>)"
proof -
  let ?p = "producer_end s" and ?r = "unat (read_offset (consumer_end s))"
  have ok: "available_capacity ?p \<le> p_capacity ?p" "write_offset ?p < p_capacity ?p" "unat (p_capacity ?p) \<le> 2 ^ 31"
      "unat (write_offset ?p) = (?r + unread s) mod length (memory s)" "unat (p_capacity ?p) = length (memory s)" "cap = length (memory s)"
    using assms(1) by (auto simp: pipe_ok_def word_le_nat_alt word_less_nat_alt)
  from EndWriteData_effect [OF assms(2) ok(1-3)] show ?thesis
  proof (elim disjE conjE)
    assume "note = None" "p_core p = p_core ?p"
    then show ?thesis using pipe_ok_prod [OF assms(1), of p] by (simp add: announced_def noted_def copy_from_def)
  next
    assume n: "note = Some n" "n \<le> available_capacity ?p" "unat (write_offset ?p) + unat n \<le> unat (p_capacity ?p)"
      "p_core p = (p_capacity ?p, (write_offset ?p + n) mod p_capacity ?p, available_capacity ?p - n)"
    have "ring_elems (memory s) (?r + unread s) (unat n) = copy_from (memory s) (unat (write_offset ?p)) (unat n)"
      using ring_elems_mod_start [of "memory s" "?r + unread s" "unat n"] n(3) ok(4,5)
      by (simp add: ring_elems_straight copy_from_def)
    then show ?thesis
      using commit [OF assms(1) n(2,4), of "memory s"] n(1) ok(6) by (simp add: ring_elems_append announced_def noted_def)
  qed
qed

section \<open>The consumer\<close>

lemma consume:
  assumes ok: "pipe_ok cap s" and n: "n \<le> bytes_available (consumer_end s)"
    and same: "producer_end s' = producer_end s" "memory s' = memory s" "to_cons s' = to_cons s" "written s' = written s"
    and new: "to_prod s' = to_prod s + {#n#}"
      "consumed s' = consumed s @ ring_elems (memory s) (unat (read_offset (consumer_end s))) (unat n)"
    and c: "c_capacity (consumer_end s') = c_capacity (consumer_end s)"
      "read_offset (consumer_end s') = (read_offset (consumer_end s) + n) mod c_capacity (consumer_end s)"
      "bytes_available (consumer_end s') = bytes_available (consumer_end s) - n"
      "in_two_phase_read (consumer_end s') \<Longrightarrow> ending_read s'"
  shows "pipe_ok cap s'"
proof -
  let ?c = "consumer_end s" and ?c' = "consumer_end s'"
  let ?r = "unat (read_offset ?c)"
  have le: "unat n \<le> unat (bytes_available ?c)" using n by (simp add: word_le_nat_alt)
  have r: "unat (read_offset ?c') = (?r + unat n) mod cap"
    using ok le c advance_offset [of "read_offset ?c" "c_capacity ?c" n] by (simp add: pipe_ok_def unread_def)
  have a: "unat (bytes_available ?c') = unat (bytes_available ?c) - unat n" using c unat_diff [OF n] by simp
  have split: "ring_elems (memory s) ?r (unread s) =
      ring_elems (memory s) ?r (unat n) @ ring_elems (memory s) (?r + unat n) (unread s - unat n)"
    using ring_elems_append [of "memory s" ?r "unat n" "unread s - unat n"] le by (simp add: unread_def)
  have "ring_elems (memory s) (unat (read_offset ?c')) (unread s - unat n) = ring_elems (memory s) (?r + unat n) (unread s - unat n)"
    using r ok ring_elems_mod_start [of "memory s" "?r + unat n" "unread s - unat n"] by (simp add: pipe_ok_def)
  moreover have "(unat (read_offset ?c') + (unread s - unat n)) mod cap = (?r + unread s) mod cap"
  proof -
    have "?r + unat n + (unread s - unat n) = ?r + unread s" using le by (simp add: unread_def)
    then show ?thesis unfolding r mod_add_left_eq by (rule arg_cong)
  qed
  moreover have "0 < cap" using ok by (auto simp: pipe_ok_def)
  ultimately show ?thesis
    using ok le c r a split same new by (auto simp: pipe_ok_def unread_def)
qed

text \<open>A read that succeeds with data; \<open>k\<close> bytes are left in the pipe by a peek.\<close>

lemma c_ReadData_effect:
  assumes "c_ReadData flags nul n c data = Some (r, bs, n', note, c')"
  shows "note = None \<and> c_core c' = c_core c \<or>
    (\<exists>k. note = Some k \<and> k \<le> bytes_available c \<and> n' = k \<and>
      c_core c' = (c_capacity c, (read_offset c + k) mod c_capacity c, bytes_available c - k, None))"
  using assms
  by (auto simp: c_ReadData_def Let_def c_core_def c_capacity_def c_notify_def split: if_splits)

text \<open>What a read that is not a query returns: it succeeds with as many bytes as are asked for and available, from
  the read offset on, copies them out unless it is told to discard them, and announces them unless it is a
  peek; or it fails and copies nothing.\<close>

definition read_result :: "u32 \<Rightarrow> u32 \<Rightarrow> consumer \<Rightarrow> u8 list \<Rightarrow> MojoResult \<Rightarrow> u8 list \<Rightarrow> u32 \<Rightarrow> u32 option \<Rightarrow> bool" where
  "read_result flags n c next_bytes r bs n' note \<longleftrightarrow>
     (if r = MOJO_RESULT_OK
      then n' = min n (bytes_available c) \<and> n' \<noteq> 0 \<and> unat n' \<le> length next_bytes \<and>
        bs = (if has_flag flags READ_DATA_FLAG_DISCARD then [] else take (unat n') next_bytes) \<and>
        note = (if has_flag flags READ_DATA_FLAG_PEEK then None else Some n')
      else bs = [] \<and> note = None)"

lemma c_ReadData_bytes:
  assumes "c_ReadData flags nul n c data = Some (r, bs, n', note, c')" "\<not> has_flag flags READ_DATA_FLAG_QUERY"
    "unat (read_offset c) < length data" "length data = unat (c_capacity c)" "bytes_available c \<le> c_capacity c"
    "\<And>k. k \<le> unat (bytes_available c) \<Longrightarrow> take k xs = ring_elems data (unat (read_offset c)) k"
  shows "read_result flags n c xs r bs n' note"
proof (cases "r = MOJO_RESULT_OK")
  case True
  define t where "t = min (c_capacity c - read_offset c) n'"
  have w: "n' = min n (bytes_available c)" "n' \<noteq> 0" "note = (if has_flag flags READ_DATA_FLAG_PEEK then None else Some n')"
      "bs = (if has_flag flags READ_DATA_FLAG_DISCARD then []
        else copy_from data (unat (read_offset c)) (unat t) @ copy_from data 0 (unat (n' - t)))"
    using assms(1,2) True by (auto simp: c_ReadData_def Let_def t_def c_capacity_def split: if_splits)
  have le: "n' \<le> bytes_available c" using w(1) by simp
  have t: "t \<le> n'" "unat t = min (length data - unat (read_offset c)) (unat n')"
    using assms(3,4) by (auto simp: t_def unat_min unat_diff word_le_nat_alt)
  have "unat (n' - t) = unat n' - unat t" using t(1) by (rule unat_diff)
  then have c: "copy_from data (unat (read_offset c)) (unat t) @ copy_from data 0 (unat (n' - t)) =
      ring_elems data (unat (read_offset c)) (unat n')"
    using t(2) ring_get [OF assms(3), of "unat n'"] le assms(4,5) by (simp add: word_le_nat_alt)
  have xs: "take (unat n') xs = ring_elems data (unat (read_offset c)) (unat n')"
    using assms(6) le by (simp add: word_le_nat_alt)
  have "length (take (unat n') xs) = unat n'" unfolding xs by simp
  then have "unat n' \<le> length xs" by simp
  then show ?thesis using True w xs c by (simp add: read_result_def)
next
  case False
  then show ?thesis using assms(1) by (auto simp: read_result_def c_ReadData_def Let_def split: if_splits)
qed

text \<open>When a read must succeed.\<close>

definition read_ready :: "u32 \<Rightarrow> u32 \<Rightarrow> consumer \<Rightarrow> bool" where
  "read_ready flags n c \<longleftrightarrow> c_buffer c \<and> c_mapping c \<and> \<not> c_in_transit c \<and> \<not> in_two_phase_read c \<and>
     \<not> has_flag flags READ_DATA_FLAG_QUERY \<and> \<not> (has_flag flags READ_DATA_FLAG_DISCARD \<and> has_flag flags READ_DATA_FLAG_PEEK) \<and>
     n \<noteq> 0 \<and> n mod element_num_bytes (c_options c) = 0 \<and> bytes_available c \<noteq> 0 \<and>
     (has_flag flags READ_DATA_FLAG_ALL_OR_NONE \<longrightarrow> n \<le> bytes_available c)"

lemma c_ReadData_succeeds:
  assumes "read_ready flags n c"
  shows "\<exists>bs n' note c'. c_ReadData flags False n c data = Some (MOJO_RESULT_OK, bs, n', note, c')"
proof -
  have "min n (bytes_available c) \<noteq> 0" using assms by (auto simp: read_ready_def min_def)
  then show ?thesis using assms by (auto simp: read_ready_def c_ReadData_def Let_def not_less)
qed

lemma BeginReadData_window:
  assumes "BeginReadData c = Some (r, Some (offset, k), c')" "unat (read_offset c) < unat (c_capacity c)"
  shows "offset = read_offset c \<and> k \<noteq> 0 \<and> k \<le> bytes_available c \<and> unat offset + unat k \<le> unat (c_capacity c) \<and>
    in_two_phase_read c' \<and> two_phase_max_bytes_read c' = k"
proof -
  have k: "offset = read_offset c" "k = min (bytes_available c) (c_capacity c - read_offset c)" "bytes_available c \<noteq> 0"
      "in_two_phase_read c'" "two_phase_max_bytes_read c' = k"
    using assms(1) by (auto simp: BeginReadData_def Let_def c_capacity_def c_notify_def split: if_splits)
  have d: "unat (c_capacity c - read_offset c) = unat (c_capacity c) - unat (read_offset c)"
    using assms(2) by (intro unat_diff) (simp add: word_le_nat_alt)
  then have "c_capacity c - read_offset c \<noteq> 0" using assms(2) by (metis unat_0 zero_less_diff less_irrefl)
  then show ?thesis using k d assms(2) by (auto simp: min_def word_le_nat_alt)
qed

lemma BeginWriteData_window:
  assumes "BeginWriteData p = Some (r, Some (offset, k), p')" "unat (write_offset p) < unat (p_capacity p)"
  shows "offset = write_offset p \<and> k \<noteq> 0 \<and> k \<le> available_capacity p \<and> unat offset + unat k \<le> unat (p_capacity p) \<and>
    in_two_phase_write p'"
proof -
  have k: "offset = write_offset p" "k = min (p_capacity p - write_offset p) (available_capacity p)" "available_capacity p \<noteq> 0"
      "in_two_phase_write p'"
    using assms(1) by (auto simp: BeginWriteData_def Let_def p_capacity_def split: if_splits)
  have d: "unat (p_capacity p - write_offset p) = unat (p_capacity p) - unat (write_offset p)"
    using assms(2) by (intro unat_diff) (simp add: word_le_nat_alt)
  then have "p_capacity p - write_offset p \<noteq> 0" using assms(2) by (metis unat_0 zero_less_diff less_irrefl)
  then show ?thesis using k d assms(2) by (auto simp: min_def word_le_nat_alt)
qed

text \<open>Filling a part of the window that is not wrapped around.\<close>

lemma fill_extends:
  assumes "s < length data" "n + length bs \<le> length data" "(s + n) mod length data + length bs \<le> length data"
  shows "ring_elems (copy_to data ((s + n) mod length data) bs) s (n + length bs) = ring_elems data s n @ bs"
proof -
  have "ring_put data ((s + n) mod length data) bs = copy_to data ((s + n) mod length data) bs"
    using assms(3) by (simp add: ring_put_def Let_def)
  then show ?thesis using ring_put_extends [OF assms(1,2)] by simp
qed

lemma read_ok:
  assumes "pipe_ok cap s" "c_ReadData flags nul n (consumer_end s) (memory s) = Some (r, bs, n', note, c)"
  shows "pipe_ok cap (s\<lparr>consumer_end := c, to_prod := to_prod s + announced note,
    consumed := consumed s @ ring_elems (memory s) (unat (read_offset (consumer_end s))) (noted note)\<rparr>)"
  using c_ReadData_effect [OF assms(2)]
proof (elim disjE exE conjE)
  assume "note = None" "c_core c = c_core (consumer_end s)"
  then show ?thesis using pipe_ok_cons [OF assms(1)] by (simp add: announced_def noted_def ring_elems_def)
next
  fix k assume "note = Some k" "k \<le> bytes_available (consumer_end s)"
    "c_core c = (c_capacity (consumer_end s), (read_offset (consumer_end s) + k) mod c_capacity (consumer_end s),
      bytes_available (consumer_end s) - k, None)"
  then show ?thesis by (intro consume [OF assms(1), of k]) (auto simp: announced_def noted_def c_core_def split: if_splits)
qed

lemma begin_read_ok:
  assumes "pipe_ok cap s" "BeginReadData (consumer_end s) = Some (r, w, c)"
  shows "pipe_ok cap (s\<lparr>consumer_end := c\<rparr>)"
proof -
  let ?c = "consumer_end s"
  let ?m = "min (bytes_available ?c) (c_capacity ?c - read_offset ?c)"
  have "c_core c = c_core ?c \<or> c_core c = (c_capacity ?c, read_offset ?c, bytes_available ?c, Some ?m)"
    using assms(2) by (auto simp: BeginReadData_def Let_def c_core_def c_capacity_def c_notify_def split: if_splits)
  moreover have "unat ?m \<le> unat (bytes_available ?c) \<and> unat (read_offset ?c) + unat ?m \<le> cap"
    using assms(1) by (auto simp: pipe_ok_def unat_min unat_diff word_le_nat_alt)
  ultimately show ?thesis
    using assms(1) pipe_ok_cons [OF assms(1)] by (auto simp: pipe_ok_def c_core_def unread_def split: if_splits)
qed

lemma EndReadData_effect:
  assumes "EndReadData n c = Some (r, note, c')"
  shows "note = None \<and> c_core c' \<in> {c_core c, (c_capacity c, read_offset c, bytes_available c, None)} \<or>
    note = Some n \<and> in_two_phase_read c \<and> n \<le> two_phase_max_bytes_read c \<and>
      c_core c' = (c_capacity c, (read_offset c + n) mod c_capacity c, bytes_available c - n, Some (two_phase_max_bytes_read c))"
  using assms
  by (auto simp: EndReadData_def EndReadData_relocked_def c_core_def c_capacity_def c_notify_def not_less split: if_splits)

lemma end_read_ok:
  assumes "pipe_ok cap s" "EndReadData n (consumer_end s) = Some (r, note, c)" "\<not> ending_read s"
  shows "pipe_ok cap (s\<lparr>consumer_end := c, to_prod := to_prod s + announced note,
    consumed := consumed s @ copy_from (memory s) (unat (read_offset (consumer_end s))) (noted note), ending_read := (note \<noteq> None)\<rparr>)"
  using EndReadData_effect [OF assms(2)]
proof (elim disjE conjE)
  let ?c = "consumer_end s"
  assume "note = None" "c_core c \<in> {c_core ?c, (c_capacity ?c, read_offset ?c, bytes_available ?c, None)}"
  then show ?thesis
    using assms(1,3) by (auto simp: pipe_ok_def c_core_def unread_def announced_def noted_def copy_from_def split: if_splits)
next
  let ?c = "consumer_end s"
  assume n: "note = Some n" "in_two_phase_read ?c" "n \<le> two_phase_max_bytes_read ?c"
    "c_core c = (c_capacity ?c, (read_offset ?c + n) mod c_capacity ?c, bytes_available ?c - n, Some (two_phase_max_bytes_read ?c))"
  then have le: "n \<le> bytes_available ?c" "unat (read_offset ?c) + unat n \<le> length (memory s)"
    using assms(1,3) by (auto simp: pipe_ok_def word_le_nat_alt)
  have "copy_from (memory s) (unat (read_offset ?c)) (unat n) = ring_elems (memory s) (unat (read_offset ?c)) (unat n)"
    using le(2) by (simp add: ring_elems_straight copy_from_def)
  then show ?thesis
    using n(1,4) by (intro consume [OF assms(1) le(1)]) (auto simp: announced_def noted_def c_core_def split: if_splits)
qed

lemma relock_ok:
  assumes "pipe_ok cap s"
  shows "pipe_ok cap (s\<lparr>producer_end := EndWriteData_relocked (producer_end s), ending_write := k\<rparr>)"
    "pipe_ok cap (s\<lparr>consumer_end := EndReadData_relocked (consumer_end s), ending_read := e\<rparr>)"
  using assms
  by (auto simp: pipe_ok_def unread_def EndWriteData_relocked_def EndReadData_relocked_def p_notify_def c_notify_def p_capacity_def c_capacity_def)

section \<open>The control messages\<close>

lemma told_prod:
  assumes "pipe_ok cap s" "p_capacity p = p_capacity (producer_end s)" "write_offset p = write_offset (producer_end s)"
    "unat (available_capacity p) + amount M = unat (available_capacity (producer_end s)) + amount (to_prod s)"
  shows "pipe_ok cap (s\<lparr>producer_end := p, to_prod := M\<rparr>)"
  using assms by (simp add: pipe_ok_def unread_def)

lemma told_cons:
  assumes "pipe_ok cap s" "c_capacity c = c_capacity (consumer_end s)" "read_offset c = read_offset (consumer_end s)"
    "unat (bytes_available c) + amount M = unat (bytes_available (consumer_end s)) + amount (to_cons s)"
    "in_two_phase_read c \<Longrightarrow> in_two_phase_read (consumer_end s) \<and>
       two_phase_max_bytes_read c = two_phase_max_bytes_read (consumer_end s) \<and>
       unat (bytes_available (consumer_end s)) \<le> unat (bytes_available c)"
  shows "pipe_ok cap (s\<lparr>consumer_end := c, to_cons := M\<rparr>)"
proof -
  have "unread (s\<lparr>consumer_end := c, to_cons := M\<rparr>) = unread s" using assms(4) by (simp add: unread_def)
  then show ?thesis using assms by (auto simp: pipe_ok_def)
qed

lemma amount_take:
  assumes "mset ns \<subseteq># M"
  shows "amount (take_messages ns rest M) + sum_list (map unat ns) = amount M + sum_list (map (unat \<circ> message_amount) rest)"
proof -
  have "amount M = amount (M - mset ns) + amount (mset ns)" using assms by (metis amount_simps(2) subset_mset.diff_add)
  then show ?thesis using amount_mset [of "map message_amount rest"] by (simp add: take_messages_def amount_mset)
qed

text \<open>Amounts that together fit are all taken: no message is dropped and none is a protocol error.\<close>

lemma p_read_control_all:
  "unat (available_capacity p) + sum_list (map unat ns) \<le> unat (p_capacity p) \<Longrightarrow>
   \<exists>p'. p_read_control b failed (map (Control DATA_WAS_READ) ns) p = (p', []) \<and>
     p_options p' = p_options p \<and> write_offset p' = write_offset p \<and>
     unat (available_capacity p') = unat (available_capacity p) + sum_list (map unat ns)"
proof (induction ns arbitrary: p)
  case Nil
  then show ?case by (simp add: p_capacity_def)
next
  case (Cons n ns)
  have cap: "unat (p_capacity p) < 2 ^ 32" using unsigned_less [of "p_capacity p"] by simp
  then have sum: "unat (available_capacity p + n) = unat (available_capacity p) + unat n"
    using Cons.prems by (intro unat_add_lem [THEN iffD1]) simp
  let ?p = "p\<lparr>available_capacity := available_capacity p + n\<rparr>"
  have "unat (available_capacity ?p) + sum_list (map unat ns) \<le> unat (p_capacity ?p)"
    using Cons.prems sum by (simp add: p_capacity_def)
  from Cons.IH [OF this] show ?case
    using Cons.prems cap sum by (simp add: check_add_exact p_capacity_def word_less_nat_alt not_less add.assoc)
qed

lemma c_read_control_all:
  "unat (bytes_available c) + sum_list (map unat ns) \<le> unat (c_capacity c) \<Longrightarrow>
   \<exists>c'. c_read_control b failed (map (Control DATA_WAS_WRITTEN) ns) c = (c', []) \<and>
     c_options c' = c_options c \<and> read_offset c' = read_offset c \<and>
     in_two_phase_read c' = in_two_phase_read c \<and> two_phase_max_bytes_read c' = two_phase_max_bytes_read c \<and>
     unat (bytes_available c') = unat (bytes_available c) + sum_list (map unat ns)"
proof (induction ns arbitrary: c)
  case Nil
  then show ?case by (simp add: c_capacity_def)
next
  case (Cons n ns)
  have cap: "unat (c_capacity c) < 2 ^ 32" using unsigned_less [of "c_capacity c"] by simp
  then have sum: "unat (bytes_available c + n) = unat (bytes_available c) + unat n"
    using Cons.prems by (intro unat_add_lem [THEN iffD1]) simp
  let ?c = "c\<lparr>bytes_available := bytes_available c + n\<rparr>"
  have "unat (bytes_available ?c) + sum_list (map unat ns) \<le> unat (c_capacity ?c)"
    using Cons.prems sum by (simp add: c_capacity_def)
  from Cons.IH [OF this] show ?case
    using Cons.prems cap sum by (simp add: check_add_exact c_capacity_def word_less_nat_alt not_less add.assoc)
qed

text \<open>Told of the port's state, an end takes all the messages or leaves them in the port.\<close>

lemma p_UpdateSignals_cases:
  fixes remote
  assumes "p_UpdateSignals b status failed ms p = (p', rest)"
  defines "remote \<equiv> (case status of None \<Rightarrow> False | Some st \<Rightarrow> peer_remote st)"
  shows "\<exists>q. (p' = q \<or> p' = p_notify q) \<and>
    ((\<exists>closed. q = p\<lparr>p_peer_remote := remote, p_peer_closed := closed\<rparr>) \<and> rest = ms \<or>
     p_read_control b failed ms (p\<lparr>p_peer_remote := remote\<rparr>) = (q, rest))"
proof -
  let ?p = "p\<lparr>p_peer_remote := remote\<rparr>"
  let ?in = "case status of None \<Rightarrow> (?p\<lparr>p_peer_closed := True\<rparr>, ms)
    | Some st \<Rightarrow> if \<not> receiving_messages st then (?p\<lparr>p_peer_closed := True\<rparr>, ms)
        else if has_messages st \<and> \<not> p_in_transit ?p then p_read_control b failed ms ?p else (?p, ms)"
  obtain q rest' where i: "?in = (q, rest')" by (rule prod.exhaust)
  have "p' = q \<or> p' = p_notify q" "rest = rest'"
    using assms(1) [unfolded p_UpdateSignals_def Let_def, folded remote_def, unfolded i prod.case]
    by (simp_all split: if_split_asm)
  moreover have same: "\<exists>closed. q = q\<lparr>p_peer_closed := closed\<rparr>" for q :: producer
    by (rule exI [of _ "p_peer_closed q"]) simp
  have "(\<exists>closed. q = p\<lparr>p_peer_remote := remote, p_peer_closed := closed\<rparr>) \<and> rest' = ms \<or>
      p_read_control b failed ms ?p = (q, rest')"
    using i by (simp split: option.split_asm if_split_asm) (use same in blast)+
  ultimately show ?thesis by blast
qed

lemma p_UpdateSignals_effect:
  assumes "p_UpdateSignals b status failed (map (Control DATA_WAS_READ) ns) p = (p', rest)"
    "unat (available_capacity p) + sum_list (map unat ns) \<le> unat (p_capacity p)"
  shows "(rest = [] \<or> rest = map (Control DATA_WAS_READ) ns) \<and> p_options p' = p_options p \<and> write_offset p' = write_offset p \<and>
    unat (available_capacity p') + sum_list (map (unat \<circ> message_amount) rest) = unat (available_capacity p) + sum_list (map unat ns)"
proof -
  let ?ok = "\<lambda>q. (rest = [] \<or> rest = map (Control DATA_WAS_READ) ns) \<and> p_options q = p_options p \<and> write_offset q = write_offset p \<and>
    unat (available_capacity q) + sum_list (map (unat \<circ> message_amount) rest) = unat (available_capacity p) + sum_list (map unat ns)"
  have notify: "?ok (p_notify q) = ?ok q" for q by (simp add: p_notify_def p_capacity_def)
  from p_UpdateSignals_cases [OF assms(1)] obtain q r where q: "p' = q \<or> p' = p_notify q"
    "(\<exists>closed. q = p\<lparr>p_peer_remote := r, p_peer_closed := closed\<rparr>) \<and> rest = map (Control DATA_WAS_READ) ns \<or>
     p_read_control b failed (map (Control DATA_WAS_READ) ns) (p\<lparr>p_peer_remote := r\<rparr>) = (q, rest)" by blast
  have "?ok q" using q(2)
  proof
    assume "p_read_control b failed (map (Control DATA_WAS_READ) ns) (p\<lparr>p_peer_remote := r\<rparr>) = (q, rest)"
    then show ?thesis
      using p_read_control_all [of "p\<lparr>p_peer_remote := r\<rparr>" ns b failed] assms(2) by (auto simp: p_capacity_def)
  qed (auto simp: p_capacity_def comp_def)
  then show ?thesis using q(1) notify by metis
qed

lemma c_UpdateSignals_cases:
  fixes remote
  assumes "c_UpdateSignals b status failed ms c = (c', rest)"
  defines "remote \<equiv> (case status of None \<Rightarrow> False | Some st \<Rightarrow> peer_remote st)"
  shows "\<exists>q fresh. (c' = q\<lparr>new_data_available := fresh\<rparr> \<or> c' = c_notify (q\<lparr>new_data_available := fresh\<rparr>)) \<and>
    ((\<exists>closed. q = c\<lparr>c_peer_remote := remote, c_peer_closed := closed\<rparr>) \<and> rest = ms \<or>
     c_read_control b failed ms (c\<lparr>c_peer_remote := remote\<rparr>) = (q, rest))"
proof -
  let ?c = "c\<lparr>c_peer_remote := remote\<rparr>"
  let ?in = "case status of None \<Rightarrow> (?c\<lparr>c_peer_closed := True\<rparr>, ms)
    | Some st \<Rightarrow> if \<not> receiving_messages st then (?c\<lparr>c_peer_closed := True\<rparr>, ms)
        else if has_messages st \<and> \<not> c_in_transit ?c then c_read_control b failed ms ?c else (?c, ms)"
  obtain q rest' where i: "?in = (q, rest')" by (rule prod.exhaust)
  define fresh where "fresh \<longleftrightarrow> bytes_available q \<noteq> bytes_available c \<or> new_data_available q"
  have "(if bytes_available q \<noteq> bytes_available c then q\<lparr>new_data_available := True\<rparr> else q) = q\<lparr>new_data_available := fresh\<rparr>"
    by (simp add: fresh_def)
  then have "c' = q\<lparr>new_data_available := fresh\<rparr> \<or> c' = c_notify (q\<lparr>new_data_available := fresh\<rparr>)" "rest = rest'"
    using assms(1) [unfolded c_UpdateSignals_def Let_def, folded remote_def, unfolded i prod.case]
    by (simp_all only: prod.inject split: if_split_asm) blast+
  moreover have same: "\<exists>closed. q = q\<lparr>c_peer_closed := closed\<rparr>" for q :: consumer
    by (rule exI [of _ "c_peer_closed q"]) simp
  have "(\<exists>closed. q = c\<lparr>c_peer_remote := remote, c_peer_closed := closed\<rparr>) \<and> rest' = ms \<or>
      c_read_control b failed ms ?c = (q, rest')"
    using i by (simp split: option.split_asm if_split_asm) (use same in blast)+
  ultimately show ?thesis by blast
qed

lemma c_UpdateSignals_effect:
  assumes "c_UpdateSignals b status failed (map (Control DATA_WAS_WRITTEN) ns) c = (c', rest)"
    "unat (bytes_available c) + sum_list (map unat ns) \<le> unat (c_capacity c)"
  shows "(rest = [] \<or> rest = map (Control DATA_WAS_WRITTEN) ns) \<and> c_options c' = c_options c \<and> read_offset c' = read_offset c \<and>
    in_two_phase_read c' = in_two_phase_read c \<and> two_phase_max_bytes_read c' = two_phase_max_bytes_read c \<and>
    unat (bytes_available c') + sum_list (map (unat \<circ> message_amount) rest) = unat (bytes_available c) + sum_list (map unat ns) \<and>
    unat (bytes_available c) \<le> unat (bytes_available c')"
proof -
  define ok where "ok q \<longleftrightarrow> (rest = [] \<or> rest = map (Control DATA_WAS_WRITTEN) ns) \<and> c_options q = c_options c \<and> read_offset q = read_offset c \<and>
    in_two_phase_read q = in_two_phase_read c \<and> two_phase_max_bytes_read q = two_phase_max_bytes_read c \<and>
    unat (bytes_available q) + sum_list (map (unat \<circ> message_amount) rest) = unat (bytes_available c) + sum_list (map unat ns) \<and>
    unat (bytes_available c) \<le> unat (bytes_available q)" for q :: consumer
  have notify: "ok (c_notify (q\<lparr>new_data_available := fresh\<rparr>)) = ok q" "ok (q\<lparr>new_data_available := fresh\<rparr>) = ok q" for q fresh
    by (simp_all add: ok_def c_notify_def)
  from c_UpdateSignals_cases [OF assms(1)] obtain q r fresh where
    q: "c' = q\<lparr>new_data_available := fresh\<rparr> \<or> c' = c_notify (q\<lparr>new_data_available := fresh\<rparr>)"
    "(\<exists>closed. q = c\<lparr>c_peer_remote := r, c_peer_closed := closed\<rparr>) \<and> rest = map (Control DATA_WAS_WRITTEN) ns \<or>
     c_read_control b failed (map (Control DATA_WAS_WRITTEN) ns) (c\<lparr>c_peer_remote := r\<rparr>) = (q, rest)" by blast
  have "ok q" using q(2)
  proof
    assume "c_read_control b failed (map (Control DATA_WAS_WRITTEN) ns) (c\<lparr>c_peer_remote := r\<rparr>) = (q, rest)"
    then show ?thesis
      using c_read_control_all [of "c\<lparr>c_peer_remote := r\<rparr>" ns b failed] assms(2) by (auto simp: ok_def c_capacity_def)
  qed (auto simp: ok_def comp_def)
  then have "ok c'" using q(1) notify by metis
  then show ?thesis unfolding ok_def .
qed

section \<open>The whole pipe\<close>

lemma messages_fit:
  assumes "pipe_ok cap s"
  shows "mset ns \<subseteq># to_prod s \<Longrightarrow>
      unat (available_capacity (producer_end s)) + sum_list (map unat ns) \<le> unat (p_capacity (producer_end s))"
    "mset ms \<subseteq># to_cons s \<Longrightarrow>
      unat (bytes_available (consumer_end s)) + sum_list (map unat ms) \<le> unat (c_capacity (consumer_end s))"
  using assms amount_take [of ns "to_prod s" "[]"] amount_take [of ms "to_cons s" "[]"]
  by (auto simp: pipe_ok_def unread_def)

text \<open>Either end told by its port, where it is or after it moved.\<close>

lemma prod_updated:
  assumes "pipe_ok cap s" "mset ns \<subseteq># to_prod s" "p_core p = p_core (producer_end s)"
    "p_UpdateSignals b status failed (map (Control DATA_WAS_READ) ns) p = (p', rest)"
  shows "pipe_ok cap (s\<lparr>producer_end := p', to_prod := take_messages ns rest (to_prod s)\<rparr>)"
proof -
  have core: "p_capacity p = p_capacity (producer_end s)" "write_offset p = write_offset (producer_end s)"
      "available_capacity p = available_capacity (producer_end s)"
    using assms(3) by (simp_all add: p_core_def)
  have "p_options p' = p_options p \<Longrightarrow> p_capacity p' = p_capacity p" by (simp add: p_capacity_def)
  with p_UpdateSignals_effect [OF assms(4)] messages_fit(1) [OF assms(1,2)] show ?thesis
    using amount_take [OF assms(2), of rest] by (intro told_prod [OF assms(1)]) (auto simp: core)
qed

lemma cons_updated:
  assumes "pipe_ok cap s" "mset ns \<subseteq># to_cons s" "c_capacity c = c_capacity (consumer_end s)"
    "read_offset c = read_offset (consumer_end s)" "bytes_available c = bytes_available (consumer_end s)"
    "in_two_phase_read c \<Longrightarrow> in_two_phase_read (consumer_end s) \<and> two_phase_max_bytes_read c = two_phase_max_bytes_read (consumer_end s)"
    "c_UpdateSignals b status failed (map (Control DATA_WAS_WRITTEN) ns) c = (c', rest)"
  shows "pipe_ok cap (s\<lparr>consumer_end := c', to_cons := take_messages ns rest (to_cons s)\<rparr>)"
proof -
  have "c_options c' = c_options c \<Longrightarrow> c_capacity c' = c_capacity c" by (simp add: c_capacity_def)
  with c_UpdateSignals_effect [OF assms(7)] messages_fit(2) [OF assms(1,2)] show ?thesis
    using amount_take [OF assms(2), of rest] assms(6) by (intro told_cons [OF assms(1)]) (auto simp: assms(3-5))
qed

lemma nothing_taken:
  assumes "mset ns \<subseteq># M"
  shows "take_messages ns (map (Control cmd) ns) M = M"
  using assms by (simp add: take_messages_def comp_def)

text \<open>An end that arrived in another process: the serialized state is all that it keeps.\<close>

definition p_arrived :: "producer \<Rightarrow> producer" where
  "p_arrived p = (new_producer True (p_options p) (p_pipe_id p))
     \<lparr>p_mapping := True, write_offset := write_offset p, available_capacity := available_capacity p, p_peer_closed := p_peer_closed p\<rparr>"

definition c_arrived :: "consumer \<Rightarrow> consumer" where
  "c_arrived c = (new_consumer True (c_options c) (c_pipe_id c))
     \<lparr>c_mapping := True, read_offset := read_offset c, bytes_available := bytes_available c,
      new_data_available := bytes_available c > 0, c_peer_closed := c_peer_closed c\<rparr>"

lemma arrives:
  "p_Deserialize b True True True msize status failed ms (fst (snd (p_EndSerialize h p))) =
     (if state_acceptable (fst (snd (p_EndSerialize h p))) \<and> (\<exists>n. msize = Some n \<and> unat (p_capacity p) \<le> n)
      then Some (p_UpdateSignals b status failed ms (p_arrived p)) else None)"
  "c_Deserialize b True True True msize status failed ms (fst (snd (c_EndSerialize h c))) =
     (if state_acceptable (fst (snd (c_EndSerialize h c))) \<and> (\<exists>n. msize = Some n \<and> unat (c_capacity c) \<le> n)
      then Some (c_UpdateSignals b status failed ms (c_arrived c)) else None)"
  by (auto simp: p_Deserialize_def p_EndSerialize_def p_Initialize_def p_arrived_def new_producer_def p_capacity_def
      c_Deserialize_def c_EndSerialize_def c_Initialize_def c_arrived_def new_consumer_def c_capacity_def
      Let_def kFlagPeerClosed_def split_beta)

lemma arrived_simps [simp]:
  "p_core (p_arrived p) = p_core p" "c_capacity (c_arrived c) = c_capacity c" "read_offset (c_arrived c) = read_offset c"
  "bytes_available (c_arrived c) = bytes_available c" "\<not> in_two_phase_read (c_arrived c)"
  by (simp_all add: p_arrived_def c_arrived_def new_producer_def new_consumer_def p_core_def p_capacity_def c_capacity_def)

lemma core_kept:
  "BeginWriteData p = Some (r, w, p') \<Longrightarrow> p_core p' = p_core p"
  "p_core (snd (p_CloseNoLock p)) = p_core p" "c_core (snd (c_CloseNoLock c)) = c_core c"
  "p_core (snd (p_BeginTransit p)) = p_core p" "c_core (snd (c_BeginTransit c)) = c_core c"
  "p_core (p_CancelTransit p) = p_core p"
  by (auto simp: BeginWriteData_def p_CloseNoLock_def c_CloseNoLock_def p_BeginTransit_def c_BeginTransit_def
      p_CancelTransit_def Let_def p_core_def c_core_def p_capacity_def c_capacity_def p_notify_def split: if_splits)

lemma step_ok:
  assumes "pipe_step s s'" "pipe_ok cap s"
  shows "pipe_ok cap s'"
  using assms
proof (induction rule: pipe_step.induct)
  case (write_data es n flags s r n' "note" p data)
  then show ?case by (intro write_ok)
next
  case (begin_write s r w p)
  then show ?case by (intro pipe_ok_prod core_kept(1))
next
  case (fill s offset bs)
  then show ?case by (intro fill_ok)
next
  case (end_write n s r "note" p)
  then show ?case by (intro end_write_ok)
next
  case (read_data flags nul n s r bs n' "note" c)
  then show ?case by (intro read_ok)
next
  case (begin_read s r w c)
  then show ?case by (intro begin_read_ok)
next
  case (end_read s n r "note" c)
  then show ?case by (intro end_read_ok)
next
  case (end_write_relock s)
  then show ?case by (intro relock_ok)
next
  case (end_read_relock s)
  then show ?case by (intro relock_ok)
next
  case (tell_prod ns s b status failed p rest)
  then show ?case
    using nothing_taken [of ns "to_prod s"] prod_updated [of cap s ns "producer_end s"]
    by (auto simp: p_OnPortStatusChanged_def split: if_splits)
next
  case (tell_cons ns s b status failed c rest)
  then show ?case
    using nothing_taken [of ns "to_cons s"] cons_updated [of cap s ns "consumer_end s"]
    by (auto simp: c_OnPortStatusChanged_def split: if_splits)
next
  case (close_prod s r p)
  then show ?case using core_kept(2) [of "producer_end s"] by (intro pipe_ok_prod) simp_all
next
  case (close_cons s r c)
  then show ?case using core_kept(3) [of "consumer_end s"] by (intro pipe_ok_cons) simp_all
next
  case (begin_transit_prod s ok p)
  then show ?case using core_kept(4) [of "producer_end s"] by (intro pipe_ok_prod) simp_all
next
  case (begin_transit_cons s ok c)
  then show ?case using core_kept(5) [of "consumer_end s"] by (intro pipe_ok_cons) simp_all
next
  case (cancel_prod s)
  then show ?case by (intro pipe_ok_prod core_kept(6))
next
  case (cancel_cons s ns b status failed c rest)
  then show ?case by (intro cons_updated [of cap s ns]) (auto simp: c_CancelTransit_def c_capacity_def)
next
  case (move_prod s ok st old ns b msize status failed p rest)
  then show ?case
    using arrives(1) [of b msize status failed "map (Control DATA_WAS_READ) ns" True "producer_end s"]
    by (intro prod_updated [of cap s ns "p_arrived (producer_end s)"]) (auto split: if_splits)
next
  case (move_cons s ok st old ns b msize status failed c rest)
  then show ?case
    using arrives(2) [of b msize status failed "map (Control DATA_WAS_WRITTEN) ns" True "consumer_end s"]
    by (intro cons_updated [of cap s ns "c_arrived (consumer_end s)"]) (auto split: if_splits)
qed

text \<open>The amounts are in whole elements when the capacity is.\<close>

definition whole :: "nat \<Rightarrow> u32 \<Rightarrow> bool" where
  "whole e n \<longleftrightarrow> e dvd unat n"

definition aligned :: "pipe_options \<Rightarrow> u32 \<Rightarrow> bool" where
  "aligned options n \<longleftrightarrow>
     (unat (element_num_bytes options) dvd unat (capacity_num_bytes options) \<longrightarrow> whole (unat (element_num_bytes options)) n)"

definition p_whole :: "pipe_options \<Rightarrow> producer \<Rightarrow> bool" where
  "p_whole options p \<longleftrightarrow> p_options p = options \<and> aligned options (write_offset p) \<and> aligned options (available_capacity p)"

definition c_whole :: "pipe_options \<Rightarrow> consumer \<Rightarrow> bool" where
  "c_whole options c \<longleftrightarrow> c_options c = options \<and> aligned options (read_offset c) \<and> aligned options (bytes_available c) \<and>
     (in_two_phase_read c \<longrightarrow> aligned options (two_phase_max_bytes_read c))"

definition pipe_whole :: "pipe_options \<Rightarrow> pipe \<Rightarrow> bool" where
  "pipe_whole options s \<longleftrightarrow> p_whole options (producer_end s) \<and> c_whole options (consumer_end s) \<and>
     (\<forall>n \<in># to_cons s. aligned options n) \<and> (\<forall>n \<in># to_prod s. aligned options n)"

lemma aligned_of_mod: "n mod element_num_bytes options = 0 \<Longrightarrow> aligned options n"
  by (metis aligned_def whole_def mod_0_imp_dvd unat_0 unat_mod)

lemma aligned_cap: "aligned options (capacity_num_bytes options)"
  by (simp add: aligned_def whole_def)

lemma aligned_min: "aligned options m \<Longrightarrow> aligned options n \<Longrightarrow> aligned options (min m n)"
  by (simp add: min_def)

lemma aligned_diff: "n \<le> m \<Longrightarrow> aligned options m \<Longrightarrow> aligned options n \<Longrightarrow> aligned options (m - n)"
  by (simp add: aligned_def whole_def unat_diff)

lemma aligned_advance:
  assumes "unat offset < unat (capacity_num_bytes options)" "unat n \<le> unat (capacity_num_bytes options)"
    "unat (capacity_num_bytes options) \<le> 2 ^ 31" "aligned options offset" "aligned options n"
  shows "aligned options ((offset + n) mod capacity_num_bytes options)"
  using assms advance_offset [of offset "capacity_num_bytes options" n] by (simp add: aligned_def whole_def dvd_mod)

lemma aligned_sum: "\<forall>n \<in> set ns. aligned options n \<Longrightarrow>
    unat (element_num_bytes options) dvd unat (capacity_num_bytes options) \<Longrightarrow> unat (element_num_bytes options) dvd sum_list (map unat ns)"
  by (induction ns) (auto simp: aligned_def whole_def)

lemma take_messages_sub:
  assumes "rest = [] \<or> rest = map (Control cmd) ns" "mset ns \<subseteq># M"
  shows "set_mset (take_messages ns rest M) \<subseteq> set_mset M"
  using assms(1)
proof
  assume "rest = map (Control cmd) ns"
  then show ?thesis using nothing_taken [OF assms(2)] by simp
qed (auto simp: take_messages_def dest: in_diffD)

lemma p_advance_whole:
  assumes "p_whole options p" "pipe_ok cap s" "producer_end s = p" "k \<le> available_capacity p" "aligned options k"
    "p_options p' = p_options p" "p_core p' = (p_capacity p, (write_offset p + k) mod p_capacity p, available_capacity p - k)"
  shows "p_whole options p'"
  using assms aligned_advance [of "write_offset p" options k]
  by (auto simp: p_whole_def p_core_def pipe_ok_def p_capacity_def word_le_nat_alt intro!: aligned_diff)

lemma c_advance_whole:
  assumes "c_whole options c" "pipe_ok cap s" "consumer_end s = c" "k \<le> bytes_available c" "aligned options k"
    "c_options c' = c_options c" "c_core c' = (c_capacity c, (read_offset c + k) mod c_capacity c, bytes_available c - k, m)"
    "\<And>j. m = Some j \<Longrightarrow> aligned options j"
  shows "c_whole options c'"
  using assms aligned_advance [of "read_offset c" options k]
  by (auto simp: c_whole_def c_core_def pipe_ok_def c_capacity_def unread_def word_le_nat_alt intro!: aligned_diff split: if_splits)

text \<open>What the calls announce is in whole elements.\<close>

lemma WriteData_whole:
  assumes "WriteData (Some es) n flags p data = Some (r, n', note, p', data')" "p_whole options p" "pipe_ok cap s" "producer_end s = p"
  shows "p_whole options p' \<and> (\<forall>k \<in># announced note. aligned options k)"
proof (cases "note")
  case None
  then show ?thesis using assms(1,2) by (auto simp: WriteData_def Let_def announced_def split: if_splits)
next
  case (Some k)
  then have k: "k = min n (available_capacity p)" "n mod element_num_bytes (p_options p) = 0" "p_options p' = p_options p"
      "p_core p' = (p_capacity p, (write_offset p + k) mod p_capacity p, available_capacity p - k)"
    using assms(1) by (auto simp: WriteData_def Let_def p_core_def p_capacity_def p_notify_def split: if_splits)
  then have al: "aligned options k" using assms(2) aligned_min [OF aligned_of_mod [OF k(2)]] by (auto simp: p_whole_def)
  then show ?thesis using p_advance_whole [OF assms(2-4) _ al k(3,4)] k(1) Some by (simp add: announced_def)
qed

lemma EndWriteData_whole:
  assumes "EndWriteData n p = (r, note, p')" "p_whole options p" "pipe_ok cap s" "producer_end s = p"
  shows "p_whole options p' \<and> (\<forall>k \<in># announced note. aligned options k)"
proof (cases "note")
  case None
  then show ?thesis
    using assms(1,2) by (auto simp: EndWriteData_def EndWriteData_relocked_def announced_def p_whole_def p_notify_def split: if_splits)
next
  case (Some k)
  then have k: "k = n" "n \<le> available_capacity p" "n mod element_num_bytes (p_options p) = 0" "p_options p' = p_options p"
      "p_core p' = (p_capacity p, (write_offset p + n) mod p_capacity p, available_capacity p - n)"
    using assms(1) by (auto simp: EndWriteData_def p_core_def p_capacity_def not_less split: if_splits)
  then have al: "aligned options n" using assms(2) by (auto simp: p_whole_def intro!: aligned_of_mod)
  then show ?thesis using p_advance_whole [OF assms(2-4) k(2) al k(4,5)] k(1) Some by (simp add: announced_def)
qed

lemma c_ReadData_whole:
  assumes "c_ReadData flags nul n c data = Some (r, bs, n', note, c')" "c_whole options c" "pipe_ok cap s" "consumer_end s = c"
  shows "c_whole options c' \<and> (\<forall>k \<in># announced note. aligned options k)"
proof (cases "note")
  case None
  then show ?thesis
    using assms(1,2) by (auto simp: c_ReadData_def Let_def announced_def c_whole_def c_notify_def split: if_splits)
next
  case (Some k)
  then have k: "k = min n (bytes_available c)" "n mod element_num_bytes (c_options c) = 0" "c_options c' = c_options c"
      "c_core c' = (c_capacity c, (read_offset c + k) mod c_capacity c, bytes_available c - k, None)"
    using assms(1) by (auto simp: c_ReadData_def Let_def c_core_def c_capacity_def c_notify_def split: if_splits)
  then have al: "aligned options k" using assms(2) aligned_min [OF aligned_of_mod [OF k(2)]] by (auto simp: c_whole_def)
  then show ?thesis using c_advance_whole [OF assms(2-4) _ al k(3,4)] k(1) Some by (simp add: announced_def)
qed

lemma BeginReadData_whole:
  assumes "BeginReadData c = Some (r, w, c')" "c_whole options c" "pipe_ok cap s" "consumer_end s = c"
  shows "c_whole options c'"
proof -
  have "aligned options (min (bytes_available c) (c_capacity c - read_offset c))"
    using assms(2-4)
    by (auto simp: c_whole_def c_capacity_def pipe_ok_def word_le_nat_alt intro!: aligned_min aligned_diff aligned_cap)
  then show ?thesis
    using assms(1,2) by (auto simp: BeginReadData_def Let_def c_whole_def c_notify_def c_capacity_def split: if_splits)
qed

lemma EndReadData_whole:
  assumes "EndReadData n c = Some (r, note, c')" "c_whole options c" "pipe_ok cap s" "consumer_end s = c" "\<not> ending_read s"
  shows "c_whole options c' \<and> (\<forall>k \<in># announced note. aligned options k)"
proof (cases "note")
  case None
  then show ?thesis
    using assms(1,2) by (auto simp: EndReadData_def EndReadData_relocked_def announced_def c_whole_def c_notify_def split: if_splits)
next
  case (Some k)
  then have k: "k = n" "in_two_phase_read c" "n \<le> two_phase_max_bytes_read c" "n mod element_num_bytes (c_options c) = 0"
      "c_options c' = c_options c"
      "c_core c' = (c_capacity c, (read_offset c + n) mod c_capacity c, bytes_available c - n, Some (two_phase_max_bytes_read c))"
    using assms(1) by (auto simp: EndReadData_def c_core_def c_capacity_def not_less split: if_splits)
  then have al: "aligned options n" "n \<le> bytes_available c" "aligned options (two_phase_max_bytes_read c)"
    using assms(2-5) by (auto simp: c_whole_def pipe_ok_def word_le_nat_alt intro!: aligned_of_mod)
  then show ?thesis using c_advance_whole [OF assms(2-4) al(2,1) k(5,6)] al(3) k(1) Some by (simp add: announced_def)
qed

lemma p_UpdateSignals_whole:
  assumes "p_UpdateSignals b status failed (map (Control DATA_WAS_READ) ns) p = (p', rest)" "p_whole options p"
    "unat (available_capacity p) + sum_list (map unat ns) \<le> unat (p_capacity p)"
    "mset ns \<subseteq># M" "\<forall>n \<in># M. aligned options n"
  shows "p_whole options p' \<and> (\<forall>n \<in># take_messages ns rest M. aligned options n)"
proof -
  note effect = p_UpdateSignals_effect [OF assms(1,3)]
  then have part: "set_mset (take_messages ns rest M) \<subseteq> set_mset M" using take_messages_sub assms(4) by metis
  have "\<forall>n \<in> set ns. aligned options n" using assms(4,5) mset_subset_eqD by fastforce
  then have sum: "unat (element_num_bytes options) dvd unat (capacity_num_bytes options) \<Longrightarrow>
      unat (element_num_bytes options) dvd sum_list (map unat ns)" by (rule aligned_sum)
  have "aligned options (available_capacity p')"
    using effect assms(2) sum by (auto simp: p_whole_def aligned_def whole_def comp_def)
  then show ?thesis using effect assms(2,5) part by (auto simp: p_whole_def)
qed

lemma c_UpdateSignals_whole:
  assumes "c_UpdateSignals b status failed (map (Control DATA_WAS_WRITTEN) ns) c = (c', rest)" "c_whole options c"
    "unat (bytes_available c) + sum_list (map unat ns) \<le> unat (c_capacity c)"
    "mset ns \<subseteq># M" "\<forall>n \<in># M. aligned options n"
  shows "c_whole options c' \<and> (\<forall>n \<in># take_messages ns rest M. aligned options n)"
proof -
  note effect = c_UpdateSignals_effect [OF assms(1,3)]
  then have part: "set_mset (take_messages ns rest M) \<subseteq> set_mset M" using take_messages_sub assms(4) by metis
  have "\<forall>n \<in> set ns. aligned options n" using assms(4,5) mset_subset_eqD by fastforce
  then have sum: "unat (element_num_bytes options) dvd unat (capacity_num_bytes options) \<Longrightarrow>
      unat (element_num_bytes options) dvd sum_list (map unat ns)" by (rule aligned_sum)
  have "aligned options (bytes_available c')"
    using effect assms(2) sum by (auto simp: c_whole_def aligned_def whole_def comp_def)
  then show ?thesis using effect assms(2,5) part by (auto simp: c_whole_def)
qed

lemma whole_kept:
  "BeginWriteData p = Some (r, w, p') \<Longrightarrow> p_whole options p \<Longrightarrow> p_whole options p'"
  "p_whole options p \<Longrightarrow> p_whole options (snd (p_CloseNoLock p))" "c_whole options c \<Longrightarrow> c_whole options (snd (c_CloseNoLock c))"
  "p_whole options p \<Longrightarrow> p_whole options (snd (p_BeginTransit p))" "c_whole options c \<Longrightarrow> c_whole options (snd (c_BeginTransit c))"
  "p_whole options p \<Longrightarrow> p_whole options (p_CancelTransit p)" "p_whole options p \<Longrightarrow> p_whole options (p_arrived p)"
  "c_whole options c \<Longrightarrow> c_whole options (c_arrived c)" "c_whole options c \<Longrightarrow> c_whole options (c\<lparr>c_in_transit := b\<rparr>)"
  by (auto simp: BeginWriteData_def p_CloseNoLock_def c_CloseNoLock_def p_BeginTransit_def c_BeginTransit_def
      p_CancelTransit_def Let_def p_whole_def c_whole_def p_notify_def p_arrived_def c_arrived_def new_producer_def new_consumer_def
      split: if_splits)

lemma arrived_amounts [simp]:
  "available_capacity (p_arrived p) = available_capacity p" "p_capacity (p_arrived p) = p_capacity p"
  by (simp_all add: p_arrived_def new_producer_def p_capacity_def)

lemma step_whole:
  assumes "pipe_step s s'" "pipe_ok cap s" "pipe_whole options s"
  shows "pipe_whole options s'"
  using assms
proof (induction rule: pipe_step.induct)
  case (write_data es n flags s r n' "note" p data)
  then show ?case using WriteData_whole by (auto simp: pipe_whole_def)
next
  case (begin_write s r w p)
  then show ?case using whole_kept(1) by (auto simp: pipe_whole_def)
next
  case (end_write n s r "note" p)
  then show ?case using EndWriteData_whole by (auto simp: pipe_whole_def)
next
  case (read_data flags nul n s r bs n' "note" c)
  then show ?case using c_ReadData_whole by (auto simp: pipe_whole_def)
next
  case (begin_read s r w c)
  then show ?case using BeginReadData_whole by (auto simp: pipe_whole_def)
next
  case (end_read s n r "note" c)
  then show ?case using EndReadData_whole by (auto simp: pipe_whole_def)
next
  case (end_write_relock s)
  then show ?case by (simp add: pipe_whole_def p_whole_def EndWriteData_relocked_def p_notify_def)
next
  case (end_read_relock s)
  then show ?case by (simp add: pipe_whole_def c_whole_def EndReadData_relocked_def c_notify_def)
next
  case (tell_prod ns s b status failed p rest)
  then show ?case
    using nothing_taken [of ns "to_prod s"] p_UpdateSignals_whole [of b status failed ns "producer_end s"] messages_fit(1) [of cap s ns]
    by (auto simp: pipe_whole_def p_OnPortStatusChanged_def split: if_splits)
next
  case (tell_cons ns s b status failed c rest)
  then show ?case
    using nothing_taken [of ns "to_cons s"] c_UpdateSignals_whole [of b status failed ns "consumer_end s"] messages_fit(2) [of cap s ns]
    by (auto simp: pipe_whole_def c_OnPortStatusChanged_def split: if_splits)
next
  case (close_prod s r p)
  then show ?case using whole_kept(2) [of options "producer_end s"] by (simp add: pipe_whole_def)
next
  case (close_cons s r c)
  then show ?case using whole_kept(3) [of options "consumer_end s"] by (simp add: pipe_whole_def)
next
  case (begin_transit_prod s ok p)
  then show ?case using whole_kept(4) [of options "producer_end s"] by (simp add: pipe_whole_def)
next
  case (begin_transit_cons s ok c)
  then show ?case using whole_kept(5) [of options "consumer_end s"] by (simp add: pipe_whole_def)
next
  case (cancel_prod s)
  then show ?case using whole_kept(6) by (simp add: pipe_whole_def)
next
  case (cancel_cons s ns b status failed c rest)
  then show ?case
    using c_UpdateSignals_whole [of b status failed ns "(consumer_end s)\<lparr>c_in_transit := False\<rparr>" c rest options "to_cons s"]
      messages_fit(2) [of cap s ns] by (auto simp: pipe_whole_def c_CancelTransit_def c_capacity_def intro: whole_kept(9))
next
  case (move_prod s ok st old ns b msize status failed p rest)
  then show ?case
    using arrives(1) [of b msize status failed "map (Control DATA_WAS_READ) ns" True "producer_end s"] messages_fit(1) [of cap s ns]
      p_UpdateSignals_whole [of b status failed ns "p_arrived (producer_end s)" p rest options "to_prod s"]
    by (auto simp: pipe_whole_def intro: whole_kept(7) split: if_splits)
next
  case (move_cons s ok st old ns b msize status failed c rest)
  then show ?case
    using arrives(2) [of b msize status failed "map (Control DATA_WAS_WRITTEN) ns" True "consumer_end s"] messages_fit(2) [of cap s ns]
      c_UpdateSignals_whole [of b status failed ns "c_arrived (consumer_end s)" c rest options "to_cons s"]
    by (auto simp: pipe_whole_def intro: whole_kept(8) split: if_splits)
qed (simp add: pipe_whole_def)

section \<open>Reachable states\<close>

inductive pipe_reachable :: "pipe_options \<Rightarrow> pipe \<Rightarrow> bool" for options where
  created: "pipe_start options s \<Longrightarrow> pipe_reachable options s"
| stepped: "pipe_reachable options s \<Longrightarrow> pipe_step s s' \<Longrightarrow> pipe_reachable options s'"

lemma pipe_whole_start: "pipe_start options s \<Longrightarrow> pipe_whole options s"
  using aligned_cap [of options]
  by (cases s) (auto simp: pipe_start_def pipe_whole_def p_whole_def c_whole_def p_Create_def c_Create_def p_Initialize_def
      c_Initialize_def new_producer_def new_consumer_def aligned_def whole_def)

lemma reachable_ok:
  assumes "pipe_reachable options s" "unat (capacity_num_bytes options) \<le> 2 ^ 31"
  shows "pipe_ok (unat (capacity_num_bytes options)) s \<and> pipe_whole options s"
  using assms(1)
proof induction
  case (created s)
  then show ?case using pipe_ok_start assms(2) pipe_whole_start by blast
next
  case (stepped s s')
  then show ?case using step_ok step_whole by blast
qed

text \<open>A pipe of two elements of two bytes, with one element written.\<close>

definition demo_options :: pipe_options where
  "demo_options = \<lparr>element_num_bytes = 2, capacity_num_bytes = 4\<rparr>"

definition demo_created :: pipe where
  "demo_created = \<lparr>producer_end = the (p_Create True True demo_options 7), consumer_end = the (c_Create True True demo_options 7),
     memory = [0, 0, 0, 0], to_cons = {#}, to_prod = {#}, written = [], consumed = [], ending_write = 0, ending_read = False\<rparr>"

definition demo_written :: pipe where
  "demo_written =
     (case WriteData (Some [8, 9]) 2 0 (producer_end demo_created) (memory demo_created) of
        Some (r, n, note, p, data) \<Rightarrow>
          demo_created\<lparr>producer_end := p, memory := data, to_cons := to_cons demo_created + announced note,
            written := written demo_created @ take (noted note) [8, 9]\<rparr>
      | None \<Rightarrow> demo_created)"

lemma demo_reachable: "pipe_reachable demo_options demo_written"
proof -
  have start: "pipe_start demo_options demo_created"
    by (auto simp: pipe_start_def demo_created_def demo_options_def p_Create_def c_Create_def p_Initialize_def c_Initialize_def
        new_producer_def new_consumer_def)
  have "WriteData (Some [8, 9]) 2 0 (producer_end demo_created) (memory demo_created) \<noteq> None"
    by code_simp
  then obtain r n "note" p data where
    w: "WriteData (Some [8, 9]) 2 0 (producer_end demo_created) (memory demo_created) = Some (r, n, note, p, data)"
    by (metis not_None_eq prod_cases5)
  have "pipe_step demo_created demo_written"
    using write_data [OF w] w by (simp add: demo_written_def)
  then show ?thesis using start by (blast intro: created stepped)
qed

text \<open>C3: A data pipe is a stream of bytes.  Whatever the calls of both ends, the deliveries of control
  messages and the transfers to other processes, the bytes consumed so far are a prefix of the
  bytes written.  The rest is in the ring buffer: it is what the consumer was told of and what is
  announced to it, and together with the capacity the producer knows of and the capacity announced
  to it makes up the whole buffer.  A \<open>ReadData\<close> that is not a query and finds the pipe ready
  returns exactly the next bytes of the stream, as many as asked for and available (nothing is
  copied when they are discarded, and a peek leaves them); when it fails it copies and announces
  nothing.  \<open>BeginReadData\<close> hands out a region that holds the next bytes, and so does the window of a
  two-phase read that is not being ended; \<open>BeginWriteData\<close> hands out the region in which bytes become
  the continuation of the stream.  The capacity is at most \<open>2 ^ 31\<close> bytes.\<close>

theorem data_pipe_stream:
  assumes "pipe_reachable options s" "unat (capacity_num_bytes options) \<le> 2 ^ 31"
  defines "c \<equiv> consumer_end s" and "p \<equiv> producer_end s"
  shows "\<exists>rest. written s = consumed s @ rest \<and>
    length rest + unat (available_capacity p) + amount (to_prod s) = unat (capacity_num_bytes options) \<and>
    length rest = unat (bytes_available c) + amount (to_cons s) \<and>
    (\<forall>flags n nul r bs n' note c'.
       c_ReadData flags nul n c (memory s) = Some (r, bs, n', note, c') \<and> \<not> has_flag flags READ_DATA_FLAG_QUERY \<longrightarrow>
       read_result flags n c rest r bs n' note) \<and>
    (\<forall>flags n. read_ready flags n c \<longrightarrow>
       (\<exists>bs n' note c'. c_ReadData flags False n c (memory s) = Some (MOJO_RESULT_OK, bs, n', note, c'))) \<and>
    (\<forall>r offset k c'. BeginReadData c = Some (r, Some (offset, k), c') \<longrightarrow>
       k \<noteq> 0 \<and> unat k \<le> length rest \<and> copy_from (memory s) (unat offset) (unat k) = take (unat k) rest \<and>
       in_two_phase_read c' \<and> two_phase_max_bytes_read c' = k) \<and>
    (in_two_phase_read c \<and> \<not> ending_read s \<longrightarrow>
       copy_from (memory s) (unat (read_offset c)) (unat (two_phase_max_bytes_read c)) = take (unat (two_phase_max_bytes_read c)) rest) \<and>
    (\<forall>r offset k p' bs. BeginWriteData p = Some (r, Some (offset, k), p') \<and> length bs \<le> unat k \<longrightarrow>
       k \<noteq> 0 \<and> in_two_phase_write p' \<and>
       ring_elems (copy_to (memory s) (unat offset) bs) (unat (read_offset c)) (length rest + length bs) = rest @ bs)"
proof (rule exI [of _ "ring_elems (memory s) (unat (read_offset c)) (unread s)"], intro conjI allI impI)
  let ?r = "unat (read_offset c)" and ?m = "unat (two_phase_max_bytes_read c)"
  let ?rest = "ring_elems (memory s) ?r (unread s)"
  note ok = conjunct1 [OF reachable_ok [OF assms(1,2)], unfolded pipe_ok_def, folded c_def p_def]
  have part: "take k ?rest = ring_elems (memory s) ?r k" if "k \<le> unat (bytes_available c)" for k
    using that ring_elems_append [of "memory s" ?r k "unread s - k"] by (simp add: unread_def c_def)
  have geom: "?r < length (memory s)" "length (memory s) = unat (c_capacity c)" "bytes_available c \<le> c_capacity c"
    using ok by (auto simp: unread_def c_def word_le_nat_alt)
  show "written s = consumed s @ ?rest"
    "length ?rest + unat (available_capacity p) + amount (to_prod s) = unat (capacity_num_bytes options)"
    "length ?rest = unat (bytes_available c) + amount (to_cons s)"
    using ok by (auto simp: unread_def c_def)
  show "read_result flags n c ?rest r bs n' note"
    if "c_ReadData flags nul n c (memory s) = Some (r, bs, n', note, c') \<and> \<not> has_flag flags READ_DATA_FLAG_QUERY" for flags n nul r bs n' "note" c'
    using that c_ReadData_bytes [OF _ _ geom part] by blast
  show "\<exists>bs n' note c'. c_ReadData flags False n c (memory s) = Some (MOJO_RESULT_OK, bs, n', note, c')" if "read_ready flags n c" for flags n
    using that by (rule c_ReadData_succeeds)
  show "copy_from (memory s) ?r ?m = take ?m ?rest" if "in_two_phase_read c \<and> \<not> ending_read s"
    using that ok part [of ?m] by (simp add: ring_elems_straight copy_from_def)
  {
    fix r offset k c' assume "BeginReadData c = Some (r, Some (offset, k), c')"
    from BeginReadData_window [OF this] geom
    show "k \<noteq> 0" "unat k \<le> length ?rest" "copy_from (memory s) (unat offset) (unat k) = take (unat k) ?rest"
      "in_two_phase_read c'" "two_phase_max_bytes_read c' = k"
      using part [of "unat k"] by (auto simp: ring_elems_straight copy_from_def word_le_nat_alt unread_def c_def)
  }
  fix r offset k p' and bs :: "u8 list"
  assume b: "BeginWriteData p = Some (r, Some (offset, k), p') \<and> length bs \<le> unat k"
  have w: "offset = write_offset p" "k \<noteq> 0" "k \<le> available_capacity p" "unat offset + unat k \<le> unat (p_capacity p)" "in_two_phase_write p'"
    using BeginWriteData_window [of p r offset k p'] b ok by auto
  then show "k \<noteq> 0" "in_two_phase_write p'" by simp_all
  have o: "unat offset = (?r + unread s) mod length (memory s)" "unat offset + length bs \<le> length (memory s)"
      "unread s + length bs \<le> length (memory s)"
    using ok w b by (auto simp: word_le_nat_alt)
  then show "ring_elems (copy_to (memory s) (unat offset) bs) ?r (length ?rest + length bs) = ?rest @ bs"
    using fill_extends [OF geom(1), of "unread s" bs] by simp
qed

text \<open>The consumer of the pipe is told of the element and can read it.\<close>

definition demo_told :: pipe where
  "demo_told = demo_written\<lparr>consumer_end := fst (c_OnPortStatusChanged Gcc
     (Some \<lparr>has_messages = True, receiving_messages = True, peer_remote = False\<rparr>) False [Control DATA_WAS_WRITTEN 2] (consumer_end demo_written)),
     to_cons := {#}\<rparr>"

lemma demo_told_reachable: "pipe_reachable demo_options demo_told"
proof -
  let ?st = "Some \<lparr>has_messages = True, receiving_messages = True, peer_remote = False\<rparr>"
  have w: "to_cons demo_written = {#2#}" by code_simp
  have "snd (c_OnPortStatusChanged Gcc ?st False (map (Control DATA_WAS_WRITTEN) [2]) (consumer_end demo_written)) = []" by code_simp
  then obtain c where "c_OnPortStatusChanged Gcc ?st False (map (Control DATA_WAS_WRITTEN) [2]) (consumer_end demo_written) = (c, [])"
    by (metis prod.collapse)
  with tell_cons [of "[2]" demo_written Gcc ?st False c "[]"] w have "pipe_step demo_written demo_told"
    by (simp add: demo_told_def take_messages_def)
  then show ?thesis using demo_reachable by (blast intro: stepped)
qed

theorem data_pipe_stream_witness:
  "pipe_reachable demo_options demo_told \<and>
   (\<exists>note c'. c_ReadData 0 False 4 (consumer_end demo_told) (memory demo_told) = Some (MOJO_RESULT_OK, [8, 9], 2, note, c'))"
proof -
  let ?c = "consumer_end demo_told"
  have cap: "unat (capacity_num_bytes demo_options) \<le> 2 ^ 31" by (simp add: demo_options_def)
  obtain rest where rest: "written demo_told = consumed demo_told @ rest"
    "\<forall>flags n nul r bs n' note c'. c_ReadData flags nul n ?c (memory demo_told) = Some (r, bs, n', note, c') \<and>
       \<not> has_flag flags READ_DATA_FLAG_QUERY \<longrightarrow> read_result flags n ?c rest r bs n' note"
    "\<forall>flags n. read_ready flags n ?c \<longrightarrow>
       (\<exists>bs n' note c'. c_ReadData flags False n ?c (memory demo_told) = Some (MOJO_RESULT_OK, bs, n', note, c'))"
    using data_pipe_stream [OF demo_told_reachable cap] by (elim exE conjE) (rule that)
  have "read_ready 0 4 ?c" "bytes_available ?c = 2" "\<not> has_flag 0 READ_DATA_FLAG_QUERY" "\<not> has_flag 0 READ_DATA_FLAG_DISCARD" by code_simp+
  moreover have "written demo_told = [8, 9]" "consumed demo_told = []" by code_simp+
  moreover from \<open>read_ready 0 4 ?c\<close> rest(3) obtain bs n' "note" c' where
    rd: "c_ReadData 0 False 4 ?c (memory demo_told) = Some (MOJO_RESULT_OK, bs, n', note, c')" by blast
  ultimately have "bs = [8, 9]" "n' = 2" using rest(1) rest(2) [rule_format, of 0 False 4] by (auto simp: read_result_def)
  then show ?thesis using rd demo_told_reachable by blast
qed

text \<open>C36: An end of a data pipe arrives in another process as it left, whatever happened to the pipe
  before: the state it serializes is accepted by \<open>Deserialize\<close> when the shared memory can be mapped, and the
  new dispatcher has the options, the pipe id, the offset, the amount and the peer's state of the
  old one; it is open, not in transit and then told of the messages waiting at its port.\<close>

theorem data_pipe_transfer:
  assumes "pipe_reachable options s" "unat (capacity_num_bytes options) \<le> 2 ^ 31"
    "element_num_bytes options \<noteq> 0" "element_num_bytes options \<le> capacity_num_bytes options"
    "unat (capacity_num_bytes options) \<le> mapped"
  shows "\<exists>p c. p_Deserialize b True True True (Some mapped) status failed ms (fst (snd (p_EndSerialize h (producer_end s)))) =
      Some (p_UpdateSignals b status failed ms p) \<and>
      p_options p = options \<and> p_pipe_id p = p_pipe_id (producer_end s) \<and> write_offset p = write_offset (producer_end s) \<and>
      available_capacity p = available_capacity (producer_end s) \<and> p_peer_closed p = p_peer_closed (producer_end s) \<and>
      p_mapping p \<and> \<not> p_in_transit p \<and> \<not> p_is_closed p \<and> \<not> in_two_phase_write p \<and>
    c_Deserialize b True True True (Some mapped) status failed ms (fst (snd (c_EndSerialize h (consumer_end s)))) =
      Some (c_UpdateSignals b status failed ms c) \<and>
      c_options c = options \<and> c_pipe_id c = c_pipe_id (consumer_end s) \<and> read_offset c = read_offset (consumer_end s) \<and>
      bytes_available c = bytes_available (consumer_end s) \<and> c_peer_closed c = c_peer_closed (consumer_end s) \<and>
      c_mapping c \<and> \<not> c_in_transit c \<and> \<not> c_is_closed c \<and> \<not> in_two_phase_read c"
proof (intro exI)
  have ok: "pipe_ok (unat (capacity_num_bytes options)) s" "pipe_whole options s" using reachable_ok assms(1,2) by blast+
  then have "state_acceptable (fst (snd (p_EndSerialize h (producer_end s))))"
      "state_acceptable (fst (snd (c_EndSerialize h (consumer_end s))))"
    using assms(3,4)
    by (auto simp: state_acceptable_def p_EndSerialize_def c_EndSerialize_def pipe_ok_def unread_def pipe_whole_def p_whole_def
        c_whole_def p_capacity_def c_capacity_def word_le_nat_alt word_less_nat_alt not_le not_less)
  moreover have "unat (p_capacity (producer_end s)) \<le> mapped" "unat (c_capacity (consumer_end s)) \<le> mapped"
    using ok(1) assms(5) by (auto simp: pipe_ok_def)
  ultimately show "p_Deserialize b True True True (Some mapped) status failed ms (fst (snd (p_EndSerialize h (producer_end s)))) =
      Some (p_UpdateSignals b status failed ms (p_arrived (producer_end s))) \<and>
      p_options (p_arrived (producer_end s)) = options \<and> p_pipe_id (p_arrived (producer_end s)) = p_pipe_id (producer_end s) \<and> write_offset (p_arrived (producer_end s)) = write_offset (producer_end s) \<and>
      available_capacity (p_arrived (producer_end s)) = available_capacity (producer_end s) \<and> p_peer_closed (p_arrived (producer_end s)) = p_peer_closed (producer_end s) \<and>
      p_mapping (p_arrived (producer_end s)) \<and> \<not> p_in_transit (p_arrived (producer_end s)) \<and> \<not> p_is_closed (p_arrived (producer_end s)) \<and> \<not> in_two_phase_write (p_arrived (producer_end s)) \<and>
    c_Deserialize b True True True (Some mapped) status failed ms (fst (snd (c_EndSerialize h (consumer_end s)))) =
      Some (c_UpdateSignals b status failed ms (c_arrived (consumer_end s))) \<and>
      c_options (c_arrived (consumer_end s)) = options \<and> c_pipe_id (c_arrived (consumer_end s)) = c_pipe_id (consumer_end s) \<and> read_offset (c_arrived (consumer_end s)) = read_offset (consumer_end s) \<and>
      bytes_available (c_arrived (consumer_end s)) = bytes_available (consumer_end s) \<and> c_peer_closed (c_arrived (consumer_end s)) = c_peer_closed (consumer_end s) \<and>
      c_mapping (c_arrived (consumer_end s)) \<and> \<not> c_in_transit (c_arrived (consumer_end s)) \<and> \<not> c_is_closed (c_arrived (consumer_end s)) \<and> \<not> in_two_phase_read (c_arrived (consumer_end s))"
    using ok(2)
    by (simp add: arrives p_arrived_def c_arrived_def new_producer_def new_consumer_def pipe_whole_def p_whole_def c_whole_def)
qed

theorem data_pipe_transfer_witness:
  "pipe_reachable demo_options demo_written \<and>
   (\<exists>p. p_Deserialize Gcc True True True (Some 4) None False [] (fst (snd (p_EndSerialize True (producer_end demo_written)))) =
      Some (p_UpdateSignals Gcc None False [] p) \<and> p_options p = demo_options)"
  using data_pipe_transfer [OF demo_reachable, of 4 Gcc None False "[]" True] demo_reachable
  by (auto simp: demo_options_def word_le_nat_alt)

text \<open>C37: When the capacity of a data pipe is a multiple of its element size, both ends only ever count
  whole elements: the amounts they keep, the offsets, the window of a two-phase read and every
  amount a successful \<open>WriteData\<close> or \<open>ReadData\<close> reports are multiples of the element size.\<close>

theorem data_pipe_whole_elements:
  assumes "pipe_reachable options s" "unat (capacity_num_bytes options) \<le> 2 ^ 31"
    "unat (element_num_bytes options) dvd unat (capacity_num_bytes options)"
  defines "e \<equiv> unat (element_num_bytes options)"
  shows "e dvd unat (write_offset (producer_end s)) \<and> e dvd unat (available_capacity (producer_end s)) \<and>
    e dvd unat (read_offset (consumer_end s)) \<and> e dvd unat (bytes_available (consumer_end s)) \<and>
    (in_two_phase_read (consumer_end s) \<longrightarrow> e dvd unat (two_phase_max_bytes_read (consumer_end s))) \<and>
    (\<forall>es n flags n' note p data. WriteData es n flags (producer_end s) (memory s) = Some (MOJO_RESULT_OK, n', note, p, data) \<longrightarrow> e dvd unat n') \<and>
    (\<forall>flags nul n bs n' note c. c_ReadData flags nul n (consumer_end s) (memory s) = Some (MOJO_RESULT_OK, bs, n', note, c) \<longrightarrow> e dvd unat n')"
proof -
  have w: "pipe_whole options s" using reachable_ok assms(1,2) by blast
  have al: "aligned options n \<longleftrightarrow> e dvd unat n" for n using assms(3) by (simp add: aligned_def whole_def e_def)
  have "e dvd unat n'" if "WriteData es n flags (producer_end s) (memory s) = Some (MOJO_RESULT_OK, n', note, p, data)"
    for es n flags n' "note" p data
  proof -
    have "n' = min n (available_capacity (producer_end s))" "n mod element_num_bytes (p_options (producer_end s)) = 0"
      using that by (auto simp: WriteData_def Let_def split: if_splits option.splits)
    then show ?thesis using w aligned_min [OF aligned_of_mod, of n options] by (simp add: al pipe_whole_def p_whole_def del: mod_eq_0_iff_dvd)
  qed
  moreover have "e dvd unat n'" if "c_ReadData flags nul n (consumer_end s) (memory s) = Some (MOJO_RESULT_OK, bs, n', note, c)"
    for flags nul n bs n' "note" c
  proof -
    have "n' = bytes_available (consumer_end s) \<or>
        n' = min n (bytes_available (consumer_end s)) \<and> n mod element_num_bytes (c_options (consumer_end s)) = 0"
      using that by (auto simp: c_ReadData_def Let_def split: if_splits)
    then show ?thesis using w aligned_min [OF aligned_of_mod, of n options]
      by (elim disjE) (simp_all add: al pipe_whole_def c_whole_def del: mod_eq_0_iff_dvd)
  qed
  ultimately show ?thesis using w by (auto simp: pipe_whole_def p_whole_def c_whole_def al)
qed

theorem data_pipe_whole_elements_witness:
  "pipe_reachable demo_options demo_written \<and> 2 dvd unat (available_capacity (producer_end demo_written))"
  using data_pipe_whole_elements [OF demo_reachable] demo_reachable by (auto simp: demo_options_def)

section \<open>Limits\<close>

text \<open>The comment on the options asks for a capacity that is a multiple of the element size; nothing
  checks it, and then a write may end in the middle of an element.\<close>

lemma partial_element:
  "map_option (\<lambda>(r, n, _). (r, n))
     (WriteData (Some [1, 2, 3, 4]) 4 0 (the (p_Create True True \<lparr>element_num_bytes = 2, capacity_num_bytes = 3\<rparr> 7)) [0, 0, 0]) =
   Some (MOJO_RESULT_OK, 3)"
  by code_simp

text \<open>Beyond \<open>2 ^ 31\<close> bytes the sum of offset and amount wraps around before it is reduced.\<close>

lemma offset_wraps:
  assumes "capacity_num_bytes (p_options p) = 0xC0000000" "write_offset p = 0x80000000" "available_capacity p = 0x90000000"
    "element_num_bytes (p_options p) = 1" "in_two_phase_write p = False" "p_buffer p" "p_mapping p" "\<not> p_in_transit p" "\<not> p_peer_closed p"
    "WriteData (Some es) 0x90000000 0 p data = Some (r, n, note, p', data')"
  shows "write_offset p' = 0x10000000" "(0x80000000 + 0x90000000) mod 0xC0000000 = (0x50000000 :: nat)"
  using assms by (auto simp: WriteData_def p_capacity_def has_flag_def p_notify_def Let_def)

text \<open>\<open>EndWriteData\<close> compares with the capacity of the moment: a read of the peer during the two-phase write
  lets it accept more than \<open>BeginWriteData\<close> offered.\<close>

lemma end_write_more_than_offered:
  assumes "p_core p = (8, 0, 2)" "element_num_bytes (p_options p) = 1" "p_buffer p" "p_mapping p" "\<not> p_in_transit p"
    "\<not> p_peer_closed p" "\<not> p_is_closed p" "\<not> in_two_phase_write p"
  shows "BeginWriteData p = Some (MOJO_RESULT_OK, Some (0, 2), p\<lparr>in_two_phase_write := True\<rparr>)"
    "p_read_control b False [Control DATA_WAS_READ 4] (p\<lparr>in_two_phase_write := True\<rparr>) =
      (p\<lparr>in_two_phase_write := True, available_capacity := 6\<rparr>, [])"
    "fst (EndWriteData 6 (p\<lparr>in_two_phase_write := True, available_capacity := 6\<rparr>)) = MOJO_RESULT_OK"
  using assms
  by (auto simp: p_core_def BeginWriteData_def EndWriteData_def check_add_exact p_capacity_def Let_def min_def)

text \<open>\<open>EndReadData\<close> releases the lock before it clears the two-phase read: a second call in between is accepted
  with the same limit, and the number of available bytes wraps around.\<close>

lemma end_read_twice:
  assumes "c_core c = (8, 0, 4, Some 4)" "in_two_phase_read c" "element_num_bytes (c_options c) = 1" "c_buffer c" "\<not> c_in_transit c"
  shows "\<exists>c1 c2. EndReadData 3 c = Some (MOJO_RESULT_OK, Some 3, c1) \<and> EndReadData 3 c1 = Some (MOJO_RESULT_OK, Some 3, c2) \<and>
    bytes_available c2 = 0xFFFFFFFE"
  using assms by (simp add: EndReadData_def c_core_def c_capacity_def)

text \<open>A consumer closed during a two-phase read fails the \<open>CHECK\<close> of \<open>EndReadData\<close>.\<close>

lemma end_read_after_close:
  assumes "in_two_phase_read c" "\<not> c_in_transit c" "\<not> c_is_closed c"
  shows "EndReadData n (snd (c_CloseNoLock c)) = None"
  using assms by (simp add: EndReadData_def c_CloseNoLock_def Let_def)

end
