(* ===== verification/Watchers.thy ===== *)
theory Watchers
  imports Mojo_Types
begin

text \<open>
  Traps: \<open>Watch\<close>, \<open>WatcherDispatcher\<close> and \<open>WatcherSet\<close> of \<open>mojo/core/watch.cc\<close>,
  \<open>watcher_dispatcher.cc\<close> and \<open>watcher_set.cc\<close>.  A trap watches dispatchers; a dispatcher tells
  its watcher set of every new signals state, the set tells the traps, and an armed trap queues
  a notification for its handler and disarms.  A watch is known by its address; addresses of
  deleted watches are not used again.  The sections of a call that run under the trap's lock
  are one definition each.
\<close>

section \<open>Watches\<close>

datatype trigger_condition = SIGNALS_UNSATISFIED | SIGNALS_SATISFIED

record 'd watch =
  w_dispatcher :: 'd
  w_context :: u64
  w_signals :: "signal set"
  w_condition :: trigger_condition
  last_known_result :: MojoResult
  last_known_signals_state :: signals_state
  is_cancelled :: bool

definition satisfies_any :: "signals_state \<Rightarrow> signal set \<Rightarrow> bool" where
  "satisfies_any state signals \<longleftrightarrow> satisfied_signals state \<inter> signals \<noteq> {}"

definition satisfies_all :: "signals_state \<Rightarrow> signal set \<Rightarrow> bool" where
  "satisfies_all state signals \<longleftrightarrow> satisfied_signals state \<inter> signals = signals"

definition can_satisfy_any :: "signals_state \<Rightarrow> signal set \<Rightarrow> bool" where
  "can_satisfy_any state signals \<longleftrightarrow> satisfiable_signals state \<inter> signals \<noteq> {}"

definition no_signals :: signals_state where
  "no_signals = \<lparr>satisfied_signals = {}, satisfiable_signals = {}\<rparr>"

definition Watch :: "'d \<Rightarrow> u64 \<Rightarrow> signal set \<Rightarrow> trigger_condition \<Rightarrow> 'd watch" where
  "Watch dispatcher context signals condition =
     \<lparr>w_dispatcher = dispatcher, w_context = context, w_signals = signals, w_condition = condition,
      last_known_result = MOJO_RESULT_UNKNOWN, last_known_signals_state = no_signals, is_cancelled = False\<rparr>"

definition w_ready :: "'d watch \<Rightarrow> bool" where
  "w_ready w \<longleftrightarrow> last_known_result w = MOJO_RESULT_OK \<or> last_known_result w = MOJO_RESULT_FAILED_PRECONDITION"

text \<open>\<open>Watch::NotifyState\<close>: whether the watch is ready, the watch, and the result of the finalizer it
  adds to the request context, if it does.\<close>

definition w_NotifyState ::
  "signals_state \<Rightarrow> bool \<Rightarrow> 'd watch \<Rightarrow> bool \<times> 'd watch \<times> MojoResult option" where
  "w_NotifyState state allowed_to_call_callback w =
     (let notify_success =
            satisfies_any state (w_signals w) \<and> w_condition w = SIGNALS_SATISFIED \<or>
            \<not> satisfies_all state (w_signals w) \<and> w_condition w = SIGNALS_UNSATISFIED;
          (rv, finalizer) =
            (if notify_success then
               (MOJO_RESULT_OK,
                if allowed_to_call_callback \<and> MOJO_RESULT_OK \<noteq> last_known_result w then Some MOJO_RESULT_OK else None)
             else if w_condition w = SIGNALS_SATISFIED \<and> \<not> can_satisfy_any state (w_signals w) then
               (MOJO_RESULT_FAILED_PRECONDITION,
                if allowed_to_call_callback \<and> MOJO_RESULT_FAILED_PRECONDITION \<noteq> last_known_result w
                then Some MOJO_RESULT_FAILED_PRECONDITION else None)
             else (MOJO_RESULT_SHOULD_WAIT, None));
          w = w\<lparr>last_known_signals_state := state, last_known_result := rv\<rparr> in
      (w_ready w, w, finalizer))"

section \<open>The trap\<close>

text \<open>What is queued in request contexts.\<close>

datatype finalizer = WatchNotify nat MojoResult signals_state | WatchCancel nat

record 'd trap =
  armed :: bool
  tr_closed :: bool
  watches :: "u64 \<rightharpoonup> nat"
  watched_handles :: "'d \<rightharpoonup> nat"
  ready_watches :: "nat set"
  last_watch_to_block_arming :: nat
  watch_at :: "nat \<Rightarrow> 'd watch"    \<comment> \<open>the memory\<close>

definition NotifyHandleState :: "'d \<Rightarrow> signals_state \<Rightarrow> 'd trap \<Rightarrow> 'd trap \<times> finalizer list" where
  "NotifyHandleState dispatcher state t =
     (case watched_handles t dispatcher of
        None \<Rightarrow> (t, [])
      | Some a \<Rightarrow>
          (case w_NotifyState state (armed t) (watch_at t a) of
             (is_ready, w, notified) \<Rightarrow>
               let t = t\<lparr>watch_at := (watch_at t)(a := w)\<rparr>;
                   fs = (case notified of None \<Rightarrow> [] | Some result \<Rightarrow> [WatchNotify a result state]) in
               (if is_ready then (t\<lparr>ready_watches := insert a (ready_watches t), armed := False\<rparr>, fs)
                else (t\<lparr>ready_watches := ready_watches t - {a}\<rparr>, fs))))"

definition NotifyHandleClosed :: "'d \<Rightarrow> 'd trap \<Rightarrow> 'd trap \<times> finalizer list" where
  "NotifyHandleClosed dispatcher t =
     (case watched_handles t dispatcher of
        None \<Rightarrow> (t, [])
      | Some a \<Rightarrow>
          (t\<lparr>watches := (watches t)(w_context (watch_at t a) := None),
             ready_watches := ready_watches t - {a},
             watched_handles := (watched_handles t)(dispatcher := None)\<rparr>,
           [WatchCancel a]))"

text \<open>The event given to the handler, with the address of its watch.\<close>

record trap_event =
  ev_watch :: nat
  trigger_context :: u64
  ev_result :: MojoResult
  ev_state :: signals_state

text \<open>\<open>Watch::InvokeCallback\<close> with \<open>InvokeWatchCallback\<close>.\<close>

definition InvokeCallback :: "nat \<Rightarrow> MojoResult \<Rightarrow> signals_state \<Rightarrow> 'd trap \<Rightarrow> 'd trap \<times> trap_event list" where
  "InvokeCallback a result state t =
     (if is_cancelled (watch_at t a) then (t, [])
      else
        let t = (if result = MOJO_RESULT_CANCELLED
                 then t\<lparr>watch_at := (watch_at t)(a := (watch_at t a)\<lparr>is_cancelled := True\<rparr>)\<rparr> else t) in
        if tr_closed t \<and> result \<noteq> MOJO_RESULT_CANCELLED then (t, [])
        else (t, [\<lparr>ev_watch = a, trigger_context = w_context (watch_at t a), ev_result = result, ev_state = state\<rparr>]))"

text \<open>The destructor of a \<open>RequestContext\<close>: cancellations first.\<close>

definition run_finalizer :: "finalizer \<Rightarrow> 'd trap \<Rightarrow> 'd trap \<times> trap_event list" where
  "run_finalizer f t =
     (case f of
        WatchCancel a \<Rightarrow> InvokeCallback a MOJO_RESULT_CANCELLED no_signals t
      | WatchNotify a result state \<Rightarrow> InvokeCallback a result state t)"

fun run_finalizers :: "finalizer list \<Rightarrow> 'd trap \<Rightarrow> 'd trap \<times> trap_event list" where
  "run_finalizers [] t = (t, [])"
| "run_finalizers (f # fs) t =
     (case run_finalizer f t of (t, es) \<Rightarrow> case run_finalizers fs t of (t, es') \<Rightarrow> (t, es @ es'))"

fun is_cancel :: "finalizer \<Rightarrow> bool" where
  "is_cancel (WatchCancel _) = True"
| "is_cancel (WatchNotify _ _ _) = False"

definition end_request :: "finalizer list \<Rightarrow> 'd trap \<Rightarrow> 'd trap \<times> trap_event list" where
  "end_request fs t = run_finalizers (filter is_cancel fs @ filter (\<lambda>f. \<not> is_cancel f) fs) t"

text \<open>\<open>Close\<close>: its section under the lock hands the watches to the rest of the call.\<close>

definition tr_Close :: "'d trap \<Rightarrow> MojoResult \<times> (u64 \<rightharpoonup> nat) \<times> 'd trap" where
  "tr_Close t =
     (if tr_closed t then (MOJO_RESULT_INVALID_ARGUMENT, Map.empty, t)
      else (MOJO_RESULT_OK, watches t, t\<lparr>tr_closed := True, watches := Map.empty, watched_handles := Map.empty\<rparr>))"

text \<open>\<open>WatchDispatcher\<close>: the first section, which allocates the watch at \<open>a\<close>, and the one that undoes it.\<close>

definition watch_insert ::
  "nat \<Rightarrow> 'd \<Rightarrow> signal set \<Rightarrow> trigger_condition \<Rightarrow> u64 \<Rightarrow> 'd trap \<Rightarrow> MojoResult \<times> 'd trap" where
  "watch_insert a dispatcher signals condition context t =
     (if tr_closed t then (MOJO_RESULT_INVALID_ARGUMENT, t)
      else if watches t context \<noteq> None \<or> watched_handles t dispatcher \<noteq> None then (MOJO_RESULT_ALREADY_EXISTS, t)
      else
        (MOJO_RESULT_OK,
         t\<lparr>watch_at := (watch_at t)(a := Watch dispatcher context signals condition),
           watches := (watches t)(context \<mapsto> a), watched_handles := (watched_handles t)(dispatcher \<mapsto> a)\<rparr>))"

definition watch_undo :: "'d \<Rightarrow> u64 \<Rightarrow> 'd trap \<Rightarrow> 'd trap" where
  "watch_undo dispatcher context t =
     t\<lparr>watches := (watches t)(context := None), watched_handles := (watched_handles t)(dispatcher := None)\<rparr>"

text \<open>\<open>CancelWatch\<close>: the first section and the last.\<close>

definition cancel_begin :: "u64 \<Rightarrow> 'd trap \<Rightarrow> (MojoResult + nat) \<times> 'd trap" where
  "cancel_begin context t =
     (if tr_closed t then (Inl MOJO_RESULT_INVALID_ARGUMENT, t)
      else case watches t context of
        None \<Rightarrow> (Inl MOJO_RESULT_NOT_FOUND, t)
      | Some a \<Rightarrow> (Inr a, t\<lparr>watches := (watches t)(context := None)\<rparr>))"

definition cancel_end :: "nat \<Rightarrow> 'd trap \<Rightarrow> 'd trap" where
  "cancel_end a t =
     (case watched_handles t (w_dispatcher (watch_at t a)) of
        None \<Rightarrow> t
      | Some b \<Rightarrow>
          t\<lparr>ready_watches := ready_watches t - {b},
            watched_handles := (watched_handles t)(w_dispatcher (watch_at t a) := None)\<rparr>)"

text \<open>\<open>Arm\<close>.  The iterator over \<open>ready_watches\<close> runs in the order of the addresses.\<close>

definition next_watch :: "nat set \<Rightarrow> nat \<Rightarrow> nat" where
  "next_watch ready a =
     (let later = filter (\<lambda>b. a < b) (sorted_list_of_set ready) in
      if later \<noteq> [] then hd later else hd (sorted_list_of_set ready))"

definition first_to_block :: "'d trap \<Rightarrow> nat" where
  "first_to_block t =
     (if last_watch_to_block_arming t \<noteq> 0 \<and> last_watch_to_block_arming t \<in> ready_watches t
      then next_watch (ready_watches t) (last_watch_to_block_arming t)
      else hd (sorted_list_of_set (ready_watches t)))"

text \<open>The loop over the blocking events; \<open>sizes\<close> are the \<open>struct_size\<close> fields of the caller's array.\<close>

fun report_blocking ::
  "(nat \<Rightarrow> u32) \<Rightarrow> nat \<Rightarrow> nat \<Rightarrow> nat \<Rightarrow> 'd trap \<Rightarrow> bool \<times> trap_event list \<times> 'd trap" where
  "report_blocking sizes 0 i a t = (True, [], t)"
| "report_blocking sizes (Suc k) i a t =
     (if sizes i < 32 then (False, [], t)
      else
        let w = watch_at t a;
            e = \<lparr>ev_watch = a, trigger_context = w_context w, ev_result = last_known_result w,
                 ev_state = last_known_signals_state w\<rparr> in
        case report_blocking sizes k (Suc i) (next_watch (ready_watches t) a) (t\<lparr>last_watch_to_block_arming := a\<rparr>) of
          (ok, es, t) \<Rightarrow> (ok, e # es, t))"

definition Arm ::
  "u32 option \<Rightarrow> (nat \<Rightarrow> u32) option \<Rightarrow> 'd trap \<Rightarrow> MojoResult \<times> u32 option \<times> trap_event list \<times> 'd trap" where
  "Arm num_blocking_events blocking_events t =
     (if num_blocking_events \<noteq> None \<and> blocking_events = None then (MOJO_RESULT_INVALID_ARGUMENT, num_blocking_events, [], t)
      else if tr_closed t then (MOJO_RESULT_INVALID_ARGUMENT, num_blocking_events, [], t)
      else if watched_handles t = Map.empty then (MOJO_RESULT_NOT_FOUND, num_blocking_events, [], t)
      else if ready_watches t = {} then (MOJO_RESULT_OK, num_blocking_events, [], t\<lparr>armed := True\<rparr>)
      else case num_blocking_events of
        None \<Rightarrow> (MOJO_RESULT_FAILED_PRECONDITION, None, [], t)
      | Some num \<Rightarrow>
          let num = min num (of_nat (card (ready_watches t))) in
          case report_blocking (the blocking_events) (unat num) 0 (first_to_block t) t of
            (ok, es, t) \<Rightarrow> (if ok then MOJO_RESULT_FAILED_PRECONDITION else MOJO_RESULT_INVALID_ARGUMENT, Some num, es, t))"

section \<open>The watchers of a dispatcher\<close>

text \<open>\<open>WatcherSet\<close>; watchers are numbered, and calls to them act on a state \<open>'s\<close>.\<close>

record watcher_set =
  ws_watchers :: "(nat \<times> u64 set) list"
  last_known_state :: "signals_state option"

definition WatcherSet :: watcher_set where
  "WatcherSet = \<lparr>ws_watchers = [], last_known_state = None\<rparr>"

definition ws_NotifyState ::
  "(nat \<Rightarrow> signals_state \<Rightarrow> 's \<Rightarrow> 's) \<Rightarrow> signals_state \<Rightarrow> watcher_set \<Rightarrow> 's \<Rightarrow> watcher_set \<times> 's" where
  "ws_NotifyState notify state ws s =
     (if last_known_state ws = Some state then (ws, s)
      else (ws\<lparr>last_known_state := Some state\<rparr>, fold (\<lambda>(watcher, _). notify watcher state) (ws_watchers ws) s))"

definition ws_NotifyClosed :: "(nat \<Rightarrow> 's \<Rightarrow> 's) \<Rightarrow> watcher_set \<Rightarrow> 's \<Rightarrow> 's" where
  "ws_NotifyClosed notify_closed ws s = fold (\<lambda>(watcher, _). notify_closed watcher) (ws_watchers ws) s"

definition ws_contexts :: "nat \<Rightarrow> watcher_set \<Rightarrow> u64 set" where
  "ws_contexts watcher ws = (case map_of (ws_watchers ws) watcher of None \<Rightarrow> {} | Some contexts \<Rightarrow> contexts)"

definition ws_Add ::
  "(nat \<Rightarrow> signals_state \<Rightarrow> 's \<Rightarrow> 's) \<Rightarrow> nat \<Rightarrow> u64 \<Rightarrow> signals_state \<Rightarrow> watcher_set \<Rightarrow> 's \<Rightarrow> MojoResult \<times> watcher_set \<times> 's" where
  "ws_Add notify watcher context current_state ws s =
     (let ws = (if map_of (ws_watchers ws) watcher = None
                then ws\<lparr>ws_watchers := insort_key fst (watcher, {}) (ws_watchers ws)\<rparr> else ws) in
      if context \<in> ws_contexts watcher ws then (MOJO_RESULT_ALREADY_EXISTS, ws, s)
      else
        let ws = ws\<lparr>ws_watchers := map (\<lambda>(w, cs). (w, if w = watcher then insert context cs else cs)) (ws_watchers ws)\<rparr>;
            (ws, s) =
              (if last_known_state ws \<noteq> None \<and> last_known_state ws \<noteq> Some current_state
               then ws_NotifyState notify current_state ws s
               else (ws, notify watcher current_state s)) in
        (MOJO_RESULT_OK, ws, s))"

definition ws_Remove :: "nat \<Rightarrow> u64 \<Rightarrow> watcher_set \<Rightarrow> MojoResult \<times> watcher_set" where
  "ws_Remove watcher context ws =
     (case map_of (ws_watchers ws) watcher of
        None \<Rightarrow> (MOJO_RESULT_NOT_FOUND, ws)
      | Some contexts \<Rightarrow>
          if context \<notin> contexts then (MOJO_RESULT_NOT_FOUND, ws)
          else
            let contexts = contexts - {context} in
            (MOJO_RESULT_OK,
             ws\<lparr>ws_watchers := (if contexts = {} then filter (\<lambda>(w, _). w \<noteq> watcher) (ws_watchers ws)
                else map (\<lambda>(w, cs). (w, if w = watcher then contexts else cs)) (ws_watchers ws))\<rparr>))"

end
