(* ===== verification/Watcher_System.thy ===== *)
theory Watcher_System
  imports Watchers
begin

text \<open>
  One trap with the dispatchers it watches, the calls in progress on any number of threads and
  the notifications queued in their request contexts.  The sections of the calls interleave
  freely; queued notifications are delivered in any order, which covers every assignment of
  calls to threads.  Other traps that watch the same dispatchers appear through their entries
  in the watcher sets.
\<close>

section \<open>The system\<close>

text \<open>A call in progress, between two of its sections.\<close>

datatype 'd call =
    Attach 'd u64 nat       \<comment> \<open>\<open>WatchDispatcher\<close> before \<open>AddWatcherRef\<close>\<close>
  | Undo 'd u64 nat         \<comment> \<open>\<open>WatchDispatcher\<close> after \<open>AddWatcherRef\<close> failed\<close>
  | Check 'd u64 nat        \<comment> \<open>\<open>WatchDispatcher\<close> after it succeeded\<close>
  | CancelRef u64 nat       \<comment> \<open>\<open>CancelWatch\<close> before \<open>RemoveWatcherRef\<close>\<close>
  | CancelEnd nat           \<comment> \<open>\<open>CancelWatch\<close> before its last section\<close>
  | CloseEntry u64 nat      \<comment> \<open>\<open>Close\<close> before it handles this entry\<close>

record 'd wsys =
  w_trap :: "'d trap"
  w_sets :: "'d \<Rightarrow> watcher_set"
  d_closed :: "'d set"
  d_transit :: "'d set"
  w_calls :: "'d call set"
  w_finals :: "finalizer list"
  w_events :: "trap_event list"
  w_used :: "nat set"           \<comment> \<open>the addresses allocated so far\<close>
  w_undone :: "nat set"         \<comment> \<open>the watches a failed \<open>AddWatcherRef\<close> took back\<close>

text \<open>A call from a watcher set of dispatcher \<open>d\<close> to a trap; the trap of the system is number \<open>me\<close>.\<close>

definition tell :: "nat \<Rightarrow> 'd \<Rightarrow> nat \<Rightarrow> signals_state \<Rightarrow> 'd trap \<times> finalizer list \<Rightarrow> 'd trap \<times> finalizer list" where
  "tell me d watcher state = (\<lambda>(t, fs).
     if watcher = me then (case NotifyHandleState d state t of (t, fs') \<Rightarrow> (t, fs @ fs')) else (t, fs))"

definition tell_closed :: "nat \<Rightarrow> 'd \<Rightarrow> nat \<Rightarrow> 'd trap \<times> finalizer list \<Rightarrow> 'd trap \<times> finalizer list" where
  "tell_closed me d watcher = (\<lambda>(t, fs).
     if watcher = me then (case NotifyHandleClosed d t of (t, fs') \<Rightarrow> (t, fs @ fs')) else (t, fs))"

text \<open>\<open>AddWatcherRef\<close> and \<open>RemoveWatcherRef\<close> of a dispatcher.\<close>

definition AddWatcherRef ::
  "nat \<Rightarrow> 'd \<Rightarrow> u64 \<Rightarrow> signals_state \<Rightarrow> 'd wsys \<Rightarrow> MojoResult \<times> 'd wsys" where
  "AddWatcherRef me d context state s =
     (if d \<in> d_closed s \<or> d \<in> d_transit s then (MOJO_RESULT_INVALID_ARGUMENT, s)
      else case ws_Add (tell me d) me context state (w_sets s d) (w_trap s, w_finals s) of
        (r, ws, t, fs) \<Rightarrow> (r, s\<lparr>w_sets := (w_sets s)(d := ws), w_trap := t, w_finals := fs\<rparr>))"

definition RemoveWatcherRef :: "nat \<Rightarrow> 'd \<Rightarrow> u64 \<Rightarrow> 'd wsys \<Rightarrow> MojoResult \<times> 'd wsys" where
  "RemoveWatcherRef me d context s =
     (if d \<in> d_closed s \<or> d \<in> d_transit s then (MOJO_RESULT_INVALID_ARGUMENT, s)
      else case ws_Remove me context (w_sets s d) of (r, ws) \<Rightarrow> (r, s\<lparr>w_sets := (w_sets s)(d := ws)\<rparr>))"

inductive watch_step :: "nat \<Rightarrow> 'd wsys \<Rightarrow> 'd wsys \<Rightarrow> bool" for me where
  change: "ws_NotifyState (tell me d) state (w_sets s d) (w_trap s, w_finals s) = (ws, t, fs) \<Longrightarrow>
    watch_step me s (s\<lparr>w_sets := (w_sets s)(d := ws), w_trap := t, w_finals := fs\<rparr>)"
| transit: "watch_step me s (s\<lparr>d_transit := D\<rparr>)"
| d_close: "d \<notin> d_closed s \<Longrightarrow> d \<notin> d_transit s \<Longrightarrow>
    ws_NotifyClosed (tell_closed me d) (w_sets s d) (w_trap s, w_finals s) = (t, fs) \<Longrightarrow>
    watch_step me s (s\<lparr>d_closed := insert d (d_closed s), w_trap := t, w_finals := fs\<rparr>)"
| watch: "watch_insert a d signals condition context (w_trap s) = (MOJO_RESULT_OK, t) \<Longrightarrow> a \<notin> w_used s \<Longrightarrow> a \<noteq> 0 \<Longrightarrow>
    watch_step me s (s\<lparr>w_trap := t, w_calls := insert (Attach d context a) (w_calls s), w_used := insert a (w_used s)\<rparr>)"
| attach: "Attach d context a \<in> w_calls s \<Longrightarrow> AddWatcherRef me d context state s = (r, s') \<Longrightarrow>
    watch_step me s (s'\<lparr>w_calls := insert (if r = MOJO_RESULT_OK then Check d context a else Undo d context a)
      (w_calls s - {Attach d context a})\<rparr>)"
| undo: "Undo d context a \<in> w_calls s \<Longrightarrow>
    watch_step me s (s\<lparr>w_trap := watch_undo d context (w_trap s), w_calls := w_calls s - {Undo d context a},
      w_undone := w_undone s \<union> set_option (watched_handles (w_trap s) d)\<rparr>)"
| check: "Check d context a \<in> w_calls s \<Longrightarrow>
    (if tr_closed (w_trap s) then snd (RemoveWatcherRef me d context s) else s) = s' \<Longrightarrow>
    watch_step me s (s'\<lparr>w_calls := w_calls s - {Check d context a}\<rparr>)"
| cancel: "cancel_begin context (w_trap s) = (Inr a, t) \<Longrightarrow>
    watch_step me s (s\<lparr>w_trap := t, w_finals := w_finals s @ [WatchCancel a], w_calls := insert (CancelRef context a) (w_calls s)\<rparr>)"
| cancel_ref: "CancelRef context a \<in> w_calls s \<Longrightarrow>
    RemoveWatcherRef me (w_dispatcher (watch_at (w_trap s) a)) context s = (r, s') \<Longrightarrow>
    watch_step me s (s'\<lparr>w_calls := insert (CancelEnd a) (w_calls s - {CancelRef context a})\<rparr>)"
| cancel_last: "CancelEnd a \<in> w_calls s \<Longrightarrow>
    watch_step me s (s\<lparr>w_trap := cancel_end a (w_trap s), w_calls := w_calls s - {CancelEnd a}\<rparr>)"
| tr_close: "tr_Close (w_trap s) = (MOJO_RESULT_OK, old, t) \<Longrightarrow>
    watch_step me s (s\<lparr>w_trap := t, w_calls := w_calls s \<union> {CloseEntry c a | c a. old c = Some a}\<rparr>)"
| close_entry: "CloseEntry context a \<in> w_calls s \<Longrightarrow>
    RemoveWatcherRef me (w_dispatcher (watch_at (w_trap s) a)) context s = (r, s') \<Longrightarrow>
    watch_step me s (s'\<lparr>w_finals := w_finals s @ [WatchCancel a], w_calls := w_calls s - {CloseEntry context a}\<rparr>)"
| arm: "Arm num sizes (w_trap s) = (r, num', es, t) \<Longrightarrow> watch_step me s (s\<lparr>w_trap := t\<rparr>)"
| deliver: "f \<in> set (w_finals s) \<Longrightarrow> run_finalizer f (w_trap s) = (t, es) \<Longrightarrow>
    watch_step me s (s\<lparr>w_trap := t, w_finals := remove1 f (w_finals s), w_events := w_events s @ es\<rparr>)"
| other_add: "watcher \<noteq> me \<Longrightarrow> ws_Add (tell me d) watcher context state (w_sets s d) (w_trap s, w_finals s) = (r, ws, t, fs) \<Longrightarrow>
    watch_step me s (s\<lparr>w_sets := (w_sets s)(d := ws), w_trap := t, w_finals := fs\<rparr>)"
| other_remove: "watcher \<noteq> me \<Longrightarrow> ws_Remove watcher context (w_sets s d) = (r, ws) \<Longrightarrow>
    watch_step me s (s\<lparr>w_sets := (w_sets s)(d := ws)\<rparr>)"

definition watch_start :: "'d wsys \<Rightarrow> bool" where
  "watch_start s \<longleftrightarrow>
     \<not> armed (w_trap s) \<and> \<not> tr_closed (w_trap s) \<and> watches (w_trap s) = Map.empty \<and> watched_handles (w_trap s) = Map.empty \<and>
     ready_watches (w_trap s) = {} \<and> last_watch_to_block_arming (w_trap s) = 0 \<and> w_calls s = {} \<and> w_finals s = [] \<and> w_events s = [] \<and>
     w_used s = {} \<and> w_undone s = {}"

inductive watch_reachable :: "nat \<Rightarrow> 'd wsys \<Rightarrow> bool" for me where
  created: "watch_start s \<Longrightarrow> watch_reachable me s"
| stepped: "watch_reachable me s \<Longrightarrow> watch_step me s s' \<Longrightarrow> watch_reachable me s'"

section \<open>The invariant of the trap\<close>

text \<open>What a watch has to say about a state.\<close>

definition outcome :: "'d watch \<Rightarrow> signals_state \<Rightarrow> MojoResult" where
  "outcome w state =
     (case w_condition w of
        SIGNALS_SATISFIED \<Rightarrow>
          if satisfied_signals state \<inter> w_signals w \<noteq> {} then MOJO_RESULT_OK
          else if satisfiable_signals state \<inter> w_signals w = {} then MOJO_RESULT_FAILED_PRECONDITION
          else MOJO_RESULT_SHOULD_WAIT
      | SIGNALS_UNSATISFIED \<Rightarrow>
          if w_signals w \<subseteq> satisfied_signals state then MOJO_RESULT_SHOULD_WAIT else MOJO_RESULT_OK)"

definition due :: "MojoResult \<Rightarrow> bool" where
  "due r \<longleftrightarrow> r = MOJO_RESULT_OK \<or> r = MOJO_RESULT_FAILED_PRECONDITION"

lemma w_NotifyState_outcome:
  "w_NotifyState state b w =
     (due (outcome w state), w\<lparr>last_known_signals_state := state, last_known_result := outcome w state\<rparr>,
      if b \<and> due (outcome w state) \<and> outcome w state \<noteq> last_known_result w then Some (outcome w state) else None)"
  by (cases "w_condition w")
    (auto simp: w_NotifyState_def outcome_def due_def w_ready_def satisfies_any_def satisfies_all_def can_satisfy_any_def Let_def)

definition watch_consistent :: "'d trap \<Rightarrow> 'd \<Rightarrow> nat \<Rightarrow> bool" where
  "watch_consistent t d a \<longleftrightarrow>
     w_dispatcher (watch_at t a) = d \<and> (a \<in> ready_watches t \<longleftrightarrow> due (last_known_result (watch_at t a))) \<and>
     (last_known_result (watch_at t a) = MOJO_RESULT_UNKNOWN \<or>
      last_known_result (watch_at t a) = outcome (watch_at t a) (last_known_signals_state (watch_at t a)))"

definition trap_ok :: "nat set \<Rightarrow> nat set \<Rightarrow> 'd trap \<Rightarrow> bool" where
  "trap_ok used undone t \<longleftrightarrow>
     (armed t \<longrightarrow> ready_watches t = {}) \<and> finite (ready_watches t) \<and> 0 \<notin> used \<and>
     ready_watches t \<subseteq> used \<and> ran (watched_handles t) \<subseteq> used \<and> ran (watches t) \<subseteq> used \<and>
     (\<forall>d a. watched_handles t d = Some a \<longrightarrow> watch_consistent t d a) \<and>
     (tr_closed t \<or> ready_watches t \<subseteq> ran (watched_handles t) \<union> undone)"

text \<open>The fields of a watch that never change.\<close>

definition w_id :: "'d watch \<Rightarrow> 'd \<times> u64 \<times> signal set \<times> trigger_condition" where
  "w_id w = (w_dispatcher w, w_context w, w_signals w, w_condition w)"

lemma outcome_id: "w_id w = w_id w' \<Longrightarrow> outcome w = outcome w'"
  by (simp add: w_id_def outcome_def fun_eq_iff)

lemma ran_upd: "ran (m(x := None)) \<subseteq> ran m" "ran (m(x \<mapsto> y)) \<subseteq> insert y (ran m)"
  by (auto simp: ran_def split: if_splits)

lemma trap_ok_cong:
  assumes "trap_ok used undone t" "\<And>d a. watch_consistent t' d a = watch_consistent t d a" "ready_watches t' = ready_watches t"
    "watched_handles t' = watched_handles t" "watches t' = watches t" "tr_closed t' = tr_closed t"
    "armed t' \<Longrightarrow> armed t \<or> ready_watches t = {}"
  shows "trap_ok used undone t'"
  using assms by (simp add: trap_ok_def) blast

lemma ran_keep: "ran m \<subseteq> ran (m(d := None)) \<union> set_option (m d)"
proof
  fix x assume "x \<in> ran m"
  then obtain e where "m e = Some x" by (auto simp: ran_def)
  then show "x \<in> ran (m(d := None)) \<union> set_option (m d)" by (cases "e = d") (auto intro: ranI [of _ e])
qed

definition frame :: "nat set \<Rightarrow> 'd trap \<Rightarrow> 'd trap \<Rightarrow> bool" where
  "frame used t t' \<longleftrightarrow>
     (\<forall>a \<in> used. w_id (watch_at t' a) = w_id (watch_at t a) \<and> is_cancelled (watch_at t' a) = is_cancelled (watch_at t a))"

lemma frame_refl [simp]: "frame used t t"
  by (simp add: frame_def)

lemma frame_trans: "frame used t t' \<Longrightarrow> frame used t' t'' \<Longrightarrow> frame used t t''"
  by (simp add: frame_def)

lemma frame_same: "watch_at t' = watch_at t \<Longrightarrow> frame used t t'"
  by (simp add: frame_def)

text \<open>What a dispatcher's report does to the trap.\<close>

lemma NotifyHandleState_cases:
  "NotifyHandleState d state t =
     (case watched_handles t d of
        None \<Rightarrow> (t, [])
      | Some a \<Rightarrow>
          let w = watch_at t a; r = outcome w state;
              t' = t\<lparr>watch_at := (watch_at t)(a := w\<lparr>last_known_signals_state := state, last_known_result := r\<rparr>)\<rparr> in
          (if due r then t'\<lparr>ready_watches := insert a (ready_watches t), armed := False\<rparr>
           else t'\<lparr>ready_watches := ready_watches t - {a}\<rparr>,
           if armed t \<and> due r \<and> r \<noteq> last_known_result w then [WatchNotify a r state] else []))"
  by (auto simp: NotifyHandleState_def w_NotifyState_outcome Let_def split: option.splits)

lemma watched_inj: "trap_ok used undone t \<Longrightarrow> watched_handles t d = Some a \<Longrightarrow> watched_handles t d' = Some a \<Longrightarrow> d' = d"
  unfolding trap_ok_def watch_consistent_def by metis

lemma told_consistent:
  fixes t t' :: "'d trap" and state :: signals_state
  assumes "trap_ok used undone t" "watched_handles t d = Some a"
  defines "r \<equiv> outcome (watch_at t a) state"
  defines "w \<equiv> (watch_at t a)\<lparr>last_known_signals_state := state, last_known_result := r\<rparr>"
  assumes "watch_at t' = (watch_at t)(a := w)" "watched_handles t' = watched_handles t"
    "ready_watches t' = (if due r then insert a (ready_watches t) else ready_watches t - {a})"
    "watched_handles t' d' = Some b"
  shows "watch_consistent t' d' b"
proof (cases "b = a")
  case True
  have "watch_consistent t d' a" "w_id w = w_id (watch_at t a)"
    using assms True by (auto simp: trap_ok_def w_id_def)
  then show ?thesis
    using True assms(5,7) outcome_id [of w "watch_at t a"] by (auto simp: watch_consistent_def w_def r_def w_id_def)
next
  case False
  then show ?thesis using assms by (auto simp: trap_ok_def watch_consistent_def)
qed

lemma NotifyHandleState_ok:
  assumes "trap_ok used undone t" "NotifyHandleState d state t = (t', fs)"
  shows "trap_ok used undone t' \<and> frame used t t' \<and>
    (\<forall>f \<in> set fs. \<exists>a. f = WatchNotify a (outcome (watch_at t a) state) state \<and> a \<in> used \<and> due (outcome (watch_at t a) state))"
proof (cases "watched_handles t d")
  case None
  then show ?thesis using assms by (simp add: NotifyHandleState_def)
next
  case (Some a)
  define r where "r = outcome (watch_at t a) state"
  define w where "w = (watch_at t a)\<lparr>last_known_signals_state := state, last_known_result := r\<rparr>"
  have t': "watch_at t' = (watch_at t)(a := w)" "watched_handles t' = watched_handles t" "watches t' = watches t"
      "ready_watches t' = (if due r then insert a (ready_watches t) else ready_watches t - {a})"
      "armed t' = (armed t \<and> \<not> due r)" "tr_closed t' = tr_closed t"
      "fs = (if armed t \<and> due r \<and> r \<noteq> last_known_result (watch_at t a) then [WatchNotify a r state] else [])"
    using assms(2) Some by (auto simp: NotifyHandleState_cases w_def r_def Let_def split: if_splits)
  have a: "a \<in> used" "a \<in> ran (watched_handles t)" using assms(1) Some by (auto simp: trap_ok_def ran_def)
  have "\<forall>d' b. watched_handles t' d' = Some b \<longrightarrow> watch_consistent t' d' b"
    using told_consistent [OF assms(1) Some, of t' state] t'(1,2,4) unfolding w_def r_def by blast
  moreover have "ready_watches t' \<subseteq> insert a (ready_watches t)" by (simp add: t'(4)) blast
  moreover have "armed t' \<longrightarrow> ready_watches t' = {}" "finite (ready_watches t')"
    using assms(1) t'(4,5) by (auto simp: trap_ok_def)
  ultimately have "trap_ok used undone t'"
    using assms(1) a t'(2,3,6) unfolding trap_ok_def by (simp only:) blast
  moreover have "frame used t t'" by (auto simp: frame_def t'(1) w_def w_id_def)
  ultimately show ?thesis using a t'(7) by (auto simp: r_def)
qed

lemma NotifyHandleClosed_ok:
  assumes "trap_ok used undone t" "NotifyHandleClosed d t = (t', fs)"
  shows "trap_ok used undone t' \<and> frame used t t' \<and> (\<forall>f \<in> set fs. \<exists>a \<in> used. f = WatchCancel a)"
proof (cases "watched_handles t d")
  case None
  then show ?thesis using assms by (simp add: NotifyHandleClosed_def)
next
  case (Some a)
  have t': "watch_at t' = watch_at t" "watched_handles t' = (watched_handles t)(d := None)"
      "watches t' = (watches t)(w_context (watch_at t a) := None)"
      "ready_watches t' = ready_watches t - {a}" "armed t' = armed t" "tr_closed t' = tr_closed t" "fs = [WatchCancel a]"
    using assms(2) Some by (auto simp: NotifyHandleClosed_def)
  have a: "a \<in> used" using assms(1) Some by (auto simp: trap_ok_def ran_def)
  have other: "b \<noteq> a" if "watched_handles t' d' = Some b" for d' b
    using that Some watched_inj [OF assms(1) Some, of d'] by (auto simp: t'(2) split: if_splits)
  have "watch_consistent t' d' b" if "watched_handles t' d' = Some b" for d' b
    using that other [OF that] assms(1) t' by (auto simp: trap_ok_def watch_consistent_def split: if_splits)
  moreover have "ran (watched_handles t) \<subseteq> insert a (ran (watched_handles t'))"
    using ran_keep [of "watched_handles t" d] Some by (simp add: t'(2))
  ultimately have "trap_ok used undone t'"
    using assms(1) ran_upd(1) [of "watched_handles t" d] ran_upd(1) [of "watches t" "w_context (watch_at t a)"]
    unfolding trap_ok_def t' by auto
  then show ?thesis using a t' by (auto simp: frame_def)
qed

text \<open>The other sections.\<close>

lemma watch_insert_ok:
  assumes "trap_ok used undone t" "watch_insert a d signals condition context t = (MOJO_RESULT_OK, t')" "a \<notin> used" "a \<noteq> 0"
  shows "trap_ok (insert a used) undone t' \<and> frame used t t' \<and> \<not> is_cancelled (watch_at t' a)"
proof -
  have t': "watch_at t' = (watch_at t)(a := Watch d context signals condition)" "watched_handles t d = None"
      "watched_handles t' = (watched_handles t)(d \<mapsto> a)" "watches t' = (watches t)(context \<mapsto> a)"
      "ready_watches t' = ready_watches t" "armed t' = armed t" "tr_closed t' = tr_closed t"
    using assms(2) by (auto simp: watch_insert_def split: if_splits)
  have old: "b \<noteq> a" if "b \<in> used" for b using that assms(3) by blast
  have "watch_consistent t' d' b" if "watched_handles t' d' = Some b" for d' b
  proof (cases "d' = d")
    case True
    then have "b = a" using that t'(3) by simp
    moreover have "a \<notin> ready_watches t" using assms(1,3) by (auto simp: trap_ok_def)
    ultimately show ?thesis using True t' by (auto simp: watch_consistent_def Watch_def due_def)
  next
    case False
    then have w: "watched_handles t d' = Some b" using that t'(3) by simp
    then have "b \<in> used" using assms(1) by (auto simp: trap_ok_def ran_def)
    then show ?thesis using w assms(1) t' old by (auto simp: trap_ok_def watch_consistent_def)
  qed
  moreover have "ran (watched_handles t') = insert a (ran (watched_handles t))" using t'(2,3) by simp
  ultimately have "trap_ok (insert a used) undone t'"
    using assms(1,4) ran_upd(2) [of "watches t" "context" a] unfolding trap_ok_def t'(4-7) by auto
  moreover have "frame used t t'" using old by (auto simp: frame_def t'(1))
  ultimately show ?thesis by (simp add: t'(1) Watch_def)
qed

lemma watch_undo_ok:
  assumes "trap_ok used undone t"
  shows "trap_ok used (undone \<union> set_option (watched_handles t d)) (watch_undo d context t)"
proof -
  show ?thesis
    using assms ran_keep [of "watched_handles t" d] ran_upd(1) [of "watched_handles t" d] ran_upd(1) [of "watches t" "context"]
    by (auto simp: trap_ok_def watch_undo_def watch_consistent_def split: if_splits)
qed

lemma cancel_end_ok:
  assumes "trap_ok used undone t"
  shows "trap_ok used undone (cancel_end a t)"
proof (cases "watched_handles t (w_dispatcher (watch_at t a))")
  case None
  then show ?thesis using assms by (simp add: cancel_end_def)
next
  case (Some b)
  let ?d = "w_dispatcher (watch_at t a)"
  let ?t = "t\<lparr>ready_watches := ready_watches t - {b}, watched_handles := (watched_handles t)(?d := None)\<rparr>"
  have "watch_consistent ?t d' c" if "watched_handles ?t d' = Some c" for d' c
    using that assms watched_inj [OF assms Some, of d'] by (auto simp: trap_ok_def watch_consistent_def split: if_splits)
  moreover have "ran (watched_handles t) \<subseteq> insert b (ran ((watched_handles t)(?d := None)))"
    using ran_keep [of "watched_handles t" ?d] Some by simp
  ultimately have "trap_ok used undone ?t"
    using assms ran_upd(1) [of "watched_handles t" ?d] by (auto simp: trap_ok_def)
  then show ?thesis using Some by (simp add: cancel_end_def)
qed

lemma cancel_begin_ok:
  assumes "trap_ok used undone t" "cancel_begin context t = (Inr a, t')"
  shows "trap_ok used undone t' \<and> watch_at t' = watch_at t \<and> a \<in> used"
proof -
  have "watches t context = Some a" "t' = t\<lparr>watches := (watches t)(context := None)\<rparr>"
    using assms(2) by (auto simp: cancel_begin_def split: if_splits option.splits)
  then show ?thesis
    using assms(1) ran_upd(1) [of "watches t" "context"] by (auto simp: trap_ok_def watch_consistent_def intro: ranI)
qed

lemma tr_Close_ok:
  assumes "trap_ok used undone t" "tr_Close t = (r, old, t')"
  shows "trap_ok used undone t' \<and> watch_at t' = watch_at t \<and> ran old \<subseteq> used"
  using assms by (auto simp: tr_Close_def trap_ok_def split: if_splits)

lemma report_blocking_keeps:
  "report_blocking sizes k i a t = (ok, es, t') \<Longrightarrow> \<exists>l. t' = t\<lparr>last_watch_to_block_arming := l\<rparr>"
proof (induction k arbitrary: i a t es)
  case 0
  then have "t' = t\<lparr>last_watch_to_block_arming := last_watch_to_block_arming t\<rparr>" by simp
  then show ?case by blast
next
  case (Suc k)
  show ?case
  proof (cases "sizes i < 32")
    case True
    then have "t' = t\<lparr>last_watch_to_block_arming := last_watch_to_block_arming t\<rparr>" using Suc.prems by simp
    then show ?thesis by blast
  next
    case False
    then show ?thesis using Suc.prems Suc.IH by (fastforce simp: Let_def split: prod.splits)
  qed
qed

lemma Arm_ok:
  assumes "trap_ok used undone t" "Arm num sizes t = (r, num', es, t')"
  shows "trap_ok used undone t' \<and> watch_at t' = watch_at t"
proof -
  have "t' = t \<or> ready_watches t = {} \<and> t' = t\<lparr>armed := True\<rparr> \<or> (\<exists>l. t' = t\<lparr>last_watch_to_block_arming := l\<rparr>)"
  proof (cases "\<exists>n i a ok es. report_blocking (the sizes) n i a t = (ok, es, t')")
    case True
    then show ?thesis using report_blocking_keeps by blast
  next
    case False
    then show ?thesis
      using assms(2) unfolding Arm_def Let_def
      by (simp split: if_split_asm option.split_asm prod.split_asm)
  qed
  then show ?thesis
    by (elim disjE exE conjE) (auto simp: assms(1) watch_consistent_def intro!: trap_ok_cong [OF assms(1)])
qed

lemma InvokeCallback_shape:
  assumes "InvokeCallback a result state t = (t', es)"
  defines "e \<equiv> \<lparr>ev_watch = a, trigger_context = w_context (watch_at t a), ev_result = result, ev_state = state\<rparr>"
  shows "is_cancelled (watch_at t a) \<and> t' = t \<and> es = [] \<or>
      \<not> is_cancelled (watch_at t a) \<and> result = MOJO_RESULT_CANCELLED \<and> es = [e] \<and>
        t' = t\<lparr>watch_at := (watch_at t)(a := (watch_at t a)\<lparr>is_cancelled := True\<rparr>)\<rparr> \<or>
      \<not> is_cancelled (watch_at t a) \<and> result \<noteq> MOJO_RESULT_CANCELLED \<and> t' = t \<and> (es = [] \<or> es = [e])"
  using assms
  by (cases "is_cancelled (watch_at t a)"; cases "result = MOJO_RESULT_CANCELLED"; cases "tr_closed t")
    (auto simp: InvokeCallback_def Let_def)

lemma InvokeCallback_effect:
  assumes "InvokeCallback a result state t = (t', es)"
  shows "w_id (watch_at t' b) = w_id (watch_at t b)"
    "is_cancelled (watch_at t' b) \<longleftrightarrow> is_cancelled (watch_at t b) \<or> b = a \<and> result = MOJO_RESULT_CANCELLED"
    "es = [] \<and> (is_cancelled (watch_at t a) \<or> result \<noteq> MOJO_RESULT_CANCELLED) \<or> \<not> is_cancelled (watch_at t a) \<and>
      es = [\<lparr>ev_watch = a, trigger_context = w_context (watch_at t a), ev_result = result, ev_state = state\<rparr>]"
  using InvokeCallback_shape [OF assms] by (elim disjE conjE; force simp: w_id_def)+

lemma InvokeCallback_ok:
  assumes "trap_ok used undone t" "InvokeCallback a result state t = (t', es)"
  shows "trap_ok used undone t'"
proof -
  let ?u = "t\<lparr>watch_at := (watch_at t)(a := (watch_at t a)\<lparr>is_cancelled := True\<rparr>)\<rparr>"
  have eq: "outcome ((watch_at t a)\<lparr>is_cancelled := True\<rparr>) = outcome (watch_at t a)" by (rule outcome_id) (simp add: w_id_def)
  have "watch_consistent ?u d b = watch_consistent t d b" for d b by (simp add: watch_consistent_def eq)
  then have "trap_ok used undone ?u" by (intro trap_ok_cong [OF assms(1)]) auto
  then show ?thesis using InvokeCallback_shape [OF assms(2)] assms(1) by (elim disjE conjE) simp_all
qed

section \<open>The invariant of the system\<close>

fun call_watch :: "'d call \<Rightarrow> nat" where
  "call_watch (Attach _ _ a) = a"
| "call_watch (Undo _ _ a) = a"
| "call_watch (Check _ _ a) = a"
| "call_watch (CancelRef _ a) = a"
| "call_watch (CancelEnd a) = a"
| "call_watch (CloseEntry _ a) = a"

text \<open>A queued notification is true: the state does what the trigger waits for.\<close>

fun final_ok :: "nat set \<Rightarrow> 'd trap \<Rightarrow> finalizer \<Rightarrow> bool" where
  "final_ok used t (WatchCancel a) \<longleftrightarrow> a \<in> used"
| "final_ok used t (WatchNotify a r state) \<longleftrightarrow> a \<in> used \<and> due r \<and> r = outcome (watch_at t a) state"

definition event_ok :: "nat set \<Rightarrow> 'd trap \<Rightarrow> trap_event \<Rightarrow> bool" where
  "event_ok used t e \<longleftrightarrow>
     ev_watch e \<in> used \<and> trigger_context e = w_context (watch_at t (ev_watch e)) \<and>
     (ev_result e = MOJO_RESULT_CANCELLED \<or> due (ev_result e) \<and> ev_result e = outcome (watch_at t (ev_watch e)) (ev_state e))"

fun cancelled_last :: "trap_event list \<Rightarrow> bool" where
  "cancelled_last [] \<longleftrightarrow> True"
| "cancelled_last (e # es) \<longleftrightarrow>
     (ev_result e = MOJO_RESULT_CANCELLED \<longrightarrow> ev_watch e \<notin> ev_watch ` set es) \<and> cancelled_last es"

definition cancelled_in :: "trap_event list \<Rightarrow> nat \<Rightarrow> bool" where
  "cancelled_in es a \<longleftrightarrow> (\<exists>e \<in> set es. ev_watch e = a \<and> ev_result e = MOJO_RESULT_CANCELLED)"

lemma cancelled_last_snoc: "cancelled_last (es @ [e]) \<longleftrightarrow> cancelled_last es \<and> \<not> cancelled_in es (ev_watch e)"
  by (induction es) (auto simp: cancelled_in_def)

definition wsys_ok :: "'d wsys \<Rightarrow> bool" where
  "wsys_ok s \<longleftrightarrow>
     trap_ok (w_used s) (w_undone s) (w_trap s) \<and> call_watch ` w_calls s \<subseteq> w_used s \<and>
     (\<forall>f \<in> set (w_finals s). final_ok (w_used s) (w_trap s) f) \<and>
     (\<forall>e \<in> set (w_events s). event_ok (w_used s) (w_trap s) e) \<and> cancelled_last (w_events s) \<and>
     (\<forall>a \<in> w_used s. is_cancelled (watch_at (w_trap s) a) \<longleftrightarrow> cancelled_in (w_events s) a)"

lemma ok_ids:
  assumes "\<forall>a \<in> used. w_id (watch_at t' a) = w_id (watch_at t a)" "used \<subseteq> used'"
  shows "final_ok used t f \<Longrightarrow> final_ok used' t' f" "event_ok used t e \<Longrightarrow> event_ok used' t' e"
proof -
  have same: "outcome (watch_at t' a) = outcome (watch_at t a)" "w_context (watch_at t' a) = w_context (watch_at t a)" if "a \<in> used" for a
    using that assms(1) outcome_id [of "watch_at t' a" "watch_at t a"] by (auto simp: w_id_def)
  show "final_ok used t f \<Longrightarrow> final_ok used' t' f" using assms(2) by (cases f) (auto simp: same)
  show "event_ok used t e \<Longrightarrow> event_ok used' t' e" using assms(2) by (auto simp: event_ok_def same)
qed

text \<open>Steps that change the trap, queue notifications and start or end calls.\<close>

lemma wsys_ok_upd:
  assumes "wsys_ok s" "frame (w_used s) (w_trap s) (w_trap s')" "w_used s' = w_used s" "w_events s' = w_events s"
    "trap_ok (w_used s) (w_undone s') (w_trap s')"
    "call_watch ` w_calls s' \<subseteq> w_used s" "\<And>f. f \<in> set (w_finals s') \<Longrightarrow> f \<in> set (w_finals s) \<or> final_ok (w_used s) (w_trap s) f"
  shows "wsys_ok s'"
proof -
  have ids: "\<forall>a \<in> w_used s. w_id (watch_at (w_trap s') a) = w_id (watch_at (w_trap s) a)"
    using assms(2) by (simp add: frame_def)
  have "final_ok (w_used s) (w_trap s') f" if "f \<in> set (w_finals s')" for f
    using assms(7) [OF that] assms(1) ok_ids(1) [OF ids order_refl, of f] by (auto simp: wsys_ok_def)
  moreover have "event_ok (w_used s) (w_trap s') e" if "e \<in> set (w_events s)" for e
    using assms(1) that ok_ids(2) [OF ids order_refl] by (auto simp: wsys_ok_def)
  ultimately show ?thesis using assms(1-6) by (simp add: wsys_ok_def frame_def)
qed

lemma tell_ok:
  assumes "trap_ok used undone t" "\<forall>f \<in> set fs. final_ok used t f" "tell me d watcher state (t, fs) = (t', fs')"
  shows "trap_ok used undone t' \<and> frame used t t' \<and> (\<forall>f \<in> set fs'. final_ok used t' f)"
proof (cases "watcher = me")
  case False
  then show ?thesis using assms by (simp add: tell_def)
next
  case True
  then obtain gs where n: "NotifyHandleState d state t = (t', gs)" "fs' = fs @ gs"
    using assms(3) by (auto simp: tell_def split: prod.splits)
  note ok = NotifyHandleState_ok [OF assms(1) n(1)]
  then have "\<forall>a \<in> used. w_id (watch_at t' a) = w_id (watch_at t a)" by (simp add: frame_def)
  note keep = ok_ids(1) [OF this order_refl]
  have "\<forall>f \<in> set gs. final_ok used t f" using ok by auto
  then show ?thesis using ok keep assms(2) n(2) by auto
qed

lemma tell_all_ok:
  assumes "trap_ok used undone t" "\<forall>f \<in> set fs. final_ok used t f"
    "fold (\<lambda>(watcher, _). tell me d watcher state) ws (t, fs) = (t', fs')"
  shows "trap_ok used undone t' \<and> frame used t t' \<and> (\<forall>f \<in> set fs'. final_ok used t' f)"
  using assms
proof (induction ws arbitrary: t fs)
  case (Cons w ws)
  obtain t1 fs1 where one: "tell me d (fst w) state (t, fs) = (t1, fs1)" by (cases "tell me d (fst w) state (t, fs)")
  have "fold (\<lambda>(watcher, _). tell me d watcher state) ws (t1, fs1) = (t', fs')"
    using Cons.prems(3) one by (cases w) simp
  then show ?case
    using tell_ok [OF Cons.prems(1,2) one] Cons.IH [of t1 fs1] frame_trans by blast
qed simp

lemma ws_NotifyState_ok:
  assumes "trap_ok used undone t" "\<forall>f \<in> set fs. final_ok used t f"
    "ws_NotifyState (tell me d) state ws (t, fs) = (ws', t', fs')"
  shows "trap_ok used undone t' \<and> frame used t t' \<and> (\<forall>f \<in> set fs'. final_ok used t' f)"
  using assms tell_all_ok [OF assms(1,2), of me d state "ws_watchers ws" t' fs']
  by (auto simp: ws_NotifyState_def split: if_splits)

lemma ws_Add_ok:
  assumes "trap_ok used undone t" "\<forall>f \<in> set fs. final_ok used t f"
    "ws_Add (tell me d) watcher context state ws (t, fs) = (r, ws', t', fs')"
  shows "trap_ok used undone t' \<and> frame used t t' \<and> (\<forall>f \<in> set fs'. final_ok used t' f)"
proof -
  have "t' = t \<and> fs' = fs \<or> tell me d watcher state (t, fs) = (t', fs') \<or>
      (\<exists>ws1. ws_NotifyState (tell me d) state ws1 (t, fs) = (ws', t', fs'))"
    using assms(3) unfolding ws_Add_def Let_def by (auto split: if_split_asm prod.split_asm)
  then show ?thesis
    using assms(1,2) tell_ok [OF assms(1,2), of me d watcher state t' fs'] ws_NotifyState_ok [OF assms(1,2), of me d state _ ws' t' fs']
    by (elim disjE exE conjE) (simp_all add: frame_refl)
qed

lemma ws_NotifyClosed_ok:
  assumes "trap_ok used undone t" "\<forall>f \<in> set fs. final_ok used t f"
    "ws_NotifyClosed (tell_closed me d) ws (t, fs) = (t', fs')"
  shows "trap_ok used undone t' \<and> frame used t t' \<and> (\<forall>f \<in> set fs'. final_ok used t' f)"
proof -
  have "trap_ok used undone t' \<and> frame used t t' \<and> (\<forall>f \<in> set fs'. final_ok used t' f)"
    if "trap_ok used undone t" "\<forall>f \<in> set fs. final_ok used t f"
      "fold (\<lambda>(watcher, _). tell_closed me d watcher) xs (t, fs) = (t', fs')" for xs t fs
    using that
  proof (induction xs arbitrary: t fs)
    case (Cons w xs)
    obtain t1 fs1 where one: "tell_closed me d (fst w) (t, fs) = (t1, fs1)" by (cases "tell_closed me d (fst w) (t, fs)")
    have "t1 = t \<and> fs1 = fs \<or> (\<exists>gs. NotifyHandleClosed d t = (t1, gs) \<and> fs1 = fs @ gs)"
      using one by (auto simp: tell_closed_def split: if_splits prod.splits)
    then have ok1: "trap_ok used undone t1 \<and> frame used t t1 \<and> (\<forall>f \<in> set fs1. final_ok used t1 f)"
    proof (elim disjE exE conjE)
      fix gs assume n: "NotifyHandleClosed d t = (t1, gs)" "fs1 = fs @ gs"
      note ok = NotifyHandleClosed_ok [OF Cons.prems(1) n(1)]
      then have "\<forall>a \<in> used. w_id (watch_at t1 a) = w_id (watch_at t a)" by (simp add: frame_def)
      note keep = ok_ids(1) [OF this order_refl]
      show ?thesis using ok keep Cons.prems(2) n(2) by auto
    qed (use Cons.prems in simp)
    have "fold (\<lambda>(watcher, _). tell_closed me d watcher) xs (t1, fs1) = (t', fs')"
      using Cons.prems(3) one by (cases w) simp
    then show ?case using ok1 Cons.IH [of t1 fs1] frame_trans by blast
  qed simp
  then show ?thesis using assms by (simp add: ws_NotifyClosed_def)
qed

lemma RemoveWatcherRef_keeps:
  assumes "RemoveWatcherRef me d context s = (r, s')"
  shows "w_trap s' = w_trap s \<and> w_finals s' = w_finals s \<and> w_events s' = w_events s \<and> w_used s' = w_used s \<and>
    w_undone s' = w_undone s \<and> w_calls s' = w_calls s"
  using assms by (auto simp: RemoveWatcherRef_def split: if_splits prod.splits)

lemma wsys_ok_told:
  assumes "wsys_ok s" "trap_ok (w_used s) (w_undone s) t \<and> frame (w_used s) (w_trap s) t \<and> (\<forall>f \<in> set fs. final_ok (w_used s) t f)"
    "w_trap s' = t" "w_finals s' = fs" "w_used s' = w_used s" "w_undone s' = w_undone s" "w_events s' = w_events s"
    "call_watch ` w_calls s' \<subseteq> w_used s"
  shows "wsys_ok s'"
proof -
  have "\<forall>a \<in> w_used s. w_id (watch_at (w_trap s) a) = w_id (watch_at t a)" using assms(2) by (simp add: frame_def)
  note old = ok_ids(1) [OF this order_refl]
  show ?thesis using assms(2-8) old by (intro wsys_ok_upd [OF assms(1)]) auto
qed

lemma deliver_ok:
  assumes "wsys_ok s" "f \<in> set (w_finals s)" "run_finalizer f (w_trap s) = (t, es)"
  shows "wsys_ok (s\<lparr>w_trap := t, w_finals := remove1 f (w_finals s), w_events := w_events s @ es\<rparr>)"
proof -
  let ?t = "w_trap s" and ?U = "w_used s"
  define a r st where "a = (case f of WatchCancel a \<Rightarrow> a | WatchNotify a _ _ \<Rightarrow> a)"
    and "r = (case f of WatchCancel _ \<Rightarrow> MOJO_RESULT_CANCELLED | WatchNotify _ r _ \<Rightarrow> r)"
    and "st = (case f of WatchCancel _ \<Rightarrow> no_signals | WatchNotify _ _ st \<Rightarrow> st)"
  have ok: "trap_ok ?U (w_undone s) ?t" "final_ok ?U ?t f" "\<forall>a \<in> ?U. is_cancelled (watch_at ?t a) \<longleftrightarrow> cancelled_in (w_events s) a"
    using assms(1,2) by (auto simp: wsys_ok_def)
  have inv: "InvokeCallback a r st ?t = (t, es)"
    using assms(3) by (auto simp: run_finalizer_def a_def r_def st_def split: finalizer.splits)
  note I = InvokeCallback_ok [OF ok(1) inv] InvokeCallback_effect [OF inv]
  let ?e = "\<lparr>ev_watch = a, trigger_context = w_context (watch_at ?t a), ev_result = r, ev_state = st\<rparr>"
  have a: "a \<in> ?U" and ev: "event_ok ?U ?t ?e"
    using ok(2) by (auto simp: a_def r_def st_def event_ok_def split: finalizer.splits)
  have "\<forall>a \<in> ?U. w_id (watch_at t a) = w_id (watch_at ?t a)" using I(2) by blast
  note keep = ok_ids [OF this order_refl]
  have es: "es = [] \<or> es = [?e] \<and> \<not> is_cancelled (watch_at ?t a)" using I(4) by blast
  have "cancelled_last (w_events s @ es)"
    using es a ok(3) assms(1) by (auto simp: wsys_ok_def cancelled_last_snoc)
  moreover have "is_cancelled (watch_at t b) \<longleftrightarrow> cancelled_in (w_events s @ es) b" if "b \<in> ?U" for b
    using I(3) [of b] I(4) ok(3) a that by (auto simp: cancelled_in_def)
  moreover have "event_ok ?U t e" if "e \<in> set (w_events s @ es)" for e
    using that es ev keep(2) assms(1) by (auto simp: wsys_ok_def)
  moreover have "final_ok ?U t g" if "g \<in> set (remove1 f (w_finals s))" for g
    using that keep(1) assms(1) set_remove1_subset [of f "w_finals s"] by (auto simp: wsys_ok_def)
  ultimately show ?thesis using I(1) assms(1) by (simp add: wsys_ok_def)
qed

lemma watch_ok:
  assumes "wsys_ok s" "watch_insert a d signals condition context (w_trap s) = (MOJO_RESULT_OK, t)" "a \<notin> w_used s" "a \<noteq> 0"
  shows "wsys_ok (s\<lparr>w_trap := t, w_calls := insert (Attach d context a) (w_calls s), w_used := insert a (w_used s)\<rparr>)"
proof -
  let ?U = "w_used s"
  have "trap_ok ?U (w_undone s) (w_trap s)" using assms(1) by (simp add: wsys_ok_def)
  note W = watch_insert_ok [OF this assms(2-4)]
  then have "\<forall>b \<in> ?U. w_id (watch_at t b) = w_id (watch_at (w_trap s) b)" by (simp add: frame_def)
  note keep = ok_ids [OF this subset_insertI [of ?U a]]
  have "\<not> cancelled_in (w_events s) a" using assms(1,3) by (auto simp: wsys_ok_def event_ok_def cancelled_in_def)
  then have "\<forall>b \<in> insert a ?U. is_cancelled (watch_at t b) \<longleftrightarrow> cancelled_in (w_events s) b"
    using W assms(1) by (auto simp: wsys_ok_def frame_def)
  then show ?thesis using W keep assms(1) by (auto simp: wsys_ok_def)
qed

lemma watch_step_ok:
  assumes "watch_step me s s'" "wsys_ok s"
  shows "wsys_ok s'"
  using assms
proof (induction rule: watch_step.induct)
  case (change d state s ws t fs)
  then have "trap_ok (w_used s) (w_undone s) (w_trap s)" "\<forall>f \<in> set (w_finals s). final_ok (w_used s) (w_trap s) f"
    by (auto simp: wsys_ok_def)
  from ws_NotifyState_ok [OF this change.hyps] show ?case
    using change.prems by (intro wsys_ok_told [OF change.prems]) (auto simp: wsys_ok_def)
next
  case (transit s D)
  then show ?case by (simp add: wsys_ok_def)
next
  case (d_close d s t fs)
  then have "trap_ok (w_used s) (w_undone s) (w_trap s)" "\<forall>f \<in> set (w_finals s). final_ok (w_used s) (w_trap s) f"
    by (auto simp: wsys_ok_def)
  from ws_NotifyClosed_ok [OF this d_close.hyps(3)] show ?case
    using d_close.prems by (intro wsys_ok_told [OF d_close.prems]) (auto simp: wsys_ok_def)
next
  case (watch a d signals condition "context" s t)
  then show ?case by (intro watch_ok)
next
  case (attach d "context" a s state r s')
  let ?calls = "insert (if r = MOJO_RESULT_OK then Check d context a else Undo d context a) (w_calls s - {Attach d context a})"
  have calls: "call_watch ` ?calls \<subseteq> w_used s"
    using attach.hyps(1) attach.prems by (auto simp: wsys_ok_def rev_image_eqI)
  show ?case
  proof (cases "d \<in> d_closed s \<or> d \<in> d_transit s")
    case True
    then have "s' = s" using attach.hyps(2) by (simp add: AddWatcherRef_def)
    then show ?thesis using calls attach.prems by (simp add: wsys_ok_def)
  next
    case False
    then obtain ws t fs where add: "ws_Add (tell me d) me context state (w_sets s d) (w_trap s, w_finals s) = (r, ws, t, fs)"
        "s' = s\<lparr>w_sets := (w_sets s)(d := ws), w_trap := t, w_finals := fs\<rparr>"
      using attach.hyps(2) by (auto simp: AddWatcherRef_def split: prod.splits)
    have "trap_ok (w_used s) (w_undone s) (w_trap s)" "\<forall>f \<in> set (w_finals s). final_ok (w_used s) (w_trap s) f"
      using attach.prems by (auto simp: wsys_ok_def)
    from ws_Add_ok [OF this add(1)] show ?thesis
      using calls add(2) by (intro wsys_ok_told [OF attach.prems]) auto
  qed
next
  case (undo d "context" a s)
  then show ?case
    using watch_undo_ok [of "w_used s" "w_undone s" "w_trap s" d "context"]
    by (intro wsys_ok_upd [OF undo.prems]) (auto simp: wsys_ok_def frame_def watch_undo_def)
next
  case (check d "context" a s s')
  then have "w_trap s' = w_trap s \<and> w_finals s' = w_finals s \<and> w_events s' = w_events s \<and> w_used s' = w_used s \<and> w_undone s' = w_undone s"
    using RemoveWatcherRef_keeps [of me d "context" s "fst (RemoveWatcherRef me d context s)" "snd (RemoveWatcherRef me d context s)"]
    by (auto split: if_splits)
  then show ?case using check.prems by (auto simp: wsys_ok_def)
next
  case (cancel "context" s a t)
  then show ?case
    using cancel_begin_ok [of "w_used s" "w_undone s" "w_trap s" "context" a t]
    by (intro wsys_ok_upd [OF cancel.prems]) (auto simp: wsys_ok_def frame_def)
next
  case (cancel_ref "context" a s r s')
  then show ?case using RemoveWatcherRef_keeps [OF cancel_ref.hyps(2)] by (auto simp: wsys_ok_def rev_image_eqI)
next
  case (cancel_last a s)
  have "watch_at (cancel_end a (w_trap s)) = watch_at (w_trap s)" by (simp add: cancel_end_def split: option.splits)
  then show ?case
    using cancel_last.prems cancel_end_ok [of "w_used s" "w_undone s" "w_trap s" a]
    by (intro wsys_ok_upd [OF cancel_last.prems]) (auto simp: wsys_ok_def frame_def)
next
  case (tr_close s old t)
  then show ?case
    using tr_Close_ok [of "w_used s" "w_undone s" "w_trap s" MOJO_RESULT_OK old t]
    by (intro wsys_ok_upd [OF tr_close.prems]) (auto simp: wsys_ok_def frame_def ran_def)
next
  case (close_entry "context" a s r s')
  then have "a \<in> w_used s" by (auto simp: wsys_ok_def rev_image_eqI)
  then show ?case using RemoveWatcherRef_keeps [OF close_entry.hyps(2)] close_entry.prems by (auto simp: wsys_ok_def)
next
  case (arm num sizes s r num' es t)
  then show ?case
    using Arm_ok [of "w_used s" "w_undone s" "w_trap s" num sizes r num' es t]
    by (intro wsys_ok_upd [OF arm.prems]) (auto simp: wsys_ok_def frame_def)
next
  case (deliver f s t es)
  then show ?case by (intro deliver_ok)
next
  case (other_add watcher d "context" state s r ws t fs)
  then have "trap_ok (w_used s) (w_undone s) (w_trap s)" "\<forall>f \<in> set (w_finals s). final_ok (w_used s) (w_trap s) f"
    by (auto simp: wsys_ok_def)
  from ws_Add_ok [OF this other_add.hyps(2)] show ?case
    using other_add.prems by (intro wsys_ok_told [OF other_add.prems]) (auto simp: wsys_ok_def)
next
  case (other_remove watcher "context" s d r ws)
  then show ?case by (simp add: wsys_ok_def)
qed

lemma reachable_wsys_ok: "watch_reachable me s \<Longrightarrow> wsys_ok s"
proof (induction rule: watch_reachable.induct)
  case (created s)
  then show ?case by (simp add: watch_start_def wsys_ok_def trap_ok_def)
next
  case (stepped s s')
  then show ?case using watch_step_ok by blast
qed

section \<open>The contract of a trap\<close>

text \<open>A trigger on one dispatcher, told that it is readable.\<close>

definition demo_readable :: signals_state where
  "demo_readable = \<lparr>satisfied_signals = {READABLE}, satisfiable_signals = {READABLE}\<rparr>"

definition demo_waiting :: signals_state where
  "demo_waiting = \<lparr>satisfied_signals = {}, satisfiable_signals = {READABLE}\<rparr>"

definition demo_trap :: "nat trap" where
  "demo_trap = \<lparr>armed = False, tr_closed = False, watches = Map.empty, watched_handles = Map.empty, ready_watches = {},
     last_watch_to_block_arming = 0, watch_at = (\<lambda>_. Watch 0 0 {} SIGNALS_SATISFIED)\<rparr>"

definition demo_system :: "nat wsys" where
  "demo_system = \<lparr>w_trap = demo_trap, w_sets = (\<lambda>_. WatcherSet), d_closed = {}, d_transit = {}, w_calls = {}, w_finals = [],
     w_events = [], w_used = {}, w_undone = {}\<rparr>"

definition demo_watched :: "nat wsys" where
  "demo_watched = demo_system\<lparr>w_trap := snd (watch_insert 4 0 {READABLE} SIGNALS_SATISFIED 10 demo_trap),
     w_calls := {Attach 0 10 4}, w_used := {4}\<rparr>"

lemma demo_start: "watch_reachable me demo_system"
  by (intro watch_reachable.created) (simp add: watch_start_def demo_system_def demo_trap_def)

lemma demo_watched_reachable: "watch_reachable me demo_watched"
proof (rule watch_reachable.stepped [OF demo_start])
  have "watch_insert 4 0 {READABLE} SIGNALS_SATISFIED 10 (w_trap demo_system) =
      (MOJO_RESULT_OK, snd (watch_insert 4 0 {READABLE} SIGNALS_SATISFIED 10 demo_trap))"
    by (simp add: watch_insert_def demo_system_def demo_trap_def)
  from watch_step.watch [OF this, of me] show "watch_step me demo_system demo_watched"
    by (simp add: demo_watched_def demo_system_def)
qed

text \<open>C23: The contract of a trap, however calls on it and reports from dispatchers interleave.  While it
  is armed none of its triggers is due.  A report from a watched dispatcher queues a notification
  exactly when the trap is armed and the state is what the trigger waits for, or one that makes it
  impossible; the notification carries this result, and the trap disarms.  Of a trap that is open
  and watches something, arming succeeds only when no trigger is ready; and if no trigger is ready
  it does succeed, provided that no addition of a trigger was ever taken back because the dispatcher
  refused the watcher: such a trigger can stay among the ready ones and block arming
  (\<open>dangling_ready_watch\<close>).\<close>

theorem trap_contract:
  assumes "watch_reachable me s" "watched_handles (w_trap s) d = Some a"
  defines "t \<equiv> w_trap s"
  defines "w \<equiv> watch_at t a"
  shows "(armed t \<longrightarrow> \<not> due (last_known_result w)) \<and>
    snd (NotifyHandleState d state t) = (if armed t \<and> due (outcome w state) then [WatchNotify a (outcome w state) state] else []) \<and>
    armed (fst (NotifyHandleState d state t)) = (armed t \<and> \<not> due (outcome w state)) \<and>
    (a \<in> ready_watches t \<longleftrightarrow> due (last_known_result w)) \<and>
    (\<not> tr_closed t \<longrightarrow>
      (fst (Arm None sizes t) = MOJO_RESULT_OK \<longrightarrow> (\<forall>d a. watched_handles t d = Some a \<longrightarrow> \<not> due (last_known_result (watch_at t a)))) \<and>
      (w_undone s = {} \<and> (\<forall>d a. watched_handles t d = Some a \<longrightarrow> \<not> due (last_known_result (watch_at t a))) \<longrightarrow>
        fst (Arm None sizes t) = MOJO_RESULT_OK))"
proof -
  have ok: "trap_ok (w_used s) (w_undone s) t" using reachable_wsys_ok [OF assms(1)] by (simp add: wsys_ok_def t_def)
  then have c: "watch_consistent t d a" using assms(2) by (simp add: trap_ok_def t_def)
  then have armed: "armed t \<Longrightarrow> \<not> due (last_known_result w)"
    using ok by (auto simp: trap_ok_def watch_consistent_def w_def)
  have told: "NotifyHandleState d state t =
      (if due (outcome w state)
       then (t\<lparr>watch_at := (watch_at t)(a := w\<lparr>last_known_signals_state := state, last_known_result := outcome w state\<rparr>),
               ready_watches := insert a (ready_watches t), armed := False\<rparr>,
             if armed t \<and> outcome w state \<noteq> last_known_result w then [WatchNotify a (outcome w state) state] else [])
       else (t\<lparr>watch_at := (watch_at t)(a := w\<lparr>last_known_signals_state := state, last_known_result := outcome w state\<rparr>),
               ready_watches := ready_watches t - {a}\<rparr>, []))"
    using assms(2) by (simp add: NotifyHandleState_cases t_def w_def Let_def)
  have "\<not> due (last_known_result (watch_at t b))" if "ready_watches t = {}" "watched_handles t e = Some b" for e b
    using ok that by (auto simp: trap_ok_def watch_consistent_def)
  moreover have "ready_watches t = {}" if "w_undone s = {}" "\<not> tr_closed t"
    and none: "\<forall>d a. watched_handles t d = Some a \<longrightarrow> \<not> due (last_known_result (watch_at t a))"
  proof -
    have "b \<notin> ready_watches t" if "watched_handles t e = Some b" for e b
      using that none ok by (simp add: trap_ok_def watch_consistent_def)
    then show ?thesis using ok that(1,2) by (auto simp: trap_ok_def ran_def)
  qed
  moreover have "fst (Arm None sizes t) = MOJO_RESULT_OK \<longleftrightarrow> ready_watches t = {}" if "\<not> tr_closed t"
    using that assms(2) by (auto simp: Arm_def t_def)
  ultimately show ?thesis using armed told c by (auto simp: watch_consistent_def w_def)
qed

text \<open>The trap of the example, armed.\<close>

definition demo_armed :: "nat wsys" where
  "demo_armed = demo_watched\<lparr>w_trap := (w_trap demo_watched)\<lparr>armed := True\<rparr>\<rparr>"

lemma demo_armed_reachable: "watch_reachable me demo_armed"
proof (rule watch_reachable.stepped [OF demo_watched_reachable])
  have "Arm None None (w_trap demo_watched) = (MOJO_RESULT_OK, None, [], (w_trap demo_watched)\<lparr>armed := True\<rparr>)"
    by (simp add: Arm_def demo_watched_def demo_system_def demo_trap_def watch_insert_def)
  from watch_step.arm [OF this, of me] show "watch_step me demo_watched demo_armed"
    by (simp add: demo_armed_def)
qed

theorem trap_contract_witness:
  "snd (NotifyHandleState 0 demo_readable (w_trap demo_armed)) = [WatchNotify 4 MOJO_RESULT_OK demo_readable] \<and>
   \<not> armed (fst (NotifyHandleState 0 demo_readable (w_trap demo_armed))) \<and>
   snd (NotifyHandleState 0 demo_waiting (w_trap demo_armed)) = []"
proof -
  have w: "watched_handles (w_trap demo_armed) 0 = Some 4" "armed (w_trap demo_armed)"
    by (simp_all add: demo_armed_def demo_watched_def demo_system_def demo_trap_def watch_insert_def)
  have "outcome (watch_at (w_trap demo_armed) 4) demo_readable = MOJO_RESULT_OK"
    "outcome (watch_at (w_trap demo_armed) 4) demo_waiting = MOJO_RESULT_SHOULD_WAIT"
    by (simp_all add: demo_armed_def demo_watched_def demo_system_def demo_trap_def watch_insert_def Watch_def outcome_def
        demo_readable_def demo_waiting_def)
  then show ?thesis
    using trap_contract [OF demo_armed_reachable w(1), of demo_readable] trap_contract [OF demo_armed_reachable w(1), of demo_waiting] w(2)
    by (simp add: due_def)
qed

text \<open>C25: What the handler of a trap is told, whatever threads deliver the notifications: every event
  carries the context of its trigger; unless it is the cancellation, its result is what the
  trigger makes of the state in the event; and the cancellation of a trigger is its last event.\<close>

theorem trap_events_true:
  assumes "watch_reachable me s" "w_events s = xs @ e # ys"
  defines "w \<equiv> watch_at (w_trap s) (ev_watch e)"
  shows "trigger_context e = w_context w \<and>
    (if ev_result e = MOJO_RESULT_CANCELLED then \<forall>f \<in> set ys. ev_watch f \<noteq> ev_watch e
     else ev_result e = outcome w (ev_state e) \<and> ev_result e \<noteq> MOJO_RESULT_SHOULD_WAIT)"
proof -
  have ok: "event_ok (w_used s) (w_trap s) e" "cancelled_last (xs @ e # ys)"
    using reachable_wsys_ok [OF assms(1)] assms(2) by (auto simp: wsys_ok_def)
  from ok(2) have "ev_result e = MOJO_RESULT_CANCELLED \<longrightarrow> ev_watch e \<notin> ev_watch ` set ys"
    by (induction xs) auto
  then have "ev_result e = MOJO_RESULT_CANCELLED \<longrightarrow> (\<forall>f \<in> set ys. ev_watch f \<noteq> ev_watch e)" by (metis imageI)
  then show ?thesis using ok(1) by (auto simp: event_ok_def w_def due_def)
qed

definition demo_cancelled :: "nat wsys" where
  "demo_cancelled = demo_watched\<lparr>w_trap := snd (cancel_begin 10 (w_trap demo_watched)), w_finals := [WatchCancel 4],
     w_calls := {CancelRef 10 4, Attach 0 10 4}\<rparr>"

definition demo_delivered :: "nat wsys" where
  "demo_delivered = demo_cancelled\<lparr>w_trap := fst (run_finalizer (WatchCancel 4) (w_trap demo_cancelled)), w_finals := [],
     w_events := snd (run_finalizer (WatchCancel 4) (w_trap demo_cancelled))\<rparr>"

lemma demo_delivered_reachable: "watch_reachable me demo_delivered"
proof -
  have "cancel_begin 10 (w_trap demo_watched) = (Inr 4, snd (cancel_begin 10 (w_trap demo_watched)))"
    by (simp add: cancel_begin_def demo_watched_def demo_system_def demo_trap_def watch_insert_def)
  from watch_step.cancel [OF this, of me] have "watch_step me demo_watched demo_cancelled"
    by (simp add: demo_cancelled_def demo_watched_def demo_system_def)
  then have r: "watch_reachable me demo_cancelled" by (rule watch_reachable.stepped [OF demo_watched_reachable])
  have "WatchCancel 4 \<in> set (w_finals demo_cancelled)" by (simp add: demo_cancelled_def)
  from watch_step.deliver [OF this prod.collapse [symmetric], of me] have "watch_step me demo_cancelled demo_delivered"
    by (simp add: demo_delivered_def demo_cancelled_def demo_watched_def demo_system_def)
  then show ?thesis by (rule watch_reachable.stepped [OF r])
qed

theorem trap_events_true_witness:
  "\<exists>e. w_events demo_delivered = [] @ e # [] \<and> ev_result e = MOJO_RESULT_CANCELLED \<and>
     trigger_context e = w_context (watch_at (w_trap demo_delivered) 4)"
proof -
  have "w_events demo_delivered = [] @ \<lparr>ev_watch = 4, trigger_context = 10, ev_result = MOJO_RESULT_CANCELLED, ev_state = no_signals\<rparr> # []"
    by (simp add: demo_delivered_def run_finalizer_def InvokeCallback_def demo_cancelled_def cancel_begin_def demo_watched_def
        demo_system_def demo_trap_def watch_insert_def Watch_def)
  from trap_events_true [OF demo_delivered_reachable this] this show ?thesis by simp
qed

section \<open>Arming\<close>

text \<open>The iterator over the ready watches goes round.\<close>

lemma filter_later:
  assumes "sorted_wrt (<) L" "i < length L"
  shows "filter (\<lambda>b. L ! i < b) L = drop (Suc i) (L :: nat list)"
proof -
  have "filter (\<lambda>b. L ! i < b) (take (Suc i) L) = []"
  proof (subst filter_empty_conv, rule ballI)
    fix b assume "b \<in> set (take (Suc i) L)"
    then obtain j where "j \<le> i" "b = L ! j" using assms(2) by (auto simp: in_set_conv_nth less_Suc_eq_le)
    then show "\<not> L ! i < b" using sorted_wrt_nth_less [OF assms(1), of j i] assms(2) by (cases "j = i") auto
  qed
  moreover have "filter (\<lambda>b. L ! i < b) (drop (Suc i) L) = drop (Suc i) L"
    using assms by (auto simp: filter_id_conv in_set_conv_nth intro!: sorted_wrt_nth_less [OF assms(1)])
  ultimately show ?thesis by (metis append_take_drop_id filter_append self_append_conv2)
qed

lemma next_rotate:
  assumes "finite S" "S \<noteq> {}"
  defines "L \<equiv> sorted_list_of_set S"
  shows "next_watch S (hd (rotate n L)) = hd (rotate (Suc n) L)"
proof -
  let ?m = "length L" and ?i = "n mod length L"
  have L: "L \<noteq> []" "sorted_wrt (<) L" using assms by (auto simp: strict_sorted_iff)
  then have i: "?i < ?m" by simp
  have hd: "hd (rotate k L) = L ! (k mod ?m)" for k using L(1) by (rule hd_rotate_conv_nth)
  have later: "filter (\<lambda>b. L ! ?i < b) L = drop (Suc ?i) L" using filter_later [OF L(2) i] .
  show ?thesis
  proof (cases "Suc ?i < ?m")
    case True
    then have "Suc n mod ?m = Suc ?i" by (simp add: mod_Suc)
    then show ?thesis using True hd later by (simp add: next_watch_def L_def [symmetric] Let_def hd_drop_conv_nth del: rotate_Suc)
  next
    case False
    then have "Suc n mod ?m = 0" using i by (simp add: mod_Suc)
    then show ?thesis using False hd later L(1) by (simp add: next_watch_def L_def [symmetric] Let_def hd_conv_nth del: rotate_Suc)
  qed
qed

lemma report_rotates:
  assumes "finite (ready_watches t)" "ready_watches t \<noteq> {}" "k \<le> card (ready_watches t)" "\<And>i. 32 \<le> sizes i"
    "a = hd (rotate n (sorted_list_of_set (ready_watches t)))"
  shows "\<exists>es t'. report_blocking sizes k i a t = (True, es, t') \<and>
    map ev_watch es = take k (rotate n (sorted_list_of_set (ready_watches t))) \<and>
    last_watch_to_block_arming t' = (if k = 0 then last_watch_to_block_arming t else last (map ev_watch es)) \<and>
    (\<forall>e \<in> set es. trigger_context e = w_context (watch_at t (ev_watch e)) \<and> ev_result e = last_known_result (watch_at t (ev_watch e)) \<and>
      ev_state e = last_known_signals_state (watch_at t (ev_watch e)))"
  using assms
proof (induction k arbitrary: i a n t)
  case (Suc k)
  let ?L = "sorted_list_of_set (ready_watches t)" and ?t = "t\<lparr>last_watch_to_block_arming := a\<rparr>"
  have nxt: "next_watch (ready_watches t) a = hd (rotate (Suc n) ?L)" using next_rotate Suc.prems by blast
  have len: "length (rotate n ?L) = card (ready_watches t)" by simp
  have ne: "rotate n ?L \<noteq> []" using Suc.prems(1,2) by simp
  have "take k (rotate (Suc n) ?L) = take k (tl (rotate n ?L))"
    using ne len Suc.prems(3) by (cases "rotate n ?L") (auto simp: take_append)
  then have step: "a # take k (rotate (Suc n) ?L) = take (Suc k) (rotate n ?L)"
    using ne Suc.prems(5) by (cases "rotate n ?L") auto
  have sel: "last_watch_to_block_arming ?t = a" "ready_watches ?t = ready_watches t" "watch_at ?t = watch_at t" by simp_all
  have "k \<le> card (ready_watches t)" using Suc.prems(3) by simp
  note IH = Suc.IH [of ?t, unfolded sel, OF Suc.prems(1,2) this Suc.prems(4), of "hd (rotate (Suc n) ?L)" "Suc n" "Suc i", OF refl]
  from IH obtain es t' where
    es: "report_blocking sizes k (Suc i) (hd (rotate (Suc n) ?L)) ?t = (True, es, t')" "map ev_watch es = take k (rotate (Suc n) ?L)"
      "last_watch_to_block_arming t' = (if k = 0 then a else last (map ev_watch es))"
      "\<forall>e \<in> set es. trigger_context e = w_context (watch_at t (ev_watch e)) \<and> ev_result e = last_known_result (watch_at t (ev_watch e)) \<and>
        ev_state e = last_known_signals_state (watch_at t (ev_watch e))"
    by blast
  let ?e = "\<lparr>ev_watch = a, trigger_context = w_context (watch_at t a), ev_result = last_known_result (watch_at t a),
    ev_state = last_known_signals_state (watch_at t a)\<rparr>"
  have "report_blocking sizes (Suc k) i a t = (True, ?e # es, t')"
    using es(1) nxt Suc.prems(4) [of i] by (simp add: Let_def not_less del: rotate_Suc)
  moreover have "es = [] \<longleftrightarrow> k = 0" using arg_cong [OF es(2), of length] len Suc.prems(3) by auto
  then have "last_watch_to_block_arming t' = last (map ev_watch (?e # es))" using es(3) by (simp add: last_map)
  moreover have "map ev_watch (?e # es) = take (Suc k) (rotate n ?L)" using es(2) step by simp
  moreover have "\<forall>e \<in> set (?e # es). trigger_context e = w_context (watch_at t (ev_watch e)) \<and>
      ev_result e = last_known_result (watch_at t (ev_watch e)) \<and> ev_state e = last_known_signals_state (watch_at t (ev_watch e))"
    using es(4) by simp
  ultimately show ?case unfolding if_not_P [OF nat.distinct(2)] by blast
qed simp

text \<open>The order in which arming reports: the ready watches, beginning behind the last one reported.\<close>

definition blocking_order :: "'d trap \<Rightarrow> nat list" where
  "blocking_order t =
     (let L = sorted_list_of_set (ready_watches t); l = last_watch_to_block_arming t in
      if l \<in> ready_watches t then filter (\<lambda>b. l < b) L @ filter (\<lambda>b. b \<le> l) L else L)"

lemma blocking_order_rotate:
  assumes "finite (ready_watches t)" "ready_watches t \<noteq> {}" "0 \<notin> ready_watches t"
  defines "L \<equiv> sorted_list_of_set (ready_watches t)"
  shows "\<exists>n. blocking_order t = rotate n L \<and> first_to_block t = hd (rotate n L)"
proof (cases "last_watch_to_block_arming t \<in> ready_watches t")
  case False
  then show ?thesis
    by (intro exI [of _ 0]) (simp add: blocking_order_def first_to_block_def L_def Let_def)
next
  case True
  let ?l = "last_watch_to_block_arming t"
  have L: "L \<noteq> []" "sorted_wrt (<) L" "set L = ready_watches t" using assms by (auto simp: strict_sorted_iff)
  then obtain i where i: "i < length L" "?l = L ! i" using True by (metis in_set_conv_nth)
  have later: "filter (\<lambda>b. ?l < b) L = drop (Suc i) L" using filter_later [OF L(2) i(1)] i(2) by simp
  have "filter (\<lambda>b. b \<le> ?l) L = filter (\<lambda>b. b \<le> ?l) (take (Suc i) L) @ filter (\<lambda>b. b \<le> ?l) (drop (Suc i) L)"
    by (metis append_take_drop_id filter_append)
  also have "filter (\<lambda>b. b \<le> ?l) (drop (Suc i) L) = []"
    by (auto simp: later [symmetric] filter_empty_conv)
  also have "filter (\<lambda>b. b \<le> ?l) (take (Suc i) L) = take (Suc i) L"
  proof (subst filter_id_conv, rule ballI)
    fix b assume "b \<in> set (take (Suc i) L)"
    then obtain j where "j \<le> i" "b = L ! j" using i(1) by (auto simp: in_set_conv_nth less_Suc_eq_le)
    then show "b \<le> ?l" using sorted_wrt_nth_less [OF L(2), of j i] i by (cases "j = i") auto
  qed
  finally have "blocking_order t = drop (Suc i) L @ take (Suc i) L"
    using True later by (simp add: blocking_order_def L_def [symmetric] Let_def)
  moreover have "rotate (Suc i) L = drop (Suc i) L @ take (Suc i) L"
    using i(1) by (cases "Suc i = length L") (simp_all add: rotate_drop_take del: rotate_Suc)
  moreover have "hd (rotate i L) = ?l" using i L(1) by (simp add: hd_rotate_conv_nth)
  then have "first_to_block t = hd (rotate (Suc i) L)"
    using True assms(3) next_rotate [OF assms(1,2), of i] by (simp add: first_to_block_def L_def del: rotate_Suc) metis
  ultimately show ?thesis by metis
qed

text \<open>C40: A trap that cannot be armed reports why: with ready triggers, \<open>Arm\<close> returns as many of them as
  fit into the caller's array, each once, with their contexts, results and states, in the
  order of their addresses beginning behind the last one it reported before, so that repeated
  attempts go round.\<close>

theorem arm_round_robin:
  fixes t :: "'d trap" and n :: u32
  assumes "finite (ready_watches t)" "ready_watches t \<noteq> {}" "0 \<notin> ready_watches t" "card (ready_watches t) < 2 ^ 32"
    "\<not> tr_closed t" "watched_handles t \<noteq> Map.empty" "\<And>i. 32 \<le> sizes i"
  defines "k \<equiv> min n (of_nat (card (ready_watches t)))"
  shows "\<exists>es t'. Arm (Some n) (Some sizes) t = (MOJO_RESULT_FAILED_PRECONDITION, Some k, es, t') \<and>
    map ev_watch es = take (unat n) (blocking_order t) \<and> length es = unat k \<and> distinct (map ev_watch es) \<and>
    set (map ev_watch es) \<subseteq> ready_watches t \<and>
    (k \<noteq> 0 \<longrightarrow> last_watch_to_block_arming t' = last (map ev_watch es)) \<and>
    (\<forall>e \<in> set es. trigger_context e = w_context (watch_at t (ev_watch e)) \<and> ev_result e = last_known_result (watch_at t (ev_watch e)))"
proof -
  let ?L = "sorted_list_of_set (ready_watches t)"
  obtain r where r: "blocking_order t = rotate r ?L" "first_to_block t = hd (rotate r ?L)"
    using blocking_order_rotate [OF assms(1-3)] by blast
  have c: "unat (of_nat (card (ready_watches t)) :: u32) = card (ready_watches t)"
    using assms(4) by (simp add: unat_of_nat)
  have k: "unat k = min (unat n) (card (ready_watches t))"
    using c by (simp add: k_def min_def word_le_nat_alt)
  then have "unat k \<le> card (ready_watches t)" by simp
  from report_rotates [where sizes = sizes and i = 0, OF assms(1,2) this assms(7) r(2)] obtain es t' where
    es: "report_blocking sizes (unat k) 0 (first_to_block t) t = (True, es, t')" "map ev_watch es = take (unat k) (rotate r ?L)"
      "last_watch_to_block_arming t' = (if unat k = 0 then last_watch_to_block_arming t else last (map ev_watch es))"
      "\<forall>e \<in> set es. trigger_context e = w_context (watch_at t (ev_watch e)) \<and> ev_result e = last_known_result (watch_at t (ev_watch e))"
    by blast
  have "Arm (Some n) (Some sizes) t = (MOJO_RESULT_FAILED_PRECONDITION, Some k, es, t')"
    using assms(2,5,6) es(1) by (simp add: Arm_def k_def Let_def)
  moreover have "map ev_watch es = take (unat n) (blocking_order t)"
    using es(2) k r(1) assms(1) by (auto simp: min_def)
  moreover have "length es = unat k" using arg_cong [OF es(2), of length] k by simp
  moreover have "distinct (map ev_watch es)" "set (map ev_watch es) \<subseteq> ready_watches t"
    using assms(1) unfolding es(2) by (auto dest: in_set_takeD)
  moreover have "k \<noteq> 0 \<longrightarrow> last_watch_to_block_arming t' = last (map ev_watch es)" using es(3) by (simp add: unat_eq_zero)
  ultimately show ?thesis using es(4) by blast
qed

definition demo_busy :: "nat trap" where
  "demo_busy = demo_trap\<lparr>watched_handles := [0 \<mapsto> 4, 1 \<mapsto> 6, 2 \<mapsto> 8], ready_watches := {4, 6, 8}, last_watch_to_block_arming := 6\<rparr>"

theorem arm_round_robin_witness:
  "\<exists>es t'. Arm (Some 2) (Some (\<lambda>_. 32)) demo_busy = (MOJO_RESULT_FAILED_PRECONDITION, Some 2, es, t') \<and> map ev_watch es = [8, 4]"
proof -
  have "blocking_order demo_busy = [8, 4, 6]" by (simp add: blocking_order_def demo_busy_def Let_def)
  moreover have "unat (2 :: u32) = 2" by simp
  moreover have "min 2 (of_nat (card (ready_watches demo_busy))) = (2 :: u32)" by (simp add: demo_busy_def min_def)
  ultimately show ?thesis
    using arm_round_robin [of demo_busy "\<lambda>_. 32" 2] by (auto simp: demo_busy_def demo_trap_def)
qed

section \<open>The end of a request\<close>

lemma run_finalizers_cancelled:
  "is_cancelled (watch_at t a) \<Longrightarrow> run_finalizers fs t = (t', es) \<Longrightarrow>
   is_cancelled (watch_at t' a) \<and> (\<forall>e \<in> set es. ev_watch e \<noteq> a)"
proof (induction fs arbitrary: t es)
  case (Cons f fs)
  obtain t1 es1 where one: "run_finalizer f t = (t1, es1)" by (cases "run_finalizer f t")
  obtain es2 where rest: "run_finalizers fs t1 = (t', es2)" "es = es1 @ es2"
    using Cons.prems(2) one by (auto split: prod.splits)
  have "is_cancelled (watch_at t1 a) \<and> (\<forall>e \<in> set es1. ev_watch e \<noteq> a)"
  proof -
    obtain b r st where "InvokeCallback b r st t = (t1, es1)" using one by (cases f) (auto simp: run_finalizer_def)
    from InvokeCallback_effect(2,3) [OF this] show ?thesis using Cons.prems(1) by auto
  qed
  then show ?case using Cons.IH [OF _ rest(1)] rest(2) by auto
qed simp

lemma run_finalizers_append:
  "run_finalizers (fs @ gs) t =
     (case run_finalizers fs t of (t, es) \<Rightarrow> case run_finalizers gs t of (t, es') \<Rightarrow> (t, es @ es'))"
  by (induction fs arbitrary: t) (auto split: prod.splits)

lemma run_cancels:
  "run_finalizers cs t = (t', es) \<Longrightarrow> \<forall>c \<in> set cs. is_cancel c \<Longrightarrow>
   (\<forall>e \<in> set es. ev_result e = MOJO_RESULT_CANCELLED) \<and> (WatchCancel a \<in> set cs \<longrightarrow> is_cancelled (watch_at t' a))"
proof (induction cs arbitrary: t es)
  case (Cons c cs)
  obtain b where c: "c = WatchCancel b" using Cons.prems(2) by (cases c) auto
  obtain t1 es1 where one: "run_finalizer c t = (t1, es1)" by (cases "run_finalizer c t")
  obtain es2 where rest: "run_finalizers cs t1 = (t', es2)" "es = es1 @ es2"
    using Cons.prems(1) one by (auto split: prod.splits)
  have "(\<forall>e \<in> set es1. ev_result e = MOJO_RESULT_CANCELLED) \<and> is_cancelled (watch_at t1 b)"
  proof -
    have "InvokeCallback b MOJO_RESULT_CANCELLED no_signals t = (t1, es1)" using one c by (simp add: run_finalizer_def)
    from InvokeCallback_effect(2,3) [OF this] show ?thesis by auto
  qed
  then show ?case using Cons.IH [OF rest(1)] Cons.prems(2) rest run_finalizers_cancelled [OF _ rest(1), of b] c by auto
qed simp

text \<open>When a request ends, the only event for a watch it cancelled is the cancellation.\<close>

lemma end_request_cancelled:
  assumes "end_request fs t = (t', es)" "WatchCancel a \<in> set fs" "e \<in> set es" "ev_watch e = a"
  shows "ev_result e = MOJO_RESULT_CANCELLED"
proof -
  let ?cs = "filter is_cancel fs"
  obtain t1 es1 where cs: "run_finalizers ?cs t = (t1, es1)" by (cases "run_finalizers ?cs t")
  obtain es2 where rest: "run_finalizers (filter (\<lambda>f. \<not> is_cancel f) fs) t1 = (t', es2)" "es = es1 @ es2"
    using assms(1) cs by (auto simp: end_request_def run_finalizers_append split: prod.splits)
  have "(\<forall>e \<in> set es1. ev_result e = MOJO_RESULT_CANCELLED) \<and> is_cancelled (watch_at t1 a)"
    using run_cancels [OF cs, of a] assms(2) by auto
  then show ?thesis using run_finalizers_cancelled [OF _ rest(1), of a] rest(2) assms(3,4) by auto
qed

section \<open>A race\<close>

text \<open>A closed dispatcher keeps its watchers, and may report a state while \<open>WatchDispatcher\<close> is between
  its sections; when \<open>AddWatcherRef\<close> then fails, the new watch stays in \<open>ready_watches\<close> although the
  trap gives up its references to it.\<close>

definition race1 :: "nat wsys" where
  "race1 = (snd (AddWatcherRef 1 0 10 demo_waiting demo_watched))\<lparr>w_calls := {Check 0 10 4}\<rparr>"

definition race2 :: "nat wsys" where
  "race2 = race1\<lparr>d_closed := {0}, w_trap := fst (ws_NotifyClosed (tell_closed 1 0) (w_sets race1 0) (w_trap race1, w_finals race1)),
     w_finals := snd (ws_NotifyClosed (tell_closed 1 0) (w_sets race1 0) (w_trap race1, w_finals race1))\<rparr>"

definition race3 :: "nat wsys" where
  "race3 = race2\<lparr>w_trap := snd (watch_insert 5 0 {READABLE} SIGNALS_SATISFIED 11 (w_trap race2)),
     w_calls := {Attach 0 11 5, Check 0 10 4}, w_used := {5, 4}\<rparr>"

definition race4 :: "nat wsys" where
  "race4 = (case ws_NotifyState (tell 1 0) no_signals (w_sets race3 0) (w_trap race3, w_finals race3) of
     (ws, t, fs) \<Rightarrow> race3\<lparr>w_sets := (w_sets race3)(0 := ws), w_trap := t, w_finals := fs\<rparr>)"

definition race5 :: "nat wsys" where
  "race5 = race4\<lparr>w_calls := {Undo 0 11 5, Check 0 10 4}\<rparr>"

definition race6 :: "nat wsys" where
  "race6 = race5\<lparr>w_trap := watch_undo 0 11 (w_trap race5), w_calls := {Check 0 10 4}, w_undone := {5}\<rparr>"

lemmas race_simps =
  demo_watched_def demo_system_def demo_trap_def watch_insert_def AddWatcherRef_def ws_Add_def WatcherSet_def ws_contexts_def
  tell_def NotifyHandleState_cases outcome_def due_def demo_waiting_def no_signals_def Watch_def Let_def ws_NotifyClosed_def
  tell_closed_def NotifyHandleClosed_def ws_NotifyState_def

lemma race1_state:
  "w_sets race1 0 = \<lparr>ws_watchers = [(1, {10})], last_known_state = None\<rparr>" "d_closed race1 = {}" "d_transit race1 = {}"
  "watched_handles (w_trap race1) = [0 \<mapsto> 4]" "tr_closed (w_trap race1) = False" "w_context (watch_at (w_trap race1) 4) = 10"
  "watches (w_trap race1) = [10 \<mapsto> 4]" "ready_watches (w_trap race1) = {}" "w_calls race1 = {Check 0 10 4}" "w_used race1 = {4}"
  "w_undone race1 = {}" "fst (AddWatcherRef 1 0 10 demo_waiting demo_watched) = MOJO_RESULT_OK"
  by (simp_all add: race1_def race_simps)

lemma race2_state:
  "w_sets race2 0 = \<lparr>ws_watchers = [(1, {10})], last_known_state = None\<rparr>" "d_closed race2 = {0}"
  "watched_handles (w_trap race2) = Map.empty" "tr_closed (w_trap race2) = False"
  "watches (w_trap race2) = Map.empty" "ready_watches (w_trap race2) = {}" "w_calls race2 = {Check 0 10 4}" "w_used race2 = {4}"
  "w_undone race2 = {}"
  by (simp_all add: race2_def race1_state ws_NotifyClosed_def tell_closed_def NotifyHandleClosed_def)

lemma race3_state:
  "w_sets race3 0 = \<lparr>ws_watchers = [(1, {10})], last_known_state = None\<rparr>" "d_closed race3 = {0}"
  "watched_handles (w_trap race3) = [0 \<mapsto> 5]" "tr_closed (w_trap race3) = False"
  "watch_at (w_trap race3) 5 = Watch 0 11 {READABLE} SIGNALS_SATISFIED" "ready_watches (w_trap race3) = {}"
  "w_calls race3 = {Attach 0 11 5, Check 0 10 4}" "w_undone race3 = {}"
  by (simp_all add: race3_def race2_state watch_insert_def)

lemma race4_state:
  "d_closed race4 = {0}" "watched_handles (w_trap race4) = [0 \<mapsto> 5]" "tr_closed (w_trap race4) = False"
  "ready_watches (w_trap race4) = {5}" "w_calls race4 = {Attach 0 11 5, Check 0 10 4}" "w_undone race4 = {}"
  by (simp_all add: race4_def race3_state ws_NotifyState_def tell_def NotifyHandleState_cases outcome_def due_def Watch_def
      no_signals_def Let_def)

lemma race_reachable: "watch_reachable 1 race6"
proof -
  have "Attach 0 10 4 \<in> w_calls demo_watched" by (simp add: demo_watched_def)
  from watch_step.attach [OF this, of 1 demo_waiting MOJO_RESULT_OK "snd (AddWatcherRef 1 0 10 demo_waiting demo_watched)"]
  have "watch_step 1 demo_watched race1"
    using race1_state(12) by (simp add: race1_def prod_eq_iff demo_watched_def)
  then have r1: "watch_reachable 1 race1" by (rule watch_reachable.stepped [OF demo_watched_reachable])
  have "watch_step 1 race1 race2"
    using watch_step.d_close [of 0 race1 1 "fst (ws_NotifyClosed (tell_closed 1 0) (w_sets race1 0) (w_trap race1, w_finals race1))"
        "snd (ws_NotifyClosed (tell_closed 1 0) (w_sets race1 0) (w_trap race1, w_finals race1))"]
    by (simp add: race2_def race1_state(2,3))
  then have r2: "watch_reachable 1 race2" by (rule watch_reachable.stepped [OF r1])
  have "watch_insert 5 0 {READABLE} SIGNALS_SATISFIED 11 (w_trap race2) =
      (MOJO_RESULT_OK, snd (watch_insert 5 0 {READABLE} SIGNALS_SATISFIED 11 (w_trap race2)))"
    by (simp add: watch_insert_def race2_state)
  from watch_step.watch [OF this, of 1] have "watch_step 1 race2 race3" by (simp add: race3_def race2_state)
  then have r3: "watch_reachable 1 race3" by (rule watch_reachable.stepped [OF r2])
  have "watch_step 1 race3 race4"
    using watch_step.change [of 1 0 no_signals race3] by (simp add: race4_def split: prod.splits)
  then have r4: "watch_reachable 1 race4" by (rule watch_reachable.stepped [OF r3])
  have "watch_step 1 race4 race5"
    using watch_step.attach [of 0 11 5 race4 1 no_signals MOJO_RESULT_INVALID_ARGUMENT race4]
    by (simp add: race5_def race4_state AddWatcherRef_def)
  then have r5: "watch_reachable 1 race5" by (rule watch_reachable.stepped [OF r4])
  have "watch_step 1 race5 race6"
    using watch_step.undo [of 0 11 5 race5 1] by (simp add: race6_def race5_def race4_state)
  then show ?thesis by (rule watch_reachable.stepped [OF r5])
qed

lemma dangling_ready_watch:
  "\<exists>s :: nat wsys. watch_reachable 1 s \<and> \<not> tr_closed (w_trap s) \<and> 5 \<in> ready_watches (w_trap s) \<and>
     5 \<notin> ran (watches (w_trap s)) \<union> ran (watched_handles (w_trap s)) \<and> (\<forall>f \<in> set (w_finals s). f \<noteq> WatchCancel 5)"
proof (intro exI conjI)
  show "watch_reachable 1 race6" by (rule race_reachable)
  show "\<not> tr_closed (w_trap race6)" "5 \<in> ready_watches (w_trap race6)"
    by (simp_all add: race6_def race5_def race4_state watch_undo_def)
  have "watches (w_trap race4) = [11 \<mapsto> 5]" "w_finals race4 = w_finals race3"
    by (simp_all add: race4_def race3_state ws_NotifyState_def tell_def NotifyHandleState_cases outcome_def due_def Watch_def
        no_signals_def Let_def race3_def race2_state watch_insert_def race2_def race1_def race_simps)
  then show "5 \<notin> ran (watches (w_trap race6)) \<union> ran (watched_handles (w_trap race6))"
    by (simp add: race6_def race5_def race4_state watch_undo_def ran_def)
  have "w_finals race3 = [WatchCancel 4]"
    by (simp add: race3_def race2_def race1_def race_simps)
  then show "\<forall>f \<in> set (w_finals race6). f \<noteq> WatchCancel 5"
    using \<open>w_finals race4 = w_finals race3\<close> by (simp add: race6_def race5_def)
qed

text \<open>\<open>RemoveWatcherRef\<close> refuses a dispatcher in transit, so a trigger removed then leaves its entry behind:
  after the transit is cancelled, the same context cannot be added again.\<close>

lemma stale_watcher_entry:
  assumes "d \<in> d_transit s" "context \<in> ws_contexts me (w_sets s d)"
    "w_sets s' d = w_sets (snd (RemoveWatcherRef me d context s)) d" "d \<notin> d_closed s'" "d \<notin> d_transit s'"
  shows "fst (AddWatcherRef me d context state s') = MOJO_RESULT_ALREADY_EXISTS"
proof -
  have "w_sets s' d = w_sets s d" using assms(1,3) by (simp add: RemoveWatcherRef_def)
  moreover obtain contexts where "map_of (ws_watchers (w_sets s d)) me = Some contexts"
    using assms(2) by (auto simp: ws_contexts_def split: option.splits)
  ultimately show ?thesis using assms(2,4,5) by (simp add: AddWatcherRef_def ws_Add_def Let_def split_beta)
qed

end
