(* ===== verification/Byte_Encoding.thy ===== *)
theory Byte_Encoding
  imports Sparo_Prelude "HOL-Library.Monad_Syntax"
begin

text \<open>
  Packed structures in a buffer, as a little-endian machine lays them out.  A reader consumes
  bytes; \<open>None\<close> is a read past the end of the buffer.  The interface of a packed type, what an
  array of it gets from it, and the words.
\<close>

type_synonym 'a reader = "u8 list \<Rightarrow> ('a \<times> u8 list) option"

fun read_array :: "'a reader \<Rightarrow> nat \<Rightarrow> 'a list reader" where
  "read_array get 0 bs = Some ([], bs)"
| "read_array get (Suc n) bs = do {
     (x, bs) \<leftarrow> get bs;
     (xs, bs) \<leftarrow> read_array get n bs;
     Some (x # xs, bs)
   }"

text \<open>A reader that takes exactly \<open>n\<close> bytes, whatever they are.\<close>

definition reads :: "'a reader \<Rightarrow> nat \<Rightarrow> bool" where
  "reads get n \<longleftrightarrow> (\<forall>bs. n \<le> length bs \<longrightarrow> (\<exists>x. get bs = Some (x, drop n bs)))"

lemma reads_return: "reads (\<lambda>bs. Some (x, bs)) 0"
  by (simp add: reads_def)

lemma reads_bind:
  assumes "reads get m" "\<And>x. reads (g x) n"
  shows "reads (\<lambda>bs. do { (x, bs) \<leftarrow> get bs; g x bs }) (m + n)"
  unfolding reads_def
proof (intro allI impI)
  fix bs :: "u8 list" assume "m + n \<le> length bs"
  then have len: "m \<le> length bs" "n \<le> length (drop m bs)" by simp_all
  obtain x where x: "get bs = Some (x, drop m bs)" using assms(1) len(1) unfolding reads_def by blast
  obtain y where "g x (drop m bs) = Some (y, drop n (drop m bs))" using assms(2) len(2) unfolding reads_def by blast
  then show "\<exists>y. do { (x, bs) \<leftarrow> get bs; g x bs } = Some (y, drop (m + n) bs)" using x by (auto simp: add.commute)
qed

definition put_array :: "('a \<Rightarrow> u8 list) \<Rightarrow> 'a list \<Rightarrow> u8 list" where
  "put_array put xs = concat (map put xs)"

locale packed =
  fixes put :: "'a \<Rightarrow> u8 list" and get :: "'a reader" and sz :: nat
  assumes put_length [simp]: "length (put x) = sz"
    and get_put [simp]: "get (put x @ rest) = Some (x, rest)"
    and get_reads: "reads get sz"
begin

lemma get_total: "sz \<le> length bs \<Longrightarrow> \<exists>x. get bs = Some (x, drop sz bs)"
  using get_reads by (simp add: reads_def)

lemma get_at:
  assumes "i + sz \<le> length bs"
  shows "\<exists>x. get (drop i bs) = Some (x, drop (i + sz) bs)"
  using get_total [of "drop i bs"] assms by (simp add: add.commute)

lemma put_array_length [simp]: "length (put_array put xs) = length xs * sz"
  by (induction xs) (simp_all add: put_array_def)

lemma array_round_trip [simp]: "read_array get (length xs) (put_array put xs @ rest) = Some (xs, rest)"
  by (induction xs) (simp_all add: put_array_def)

lemma array_total: "n * sz \<le> length bs \<Longrightarrow> \<exists>xs. read_array get n bs = Some (xs, drop (n * sz) bs) \<and> length xs = n"
proof (induction n arbitrary: bs)
  case (Suc n)
  obtain x where x: "get bs = Some (x, drop sz bs)" using get_total [of bs] Suc.prems by auto
  have "n * sz \<le> length (drop sz bs)" using Suc.prems by simp
  then obtain xs where "read_array get n (drop sz bs) = Some (xs, drop (n * sz) (drop sz bs))" "length xs = n"
    using Suc.IH by blast
  then show ?case using x by (auto simp: add.commute)
qed simp

end

section \<open>Words\<close>

fun le_bytes :: "nat \<Rightarrow> nat \<Rightarrow> u8 list" where
  "le_bytes 0 x = []"
| "le_bytes (Suc n) x = of_nat (x mod 256) # le_bytes n (x div 256)"

fun from_le :: "u8 list \<Rightarrow> nat" where
  "from_le [] = 0"
| "from_le (b # bs) = unat b + 256 * from_le bs"

lemma length_le_bytes [simp]: "length (le_bytes n x) = n"
  by (induction n arbitrary: x) simp_all

lemma from_le_bytes: "from_le (le_bytes n x) = x mod 256 ^ n"
proof (induction n arbitrary: x)
  case (Suc n)
  have "unat (of_nat (x mod 256) :: u8) = x mod 256" by (simp add: unat_of_nat)
  then show ?case using Suc by (simp add: mod_mult2_eq)
qed simp

definition read_le :: "nat \<Rightarrow> nat reader" where
  "read_le n bs = (if n \<le> length bs then Some (from_le (take n bs), drop n bs) else None)"

lemma read_le_put [simp]: "read_le n (le_bytes n x @ rest) = Some (x mod 256 ^ n, rest)"
  by (simp add: read_le_def from_le_bytes)

definition put32 :: "u32 \<Rightarrow> u8 list" where
  "put32 x = le_bytes 4 (unat x)"

definition get32 :: "u32 reader" where
  "get32 bs = map_option (\<lambda>(x, bs). (of_nat x, bs)) (read_le 4 bs)"

definition put64 :: "u64 \<Rightarrow> u8 list" where
  "put64 x = le_bytes 8 (unat x)"

definition get64 :: "u64 reader" where
  "get64 bs = map_option (\<lambda>(x, bs). (of_nat x, bs)) (read_le 8 bs)"

definition put8 :: "u8 \<Rightarrow> u8 list" where
  "put8 x = [x]"

fun get8 :: "u8 reader" where
  "get8 (b # bs) = Some (b, bs)"
| "get8 [] = None"

interpretation p32: packed put32 get32 4
proof
  fix x :: u32
  have "unat x < 256 ^ 4" using unsigned_less [of x, where 'a = nat] by simp
  then show "get32 (put32 x @ rest) = Some (x, rest)" for rest by (simp add: put32_def get32_def)
qed (simp_all add: put32_def get32_def read_le_def reads_def)

interpretation p64: packed put64 get64 8
proof
  fix x :: u64
  have "unat x < 256 ^ 8" using unsigned_less [of x, where 'a = nat] by simp
  then show "get64 (put64 x @ rest) = Some (x, rest)" for rest by (simp add: put64_def get64_def)
qed (simp_all add: put64_def get64_def read_le_def reads_def)

interpretation p8: packed put8 get8 1
proof
  have "\<exists>x. get8 bs = Some (x, drop 1 bs)" if "1 \<le> length bs" for bs using that by (cases bs) auto
  then show "reads get8 1" by (simp add: reads_def)
qed (simp_all add: put8_def)

definition put56 :: "56 word \<Rightarrow> u8 list" where
  "put56 x = le_bytes 7 (unat x)"

definition get56 :: "56 word reader" where
  "get56 bs = map_option (\<lambda>(x, bs). (of_nat x, bs)) (read_le 7 bs)"

interpretation p56: packed put56 get56 7
proof
  fix x :: "56 word"
  have "unat x < 256 ^ 7" using unsigned_less [of x, where 'a = nat] by simp
  then show "get56 (put56 x @ rest) = Some (x, rest)" for rest by (simp add: put56_def get56_def)
qed (simp_all add: put56_def get56_def read_le_def reads_def)

end
