(* ===== verification/Port_Events.thy ===== *)
theory Port_Events
  imports Byte_Encoding Checked_Math
begin

text \<open>
  The events nodes exchange, \<open>mojo/core/ports/event.cc\<close>: their serialized form and the parser of
  what another process sent.  The buffer is a list of bytes; the outer \<open>None\<close> of a parser is a
  read past its end, the inner one the null pointer.  \<open>backwards\<close> is \<open>MOJO_BACKWARDS_COMPAT\<close>.
\<close>

section \<open>Names and descriptors\<close>

record port_name =
  v1 :: u64
  v2 :: u64

definition kInvalidPortName :: port_name where
  "kInvalidPortName = \<lparr>v1 = 0, v2 = 0\<rparr>"

definition put_name :: "port_name \<Rightarrow> u8 list" where
  "put_name n = put64 (v1 n) @ put64 (v2 n)"

definition get_name :: "port_name reader" where
  "get_name bs = do {
     (a, bs) \<leftarrow> get64 bs;
     (b, bs) \<leftarrow> get64 bs;
     Some (\<lparr>v1 = a, v2 = b\<rparr>, bs)
   }"

text \<open>\<open>Event::PortDescriptor\<close>; the seven bytes of padding are one number.  The \<open>bool\<close> is the byte that is
  stored for it: descriptors are copied as a whole, without a look at it.  What a read of the member gives is
  \<open>peer_closed_flag\<close>, where \<open>None\<close> is the undefined read of a \<open>bool\<close> whose byte is neither 0 nor 1.\<close>

record port_descriptor =
  pd_peer_node_name :: port_name
  pd_peer_port_name :: port_name
  referring_node_name :: port_name
  referring_port_name :: port_name
  next_sequence_num_to_send :: u64
  next_sequence_num_to_receive :: u64
  last_sequence_num_to_receive :: u64
  pd_peer_closed :: u8
  pd_padding :: "56 word"

definition peer_closed_flag :: "port_descriptor \<Rightarrow> bool option" where
  "peer_closed_flag d = (if pd_peer_closed d = 0 then Some False else if pd_peer_closed d = 1 then Some True else None)"

definition put_descriptor :: "port_descriptor \<Rightarrow> u8 list" where
  "put_descriptor d =
     put_name (pd_peer_node_name d) @ put_name (pd_peer_port_name d) @ put_name (referring_node_name d) @
     put_name (referring_port_name d) @ put64 (next_sequence_num_to_send d) @ put64 (next_sequence_num_to_receive d) @
     put64 (last_sequence_num_to_receive d) @ put8 (pd_peer_closed d) @ put56 (pd_padding d)"

definition get_descriptor :: "port_descriptor reader" where
  "get_descriptor bs = do {
     (a, bs) \<leftarrow> get_name bs;
     (b, bs) \<leftarrow> get_name bs;
     (c, bs) \<leftarrow> get_name bs;
     (d, bs) \<leftarrow> get_name bs;
     (e, bs) \<leftarrow> get64 bs;
     (f, bs) \<leftarrow> get64 bs;
     (g, bs) \<leftarrow> get64 bs;
     (h, bs) \<leftarrow> get8 bs;
     (i, bs) \<leftarrow> get56 bs;
     Some (\<lparr>pd_peer_node_name = a, pd_peer_port_name = b, referring_node_name = c, referring_port_name = d,
            next_sequence_num_to_send = e, next_sequence_num_to_receive = f, last_sequence_num_to_receive = g,
            pd_peer_closed = h, pd_padding = i\<rparr>, bs)
   }"

definition sizeof_PortName :: nat where "sizeof_PortName = 16"
definition sizeof_PortDescriptor :: nat where "sizeof_PortDescriptor = 96"

interpretation pname: packed put_name get_name 16
proof
  have "reads get_name (8 + (8 + 0))"
    unfolding get_name_def by (intro reads_bind reads_return p64.get_reads)
  then show "reads get_name 16" by simp
qed (simp_all add: put_name_def get_name_def)

interpretation pdesc: packed put_descriptor get_descriptor 96
proof
  have "reads get_descriptor (16 + (16 + (16 + (16 + (8 + (8 + (8 + (1 + (7 + 0)))))))))"
    unfolding get_descriptor_def
    by (intro reads_bind reads_return pname.get_reads p64.get_reads p8.get_reads p56.get_reads)
  then show "reads get_descriptor 96" by simp
qed (simp_all add: put_descriptor_def get_descriptor_def)

section \<open>Events\<close>

record event_header =
  ev_port_name :: port_name
  ev_from_port :: port_name
  ev_control_sequence_num :: u64

datatype event_data =
    UserMessage u64 "port_descriptor list" "port_name list"
  | PortAccepted
  | ObserveProxy port_name port_name port_name port_name
  | ObserveProxyAck u64
  | ObserveClosure u64
  | MergePort port_name port_descriptor
  | UserMessageReadAckRequest u64
  | UserMessageReadAck u64
  | UpdatePreviousPeer port_name port_name

type_synonym port_event = "event_header \<times> event_data"

fun event_type :: "event_data \<Rightarrow> u32" where
  "event_type (UserMessage _ _ _) = 0"
| "event_type PortAccepted = 1"
| "event_type (ObserveProxy _ _ _ _) = 2"
| "event_type (ObserveProxyAck _) = 3"
| "event_type (ObserveClosure _) = 4"
| "event_type (MergePort _ _) = 5"
| "event_type (UserMessageReadAckRequest _) = 6"
| "event_type (UserMessageReadAck _) = 7"
| "event_type (UpdatePreviousPeer _ _) = 8"

definition sizeof_SerializedHeader :: "bool \<Rightarrow> nat" where
  "sizeof_SerializedHeader backwards = (if backwards then 24 else 48)"

text \<open>\<open>base::CheckedNumeric<size_t>\<close>: the product and the sum.\<close>

definition CheckMul64 :: "math_build \<Rightarrow> nat \<Rightarrow> nat \<Rightarrow> nat option" where
  "CheckMul64 b m n =
     (case CheckedMulOp b uint64_t uint64_t uint64_t (int m) (int n) 0 of
        (is_valid, r) \<Rightarrow> if is_valid then Some (nat r) else None)"

definition CheckAdd64 :: "math_build \<Rightarrow> nat \<Rightarrow> nat \<Rightarrow> nat option" where
  "CheckAdd64 b m n =
     (case CheckedAddOp b uint64_t uint64_t uint64_t (int m) (int n) 0 of
        (is_valid, r) \<Rightarrow> if is_valid then Some (nat r) else None)"

definition sizeof_UserMessageEventData :: nat where "sizeof_UserMessageEventData = 16"
definition sizeof_ObserveProxyEventData :: nat where "sizeof_ObserveProxyEventData = 64"
definition sizeof_ObserveProxyAckEventData :: nat where "sizeof_ObserveProxyAckEventData = 8"
definition sizeof_ObserveClosureEventData :: nat where "sizeof_ObserveClosureEventData = 8"
definition sizeof_MergePortEventData :: nat where "sizeof_MergePortEventData = 112"
definition sizeof_UserMessageReadAckRequestEventData :: nat where "sizeof_UserMessageReadAckRequestEventData = 8"
definition sizeof_UserMessageReadAckEventData :: nat where "sizeof_UserMessageReadAckEventData = 8"
definition sizeof_UpdatePreviousPeerEventData :: nat where "sizeof_UpdatePreviousPeerEventData = 32"

lemmas sizeof_defs [simp] = sizeof_PortName_def sizeof_PortDescriptor_def sizeof_UserMessageEventData_def sizeof_ObserveProxyEventData_def
  sizeof_ObserveProxyAckEventData_def sizeof_ObserveClosureEventData_def sizeof_MergePortEventData_def
  sizeof_UserMessageReadAckRequestEventData_def sizeof_UserMessageReadAckEventData_def sizeof_UpdatePreviousPeerEventData_def

text \<open>\<open>GetSerializedDataSize\<close>; \<open>None\<close> is a failed \<open>ValueOrDie\<close>.\<close>

definition UserMessageEvent_GetSerializedDataSize :: "math_build \<Rightarrow> port_name list \<Rightarrow> nat option" where
  "UserMessageEvent_GetSerializedDataSize b ports = do {
     ports_size \<leftarrow> CheckMul64 b (sizeof_PortDescriptor + sizeof_PortName) (length ports);
     CheckAdd64 b sizeof_UserMessageEventData ports_size
   }"

fun GetSerializedDataSize :: "math_build \<Rightarrow> event_data \<Rightarrow> nat option" where
  "GetSerializedDataSize b (UserMessage _ _ ports) = UserMessageEvent_GetSerializedDataSize b ports"
| "GetSerializedDataSize b PortAccepted = Some 0"
| "GetSerializedDataSize b (ObserveProxy _ _ _ _) = Some sizeof_ObserveProxyEventData"
| "GetSerializedDataSize b (ObserveProxyAck _) = Some sizeof_ObserveProxyAckEventData"
| "GetSerializedDataSize b (ObserveClosure _) = Some sizeof_ObserveClosureEventData"
| "GetSerializedDataSize b (MergePort _ _) = Some sizeof_MergePortEventData"
| "GetSerializedDataSize b (UserMessageReadAckRequest _) = Some sizeof_UserMessageReadAckRequestEventData"
| "GetSerializedDataSize b (UserMessageReadAck _) = Some sizeof_UserMessageReadAckEventData"
| "GetSerializedDataSize b (UpdatePreviousPeer _ _) = Some sizeof_UpdatePreviousPeerEventData"

definition GetSerializedSize :: "bool \<Rightarrow> math_build \<Rightarrow> port_event \<Rightarrow> nat option" where
  "GetSerializedSize backwards b e = map_option (\<lambda>n. sizeof_SerializedHeader backwards + n) (GetSerializedDataSize b (snd e))"

definition UserMessageEvent_SerializeData :: "u64 \<Rightarrow> port_descriptor list \<Rightarrow> port_name list \<Rightarrow> u8 list" where
  "UserMessageEvent_SerializeData sequence_num descriptors ports =
     put64 sequence_num @ put32 (of_nat (length ports)) @ put32 0 @
     put_array put_descriptor descriptors @ put_array put_name ports"

definition ObserveProxyEvent_SerializeData :: "port_name \<Rightarrow> port_name \<Rightarrow> port_name \<Rightarrow> port_name \<Rightarrow> u8 list" where
  "ObserveProxyEvent_SerializeData proxy_node_name proxy_port_name proxy_target_node_name proxy_target_port_name =
     put_name proxy_node_name @ put_name proxy_port_name @ put_name proxy_target_node_name @ put_name proxy_target_port_name"

definition ObserveProxyAckEvent_SerializeData :: "u64 \<Rightarrow> u8 list" where
  "ObserveProxyAckEvent_SerializeData last_sequence_num = put64 last_sequence_num"

definition ObserveClosureEvent_SerializeData :: "u64 \<Rightarrow> u8 list" where
  "ObserveClosureEvent_SerializeData last_sequence_num = put64 last_sequence_num"

definition MergePortEvent_SerializeData :: "port_name \<Rightarrow> port_descriptor \<Rightarrow> u8 list" where
  "MergePortEvent_SerializeData new_port_name new_port_descriptor = put_name new_port_name @ put_descriptor new_port_descriptor"

definition UserMessageReadAckRequestEvent_SerializeData :: "u64 \<Rightarrow> u8 list" where
  "UserMessageReadAckRequestEvent_SerializeData sequence_num_to_acknowledge = put64 sequence_num_to_acknowledge"

definition UserMessageReadAckEvent_SerializeData :: "u64 \<Rightarrow> u8 list" where
  "UserMessageReadAckEvent_SerializeData sequence_num_acknowledged = put64 sequence_num_acknowledged"

definition UpdatePreviousPeerEvent_SerializeData :: "port_name \<Rightarrow> port_name \<Rightarrow> u8 list" where
  "UpdatePreviousPeerEvent_SerializeData new_node_name new_port_name = put_name new_node_name @ put_name new_port_name"

lemmas serialize_data_defs [simp] = UserMessageEvent_SerializeData_def ObserveProxyEvent_SerializeData_def ObserveProxyAckEvent_SerializeData_def
  ObserveClosureEvent_SerializeData_def MergePortEvent_SerializeData_def UserMessageReadAckRequestEvent_SerializeData_def
  UserMessageReadAckEvent_SerializeData_def UpdatePreviousPeerEvent_SerializeData_def

fun SerializeData :: "event_data \<Rightarrow> u8 list" where
  "SerializeData (UserMessage n ds ps) = UserMessageEvent_SerializeData n ds ps"
| "SerializeData PortAccepted = []"
| "SerializeData (ObserveProxy a b c d) = ObserveProxyEvent_SerializeData a b c d"
| "SerializeData (ObserveProxyAck n) = ObserveProxyAckEvent_SerializeData n"
| "SerializeData (ObserveClosure n) = ObserveClosureEvent_SerializeData n"
| "SerializeData (MergePort n d) = MergePortEvent_SerializeData n d"
| "SerializeData (UserMessageReadAckRequest n) = UserMessageReadAckRequestEvent_SerializeData n"
| "SerializeData (UserMessageReadAck n) = UserMessageReadAckEvent_SerializeData n"
| "SerializeData (UpdatePreviousPeer n p) = UpdatePreviousPeerEvent_SerializeData n p"

definition ev_Serialize :: "bool \<Rightarrow> port_event \<Rightarrow> u8 list" where
  "ev_Serialize backwards e =
     put32 (event_type (snd e)) @ put32 0 @ put_name (ev_port_name (fst e)) @
     (if backwards then [] else put_name (ev_from_port (fst e)) @ put64 (ev_control_sequence_num (fst e))) @
     SerializeData (snd e)"

section \<open>Parsing\<close>

definition UserMessageEvent_Deserialize :: "math_build \<Rightarrow> u8 list \<Rightarrow> event_data option option" where
  "UserMessageEvent_Deserialize b buffer =
     (if length buffer < sizeof_UserMessageEventData then Some None
      else do {
        (sequence_num, rest) \<leftarrow> get64 buffer;
        (num_ports, rest) \<leftarrow> get32 rest;
        (padding, rest) \<leftarrow> get32 rest;
        case CheckMul64 b (unat num_ports) (sizeof_PortDescriptor + sizeof_PortName) of
          None \<Rightarrow> Some None
        | Some port_data_size \<Rightarrow>
            case CheckAdd64 b port_data_size sizeof_UserMessageEventData of
              None \<Rightarrow> Some None
            | Some total_size \<Rightarrow>
                if length buffer < total_size then Some None
                else do {
                  (descriptors, rest) \<leftarrow> read_array get_descriptor (unat num_ports) rest;
                  (ports, rest) \<leftarrow> read_array get_name (unat num_ports) rest;
                  Some (Some (UserMessage sequence_num descriptors ports))
                }
      })"

definition PortAcceptedEvent_Deserialize :: "u8 list \<Rightarrow> event_data option option" where
  "PortAcceptedEvent_Deserialize buffer = Some (Some PortAccepted)"

definition ObserveProxyEvent_Deserialize :: "u8 list \<Rightarrow> event_data option option" where
  "ObserveProxyEvent_Deserialize buffer =
     (if length buffer < sizeof_ObserveProxyEventData then Some None
      else do {
        (a, rest) \<leftarrow> get_name buffer;
        (b, rest) \<leftarrow> get_name rest;
        (c, rest) \<leftarrow> get_name rest;
        (d, rest) \<leftarrow> get_name rest;
        Some (Some (ObserveProxy a b c d))
      })"

definition ObserveProxyAckEvent_Deserialize :: "u8 list \<Rightarrow> event_data option option" where
  "ObserveProxyAckEvent_Deserialize buffer =
     (if length buffer < sizeof_ObserveProxyAckEventData then Some None
      else do { (n, rest) \<leftarrow> get64 buffer; Some (Some (ObserveProxyAck n)) })"

definition ObserveClosureEvent_Deserialize :: "u8 list \<Rightarrow> event_data option option" where
  "ObserveClosureEvent_Deserialize buffer =
     (if length buffer < sizeof_ObserveClosureEventData then Some None
      else do { (n, rest) \<leftarrow> get64 buffer; Some (Some (ObserveClosure n)) })"

definition MergePortEvent_Deserialize :: "u8 list \<Rightarrow> event_data option option" where
  "MergePortEvent_Deserialize buffer =
     (if length buffer < sizeof_MergePortEventData then Some None
      else do { (n, rest) \<leftarrow> get_name buffer; (d, rest) \<leftarrow> get_descriptor rest; Some (Some (MergePort n d)) })"

definition UserMessageReadAckRequestEvent_Deserialize :: "u8 list \<Rightarrow> event_data option option" where
  "UserMessageReadAckRequestEvent_Deserialize buffer =
     (if length buffer < sizeof_UserMessageReadAckRequestEventData then Some None
      else do { (n, rest) \<leftarrow> get64 buffer; Some (Some (UserMessageReadAckRequest n)) })"

definition UserMessageReadAckEvent_Deserialize :: "u8 list \<Rightarrow> event_data option option" where
  "UserMessageReadAckEvent_Deserialize buffer =
     (if length buffer < sizeof_UserMessageReadAckEventData then Some None
      else do { (n, rest) \<leftarrow> get64 buffer; Some (Some (UserMessageReadAck n)) })"

definition UpdatePreviousPeerEvent_Deserialize :: "u8 list \<Rightarrow> event_data option option" where
  "UpdatePreviousPeerEvent_Deserialize buffer =
     (if length buffer < sizeof_UpdatePreviousPeerEventData then Some None
      else do { (n, rest) \<leftarrow> get_name buffer; (p, rest) \<leftarrow> get_name rest; Some (Some (UpdatePreviousPeer n p)) })"

definition deserialize_data :: "math_build \<Rightarrow> u32 \<Rightarrow> u8 list \<Rightarrow> event_data option option" where
  "deserialize_data b t buffer =
     (if t = 0 then UserMessageEvent_Deserialize b buffer
      else if t = 1 then PortAcceptedEvent_Deserialize buffer
      else if t = 2 then ObserveProxyEvent_Deserialize buffer
      else if t = 3 then ObserveProxyAckEvent_Deserialize buffer
      else if t = 4 then ObserveClosureEvent_Deserialize buffer
      else if t = 5 then MergePortEvent_Deserialize buffer
      else if t = 6 then UserMessageReadAckRequestEvent_Deserialize buffer
      else if t = 7 then UserMessageReadAckEvent_Deserialize buffer
      else if t = 8 then UpdatePreviousPeerEvent_Deserialize buffer
      else Some None)"

definition ev_Deserialize :: "bool \<Rightarrow> math_build \<Rightarrow> u8 list \<Rightarrow> port_event option option" where
  "ev_Deserialize backwards b buffer =
     (if length buffer < sizeof_SerializedHeader backwards then Some None
      else do {
        (t, rest) \<leftarrow> get32 buffer;
        (padding, rest) \<leftarrow> get32 rest;
        (port_name, rest) \<leftarrow> get_name rest;
        (from_port, control_sequence_num, rest) \<leftarrow>
          (if backwards then Some (kInvalidPortName, - 1, rest)
           else do { (p, rest) \<leftarrow> get_name rest; (n, rest) \<leftarrow> get64 rest; Some (p, n, rest) });
        data \<leftarrow> deserialize_data b t rest;
        Some (map_option (\<lambda>d. (\<lparr>ev_port_name = port_name, ev_from_port = from_port,
          ev_control_sequence_num = control_sequence_num\<rparr>, d)) data)
      })"

text \<open>\<open>CloneForBroadcast\<close>: only events for no port in particular.\<close>

definition CloneForBroadcast :: "port_event \<Rightarrow> port_event option" where
  "CloneForBroadcast e =
     (case snd e of
        ObserveProxy a b c d \<Rightarrow> if ev_port_name (fst e) \<noteq> kInvalidPortName then None else Some (fst e, ObserveProxy a b c d)
      | _ \<Rightarrow> None)"

section \<open>Correctness\<close>

lemma u64_in_type: "in_type uint64_t x \<longleftrightarrow> 0 \<le> x \<and> x < 2 ^ 64"
  by (auto simp: in_type_def type_max_def type_lowest_def digits_def)

lemma check64_exact:
  assumes "m < 2 ^ 64" "n < 2 ^ 64"
  shows "CheckMul64 b m n = (if m * n < 2 ^ 64 then Some (m * n) else None)"
    "CheckAdd64 b m n = (if m + n < 2 ^ 64 then Some (m + n) else None)"
proof -
  have in64: "in_type uint64_t (int m)" "in_type uint64_t (int n)" using assms by (auto simp: u64_in_type)
  have ok: "dst_ok uint64_t uint64_t uint64_t" "complete_for b uint64_t uint64_t"
    by (simp_all add: dst_ok_def complete_for_def promotion_defs Let_def)
  have fits: "in_type uint64_t (int m * int n) \<longleftrightarrow> m * n < 2 ^ 64" "in_type uint64_t (int m + int n) \<longleftrightarrow> m + n < 2 ^ 64"
    using of_nat_less_iff [of "m * n" "2 ^ 64", where 'a = int] of_nat_less_iff [of "m + n" "2 ^ 64", where 'a = int]
    by (simp_all add: u64_in_type)
  let ?mul = "CheckedMulOp b uint64_t uint64_t uint64_t (int m) (int n) 0"
  let ?add = "CheckedAddOp b uint64_t uint64_t uint64_t (int m) (int n) 0"
  have mul: "?mul = (True, int (m * n))" if "m * n < 2 ^ 64"
    using arith_complete(3) [OF in64 ok, of 0] fits(1) that by simp
  have no_mul: "\<not> fst ?mul" if "\<not> m * n < 2 ^ 64"
  proof
    assume "fst ?mul"
    then have "?mul = (True, snd ?mul)" by (simp add: prod_eq_iff)
    from mul_sound [OF in64 this] show False using that fits(1) by auto
  qed
  show "CheckMul64 b m n = (if m * n < 2 ^ 64 then Some (m * n) else None)"
    using mul no_mul by (cases "m * n < 2 ^ 64") (auto simp: CheckMul64_def split_beta simp del: of_nat_mult)
  have add: "?add = (True, int (m + n))" if "m + n < 2 ^ 64"
    using arith_complete(1) [OF in64 ok, of 0] fits(2) that by simp
  have no_add: "\<not> fst ?add" if "\<not> m + n < 2 ^ 64"
  proof
    assume "fst ?add"
    then have "?add = (True, snd ?add)" by (simp add: prod_eq_iff)
    from add_sound [OF in64 this] show False using that fits(2) by auto
  qed
  show "CheckAdd64 b m n = (if m + n < 2 ^ 64 then Some (m + n) else None)"
    using add no_add by (cases "m + n < 2 ^ 64") (auto simp: CheckAdd64_def split_beta simp del: of_nat_add)
qed

text \<open>The events the code builds: a message has a descriptor for every port, and fewer than \<open>2 ^ 32\<close> ports.\<close>

fun event_wf :: "event_data \<Rightarrow> bool" where
  "event_wf (UserMessage _ ds ps) \<longleftrightarrow> length ds = length ps \<and> length ps < 2 ^ 32"
| "event_wf _ \<longleftrightarrow> True"

lemma serialized_length: "event_wf d \<Longrightarrow> GetSerializedDataSize b d = Some (length (SerializeData d))"
proof (cases d)
  case (UserMessage n ds ps)
  assume "event_wf d"
  then have len: "length ds = length ps" "length ps < 2 ^ 32" using UserMessage by simp_all
  then have "112 * length ps + 16 < (2 :: nat) ^ 64" by simp
  then show ?thesis
    using UserMessage len check64_exact(1) [of 112 "length ps" b] check64_exact(2) [of 16 "112 * length ps" b]
    by (simp add: UserMessageEvent_GetSerializedDataSize_def)
qed simp_all

lemma data_round_trip:
  assumes "event_wf d"
  shows "deserialize_data b (event_type d) (SerializeData d @ payload) = Some (Some d)"
proof (cases d)
  case (UserMessage n ds ps)
  have len: "length ds = length ps" "length ps < 2 ^ 32" using UserMessage assms by simp_all
  then have "unat (of_nat (length ps) :: u32) = length ps" by (simp add: unat_of_nat)
  moreover have "length ps * 112 + 16 < (2 :: nat) ^ 64" using len(2) by simp
  then have "CheckMul64 b (length ps) 112 = Some (length ps * 112)" "CheckAdd64 b (length ps * 112) 16 = Some (length ps * 112 + 16)"
    using len(2) by (simp_all add: check64_exact)
  moreover have "read_array get_descriptor (length ps) (put_array put_descriptor ds @ rest) = Some (ds, rest)" for rest
    using pdesc.array_round_trip [of ds rest] len(1) by simp
  ultimately show ?thesis
    using UserMessage len(1)
    by (simp add: deserialize_data_def UserMessageEvent_Deserialize_def)
qed (simp_all add: deserialize_data_def PortAcceptedEvent_Deserialize_def ObserveProxyEvent_Deserialize_def
    ObserveProxyAckEvent_Deserialize_def ObserveClosureEvent_Deserialize_def MergePortEvent_Deserialize_def
    UserMessageReadAckRequestEvent_Deserialize_def UserMessageReadAckEvent_Deserialize_def UpdatePreviousPeerEvent_Deserialize_def)

text \<open>What arrives of an event: an old peer does not send the sender and its control number.\<close>

definition as_received :: "bool \<Rightarrow> port_event \<Rightarrow> port_event" where
  "as_received backwards e =
     ((if backwards then (fst e)\<lparr>ev_from_port := kInvalidPortName, ev_control_sequence_num := - 1\<rparr> else fst e), snd e)"

lemma header_length: "length (ev_Serialize backwards e) = sizeof_SerializedHeader backwards + length (SerializeData (snd e))"
  by (simp add: ev_Serialize_def sizeof_SerializedHeader_def)

text \<open>C33: Serializing an event and parsing the bytes gives the event back, also with a payload behind it,
  in both variants of the header and every build of the checked arithmetic; the size announced for the
  buffer is the number of bytes written.\<close>

theorem event_round_trip:
  assumes "event_wf (snd e)"
  shows "GetSerializedSize backwards b e = Some (length (ev_Serialize backwards e)) \<and>
    ev_Deserialize backwards b (ev_Serialize backwards e @ payload) = Some (Some (as_received backwards e))"
proof
  show "GetSerializedSize backwards b e = Some (length (ev_Serialize backwards e))"
    using serialized_length [OF assms, of b] by (simp add: GetSerializedSize_def header_length)
  show "ev_Deserialize backwards b (ev_Serialize backwards e @ payload) = Some (Some (as_received backwards e))"
    using data_round_trip [OF assms, of b]
    by (cases backwards) (simp_all add: ev_Deserialize_def ev_Serialize_def sizeof_SerializedHeader_def as_received_def prod_eq_iff)
qed

theorem event_round_trip_witness:
  "ev_Deserialize False Gcc (ev_Serialize False (\<lparr>ev_port_name = kInvalidPortName, ev_from_port = kInvalidPortName,
     ev_control_sequence_num = 5\<rparr>, ObserveClosure 9) @ [1, 2]) =
   Some (Some (\<lparr>ev_port_name = kInvalidPortName, ev_from_port = kInvalidPortName, ev_control_sequence_num = 5\<rparr>, ObserveClosure 9))"
  using event_round_trip [of "(\<lparr>ev_port_name = kInvalidPortName, ev_from_port = kInvalidPortName,
     ev_control_sequence_num = 5\<rparr>, ObserveClosure 9)" False Gcc "[1, 2]"]
  by (simp add: header_length sizeof_SerializedHeader_def as_received_def)

section \<open>Bytes from another process\<close>

lemma user_message_safe:
  "UserMessageEvent_Deserialize b buffer = Some None \<or>
    (\<exists>n ds ps. UserMessageEvent_Deserialize b buffer = Some (Some (UserMessage n ds ps)) \<and>
      length ds = length ps \<and> length ps < 2 ^ 32 \<and> 16 + length ps * 112 \<le> length buffer)"
proof (cases "length buffer < 16")
  case True
  then show ?thesis by (simp add: UserMessageEvent_Deserialize_def)
next
  case False
  obtain n where n: "get64 buffer = Some (n, drop 8 buffer)" using p64.get_total [of buffer] False by auto
  have "4 \<le> length (drop 8 buffer)" "4 \<le> length (drop 12 buffer)" using False by simp_all
  then obtain k p where k: "get32 (drop 8 buffer) = Some (k, drop 12 buffer)" and p: "get32 (drop 12 buffer) = Some (p, drop 16 buffer)"
    using p32.get_total [of "drop 8 buffer"] p32.get_total [of "drop 12 buffer"] by auto
  have small: "unat k < 2 ^ 32" using unsigned_less [of k, where 'a = nat] by simp
  then have "unat k * 112 + 16 < 2 ^ 64" by simp
  then have c: "CheckMul64 b (unat k) 112 = Some (unat k * 112)" "CheckAdd64 b (unat k * 112) 16 = Some (unat k * 112 + 16)"
    using small by (simp_all add: check64_exact)
  show ?thesis
  proof (cases "length buffer < unat k * 112 + 16")
    case True
    then show ?thesis
      using False n k p c by (simp add: UserMessageEvent_Deserialize_def)
  next
    case enough: False
    have len: "unat k * 96 \<le> length (drop 16 buffer)" "unat k * 16 \<le> length (drop (unat k * 96) (drop 16 buffer))"
      using enough by simp_all
    obtain ds where ds: "read_array get_descriptor (unat k) (drop 16 buffer) = Some (ds, drop (unat k * 96) (drop 16 buffer))" "length ds = unat k"
      using pdesc.array_total [OF len(1)] by blast
    obtain ps where ps: "read_array get_name (unat k) (drop (unat k * 96) (drop 16 buffer)) =
        Some (ps, drop (unat k * 16) (drop (unat k * 96) (drop 16 buffer)))" "length ps = unat k"
      using pname.array_total [OF len(2)] by blast
    show ?thesis
      using False enough n k p c ds ps small
      by (simp add: UserMessageEvent_Deserialize_def)
  qed
qed

lemma names_total:
  assumes "64 \<le> length bs"
  obtains a b c d where "get_name bs = Some (a, drop 16 bs)" "get_name (drop 16 bs) = Some (b, drop 32 bs)"
    "get_name (drop 32 bs) = Some (c, drop 48 bs)" "get_name (drop 48 bs) = Some (d, drop 64 bs)"
  using pname.get_at [of 0 bs] pname.get_at [of 16 bs] pname.get_at [of 32 bs] pname.get_at [of 48 bs] assms by auto

text \<open>The size of the part of the buffer that is read.\<close>

fun data_length :: "event_data \<Rightarrow> nat" where
  "data_length (UserMessage _ _ ps) = 16 + length ps * 112"
| "data_length PortAccepted = 0"
| "data_length (ObserveProxy _ _ _ _) = 64"
| "data_length (MergePort _ _) = 112"
| "data_length (UpdatePreviousPeer _ _) = 32"
| "data_length _ = 8"

lemma length_data: "event_wf d \<Longrightarrow> length (SerializeData d) = data_length d"
  by (cases d) auto

definition parsed_ok :: "nat \<Rightarrow> event_data option option \<Rightarrow> bool" where
  "parsed_ok n r \<longleftrightarrow> (case r of None \<Rightarrow> False | Some None \<Rightarrow> True | Some (Some d) \<Rightarrow> event_wf d \<and> data_length d \<le> n)"

lemma data_safe: "parsed_ok (length buffer) (deserialize_data b t buffer)"
proof -
  have "parsed_ok (length buffer) (UserMessageEvent_Deserialize b buffer)"
    using user_message_safe [of b buffer] by (auto simp: parsed_ok_def)
  moreover have "parsed_ok (length buffer) (ObserveProxyEvent_Deserialize buffer)"
  proof (cases "length buffer < 64")
    case False
    then have "64 \<le> length buffer" by simp
    then obtain p q r s where "get_name buffer = Some (p, drop 16 buffer)" "get_name (drop 16 buffer) = Some (q, drop 32 buffer)"
      "get_name (drop 32 buffer) = Some (r, drop 48 buffer)" "get_name (drop 48 buffer) = Some (s, drop 64 buffer)" by (rule names_total)
    then show ?thesis using False by (simp add: ObserveProxyEvent_Deserialize_def parsed_ok_def)
  qed (simp add: ObserveProxyEvent_Deserialize_def parsed_ok_def)
  moreover have "parsed_ok (length buffer) (ObserveProxyAckEvent_Deserialize buffer)"
      "parsed_ok (length buffer) (ObserveClosureEvent_Deserialize buffer)"
      "parsed_ok (length buffer) (UserMessageReadAckRequestEvent_Deserialize buffer)"
      "parsed_ok (length buffer) (UserMessageReadAckEvent_Deserialize buffer)"
    using p64.get_total [of buffer]
    by (auto simp: ObserveProxyAckEvent_Deserialize_def ObserveClosureEvent_Deserialize_def parsed_ok_def
        UserMessageReadAckRequestEvent_Deserialize_def UserMessageReadAckEvent_Deserialize_def)
  moreover have "parsed_ok (length buffer) (MergePortEvent_Deserialize buffer)"
  proof (cases "length buffer < 112")
    case False
    then have "16 \<le> length buffer" "96 \<le> length (drop 16 buffer)" by simp_all
    then obtain n d where "get_name buffer = Some (n, drop 16 buffer)" "get_descriptor (drop 16 buffer) = Some (d, drop 96 (drop 16 buffer))"
      using pname.get_total pdesc.get_total by blast
    then show ?thesis using False by (simp add: MergePortEvent_Deserialize_def parsed_ok_def)
  qed (simp add: MergePortEvent_Deserialize_def parsed_ok_def)
  moreover have "parsed_ok (length buffer) (UpdatePreviousPeerEvent_Deserialize buffer)"
  proof (cases "length buffer < 32")
    case False
    then have "16 \<le> length buffer" "16 \<le> length (drop 16 buffer)" by simp_all
    then obtain n p where "get_name buffer = Some (n, drop 16 buffer)" "get_name (drop 16 buffer) = Some (p, drop 16 (drop 16 buffer))"
      using pname.get_total by blast
    then show ?thesis using False by (simp add: UpdatePreviousPeerEvent_Deserialize_def parsed_ok_def)
  qed (simp add: UpdatePreviousPeerEvent_Deserialize_def parsed_ok_def)
  moreover have "parsed_ok (length buffer) (PortAcceptedEvent_Deserialize buffer)" "parsed_ok (length buffer) (Some None)"
    by (simp_all add: PortAcceptedEvent_Deserialize_def parsed_ok_def)
  ultimately show ?thesis unfolding deserialize_data_def by simp
qed

lemma header_total:
  assumes "24 \<le> length bs"
  obtains t p n where "get32 bs = Some (t, drop 4 bs)" "get32 (drop 4 bs) = Some (p, drop 8 bs)" "get_name (drop 8 bs) = Some (n, drop 24 bs)"
  using p32.get_at [of 0 bs] p32.get_at [of 4 bs] pname.get_at [of 8 bs] assms by auto

lemma header_rest_total:
  assumes "48 \<le> length bs"
  obtains f c where "get_name (drop 24 bs) = Some (f, drop 40 bs)" "get64 (drop 40 bs) = Some (c, drop 48 bs)"
  using pname.get_at [of 24 bs] p64.get_at [of 40 bs] assms by auto

lemma deserialize_header:
  assumes "sizeof_SerializedHeader backwards \<le> length buffer"
  obtains t header where "ev_Deserialize backwards b buffer =
    map_option (map_option (Pair header)) (deserialize_data b t (drop (sizeof_SerializedHeader backwards) buffer))"
proof -
  have "24 \<le> length buffer" using assms by (simp add: sizeof_SerializedHeader_def split: if_splits)
  then obtain t p n where h: "get32 buffer = Some (t, drop 4 buffer)" "get32 (drop 4 buffer) = Some (p, drop 8 buffer)"
    "get_name (drop 8 buffer) = Some (n, drop 24 buffer)" by (rule header_total)
  show ?thesis
  proof (cases backwards)
    case True
    let ?data = "deserialize_data b t (drop 24 buffer)"
    have "ev_Deserialize backwards b buffer = map_option (map_option
        (Pair \<lparr>ev_port_name = n, ev_from_port = kInvalidPortName, ev_control_sequence_num = - 1\<rparr>)) ?data"
      using assms h True by (cases ?data) (simp_all add: ev_Deserialize_def sizeof_SerializedHeader_def)
    then show ?thesis using that True by (simp add: sizeof_SerializedHeader_def)
  next
    case False
    then have "48 \<le> length buffer" using assms by (simp add: sizeof_SerializedHeader_def)
    then obtain f c where r: "get_name (drop 24 buffer) = Some (f, drop 40 buffer)" "get64 (drop 40 buffer) = Some (c, drop 48 buffer)"
      by (rule header_rest_total)
    let ?data = "deserialize_data b t (drop 48 buffer)"
    have "ev_Deserialize backwards b buffer = map_option (map_option
        (Pair \<lparr>ev_port_name = n, ev_from_port = f, ev_control_sequence_num = c\<rparr>)) ?data"
      using assms h r False by (cases ?data) (simp_all add: ev_Deserialize_def sizeof_SerializedHeader_def)
    then show ?thesis using that False by (simp add: sizeof_SerializedHeader_def)
  qed
qed

text \<open>The parsers accept a descriptor whatever byte stands for its \<open>bool\<close>.\<close>

lemma bool_byte_unchecked:
  assumes "pd_peer_closed d = 2"
  shows "deserialize_data b 5 (SerializeData (MergePort n d)) = Some (Some (MergePort n d)) \<and> peer_closed_flag d = None"
  using data_round_trip [of "MergePort n d" b "[]"] assms by (simp add: peer_closed_flag_def)

text \<open>C32: Whatever bytes another process sent, parsing them reads nothing behind the buffer: the result is
  the null pointer or a well-formed event, with one descriptor for every port, that takes
  no more bytes than there are.  The byte of a descriptor's \<open>bool\<close> is not part of this: it is copied unchecked
  (\<open>bool_byte_unchecked\<close>).\<close>

theorem event_parse_safe:
  "ev_Deserialize backwards b buffer = Some None \<or>
    (\<exists>e. ev_Deserialize backwards b buffer = Some (Some e) \<and> event_wf (snd e) \<and>
      length (ev_Serialize backwards e) \<le> length buffer)"
proof (cases "length buffer < sizeof_SerializedHeader backwards")
  case True
  then show ?thesis by (simp add: ev_Deserialize_def)
next
  case False
  let ?h = "sizeof_SerializedHeader backwards"
  have "?h \<le> length buffer" using False by simp
  then obtain t header where d: "ev_Deserialize backwards b buffer =
      map_option (map_option (Pair header)) (deserialize_data b t (drop ?h buffer))" by (rule deserialize_header)
  from data_safe [of "drop ?h buffer" b t] show ?thesis
    using False d by (auto simp: parsed_ok_def header_length length_data split: option.splits)
qed

end
