(* ===== verification/Port_Control.thy ===== *)
theory Port_Control
  imports Message_Queue Port_Events "HOL-Library.Product_Lexorder"
begin

text \<open>
  A port, \<open>mojo/core/ports/port.cc\<close>, and how the node takes the events for it,
  \<open>Node::AcceptEvent\<close>: each event names the port that sent it and a number; what does not come
  from the current predecessor, or too early, waits in a heap of its sender.  Node names and port
  names have the same representation.
\<close>

section \<open>Ports\<close>

type_synonym node_name = port_name

text \<open>The order of names, \<open>operator<\<close> of \<open>name.h\<close>: by the first number, then by the second.\<close>

instantiation port_name_ext :: (linorder) linorder
begin

definition less_eq_port_name_ext :: "'a port_name_scheme \<Rightarrow> 'a port_name_scheme \<Rightarrow> bool" where
  "less_eq_port_name_ext a b \<longleftrightarrow> (v1 a, v2 a, port_name.more a) \<le> (v1 b, v2 b, port_name.more b)"

definition less_port_name_ext :: "'a port_name_scheme \<Rightarrow> 'a port_name_scheme \<Rightarrow> bool" where
  "less_port_name_ext a b \<longleftrightarrow> (v1 a, v2 a, port_name.more a) < (v1 b, v2 b, port_name.more b)"

instance
proof
  fix a b c :: "'a port_name_scheme"
  show "(a < b) = (a \<le> b \<and> \<not> b \<le> a)" by (auto simp: less_eq_port_name_ext_def less_port_name_ext_def)
  show "a \<le> a" by (simp add: less_eq_port_name_ext_def)
  show "a \<le> b \<Longrightarrow> b \<le> c \<Longrightarrow> a \<le> c" unfolding less_eq_port_name_ext_def by (rule order_trans)
  show "a = b" if "a \<le> b" "b \<le> a"
    using that antisym [of "(v1 a, v2 a, port_name.more a)" "(v1 b, v2 b, port_name.more b)"]
    by (simp add: less_eq_port_name_ext_def port_name.equality)
  show "a \<le> b \<or> b \<le> a" unfolding less_eq_port_name_ext_def by (rule linear)
qed

end

text \<open>\<open>std::map\<close>: the entries in the order of their keys.\<close>

fun map_put :: "'k :: linorder \<Rightarrow> 'v \<Rightarrow> ('k \<times> 'v) list \<Rightarrow> ('k \<times> 'v) list" where
  "map_put k v [] = [(k, v)]"
| "map_put k v ((k', v') # m) =
     (if k < k' then (k, v) # (k', v') # m else if k = k' then (k, v) # m else (k', v') # map_put k v m)"

definition map_erase :: "'k \<Rightarrow> ('k \<times> 'v) list \<Rightarrow> ('k \<times> 'v) list" where
  "map_erase k m = filter (\<lambda>(k', _). k' \<noteq> k) m"

datatype port_state = kUninitialized | kReceiving | kBuffering | kProxying | kClosed

type_synonym event_queues = "((node_name \<times> port_name) \<times> port_event list) list"

record port =
  pt_state :: port_state
  pt_peer_node_name :: node_name
  pt_peer_port_name :: port_name
  prev_node_name :: node_name
  prev_port_name :: port_name
  pending_merge_peer :: bool
  next_control_sequence_num_to_send :: u64
  next_control_sequence_num_to_receive :: u64
  pt_next_sequence_num_to_send :: u64
  last_sequence_num_acknowledged :: u64
  sequence_num_acknowledge_interval :: u64
  pt_last_sequence_num_to_receive :: u64
  sequence_num_to_acknowledge :: u64
  pt_message_queue :: "event_data message_queue"
  control_message_queue :: "(node_name \<times> port_event) list"
  send_on_proxy_removal :: "(node_name \<times> port_event) option"
  remove_proxy_on_last_message :: bool
  pt_peer_closed :: bool
  peer_lost_unexpectedly :: bool
  control_event_queues :: event_queues

definition Port :: "u64 \<Rightarrow> u64 \<Rightarrow> port" where
  "Port to_send to_receive =
     \<lparr>pt_state = kUninitialized, pt_peer_node_name = kInvalidPortName, pt_peer_port_name = kInvalidPortName,
      prev_node_name = kInvalidPortName, prev_port_name = kInvalidPortName, pending_merge_peer = False,
      next_control_sequence_num_to_send = kInitialSequenceNum, next_control_sequence_num_to_receive = kInitialSequenceNum,
      pt_next_sequence_num_to_send = to_send, last_sequence_num_acknowledged = to_send - 1,
      sequence_num_acknowledge_interval = 0, pt_last_sequence_num_to_receive = 0, sequence_num_to_acknowledge = 0,
      pt_message_queue = MessageQueue to_receive, control_message_queue = [], send_on_proxy_removal = None,
      remove_proxy_on_last_message = False, pt_peer_closed = False, peer_lost_unexpectedly = False,
      control_event_queues = []\<rparr>"

abbreviation control_num :: "port_event \<Rightarrow> u64" where
  "control_num e \<equiv> ev_control_sequence_num (fst e)"

text \<open>\<open>operator<\<close> on events: the heap has the smallest number first.\<close>

definition event_later :: "port_event \<Rightarrow> port_event \<Rightarrow> bool" where
  "event_later a b \<longleftrightarrow> control_num a > control_num b"

definition IsNextEvent :: "node_name \<Rightarrow> port_event \<Rightarrow> port \<Rightarrow> bool" where
  "IsNextEvent from_node e p \<longleftrightarrow>
     from_node = prev_node_name p \<and> ev_from_port (fst e) = prev_port_name p \<and>
     control_num e = next_control_sequence_num_to_receive p"

definition NextEvent :: "port \<Rightarrow> (node_name \<times> port_event) option \<times> port" where
  "NextEvent p =
     (let k = (prev_node_name p, prev_port_name p) in
      case map_of (control_event_queues p) k of
        None \<Rightarrow> (None, p)
      | Some msg_queue \<Rightarrow>
          if control_num (msg_queue ! 0) \<noteq> next_control_sequence_num_to_receive p then (None, p)
          else
            let h = std_pop_heap event_later msg_queue; q = butlast h in
            (Some (prev_node_name p, last h),
             p\<lparr>control_event_queues :=
                 (if q = [] then map_erase k (control_event_queues p) else map_put k q (control_event_queues p))\<rparr>))"

definition BufferEvent :: "node_name \<Rightarrow> port_event \<Rightarrow> port \<Rightarrow> port" where
  "BufferEvent from_node e p =
     (let k = (from_node, ev_from_port (fst e));
          event_heap = (case map_of (control_event_queues p) k of None \<Rightarrow> [] | Some q \<Rightarrow> q) in
      p\<lparr>control_event_queues := map_put k (std_push_heap event_later (event_heap @ [e])) (control_event_queues p)\<rparr>)"

fun is_user_message :: "port_event \<Rightarrow> bool" where
  "is_user_message (_, UserMessage _ _ _) = True"
| "is_user_message _ = False"

definition TakePendingMessages :: "port \<Rightarrow> port_event list \<times> port" where
  "TakePendingMessages p =
     (concat (map (\<lambda>(k, events). filter is_user_message events) (control_event_queues p)), p\<lparr>control_event_queues := []\<rparr>)"

section \<open>Accepting events\<close>

fun IsEventFromPreviousPeer :: "port_event \<Rightarrow> bool" where
  "IsEventFromPreviousPeer (h, PortAccepted) = False"
| "IsEventFromPreviousPeer (h, ObserveProxy _ _ _ _) = (ev_port_name h \<noteq> kInvalidPortName)"
| "IsEventFromPreviousPeer (h, MergePort _ _) = False"
| "IsEventFromPreviousPeer (h, _) = True"

text \<open>The handler of \<open>UpdatePreviousPeer\<close>, with the result of the call.\<close>

definition OnUpdatePreviousPeer :: "node_name \<Rightarrow> port_name \<Rightarrow> port \<Rightarrow> int \<times> port" where
  "OnUpdatePreviousPeer new_node_name new_port_name p =
     (if new_node_name = kInvalidPortName \<or> new_port_name = kInvalidPortName then (- 12, p)
      else (0, p\<lparr>prev_node_name := new_node_name, prev_port_name := new_port_name,
                 next_control_sequence_num_to_receive := kInitialSequenceNum - 1\<rparr>))"

text \<open>What handling an event does to the fields that order events: of the handlers, only this one writes them.\<close>

fun order_effect :: "port_event \<Rightarrow> port \<Rightarrow> port" where
  "order_effect (_, UpdatePreviousPeer n q) p = snd (OnUpdatePreviousPeer n q p)"
| "order_effect _ p = p"

text \<open>
  Threads call \<open>AcceptEvent\<close> for one port, which they lock for the test at the beginning and
  after every event they handled.  An active thread has an event that it is about to handle
  (\<open>False\<close>) or has handled (\<open>True\<close>).
\<close>

type_synonym sent_event = "node_name \<times> port_event"

record port_system =
  sys_port :: port
  active :: "(sent_event \<times> bool) list"
  arrived :: "sent_event list"
  handled :: "sent_event list"

definition accept_event :: "sent_event \<Rightarrow> port_system \<Rightarrow> port_system" where
  "accept_event x s =
     (let s = s\<lparr>arrived := arrived s @ [x]\<rparr> in
      if IsNextEvent (fst x) (snd x) (sys_port s) then s\<lparr>active := active s @ [(x, False)]\<rparr>
      else s\<lparr>sys_port := BufferEvent (fst x) (snd x) (sys_port s)\<rparr>)"

definition run_handler :: "nat \<Rightarrow> sent_event \<Rightarrow> port_system \<Rightarrow> port_system" where
  "run_handler i x s =
     s\<lparr>sys_port := order_effect (snd x) (sys_port s), active := (active s)[i := (x, True)], handled := handled s @ [x]\<rparr>"

definition after_event :: "port \<Rightarrow> sent_event option \<times> port" where
  "after_event p = NextEvent (p\<lparr>next_control_sequence_num_to_receive := next_control_sequence_num_to_receive p + 1\<rparr>)"

definition next_or_leave :: "nat \<Rightarrow> port_system \<Rightarrow> port_system" where
  "next_or_leave i s =
     (case after_event (sys_port s) of
        (None, p) \<Rightarrow> s\<lparr>sys_port := p, active := take i (active s) @ drop (Suc i) (active s)\<rparr>
      | (Some x, p) \<Rightarrow> s\<lparr>sys_port := p, active := (active s)[i := (x, False)]\<rparr>)"

inductive port_step :: "port_system \<Rightarrow> port_system \<Rightarrow> bool" where
  step_accept: "IsEventFromPreviousPeer (snd x) \<Longrightarrow> port_step s (accept_event x s)"
| step_handle: "i < length (active s) \<Longrightarrow> active s ! i = (x, False) \<Longrightarrow> port_step s (run_handler i x s)"
| step_next: "i < length (active s) \<Longrightarrow> active s ! i = (x, True) \<Longrightarrow> port_step s (next_or_leave i s)"

definition port_fresh :: "node_name \<times> port_name \<Rightarrow> port \<Rightarrow> port_system" where
  "port_fresh k p =
     \<lparr>sys_port = p\<lparr>prev_node_name := fst k, prev_port_name := snd k,
        next_control_sequence_num_to_receive := kInitialSequenceNum, control_event_queues := []\<rparr>,
      active = [], arrived = [], handled = []\<rparr>"

definition port_reachable :: "node_name \<times> port_name \<Rightarrow> port \<Rightarrow> port_system \<Rightarrow> bool" where
  "port_reachable k p s \<longleftrightarrow> port_step\<^sup>*\<^sup>* (port_fresh k p) s"

section \<open>The order promised\<close>

text \<open>Events come from one sender after the other, each numbered from one; an \<open>UpdatePreviousPeer\<close>
  event names the next sender.\<close>

definition event_key :: "sent_event \<Rightarrow> (node_name \<times> port_name) \<times> u64" where
  "event_key x = ((fst x, ev_from_port (fst (snd x))), control_num (snd x))"

definition next_expected :: "(node_name \<times> port_name) \<times> u64 \<Rightarrow> sent_event \<Rightarrow> (node_name \<times> port_name) \<times> u64" where
  "next_expected kc x =
     (case snd (snd x) of
        UpdatePreviousPeer n q \<Rightarrow>
          if n = kInvalidPortName \<or> q = kInvalidPortName then (fst kc, snd kc + 1) else ((n, q), kInitialSequenceNum)
      | _ \<Rightarrow> (fst kc, snd kc + 1))"

fun in_turn :: "(node_name \<times> port_name) \<times> u64 \<Rightarrow> sent_event list \<Rightarrow> bool" where
  "in_turn kc [] \<longleftrightarrow> True"
| "in_turn kc (x # xs) \<longleftrightarrow> event_key x = kc \<and> in_turn (next_expected kc x) xs"

text \<open>What senders do: no number twice, and neither zero nor the invalid number.\<close>

definition sent_ok :: "sent_event list \<Rightarrow> bool" where
  "sent_ok xs \<longleftrightarrow> distinct (map event_key xs) \<and> (\<forall>x \<in> set xs. control_num (snd x) \<noteq> 0 \<and> control_num (snd x) \<noteq> - 1)"

lemma in_turn_snoc: "in_turn kc (xs @ [x]) \<longleftrightarrow> in_turn kc xs \<and> event_key x = foldl next_expected kc xs"
  by (induction xs arbitrary: kc) auto

lemma map_of_put [simp]: "map_of (map_put k v m) = (map_of m)(k \<mapsto> v)"
  by (induction m rule: map_put.induct) auto

lemma map_of_erase [simp]: "map_of (map_erase k m) = (map_of m)(k := None)"
  by (induction m) (auto simp: map_erase_def)

interpretation events: strict_weak_order event_later
  by unfold_locales (auto simp: event_later_def)

definition event_heap :: "port_event list \<Rightarrow> bool" where
  "event_heap h \<longleftrightarrow> is_heap event_later (length h) h"

interpretation event_queue: priority_queue event_later event_heap mset "\<lambda>h m. std_push_heap event_later (h @ [m])"
    "\<lambda>h. h ! 0" "\<lambda>h. butlast (std_pop_heap event_later h)"
  using events.heap_queue by (simp add: event_heap_def [abs_def])

section \<open>The events that wait\<close>

definition queue_ok :: "port \<Rightarrow> bool" where
  "queue_ok p \<longleftrightarrow> (\<forall>k q. map_of (control_event_queues p) k = Some q \<longrightarrow>
     q \<noteq> [] \<and> event_heap q \<and> distinct q \<and> (\<forall>e \<in> set q. ev_from_port (fst e) = snd k))"

definition waiting_events :: "port \<Rightarrow> sent_event set" where
  "waiting_events p = {(n, e). \<exists>q. map_of (control_event_queues p) (n, ev_from_port (fst e)) = Some q \<and> e \<in> set q}"

lemma BufferEvent_ok:
  assumes "queue_ok p" "x \<notin> waiting_events p"
  shows "queue_ok (BufferEvent (fst x) (snd x) p)"
    "waiting_events (BufferEvent (fst x) (snd x) p) = insert x (waiting_events p)"
proof -
  let ?k = "(fst x, ev_from_port (fst (snd x)))" and ?p = "BufferEvent (fst x) (snd x) p"
  define old where "old = (case map_of (control_event_queues p) ?k of None \<Rightarrow> [] | Some q \<Rightarrow> q)"
  define h where "h = std_push_heap event_later (old @ [snd x])"
  have map: "map_of (control_event_queues ?p) = (map_of (control_event_queues p))(?k \<mapsto> h)"
    by (simp add: BufferEvent_def Let_def h_def old_def)
  have old: "event_heap old \<and> distinct old \<and> snd x \<notin> set old \<and> (\<forall>e \<in> set old. ev_from_port (fst e) = snd ?k)"
  proof (cases "map_of (control_event_queues p) ?k")
    case None
    then show ?thesis by (simp add: old_def event_heap_def is_heap_def)
  next
    case (Some q)
    then have "snd x \<notin> set q" using assms(2) by (cases x) (simp add: waiting_events_def)
    moreover have "event_heap q \<and> distinct q \<and> (\<forall>e \<in> set q. ev_from_port (fst e) = snd ?k)"
      using assms(1) Some unfolding queue_ok_def by blast
    ultimately show ?thesis using Some by (simp add: old_def)
  qed
  then have h: "event_heap h" "mset h = mset (snd x # old)"
    using event_queue.ins_ok [of old "snd x"] by (simp_all add: h_def)
  from mset_eq_imp_distinct_iff [OF h(2)] mset_eq_setD [OF h(2)]
  have set: "distinct h" "set h = insert (snd x) (set old)" using old by auto
  then have "h \<noteq> [] \<and> event_heap h \<and> distinct h \<and> (\<forall>e \<in> set h. ev_from_port (fst e) = snd ?k)" using h(1) old by auto
  then show "queue_ok ?p" using assms(1) unfolding queue_ok_def map by (auto simp del: split_paired_All)
  show "waiting_events ?p = insert x (waiting_events p)"
    using set(2) unfolding waiting_events_def map by (cases x) (auto simp: old_def split: if_splits option.splits)
qed

text \<open>The event the port waits for is found if and only if it is there.\<close>

lemma NextEvent_ok:
  assumes "queue_ok p" "\<forall>x \<in> waiting_events p. fst (event_key x) = (prev_node_name p, prev_port_name p) \<longrightarrow>
      next_control_sequence_num_to_receive p \<le> snd (event_key x)"
  shows "case NextEvent p of
      (None, p') \<Rightarrow> p' = p \<and> (\<forall>x \<in> waiting_events p. event_key x \<noteq> ((prev_node_name p, prev_port_name p), next_control_sequence_num_to_receive p))
    | (Some x, p') \<Rightarrow> x \<in> waiting_events p \<and> waiting_events p' = waiting_events p - {x} \<and> queue_ok p' \<and>
        event_key x = ((prev_node_name p, prev_port_name p), next_control_sequence_num_to_receive p) \<and>
        (\<exists>qs. p' = p\<lparr>control_event_queues := qs\<rparr>)"
proof -
  let ?k = "(prev_node_name p, prev_port_name p)" and ?c = "next_control_sequence_num_to_receive p"
  show ?thesis
  proof (cases "map_of (control_event_queues p) ?k")
    case None
    then show ?thesis by (auto simp: NextEvent_def waiting_events_def event_key_def)
  next
    case (Some q)
    have q: "q \<noteq> []" "event_heap q" "distinct q" "\<forall>e \<in> set q. ev_from_port (fst e) = prev_port_name p"
      using assms(1) Some by (auto simp: queue_ok_def)
    have wait: "(prev_node_name p, e) \<in> waiting_events p" if "e \<in> set q" for e using that q(4) Some by (auto simp: waiting_events_def)
    have low: "control_num (q ! 0) \<le> control_num e" if "e \<in> set q" for e
      using event_queue.top_max [OF q(2), of e] that by (simp add: event_later_def)
    show ?thesis
    proof (cases "control_num (q ! 0) = ?c")
      case False
      have "control_num e \<noteq> ?c" if "e \<in> set q" for e
      proof
        assume "control_num e = ?c"
        moreover have "?c \<le> control_num (q ! 0)"
          using bspec [OF assms(2) wait [of "q ! 0"]] q(1,4) by (simp add: event_key_def)
        ultimately show False using low [OF that] False by simp
      qed
      then show ?thesis using False Some by (auto simp: NextEvent_def waiting_events_def event_key_def)
    next
      case True
      define h where "h = butlast (std_pop_heap event_later q)"
      have pop: "event_heap h" "mset h = mset q - {#q ! 0#}" "last (std_pop_heap event_later q) = q ! 0"
        using event_queue.pop_ok [OF q(2)] q(1) events.pop_heap_ok [of q] q(2) by (auto simp: h_def event_heap_def)
      have top: "q ! 0 \<in> set q" using q(1) by simp
      have "mset q = mset (q ! 0 # h)" using pop(2) top by simp
      from mset_eq_imp_distinct_iff [OF this] mset_eq_setD [OF this] have h: "distinct h" "set h = set q - {q ! 0}"
        using q(3) by auto
      let ?p = "p\<lparr>control_event_queues := (if h = [] then map_erase ?k (control_event_queues p) else map_put ?k h (control_event_queues p))\<rparr>"
      have found: "NextEvent p = (Some (prev_node_name p, q ! 0), ?p)"
        using Some True pop(3) by (simp add: NextEvent_def Let_def h_def)
      have map: "map_of (control_event_queues ?p) = (map_of (control_event_queues p))(?k := if h = [] then None else Some h)" by simp
      have "queue_ok ?p"
        using assms(1) pop(1) h q(4) unfolding queue_ok_def map by (auto split: if_splits)
      moreover have "waiting_events ?p = waiting_events p - {(prev_node_name p, q ! 0)}"
        using h Some q(4) bspec [OF q(4) top] unfolding waiting_events_def map by (auto split: if_splits)
      ultimately show ?thesis
        using found wait [OF top] True q(4) top by (auto simp: event_key_def)
    qed
  qed
qed

section \<open>The order kept\<close>

text \<open>One thread at most is at work; with \<open>(k, c)\<close> the sender and the number due after the handled
  events, the port waits for it, is about to handle it, or has just handled its predecessor.\<close>

definition phase_ok :: "(sent_event \<times> bool) list \<Rightarrow> node_name \<times> port_name \<Rightarrow> u64 \<Rightarrow> port \<Rightarrow> bool" where
  "phase_ok act k c p \<longleftrightarrow>
     (case act of
        [] \<Rightarrow> next_control_sequence_num_to_receive p = c \<and> (\<forall>x \<in> waiting_events p. event_key x \<noteq> (k, c))
      | (x, b) # rest \<Rightarrow> rest = [] \<and>
          (if b then next_control_sequence_num_to_receive p + 1 = c
           else next_control_sequence_num_to_receive p = c \<and> event_key x = (k, c)))"

definition in_hand :: "(sent_event \<times> bool) list \<Rightarrow> sent_event set" where
  "in_hand act = {x. (x, False) \<in> set act}"

definition order_at :: "(node_name \<times> port_name) \<times> u64 \<Rightarrow> node_name \<times> port_name \<Rightarrow> u64 \<Rightarrow> port_system \<Rightarrow> bool" where
  "order_at start k c s \<longleftrightarrow>
      foldl next_expected start (handled s) = (k, c) \<and>
      queue_ok (sys_port s) \<and> in_turn start (handled s) \<and> distinct (handled s) \<and>
      set (arrived s) = set (handled s) \<union> waiting_events (sys_port s) \<union> in_hand (active s) \<and>
      set (handled s) \<inter> (waiting_events (sys_port s) \<union> in_hand (active s)) = {} \<and> waiting_events (sys_port s) \<inter> in_hand (active s) = {} \<and>
      (prev_node_name (sys_port s), prev_port_name (sys_port s)) = k \<and> c \<noteq> 0 \<and>
      (\<forall>j. 0 < j \<and> j < c \<longrightarrow> (k, j) \<in> event_key ` set (handled s)) \<and>
      (\<forall>x \<in> waiting_events (sys_port s). fst (event_key x) = k \<longrightarrow> c \<le> snd (event_key x)) \<and>
      phase_ok (active s) k c (sys_port s)"

definition order_inv :: "(node_name \<times> port_name) \<times> u64 \<Rightarrow> port_system \<Rightarrow> bool" where
  "order_inv start s \<longleftrightarrow> (\<exists>k c. order_at start k c s)"

lemma order_atD:
  assumes "order_at start k c s"
  shows "foldl next_expected start (handled s) = (k, c)" "queue_ok (sys_port s)" "in_turn start (handled s)" "distinct (handled s)"
    "set (arrived s) = set (handled s) \<union> waiting_events (sys_port s) \<union> in_hand (active s)"
    "set (handled s) \<inter> (waiting_events (sys_port s) \<union> in_hand (active s)) = {}" "waiting_events (sys_port s) \<inter> in_hand (active s) = {}"
    "(prev_node_name (sys_port s), prev_port_name (sys_port s)) = k" "c \<noteq> 0"
    "0 < j \<Longrightarrow> j < c \<Longrightarrow> (k, j) \<in> event_key ` set (handled s)"
    "x \<in> waiting_events (sys_port s) \<Longrightarrow> fst (event_key x) = k \<Longrightarrow> c \<le> snd (event_key x)"
    "phase_ok (active s) k c (sys_port s)"
  using assms unfolding order_at_def by blast+

lemma sent_ok_key: "sent_ok xs \<Longrightarrow> x \<in> set xs \<Longrightarrow> y \<in> set xs \<Longrightarrow> event_key x = event_key y \<Longrightarrow> x = y"
  by (simp add: sent_ok_def distinct_map inj_on_def)

lemma sent_ok_snoc: "sent_ok (xs @ [x]) \<Longrightarrow> sent_ok xs \<and> event_key x \<notin> event_key ` set xs \<and> control_num (snd x) \<noteq> 0"
  by (auto simp: sent_ok_def)

lemma word_step:
  assumes "(c :: u64) \<noteq> - 1"
  shows "c + 1 \<noteq> 0" "j < c + 1 \<longleftrightarrow> j \<le> c"
proof -
  show nz: "c + 1 \<noteq> 0" using assms by (metis add.commute add_eq_0_iff)
  show "j < c + 1 \<longleftrightarrow> j \<le> c"
    using unatSuc [of c] nz by (auto simp: word_less_nat_alt word_le_nat_alt add.commute)
qed

lemma fresh_order: "order_inv (k, kInitialSequenceNum) (port_fresh k p)"
  by (auto simp: order_inv_def order_at_def port_fresh_def queue_ok_def waiting_events_def in_hand_def phase_ok_def kInitialSequenceNum_def)

lemma no_second_thread:
  assumes "order_at start k c s" "IsNextEvent (fst x) (snd x) (sys_port s)"
    "event_key x \<notin> event_key ` set (arrived s)" "control_num (snd x) \<noteq> 0"
  shows "active s = [] \<and> event_key x = (k, c)"
proof -
  let ?p = "sys_port s"
  have key: "event_key x = (k, next_control_sequence_num_to_receive ?p)"
    using assms(1,2) by (auto simp: order_at_def IsNextEvent_def event_key_def)
  have "active s = []"
  proof (rule ccontr)
    assume "active s \<noteq> []"
    then obtain y b where act: "active s = [(y, b)]" and phase: "phase_ok [(y, b)] k c ?p"
      using assms(1) by (cases "active s") (auto simp: order_at_def phase_ok_def)
    have "event_key x \<in> event_key ` set (arrived s)"
    proof (cases b)
      case True
      then have c: "next_control_sequence_num_to_receive ?p + 1 = c" using phase by (simp add: phase_ok_def)
      then have "next_control_sequence_num_to_receive ?p \<noteq> - 1" using assms(1) by (auto simp: order_at_def)
      then have "next_control_sequence_num_to_receive ?p < c" using c word_step(2) by blast
      moreover have "0 < next_control_sequence_num_to_receive ?p" using key assms(4) by (simp add: event_key_def word_neq_0_conv)
      ultimately have "event_key x \<in> event_key ` set (handled s)" using assms(1) key by (simp add: order_at_def)
      then show ?thesis using assms(1) by (auto simp: order_at_def)
    next
      case False
      then have "event_key y = event_key x" "y \<in> set (arrived s)"
        using phase key act assms(1) by (auto simp: phase_ok_def in_hand_def order_at_def)
      then show ?thesis by (metis imageI)
    qed
    then show False using assms(3) by simp
  qed
  then show ?thesis using assms(1) key by (auto simp: order_at_def phase_ok_def)
qed

lemma accept_order:
  assumes "order_at start k c s" "sent_ok (arrived (accept_event x s))"
  shows "order_at start k c (accept_event x s)"
proof -
  let ?p = "sys_port s"
  have "arrived (accept_event x s) = arrived s @ [x]" by (simp add: accept_event_def Let_def)
  then have new: "event_key x \<notin> event_key ` set (arrived s)" "control_num (snd x) \<noteq> 0"
    using sent_ok_snoc assms(2) by auto
  then have fresh: "x \<notin> set (arrived s)" by auto
  then have out: "x \<notin> set (handled s)" "x \<notin> waiting_events ?p" "x \<notin> in_hand (active s)"
    using assms(1) by (auto simp: order_at_def)
  have low: "c \<le> snd (event_key x)" if "fst (event_key x) = k"
  proof (rule ccontr)
    assume "\<not> c \<le> snd (event_key x)"
    then have "(k, snd (event_key x)) \<in> event_key ` set (handled s)"
      using assms(1) new(2) by (simp add: order_at_def event_key_def word_neq_0_conv)
    then have "event_key x \<in> event_key ` set (handled s)" using that by (metis prod.collapse)
    then show False using new(1) assms(1) by (auto simp: order_at_def)
  qed
  show ?thesis
  proof (cases "IsNextEvent (fst x) (snd x) ?p")
    case True
    note idle = no_second_thread [OF assms(1) True new]
    then have acc: "accept_event x s = s\<lparr>arrived := arrived s @ [x], active := [(x, False)]\<rparr>"
      using True by (simp add: accept_event_def)
    show ?thesis
      using assms(1) idle out unfolding acc order_at_def by (auto simp: phase_ok_def in_hand_def)
  next
    case False
    then have acc: "accept_event x s = s\<lparr>arrived := arrived s @ [x], sys_port := BufferEvent (fst x) (snd x) ?p\<rparr>"
      by (simp add: accept_event_def)
    have ok: "queue_ok ?p" using assms(1) by (simp add: order_at_def)
    have same: "prev_node_name (BufferEvent (fst x) (snd x) ?p) = prev_node_name ?p"
      "prev_port_name (BufferEvent (fst x) (snd x) ?p) = prev_port_name ?p"
      "next_control_sequence_num_to_receive (BufferEvent (fst x) (snd x) ?p) = next_control_sequence_num_to_receive ?p"
      by (simp_all add: BufferEvent_def Let_def)
    have "event_key x \<noteq> (k, next_control_sequence_num_to_receive ?p)"
      using False assms(1) by (auto simp: order_at_def IsNextEvent_def event_key_def)
    then have "phase_ok (active s) k c (BufferEvent (fst x) (snd x) ?p)"
      using assms(1) BufferEvent_ok(2) [OF ok out(2)] same(3) by (auto simp: order_at_def phase_ok_def split: list.splits)
    then show ?thesis
      using assms(1) out low BufferEvent_ok [OF ok out(2)] same unfolding acc order_at_def by auto
  qed
qed

lemma handler_cases:
  obtains (stay) "order_effect (snd x) p = p" "\<And>k c. next_expected (k, c) x = (k, c + 1)"
  | (switch) n q where "order_effect (snd x) p =
        p\<lparr>prev_node_name := n, prev_port_name := q, next_control_sequence_num_to_receive := 0\<rparr>"
      "\<And>k c. next_expected (k, c) x = ((n, q), 1)"
proof (cases "snd (snd x)")
  case (UpdatePreviousPeer n q)
  then have "snd x = (fst (snd x), UpdatePreviousPeer n q)" by (simp add: prod_eq_iff)
  then have "order_effect (snd x) p = snd (OnUpdatePreviousPeer n q p)" by (metis order_effect.simps(1))
  then show ?thesis
    using that UpdatePreviousPeer
    by (cases "n = kInvalidPortName \<or> q = kInvalidPortName")
      (auto simp: OnUpdatePreviousPeer_def next_expected_def kInitialSequenceNum_def)
qed (cases x; cases "snd x"; auto simp: next_expected_def intro: that)+

lemma waiting_events_cong: "control_event_queues p = control_event_queues p' \<Longrightarrow> waiting_events p = waiting_events p' \<and> queue_ok p = queue_ok p'"
  by (simp add: waiting_events_def queue_ok_def)

lemma handle_order:
  assumes "order_at start k c s" "sent_ok (arrived s)" "i < length (active s)" "active s ! i = (x, False)"
  shows "order_inv start (run_handler i x s)"
proof -
  let ?p = "sys_port s" and ?q = "order_effect (snd x) (sys_port s)"
  note D = order_atD [OF assms(1)]
  have act: "active s = [(x, False)]" "i = 0"
    using D(12) assms(3,4) by (auto simp: phase_ok_def split: list.splits)
  then have key: "event_key x = (k, c)" "next_control_sequence_num_to_receive ?p = c"
    using D(12) by (auto simp: phase_ok_def)
  have x: "x \<in> set (arrived s)" "x \<notin> set (handled s)" "x \<notin> waiting_events ?p"
    using D(5,6,7) act(1) by (auto simp: in_hand_def)
  then have c: "c \<noteq> - 1" using assms(2) key(1) by (auto simp: sent_ok_def event_key_def)
  have other: "event_key y \<noteq> (k, c)" if "y \<in> waiting_events ?p" for y
    using sent_ok_key [OF assms(2), of y x] that x key(1) D(5) by auto
  let ?s = "run_handler i x s"
  have run: "sys_port ?s = ?q" "active ?s = [(x, True)]" "handled ?s = handled s @ [x]" "arrived ?s = arrived s" "in_hand (active ?s) = {}"
    using act by (simp_all add: run_handler_def in_hand_def)
  have turn: "in_turn start (handled ?s)" "distinct (handled ?s)" using D(1,3,4) key(1) x(2) by (simp_all add: run(3) in_turn_snoc)
  have parts: "set (arrived s) = set (handled ?s) \<union> waiting_events ?p" "set (handled ?s) \<inter> waiting_events ?p = {}"
    using D(5,6) x act(1) by (auto simp: run(3) in_hand_def)
  have positive: "1 \<le> snd (event_key y)" if "y \<in> waiting_events ?p" for y
  proof -
    have "0 < snd (event_key y)" using D(5) assms(2) that by (auto simp: sent_ok_def event_key_def word_neq_0_conv)
    then show ?thesis using inc_le [of 0 "snd (event_key y)"] by simp
  qed
  show ?thesis
  proof (cases rule: handler_cases [of x ?p])
    case stay
    have low: "c + 1 \<le> snd (event_key y)" if "y \<in> waiting_events ?p" "fst (event_key y) = k" for y
    proof -
      have "c \<le> snd (event_key y)" "snd (event_key y) \<noteq> c"
        using D(11) [OF that] that other [OF that(1)] by (auto simp: prod_eq_iff)
      then have "\<not> snd (event_key y) \<le> c" by simp
      then show ?thesis using word_step(2) [OF c, of "snd (event_key y)"] by (simp add: not_less)
    qed
    have seen: "(k, j) \<in> event_key ` set (handled ?s)" if "0 < j" "j < c + 1" for j
    proof -
      have "j < c \<or> j = c" using word_step(2) [OF c, of j] that(2) by auto
      then show ?thesis using D(10) [OF that(1)] key(1) by (auto simp: run(3))
    qed
    have "foldl next_expected start (handled ?s) = (k, c + 1)" using D(1) stay(2) by (simp add: run(3))
    moreover have "phase_ok (active ?s) k (c + 1) ?p" using key(2) by (simp add: phase_ok_def run(2))
    ultimately have "order_at start k (c + 1) ?s"
      using turn parts low seen D(2,8) word_step(1) [OF c] by (simp add: order_at_def run(1,4,5) stay(1))
    then show ?thesis unfolding order_inv_def by blast
  next
    case (switch n q)
    have same: "waiting_events ?q = waiting_events ?p" "queue_ok ?q = queue_ok ?p"
      using waiting_events_cong [of ?q ?p] switch(1) by simp_all
    have "foldl next_expected start (handled ?s) = ((n, q), 1)" using D(1) switch(2) by (simp add: run(3))
    moreover have "phase_ok (active ?s) (n, q) 1 ?q" "(prev_node_name ?q, prev_port_name ?q) = (n, q)"
      by (simp_all add: phase_ok_def run(2) switch(1))
    ultimately have "order_at start (n, q) 1 ?s"
      using turn parts positive D(2) by (simp add: order_at_def run(1,4,5) same)
    then show ?thesis unfolding order_inv_def by blast
  qed
qed

lemma next_order:
  assumes "order_at start k c s" "i < length (active s)" "active s ! i = (x, True)"
  shows "order_at start k c (next_or_leave i s)"
proof -
  note D = order_atD [OF assms(1)]
  let ?p = "(sys_port s)\<lparr>next_control_sequence_num_to_receive := next_control_sequence_num_to_receive (sys_port s) + 1\<rparr>"
  have act: "active s = [(x, True)]" "i = 0"
    using assms by (auto simp: order_at_def phase_ok_def split: list.splits prod.splits)
  then have next_c: "next_control_sequence_num_to_receive ?p = c" "(prev_node_name ?p, prev_port_name ?p) = k"
    using assms(1) by (auto simp: order_at_def phase_ok_def)
  have same: "waiting_events ?p = waiting_events (sys_port s)" "queue_ok ?p = queue_ok (sys_port s)"
    using waiting_events_cong [of ?p "sys_port s"] by simp_all
  have q: "queue_ok ?p" "\<forall>x \<in> waiting_events ?p. fst (event_key x) = (prev_node_name ?p, prev_port_name ?p) \<longrightarrow>
      next_control_sequence_num_to_receive ?p \<le> snd (event_key x)"
    using assms(1) same next_c by (auto simp: order_at_def)
  obtain r p' where r: "NextEvent ?p = (r, p')" by fastforce
  then have after: "after_event (sys_port s) = (r, p')" by (simp add: after_event_def)
  show ?thesis
  proof (cases r)
    case None
    then have "p' = ?p" "\<forall>x \<in> waiting_events ?p. event_key x \<noteq> (k, c)"
      using NextEvent_ok [OF q] r next_c by simp_all
    moreover have "next_or_leave i s = s\<lparr>sys_port := p', active := []\<rparr>"
      using None after act by (simp add: next_or_leave_def)
    ultimately show ?thesis
      using D act same next_c unfolding order_at_def by (simp add: phase_ok_def in_hand_def)
  next
    case (Some y)
    then have y: "y \<in> waiting_events ?p" "waiting_events p' = waiting_events ?p - {y}" "queue_ok p'" "event_key y = (k, c)"
        "\<exists>qs. p' = ?p\<lparr>control_event_queues := qs\<rparr>"
      using NextEvent_ok [OF q] r next_c by simp_all
    from y(5) have fields: "prev_node_name p' = prev_node_name ?p" "prev_port_name p' = prev_port_name ?p"
        "next_control_sequence_num_to_receive p' = next_control_sequence_num_to_receive ?p" by auto
    have "next_or_leave i s = s\<lparr>sys_port := p', active := [(y, False)]\<rparr>"
      using Some after act by (simp add: next_or_leave_def)
    moreover have "y \<notin> set (handled s)" using D(6) y(1) same by auto
    moreover have "set (arrived s) = set (handled s) \<union> waiting_events p' \<union> {y}" using D(5) act same y(1,2) by (auto simp: in_hand_def)
    ultimately show ?thesis
      using D act same next_c y fields unfolding order_at_def by (auto simp: phase_ok_def in_hand_def)
  qed
qed

lemma arrived_step: "port_step s s' \<Longrightarrow> \<exists>xs. arrived s' = arrived s @ xs"
  by (induction rule: port_step.induct)
    (auto simp: accept_event_def run_handler_def next_or_leave_def Let_def split: prod.splits option.splits)

lemma sent_ok_prefix: "sent_ok (xs @ ys) \<Longrightarrow> sent_ok xs"
  by (simp add: sent_ok_def)

lemma step_order:
  assumes "port_step s s'" "order_inv start s" "sent_ok (arrived s')"
  shows "order_inv start s'"
proof -
  obtain k c where at: "order_at start k c s" using assms(2) by (auto simp: order_inv_def)
  have ok: "sent_ok (arrived s)" using arrived_step [OF assms(1)] assms(3) sent_ok_prefix by auto
  show ?thesis
    using assms(1)
  proof cases
    case (step_accept x)
    then show ?thesis using accept_order [OF at, of x] assms(3) unfolding order_inv_def by blast
  next
    case (step_handle i x)
    then show ?thesis using handle_order [OF at ok] by simp
  next
    case (step_next i x)
    then show ?thesis using next_order [OF at, of i x] unfolding order_inv_def by blast
  qed
qed

lemma reachable_order:
  assumes "port_reachable k p s" "sent_ok (arrived s)"
  shows "order_inv (k, kInitialSequenceNum) s"
  using assms unfolding port_reachable_def
proof (induction rule: rtranclp_induct)
  case base
  then show ?case by (simp add: fresh_order)
next
  case (step s s')
  then have "sent_ok (arrived s)" using arrived_step sent_ok_prefix by fastforce
  then show ?case using step.IH step.prems step_order [OF step.hyps(2)] by blast
qed

text \<open>Handling from one set of events is determined: two runs that follow the order and are stuck
  have handled the same.\<close>

definition stuck_after :: "(node_name \<times> port_name) \<times> u64 \<Rightarrow> sent_event set \<Rightarrow> sent_event list \<Rightarrow> bool" where
  "stuck_after start A xs \<longleftrightarrow>
     in_turn start xs \<and> distinct xs \<and> set xs \<subseteq> A \<and> (\<forall>x \<in> A - set xs. event_key x \<noteq> foldl next_expected start xs)"

lemma in_turn_nth: "in_turn start xs \<Longrightarrow> i < length xs \<Longrightarrow> event_key (xs ! i) = foldl next_expected start (take i xs)"
proof (induction xs arbitrary: start i)
  case (Cons x xs)
  then show ?case by (cases i) auto
qed simp

lemma stuck_take:
  assumes "stuck_after start A xs" "stuck_after start A ys" "inj_on event_key A" "i \<le> length xs"
  shows "i \<le> length ys \<and> take i ys = take i xs"
  using assms(4)
proof (induction i)
  case (Suc i)
  then have IH: "i \<le> length ys" "take i ys = take i xs" and i: "i < length xs" by simp_all
  have "set xs \<subseteq> A" using assms(1) by (simp add: stuck_after_def)
  then have x: "event_key (xs ! i) = foldl next_expected start (take i xs)" "xs ! i \<in> A" "xs ! i \<notin> set (take i xs)"
    using assms(1) i in_turn_nth [of start xs i] nth_mem [OF i]
    by (simp add: stuck_after_def, blast, auto simp: stuck_after_def in_set_conv_nth nth_eq_iff_index_eq)
  have "i < length ys"
  proof (rule ccontr)
    assume "\<not> i < length ys"
    then have "take i xs = ys" using IH by simp
    then show False using assms(2) x by (auto simp: stuck_after_def)
  qed
  moreover from this have "event_key (ys ! i) = event_key (xs ! i)" "ys ! i \<in> A"
    using assms(2) in_turn_nth [of start ys i] x(1) IH(2) by (auto simp: stuck_after_def)
  then have "ys ! i = xs ! i" using assms(3) x(2) by (auto dest: inj_onD)
  ultimately show ?case using IH i by (simp add: take_Suc_conv_app_nth)
qed simp

lemma stuck_unique:
  assumes "stuck_after start A xs" "stuck_after start A ys" "inj_on event_key A"
  shows "xs = ys"
  using stuck_take [OF assms, of "length xs"] stuck_take [OF assms(2,1,3), of "length ys"] by simp

lemma idle_stuck:
  assumes "port_reachable k p s" "sent_ok (arrived s)" "active s = []"
  shows "stuck_after (k, kInitialSequenceNum) (set (arrived s)) (handled s)"
proof -
  obtain k' c where at: "order_at (k, kInitialSequenceNum) k' c s" using reachable_order [OF assms(1,2)] by (auto simp: order_inv_def)
  note D = order_atD [OF at]
  have "event_key x \<noteq> (k', c)" if "x \<in> waiting_events (sys_port s)" for x
    using D(12) assms(3) that by (simp add: phase_ok_def)
  then show ?thesis using D(1,3,4,5) assms(3) by (auto simp: stuck_after_def in_hand_def)
qed

text \<open>Concrete histories of one thread.\<close>

datatype port_act = Accept sent_event | Handle | Next

fun port_exec :: "port_act list \<Rightarrow> port_system \<Rightarrow> port_system option" where
  "port_exec [] s = Some s"
| "port_exec (Accept x # as) s = (if IsEventFromPreviousPeer (snd x) then port_exec as (accept_event x s) else None)"
| "port_exec (Handle # as) s =
     (case active s of (x, False) # _ \<Rightarrow> port_exec as (run_handler 0 x s) | _ \<Rightarrow> None)"
| "port_exec (Next # as) s =
     (case active s of (x, True) # _ \<Rightarrow> port_exec as (next_or_leave 0 s) | _ \<Rightarrow> None)"

lemma port_exec_steps: "port_exec as s = Some s' \<Longrightarrow> port_step\<^sup>*\<^sup>* s s'"
proof (induction as s rule: port_exec.induct)
  case (2 x as s)
  then show ?case by (auto split: if_splits intro: converse_rtranclp_into_rtranclp step_accept)
next
  case (3 as s)
  then obtain x rest where act: "active s = (x, False) # rest" and run: "port_exec as (run_handler 0 x s) = Some s'"
    by (auto split: list.splits prod.splits bool.splits)
  have "port_step s (run_handler 0 x s)" using act by (intro step_handle) simp_all
  then show ?case using "3.IH" [OF act refl refl] run by (metis converse_rtranclp_into_rtranclp)
next
  case (4 as s)
  then obtain x rest where act: "active s = (x, True) # rest" and run: "port_exec as (next_or_leave 0 s) = Some s'"
    by (auto split: list.splits prod.splits bool.splits)
  have "port_step s (next_or_leave 0 s)" using act by (intro step_next) simp_all
  then show ?case using "4.IH" [OF act refl refl] run by (metis converse_rtranclp_into_rtranclp)
qed simp

lemma port_exec_reachable:
  assumes "case port_exec as (port_fresh k p) of None \<Rightarrow> False | Some s \<Rightarrow> P s"
  shows "\<exists>s. port_reachable k p s \<and> P s"
  using assms port_exec_steps by (cases "port_exec as (port_fresh k p)") (auto simp: port_reachable_def)

definition demo_sender :: "node_name \<times> port_name" where
  "demo_sender = (\<lparr>v1 = 1, v2 = 2\<rparr>, \<lparr>v1 = 3, v2 = 4\<rparr>)"

definition demo_event :: "u64 \<Rightarrow> sent_event" where
  "demo_event n = (fst demo_sender, \<lparr>ev_port_name = \<lparr>v1 = 9, v2 = 9\<rparr>, ev_from_port = snd demo_sender, ev_control_sequence_num = n\<rparr>, ObserveClosure n)"

lemma demo_history:
  "\<exists>s. port_reachable demo_sender (Port 1 1) s \<and> arrived s = [demo_event 2, demo_event 1] \<and> active s = [] \<and>
     handled s = [demo_event 1, demo_event 2]"
  "\<exists>s. port_reachable demo_sender (Port 1 1) s \<and> arrived s = [demo_event 1, demo_event 2] \<and> active s = [] \<and>
     handled s = [demo_event 1, demo_event 2]"
proof -
  let ?run = "\<lambda>as. port_exec as (port_fresh demo_sender (Port 1 1))"
  have "case ?run [Accept (demo_event 2), Accept (demo_event 1), Handle, Next, Handle, Next] of
      None \<Rightarrow> False | Some s \<Rightarrow> arrived s = [demo_event 2, demo_event 1] \<and> active s = [] \<and> handled s = [demo_event 1, demo_event 2]"
    by code_simp
  then show "\<exists>s. port_reachable demo_sender (Port 1 1) s \<and> arrived s = [demo_event 2, demo_event 1] \<and> active s = [] \<and>
      handled s = [demo_event 1, demo_event 2]"
    by (rule port_exec_reachable)
  have "case ?run [Accept (demo_event 1), Handle, Accept (demo_event 2), Next, Handle, Next] of
      None \<Rightarrow> False | Some s \<Rightarrow> arrived s = [demo_event 1, demo_event 2] \<and> active s = [] \<and> handled s = [demo_event 1, demo_event 2]"
    by code_simp
  then show "\<exists>s. port_reachable demo_sender (Port 1 1) s \<and> arrived s = [demo_event 1, demo_event 2] \<and> active s = [] \<and>
      handled s = [demo_event 1, demo_event 2]"
    by (rule port_exec_reachable)
qed

lemma demo_sent_ok: "sent_ok [demo_event 2, demo_event 1]" "sent_ok [demo_event 1, demo_event 2]"
  by (simp_all add: sent_ok_def event_key_def demo_event_def)

text \<open>C28: However events arrive at a port and threads interleave, they are handled in the order promised:
  those of one sender by their numbers from one on, without gaps, until an event names the next sender;
  none is handled twice, by one thread at a time; and when no thread is at work the event due has not arrived.\<close>

theorem port_events_in_order:
  assumes "port_reachable k p s" "sent_ok (arrived s)"
  shows "in_turn (k, kInitialSequenceNum) (handled s) \<and> distinct (handled s) \<and> set (handled s) \<subseteq> set (arrived s) \<and>
    length (active s) \<le> 1 \<and>
    (active s = [] \<longrightarrow> (\<forall>x \<in> set (arrived s) - set (handled s).
       event_key x \<noteq> foldl next_expected (k, kInitialSequenceNum) (handled s)))"
proof -
  obtain k' c where at: "order_at (k, kInitialSequenceNum) k' c s" using reachable_order [OF assms] by (auto simp: order_inv_def)
  note D = order_atD [OF at]
  have "length (active s) \<le> 1" using D(12) by (auto simp: phase_ok_def split: list.splits prod.splits)
  moreover have "active s = [] \<longrightarrow> (\<forall>x \<in> set (arrived s) - set (handled s).
       event_key x \<noteq> foldl next_expected (k, kInitialSequenceNum) (handled s))"
    using idle_stuck [OF assms] by (auto simp: stuck_after_def)
  ultimately show ?thesis using D(3,4,5) by auto
qed

theorem port_events_in_order_witness:
  "\<exists>s. port_reachable demo_sender (Port 1 1) s \<and> arrived s = [demo_event 2, demo_event 1] \<and>
     in_turn (demo_sender, kInitialSequenceNum) (handled s) \<and> handled s = [demo_event 1, demo_event 2]"
proof -
  obtain s where s: "port_reachable demo_sender (Port 1 1) s" "arrived s = [demo_event 2, demo_event 1]" "handled s = [demo_event 1, demo_event 2]"
    using demo_history(1) by blast
  then have "sent_ok (arrived s)" by (simp add: demo_sent_ok)
  from port_events_in_order [OF s(1) this] show ?thesis using s by blast
qed

text \<open>The order in which events arrive does not matter: two histories of a port in which the same events
  arrived, in any order and with any interleaving of the threads, have handled the same events in the same
  order when no thread is at work.\<close>

theorem port_order_independent:
  assumes "port_reachable k p s" "port_reachable k p' s'" "set (arrived s) = set (arrived s')"
    "sent_ok (arrived s)" "sent_ok (arrived s')" "active s = []" "active s' = []"
  shows "handled s = handled s'"
proof (rule stuck_unique)
  show "stuck_after (k, kInitialSequenceNum) (set (arrived s)) (handled s)" using assms idle_stuck by blast
  show "stuck_after (k, kInitialSequenceNum) (set (arrived s)) (handled s')" using assms(2,3,5,7) idle_stuck [of k p' s'] by simp
  show "inj_on event_key (set (arrived s))" using assms(4) by (simp add: sent_ok_def distinct_map)
qed

text \<open>Closing a port gives back the user messages that wait, and nothing waits any more.\<close>

lemma sorted_put:
  "sorted_wrt (<) (map fst m) \<Longrightarrow> sorted_wrt (<) (map fst (map_put k v m)) \<and> fst ` set (map_put k v m) = insert k (fst ` set m)"
  by (induction k v m rule: map_put.induct) auto

lemma TakePendingMessages_ok:
  assumes "TakePendingMessages p = (ms, p')" "queue_ok p" "sorted_wrt (<) (map fst (control_event_queues p))"
  shows "set ms = {e. is_user_message e \<and> (\<exists>n. (n, e) \<in> waiting_events p)}" "waiting_events p' = {}"
proof -
  have "distinct (map fst (control_event_queues p))" using assms(3) by (simp add: strict_sorted_iff)
  then have entries: "(k, q) \<in> set (control_event_queues p) \<longleftrightarrow> map_of (control_event_queues p) k = Some q" for k q
    by (simp add: map_of_eq_Some_iff)
  show "set ms = {e. is_user_message e \<and> (\<exists>n. (n, e) \<in> waiting_events p)}"
  proof (intro equalityI subsetI)
    fix e assume "e \<in> set ms"
    then obtain k q where "(k, q) \<in> set (control_event_queues p)" "e \<in> set q" "is_user_message e"
      using assms(1) by (fastforce simp: TakePendingMessages_def)
    moreover from this have "ev_from_port (fst e) = snd k" using assms(2) entries unfolding queue_ok_def by blast
    ultimately have "(fst k, e) \<in> waiting_events p" using entries by (simp add: waiting_events_def)
    with \<open>is_user_message e\<close> show "e \<in> {e. is_user_message e \<and> (\<exists>n. (n, e) \<in> waiting_events p)}" by blast
  next
    fix e assume "e \<in> {e. is_user_message e \<and> (\<exists>n. (n, e) \<in> waiting_events p)}"
    then obtain n q where "((n, ev_from_port (fst e)), q) \<in> set (control_event_queues p)" "e \<in> set q" "is_user_message e"
      by (auto simp: waiting_events_def entries)
    then show "e \<in> set ms" using assms(1) by (force simp: TakePendingMessages_def)
  qed
  show "waiting_events p' = {}" using assms(1) by (auto simp: TakePendingMessages_def waiting_events_def)
qed

end
