(* ===== verification/Channel_Message.thy ===== *)
theory Channel_Message
  imports Byte_Encoding
begin

text \<open>
  The messages of a channel, \<open>mojo/core/channel.cc\<close>, on Linux (no extra header): small ones
  in a fixed buffer (\<open>TrivialMessage\<close>) and general ones (\<open>ComplexMessage\<close>), and the parser of a received one.
  A buffer is the list of its bytes; \<open>fresh n\<close> is what a newly allocated buffer of \<open>n\<close> bytes holds.
  \<open>None\<close> is an access outside of a buffer or a failed \<open>CHECK\<close>.  \<open>grow\<close> is the floating-point product
  with \<open>kGrowthFactor\<close>.
\<close>

section \<open>Buffers\<close>

definition put16 :: "u16 \<Rightarrow> u8 list" where
  "put16 x = le_bytes 2 (unat x)"

definition get16 :: "u16 reader" where
  "get16 bs = map_option (\<lambda>(x, bs). (of_nat x, bs)) (read_le 2 bs)"

interpretation p16: packed put16 get16 2
proof
  fix x :: u16
  have "unat x < 256 ^ 2" using unsigned_less [of x, where 'a = nat] by simp
  then show "get16 (put16 x @ rest) = Some (x, rest)" for rest by (simp add: put16_def get16_def)
qed (simp_all add: put16_def get16_def read_le_def reads_def)

definition peek16 :: "nat \<Rightarrow> u8 list \<Rightarrow> u16 option" where
  "peek16 i bs = map_option fst (get16 (drop i bs))"

definition peek32 :: "nat \<Rightarrow> u8 list \<Rightarrow> u32 option" where
  "peek32 i bs = map_option fst (get32 (drop i bs))"

definition peek :: "nat \<Rightarrow> nat \<Rightarrow> u8 list \<Rightarrow> u8 list option" where
  "peek i n bs = (if i + n \<le> length bs then Some (take n (drop i bs)) else None)"

definition poke :: "nat \<Rightarrow> u8 list \<Rightarrow> u8 list \<Rightarrow> u8 list option" where
  "poke i xs bs = (if i + length xs \<le> length bs then Some (take i bs @ xs @ drop (i + length xs) bs) else None)"

definition alloc_ok :: "(nat \<Rightarrow> u8 list) \<Rightarrow> bool" where
  "alloc_ok fresh \<longleftrightarrow> (\<forall>n. length (fresh n) = n)"

lemma peek_put [simp]: "peek16 0 (put16 x @ rest) = Some x" "peek32 0 (put32 y @ rest) = Some y"
  by (simp_all add: peek16_def peek32_def)

lemma peek_skip [simp]:
  "length xs \<le> i \<Longrightarrow> peek16 i (xs @ ys) = peek16 (i - length xs) ys"
  "length xs \<le> i \<Longrightarrow> peek32 i (xs @ ys) = peek32 (i - length xs) ys"
  "length xs \<le> i \<Longrightarrow> peek i n (xs @ ys) = peek (i - length xs) n ys"
  by (auto simp: peek16_def peek32_def peek_def)

lemma peek_here: "length xs = n \<Longrightarrow> peek 0 n (xs @ ys) = Some xs"
  by (simp add: peek_def)

lemma peek_total:
  "i + 2 \<le> length bs \<Longrightarrow> \<exists>x. peek16 i bs = Some x" "i + 4 \<le> length bs \<Longrightarrow> \<exists>y. peek32 i bs = Some y"
  using p16.get_at [of i bs] p32.get_at [of i bs] by (auto simp: peek16_def peek32_def)

lemma poke_skip [simp]: "length xs \<le> i \<Longrightarrow> poke i zs (xs @ ys) = map_option (append xs) (poke (i - length xs) zs ys)"
  by (auto simp: poke_def)

lemma poke_here: "length xs = length zs \<Longrightarrow> poke 0 zs (xs @ ys) = Some (zs @ ys)"
  by (simp add: poke_def)

section \<open>Messages\<close>

definition NORMAL_LEGACY :: u16 where "NORMAL_LEGACY = 0"
definition NORMAL :: u16 where "NORMAL = 1"
definition UPGRADE_OFFER :: u16 where "UPGRADE_OFFER = 2"
definition UPGRADE_ACCEPT :: u16 where "UPGRADE_ACCEPT = 3"
definition UPGRADE_REJECT :: u16 where "UPGRADE_REJECT = 4"

definition sizeof_LegacyHeader :: nat where "sizeof_LegacyHeader = 8"
definition sizeof_Header :: nat where "sizeof_Header = 16"
definition kMaxAttachedHandles :: nat where "kMaxAttachedHandles = 64"
definition kInternalCapacity :: nat where "kInternalCapacity = 240"

lemmas channel_sizes [simp] = sizeof_LegacyHeader_def sizeof_Header_def kMaxAttachedHandles_def kInternalCapacity_def

record channel_message =
  msg_trivial :: bool
  msg_data :: "u8 list"
  msg_size :: nat
  msg_max_handles :: nat
  handle_vector :: "int list"

definition data_num_bytes :: "channel_message \<Rightarrow> nat" where
  "data_num_bytes m = msg_size m"

definition is_legacy_message :: "channel_message \<Rightarrow> bool option" where
  "is_legacy_message m = map_option (\<lambda>t. t = NORMAL_LEGACY) (peek16 6 (msg_data m))"

text \<open>The size of the header: that of \<open>LegacyHeader\<close>, or \<open>header()->num_header_bytes\<close>.\<close>

definition header_length_of :: "channel_message \<Rightarrow> nat option" where
  "header_length_of m = do {
     legacy \<leftarrow> is_legacy_message m;
     if legacy then Some sizeof_LegacyHeader else map_option unat (peek16 4 (msg_data m))
   }"

definition payload_size_of :: "channel_message \<Rightarrow> nat option" where
  "payload_size_of m = do {
     legacy \<leftarrow> is_legacy_message m;
     if legacy then map_option (\<lambda>n. unat n - sizeof_LegacyHeader) (peek32 0 (msg_data m))
     else map_option (\<lambda>n. msg_size m - unat n) (peek16 4 (msg_data m))
   }"

definition payload_of :: "channel_message \<Rightarrow> u8 list option" where
  "payload_of m = do {
     h \<leftarrow> header_length_of m;
     n \<leftarrow> payload_size_of m;
     peek h n (msg_data m)
   }"

definition num_handles_of :: "channel_message \<Rightarrow> u16 option" where
  "num_handles_of m = do {
     legacy \<leftarrow> is_legacy_message m;
     if legacy then peek16 4 (msg_data m) else peek16 8 (msg_data m)
   }"

text \<open>\<open>memcpy\<close> to \<open>mutable_payload\<close>.\<close>

definition write_payload :: "u8 list \<Rightarrow> channel_message \<Rightarrow> channel_message option" where
  "write_payload xs m = do {
     h \<leftarrow> header_length_of m;
     d \<leftarrow> poke h xs (msg_data m);
     Some (m\<lparr>msg_data := d\<rparr>)
   }"

definition ComplexMessage :: "(nat \<Rightarrow> u8 list) \<Rightarrow> nat \<Rightarrow> nat \<Rightarrow> nat \<Rightarrow> u16 \<Rightarrow> channel_message option" where
  "ComplexMessage fresh capacity payload_size max_handles message_type = do {
     let is_legacy = (message_type = NORMAL_LEGACY);
     let header_size = (if is_legacy then sizeof_LegacyHeader else sizeof_Header);
     let size = header_size + payload_size;
     d \<leftarrow> poke 0 (replicate header_size 0) (fresh (header_size + capacity));
     d \<leftarrow> poke 0 (put32 (of_nat size)) d;
     d \<leftarrow> poke 6 (put16 message_type) d;
     d \<leftarrow> (if is_legacy then poke 4 (put16 (of_nat max_handles)) d else poke 4 (put16 (of_nat header_size)) d);
     Some \<lparr>msg_trivial = False, msg_data = d, msg_size = size, msg_max_handles = max_handles, handle_vector = []\<rparr>
   }"

text \<open>\<open>TryConstruct\<close>; the inner \<open>None\<close> is the null pointer.\<close>

definition TryConstruct :: "nat \<Rightarrow> u16 \<Rightarrow> channel_message option option" where
  "TryConstruct payload_size message_type = do {
     let is_legacy = (message_type = NORMAL_LEGACY);
     let header_size = (if is_legacy then sizeof_LegacyHeader else sizeof_Header);
     let size = header_size + payload_size;
     if size > kInternalCapacity then Some None
     else do {
       d \<leftarrow> poke 0 (put32 (of_nat size)) (replicate kInternalCapacity 0);
       d \<leftarrow> poke 6 (put16 message_type) d;
       d \<leftarrow> (if is_legacy then Some d else poke 4 (put16 (of_nat header_size)) d);
       Some (Some \<lparr>msg_trivial = True, msg_data = d, msg_size = size, msg_max_handles = 0, handle_vector = []\<rparr>)
     }
   }"

definition CreateMessage :: "bool \<Rightarrow> (nat \<Rightarrow> u8 list) \<Rightarrow> nat \<Rightarrow> nat \<Rightarrow> nat \<Rightarrow> u16 \<Rightarrow> channel_message option" where
  "CreateMessage use_trivial fresh capacity payload_size max_handles message_type = do {
     r \<leftarrow> (if use_trivial \<and> capacity + max sizeof_Header sizeof_LegacyHeader \<le> kInternalCapacity \<and> max_handles = 0
           then TryConstruct payload_size message_type else Some None);
     case r of Some msg \<Rightarrow> Some msg | None \<Rightarrow> ComplexMessage fresh capacity payload_size max_handles message_type
   }"

definition capacity_of :: "channel_message \<Rightarrow> nat option" where
  "capacity_of m = map_option (\<lambda>h. length (msg_data m) - h) (header_length_of m)"

definition Complex_ExtendPayload :: "(nat \<Rightarrow> u8 list) \<Rightarrow> (nat \<Rightarrow> nat) \<Rightarrow> nat \<Rightarrow> channel_message \<Rightarrow> channel_message option" where
  "Complex_ExtendPayload fresh grow new_payload_size m = do {
     capacity_without_header \<leftarrow> capacity_of m;
     let header_size = length (msg_data m) - capacity_without_header;
     d \<leftarrow> (if new_payload_size > capacity_without_header
           then poke 0 (msg_data m) (fresh (max (grow capacity_without_header) new_payload_size + header_size))
           else Some (msg_data m));
     let size = header_size + new_payload_size;
     d \<leftarrow> poke 0 (put32 (of_nat size)) d;
     Some (m\<lparr>msg_data := d, msg_size := size\<rparr>)
   }"

definition Trivial_ExtendPayload :: "nat \<Rightarrow> channel_message \<Rightarrow> (bool \<times> channel_message) option" where
  "Trivial_ExtendPayload new_payload_size m = do {
     capacity_without_header \<leftarrow> capacity_of m;
     let header_size = kInternalCapacity - capacity_without_header;
     let required_size = new_payload_size + header_size;
     if required_size > kInternalCapacity then Some (False, m)
     else do {
       d \<leftarrow> poke 0 (put32 (of_nat required_size)) (msg_data m);
       Some (True, m\<lparr>msg_data := d, msg_size := required_size\<rparr>)
     }
   }"

definition ExtendPayload :: "(nat \<Rightarrow> u8 list) \<Rightarrow> (nat \<Rightarrow> nat) \<Rightarrow> nat \<Rightarrow> channel_message \<Rightarrow> channel_message option" where
  "ExtendPayload fresh grow new_payload_size m =
     (if \<not> msg_trivial m then Complex_ExtendPayload fresh grow new_payload_size m
      else do {
        (done, m) \<leftarrow> Trivial_ExtendPayload new_payload_size m;
        if done then Some m
        else do {
          capacity_without_header \<leftarrow> capacity_of m;
          message_type \<leftarrow> peek16 6 (msg_data m);
          m' \<leftarrow> ComplexMessage fresh new_payload_size new_payload_size 0 message_type;
          h \<leftarrow> header_length_of m;
          xs \<leftarrow> peek h capacity_without_header (msg_data m);
          write_payload xs m'
        }
      })"

definition SetHandles :: "int list \<Rightarrow> channel_message \<Rightarrow> channel_message option" where
  "SetHandles new_handles m =
     (if msg_trivial m then (if new_handles = [] then Some m else None)
      else do {
        legacy \<leftarrow> is_legacy_message m;
        if legacy then do {
          n \<leftarrow> peek16 4 (msg_data m);
          if n = 0 then (if new_handles = [] then Some m else None)
          else if length new_handles = unat n then Some (m\<lparr>handle_vector := new_handles\<rparr>) else None
        }
        else if msg_max_handles m = 0 then (if new_handles = [] then Some m else None)
        else if length new_handles \<le> msg_max_handles m then do {
          d \<leftarrow> poke 8 (put16 (of_nat (length new_handles))) (msg_data m);
          Some (m\<lparr>msg_data := d, handle_vector := new_handles\<rparr>)
        }
        else None
      })"

definition TakeHandles :: "channel_message \<Rightarrow> int list \<times> channel_message" where
  "TakeHandles m = (if msg_trivial m then ([], m) else (handle_vector m, m\<lparr>handle_vector := []\<rparr>))"

text \<open>\<open>IpczMessage\<close>, the messages of a channel for ipcz, with \<open>IpczHeader\<close>: its size, the number of handles, the size of
  the message.\<close>

definition sizeof_IpczHeader :: nat where "sizeof_IpczHeader = 8"

definition CreateIpczMessage :: "(nat \<Rightarrow> u8 list) \<Rightarrow> u8 list \<Rightarrow> int list \<Rightarrow> channel_message option" where
  "CreateIpczMessage fresh data handles = do {
     let size = sizeof_IpczHeader + length data;
     d \<leftarrow> poke 0 (put16 (of_nat sizeof_IpczHeader)) (fresh size);
     d \<leftarrow> poke 2 (put16 (of_nat (length handles))) d;
     d \<leftarrow> poke 4 (put32 (of_nat size)) d;
     d \<leftarrow> poke sizeof_IpczHeader data d;
     Some \<lparr>msg_trivial = False, msg_data = d, msg_size = size, msg_max_handles = 0, handle_vector = handles\<rparr>
   }"

datatype handle_policy = kAcceptHandles | kRejectHandles

text \<open>\<open>Message::Deserialize\<close>; the inner \<open>None\<close> is the null pointer.\<close>

definition Deserialize :: "bool \<Rightarrow> (nat \<Rightarrow> u8 list) \<Rightarrow> handle_policy \<Rightarrow> u8 list \<Rightarrow> channel_message option option" where
  "Deserialize use_trivial fresh policy data =
     (if length data < sizeof_LegacyHeader then Some None
      else do {
        num_bytes \<leftarrow> peek32 0 data;
        if unat num_bytes \<noteq> length data then Some None
        else do {
          message_type \<leftarrow> peek16 6 data;
          num_header_bytes \<leftarrow> peek16 4 data;
          let legacy = (message_type = NORMAL_LEGACY);
          if \<not> legacy \<and> (unat num_bytes < unat num_header_bytes \<or> unat num_header_bytes < sizeof_Header) then Some None
          else do {
            let extra_header_size = (if legacy then 0 else unat num_header_bytes - sizeof_Header);
            let header_size = (if legacy then sizeof_LegacyHeader else unat num_header_bytes);
            let payload_size = length data - header_size;
            let max_handles = (0 :: nat);
            if extra_header_size mod 8 \<noteq> 0 \<or> extra_header_size > 0 then Some None
            else do {
              num_handles \<leftarrow> (if legacy then peek16 4 data else peek16 8 data);
              if unat num_handles > max_handles \<or> max_handles > kMaxAttachedHandles then Some None
              else if num_handles > 0 \<and> policy = kRejectHandles then Some None
              else do {
                m \<leftarrow> CreateMessage use_trivial fresh payload_size payload_size max_handles message_type;
                payload \<leftarrow> peek header_size payload_size data;
                m \<leftarrow> (if payload_size > 0 then write_payload payload m else Some m);
                d \<leftarrow> (if legacy then poke 4 (put16 num_handles) (msg_data m) else poke 8 (put16 num_handles) (msg_data m));
                Some (Some (m\<lparr>msg_data := d\<rparr>))
              }
            }
          }
        }
      })"

section \<open>The format\<close>

definition header_size :: "u16 \<Rightarrow> nat" where
  "header_size t = (if t = NORMAL_LEGACY then sizeof_LegacyHeader else sizeof_Header)"

definition header_bytes :: "u16 \<Rightarrow> nat \<Rightarrow> u16 \<Rightarrow> u8 list" where
  "header_bytes t sz n =
     put32 (of_nat sz) @
     (if t = NORMAL_LEGACY then put16 n @ put16 t else put16 16 @ put16 t @ put16 n @ replicate 6 0)"

definition wire :: "channel_message \<Rightarrow> u8 list" where
  "wire m = take (msg_size m) (msg_data m)"

definition frame_bytes :: "u16 \<Rightarrow> u16 \<Rightarrow> u8 list \<Rightarrow> u8 list" where
  "frame_bytes t n xs = header_bytes t (header_size t + length xs) n @ xs"

text \<open>The message has type \<open>t\<close>, announces \<open>n\<close> handles and carries \<open>xs\<close>.\<close>

definition carries :: "u16 \<Rightarrow> u16 \<Rightarrow> u8 list \<Rightarrow> channel_message \<Rightarrow> bool" where
  "carries t n xs m \<longleftrightarrow>
     msg_size m = header_size t + length xs \<and> msg_size m < 2 ^ 32 \<and> (\<exists>rest. msg_data m = frame_bytes t n xs @ rest) \<and>
     (msg_trivial m \<longrightarrow> length (msg_data m) = kInternalCapacity \<and> msg_max_handles m = 0)"

definition ipcz_frame :: "u16 \<Rightarrow> u8 list \<Rightarrow> u8 list" where
  "ipcz_frame n xs = put16 8 @ put16 n @ put32 (of_nat (8 + length xs)) @ xs"

lemma length_header [simp]: "length (header_bytes t sz n) = header_size t"
  by (simp add: header_bytes_def header_size_def)

lemma length_frame [simp]: "length (frame_bytes t n xs) = header_size t + length xs"
  by (simp add: frame_bytes_def)

lemma carries_wire: "carries t n xs m \<Longrightarrow> wire m = frame_bytes t n xs"
  by (auto simp: carries_def wire_def)

lemma frame_fields:
  "peek32 0 (frame_bytes t n xs @ rest) = Some (of_nat (header_size t + length xs))"
  "peek16 6 (frame_bytes t n xs @ rest) = Some t"
  "peek16 4 (frame_bytes t n xs @ rest) = Some (if t = NORMAL_LEGACY then n else 16)"
  "t \<noteq> NORMAL_LEGACY \<Longrightarrow> peek16 8 (frame_bytes t n xs @ rest) = Some n"
  by (simp_all add: frame_bytes_def header_bytes_def)

lemma header_size_cases: "header_size t = 8 \<or> header_size t = 16"
  by (simp add: header_size_def)

lemma carries_fields:
  assumes "carries t n xs m"
  shows "is_legacy_message m = Some (t = NORMAL_LEGACY)" "header_length_of m = Some (header_size t)"
    "payload_size_of m = Some (length xs)" "payload_of m = Some xs" "num_handles_of m = Some n"
    "capacity_of m = Some (length (msg_data m) - header_size t)" "peek16 6 (msg_data m) = Some t"
proof -
  obtain rest where d: "msg_data m = frame_bytes t n xs @ rest" using assms by (auto simp: carries_def)
  have size: "unat (of_nat (header_size t + length xs) :: u32) = header_size t + length xs" "msg_size m = header_size t + length xs"
    using assms by (simp_all add: carries_def unat_of_nat del: of_nat_add)
  show l: "is_legacy_message m = Some (t = NORMAL_LEGACY)" "peek16 6 (msg_data m) = Some t"
    by (simp_all add: is_legacy_message_def d frame_fields)
  show h: "header_length_of m = Some (header_size t)" "num_handles_of m = Some n"
    by (simp_all add: header_length_of_def l num_handles_of_def d frame_fields header_size_def)
  show p: "payload_size_of m = Some (length xs)"
    using size by (cases "t = NORMAL_LEGACY") (simp_all add: payload_size_of_def l d frame_fields header_size_def del: of_nat_add)
  have "peek (header_size t) (length xs) (frame_bytes t n xs @ rest) = Some xs"
    by (simp add: frame_bytes_def peek_here)
  then show "payload_of m = Some xs" by (simp add: payload_of_def h p d)
  show "capacity_of m = Some (length (msg_data m) - header_size t)" by (simp add: capacity_of_def h)
qed

lemma carriesI:
  "msg_data m = frame_bytes t n xs @ rest \<Longrightarrow> msg_size m = header_size t + length xs \<Longrightarrow> msg_size m < 2 ^ 32 \<Longrightarrow>
    (msg_trivial m \<Longrightarrow> length (msg_data m) = kInternalCapacity \<and> msg_max_handles m = 0) \<Longrightarrow> carries t n xs m"
  by (auto simp: carries_def)

text \<open>Writing the fields of a header into cleared bytes.\<close>

lemma le_bytes_0: "le_bytes n 0 = replicate n 0"
  by (induction n) simp_all

lemma clear_header: "replicate 8 (0 :: u8) = put32 0 @ put16 0 @ put16 0" "replicate 16 (0 :: u8) = put32 0 @ put16 0 @ put16 0 @ put16 0 @ replicate 6 0"
  by (simp_all add: put32_def put16_def le_bytes_0 flip: replicate_add)

lemma poke_fields [simp]:
  "poke 0 (put32 a) (put32 b @ rest) = Some (put32 a @ rest)" "poke 0 (put16 c) (put16 d @ rest) = Some (put16 c @ rest)"
  by (simp_all add: poke_here)

lemma poke_front: "length zs \<le> length bs \<Longrightarrow> poke 0 zs bs = Some (zs @ drop (length zs) bs)"
  by (simp add: poke_def)

lemma poke_at: "length xs = i \<Longrightarrow> length zs = length ys \<Longrightarrow> poke i ys (xs @ zs @ rest) = Some (xs @ ys @ rest)"
  by (simp add: poke_def)

lemma split_fields:
  assumes "length bs = 8 + k"
  obtains ws xs ys zs where "bs = ws @ xs @ ys @ zs" "length ws = 2" "length xs = 2" "length ys = 4" "length zs = k"
proof
  show "bs = take 2 bs @ take 2 (drop 2 bs) @ take 4 (drop 4 bs) @ drop 8 bs"
    by (metis append_take_drop_id drop_drop numeral_Bit0 add.assoc)
qed (use assms in simp_all)

lemma CreateIpczMessage_ok:
  assumes "alloc_ok fresh"
  shows "\<exists>m. CreateIpczMessage fresh xs hs = Some m \<and> wire m = ipcz_frame (of_nat (length hs)) xs \<and> fst (TakeHandles m) = hs"
proof -
  have "length (fresh (8 + length xs)) = 8 + length xs" using assms by (simp add: alloc_ok_def)
  then obtain as bs cs ds where d: "fresh (8 + length xs) = as @ bs @ cs @ ds" "length as = 2" "length bs = 2" "length cs = 4" "length ds = length xs"
    by (rule split_fields)
  define n :: u16 where "n = of_nat (length hs)"
  define sz :: u32 where "sz = of_nat (8 + length xs)"
  have p1: "poke 0 (put16 8) (as @ bs @ cs @ ds) = Some (put16 8 @ bs @ cs @ ds)" using d poke_at [of "[]" 0 as "put16 8"] by simp
  have p2: "poke 2 (put16 n) (put16 8 @ bs @ cs @ ds) = Some (put16 8 @ put16 n @ cs @ ds)" using d(3) by (intro poke_at) simp_all
  have p3: "poke 4 (put32 sz) ((put16 8 @ put16 n) @ cs @ ds) = Some ((put16 8 @ put16 n) @ put32 sz @ ds)" using d(4) by (intro poke_at) simp_all
  have p4: "poke 8 xs ((put16 8 @ put16 n @ put32 sz) @ ds @ []) = Some ((put16 8 @ put16 n @ put32 sz) @ xs @ [])" using d(5) by (intro poke_at) simp_all
  have "CreateIpczMessage fresh xs hs = Some \<lparr>msg_trivial = False, msg_data = put16 8 @ put16 n @ put32 sz @ xs, msg_size = 8 + length xs,
      msg_max_handles = 0, handle_vector = hs\<rparr>"
    using p1 p2 p3 p4 unfolding append_assoc append_Nil2
    by (simp only: CreateIpczMessage_def sizeof_IpczHeader_def Let_def d(1) of_nat_numeral n_def [symmetric] sz_def [symmetric] bind.bind_lunit)
  then show ?thesis by (simp add: wire_def ipcz_frame_def n_def sz_def TakeHandles_def)
qed

lemma split_payload: "k \<le> length bs \<Longrightarrow> \<exists>xs rest. bs = xs @ rest \<and> length xs = k"
  by (metis append_take_drop_id length_take min.absorb2)

lemma ComplexMessage_ok:
  assumes "alloc_ok fresh" "k \<le> c" "header_size t + k < 2 ^ 32"
  obtains m xs where "ComplexMessage fresh c k mh t = Some m" "carries t (if t = NORMAL_LEGACY then of_nat mh else 0) xs m"
    "length xs = k" "\<not> msg_trivial m" "length (msg_data m) = header_size t + c" "msg_max_handles m = mh" "handle_vector m = []"
proof -
  let ?h = "header_size t"
  have len: "length (fresh (?h + c)) = ?h + c" using assms(1) by (simp add: alloc_ok_def)
  then have "k \<le> length (drop ?h (fresh (?h + c)))" using assms(2) by simp
  then obtain xs rest where xs: "drop ?h (fresh (?h + c)) = xs @ rest" "length xs = k" using split_payload by blast
  have cleared: "poke 0 (replicate ?h 0) (fresh (?h + c)) = Some (replicate ?h 0 @ xs @ rest)"
    using len by (simp add: poke_front flip: xs(1))
  let ?n = "if t = NORMAL_LEGACY then of_nat mh else 0"
  let ?m = "\<lparr>msg_trivial = False, msg_data = frame_bytes t ?n xs @ rest, msg_size = ?h + k, msg_max_handles = mh, handle_vector = []\<rparr>"
  have "ComplexMessage fresh c k mh t = Some ?m"
  proof (cases "t = NORMAL_LEGACY")
    case True
    then show ?thesis
      using cleared xs(2)
      by (simp add: ComplexMessage_def Let_def header_size_def frame_bytes_def header_bytes_def clear_header)
  next
    case False
    then show ?thesis
      using cleared xs(2)
      by (simp add: ComplexMessage_def Let_def header_size_def frame_bytes_def header_bytes_def clear_header)
  qed
  moreover have "carries t ?n xs ?m" using assms(3) xs(2) by (intro carriesI) simp_all
  moreover have "length (xs @ rest) = c" using len by (simp flip: xs(1))
  then have "length (msg_data ?m) = ?h + c" by simp
  ultimately show ?thesis using that [of ?m xs] xs(2) by simp
qed

lemma TryConstruct_ok:
  shows "TryConstruct k t = Some None \<and> kInternalCapacity < header_size t + k \<or>
    (\<exists>m xs. TryConstruct k t = Some (Some m) \<and> carries t 0 xs m \<and> length xs = k \<and> msg_trivial m)"
proof (cases "header_size t + k \<le> 240")
  case True
  then have "k \<le> length (replicate (240 - header_size t) (0 :: u8))" by simp
  then obtain xs rest where xs: "replicate (240 - header_size t) (0 :: u8) = xs @ rest" "length xs = k" using split_payload by blast
  have "(240 :: nat) = header_size t + (240 - header_size t)" using header_size_cases [of t] by auto
  then have zero: "replicate 240 (0 :: u8) = replicate (header_size t) 0 @ xs @ rest" by (metis replicate_add xs(1))
  let ?m = "\<lparr>msg_trivial = True, msg_data = frame_bytes t 0 xs @ rest, msg_size = header_size t + k, msg_max_handles = 0, handle_vector = []\<rparr>"
  have "TryConstruct k t = Some (Some ?m)"
    using True xs(2) zero
    by (cases "t = NORMAL_LEGACY") (simp_all add: TryConstruct_def Let_def header_size_def frame_bytes_def header_bytes_def clear_header)
  moreover have "length (frame_bytes t 0 xs @ rest) = 240"
    using arg_cong [OF zero, of length] by simp
  then have "carries t 0 xs ?m" using True xs(2) by (intro carriesI) simp_all
  ultimately show ?thesis using xs(2) by fastforce
next
  case False
  then show ?thesis by (auto simp: TryConstruct_def header_size_def)
qed

lemma CreateMessage_ok:
  assumes "alloc_ok fresh" "k \<le> c" "header_size t + k < 2 ^ 32"
  obtains m xs where "CreateMessage use_trivial fresh c k mh t = Some m" "carries t (if t = NORMAL_LEGACY then of_nat mh else 0) xs m"
    "length xs = k" "\<not> msg_trivial m \<Longrightarrow> msg_max_handles m = mh"
proof -
  obtain m xs where complex: "ComplexMessage fresh c k mh t = Some m" "carries t (if t = NORMAL_LEGACY then of_nat mh else 0) xs m"
    "length xs = k" "msg_max_handles m = mh" using ComplexMessage_ok [OF assms, of mh] by metis
  show ?thesis
  proof (cases "use_trivial \<and> c + 16 \<le> 240 \<and> mh = 0")
    case True
    then have "TryConstruct k t \<noteq> Some None" using TryConstruct_ok [of k t] assms(2) header_size_cases [of t] by auto
    then obtain m' xs' where "TryConstruct k t = Some (Some m')" "carries t 0 xs' m'" "length xs' = k" "msg_trivial m'"
      using TryConstruct_ok [of k t] by auto
    moreover have "(if t = NORMAL_LEGACY then of_nat mh else 0 :: u16) = 0" using True by simp
    ultimately show ?thesis using True that [of m' xs'] by (simp add: CreateMessage_def)
  next
    case False
    then show ?thesis using complex that [of m xs] by (auto simp: CreateMessage_def)
  qed
qed

lemma write_payload_ok:
  assumes "carries t n xs m" "length ys \<le> length xs"
  shows "\<exists>m'. write_payload ys m = Some m' \<and> msg_trivial m' = msg_trivial m \<and> msg_max_handles m' = msg_max_handles m \<and>
    handle_vector m' = handle_vector m \<and> carries t n (ys @ drop (length ys) xs) m'"
proof -
  obtain rest where d: "msg_data m = frame_bytes t n xs @ rest" using assms(1) by (auto simp: carries_def)
  let ?xs = "ys @ drop (length ys) xs"
  let ?m = "m\<lparr>msg_data := frame_bytes t n ?xs @ rest\<rparr>"
  have "poke (header_size t) ys (msg_data m) = Some (frame_bytes t n ?xs @ rest)"
    using assms(2) by (simp add: d frame_bytes_def poke_def)
  then have "write_payload ys m = Some ?m" by (simp add: write_payload_def carries_fields(2) [OF assms(1)])
  moreover have "carries t n ?xs ?m" using assms by (auto simp: carries_def d)
  ultimately show ?thesis by simp
qed

lemma resize_frame:
  assumes "carries t n xs m" "k \<le> length (msg_data m) - header_size t" "header_size t + k < 2 ^ 32"
  shows "\<exists>ys d. poke 0 (put32 (of_nat (header_size t + k))) (msg_data m) = Some d \<and>
    carries t n (take k xs @ ys) (m\<lparr>msg_data := d, msg_size := header_size t + k\<rparr>) \<and> length (take k xs @ ys) = k"
proof -
  obtain rest where d: "msg_data m = frame_bytes t n xs @ rest" using assms(1) by (auto simp: carries_def)
  have "k \<le> length (xs @ rest)" using assms(2) by (simp add: d)
  then obtain zs r where zs: "xs @ rest = zs @ r" "length zs = k" using split_payload by blast
  have len: "length xs + length rest = length zs + length r" using arg_cong [OF zs(1), of length] by (simp only: length_append)
  let ?d = "frame_bytes t n zs @ r"
  have "poke 0 (put32 (of_nat (header_size t + k))) (msg_data m) = Some ?d"
    using zs by (simp add: d frame_bytes_def header_bytes_def)
  moreover have "carries t n zs (m\<lparr>msg_data := ?d, msg_size := header_size t + k\<rparr>)"
    using assms zs(2) len by (intro carriesI) (auto simp: carries_def d)
  moreover have "zs = take k xs @ take (k - length xs) rest" using arg_cong [OF zs(1), of "take k"] zs(2) by simp
  ultimately show ?thesis using zs(2) by metis
qed

text \<open>Extending keeps what the message carries; the new bytes are unspecified.\<close>

lemma ExtendPayload_ok:
  assumes "alloc_ok fresh" "carries t n xs m" "header_size t + k < 2 ^ 32" "msg_trivial m \<Longrightarrow> n = 0"
  obtains m' ys where "ExtendPayload fresh grow k m = Some m'" "carries t n (take k xs @ ys) m'" "length (take k xs @ ys) = k"
proof -
  note F = carries_fields [OF assms(2)]
  obtain rest where d: "msg_data m = frame_bytes t n xs @ rest" using assms(2) by (auto simp: carries_def)
  have hl: "header_size t \<le> length (msg_data m)" by (simp add: d)
  let ?cap = "length (msg_data m) - header_size t"
  show ?thesis
  proof (cases "msg_trivial m")
    case False
    define d' where "d' = (if k > ?cap then msg_data m @ drop (length (msg_data m)) (fresh (max (grow ?cap) k + header_size t)) else msg_data m)"
    have room: "k \<le> length d' - header_size t" using assms(1) hl by (simp add: d'_def alloc_ok_def)
    have grown: "(if k > ?cap then poke 0 (msg_data m) (fresh (max (grow ?cap) k + header_size t)) else Some (msg_data m)) = Some d'"
      using assms(1) hl by (auto simp: d'_def alloc_ok_def poke_front)
    have "carries t n xs (m\<lparr>msg_data := d'\<rparr>)" using assms(2) False by (auto simp: carries_def d'_def)
    from resize_frame [OF this, of k] room assms(3)
    obtain ys d2 where r: "poke 0 (put32 (of_nat (header_size t + k))) d' = Some d2"
      "carries t n (take k xs @ ys) (m\<lparr>msg_data := d2, msg_size := header_size t + k\<rparr>)" "length (take k xs @ ys) = k" by auto
    have "ExtendPayload fresh grow k m = Some (m\<lparr>msg_data := d2, msg_size := header_size t + k\<rparr>)"
      using False F(6) grown r(1) hl by (cases "?cap < k") (simp_all add: ExtendPayload_def Complex_ExtendPayload_def Let_def)
    then show ?thesis using that r(2,3) by blast
  next
    case True
    then have size: "length (msg_data m) = 240" and n: "n = 0" using assms(2,4) by (simp_all add: carries_def)
    show ?thesis
    proof (cases "k + header_size t \<le> 240")
      case fits: True
      then have "k \<le> ?cap" using size by simp
      from resize_frame [OF assms(2) this assms(3)]
      obtain ys d2 where r: "poke 0 (put32 (of_nat (header_size t + k))) (msg_data m) = Some d2"
        "carries t n (take k xs @ ys) (m\<lparr>msg_data := d2, msg_size := header_size t + k\<rparr>)" "length (take k xs @ ys) = k" by blast
      have "ExtendPayload fresh grow k m = Some (m\<lparr>msg_data := d2, msg_size := header_size t + k\<rparr>)"
        using True F(6) r(1) hl size fits
        by (simp add: ExtendPayload_def Trivial_ExtendPayload_def Let_def add.commute [of k])
      then show ?thesis using that r(2,3) by blast
    next
      case large: False
      obtain m' zs where c: "ComplexMessage fresh k k 0 t = Some m'" "carries t (if t = NORMAL_LEGACY then of_nat 0 else 0) zs m'" "length zs = k"
        using ComplexMessage_ok [OF assms(1) le_refl assms(3), of 0] by metis
      then have c2: "carries t n zs m'" using n by (simp split: if_splits)
      let ?old = "xs @ rest"
      have len: "length ?old = ?cap" "length ?old \<le> length zs" using large size c(3) by (simp_all add: d)
      have old: "peek (header_size t) ?cap (msg_data m) = Some ?old"
        by (simp add: d frame_bytes_def peek_def)
      obtain m2 where m2: "write_payload ?old m' = Some m2" "carries t n (?old @ drop (length ?old) zs) m2"
        using write_payload_ok [OF c2 len(2)] by blast
      have "ExtendPayload fresh grow k m = Some m2"
        using True F(2,6,7) large size c(1) old m2(1) hl
        by (simp add: ExtendPayload_def Trivial_ExtendPayload_def Let_def)
      moreover have "?old @ drop (length ?old) zs = take k xs @ rest @ drop (length ?old) zs" using len(2) c(3) by simp
      ultimately show ?thesis using that [of m2 "rest @ drop (length ?old) zs"] m2(2) len(2) c(3) by simp
    qed
  qed
qed

section \<open>Reading a message\<close>

definition build_received :: "bool \<Rightarrow> (nat \<Rightarrow> u8 list) \<Rightarrow> u16 \<Rightarrow> u8 list \<Rightarrow> channel_message option option" where
  "build_received use_trivial fresh t payload = do {
     m \<leftarrow> CreateMessage use_trivial fresh (length payload) (length payload) 0 t;
     m \<leftarrow> (if length payload > 0 then write_payload payload m else Some m);
     d \<leftarrow> (if t = NORMAL_LEGACY then poke 4 (put16 0) (msg_data m) else poke 8 (put16 0) (msg_data m));
     Some (Some (m\<lparr>msg_data := d\<rparr>))
   }"

lemma build_received_ok:
  assumes "alloc_ok fresh" "header_size t + length xs < 2 ^ 32"
  obtains m where "build_received use_trivial fresh t xs = Some (Some m)" "carries t 0 xs m"
proof -
  obtain m zs where m: "CreateMessage use_trivial fresh (length xs) (length xs) 0 t = Some m"
    "carries t (if t = NORMAL_LEGACY then of_nat 0 else 0) zs m" "length zs = length xs"
    using CreateMessage_ok [OF assms(1) le_refl assms(2), of use_trivial 0] by metis
  then have z: "carries t 0 zs m" by (simp split: if_splits)
  obtain m2 where m2: "(if length xs > 0 then write_payload xs m else Some m) = Some m2" "carries t 0 xs m2"
    using write_payload_ok [OF z, of xs] z m(3) by (cases "xs = []") auto
  obtain rest where d: "msg_data m2 = frame_bytes t 0 xs @ rest" using m2(2) by (auto simp: carries_def)
  have "(if t = NORMAL_LEGACY then poke 4 (put16 0) (msg_data m2) else poke 8 (put16 0) (msg_data m2)) = Some (msg_data m2)"
    by (simp add: d frame_bytes_def header_bytes_def)
  then have "build_received use_trivial fresh t xs = Some (Some m2)"
    using m(1) m2(1) by (simp add: build_received_def)
  then show ?thesis using that m2(2) by blast
qed

lemma Deserialize_cases:
  obtains (null) "Deserialize use_trivial fresh policy data = Some None"
  | (message) t xs where "Deserialize use_trivial fresh policy data = build_received use_trivial fresh t xs"
      "data = take (header_size t) data @ xs" "header_size t + length xs = length data" "length data < 2 ^ 32"
proof (cases "length data < 8")
  case True
  then show ?thesis using null by (simp add: Deserialize_def)
next
  case False
  then obtain nb t nhb where f: "peek32 0 data = Some nb" "peek16 6 data = Some t" "peek16 4 data = Some nhb"
    using peek_total(2) [of 0 data] peek_total(1) [of 6 data] peek_total(1) [of 4 data] by auto
  define n where "n = (if t = NORMAL_LEGACY then Some nhb else peek16 8 data)"
  define bad where "bad \<longleftrightarrow> unat nb \<noteq> length data \<or> (t \<noteq> NORMAL_LEGACY \<and> (length data < 16 \<or> nhb \<noteq> 16)) \<or> n \<noteq> Some 0"
  have sixteen: "unat nhb = 16 \<longleftrightarrow> nhb = 16" using word_unat_eq_iff [of nhb 16] by simp
  show ?thesis
  proof (cases bad)
    case True
    have "Deserialize use_trivial fresh policy data = Some None"
    proof (cases "unat nb \<noteq> length data \<or> t = NORMAL_LEGACY \<or> length data < unat nhb \<or> unat nhb < 16 \<or> nhb \<noteq> 16")
      case True
      then show ?thesis
        using \<open>bad\<close> False f sixteen by (auto simp: Deserialize_def Let_def bad_def n_def unat_gt_0)
    next
      case long: False
      then have "10 \<le> length data" by auto
      then obtain k where "peek16 8 data = Some k" using peek_total(1) [of 8 data] by auto
      then show ?thesis using \<open>bad\<close> False f long by (auto simp: Deserialize_def Let_def bad_def n_def unat_gt_0)
    qed
    then show ?thesis by (rule null)
  next
    case good: False
    let ?xs = "drop (header_size t) data"
    have h: "header_size t \<le> length data" "unat nb = length data" using good False by (auto simp: bad_def header_size_def)
    have "peek (header_size t) (length data - header_size t) data = Some ?xs" using h by (simp add: peek_def)
    moreover have "length ?xs = length data - header_size t" by simp
    ultimately have "Deserialize use_trivial fresh policy data = build_received use_trivial fresh t ?xs"
      using good False f
      by (cases "t = NORMAL_LEGACY") (auto simp: Deserialize_def Let_def bad_def n_def header_size_def build_received_def)
    moreover have "length data < 2 ^ 32" using h(2) unsigned_less [of nb, where 'a = nat] by simp
    ultimately show ?thesis using message [of t ?xs] h(1) by simp
  qed
qed

lemma Deserialize_frame:
  assumes "alloc_ok fresh" "header_size t + length xs < 2 ^ 32"
  shows "Deserialize use_trivial fresh policy (frame_bytes t 0 xs) = build_received use_trivial fresh t xs"
proof -
  note F = frame_fields [of t 0 xs "[]", unfolded append_Nil2]
  have size: "unat (of_nat (header_size t + length xs) :: u32) = header_size t + length xs"
    using assms(2) by (simp add: unat_of_nat del: of_nat_add)
  have payload: "peek (header_size t) (length xs) (frame_bytes t 0 xs) = Some xs" by (simp add: frame_bytes_def peek_def)
  then show ?thesis
    using F size by (cases "t = NORMAL_LEGACY") (simp_all add: Deserialize_def Let_def header_size_def build_received_def del: of_nat_add)
qed

text \<open>A message that is the header and the payload on the wire, and is parsed back to the same.\<close>

definition travels :: "bool \<Rightarrow> (nat \<Rightarrow> u8 list) \<Rightarrow> handle_policy \<Rightarrow> u16 \<Rightarrow> u8 list \<Rightarrow> channel_message \<Rightarrow> bool" where
  "travels use_trivial fresh policy t xs m \<longleftrightarrow> wire m = frame_bytes t 0 xs \<and> payload_of m = Some xs \<and>
     (\<exists>m'. Deserialize use_trivial fresh policy (wire m) = Some (Some m') \<and> payload_of m' = Some xs \<and> wire m' = wire m)"

lemma carries_travels:
  assumes "alloc_ok fresh" "header_size t + length xs < 2 ^ 32" "carries t 0 xs m"
  shows "travels use_trivial fresh policy t xs m"
proof -
  obtain m' where "build_received use_trivial fresh t xs = Some (Some m')" "carries t 0 xs m'"
    using build_received_ok [OF assms(1,2)] by blast
  then show ?thesis
    using assms(3) Deserialize_frame [OF assms(1,2), of use_trivial policy] carries_wire carries_fields(4)
    unfolding travels_def by metis
qed

text \<open>C34: A message on the wire does not depend on how it was made.  Created for a payload of the size of \<open>ys\<close>, with
  any spare capacity, and filled with \<open>ys\<close>, it is the header and \<open>ys\<close>, without the spare bytes; created so and
  extended to the size of \<open>xs\<close>, larger or smaller than the capacity, then filled with \<open>xs\<close>, it is the header and \<open>xs\<close>.
  In both cases the receiver's parser gives a message with the same payload and the same bytes back.\<close>

theorem channel_message_round_trip:
  assumes "alloc_ok fresh" "length ys \<le> capacity" "16 + length ys < 2 ^ 32" "16 + length xs < 2 ^ 32"
  shows "\<exists>m. CreateMessage use_trivial fresh capacity (length ys) 0 t = Some m \<and> payload_size_of m = Some (length ys) \<and>
    (\<exists>m'. write_payload ys m = Some m' \<and> travels use_trivial' fresh policy t ys m') \<and>
    (\<exists>m2 m3. ExtendPayload fresh grow (length xs) m = Some m2 \<and> write_payload xs m2 = Some m3 \<and>
       travels use_trivial' fresh policy t xs m3)"
proof -
  have h: "header_size t + length ys < 2 ^ 32" "header_size t + length xs < 2 ^ 32" using assms(3,4) header_size_cases [of t] by auto
  obtain m zs where m: "CreateMessage use_trivial fresh capacity (length ys) 0 t = Some m"
    "carries t (if t = NORMAL_LEGACY then of_nat 0 else 0) zs m" "length zs = length ys"
    using CreateMessage_ok [OF assms(1,2) h(1), of use_trivial 0] by metis
  then have z: "carries t 0 zs m" by (simp split: if_splits)
  obtain m' where m': "write_payload ys m = Some m'" "carries t 0 ys m'"
    using write_payload_ok [OF z, of ys] m(3) by auto
  obtain m2 us where m2: "ExtendPayload fresh grow (length xs) m = Some m2" "carries t 0 (take (length xs) zs @ us) m2"
    "length (take (length xs) zs @ us) = length xs"
    using ExtendPayload_ok [OF assms(1) z h(2)] by metis
  obtain m3 where m3: "write_payload xs m2 = Some m3" "carries t 0 xs m3"
    using write_payload_ok [OF m2(2), of xs] m2(3) by (metis append_Nil2 drop_all le_refl)
  have "payload_size_of m = Some (length ys)" using carries_fields(3) [OF z] m(3) by simp
  then show ?thesis
    using m(1) m' m2(1) m3 carries_travels [OF assms(1) h(1)] carries_travels [OF assms(1) h(2)] by metis
qed

theorem channel_message_round_trip_witness:
  "\<exists>m. CreateMessage True (\<lambda>n. replicate n 7) 9 2 0 NORMAL = Some m \<and>
     (\<exists>m'. write_payload [5, 6] m = Some m' \<and> wire m' = frame_bytes NORMAL 0 [5, 6]) \<and>
     (\<exists>m2 m3. ExtendPayload (\<lambda>n. replicate n 7) id 3 m = Some m2 \<and> write_payload [1, 2, 3] m2 = Some m3 \<and>
       payload_of m3 = Some [1, 2, 3])"
proof -
  have "alloc_ok (\<lambda>n. replicate n 7)" "length [5, 6 :: u8] \<le> 9" "16 + length [5, 6 :: u8] < 2 ^ 32" "16 + length [1, 2, 3 :: u8] < 2 ^ 32"
    by (simp_all add: alloc_ok_def)
  from channel_message_round_trip [OF this, of True NORMAL False kRejectHandles id]
  have "\<exists>m. CreateMessage True (\<lambda>n. replicate n 7) 9 (length [5, 6 :: u8]) 0 NORMAL = Some m \<and>
     (\<exists>m'. write_payload [5, 6] m = Some m' \<and> wire m' = frame_bytes NORMAL 0 [5, 6]) \<and>
     (\<exists>m2 m3. ExtendPayload (\<lambda>n. replicate n 7) id (length [1, 2, 3 :: u8]) m = Some m2 \<and> write_payload [1, 2, 3] m2 = Some m3 \<and>
       payload_of m3 = Some [1, 2, 3])"
    unfolding travels_def by blast
  moreover have "length [5, 6 :: u8] = 2" "length [1, 2, 3 :: u8] = 3" by simp_all
  ultimately show ?thesis by (simp only:)
qed

text \<open>C31: Whatever bytes arrive as a message, parsing them touches nothing outside of the buffers: the result is the
  null pointer or a message without handles, of the same length, that carries what follows the header.\<close>

theorem channel_deserialize_safe:
  assumes "alloc_ok fresh"
  shows "Deserialize use_trivial fresh policy data = Some None \<or>
    (\<exists>m t xs. Deserialize use_trivial fresh policy data = Some (Some m) \<and> wire m = frame_bytes t 0 xs \<and> payload_of m = Some xs \<and>
      length (wire m) = length data \<and> xs = drop (header_size t) data \<and> msg_size m \<le> length (msg_data m))"
proof (cases rule: Deserialize_cases [of use_trivial fresh policy data])
  case (message t xs)
  then have "header_size t + length xs < 2 ^ 32" by simp
  then obtain m where m: "build_received use_trivial fresh t xs = Some (Some m)" "carries t 0 xs m" using build_received_ok [OF assms] by blast
  have "xs = drop (header_size t) data" using message(2,3) by (metis append_take_drop_id same_append_eq)
  then show ?thesis using m message carries_wire [OF m(2)] carries_fields(4) [OF m(2)] by (auto simp: carries_def)
qed simp

theorem channel_deserialize_safe_witness:
  "alloc_ok (\<lambda>n. replicate n 0) \<and> (Deserialize True (\<lambda>n. replicate n 0) kRejectHandles [9, 0, 0] = Some None \<or>
    (\<exists>m t xs. Deserialize True (\<lambda>n. replicate n 0) kRejectHandles [9, 0, 0] = Some (Some m) \<and> wire m = frame_bytes t 0 xs))"
  using channel_deserialize_safe [of "\<lambda>n. replicate n 0" True kRejectHandles "[9, 0, 0]"] by (auto simp: alloc_ok_def)

end
