(* ===== verification/Channel_Read.thy ===== *)
theory Channel_Read
  imports Channel_Message "HOL-Library.Sublist"
begin

text \<open>
  The receiving side of a channel, \<open>mojo/core/channel.cc\<close> with the handles of \<open>channel_posix.cc\<close>:
  the buffer that collects what is read, and the messages cut out of it.
\<close>

section \<open>The read buffer\<close>

definition kReadBufferSize :: nat where "kReadBufferSize = 4096"
definition kMaxUnusedReadBufferCapacity :: nat where "kMaxUnusedReadBufferCapacity = 4096"

record read_buffer =
  rb_data :: "u8 list"
  num_discarded_bytes :: nat
  rb_occupied_bytes :: nat

definition ReadBuffer :: "(nat \<Rightarrow> u8 list) \<Rightarrow> read_buffer" where
  "ReadBuffer fresh = \<lparr>rb_data = fresh kReadBufferSize, num_discarded_bytes = 0, rb_occupied_bytes = 0\<rparr>"

definition num_occupied_bytes :: "read_buffer \<Rightarrow> nat" where
  "num_occupied_bytes b = rb_occupied_bytes b - num_discarded_bytes b"

definition occupied_bytes :: "read_buffer \<Rightarrow> u8 list" where
  "occupied_bytes b = take (num_occupied_bytes b) (drop (num_discarded_bytes b) (rb_data b))"

definition Reserve :: "(nat \<Rightarrow> u8 list) \<Rightarrow> (nat \<Rightarrow> nat) \<Rightarrow> nat \<Rightarrow> read_buffer \<Rightarrow> read_buffer option" where
  "Reserve fresh grow num_bytes b =
     (if rb_occupied_bytes b + num_bytes > length (rb_data b) then do {
        old \<leftarrow> peek 0 (rb_occupied_bytes b) (rb_data b);
        d \<leftarrow> poke 0 old (fresh (max (grow (length (rb_data b))) (rb_occupied_bytes b + num_bytes)));
        Some (b\<lparr>rb_data := d\<rparr>)
      }
      else Some b)"

definition Claim :: "nat \<Rightarrow> read_buffer \<Rightarrow> read_buffer" where
  "Claim num_bytes b = b\<lparr>rb_occupied_bytes := rb_occupied_bytes b + num_bytes\<rparr>"

definition Discard :: "(nat \<Rightarrow> u8 list) \<Rightarrow> nat \<Rightarrow> read_buffer \<Rightarrow> read_buffer option" where
  "Discard fresh num_bytes b = do {
     let b = b\<lparr>num_discarded_bytes := num_discarded_bytes b + num_bytes\<rparr>;
     let b = (if num_discarded_bytes b = rb_occupied_bytes b then b\<lparr>num_discarded_bytes := 0, rb_occupied_bytes := 0\<rparr> else b);
     b \<leftarrow> (if num_discarded_bytes b > kMaxUnusedReadBufferCapacity then do {
             let num_preserved_bytes = rb_occupied_bytes b - num_discarded_bytes b;
             xs \<leftarrow> peek (num_discarded_bytes b) num_preserved_bytes (rb_data b);
             d \<leftarrow> poke 0 xs (fresh (max num_preserved_bytes kReadBufferSize));
             Some \<lparr>rb_data = d, num_discarded_bytes = 0, rb_occupied_bytes = num_preserved_bytes\<rparr>
           }
           else Some b);
     Some (if rb_occupied_bytes b = 0 \<and> length (rb_data b) > kMaxUnusedReadBufferCapacity
           then b\<lparr>rb_data := fresh kMaxUnusedReadBufferCapacity\<rparr> else b)
   }"

definition Realign :: "read_buffer \<Rightarrow> read_buffer option" where
  "Realign b = do {
     let num_bytes = num_occupied_bytes b;
     xs \<leftarrow> peek (num_discarded_bytes b) num_bytes (rb_data b);
     d \<leftarrow> poke 0 xs (rb_data b);
     Some \<lparr>rb_data = d, num_discarded_bytes = 0, rb_occupied_bytes = num_bytes\<rparr>
   }"

text \<open>Buffers are aligned, so the occupied bytes are when the discarded ones are a multiple of eight.\<close>

definition IsAlignedForChannelMessage :: "nat \<Rightarrow> bool" where
  "IsAlignedForChannelMessage n \<longleftrightarrow> n mod 8 = 0"

section \<open>Messages from the buffer\<close>

record receiver =
  is_for_ipcz :: bool
  has_delegate :: bool
  rcv_policy :: handle_policy
  incoming_fds :: "int list"
  delivered_messages :: "(u8 list \<times> int list) list"
  upgrade_rejects :: nat

datatype dispatch_result = kOK nat | kNotEnoughData nat | kMissingHandles | kError

text \<open>The handles of a message; none while they have not all arrived.\<close>

definition GetReadPlatformHandlesForIpcz :: "nat \<Rightarrow> receiver \<Rightarrow> bool \<times> int list \<times> receiver" where
  "GetReadPlatformHandlesForIpcz n r =
     (if length (incoming_fds r) < n then (True, [], r)
      else (True, take n (incoming_fds r), r\<lparr>incoming_fds := drop n (incoming_fds r)\<rparr>))"

definition GetReadPlatformHandles :: "nat \<Rightarrow> receiver \<Rightarrow> bool \<times> int list \<times> receiver" where
  "GetReadPlatformHandles n r = (if n > 2 ^ 16 - 1 then (False, [], r) else GetReadPlatformHandlesForIpcz n r)"

definition OnControlMessage :: "u16 \<Rightarrow> receiver \<Rightarrow> bool \<times> receiver" where
  "OnControlMessage t r = (if t = UPGRADE_OFFER then (True, r\<lparr>upgrade_rejects := upgrade_rejects r + 1\<rparr>) else (False, r))"

definition OnChannelMessage :: "u8 list \<Rightarrow> int list \<Rightarrow> receiver \<Rightarrow> receiver" where
  "OnChannelMessage payload handles r = r\<lparr>delivered_messages := delivered_messages r @ [(payload, handles)]\<rparr>"

definition dispatch_ipcz :: "u8 list \<Rightarrow> receiver \<Rightarrow> (dispatch_result \<times> receiver) option" where
  "dispatch_ipcz buffer r = do {
     header_size \<leftarrow> map_option unat (peek16 0 buffer);
     num_handles \<leftarrow> map_option unat (peek16 2 buffer);
     num_bytes \<leftarrow> map_option unat (peek32 4 buffer);
     if header_size < 8 \<or> num_bytes < header_size then Some (kError, r)
     else if length buffer < num_bytes then Some (kNotEnoughData (num_bytes - length buffer), r)
     else if num_handles > 0 \<and> rcv_policy r = kRejectHandles then Some (kError, r)
     else
       let (ok, handles, r) = (if num_handles > 0 then GetReadPlatformHandlesForIpcz num_handles r else (True, [], r)) in
       if \<not> ok then Some (kError, r)
       else if num_handles > 0 \<and> handles = [] then Some (kMissingHandles, r)
       else do {
         data \<leftarrow> peek header_size (num_bytes - header_size) buffer;
         Some (kOK num_bytes, OnChannelMessage data handles r)
       }
   }"

definition TryDispatchMessage :: "u8 list \<Rightarrow> receiver \<Rightarrow> (dispatch_result \<times> receiver) option" where
  "TryDispatchMessage buffer r =
     (if is_for_ipcz r then dispatch_ipcz buffer r
      else do {
        num_bytes \<leftarrow> map_option unat (peek32 0 buffer);
        if num_bytes < sizeof_LegacyHeader then Some (kError, r)
        else if length buffer < num_bytes then Some (kNotEnoughData (num_bytes - length buffer), r)
        else do {
          message_type \<leftarrow> peek16 6 buffer;
          num_header_bytes \<leftarrow> (if message_type = NORMAL_LEGACY then Some sizeof_LegacyHeader else map_option unat (peek16 4 buffer));
          if message_type \<noteq> NORMAL_LEGACY \<and> (num_header_bytes < sizeof_Header \<or> num_header_bytes > num_bytes) then Some (kError, r)
          else do {
            payload \<leftarrow> peek num_header_bytes (num_bytes - num_header_bytes) buffer;
            num_handles \<leftarrow> map_option unat (if message_type = NORMAL_LEGACY then peek16 4 buffer else peek16 8 buffer);
            if num_handles > 0 \<and> rcv_policy r = kRejectHandles then Some (kError, r)
            else
              let (ok, handles, r) = (if num_handles > 0 then GetReadPlatformHandles num_handles r else (True, [], r)) in
              if \<not> ok then Some (kError, r)
              else if num_handles > 0 \<and> handles = [] then Some (kMissingHandles, r)
              else if message_type \<noteq> NORMAL_LEGACY \<and> message_type \<noteq> NORMAL
              then (case OnControlMessage message_type r of (ok, r) \<Rightarrow> Some (if ok then kOK num_bytes else kError, r))
              else Some (kOK num_bytes, if has_delegate r then OnChannelMessage payload handles r else r)
          }
        }
      })"

text \<open>The loop of \<open>OnReadComplete\<close>, with the size hint for the next read.\<close>

partial_function (option) read_loop ::
  "(nat \<Rightarrow> u8 list) \<Rightarrow> nat \<Rightarrow> read_buffer \<Rightarrow> receiver \<Rightarrow> (bool \<times> nat \<times> read_buffer \<times> receiver) option" where
  "read_loop fresh hint b r =
     (if num_occupied_bytes b \<ge> 8 then do {
        b \<leftarrow> (if IsAlignedForChannelMessage (num_discarded_bytes b) then Some b else Realign b);
        (result, r) \<leftarrow> TryDispatchMessage (occupied_bytes b) r;
        case result of
          kOK n \<Rightarrow> do { b \<leftarrow> Discard fresh n b; read_loop fresh 0 b r }
        | kNotEnoughData n \<Rightarrow> Some (True, n, b, r)
        | kMissingHandles \<Rightarrow> Some (True, hint, b, r)
        | kError \<Rightarrow> Some (False, hint, b, r)
      }
      else Some (True, hint, b, r))"

definition OnReadComplete ::
  "(nat \<Rightarrow> u8 list) \<Rightarrow> nat \<Rightarrow> read_buffer \<Rightarrow> receiver \<Rightarrow> (bool \<times> nat \<times> read_buffer \<times> receiver) option" where
  "OnReadComplete fresh bytes_read b r = read_loop fresh kReadBufferSize (Claim bytes_read b) r"

text \<open>One read from the socket, a turn of the loop of \<open>OnFileCanReadWithoutBlocking\<close>: room for the expected
  amount, the bytes and handles the system puts there, and the messages.\<close>

definition GetReadBuffer :: "(nat \<Rightarrow> u8 list) \<Rightarrow> (nat \<Rightarrow> nat) \<Rightarrow> nat \<Rightarrow> read_buffer \<Rightarrow> (nat \<times> read_buffer) option" where
  "GetReadBuffer fresh grow capacity b =
     (let required_capacity = (if capacity = 0 then kReadBufferSize else capacity) in
      map_option (Pair required_capacity) (Reserve fresh grow required_capacity b))"

definition read_once ::
  "(nat \<Rightarrow> u8 list) \<Rightarrow> (nat \<Rightarrow> nat) \<Rightarrow> nat \<Rightarrow> u8 list \<times> int list \<Rightarrow> read_buffer \<Rightarrow> receiver \<Rightarrow>
    (bool \<times> nat \<times> read_buffer \<times> receiver) option" where
  "read_once fresh grow next_read_size x b r = do {
     (buffer_capacity, b) \<leftarrow> GetReadBuffer fresh grow next_read_size b;
     d \<leftarrow> poke (rb_occupied_bytes b) (fst x) (rb_data b);
     let b = b\<lparr>rb_data := d\<rparr>;
     let r = r\<lparr>incoming_fds := incoming_fds r @ snd x\<rparr>;
     OnReadComplete fresh (length (fst x)) b r
   }"

section \<open>The buffer is a queue of bytes\<close>

definition rb_ok :: "read_buffer \<Rightarrow> bool" where
  "rb_ok b \<longleftrightarrow> num_discarded_bytes b \<le> rb_occupied_bytes b \<and> rb_occupied_bytes b \<le> length (rb_data b)"

lemma length_occupied [simp]: "rb_ok b \<Longrightarrow> length (occupied_bytes b) = num_occupied_bytes b"
  by (auto simp: rb_ok_def occupied_bytes_def num_occupied_bytes_def)

lemma ReadBuffer_ok: "alloc_ok fresh \<Longrightarrow> rb_ok (ReadBuffer fresh) \<and> occupied_bytes (ReadBuffer fresh) = []"
  by (simp add: rb_ok_def ReadBuffer_def occupied_bytes_def num_occupied_bytes_def)

lemma Reserve_ok:
  assumes "alloc_ok fresh" "rb_ok b"
  obtains b' where "Reserve fresh grow n b = Some b'" "rb_ok b'" "occupied_bytes b' = occupied_bytes b"
    "rb_occupied_bytes b' + n \<le> length (rb_data b')"
proof (cases "rb_occupied_bytes b + n > length (rb_data b)")
  case True
  let ?occ = "rb_occupied_bytes b" and ?new = "fresh (max (grow (length (rb_data b))) (rb_occupied_bytes b + n))"
  have len: "length ?new = max (grow (length (rb_data b))) (?occ + n)" using assms(1) by (simp add: alloc_ok_def)
  let ?b = "b\<lparr>rb_data := take ?occ (rb_data b) @ drop ?occ ?new\<rparr>"
  have "Reserve fresh grow n b = Some ?b"
    using True assms(2) len by (simp add: Reserve_def rb_ok_def peek_def poke_front)
  moreover have "occupied_bytes ?b = occupied_bytes b"
    using assms(2) by (simp add: rb_ok_def occupied_bytes_def num_occupied_bytes_def take_drop)
  ultimately show ?thesis using that [of ?b] assms(2) len by (simp add: rb_ok_def)
next
  case False
  then show ?thesis using that [of b] assms(2) by (simp add: Reserve_def)
qed

lemma receive_ok:
  assumes "rb_ok b" "rb_occupied_bytes b + length xs \<le> length (rb_data b)"
  obtains d where "poke (rb_occupied_bytes b) xs (rb_data b) = Some d" "rb_ok (Claim (length xs) (b\<lparr>rb_data := d\<rparr>))"
    "occupied_bytes (Claim (length xs) (b\<lparr>rb_data := d\<rparr>)) = occupied_bytes b @ xs"
proof -
  let ?occ = "rb_occupied_bytes b" and ?dis = "num_discarded_bytes b"
  let ?d = "take ?occ (rb_data b) @ xs @ drop (?occ + length xs) (rb_data b)"
  have "drop ?dis ?d = drop ?dis (take ?occ (rb_data b)) @ xs @ drop (?occ + length xs) (rb_data b)"
    using assms by (simp add: rb_ok_def)
  moreover have "length (drop ?dis (take ?occ (rb_data b))) = ?occ - ?dis" using assms(1) by (simp add: rb_ok_def)
  ultimately have "occupied_bytes (Claim (length xs) (b\<lparr>rb_data := ?d\<rparr>)) = occupied_bytes b @ xs"
    using assms(1) by (simp add: occupied_bytes_def num_occupied_bytes_def Claim_def rb_ok_def drop_take)
  then show ?thesis using that [of ?d] assms by (simp add: poke_def rb_ok_def Claim_def)
qed

lemma Realign_ok:
  assumes "rb_ok b"
  obtains b' where "Realign b = Some b'" "rb_ok b'" "occupied_bytes b' = occupied_bytes b"
proof -
  define xs where "xs = occupied_bytes b"
  have len: "length xs = num_occupied_bytes b" "num_occupied_bytes b \<le> length (rb_data b)"
    using assms by (simp add: xs_def, auto simp: rb_ok_def num_occupied_bytes_def)
  let ?b = "\<lparr>rb_data = xs @ drop (length xs) (rb_data b), num_discarded_bytes = 0, rb_occupied_bytes = length xs\<rparr>"
  have "peek (num_discarded_bytes b) (num_occupied_bytes b) (rb_data b) = Some xs"
    using assms by (simp add: xs_def peek_def occupied_bytes_def num_occupied_bytes_def rb_ok_def)
  then have "Realign b = Some ?b" using len by (simp add: Realign_def Let_def poke_front)
  moreover have "occupied_bytes ?b = xs" by (simp add: occupied_bytes_def num_occupied_bytes_def)
  ultimately show ?thesis using that [of ?b] len by (simp add: rb_ok_def xs_def)
qed

lemma Discard_ok:
  assumes "alloc_ok fresh" "rb_ok b" "n \<le> num_occupied_bytes b"
  obtains b' where "Discard fresh n b = Some b'" "rb_ok b'" "occupied_bytes b' = drop n (occupied_bytes b)"
proof -
  let ?dis = "num_discarded_bytes b + n" and ?occ = "rb_occupied_bytes b"
  have le: "?dis \<le> ?occ" "?occ \<le> length (rb_data b)" using assms(2,3) by (auto simp: rb_ok_def num_occupied_bytes_def)
  have rest: "drop n (occupied_bytes b) = take (?occ - ?dis) (drop ?dis (rb_data b))"
    by (simp add: occupied_bytes_def num_occupied_bytes_def drop_take add.commute)
  have fresh: "length (fresh k) = k" for k using assms(1) by (simp add: alloc_ok_def)
  consider (empty) "?dis = ?occ" | (move) "?dis < ?occ" "?dis > 4096" | (keep) "?dis < ?occ" "?dis \<le> 4096" using le(1) by linarith
  then show ?thesis
  proof cases
    case empty
    let ?b = "\<lparr>rb_data = (if length (rb_data b) > 4096 then fresh 4096 else rb_data b), num_discarded_bytes = 0, rb_occupied_bytes = 0\<rparr>"
    have "Discard fresh n b = Some ?b"
      using empty by (simp add: Discard_def Let_def kMaxUnusedReadBufferCapacity_def)
    then show ?thesis using that [of ?b] rest empty by (simp add: rb_ok_def occupied_bytes_def num_occupied_bytes_def)
  next
    case move
    let ?k = "?occ - ?dis"
    let ?xs = "take ?k (drop ?dis (rb_data b))"
    let ?b = "\<lparr>rb_data = ?xs @ drop ?k (fresh (max ?k 4096)), num_discarded_bytes = 0, rb_occupied_bytes = ?k\<rparr>"
    have "length ?xs = ?k" using le by simp
    moreover from this have "Discard fresh n b = Some ?b"
      using move le fresh
      by (simp add: Discard_def Let_def kMaxUnusedReadBufferCapacity_def kReadBufferSize_def peek_def poke_front)
    ultimately show ?thesis
      using that [of ?b] rest fresh by (simp add: rb_ok_def occupied_bytes_def num_occupied_bytes_def)
  next
    case keep
    let ?b = "b\<lparr>num_discarded_bytes := ?dis\<rparr>"
    have "Discard fresh n b = Some ?b"
      using keep by (simp add: Discard_def Let_def kMaxUnusedReadBufferCapacity_def)
    then show ?thesis using that [of ?b] rest le by (simp add: rb_ok_def occupied_bytes_def num_occupied_bytes_def)
  qed
qed

section \<open>The messages of a stream\<close>

definition num16 :: "nat \<Rightarrow> u8 list \<Rightarrow> nat" where
  "num16 i bs = from_le (take 2 (drop i bs))"

definition num32 :: "nat \<Rightarrow> u8 list \<Rightarrow> nat" where
  "num32 i bs = from_le (take 4 (drop i bs))"

lemma from_le_less: "from_le bs < 256 ^ length bs"
proof (induction bs)
  case (Cons b bs)
  have "unat b < 256" using unsigned_less [of b, where 'a = nat] by simp
  then show ?case using Cons by simp
qed simp

lemma num_less: "num16 i bs < 65536" "num32 i bs < 2 ^ 32"
proof -
  have "from_le (take n (drop i bs)) < 256 ^ n" for n
    by (rule less_le_trans [OF from_le_less power_increasing]) simp_all
  from this [of 2] this [of 4] show "num16 i bs < 65536" "num32 i bs < 2 ^ 32" by (simp_all add: num16_def num32_def)
qed

lemma peek_num:
  "i + 2 \<le> length bs \<Longrightarrow> peek16 i bs = Some (of_nat (num16 i bs))"
  "i + 4 \<le> length bs \<Longrightarrow> peek32 i bs = Some (of_nat (num32 i bs))"
  by (simp_all add: peek16_def peek32_def get16_def get32_def read_le_def num16_def num32_def)

lemma unat_num [simp]: "unat (of_nat (num16 i bs) :: u16) = num16 i bs" "unat (of_nat (num32 i bs) :: u32) = num32 i bs"
  using num_less [of i bs] by (simp_all add: unat_of_nat)

lemma num_append [simp]: "i + 2 \<le> length bs \<Longrightarrow> num16 i (bs @ ys) = num16 i bs" "i + 4 \<le> length bs \<Longrightarrow> num32 i (bs @ ys) = num32 i bs"
  by (simp_all add: num16_def num32_def)

text \<open>What the head of a buffer says: not a message, more bytes to come, or a message with its size, the size of its
  header, its type and the number of its handles.\<close>

datatype head = Bad | Short nat | Frame nat nat u16 nat

definition head_of :: "bool \<Rightarrow> u8 list \<Rightarrow> head" where
  "head_of ipcz bs =
     (if ipcz
      then (if num16 0 bs < 8 \<or> num32 4 bs < num16 0 bs then Bad
            else if length bs < num32 4 bs then Short (num32 4 bs - length bs)
            else Frame (num32 4 bs) (num16 0 bs) NORMAL (num16 2 bs))
      else if num32 0 bs < 8 then Bad
      else if length bs < num32 0 bs then Short (num32 0 bs - length bs)
      else if num16 6 bs = 0 then Frame (num32 0 bs) 8 NORMAL_LEGACY (num16 4 bs)
      else if num16 4 bs < 16 \<or> num32 0 bs < num16 4 bs then Bad
      else Frame (num32 0 bs) (num16 4 bs) (of_nat (num16 6 bs)) (num16 8 bs))"

definition deliver :: "nat \<Rightarrow> u16 \<Rightarrow> nat \<Rightarrow> u8 list \<Rightarrow> receiver \<Rightarrow> dispatch_result \<times> receiver" where
  "deliver n t k payload r =
     (if k > 0 \<and> rcv_policy r = kRejectHandles then (kError, r)
      else if length (incoming_fds r) < k then (kMissingHandles, r)
      else
        let handles = take k (incoming_fds r); r = r\<lparr>incoming_fds := drop k (incoming_fds r)\<rparr> in
        if t \<noteq> NORMAL_LEGACY \<and> t \<noteq> NORMAL
        then (case OnControlMessage t r of (ok, r) \<Rightarrow> (if ok then kOK n else kError, r))
        else (kOK n, if is_for_ipcz r \<or> has_delegate r then OnChannelMessage payload handles r else r))"

lemma keep_fds [simp]: "r\<lparr>incoming_fds := incoming_fds r\<rparr> = r"
  by simp

text \<open>The handles of a message, as both branches of the code take them.\<close>

lemma handles_cases:
  assumes "k < 65536"
  obtains (none) "k = 0" "(if k > 0 then GetReadPlatformHandles k r else (True, [], r)) = (True, [], r)"
      "(if k > 0 then GetReadPlatformHandlesForIpcz k r else (True, [], r)) = (True, [], r)"
  | (missing) "0 < k" "length (incoming_fds r) < k" "(if k > 0 then GetReadPlatformHandles k r else (True, [], r)) = (True, [], r)"
      "(if k > 0 then GetReadPlatformHandlesForIpcz k r else (True, [], r)) = (True, [], r)"
  | (taken) hs r' where "0 < k" "k \<le> length (incoming_fds r)" "hs = take k (incoming_fds r)" "hs \<noteq> []" "r' = r\<lparr>incoming_fds := drop k (incoming_fds r)\<rparr>"
      "(if k > 0 then GetReadPlatformHandles k r else (True, [], r)) = (True, hs, r')"
      "(if k > 0 then GetReadPlatformHandlesForIpcz k r else (True, [], r)) = (True, hs, r')"
proof -
  consider "k = 0" | "0 < k" "length (incoming_fds r) < k" | "0 < k" "k \<le> length (incoming_fds r)" by linarith
  then show ?thesis
  proof cases
    case 1
    then show ?thesis by (intro none) simp_all
  next
    case 2
    then show ?thesis using assms by (intro missing) (simp_all add: GetReadPlatformHandles_def GetReadPlatformHandlesForIpcz_def)
  next
    case 3
    moreover from this have "take k (incoming_fds r) \<noteq> []" by auto
    ultimately show ?thesis using assms by (intro taken [OF _ _ refl _ refl]) (simp_all add: GetReadPlatformHandles_def GetReadPlatformHandlesForIpcz_def)
  qed
qed

lemma dispatch_ipcz_head:
  assumes "8 \<le> length bs" "is_for_ipcz r"
  shows "dispatch_ipcz bs r = Some (case head_of True bs of
      Bad \<Rightarrow> (kError, r) | Short m \<Rightarrow> (kNotEnoughData m, r) | Frame n h t k \<Rightarrow> deliver n t k (take (n - h) (drop h bs)) r)"
proof -
  let ?h = "num16 0 bs" and ?k = "num16 2 bs" and ?n = "num32 4 bs"
  have p: "peek16 0 bs = Some (of_nat ?h)" "peek16 2 bs = Some (of_nat ?k)" "peek32 4 bs = Some (of_nat ?n)"
    using assms(1) by (simp_all add: peek_num)
  consider (bad) "?h < 8 \<or> ?n < ?h" | (short) "8 \<le> ?h" "?h \<le> ?n" "length bs < ?n" | (ok) "8 \<le> ?h" "?h \<le> ?n" "?n \<le> length bs"
    by linarith
  then show ?thesis
  proof cases
    case bad
    then show ?thesis using p by (auto simp: dispatch_ipcz_def head_of_def)
  next
    case short
    then show ?thesis using p by (simp add: dispatch_ipcz_def head_of_def)
  next
    case ok
    have "peek ?h (?n - ?h) bs = Some (take (?n - ?h) (drop ?h bs))" using ok by (simp add: peek_def)
    note facts = this ok p assms(2)
    show ?thesis
    proof (cases rule: handles_cases [OF num_less(1), of 2 bs r, case_names none missing taken])
      case none
      then show ?thesis using facts by (simp add: dispatch_ipcz_def head_of_def deliver_def Let_def NORMAL_def NORMAL_LEGACY_def)
    next
      case missing
      then show ?thesis using facts by (auto simp: dispatch_ipcz_def head_of_def deliver_def Let_def)
    next
      case (taken hs r')
      then show ?thesis using facts by (auto simp: dispatch_ipcz_def head_of_def deliver_def Let_def NORMAL_def NORMAL_LEGACY_def)
    qed
  qed
qed

lemma TryDispatch_head:
  assumes "8 \<le> length bs"
  shows "TryDispatchMessage bs r = Some (case head_of (is_for_ipcz r) bs of
      Bad \<Rightarrow> (kError, r) | Short m \<Rightarrow> (kNotEnoughData m, r) | Frame n h t k \<Rightarrow> deliver n t k (take (n - h) (drop h bs)) r)"
proof (cases "is_for_ipcz r")
  case True
  then show ?thesis using dispatch_ipcz_head [OF assms] by (simp add: TryDispatchMessage_def)
next
  case False
  let ?n = "num32 0 bs" and ?h = "num16 4 bs"
  have p: "peek32 0 bs = Some (of_nat ?n)" "peek16 4 bs = Some (of_nat ?h)" "peek16 6 bs = Some (of_nat (num16 6 bs))"
    using assms by (simp_all add: peek_num)
  have t: "(of_nat (num16 6 bs) :: u16) = 0 \<longleftrightarrow> num16 6 bs = 0"
    using unat_num(1) [of 6 bs] by (simp add: unat_eq_zero [symmetric] del: unat_eq_zero)
  consider (small) "?n < 8" | (short) "8 \<le> ?n" "length bs < ?n"
    | (legacy) "8 \<le> ?n" "?n \<le> length bs" "num16 6 bs = 0"
    | (bad) "8 \<le> ?n" "?n \<le> length bs" "num16 6 bs \<noteq> 0" "?h < 16 \<or> ?n < ?h"
    | (ok) "8 \<le> ?n" "?n \<le> length bs" "num16 6 bs \<noteq> 0" "16 \<le> ?h" "?h \<le> ?n"
    by linarith
  then show ?thesis
  proof cases
    case small
    then show ?thesis using False p by (simp add: TryDispatchMessage_def head_of_def)
  next
    case short
    then show ?thesis using False p by (simp add: TryDispatchMessage_def head_of_def)
  next
    case legacy
    have "peek 8 (?n - 8) bs = Some (take (?n - 8) (drop 8 bs))" using legacy by (simp add: peek_def)
    note facts = this legacy p t False
    show ?thesis
    proof (cases rule: handles_cases [OF num_less(1), of 4 bs r, case_names none missing taken])
      case none
      then show ?thesis using facts by (cases "rcv_policy r = kRejectHandles") (simp_all add: TryDispatchMessage_def head_of_def deliver_def Let_def NORMAL_LEGACY_def)
    next
      case missing
      then show ?thesis using facts by (cases "rcv_policy r = kRejectHandles") (simp_all add: TryDispatchMessage_def head_of_def deliver_def Let_def NORMAL_LEGACY_def)
    next
      case (taken hs r')
      then show ?thesis using facts by (cases "rcv_policy r = kRejectHandles") (simp_all add: TryDispatchMessage_def head_of_def deliver_def Let_def NORMAL_LEGACY_def)
    qed
  next
    case bad
    then show ?thesis using False p t by (auto simp: TryDispatchMessage_def head_of_def NORMAL_LEGACY_def)
  next
    case ok
    let ?k = "num16 8 bs"
    have "peek ?h (?n - ?h) bs = Some (take (?n - ?h) (drop ?h bs))" "peek16 8 bs = Some (of_nat ?k)" using ok by (simp_all add: peek_def peek_num)
    moreover define u where "u = (of_nat (num16 6 bs) :: u16)"
    ultimately have facts: "peek ?h (?n - ?h) bs = Some (take (?n - ?h) (drop ?h bs))" "peek16 8 bs = Some (of_nat ?k)" "u \<noteq> 0" "peek16 6 bs = Some u"
      "of_nat (num16 6 bs) = u" "peek32 0 bs = Some (of_nat ?n)" "peek16 4 bs = Some (of_nat ?h)" "\<not> is_for_ipcz r"
      "8 \<le> ?n" "?n \<le> length bs" "num16 6 bs \<noteq> 0" "16 \<le> ?h" "?h \<le> ?n"
      using ok p t False by simp_all
    show ?thesis
    proof (cases rule: handles_cases [OF num_less(1), of 8 bs r, case_names none missing taken])
      case none
      then show ?thesis using facts by (cases "rcv_policy r = kRejectHandles") (simp_all add: TryDispatchMessage_def head_of_def deliver_def Let_def NORMAL_LEGACY_def split: prod.splits)
    next
      case missing
      then show ?thesis using facts by (cases "rcv_policy r = kRejectHandles") (simp_all add: TryDispatchMessage_def head_of_def deliver_def Let_def NORMAL_LEGACY_def)
    next
      case (taken hs r')
      then show ?thesis using facts by (cases "rcv_policy r = kRejectHandles") (simp_all add: TryDispatchMessage_def head_of_def deliver_def Let_def NORMAL_LEGACY_def split: prod.splits)
    qed
  qed
qed

lemma head_frame: "head_of i bs = Frame n h t k \<Longrightarrow> 8 \<le> h \<and> h \<le> n \<and> n \<le> length bs"
  by (auto simp: head_of_def split: if_splits)

lemma head_stable:
  assumes "8 \<le> length bs"
  shows "head_of i bs = Bad \<Longrightarrow> head_of i (bs @ ys) = Bad"
    "head_of i bs = Frame n h t k \<Longrightarrow> head_of i (bs @ ys) = Frame n h t k"
  using assms by (auto simp: head_of_def split: if_splits)

definition add_fds :: "int list \<Rightarrow> receiver \<Rightarrow> receiver" where
  "add_fds f r = r\<lparr>incoming_fds := incoming_fds r @ f\<rparr>"

lemma add_fds_simps [simp]:
  "is_for_ipcz (add_fds f r) = is_for_ipcz r" "has_delegate (add_fds f r) = has_delegate r" "rcv_policy (add_fds f r) = rcv_policy r"
  "incoming_fds (add_fds f r) = incoming_fds r @ f" "delivered_messages (add_fds f r) = delivered_messages r"
  "upgrade_rejects (add_fds f r) = upgrade_rejects r" "add_fds g (add_fds f r) = add_fds (f @ g) r" "add_fds [] r = r"
  by (simp_all add: add_fds_def)

definition hand_over :: "nat \<Rightarrow> u16 \<Rightarrow> u8 list \<Rightarrow> int list \<Rightarrow> receiver \<Rightarrow> dispatch_result \<times> receiver" where
  "hand_over n t payload handles r =
     (if t \<noteq> NORMAL_LEGACY \<and> t \<noteq> NORMAL
      then (case OnControlMessage t r of (ok, r) \<Rightarrow> (if ok then kOK n else kError, r))
      else (kOK n, if is_for_ipcz r \<or> has_delegate r then OnChannelMessage payload handles r else r))"

lemma hand_over_add: "hand_over n t xs hs (add_fds f r) = map_prod id (add_fds f) (hand_over n t xs hs r)"
  by (simp add: hand_over_def OnControlMessage_def OnChannelMessage_def add_fds_def)

lemma hand_over_result: "fst (hand_over n t xs hs r) = kOK n \<or> fst (hand_over n t xs hs r) = kError"
  by (simp add: hand_over_def OnControlMessage_def)

lemma deliver_hand_over:
  "deliver n t k xs r =
     (if k > 0 \<and> rcv_policy r = kRejectHandles then (kError, r)
      else if length (incoming_fds r) < k then (kMissingHandles, r)
      else hand_over n t xs (take k (incoming_fds r)) (r\<lparr>incoming_fds := drop k (incoming_fds r)\<rparr>))"
  by (simp add: deliver_def Let_def hand_over_def)

lemma deliver_stable:
  assumes "deliver n t k xs r = (res, r')" "res = kOK m \<or> res = kError"
  shows "deliver n t k xs (add_fds f r) = (res, add_fds f r') \<and> (res = kOK m \<longrightarrow> m = n)"
proof (cases "k > 0 \<and> rcv_policy r = kRejectHandles")
  case True
  then show ?thesis using assms by (auto simp: deliver_hand_over)
next
  case False
  then have k: "k \<le> length (incoming_fds r)" using assms by (auto simp: deliver_hand_over split: if_splits)
  let ?r = "r\<lparr>incoming_fds := drop k (incoming_fds r)\<rparr>"
  have h: "hand_over n t xs (take k (incoming_fds r)) ?r = (res, r')" using assms(1) False k by (simp add: deliver_hand_over)
  have later: "(add_fds f r)\<lparr>incoming_fds := drop k (incoming_fds r) @ f\<rparr> = add_fds f ?r" by (simp add: add_fds_def)
  have "deliver n t k xs (add_fds f r) = (res, add_fds f r')"
    using False k h hand_over_add [of n t xs "take k (incoming_fds r)" f ?r]
    unfolding deliver_hand_over add_fds_simps drop_append [of k] by (auto simp: later)
  then show ?thesis using hand_over_result [of n t xs "take k (incoming_fds r)" ?r] h by auto
qed

lemma deliver_wait: "deliver n t k xs r \<noteq> (kNotEnoughData m, r')" "deliver n t k xs r = (kMissingHandles, r') \<Longrightarrow> r' = r"
  using hand_over_result [of n t xs "take k (incoming_fds r)" "r\<lparr>incoming_fds := drop k (incoming_fds r)\<rparr>"]
  by (auto simp: deliver_hand_over split: if_splits)

lemma TryDispatch_OK:
  assumes "TryDispatchMessage bs r = Some (kOK n, r')" "8 \<le> length bs"
  shows "8 \<le> n \<and> n \<le> length bs \<and> TryDispatchMessage (bs @ ys) (add_fds f r) = Some (kOK n, add_fds f r')"
proof (cases "head_of (is_for_ipcz r) bs")
  case (Frame m h t k)
  then have d: "deliver m t k (take (m - h) (drop h bs)) r = (kOK n, r')" using assms TryDispatch_head [OF assms(2), of r] by simp
  note m = head_frame [OF Frame]
  have "TryDispatchMessage (bs @ ys) (add_fds f r) = Some (kOK n, add_fds f r')"
    using deliver_stable [OF d, of n f] m head_stable(2) [OF assms(2) Frame, of ys] TryDispatch_head [of "bs @ ys" "add_fds f r"] assms(2) by simp
  then show ?thesis using deliver_stable [OF d, of n f] m by simp
qed (use assms TryDispatch_head [OF assms(2), of r] in simp_all)

lemma TryDispatch_Error:
  assumes "TryDispatchMessage bs r = Some (kError, r')" "8 \<le> length bs"
  shows "TryDispatchMessage (bs @ ys) (add_fds f r) = Some (kError, add_fds f r')"
proof (cases "head_of (is_for_ipcz r) bs")
  case Bad
  then show ?thesis
    using assms TryDispatch_head [OF assms(2), of r] TryDispatch_head [of "bs @ ys" "add_fds f r"] head_stable(1) [OF assms(2) Bad, of ys] by simp
next
  case (Frame m h t k)
  then have d: "deliver m t k (take (m - h) (drop h bs)) r = (kError, r')" using assms TryDispatch_head [OF assms(2), of r] by simp
  show ?thesis
    using deliver_stable [OF d, of 0 f] head_frame [OF Frame] head_stable(2) [OF assms(2) Frame, of ys] TryDispatch_head [of "bs @ ys" "add_fds f r"] assms(2) by simp
qed (use assms TryDispatch_head [OF assms(2), of r] in simp)

lemma TryDispatch_wait:
  assumes "TryDispatchMessage bs r = Some (res, r')" "8 \<le> length bs" "res = kNotEnoughData m \<or> res = kMissingHandles"
  shows "r' = r"
  using assms TryDispatch_head [OF assms(2), of r] deliver_wait
  by (cases "head_of (is_for_ipcz r) bs") (auto simp: deliver_wait(1))

text \<open>The messages at the front of a list of bytes, one after the other, and what is left.\<close>

function drain_bytes :: "u8 list \<Rightarrow> receiver \<Rightarrow> bool \<times> u8 list \<times> receiver" where
  "drain_bytes bs r =
     (if length bs < 8 then (True, bs, r)
      else case TryDispatchMessage bs r of
        None \<Rightarrow> (False, bs, r)
      | Some (kOK n, r') \<Rightarrow> drain_bytes (drop n bs) r'
      | Some (kError, r') \<Rightarrow> (False, bs, r')
      | Some (_, r') \<Rightarrow> (True, bs, r'))"
  by pat_completeness auto
termination
  by (relation "measure (\<lambda>(bs, _). length bs)") (auto dest: TryDispatch_OK)

declare drain_bytes.simps [simp del]

lemma drain_cases:
  assumes "8 \<le> length bs"
  obtains (ok) n r' where "TryDispatchMessage bs r = Some (kOK n, r')" "8 \<le> n" "n \<le> length bs" "drain_bytes bs r = drain_bytes (drop n bs) r'"
  | (wait) res m where "TryDispatchMessage bs r = Some (res, r)" "res = kNotEnoughData m \<or> res = kMissingHandles" "drain_bytes bs r = (True, bs, r)"
  | (error) r' where "TryDispatchMessage bs r = Some (kError, r')" "drain_bytes bs r = (False, bs, r')"
proof -
  obtain res r' where d: "TryDispatchMessage bs r = Some (res, r')" using TryDispatch_head [OF assms, of r] by fastforce
  show ?thesis
  proof (cases res)
    case (kOK n)
    then show ?thesis using d ok TryDispatch_OK [of bs r n r'] assms by (simp add: drain_bytes.simps [of bs])
  next
    case (kNotEnoughData m)
    then show ?thesis using d wait [of res m] TryDispatch_wait [OF d assms, of m] assms by (simp add: drain_bytes.simps [of bs])
  next
    case kMissingHandles
    then show ?thesis using d wait [of res] TryDispatch_wait [OF d assms] assms by (simp add: drain_bytes.simps [of bs])
  next
    case kError
    then show ?thesis using d error assms by (simp add: drain_bytes.simps [of bs])
  qed
qed

text \<open>More bytes and handles may come later: what was cut out is the same.\<close>

lemma drain_append:
  assumes "drain_bytes bs r = (ok, bs', r')"
  shows "drain_bytes (bs @ ys) (add_fds f r) = (if ok then drain_bytes (bs' @ ys) (add_fds f r') else (False, bs' @ ys, add_fds f r'))"
  using assms
proof (induction bs r rule: drain_bytes.induct)
  case (1 bs r)
  show ?case
  proof (cases "length bs < 8")
    case True
    then show ?thesis using "1.prems" by (auto simp: drain_bytes.simps [of bs])
  next
    case False
    then have len: "8 \<le> length bs" by simp
    show ?thesis
    proof (cases rule: drain_cases [OF len, of r, case_names ok wait error])
      case (ok n r1)
      have "TryDispatchMessage (bs @ ys) (add_fds f r) = Some (kOK n, add_fds f r1)" using TryDispatch_OK [OF ok(1) len] by simp
      then have "drain_bytes (bs @ ys) (add_fds f r) = drain_bytes (drop n bs @ ys) (add_fds f r1)"
        using ok(3) len by (simp add: drain_bytes.simps [of "bs @ ys"])
      then show ?thesis using "1.IH" [OF False _ refl] ok "1.prems" by simp
    next
      case (wait res m)
      then show ?thesis using "1.prems" by simp
    next
      case (error r1)
      then show ?thesis using "1.prems" TryDispatch_Error [OF error(1) len, of ys f] len by (simp add: drain_bytes.simps [of "bs @ ys"])
    qed
  qed
qed

text \<open>The loop of the code cuts out the same messages, without touching anything outside of its buffer.\<close>

lemma read_loop_drain:
  assumes "alloc_ok fresh" "rb_ok b"
  shows "\<exists>hint' b'. rb_ok b' \<and> read_loop fresh hint b r =
      (case drain_bytes (occupied_bytes b) r of (ok, rest, r') \<Rightarrow> Some (ok, hint', b', r')) \<and>
      fst (snd (drain_bytes (occupied_bytes b) r)) = occupied_bytes b'"
  using assms(2)
proof (induction "occupied_bytes b" r arbitrary: b hint rule: drain_bytes.induct)
  case (1 r)
  let ?bs = "occupied_bytes b"
  show ?case
  proof (cases "length ?bs < 8")
    case True
    then show ?thesis using "1.prems" by (auto simp: read_loop.simps [of _ _ b] drain_bytes.simps [of ?bs])
  next
    case False
    then have len: "8 \<le> length ?bs" by simp
    obtain b0 where "Realign b = Some b0" "rb_ok b0" "occupied_bytes b0 = ?bs" using Realign_ok [OF "1.prems"] .
    then obtain b1 where b1: "(if IsAlignedForChannelMessage (num_discarded_bytes b) then Some b else Realign b) = Some b1"
      "rb_ok b1" "occupied_bytes b1 = ?bs" using "1.prems" by (cases "IsAlignedForChannelMessage (num_discarded_bytes b)") simp_all
    have step: "read_loop fresh hint b r = TryDispatchMessage ?bs r \<bind> (\<lambda>(result, r). case result of
        kOK n \<Rightarrow> Discard fresh n b1 \<bind> (\<lambda>b. read_loop fresh 0 b r)
      | kNotEnoughData n \<Rightarrow> Some (True, n, b1, r) | kMissingHandles \<Rightarrow> Some (True, hint, b1, r) | kError \<Rightarrow> Some (False, hint, b1, r))"
      using len b1 "1.prems" by (simp add: read_loop.simps [of _ _ b])
    show ?thesis
    proof (cases rule: drain_cases [OF len, of r, case_names ok wait error])
      case (ok n r1)
      have "n \<le> num_occupied_bytes b1" using ok(3) b1 by (metis length_occupied)
      from Discard_ok [OF assms(1) b1(2) this]
      obtain b2 where b2: "Discard fresh n b1 = Some b2" "rb_ok b2" "occupied_bytes b2 = drop n ?bs" using b1(3) by metis
      have "read_loop fresh hint b r = read_loop fresh 0 b2 r1" using step ok(1) b2(1) by simp
      moreover from "1.hyps" [OF False ok(1) refl refl b2(3) [symmetric] b2(2), of 0] b2(3)
      obtain hint' b' where "rb_ok b'" "read_loop fresh 0 b2 r1 = (case drain_bytes (drop n ?bs) r1 of (ok, rest, r') \<Rightarrow> Some (ok, hint', b', r'))"
        "fst (snd (drain_bytes (drop n ?bs) r1)) = occupied_bytes b'" by (elim exE conjE) simp
      ultimately show ?thesis unfolding ok(4) by (intro exI [of _ hint'] exI [of _ b']) simp
    next
      case (wait res m)
      then have "\<exists>h. read_loop fresh hint b r = Some (True, h, b1, r)" using step by (elim disjE) simp_all
      then show ?thesis using wait(3) b1(2,3) by auto
    next
      case (error r1)
      then show ?thesis using step b1(2,3) by (intro exI [of _ hint] exI [of _ b1]) simp
    qed
  qed
qed

lemma read_once_drain:
  assumes "alloc_ok fresh" "rb_ok b" "length (fst x) \<le> (if hint = 0 then kReadBufferSize else hint)"
  obtains hint' b' where "rb_ok b'" "read_once fresh grow hint x b r =
      (case drain_bytes (occupied_bytes b @ fst x) (add_fds (snd x) r) of (ok, rest, r') \<Rightarrow> Some (ok, hint', b', r'))"
    "fst (snd (drain_bytes (occupied_bytes b @ fst x) (add_fds (snd x) r))) = occupied_bytes b'"
proof -
  let ?c = "if hint = 0 then kReadBufferSize else hint"
  obtain b1 where b1: "Reserve fresh grow ?c b = Some b1" "rb_ok b1" "occupied_bytes b1 = occupied_bytes b"
    "rb_occupied_bytes b1 + ?c \<le> length (rb_data b1)" using Reserve_ok [OF assms(1,2)] by metis
  have "rb_occupied_bytes b1 + length (fst x) \<le> length (rb_data b1)" using b1(4) assms(3) by linarith
  from receive_ok [OF b1(2) this] obtain d where d: "poke (rb_occupied_bytes b1) (fst x) (rb_data b1) = Some d"
    "rb_ok (Claim (length (fst x)) (b1\<lparr>rb_data := d\<rparr>))"
    "occupied_bytes (Claim (length (fst x)) (b1\<lparr>rb_data := d\<rparr>)) = occupied_bytes b @ fst x" using b1(3) by metis
  have "read_once fresh grow hint x b r =
      read_loop fresh kReadBufferSize (Claim (length (fst x)) (b1\<lparr>rb_data := d\<rparr>)) (add_fds (snd x) r)"
    using b1(1) d(1) by (simp add: read_once_def GetReadBuffer_def Let_def OnReadComplete_def add_fds_def)
  then show ?thesis using that read_loop_drain [OF assms(1) d(2), of kReadBufferSize "add_fds (snd x) r"] d(3) by auto
qed

section \<open>Any division into reads\<close>

text \<open>Reads from a socket: each with the amount hinted at and what the system had of bytes and handles.\<close>

type_synonym socket_read = "nat \<times> u8 list \<times> int list"

abbreviation read_bytes :: "socket_read list \<Rightarrow> u8 list" where
  "read_bytes xs \<equiv> concat (map (\<lambda>x. fst (snd x)) xs)"

abbreviation read_fds :: "socket_read list \<Rightarrow> int list" where
  "read_fds xs \<equiv> concat (map (\<lambda>x. snd (snd x)) xs)"

text \<open>No read gives more than was asked for.\<close>

definition read_fits :: "socket_read \<Rightarrow> bool" where
  "read_fits x \<longleftrightarrow> length (fst (snd x)) \<le> (if fst x = 0 then kReadBufferSize else fst x)"

fun read_all ::
  "(nat \<Rightarrow> u8 list) \<Rightarrow> (nat \<Rightarrow> nat) \<Rightarrow> socket_read list \<Rightarrow> read_buffer \<Rightarrow> receiver \<Rightarrow> (bool \<times> read_buffer \<times> receiver) option" where
  "read_all fresh grow [] b r = Some (True, b, r)"
| "read_all fresh grow (x # xs) b r = do {
     (ok, hint, b, r) \<leftarrow> read_once fresh grow (fst x) (snd x) b r;
     if ok then read_all fresh grow xs b r else Some (False, b, r)
   }"

text \<open>\<open>OnFileCanReadWithoutBlocking\<close>: reads until the system has nothing more, a batch is full or an error occurs.
  The list is what the calls of \<open>recvmsg\<close> return; \<open>None\<close> of a call is an error or the end of the stream.\<close>

datatype recv_result = Received "u8 list" "int list" | WouldBlock | Disconnected

datatype channel_error = kDisconnected | kReceivedMalformedData

definition kMaxBatchReadCapacity :: nat where "kMaxBatchReadCapacity = 256 * 1024"

fun can_read ::
  "(nat \<Rightarrow> u8 list) \<Rightarrow> (nat \<Rightarrow> nat) \<Rightarrow> recv_result list \<Rightarrow> nat \<Rightarrow> nat \<Rightarrow> read_buffer \<Rightarrow> receiver \<Rightarrow>
    (channel_error option \<times> recv_result list \<times> read_buffer \<times> receiver) option" where
  "can_read fresh grow [] next_read_size total_bytes b r = Some (None, [], b, r)"
| "can_read fresh grow (WouldBlock # rs) next_read_size total_bytes b r = Some (None, rs, b, r)"
| "can_read fresh grow (Disconnected # rs) next_read_size total_bytes b r = Some (Some kDisconnected, rs, b, r)"
| "can_read fresh grow (Received xs fds # rs) next_read_size total_bytes b r =
     (let buffer_capacity = (if next_read_size = 0 then kReadBufferSize else next_read_size);
          total_bytes = total_bytes + length xs in
      case read_once fresh grow next_read_size (xs, fds) b r of
        None \<Rightarrow> None
      | Some (ok, next_read_size, b, r) \<Rightarrow>
          if \<not> ok then Some (Some kReceivedMalformedData, rs, b, r)
          else if length xs = buffer_capacity \<and> total_bytes < kMaxBatchReadCapacity \<and> next_read_size > 0
          then can_read fresh grow rs next_read_size total_bytes b r
          else Some (None, rs, b, r))"

definition OnFileCanReadWithoutBlocking ::
  "(nat \<Rightarrow> u8 list) \<Rightarrow> (nat \<Rightarrow> nat) \<Rightarrow> recv_result list \<Rightarrow> read_buffer \<Rightarrow> receiver \<Rightarrow>
    (channel_error option \<times> recv_result list \<times> read_buffer \<times> receiver) option" where
  "OnFileCanReadWithoutBlocking fresh grow rs b r = can_read fresh grow rs 0 0 b r"

fun received_data :: "recv_result list \<Rightarrow> (u8 list \<times> int list) list" where
  "received_data [] = []"
| "received_data (Received xs fds # rs) = (xs, fds) # received_data rs"
| "received_data (_ # rs) = received_data rs"

text \<open>A callback is a series of reads, and takes what came in order.\<close>

lemma can_read_reads:
  "can_read fresh grow rs hint tb b r = Some (e, rs', b', r') \<Longrightarrow>
   \<exists>xs. read_all fresh grow xs b r = Some (e \<noteq> Some kReceivedMalformedData, b', r') \<and> received_data rs = map snd xs @ received_data rs'"
proof (induction fresh grow rs hint tb b r rule: can_read.induct)
  case (4 fresh grow bs fds rs hint tb b r)
  then obtain ok hint1 b1 r1 where once: "read_once fresh grow hint (bs, fds) b r = Some (ok, hint1, b1, r1)"
    by (cases "read_once fresh grow hint (bs, fds) b r") (auto simp: Let_def)
  show ?case
  proof (cases "ok \<and> length bs = (if hint = 0 then kReadBufferSize else hint) \<and> tb + length bs < kMaxBatchReadCapacity \<and> hint1 > 0")
    case True
    then obtain xs where "read_all fresh grow xs b1 r1 = Some (e \<noteq> Some kReceivedMalformedData, b', r')" "received_data rs = map snd xs @ received_data rs'"
      using "4.IH" [OF refl refl once refl refl refl] "4.prems" once by (auto simp: Let_def)
    then show ?thesis using True once by (intro exI [of _ "(hint, bs, fds) # xs"]) simp
  next
    case False
    then show ?thesis using once "4.prems" by (intro exI [of _ "[(hint, bs, fds)]"]) (auto simp: Let_def split: if_splits)
  qed
qed (auto intro: exI [of _ "[]"])

lemma read_all_drain:
  assumes "alloc_ok fresh" "rb_ok b" "list_all read_fits xs" "drain_bytes (occupied_bytes b) r = (True, occupied_bytes b, r)"
  shows "\<exists>b' r'. read_all fresh grow xs b r = Some (fst (drain_bytes (occupied_bytes b @ read_bytes xs) (add_fds (read_fds xs) r)), b', r') \<and> rb_ok b' \<and>
    delivered_messages r' = delivered_messages (snd (snd (drain_bytes (occupied_bytes b @ read_bytes xs) (add_fds (read_fds xs) r))))"
  using assms(2-)
proof (induction xs arbitrary: b r)
  case (Cons x xs)
  let ?bs = "occupied_bytes b @ fst (snd x)" and ?r = "add_fds (snd (snd x)) r"
  let ?ys = "read_bytes xs" and ?fs = "read_fds xs"
  have fit: "length (fst (snd x)) \<le> (if fst x = 0 then kReadBufferSize else fst x)" using Cons.prems(2) by (simp add: read_fits_def)
  obtain ok rest r1 where d: "drain_bytes ?bs ?r = (ok, rest, r1)" by (cases "drain_bytes ?bs ?r")
  obtain hint' b' where once: "rb_ok b'" "read_once fresh grow (fst x) (snd x) b r = Some (ok, hint', b', r1)" "rest = occupied_bytes b'"
    using read_once_drain [OF assms(1) Cons.prems(1) fit, of grow r] d by (metis fst_conv old.prod.case snd_conv)
  note all = drain_append [OF d, of ?ys ?fs]
  show ?case
  proof (cases ok)
    case True
    have "drain_bytes (occupied_bytes b') r1 = (True, occupied_bytes b', r1)"
      using drain_append [OF d, of "[]" "[]"] d True once(3) by simp
    then show ?thesis using Cons.IH [OF once(1), of r1] Cons.prems(2) all once True by simp
  next
    case False
    then show ?thesis using once all by simp
  qed
qed simp

section \<open>A stream of messages\<close>

record sent_message =
  sm_type :: u16
  sm_payload :: "u8 list"
  sm_handles :: "int list"

definition sendable :: "sent_message \<Rightarrow> bool" where
  "sendable m \<longleftrightarrow> (sm_type m = NORMAL \<or> sm_type m = NORMAL_LEGACY) \<and> 16 + length (sm_payload m) < 2 ^ 32 \<and> length (sm_handles m) < 65536"

text \<open>A channel for ipcz has headers of its own and does not know types.\<close>

definition frame_of :: "bool \<Rightarrow> sent_message \<Rightarrow> u8 list" where
  "frame_of ipcz m = (if ipcz then ipcz_frame (of_nat (length (sm_handles m))) (sm_payload m)
     else frame_bytes (sm_type m) (of_nat (length (sm_handles m))) (sm_payload m))"

definition stream_of :: "bool \<Rightarrow> sent_message list \<Rightarrow> u8 list" where
  "stream_of ipcz ms = concat (map (frame_of ipcz) ms)"

definition handles_of :: "sent_message list \<Rightarrow> int list" where
  "handles_of ms = concat (map sm_handles ms)"

definition contents_of :: "sent_message list \<Rightarrow> (u8 list \<times> int list) list" where
  "contents_of ms = map (\<lambda>m. (sm_payload m, sm_handles m)) ms"

definition listening :: "receiver \<Rightarrow> bool" where
  "listening r \<longleftrightarrow> has_delegate r \<and> rcv_policy r = kAcceptHandles"

definition log_messages :: "(u8 list \<times> int list) list \<Rightarrow> receiver \<Rightarrow> receiver" where
  "log_messages xs r = r\<lparr>delivered_messages := delivered_messages r @ xs\<rparr>"

lemma num16_peek:
  assumes "peek16 i bs = Some v" "i + 2 \<le> length bs"
  shows "num16 i bs = unat v"
  using assms peek_num(1) [of i bs] unat_num(1) [of i bs] by simp

lemma num32_peek:
  assumes "peek32 i bs = Some v" "i + 4 \<le> length bs"
  shows "num32 i bs = unat v"
  using assms peek_num(2) [of i bs] unat_num(2) [of i bs] by simp

lemma unat_size: "k < 2 ^ 32 \<Longrightarrow> unat (of_nat k :: u32) = k"
  by (simp add: unat_of_nat)

lemma frame_num:
  assumes "header_size t + length xs < 2 ^ 32"
  shows "num32 0 (frame_bytes t n xs @ rest) = header_size t + length xs" "num16 6 (frame_bytes t n xs @ rest) = unat t"
    "num16 4 (frame_bytes t n xs @ rest) = (if t = NORMAL_LEGACY then unat n else 16)"
    "t \<noteq> NORMAL_LEGACY \<Longrightarrow> num16 8 (frame_bytes t n xs @ rest) = unat n"
proof -
  let ?bs = "frame_bytes t n xs @ rest"
  have len: "8 \<le> length ?bs" "t \<noteq> NORMAL_LEGACY \<Longrightarrow> 16 \<le> length ?bs" by (simp_all add: header_size_def)
  show "num32 0 ?bs = header_size t + length xs" using num32_peek [OF frame_fields(1)] len(1) unat_size [OF assms] by simp
  show "num16 6 ?bs = unat t" by (rule num16_peek [OF frame_fields(2)]) (use len(1) in simp)
  show "num16 4 ?bs = (if t = NORMAL_LEGACY then unat n else 16)" using num16_peek [OF frame_fields(3)] len(1) by simp
  show "num16 8 ?bs = unat n" if "t \<noteq> NORMAL_LEGACY" using num16_peek [OF frame_fields(4) [OF that]] len(2) [OF that] by simp
qed

lemma ipcz_num:
  assumes "8 + length xs < 2 ^ 32"
  shows "num16 0 (ipcz_frame n xs @ rest) = 8" "num16 2 (ipcz_frame n xs @ rest) = unat n" "num32 4 (ipcz_frame n xs @ rest) = 8 + length xs"
proof -
  let ?bs = "ipcz_frame n xs @ rest"
  have len: "8 \<le> length ?bs" by (simp add: ipcz_frame_def)
  have p: "peek16 0 ?bs = Some 8" "peek16 2 ?bs = Some n" "peek32 4 ?bs = Some (of_nat (8 + length xs))"
    by (simp_all add: ipcz_frame_def del: of_nat_add)
  show "num16 0 ?bs = 8" using num16_peek [OF p(1)] len by simp
  show "num16 2 ?bs = unat n" using num16_peek [OF p(2)] len by simp
  show "num32 4 ?bs = 8 + length xs" using num32_peek [OF p(3)] len unat_size [OF assms] by simp
qed

lemma head_frame_of:
  assumes "sendable m"
  shows "head_of ipcz (frame_of ipcz m @ rest) =
    Frame (length (frame_of ipcz m)) (if ipcz then 8 else header_size (sm_type m)) (if ipcz then NORMAL else sm_type m) (length (sm_handles m))"
proof -
  let ?t = "sm_type m" and ?xs = "sm_payload m" and ?n = "of_nat (length (sm_handles m)) :: u16"
  have small: "header_size ?t + length ?xs < 2 ^ 32" "8 + length ?xs < 2 ^ 32"
    using assms header_size_cases [of ?t] by (auto simp: sendable_def)
  have n: "unat ?n = length (sm_handles m)" using assms by (simp add: sendable_def unat_of_nat)
  note num = frame_num [OF small(1), of ?n rest] and inum = ipcz_num [OF small(2), of ?n rest]
  consider (ipcz) "ipcz" | (legacy) "\<not> ipcz" "?t = NORMAL_LEGACY" | (normal) "\<not> ipcz" "?t = NORMAL" using assms by (auto simp: sendable_def)
  then show ?thesis
  proof cases
    case ipcz
    have len: "length (ipcz_frame ?n ?xs) = 8 + length ?xs" by (simp add: ipcz_frame_def)
    then show ?thesis using inum n ipcz by (simp add: head_of_def frame_of_def)
  next
    case legacy
    then show ?thesis using num n by (simp add: head_of_def frame_of_def header_size_def NORMAL_LEGACY_def)
  next
    case normal
    then show ?thesis using num n by (simp add: head_of_def frame_of_def header_size_def NORMAL_LEGACY_def NORMAL_def)
  qed
qed

lemma drain_frame:
  assumes "sendable m" "listening r" "incoming_fds r = []" "is_for_ipcz r = ipcz"
  shows "drain_bytes (frame_of ipcz m @ rest) (add_fds (sm_handles m @ f) r) =
    drain_bytes rest (add_fds f (log_messages [(sm_payload m, sm_handles m)] r))"
proof -
  let ?r = "add_fds (sm_handles m @ f) r" and ?bs = "frame_of ipcz m @ rest" and ?l = "length (frame_of ipcz m)"
  let ?r' = "add_fds f (log_messages [(sm_payload m, sm_handles m)] r)" and ?h = "if ipcz then 8 else header_size (sm_type m)"
  have len: "8 \<le> length ?bs" by (simp add: frame_of_def ipcz_frame_def header_size_def)
  have payload: "take (?l - ?h) (drop ?h ?bs) = sm_payload m" by (simp add: frame_of_def frame_bytes_def ipcz_frame_def)
  have "deliver ?l (if ipcz then NORMAL else sm_type m) (length (sm_handles m)) (sm_payload m) ?r = (kOK ?l, ?r')"
    using assms by (auto simp: deliver_def Let_def listening_def sendable_def OnChannelMessage_def add_fds_def log_messages_def)
  then have "TryDispatchMessage ?bs ?r = Some (kOK ?l, ?r')"
    using TryDispatch_head [OF len, of ?r] head_frame_of [OF assms(1), of ipcz rest] payload assms(4) by simp
  then show ?thesis using len by (simp add: drain_bytes.simps [of ?bs])
qed

lemma drain_stream:
  assumes "list_all sendable ms" "listening r" "incoming_fds r = []"
  shows "drain_bytes (stream_of (is_for_ipcz r) ms @ rest) (add_fds (handles_of ms @ f) r) =
    drain_bytes rest (add_fds f (log_messages (contents_of ms) r))"
  using assms
proof (induction ms arbitrary: r)
  case Nil
  then show ?case by (simp add: stream_of_def handles_of_def contents_of_def log_messages_def)
next
  case (Cons m ms)
  let ?r = "log_messages [(sm_payload m, sm_handles m)] r"
  have r: "listening ?r" "incoming_fds ?r = []" "is_for_ipcz ?r = is_for_ipcz r" using Cons.prems(2,3) by (simp_all add: listening_def log_messages_def)
  from Cons.IH [OF _ r(1,2)] Cons.prems(1) r(3)
  have "drain_bytes (stream_of (is_for_ipcz r) ms @ rest) (add_fds (handles_of ms @ f) ?r) =
      drain_bytes rest (add_fds f (log_messages (contents_of ms) ?r))" by simp
  moreover have "drain_bytes (frame_of (is_for_ipcz r) m @ stream_of (is_for_ipcz r) ms @ rest) (add_fds (sm_handles m @ handles_of ms @ f) r) =
      drain_bytes (stream_of (is_for_ipcz r) ms @ rest) (add_fds (handles_of ms @ f) ?r)"
    using drain_frame [of m r] Cons.prems by simp
  ultimately show ?case by (simp add: stream_of_def handles_of_def contents_of_def log_messages_def)
qed

lemma hand_over_log: "prefix (delivered_messages r) (delivered_messages (snd (hand_over n t xs hs r)))"
  by (simp add: hand_over_def OnControlMessage_def OnChannelMessage_def)

lemma TryDispatch_log:
  assumes "TryDispatchMessage bs r = Some (res, r')" "8 \<le> length bs"
  shows "prefix (delivered_messages r) (delivered_messages r')"
proof -
  have "prefix (delivered_messages r) (delivered_messages (snd (deliver n t k xs r)))" for n t k xs
    using hand_over_log [of "r\<lparr>incoming_fds := drop k (incoming_fds r)\<rparr>" n t xs "take k (incoming_fds r)"]
      hand_over_log [of r n t xs "[]"] by (simp add: deliver_hand_over)
  from this show ?thesis using assms TryDispatch_head [OF assms(2), of r] by (auto split: head.splits) (metis snd_conv)
qed

lemma drain_log: "prefix (delivered_messages r) (delivered_messages (snd (snd (drain_bytes bs r))))"
proof (induction bs r rule: drain_bytes.induct)
  case (1 bs r)
  show ?case
  proof (cases "length bs < 8")
    case True
    then show ?thesis by (simp add: drain_bytes.simps [of bs])
  next
    case False
    then have len: "8 \<le> length bs" by simp
    show ?thesis
    proof (cases rule: drain_cases [OF len, of r, case_names ok wait error])
      case (ok n r')
      then show ?thesis using "1.IH" [OF False ok(1) refl refl] TryDispatch_log [OF ok(1) len] prefix_order.trans by simp
    next
      case (wait res m)
      then show ?thesis by simp
    next
      case (error r')
      then show ?thesis using TryDispatch_log [OF error(1) len] by simp
    qed
  qed
qed

lemma drain_nil [simp]: "drain_bytes [] r = (True, [], r)"
  by (simp add: drain_bytes.simps)

text \<open>What has arrived of a stream so far.\<close>

lemma drain_prefix:
  assumes "list_all sendable ms" "listening r" "incoming_fds r = []" "delivered_messages r = []"
    "prefix bs (stream_of (is_for_ipcz r) ms)" "prefix fs (handles_of ms)"
  shows "fst (drain_bytes bs (add_fds fs r)) \<and> prefix (delivered_messages (snd (snd (drain_bytes bs (add_fds fs r))))) (contents_of ms)"
proof -
  obtain ys f where ys: "stream_of (is_for_ipcz r) ms = bs @ ys" "handles_of ms = fs @ f" using assms(5,6) by (auto simp: prefix_def)
  obtain ok rest r' where d: "drain_bytes bs (add_fds fs r) = (ok, rest, r')" by (cases "drain_bytes bs (add_fds fs r)")
  have "drain_bytes (bs @ ys) (add_fds (fs @ f) r) = (True, [], log_messages (contents_of ms) r)"
    using drain_stream [OF assms(1-3), of "[]" "[]"] ys by simp
  then have all: "(if ok then drain_bytes (rest @ ys) (add_fds f r') else (False, rest @ ys, add_fds f r')) = (True, [], log_messages (contents_of ms) r)"
    using drain_append [OF d, of ys f] by simp
  then have ok by (cases ok) simp_all
  then show ?thesis using all d drain_log [of "add_fds f r'" "rest @ ys"] assms(4) by (simp add: log_messages_def)
qed

lemma drain_complete:
  assumes "list_all sendable ms" "listening r" "incoming_fds r = []" "delivered_messages r = []"
    "prefix (stream_of (is_for_ipcz r) ms) bs" "prefix (handles_of ms) fs"
  shows "prefix (contents_of ms) (delivered_messages (snd (snd (drain_bytes bs (add_fds fs r)))))"
proof -
  obtain ys f where ys: "bs = stream_of (is_for_ipcz r) ms @ ys" "fs = handles_of ms @ f" using assms(5,6) by (auto simp: prefix_def)
  show ?thesis
    using drain_log [of "add_fds f (log_messages (contents_of ms) r)" ys] assms(4)
    by (simp add: ys drain_stream [OF assms(1-3)] log_messages_def)
qed

lemma reads_stream:
  assumes "alloc_ok fresh" "list_all sendable ms" "listening r" "incoming_fds r = []" "delivered_messages r = []"
    "prefix (read_bytes xs) (stream_of (is_for_ipcz r) ms)" "prefix (read_fds xs) (handles_of ms)" "list_all read_fits xs"
  obtains b' r' where "read_all fresh grow xs (ReadBuffer fresh) r = Some (True, b', r')" "prefix (delivered_messages r') (contents_of ms)"
    "\<And>ms1. prefix ms1 ms \<Longrightarrow> prefix (stream_of (is_for_ipcz r) ms1) (read_bytes xs) \<Longrightarrow> prefix (handles_of ms1) (read_fds xs) \<Longrightarrow>
      prefix (contents_of ms1) (delivered_messages r')"
proof -
  note rb = ReadBuffer_ok [OF assms(1)]
  from read_all_drain [OF assms(1) _ assms(8), of "ReadBuffer fresh" r grow] rb
  obtain b' r' where read: "read_all fresh grow xs (ReadBuffer fresh) r = Some (fst (drain_bytes (read_bytes xs) (add_fds (read_fds xs) r)), b', r')"
    "delivered_messages r' = delivered_messages (snd (snd (drain_bytes (read_bytes xs) (add_fds (read_fds xs) r))))" by auto
  have "list_all sendable ms1" if "prefix ms1 ms" for ms1 using that assms(2) by (auto simp: prefix_def)
  then show ?thesis
    using read drain_prefix [OF assms(2-7)] drain_complete [OF _ assms(3-5)] that by simp
qed

text \<open>C30: However the system divides the bytes and the handles of a stream of messages into reads, the channel cuts out
  the messages that were sent, in order, with their handles, and never reports an error or leaves its buffer: what it has
  delivered is a beginning of what was sent, and includes every message whose bytes and handles have arrived.\<close>

theorem channel_reads_messages:
  assumes "alloc_ok fresh" "list_all sendable ms" "listening r" "incoming_fds r = []" "delivered_messages r = []"
    "prefix (read_bytes xs) (stream_of (is_for_ipcz r) ms)" "prefix (read_fds xs) (handles_of ms)" "list_all read_fits xs"
  shows "\<exists>b' r'. read_all fresh grow xs (ReadBuffer fresh) r = Some (True, b', r') \<and>
    prefix (delivered_messages r') (contents_of ms) \<and>
    (\<forall>ms1. prefix ms1 ms \<and> prefix (stream_of (is_for_ipcz r) ms1) (read_bytes xs) \<and> prefix (handles_of ms1) (read_fds xs) \<longrightarrow>
      prefix (contents_of ms1) (delivered_messages r'))"
  using reads_stream [OF assms, of grow] by metis

definition demo_receiver :: receiver where
  "demo_receiver = \<lparr>is_for_ipcz = False, has_delegate = True, rcv_policy = kAcceptHandles, incoming_fds = [],
     delivered_messages = [], upgrade_rejects = 0\<rparr>"

definition demo_reads :: "socket_read list" where
  "demo_reads = [(0, [11, 0, 0], []), (0, [0, 1, 0, 0, 0, 5, 6], [42]), (1, [7], [])]"

theorem channel_reads_messages_witness:
  "\<exists>b' r'. read_all (\<lambda>n. replicate n 0) id demo_reads (ReadBuffer (\<lambda>n. replicate n 0)) demo_receiver = Some (True, b', r') \<and>
     delivered_messages r' = [([5, 6, 7], [42])]"
proof -
  let ?ms = "[\<lparr>sm_type = NORMAL_LEGACY, sm_payload = [5, 6, 7], sm_handles = [42]\<rparr>]" and ?fresh = "\<lambda>n. replicate n (0 :: u8)"
  have s: "stream_of (is_for_ipcz demo_receiver) ?ms = read_bytes demo_reads" by code_simp
  have h: "handles_of ?ms = read_fds demo_reads" by code_simp
  have fit: "list_all read_fits demo_reads" by (simp add: demo_reads_def read_fits_def kReadBufferSize_def)
  have ms: "list_all sendable ?ms" "listening demo_receiver" "contents_of ?ms = [([5, 6, 7], [42])]"
    by (simp_all add: sendable_def listening_def demo_receiver_def contents_of_def)
  have "alloc_ok ?fresh" "incoming_fds demo_receiver = []" "delivered_messages demo_receiver = []"
    by (simp_all add: alloc_ok_def demo_receiver_def)
  from channel_reads_messages [OF this(1) ms(1,2) this(2,3) _ _ fit, of id] s h
  obtain b' r' where r: "read_all ?fresh id demo_reads (ReadBuffer ?fresh) demo_receiver = Some (True, b', r')"
    "prefix (delivered_messages r') (contents_of ?ms)" "prefix (contents_of ?ms) (delivered_messages r')" by auto
  from prefix_order.antisym [OF r(2,3)] r(1) show ?thesis unfolding ms(3) by blast
qed

end
