(* ===== verification/Channel_Write.thy ===== *)
theory Channel_Write
  imports Channel_Message "HOL-Library.Sublist"
begin

text \<open>
  The sending side of a channel, \<open>mojo/core/channel_posix.cc\<close> (Linux): messages are written to a socket
  that may take a part of one, or nothing for now; the rest waits in a queue.  The socket is a function from the
  number of a call to what that call does, so that it never runs out of results; \<open>sent_bytes\<close> and \<open>sent_fds\<close> are what
  it took.  The loops around the calls may run forever as far as their definitions go: \<open>None\<close> is a call that does not
  return.
\<close>

section \<open>Messages on their way\<close>

definition kMaxSendmsgHandles :: nat where "kMaxSendmsgHandles = 128"
definition IOV_MAX :: nat where "IOV_MAX = 1024"

record message_view =
  view_data :: "u8 list"
  view_offset :: nat
  view_handles :: "int list"
  num_handles_sent :: nat

definition MessageView :: "channel_message \<Rightarrow> message_view" where
  "MessageView m = \<lparr>view_data = take (msg_size m) (msg_data m), view_offset = 0, view_handles = fst (TakeHandles m), num_handles_sent = 0\<rparr>"

definition unsent_data :: "message_view \<Rightarrow> u8 list" where
  "unsent_data v = drop (view_offset v) (view_data v)"

definition unsent_fds :: "message_view \<Rightarrow> int list" where
  "unsent_fds v = drop (num_handles_sent v) (view_handles v)"

definition num_handles_remaining :: "message_view \<Rightarrow> nat" where
  "num_handles_remaining v = length (view_handles v) - num_handles_sent v"

text \<open>A call on the socket takes a part of the data, at least a byte, and all handles; or nothing for now; or fails.\<close>

datatype socket_result = Wrote nat | Again | Broken

record channel_writer =
  use_writev :: bool
  outgoing_messages :: "message_view list"
  pending_write :: bool
  posted_waits :: nat
  write_watcher :: bool
  read_watcher :: bool
  started :: bool
  reject_writes :: bool
  posted_errors :: nat
  error_reported :: bool
  start_failed :: bool
  socket_script :: "nat \<Rightarrow> socket_result"
  socket_calls :: nat
  sent_bytes :: "u8 list"
  sent_fds :: "int list"

definition WaitForWriteOnIOThreadNoLock :: "bool \<Rightarrow> channel_writer \<Rightarrow> channel_writer" where
  "WaitForWriteOnIOThreadNoLock io s =
     (if pending_write s \<or> \<not> write_watcher s then s
      else if io then s\<lparr>pending_write := True\<rparr>
      else s\<lparr>posted_waits := posted_waits s + 1\<rparr>)"

text \<open>The loop of \<open>WriteNoLock\<close> on one message.\<close>

datatype write_outcome = Written | Waits message_view | Failed

partial_function (option) write_message ::
  "(nat \<Rightarrow> socket_result) \<Rightarrow> message_view \<Rightarrow> nat \<Rightarrow> u8 list \<Rightarrow> int list \<Rightarrow> (write_outcome \<times> nat \<times> u8 list \<times> int list) option" where
  "write_message script v i bs fs =
     (case script i of
        Again \<Rightarrow> Some (Waits v, Suc i, bs, fs)
      | Broken \<Rightarrow> Some (Failed, Suc i, bs, fs)
      | Wrote n \<Rightarrow>
          (let data = unsent_data v;
               num_handles_to_send = (if num_handles_sent v < length (view_handles v)
                 then min (length (view_handles v) - num_handles_sent v) kMaxSendmsgHandles else 0);
               bytes_written = min (length data) (max 1 n);
               v' = v\<lparr>num_handles_sent := num_handles_sent v + num_handles_to_send\<rparr>;
               bs = bs @ take bytes_written data;
               fs = fs @ take num_handles_to_send (unsent_fds v) in
           if num_handles_sent v' < length (view_handles v) \<or> bytes_written < length data
           then write_message script (v'\<lparr>view_offset := view_offset v + bytes_written\<rparr>) (Suc i) bs fs
           else Some (Written, Suc i, bs, fs)))"

text \<open>The walk over the queue after a \<open>writev\<close>: how many messages were written, and the queue.\<close>

fun advance_views :: "nat \<Rightarrow> message_view list \<Rightarrow> nat \<times> message_view list" where
  "advance_views k [] = (0, [])"
| "advance_views k (v # vs) =
     (if k = 0 then (0, v # vs)
      else if k \<ge> length (unsent_data v) then (case advance_views (k - length (unsent_data v)) vs of (p, vs) \<Rightarrow> (Suc p, vs))
      else (0, v\<lparr>view_offset := view_offset v + k\<rparr> # vs))"

partial_function (option) writev_loop ::
  "(nat \<Rightarrow> socket_result) \<Rightarrow> nat \<Rightarrow> message_view list \<Rightarrow> nat \<Rightarrow> u8 list \<Rightarrow>
    ((bool \<times> bool) \<times> message_view list \<times> nat \<times> u8 list) option" where
  "writev_loop script c vs i bs =
     (if c = 0 then Some ((True, False), vs, i, bs)
      else case script i of
        Again \<Rightarrow> Some ((True, True), vs, Suc i, bs)
      | Broken \<Rightarrow> Some ((False, False), vs, Suc i, bs)
      | Wrote n \<Rightarrow>
          (let data = concat (map unsent_data (take c vs));
               k = min (length data) (max 1 n) in
           case advance_views k vs of (p, vs) \<Rightarrow> writev_loop script (c - p) vs (Suc i) (bs @ take k data)))"

declare write_message.simps [code] writev_loop.simps [code]

definition WriteOutgoingMessagesWithWritev :: "bool \<Rightarrow> channel_writer \<Rightarrow> (bool \<times> channel_writer) option" where
  "WriteOutgoingMessagesWithWritev io s =
     (if outgoing_messages s = [] then Some (True, s)
      else
        let num_messages_to_send = min IOV_MAX (length (outgoing_messages s));
            num_iovs_set = length (takeWhile (\<lambda>v. \<not> num_handles_remaining v > 0) (take num_messages_to_send (outgoing_messages s))) in
        case writev_loop (socket_script s) num_iovs_set (outgoing_messages s) (socket_calls s) (sent_bytes s) of
          None \<Rightarrow> None
        | Some ((ok, blocked), vs, i, bs) \<Rightarrow>
            let s = s\<lparr>outgoing_messages := vs, socket_calls := i, sent_bytes := bs\<rparr> in
            Some (ok, if blocked then WaitForWriteOnIOThreadNoLock io s else s))"

text \<open>\<open>WriteNoLock\<close> and the flushing of the queue call each other; the first argument bounds the nesting.
  \<open>None\<close> is a bound that was too small, or one of the inner loops that does not end.\<close>

fun WriteNoLock :: "nat \<Rightarrow> bool \<Rightarrow> message_view \<Rightarrow> channel_writer \<Rightarrow> (bool \<times> channel_writer) option"
  and FlushOutgoingMessagesNoLock :: "nat \<Rightarrow> bool \<Rightarrow> channel_writer \<Rightarrow> (bool \<times> channel_writer) option"
  and flush_loop :: "nat \<Rightarrow> bool \<Rightarrow> message_view list \<Rightarrow> channel_writer \<Rightarrow> (bool \<times> channel_writer) option"
  and FlushOutgoingMessagesWritevNoLock :: "nat \<Rightarrow> bool \<Rightarrow> channel_writer \<Rightarrow> (bool \<times> channel_writer) option" where
  "WriteNoLock 0 io v s = None"
| "WriteNoLock (Suc n) io v s =
     (case write_message (socket_script s) v (socket_calls s) (sent_bytes s) (sent_fds s) of
        None \<Rightarrow> None
      | Some (outcome, i, bs, fs) \<Rightarrow>
          let s = s\<lparr>socket_calls := i, sent_bytes := bs, sent_fds := fs\<rparr> in
          case outcome of
            Failed \<Rightarrow> Some (False, s)
          | Waits v \<Rightarrow> Some (True, WaitForWriteOnIOThreadNoLock io (s\<lparr>outgoing_messages := v # outgoing_messages s\<rparr>))
          | Written \<Rightarrow> FlushOutgoingMessagesNoLock n io s)"
| "FlushOutgoingMessagesNoLock 0 io s = None"
| "FlushOutgoingMessagesNoLock (Suc n) io s =
     (if use_writev s then FlushOutgoingMessagesWritevNoLock n io s
      else flush_loop n io (outgoing_messages s) (s\<lparr>outgoing_messages := []\<rparr>))"
| "flush_loop 0 io messages s = None"
| "flush_loop (Suc n) io [] s = Some (True, s)"
| "flush_loop (Suc n) io (v # messages) s = do {
     (ok, s) \<leftarrow> WriteNoLock n io v s;
     if \<not> ok then Some (False, s)
     else if outgoing_messages s \<noteq> [] then Some (True, s\<lparr>outgoing_messages := outgoing_messages s @ messages\<rparr>)
     else flush_loop n io messages s
   }"
| "FlushOutgoingMessagesWritevNoLock 0 io s = None"
| "FlushOutgoingMessagesWritevNoLock (Suc n) io s =
     (case outgoing_messages s of
        v # rest \<Rightarrow>
          if num_handles_remaining v > 0 \<or> rest = [] then do {
            (ok, s') \<leftarrow> WriteNoLock n io v (s\<lparr>outgoing_messages := rest\<rparr>);
            if \<not> ok then Some (False, s')
            else if length (outgoing_messages s') > length rest then Some (True, s')
            else FlushOutgoingMessagesWritevNoLock n io s'
          }
          else (case WriteOutgoingMessagesWithWritev io s of
            None \<Rightarrow> None
          | Some (ok, s) \<Rightarrow>
            if \<not> ok then Some (False, s)
            else if outgoing_messages s \<noteq> [] then FlushOutgoingMessagesWritevNoLock n io s
            else Some (True, s))
      | [] \<Rightarrow> Some (True, s))"

section \<open>Calls on a channel\<close>

definition ch_Write :: "nat \<Rightarrow> bool \<Rightarrow> channel_message \<Rightarrow> channel_writer \<Rightarrow> channel_writer option" where
  "ch_Write n io m s =
     (if reject_writes s then Some s
      else if outgoing_messages s = [] then do {
        (ok, s) \<leftarrow> WriteNoLock n io (MessageView m) s;
        Some (if ok then s else s\<lparr>reject_writes := True, posted_errors := posted_errors s + 1\<rparr>)
      }
      else Some (s\<lparr>outgoing_messages := outgoing_messages s @ [MessageView m]\<rparr>))"

definition WaitForWriteOnIOThread :: "channel_writer \<Rightarrow> channel_writer" where
  "WaitForWriteOnIOThread s = WaitForWriteOnIOThreadNoLock True (s\<lparr>posted_waits := posted_waits s - 1\<rparr>)"

text \<open>\<open>OnError\<close> tells the delegate.\<close>

definition OnWriteError :: "channel_writer \<Rightarrow> channel_writer" where
  "OnWriteError s = (if read_watcher s then s\<lparr>write_watcher := False\<rparr> else s\<lparr>error_reported := True\<rparr>)"

definition OnFileCanWriteWithoutBlocking :: "nat \<Rightarrow> channel_writer \<Rightarrow> channel_writer option" where
  "OnFileCanWriteWithoutBlocking n s = do {
     (ok, s) \<leftarrow> FlushOutgoingMessagesNoLock n True (s\<lparr>pending_write := False\<rparr>);
     Some (if ok then s else OnWriteError (s\<lparr>reject_writes := True\<rparr>))
   }"

text \<open>\<open>StartOnIOThread\<close> ignores the result of its flush; the ghost field \<open>start_failed\<close> remembers that it failed.\<close>

definition StartOnIOThread :: "nat \<Rightarrow> channel_writer \<Rightarrow> channel_writer option" where
  "StartOnIOThread n s = do {
     (ok, s) \<leftarrow> FlushOutgoingMessagesNoLock n True (s\<lparr>read_watcher := True, write_watcher := True, started := True\<rparr>);
     Some (s\<lparr>start_failed := \<not> ok\<rparr>)
   }"

section \<open>Nothing is lost, repeated or reordered\<close>

definition view_ok :: "message_view \<Rightarrow> bool" where
  "view_ok v \<longleftrightarrow> view_offset v < length (view_data v) \<and> num_handles_sent v \<le> length (view_handles v) \<and> length (view_handles v) \<le> kMaxSendmsgHandles"

definition queued_bytes :: "message_view list \<Rightarrow> u8 list" where
  "queued_bytes vs = concat (map unsent_data vs)"

definition queued_fds :: "message_view list \<Rightarrow> int list" where
  "queued_fds vs = concat (map unsent_fds vs)"

lemma queued_simps [simp]:
  "queued_bytes [] = []" "queued_bytes (v # vs) = unsent_data v @ queued_bytes vs" "queued_bytes (us @ vs) = queued_bytes us @ queued_bytes vs"
  "queued_fds [] = []" "queued_fds (v # vs) = unsent_fds v @ queued_fds vs" "queued_fds (us @ vs) = queued_fds us @ queued_fds vs"
  by (simp_all add: queued_bytes_def queued_fds_def)

lemma num_handles_remaining_0: "view_ok v \<Longrightarrow> num_handles_remaining v = 0 \<longleftrightarrow> unsent_fds v = []"
  by (auto simp: view_ok_def num_handles_remaining_def unsent_fds_def)

definition fds_to_send :: "message_view \<Rightarrow> nat" where
  "fds_to_send v = (if num_handles_sent v < length (view_handles v) then min (length (view_handles v) - num_handles_sent v) kMaxSendmsgHandles else 0)"

text \<open>A message has few enough handles for one call.\<close>

lemma fds_step:
  assumes "view_ok v"
  shows "num_handles_sent v + fds_to_send v = length (view_handles v)" "take (fds_to_send v) (unsent_fds v) = unsent_fds v"
  using assms by (auto simp: view_ok_def fds_to_send_def unsent_fds_def)

lemma data_step: "unsent_data v = take k (unsent_data v) @ drop (view_offset v + k) (view_data v)"
  using append_take_drop_id [of k "unsent_data v"] by (simp add: unsent_data_def add.commute)

lemma write_message_unfold:
  fixes n v
  defines "k \<equiv> min (length (unsent_data v)) (max 1 n)"
  assumes "script i = Wrote n"
  shows "write_message script v i bs fs =
    (if num_handles_sent v + fds_to_send v < length (view_handles v) \<or> k < length (unsent_data v)
     then write_message script (v\<lparr>num_handles_sent := num_handles_sent v + fds_to_send v, view_offset := view_offset v + k\<rparr>) (Suc i)
       (bs @ take k (unsent_data v)) (fs @ take (fds_to_send v) (unsent_fds v))
     else Some (Written, Suc i, bs @ take k (unsent_data v), fs @ take (fds_to_send v) (unsent_fds v)))"
proof -
  have "num_handles_sent (v\<lparr>num_handles_sent := x\<rparr>) = x" for x by simp
  then show ?thesis
    unfolding fds_to_send_def k_def by (subst write_message.simps) (simp only: assms(2) Let_def socket_result.case)
qed

lemma write_message_Wrote:
  assumes "view_ok v" "script i = Wrote n" "k = min (length (unsent_data v)) (max 1 n)"
  shows "write_message script v i bs fs =
    (if k < length (unsent_data v)
     then write_message script (v\<lparr>num_handles_sent := length (view_handles v), view_offset := view_offset v + k\<rparr>) (Suc i)
       (bs @ take k (unsent_data v)) (fs @ unsent_fds v)
     else Some (Written, Suc i, bs @ unsent_data v, fs @ unsent_fds v))"
  using fds_step [OF assms(1)] write_message_unfold [of script i n v bs fs, folded assms(3), OF assms(2)]
  by (auto simp: assms(3) min_def)

lemma write_message_ok:
  "view_ok v \<Longrightarrow> write_message script v i bs fs = Some (out, i', bs', fs') \<Longrightarrow>
   (case out of
      Written \<Rightarrow> bs' = bs @ unsent_data v \<and> fs' = fs @ unsent_fds v
    | Waits v' \<Rightarrow> view_ok v' \<and> bs' @ unsent_data v' = bs @ unsent_data v \<and> fs' @ unsent_fds v' = fs @ unsent_fds v
    | Failed \<Rightarrow> prefix bs' (bs @ unsent_data v) \<and> prefix fs' (fs @ unsent_fds v))"
proof (induction "length (unsent_data v)" arbitrary: v i bs fs rule: less_induct)
  case less
  show ?case
  proof (cases "script i")
    case (Wrote n)
    define k where "k = min (length (unsent_data v)) (max 1 n)"
    let ?v = "v\<lparr>num_handles_sent := length (view_handles v), view_offset := view_offset v + k\<rparr>"
    note W = write_message_Wrote [of v script i n k bs fs, OF less.prems(1) Wrote k_def]
    show ?thesis
    proof (cases "k < length (unsent_data v)")
      case True
      then have "length (unsent_data ?v) < length (unsent_data v)" "view_ok ?v"
        using less.prems(1) by (auto simp: view_ok_def unsent_data_def k_def)
      moreover have "write_message script ?v (Suc i) (bs @ take k (unsent_data v)) (fs @ unsent_fds v) = Some (out, i', bs', fs')"
        using less.prems(2) W True by simp
      ultimately have "case out of
          Written \<Rightarrow> bs' = (bs @ take k (unsent_data v)) @ unsent_data ?v \<and> fs' = (fs @ unsent_fds v) @ unsent_fds ?v
        | Waits v' \<Rightarrow> view_ok v' \<and> bs' @ unsent_data v' = (bs @ take k (unsent_data v)) @ unsent_data ?v \<and>
            fs' @ unsent_fds v' = (fs @ unsent_fds v) @ unsent_fds ?v
        | Failed \<Rightarrow> prefix bs' ((bs @ take k (unsent_data v)) @ unsent_data ?v) \<and> prefix fs' ((fs @ unsent_fds v) @ unsent_fds ?v)"
        by (rule less.hyps)
      moreover have "take k (unsent_data v) @ unsent_data ?v = unsent_data v" "unsent_fds ?v = []"
        using data_step [of v k] by (simp_all add: unsent_data_def unsent_fds_def)
      ultimately show ?thesis by (simp split: write_outcome.splits)
    next
      case False
      then show ?thesis using less.prems(2) W by auto
    qed
  qed (use less.prems in \<open>auto simp: write_message.simps [of script v i]\<close>)
qed

lemma advance_views_ok:
  assumes "advance_views k vs = (p, vs')" "k \<le> length (queued_bytes (take c vs))" "list_all view_ok vs"
    "list_all (\<lambda>v. unsent_fds v = []) (take c vs)"
  shows "p \<le> c \<and> queued_bytes vs' = drop k (queued_bytes vs) \<and> list_all view_ok vs' \<and> queued_fds vs' = queued_fds vs \<and>
    list_all (\<lambda>v. unsent_fds v = []) (take (c - p) vs')"
  using assms
proof (induction k vs arbitrary: c p vs' rule: advance_views.induct)
  case (2 k v vs)
  show ?case
  proof (cases "k = 0")
    case True
    then show ?thesis using "2.prems" by auto
  next
    case nz: False
    then obtain c' where c: "c = Suc c'" using "2.prems"(2) by (cases c) auto
    show ?thesis
    proof (cases "length (unsent_data v) \<le> k")
      case True
      obtain p' vs1 where a: "advance_views (k - length (unsent_data v)) vs = (p', vs1)" by fastforce
      then have "p = Suc p'" "vs' = vs1" using "2.prems"(1) nz True by auto
      moreover have "k - length (unsent_data v) \<le> length (queued_bytes (take c' vs))" using "2.prems"(2) c by auto
      ultimately show ?thesis
        using "2.IH" [OF nz True a, of c'] "2.prems"(3,4) c True by simp
    next
      case False
      then have v: "p = 0" "vs' = v\<lparr>view_offset := view_offset v + k\<rparr> # vs" using "2.prems"(1) nz by auto
      have "view_ok (v\<lparr>view_offset := view_offset v + k\<rparr>)" using "2.prems"(3) False by (auto simp: view_ok_def unsent_data_def)
      then show ?thesis
        using v "2.prems"(3,4) c False by (simp add: unsent_data_def unsent_fds_def add.commute)
    qed
  qed
qed simp

definition writev_kept :: "message_view list \<Rightarrow> u8 list \<Rightarrow> (bool \<times> bool) \<times> message_view list \<times> nat \<times> u8 list \<Rightarrow> bool" where
  "writev_kept vs bs y \<longleftrightarrow> (case y of (r, vs', i', bs') \<Rightarrow>
     list_all view_ok vs' \<and> bs' @ queued_bytes vs' = bs @ queued_bytes vs \<and> queued_fds vs' = queued_fds vs)"

lemma writev_loop_kept:
  assumes "writev_loop script c vs i bs = Some y"
  shows "list_all view_ok vs \<Longrightarrow> list_all (\<lambda>v. unsent_fds v = []) (take c vs) \<Longrightarrow> writev_kept vs bs y"
  using assms
proof (induction rule: writev_loop.raw_induct [rotated, consumes 1, case_names step])
  case (step loop script c vs i bs y)
  show ?case
  proof (cases "c = 0 \<or> (\<forall>n. script i \<noteq> Wrote n)")
    case True
    then show ?thesis using step.prems step.hyps
      by (cases "script i") (auto simp: writev_kept_def split: if_splits)
  next
    case False
    then obtain n where n: "script i = Wrote n" "c \<noteq> 0" by auto
    let ?data = "queued_bytes (take c vs)"
    define k where "k = min (length ?data) (max 1 n)"
    obtain p vs1 where a: "advance_views k vs = (p, vs1)" by fastforce
    have "k \<le> length ?data" by (simp add: k_def)
    note A = advance_views_ok [OF a this step.prems]
    have "loop script (c - p) vs1 (Suc i) (bs @ take k ?data) = Some y"
      using step.hyps n a by (simp add: Let_def k_def queued_bytes_def)
    from step.IH [OF this] A have "writev_kept vs1 (bs @ take k ?data) y" by simp
    moreover have "queued_bytes vs = ?data @ queued_bytes (drop c vs)" by (metis append_take_drop_id queued_simps(3))
    then have "take k ?data = take k (queued_bytes vs)" by (simp add: k_def)
    ultimately show ?thesis using A by (simp add: writev_kept_def split: prod.splits)
  qed
qed

lemmas writev_loop_ok = writev_loop_kept [where y = "(r, vs', i', bs')" for r vs' i' bs', unfolded writev_kept_def prod.case]

definition write_waiting :: "channel_writer \<Rightarrow> bool" where
  "write_waiting s \<longleftrightarrow> pending_write s \<or> posted_waits s > 0 \<or> \<not> write_watcher s"

lemma WaitForWrite_simps [simp]:
  "write_waiting (WaitForWriteOnIOThreadNoLock io s)" "outgoing_messages (WaitForWriteOnIOThreadNoLock io s) = outgoing_messages s"
  "sent_bytes (WaitForWriteOnIOThreadNoLock io s) = sent_bytes s" "sent_fds (WaitForWriteOnIOThreadNoLock io s) = sent_fds s"
  "use_writev (WaitForWriteOnIOThreadNoLock io s) = use_writev s" "reject_writes (WaitForWriteOnIOThreadNoLock io s) = reject_writes s"
  by (auto simp: write_waiting_def WaitForWriteOnIOThreadNoLock_def)

text \<open>What a call leaves, where \<open>bs\<close> and \<open>fs\<close> are all bytes and handles sent and to be sent.\<close>

definition flushed :: "bool \<Rightarrow> u8 list \<Rightarrow> int list \<Rightarrow> bool \<Rightarrow> channel_writer \<Rightarrow> bool" where
  "flushed wv bs fs ok s \<longleftrightarrow> use_writev s = wv \<and>
     (if ok then list_all view_ok (outgoing_messages s) \<and> sent_bytes s @ queued_bytes (outgoing_messages s) = bs \<and>
        sent_fds s @ queued_fds (outgoing_messages s) = fs \<and> (outgoing_messages s \<noteq> [] \<longrightarrow> write_waiting s)
      else prefix (sent_bytes s) bs \<and> prefix (sent_fds s) fs \<and> (wv \<or> outgoing_messages s = []))"

lemma flushed_more: "flushed wv bs fs False s \<Longrightarrow> flushed wv (bs @ xs) (fs @ ys) False s"
  by (auto simp: flushed_def)

lemma writev_ok:
  assumes "WriteOutgoingMessagesWithWritev io s = Some (ok, s')" "list_all view_ok (outgoing_messages s)"
  shows "use_writev s' = use_writev s \<and> list_all view_ok (outgoing_messages s') \<and>
    sent_bytes s' @ queued_bytes (outgoing_messages s') = sent_bytes s @ queued_bytes (outgoing_messages s) \<and>
    sent_fds s' @ queued_fds (outgoing_messages s') = sent_fds s @ queued_fds (outgoing_messages s)"
proof (cases "outgoing_messages s = []")
  case True
  then show ?thesis using assms by (simp add: WriteOutgoingMessagesWithWritev_def)
next
  case False
  let ?vs = "outgoing_messages s"
  let ?c = "length (takeWhile (\<lambda>v. \<not> num_handles_remaining v > 0) (take (min IOV_MAX (length ?vs)) ?vs))"
  obtain bl vs i bs where w: "writev_loop (socket_script s) ?c ?vs (socket_calls s) (sent_bytes s) = Some ((ok, bl), vs, i, bs)"
    and s': "s' = (if bl then WaitForWriteOnIOThreadNoLock io (s\<lparr>outgoing_messages := vs, socket_calls := i, sent_bytes := bs\<rparr>)
      else s\<lparr>outgoing_messages := vs, socket_calls := i, sent_bytes := bs\<rparr>)"
    using assms(1) False by (auto simp: WriteOutgoingMessagesWithWritev_def Let_def split: option.splits)
  have "take ?c ?vs = takeWhile (\<lambda>v. \<not> num_handles_remaining v > 0) (take (min IOV_MAX (length ?vs)) ?vs)"
    by (metis length_takeWhile_le length_take min.bounded_iff takeWhile_eq_take take_take min.absorb1)
  then have "list_all (\<lambda>v. unsent_fds v = []) (take ?c ?vs)"
    using assms(2) by (auto simp: list_all_iff num_handles_remaining_0 dest!: set_takeWhileD in_set_takeD)
  note W = writev_loop_ok [OF w assms(2) this]
  show ?thesis using W s' by auto
qed

lemma write_flush_ok:
  "list_all view_ok (v # outgoing_messages s) \<Longrightarrow> use_writev s \<or> outgoing_messages s = [] \<Longrightarrow> WriteNoLock n io v s = Some (ok, s') \<Longrightarrow>
    flushed (use_writev s) (sent_bytes s @ unsent_data v @ queued_bytes (outgoing_messages s)) (sent_fds s @ unsent_fds v @ queued_fds (outgoing_messages s)) ok s'"
  "list_all view_ok (outgoing_messages s) \<Longrightarrow> FlushOutgoingMessagesNoLock n io s = Some (ok, s') \<Longrightarrow>
    flushed (use_writev s) (sent_bytes s @ queued_bytes (outgoing_messages s)) (sent_fds s @ queued_fds (outgoing_messages s)) ok s'"
  "list_all view_ok vs \<Longrightarrow> outgoing_messages s = [] \<Longrightarrow> \<not> use_writev s \<Longrightarrow> flush_loop n io vs s = Some (ok, s') \<Longrightarrow>
    flushed (use_writev s) (sent_bytes s @ queued_bytes vs) (sent_fds s @ queued_fds vs) ok s'"
  "list_all view_ok (outgoing_messages s) \<Longrightarrow> use_writev s \<Longrightarrow> FlushOutgoingMessagesWritevNoLock n io s = Some (ok, s') \<Longrightarrow>
    flushed (use_writev s) (sent_bytes s @ queued_bytes (outgoing_messages s)) (sent_fds s @ queued_fds (outgoing_messages s)) ok s'"
proof (induction n arbitrary: v s vs ok s')
  case (Suc n)
  {
    case 1
    obtain out i bs fs where w: "write_message (socket_script s) v (socket_calls s) (sent_bytes s) (sent_fds s) = Some (out, i, bs, fs)"
      using 1(3) by (auto split: option.splits)
    let ?s = "s\<lparr>socket_calls := i, sent_bytes := bs, sent_fds := fs\<rparr>"
    note W = write_message_ok [OF _ w]
    show ?case
    proof (cases out)
      case Written
      then have "FlushOutgoingMessagesNoLock n io ?s = Some (ok, s')" using 1(3) w by (simp add: Let_def)
      from Suc.IH(2) [OF _ this] show ?thesis using 1(1) W Written by simp
    next
      case (Waits v')
      then have "s' = WaitForWriteOnIOThreadNoLock io (?s\<lparr>outgoing_messages := v' # outgoing_messages s\<rparr>)" "ok"
        using 1(3) w by (simp_all add: Let_def)
      moreover have "view_ok v'" "bs @ unsent_data v' = sent_bytes s @ unsent_data v" "fs @ unsent_fds v' = sent_fds s @ unsent_fds v"
        using W Waits 1(1) by simp_all
      ultimately show ?thesis using 1(1) by (simp add: flushed_def flip: append_assoc)
    next
      case Failed
      then have "s' = ?s" "\<not> ok" using 1(3) w by (simp_all add: Let_def)
      moreover have "prefix bs (sent_bytes s @ unsent_data v)" "prefix fs (sent_fds s @ unsent_fds v)" using W Failed 1(1) by simp_all
      from this [THEN prefix_prefix]
      have "prefix bs (sent_bytes s @ unsent_data v @ queued_bytes (outgoing_messages s))"
        "prefix fs (sent_fds s @ unsent_fds v @ queued_fds (outgoing_messages s))" by simp_all
      ultimately show ?thesis using 1(2) by (auto simp: flushed_def)
    qed
  next
    case 2
    then show ?case
      using Suc.IH(4) [of s] Suc.IH(3) [of "outgoing_messages s" "s\<lparr>outgoing_messages := []\<rparr>"] by (cases "use_writev s") simp_all
  next
    case 3
    show ?case
    proof (cases vs)
      case Nil
      then show ?thesis using 3 by (simp add: flushed_def)
    next
      case (Cons u us)
      then obtain ok1 s1 where w: "WriteNoLock n io u s = Some (ok1, s1)" using 3(4) by (cases "WriteNoLock n io u s") auto
      have f: "flushed (use_writev s) (sent_bytes s @ unsent_data u) (sent_fds s @ unsent_fds u) ok1 s1"
        using Suc.IH(1) [OF _ _ w] 3 Cons by simp
      consider (fail) "\<not> ok1" | (queue) "ok1" "outgoing_messages s1 \<noteq> []" | (go) "ok1" "outgoing_messages s1 = []" by blast
      then show ?thesis
      proof cases
        case fail
        then have "ok = ok1" "s' = s1" using 3(4) Cons w by simp_all
        then show ?thesis using flushed_more [of "use_writev s" "sent_bytes s @ unsent_data u" "sent_fds s @ unsent_fds u"] f fail Cons by simp
      next
        case queue
        then have "ok" "s' = s1\<lparr>outgoing_messages := outgoing_messages s1 @ us\<rparr>" using 3(4) Cons w by simp_all
        then show ?thesis using f queue 3(1) Cons by (auto simp: flushed_def write_waiting_def)
      next
        case go
        then have "flush_loop n io us s1 = Some (ok, s')" using 3(4) Cons w by simp
        note rest = Suc.IH(3) [OF _ _ _ this]
        have "use_writev s1 = use_writev s" "sent_bytes s1 = sent_bytes s @ unsent_data u" "sent_fds s1 = sent_fds s @ unsent_fds u"
          using f go by (simp_all add: flushed_def)
        then show ?thesis using rest go 3(1,3) Cons by simp
      qed
    qed
  next
    case 4
    show ?case
    proof (cases "outgoing_messages s")
      case Nil
      then show ?thesis using 4 by (simp add: flushed_def)
    next
      case (Cons u us)
      let ?s = "s\<lparr>outgoing_messages := us\<rparr>"
      show ?thesis
      proof (cases "num_handles_remaining u > 0 \<or> us = []")
        case True
        then obtain ok1 s1 where w: "WriteNoLock n io u ?s = Some (ok1, s1)" using 4(3) Cons by (cases "WriteNoLock n io u ?s") auto
        have f: "flushed True (sent_bytes s @ queued_bytes (outgoing_messages s)) (sent_fds s @ queued_fds (outgoing_messages s)) ok1 s1"
          using Suc.IH(1) [OF _ _ w] 4 Cons by simp
        have "(if \<not> ok1 then Some (False, s1) else if length (outgoing_messages s1) > length us then Some (True, s1)
            else FlushOutgoingMessagesWritevNoLock n io s1) = Some (ok, s')" using 4(3) Cons True w by simp
        then consider (stop) "ok = ok1" "s' = s1" | (go) "ok1" "FlushOutgoingMessagesWritevNoLock n io s1 = Some (ok, s')"
          by (cases ok1; cases "length (outgoing_messages s1) > length us") simp_all
        then show ?thesis
        proof cases
          case go
          note rest = Suc.IH(4) [OF _ _ this(2)]
          have "use_writev s1" "list_all view_ok (outgoing_messages s1)"
            "sent_bytes s1 @ queued_bytes (outgoing_messages s1) = sent_bytes s @ queued_bytes (outgoing_messages s)"
            "sent_fds s1 @ queued_fds (outgoing_messages s1) = sent_fds s @ queued_fds (outgoing_messages s)"
            using f go(1) by (simp_all add: flushed_def)
          then show ?thesis using rest 4(2) by simp
        qed (use f 4(2) in simp)
      next
        case False
        obtain ok1 s1 where w: "WriteOutgoingMessagesWithWritev io s = Some (ok1, s1)" using 4(3) Cons False by (auto split: option.splits)
        note f = writev_ok [OF w 4(1)]
        consider (fail) "\<not> ok" "s' = s1" | (fin) "ok" "s' = s1" "outgoing_messages s1 = []" | (go) "FlushOutgoingMessagesWritevNoLock n io s1 = Some (ok, s')"
        proof -
          have "(if \<not> ok1 then Some (False, s1) else if outgoing_messages s1 \<noteq> [] then FlushOutgoingMessagesWritevNoLock n io s1
              else Some (True, s1)) = Some (ok, s')" using 4(3) Cons False w by simp
          then show thesis using that by (cases ok1; cases "outgoing_messages s1 = []") simp_all
        qed
        then show ?thesis
        proof cases
          case fail
          have "prefix (sent_bytes s1) (sent_bytes s @ queued_bytes (outgoing_messages s))" "prefix (sent_fds s1) (sent_fds s @ queued_fds (outgoing_messages s))"
            using f by (auto intro: prefixI [OF sym])
          then show ?thesis using fail f 4(2) by (simp add: flushed_def)
        next
          case fin
          then show ?thesis using f by (simp add: flushed_def)
        next
          case go
          from Suc.IH(4) [OF _ _ this] show ?thesis using f 4(2) by simp
        qed
      qed
    qed
  }
qed simp_all

text \<open>The rest of the state is as it was.\<close>

definition controls :: "channel_writer \<Rightarrow> bool \<times> bool \<times> bool \<times> bool \<times> bool \<times> nat \<times> bool \<times> bool" where
  "controls s = (use_writev s, write_watcher s, read_watcher s, started s, reject_writes s, posted_errors s, error_reported s, start_failed s)"

lemma controls_update [simp]:
  "controls (s\<lparr>outgoing_messages := vs\<rparr>) = controls s" "controls (s\<lparr>socket_calls := i\<rparr>) = controls s"
  "controls (s\<lparr>sent_bytes := bs\<rparr>) = controls s" "controls (s\<lparr>sent_fds := fs\<rparr>) = controls s"
  "controls (s\<lparr>pending_write := p\<rparr>) = controls s" "controls (s\<lparr>posted_waits := k\<rparr>) = controls s"
  "controls (WaitForWriteOnIOThreadNoLock io s) = controls s"
  by (simp_all add: controls_def WaitForWriteOnIOThreadNoLock_def)

lemma writev_controls: "WriteOutgoingMessagesWithWritev io s = Some (ok, s') \<Longrightarrow> controls s' = controls s"
  by (auto simp: WriteOutgoingMessagesWithWritev_def Let_def split: if_splits option.splits)

lemma flush_controls:
  "WriteNoLock n io v s = Some (ok, s') \<Longrightarrow> controls s' = controls s"
  "FlushOutgoingMessagesNoLock n io s = Some (ok, s') \<Longrightarrow> controls s' = controls s"
  "flush_loop n io vs s = Some (ok, s') \<Longrightarrow> controls s' = controls s"
  "FlushOutgoingMessagesWritevNoLock n io s = Some (ok, s') \<Longrightarrow> controls s' = controls s"
proof (induction n arbitrary: v s vs ok s')
  case (Suc n)
  {
    case 1
    then show ?case
      by (auto simp: Let_def split: option.splits write_outcome.splits dest!: Suc.IH(2))
  next
    case 2
    then show ?case by (auto split: if_splits dest!: Suc.IH(3,4))
  next
    case 3
    then show ?case
      by (cases vs) (auto split: if_splits bind_splits dest!: Suc.IH(1,3))
  next
    case 4
    then show ?case
      by (auto split: if_splits bind_splits list.splits option.splits dest!: Suc.IH(1,4) writev_controls)
  }
qed simp_all

lemma flush_nothing: "outgoing_messages s = [] \<Longrightarrow> FlushOutgoingMessagesNoLock n io s = Some (ok, s') \<Longrightarrow> ok \<and> s' = s"
  by (cases n; cases "n - 1") (auto split: if_splits)

lemma failed_write_queue:
  assumes "WriteNoLock n io v s = Some (ok, s')" "outgoing_messages s = []" "\<not> ok"
  shows "outgoing_messages s' = []"
  using assms by (cases n) (auto simp: Let_def split: option.splits write_outcome.splits dest!: flush_nothing [rotated])

section \<open>A channel at work\<close>

text \<open>Messages are written from any thread; the posted tasks and the notices of the socket run on the IO thread, all
  under the lock.  The log keeps the messages that were accepted.  The start goes on whether or not its flush succeeded, and
  the reading side can stop for an error of its own.\<close>

definition msg_fds :: "channel_message \<Rightarrow> int list" where
  "msg_fds m = fst (TakeHandles m)"

definition msg_fits :: "channel_message \<Rightarrow> bool" where
  "msg_fits m \<longleftrightarrow> wire m \<noteq> [] \<and> length (msg_fds m) \<le> kMaxAttachedHandles"

inductive writer_step :: "channel_writer \<times> channel_message list \<Rightarrow> channel_writer \<times> channel_message list \<Rightarrow> bool" where
  message: "msg_fits m \<Longrightarrow> ch_Write n io m s = Some s' \<Longrightarrow> writer_step (s, ms) (s', if reject_writes s then ms else ms @ [m])"
| posted_wait: "posted_waits s > 0 \<Longrightarrow> writer_step (s, ms) (WaitForWriteOnIOThread s, ms)"
| posted_error: "posted_errors s > 0 \<Longrightarrow> writer_step (s, ms) (OnWriteError (s\<lparr>posted_errors := posted_errors s - 1\<rparr>), ms)"
| can_write: "pending_write s \<Longrightarrow> write_watcher s \<Longrightarrow> OnFileCanWriteWithoutBlocking n s = Some s' \<Longrightarrow> writer_step (s, ms) (s', ms)"
| start: "\<not> started s \<Longrightarrow> StartOnIOThread n s = Some s' \<Longrightarrow> writer_step (s, ms) (s', ms)"
| read_error: "writer_step (s, ms) (s\<lparr>read_watcher := False\<rparr>, ms)"

definition new_writer :: "bool \<Rightarrow> (nat \<Rightarrow> socket_result) \<Rightarrow> channel_writer" where
  "new_writer wv script = \<lparr>use_writev = wv, outgoing_messages = [], pending_write = False, posted_waits = 0, write_watcher = False,
     read_watcher = False, started = False, reject_writes = False, posted_errors = 0, error_reported = False,
     start_failed = False, socket_script = script, socket_calls = 0, sent_bytes = [], sent_fds = []\<rparr>"

definition wires :: "channel_message list \<Rightarrow> u8 list" where
  "wires ms = concat (map wire ms)"

definition wire_fds :: "channel_message list \<Rightarrow> int list" where
  "wire_fds ms = concat (map msg_fds ms)"

lemma wires_simps [simp]: "wires [] = []" "wires (ms @ [m]) = wires ms @ wire m" "wire_fds [] = []" "wire_fds (ms @ [m]) = wire_fds ms @ msg_fds m"
  by (simp_all add: wires_def wire_fds_def)

definition writer_live :: "channel_writer \<Rightarrow> channel_message list \<Rightarrow> bool" where
  "writer_live s ms \<longleftrightarrow> (write_watcher s \<longrightarrow> started s) \<and>
     (if reject_writes s
      then use_writev s \<and> error_reported s \<or>
        prefix (sent_bytes s) (wires ms) \<and> prefix (sent_fds s) (wire_fds ms) \<and> (outgoing_messages s = [] \<or> \<not> write_watcher s \<and> started s)
      else flushed (use_writev s) (wires ms) (wire_fds ms) True s \<and> (started s \<longrightarrow> write_watcher s) \<and> \<not> error_reported s \<and> posted_errors s = 0)"

text \<open>After a start whose flush failed nothing is promised.\<close>

definition writer_ok :: "channel_writer \<Rightarrow> channel_message list \<Rightarrow> bool" where
  "writer_ok s ms \<longleftrightarrow> (if start_failed s then started s else writer_live s ms)"

lemma MessageView_ok:
  assumes "msg_fits m"
  shows "view_ok (MessageView m)" "unsent_data (MessageView m) = wire m" "unsent_fds (MessageView m) = msg_fds m"
  using assms
  by (auto simp: msg_fits_def view_ok_def MessageView_def unsent_data_def unsent_fds_def wire_def msg_fds_def kMaxSendmsgHandles_def)

lemma writer_live_write:
  assumes "writer_live s ms" "msg_fits m" "ch_Write n io m s = Some s'"
  shows "writer_live s' (if reject_writes s then ms else ms @ [m])"
proof (cases "reject_writes s")
  case True
  then show ?thesis using assms(1,3) by (simp add: ch_Write_def)
next
  case False
  then have ok: "flushed (use_writev s) (wires ms) (wire_fds ms) True s" "started s \<longleftrightarrow> write_watcher s" "\<not> error_reported s" "posted_errors s = 0"
    using assms(1) by (auto simp: writer_live_def)
  note v = MessageView_ok [OF assms(2)]
  show ?thesis
  proof (cases "outgoing_messages s = []")
    case True
    then obtain good s1 where w: "WriteNoLock n io (MessageView m) s = Some (good, s1)"
      "s' = (if good then s1 else s1\<lparr>reject_writes := True, posted_errors := posted_errors s1 + 1\<rparr>)"
      using assms(3) False by (auto simp: ch_Write_def split: bind_splits)
    have q: "outgoing_messages s1 = []" if "\<not> good" using w(1) True that by (rule failed_write_queue)
    have "flushed (use_writev s) (wires (ms @ [m])) (wire_fds (ms @ [m])) good s1"
      using write_flush_ok(1) [OF _ _ w(1)] v True ok(1) by (cases good) (simp_all add: flushed_def)
    then show ?thesis
      using flush_controls(1) [OF w(1)] w(2) ok(2-4) False q by (cases good) (auto simp: writer_live_def controls_def flushed_def write_waiting_def)
  next
    case nonempty: False
    then have "s' = s\<lparr>outgoing_messages := outgoing_messages s @ [MessageView m]\<rparr>" using assms(3) False by (simp add: ch_Write_def)
    then show ?thesis using ok v False nonempty by (auto simp: writer_live_def flushed_def write_waiting_def)
  qed
qed

lemma writer_live_can_write:
  assumes "writer_live s ms" "write_watcher s" "OnFileCanWriteWithoutBlocking n s = Some s'"
  shows "writer_live s' ms"
proof -
  let ?s = "s\<lparr>pending_write := False\<rparr>"
  obtain good s1 where w: "FlushOutgoingMessagesNoLock n True ?s = Some (good, s1)"
    "s' = (if good then s1 else OnWriteError (s1\<lparr>reject_writes := True\<rparr>))"
    using assms(3) by (auto simp: OnFileCanWriteWithoutBlocking_def split: bind_splits)
  show ?thesis
  proof (cases "reject_writes s")
    case True
    show ?thesis
    proof (cases "outgoing_messages s = []")
      case True
      then have "s' = ?s" using flush_nothing [OF _ w(1)] w(2) by simp
      then show ?thesis using assms(1) \<open>reject_writes s\<close> by (simp add: writer_live_def)
    next
      case False
      then have "use_writev s" "error_reported s" "started s" using assms(1,2) True by (auto simp: writer_live_def)
      then show ?thesis
        using flush_controls(2) [OF w(1)] w(2) True by (auto simp: writer_live_def controls_def OnWriteError_def)
    qed
  next
    case False
    then have ok: "flushed (use_writev s) (wires ms) (wire_fds ms) True s" "started s" "\<not> error_reported s" "posted_errors s = 0"
      using assms(1,2) by (auto simp: writer_live_def)
    have "flushed (use_writev s) (wires ms) (wire_fds ms) good s1"
      using write_flush_ok(2) [OF _ w(1)] ok(1) by (cases good) (simp_all add: flushed_def)
    then show ?thesis
      using flush_controls(2) [OF w(1)] w(2) ok(2-4) False assms(2)
      by (cases good) (auto simp: writer_live_def controls_def flushed_def write_waiting_def OnWriteError_def)
  qed
qed

lemma writer_live_start:
  assumes "writer_live s ms" "\<not> started s" "StartOnIOThread n s = Some s'" "\<not> start_failed s'"
  shows "writer_live s' ms"
proof -
  let ?s = "s\<lparr>read_watcher := True, write_watcher := True, started := True\<rparr>"
  obtain s1 where w: "FlushOutgoingMessagesNoLock n True ?s = Some (True, s1)" "s' = s1\<lparr>start_failed := False\<rparr>"
    using assms(3,4) by (auto simp: StartOnIOThread_def split: bind_splits)
  show ?thesis
  proof (cases "reject_writes s \<and> outgoing_messages s = []")
    case True
    then have "s' = ?s\<lparr>start_failed := False\<rparr>" using flush_nothing [OF _ w(1)] w(2) by simp
    then show ?thesis using assms(1) True by (simp add: writer_live_def)
  next
    case False
    show ?thesis
    proof (cases "reject_writes s")
      case True
      then have "use_writev s" "error_reported s" using assms(1,2) False by (auto simp: writer_live_def)
      then show ?thesis using flush_controls(2) [OF w(1)] w(2) True by (auto simp: writer_live_def controls_def)
    next
      case go: False
      have "flushed (use_writev s) (wires ms) (wire_fds ms) True s1"
        using write_flush_ok(2) [OF _ w(1)] assms(1) go by (simp add: flushed_def writer_live_def)
      then show ?thesis
        using flush_controls(2) [OF w(1)] w(2) go assms(1) by (auto simp: writer_live_def controls_def flushed_def write_waiting_def)
    qed
  qed
qed

lemma writer_live_step:
  "writer_step a b \<Longrightarrow> writer_live (fst a) (snd a) \<Longrightarrow> \<not> start_failed (fst b) \<Longrightarrow> writer_live (fst b) (snd b)"
proof (induction rule: writer_step.induct)
  case (message m n io s s' ms)
  then show ?case using writer_live_write [of s ms m n io s'] by simp
next
  case (posted_wait s ms)
  then show ?case
    by (auto simp: writer_live_def flushed_def write_waiting_def WaitForWriteOnIOThread_def WaitForWriteOnIOThreadNoLock_def)
next
  case (posted_error s ms)
  then show ?case by (auto simp: writer_live_def OnWriteError_def split: if_splits)
next
  case (can_write s n s' ms)
  then show ?case using writer_live_can_write [of s ms n s'] by simp
next
  case (start s n s' ms)
  then show ?case using writer_live_start [of s ms n s'] by simp
qed (auto simp: writer_live_def flushed_def write_waiting_def)

text \<open>Once the channel has started, the mark of a failed start stays.\<close>

lemma controlsD: "controls s' = controls s \<Longrightarrow> started s' = started s \<and> start_failed s' = start_failed s"
  by (simp add: controls_def)

lemma call_keeps_start:
  assumes "ch_Write n io m s = Some s' \<or> OnFileCanWriteWithoutBlocking n s = Some s'"
  shows "started s' = started s \<and> start_failed s' = start_failed s"
  using assms
proof
  assume "ch_Write n io m s = Some s'"
  then show ?thesis
    by (auto simp: ch_Write_def split: if_splits bind_splits dest!: flush_controls(1) [THEN controlsD])
next
  assume "OnFileCanWriteWithoutBlocking n s = Some s'"
  then show ?thesis
    by (auto simp: OnFileCanWriteWithoutBlocking_def OnWriteError_def split: if_splits bind_splits dest!: flush_controls(2) [THEN controlsD])
qed

lemma start_marks: "StartOnIOThread n s = Some s' \<Longrightarrow> started s'"
  by (auto simp: StartOnIOThread_def split: bind_splits dest!: flush_controls(2) [THEN controlsD])

lemma started_step:
  "writer_step a b \<Longrightarrow>
     started (fst b) \<and> \<not> started (fst a) \<or> started (fst b) = started (fst a) \<and> start_failed (fst b) = start_failed (fst a)"
proof (induction rule: writer_step.induct)
  case (message m n io s s' ms)
  then show ?case using call_keeps_start [of n io m s s'] by simp
next
  case (can_write s n s' ms)
  then show ?case using call_keeps_start [of n _ _ s s'] by simp
next
  case (start s n s' ms)
  then show ?case using start_marks by simp
qed (auto simp: WaitForWriteOnIOThread_def WaitForWriteOnIOThreadNoLock_def OnWriteError_def)

lemma writer_ok_step: "writer_step a b \<Longrightarrow> writer_ok (fst a) (snd a) \<Longrightarrow> writer_ok (fst b) (snd b)"
  using writer_live_step [of a b] started_step [of a b] by (auto simp: writer_ok_def split: if_splits)

lemma writer_ok_reachable: "writer_step\<^sup>*\<^sup>* (new_writer wv script, []) (s, ms) \<Longrightarrow> writer_ok s ms"
proof (induction "(s, ms)" arbitrary: s ms rule: rtranclp_induct)
  case base
  show ?case by (simp add: writer_ok_def writer_live_def new_writer_def flushed_def)
next
  case (step b)
  then show ?case using writer_ok_step [of b "(s, ms)"] by (cases b) simp
qed

lemma writer_ok_prefix:
  assumes "writer_ok s ms" "\<not> start_failed s" "\<not> (use_writev s \<and> error_reported s)"
  shows "prefix (sent_bytes s) (wires ms)" "prefix (sent_fds s) (wire_fds ms)"
  using assms by (auto simp: writer_ok_def writer_live_def flushed_def split: if_splits intro: prefixI [OF sym])

text \<open>C29: The messages of a channel are written one after another, whole and with their handles, whatever part of a
  message the socket takes at a time and whichever thread writes.  As long as no write has failed, neither in a call
  (\<open>reject_writes\<close>) nor in the flush of the start, whose failure the code ignores (\<open>start_failed\<close>): what was sent and what
  is queued are the accepted messages in the order of the calls, and a queued message waits for the socket, with a watch
  that is set or about to be, or for the channel to start.  After a write that failed in a call, what was sent is still a
  beginning of the accepted messages, unless \<open>writev\<close> is used and the error was reported to the delegate because the
  reading side had stopped before: then the watch is kept, and the rest of the queue may still be sent.\<close>

theorem channel_writes_in_order:
  assumes "writer_step\<^sup>*\<^sup>* (new_writer wv script, []) (s, ms)" "\<not> start_failed s"
  shows "(\<not> reject_writes s \<longrightarrow>
      sent_bytes s @ queued_bytes (outgoing_messages s) = wires ms \<and> sent_fds s @ queued_fds (outgoing_messages s) = wire_fds ms \<and>
      (outgoing_messages s \<noteq> [] \<longrightarrow> \<not> started s \<or> posted_waits s > 0 \<or> write_watcher s \<and> pending_write s)) \<and>
    (\<not> (use_writev s \<and> error_reported s) \<longrightarrow> prefix (sent_bytes s) (wires ms) \<and> prefix (sent_fds s) (wire_fds ms))"
  using writer_ok_reachable [OF assms(1)] writer_ok_prefix [of s ms] assms(2)
  by (auto simp: writer_ok_def writer_live_def flushed_def write_waiting_def)

definition demo_channel_message :: channel_message where
  "demo_channel_message = \<lparr>msg_trivial = False, msg_data = frame_bytes NORMAL_LEGACY 1 [5, 6, 7], msg_size = 11, msg_max_handles = 1, handle_vector = [42]\<rparr>"

text \<open>A socket that takes five bytes and is then full.\<close>

definition demo_socket :: "nat \<Rightarrow> socket_result" where
  "demo_socket i = (if i = 0 then Wrote 5 else Again)"

definition demo_writer :: channel_writer where
  "demo_writer = (new_writer False demo_socket)\<lparr>outgoing_messages := [\<lparr>view_data = wire demo_channel_message, view_offset = 5, view_handles = [42], num_handles_sent = 1\<rparr>],
     socket_calls := 2, sent_bytes := take 5 (wire demo_channel_message), sent_fds := [42]\<rparr>"

lemma demo_fits: "msg_fits demo_channel_message"
  by code_simp

lemma demo_view: "MessageView demo_channel_message = \<lparr>view_data = wire demo_channel_message, view_offset = 0, view_handles = [42], num_handles_sent = 0\<rparr>"
  by code_simp

lemma demo_length: "length (wire demo_channel_message) = 11"
  by code_simp

lemma demo_write: "ch_Write 1 True demo_channel_message (new_writer False demo_socket) = Some demo_writer"
proof -
  let ?v = "\<lparr>view_data = wire demo_channel_message, view_offset = 0, view_handles = [42], num_handles_sent = 0\<rparr>"
  have "write_message demo_socket ?v 0 [] [] =
      Some (Waits (?v\<lparr>view_offset := 5, num_handles_sent := 1\<rparr>), 2, take 5 (wire demo_channel_message), [42])"
    by (simp add: write_message.simps Let_def demo_socket_def unsent_data_def unsent_fds_def demo_length kMaxSendmsgHandles_def)
  then show ?thesis
    by (simp add: ch_Write_def new_writer_def demo_view demo_writer_def WaitForWriteOnIOThreadNoLock_def)
qed

theorem channel_writes_in_order_witness:
  "sent_bytes demo_writer @ queued_bytes (outgoing_messages demo_writer) = wires [demo_channel_message] \<and>
   sent_fds demo_writer = [42] \<and> length (sent_bytes demo_writer) = 5"
proof -
  have "writer_step (new_writer False demo_socket, []) (demo_writer, [demo_channel_message])"
    using writer_step.message [OF demo_fits demo_write, of "[]"] by (simp add: new_writer_def)
  then have "writer_step\<^sup>*\<^sup>* (new_writer False demo_socket, []) (demo_writer, [demo_channel_message])" by blast
  moreover have "\<not> reject_writes demo_writer" "\<not> start_failed demo_writer" "sent_fds demo_writer = [42]"
    by (simp_all add: demo_writer_def new_writer_def)
  moreover have "length (sent_bytes demo_writer) = 5" by (simp add: demo_writer_def demo_length)
  ultimately show ?thesis using channel_writes_in_order [of False demo_socket demo_writer "[demo_channel_message]"] by blast
qed

section \<open>Flushing ends\<close>

text \<open>The loop on one message ends with every socket: each call sends a byte or a handle.\<close>

lemma write_message_returns: "\<exists>out i' bs' fs'. write_message script v i bs fs = Some (out, i', bs', fs')"
proof (induction "length (unsent_data v) + num_handles_remaining v" arbitrary: v i bs fs rule: less_induct)
  case less
  show ?case
  proof (cases "script i")
    case (Wrote n)
    define k where "k = min (length (unsent_data v)) (max 1 n)"
    let ?v = "v\<lparr>num_handles_sent := num_handles_sent v + fds_to_send v, view_offset := view_offset v + k\<rparr>"
    note W = write_message_unfold [of script i n v bs fs, OF Wrote, folded k_def]
    have "length (unsent_data ?v) + num_handles_remaining ?v < length (unsent_data v) + num_handles_remaining v"
      if "num_handles_sent v + fds_to_send v < length (view_handles v) \<or> k < length (unsent_data v)"
      using that by (auto simp: unsent_data_def num_handles_remaining_def fds_to_send_def kMaxSendmsgHandles_def k_def)
    then show ?thesis using less.hyps [of ?v] W by (auto split: if_splits)
  qed (simp_all add: write_message.simps [of script v i])
qed

lemma write_returns:
  assumes "outgoing_messages s = []" "\<not> use_writev s" "3 \<le> n"
  shows "\<exists>ok s'. WriteNoLock n io v s = Some (ok, s')"
proof -
  obtain k where n: "n = Suc (Suc (Suc k))" using assms(3) by (auto dest!: le_Suc_ex simp: numeral_3_eq_3)
  show ?thesis
    using assms(1,2) write_message_returns [of "socket_script s" v "socket_calls s" "sent_bytes s" "sent_fds s"]
    by (auto simp: n Let_def split: write_outcome.splits)
qed

lemma flush_loop_returns:
  "outgoing_messages s = [] \<Longrightarrow> \<not> use_writev s \<Longrightarrow> length vs + 3 \<le> n \<Longrightarrow> \<exists>ok s'. flush_loop n io vs s = Some (ok, s')"
proof (induction vs arbitrary: n s)
  case Nil
  then show ?case by (cases n) auto
next
  case (Cons v vs)
  then obtain k where n: "n = Suc k" "length vs + 3 \<le> k" by (cases n) auto
  obtain ok s1 where w: "WriteNoLock k io v s = Some (ok, s1)" using write_returns [OF Cons.prems(1,2), of k io v] n by auto
  moreover have "\<not> use_writev s1" using flush_controls(1) [OF w] Cons.prems(2) by (simp add: controls_def)
  ultimately show ?case using Cons.IH [of s1 k] n by (cases ok; cases "outgoing_messages s1 = []") auto
qed

text \<open>C35: Without \<open>writev\<close>, flushing the queue always returns, whatever the socket does, as long as a call that takes data
  takes at least a byte: the loop on a message ends because each call sends a byte or a handle, and a nesting as deep as
  the queue is long, and four, is enough.\<close>

theorem channel_flush_returns:
  assumes "\<not> use_writev s" "length (outgoing_messages s) + 4 \<le> n"
  shows "\<exists>ok s'. FlushOutgoingMessagesNoLock n io s = Some (ok, s')"
  using assms flush_loop_returns [of "s\<lparr>outgoing_messages := []\<rparr>" "outgoing_messages s" "n - 1" io] by (cases n) auto

theorem channel_flush_returns_witness:
  "\<exists>ok s'. FlushOutgoingMessagesNoLock 5 True (demo_writer\<lparr>socket_script := \<lambda>i. Wrote 1\<rparr>) = Some (ok, s')"
  using channel_flush_returns [of "demo_writer\<lparr>socket_script := \<lambda>i. Wrote 1\<rparr>" 5 True] by (simp add: demo_writer_def new_writer_def)

text \<open>With \<open>writev\<close>, the loop starts over after a call that took nothing, as long as messages are left: two messages without
  handles and a socket that is full keep it from returning, with the lock held.\<close>

lemma writev_blocked:
  assumes "socket_script s (socket_calls s) = Again" "outgoing_messages s = u # vs" "num_handles_remaining u = 0"
  shows "WriteOutgoingMessagesWithWritev io s = Some (True, WaitForWriteOnIOThreadNoLock io (s\<lparr>socket_calls := Suc (socket_calls s)\<rparr>))"
proof -
  obtain k where "min IOV_MAX (length (u # vs)) = Suc k" by (cases "min IOV_MAX (length (u # vs))") (auto simp: IOV_MAX_def)
  then have "WriteOutgoingMessagesWithWritev io s =
      Some (True, WaitForWriteOnIOThreadNoLock io (s\<lparr>outgoing_messages := u # vs, socket_calls := Suc (socket_calls s), sent_bytes := sent_bytes s\<rparr>))"
    using assms by (simp add: WriteOutgoingMessagesWithWritev_def Let_def writev_loop.simps [of "socket_script s"])
  moreover have "s\<lparr>outgoing_messages := u # vs, socket_calls := Suc (socket_calls s), sent_bytes := sent_bytes s\<rparr> = s\<lparr>socket_calls := Suc (socket_calls s)\<rparr>"
    using assms(2) by (cases s) simp
  ultimately show ?thesis by (simp only:)
qed

lemma writev_flush_spins:
  assumes "\<forall>i. socket_script s i = Again" "outgoing_messages s = u # v # vs" "num_handles_remaining u = 0"
  shows "FlushOutgoingMessagesWritevNoLock n io s = None"
  using assms
proof (induction n arbitrary: s)
  case (Suc n)
  let ?s = "WaitForWriteOnIOThreadNoLock io (s\<lparr>socket_calls := Suc (socket_calls s)\<rparr>)"
  have "socket_script ?s = socket_script s" by (simp add: WaitForWriteOnIOThreadNoLock_def)
  then show ?case using Suc.IH [of ?s] Suc.prems writev_blocked [of s u "v # vs" io] by simp
qed simp

text \<open>\<open>StartOnIOThread\<close> ignores a flush that failed: the messages queued before are gone, and the next one follows the
  part of a message that was sent.\<close>

definition breaking_writer :: channel_writer where
  "breaking_writer = demo_writer\<lparr>socket_script := \<lambda>i. if i = 2 then Broken else Wrote 20\<rparr>"

lemma start_ignores_failure:
  "\<exists>s1 s2. StartOnIOThread 9 breaking_writer = Some s1 \<and> start_failed s1 \<and> \<not> reject_writes s1 \<and>
     ch_Write 9 True demo_channel_message s1 = Some s2 \<and> \<not> reject_writes s2 \<and> sent_bytes s2 = take 5 (wire demo_channel_message) @ wire demo_channel_message"
proof -
  have "(case StartOnIOThread 9 breaking_writer of Some s1 \<Rightarrow> start_failed s1 \<and> \<not> reject_writes s1 \<and>
      (case ch_Write 9 True demo_channel_message s1 of Some s2 \<Rightarrow> \<not> reject_writes s2 \<and> sent_bytes s2 = take 5 (wire demo_channel_message) @ wire demo_channel_message
       | None \<Rightarrow> False) | None \<Rightarrow> False)"
    by code_simp
  then show ?thesis by (auto split: option.splits)
qed

end
