(* ===== verification/Channel_Transport.thy ===== *)
theory Channel_Transport
  imports Channel_Read Channel_Write
begin

text \<open>
  Two ends of a channel: messages are created, filled and written at one (\<open>Channel_Write\<close>), the bytes and handles that
  the socket took arrive in any pieces, and the other end reads them (\<open>Channel_Read\<close>).
\<close>

section \<open>Making a message\<close>

definition message_for :: "bool \<Rightarrow> sent_message \<Rightarrow> channel_message \<Rightarrow> bool" where
  "message_for ipcz x m \<longleftrightarrow> wire m = frame_of ipcz x \<and> msg_fds m = sm_handles x"

lemma TryConstruct_handles: "TryConstruct k t = Some (Some m) \<Longrightarrow> handle_vector m = []"
  by (auto simp: TryConstruct_def Let_def split: bind_splits if_splits)

lemma CreateMessage_handles: "CreateMessage use_trivial fresh c k mh t = Some m \<Longrightarrow> handle_vector m = []"
  by (auto simp: CreateMessage_def ComplexMessage_def Let_def TryConstruct_handles split: bind_splits if_splits option.splits)

lemma trivial_no_handles: "CreateMessage use_trivial fresh c k mh t = Some m \<Longrightarrow> msg_trivial m \<Longrightarrow> mh = 0"
  by (auto simp: CreateMessage_def ComplexMessage_def Let_def split: bind_splits if_splits option.splits)

lemma poke_handles:
  assumes "t \<noteq> NORMAL_LEGACY"
  shows "poke 8 (put16 k) (frame_bytes t n xs @ rest) = Some (frame_bytes t k xs @ rest)"
proof -
  define pre where "pre = put32 (of_nat (header_size t + length xs)) @ put16 16 @ put16 t"
  have f: "frame_bytes t j xs @ rest = pre @ put16 j @ replicate 6 0 @ xs @ rest" for j
    using assms by (simp only: frame_bytes_def header_bytes_def pre_def append_assoc if_False)
  have "length pre = 8" by (simp add: pre_def)
  then show ?thesis by (simp only: f poke_skip [of pre 8] poke_fields order_refl diff_self_eq_0 option.map)
qed

text \<open>Setting as many handles as the message was created for.\<close>

lemma SetHandles_ok:
  assumes "carries t (if t = NORMAL_LEGACY then of_nat (length hs) else 0) xs m" "\<not> msg_trivial m" "msg_max_handles m = length hs"
    "handle_vector m = []" "length hs < 65536"
  shows "\<exists>m'. SetHandles hs m = Some m' \<and> wire m' = frame_bytes t (of_nat (length hs)) xs \<and> msg_fds m' = hs"
proof -
  obtain rest where d: "msg_data m = frame_bytes t (if t = NORMAL_LEGACY then of_nat (length hs) else 0) xs @ rest"
    using assms(1) by (auto simp: carries_def)
  have sz: "msg_size m = header_size t + length xs" using assms(1) by (simp add: carries_def)
  have w: "wire m = frame_bytes t (if t = NORMAL_LEGACY then of_nat (length hs) else 0) xs" using assms(1) by (rule carries_wire)
  note legacy = carries_fields(1) [OF assms(1)]
  have n: "unat (of_nat (length hs) :: u16) = length hs" using assms(5) by (simp add: unat_of_nat)
  have z: "(of_nat (length hs) :: u16) \<noteq> 0" if "hs \<noteq> []"
  proof
    assume e: "(of_nat (length hs) :: u16) = 0"
    show False using n that unfolding e by simp
  qed
  show ?thesis
  proof (cases "hs = []")
    case True
    then have "SetHandles hs m = Some m" using assms(2,3) legacy by (simp add: SetHandles_def d frame_fields)
    moreover have "wire m = frame_bytes t (of_nat (length hs)) xs" using w True by simp
    moreover have "msg_fds m = hs" using True assms(4) by (simp add: msg_fds_def TakeHandles_def)
    ultimately show ?thesis by blast
  next
    case False
    let ?m = "m\<lparr>msg_data := frame_bytes t (of_nat (length hs)) xs @ rest, handle_vector := hs\<rparr>"
    have "SetHandles hs m = Some ?m"
    proof (cases "t = NORMAL_LEGACY")
      case True
      then have "peek16 4 (msg_data m) = Some (of_nat (length hs))" by (simp add: d frame_fields)
      moreover have "?m = m\<lparr>handle_vector := hs\<rparr>" using d True by (cases m) simp
      ultimately show ?thesis using assms(2) legacy z [OF False] n True by (simp add: SetHandles_def)
    next
      case nl: False
      then have "poke 8 (put16 (of_nat (length hs))) (msg_data m) = Some (frame_bytes t (of_nat (length hs)) xs @ rest)"
        by (simp only: d poke_handles if_False not_False_eq_True)
      then show ?thesis using assms(2,3) legacy nl False by (simp add: SetHandles_def)
    qed
    moreover have "wire ?m = frame_bytes t (of_nat (length hs)) xs" by (simp add: wire_def sz)
    moreover have "msg_fds ?m = hs" using assms(2) by (simp add: msg_fds_def TakeHandles_def)
    ultimately show ?thesis by blast
  qed
qed

text \<open>A message made the way clients make it, created for the number of its handles, filled, and given the handles,
  has the bytes that the receiver's parser understands, whichever class implements it.\<close>

theorem channel_message_made:
  assumes "alloc_ok fresh" "sendable x"
  shows "\<exists>m m2 m3. CreateMessage use_trivial fresh (length (sm_payload x)) (length (sm_payload x)) (length (sm_handles x)) (sm_type x) = Some m \<and>
    write_payload (sm_payload x) m = Some m2 \<and> SetHandles (sm_handles x) m2 = Some m3 \<and> message_for False x m3"
proof -
  let ?t = "sm_type x" and ?xs = "sm_payload x" and ?hs = "sm_handles x"
  have h: "header_size ?t + length ?xs < 2 ^ 32" using assms(2) header_size_cases [of ?t] by (auto simp: sendable_def)
  obtain m ys where m: "CreateMessage use_trivial fresh (length ?xs) (length ?xs) (length ?hs) ?t = Some m"
    "carries ?t (if ?t = NORMAL_LEGACY then of_nat (length ?hs) else 0) ys m" "length ys = length ?xs" "\<not> msg_trivial m \<Longrightarrow> msg_max_handles m = length ?hs"
    using CreateMessage_ok [OF assms(1) order_refl h, of use_trivial "length ?hs"] by metis
  obtain m2 where m2: "write_payload ?xs m = Some m2" "msg_trivial m2 = msg_trivial m" "msg_max_handles m2 = msg_max_handles m"
    "handle_vector m2 = handle_vector m" "carries ?t (if ?t = NORMAL_LEGACY then of_nat (length ?hs) else 0) ?xs m2"
    using write_payload_ok [OF m(2), of ?xs] m(3) by auto
  have "\<exists>m3. SetHandles ?hs m2 = Some m3 \<and> message_for False x m3"
  proof (cases "msg_trivial m")
    case True
    then have hs: "?hs = []" using trivial_no_handles [OF m(1)] by simp
    then have "wire m2 = frame_of False x" using carries_wire [OF m2(5)] by (simp add: frame_of_def)
    then show ?thesis using hs m2(2) True by (simp add: SetHandles_def message_for_def msg_fds_def TakeHandles_def)
  next
    case False
    then show ?thesis
      using SetHandles_ok [OF m2(5)] m2(2-4) m(4) CreateMessage_handles [OF m(1)] assms(2)
      by (simp add: message_for_def frame_of_def sendable_def)
  qed
  then show ?thesis using m(1) m2(1) by blast
qed

definition demo_sent :: sent_message where
  "demo_sent = \<lparr>sm_type = NORMAL_LEGACY, sm_payload = [5, 6, 7], sm_handles = [42]\<rparr>"

text \<open>The messages of a channel for ipcz.\<close>

lemma ipcz_message_made:
  assumes "alloc_ok fresh"
  shows "\<exists>m. CreateIpczMessage fresh (sm_payload x) (sm_handles x) = Some m \<and> message_for True x m"
  using CreateIpczMessage_ok [OF assms, of "sm_payload x" "sm_handles x"] by (simp add: message_for_def frame_of_def msg_fds_def)

section \<open>From one end to the other\<close>

lemma wires_of_messages:
  "list_all2 (message_for ipcz) xs ms \<Longrightarrow> wires ms = stream_of ipcz xs \<and> wire_fds ms = handles_of xs"
  by (induction rule: list_all2_induct) (simp_all add: wires_def wire_fds_def stream_of_def handles_of_def message_for_def)

text \<open>C2: Messages that one end of a channel accepted arrive at the other end unchanged, with their handles, in the order
  of the calls, none twice and none invented, however the two sockets divide the data and whichever of the two kinds of
  headers the channel has.  What has been delivered is a beginning of what was written, as long as the flush at the start
  did not fail (the code ignores that failure and goes on, \<open>start_ignores_failure\<close>) and, with \<open>writev\<close>, no error was
  reported to the delegate.  It is all of it once the queue is empty and everything sent has been read, if also no write
  failed: after a failed write (\<open>reject_writes\<close>) the rest of the accepted messages is lost.\<close>

theorem channel_end_to_end:
  assumes "alloc_ok fresh" "writer_step\<^sup>*\<^sup>* (new_writer wv script, []) (s, ms)" "\<not> start_failed s" "\<not> (use_writev s \<and> error_reported s)"
    "list_all2 (message_for (is_for_ipcz r)) xs ms" "list_all sendable xs"
    "listening r" "incoming_fds r = []" "delivered_messages r = []"
    "prefix (read_bytes rds) (sent_bytes s)" "prefix (read_fds rds) (sent_fds s)" "list_all read_fits rds"
  shows "\<exists>b' r'. read_all fresh grow rds (ReadBuffer fresh) r = Some (True, b', r') \<and> prefix (delivered_messages r') (contents_of xs) \<and>
    (\<not> reject_writes s \<and> outgoing_messages s = [] \<and> read_bytes rds = sent_bytes s \<and> read_fds rds = sent_fds s \<longrightarrow>
      delivered_messages r' = contents_of xs)"
proof -
  note w = wires_of_messages [OF assms(5)] and ok = writer_ok_reachable [OF assms(2)]
  have pre: "prefix (read_bytes rds) (stream_of (is_for_ipcz r) xs)" "prefix (read_fds rds) (handles_of xs)"
    using writer_ok_prefix [OF ok assms(3,4)] assms(10,11) w prefix_order.trans by metis+
  obtain b' r' where r: "read_all fresh grow rds (ReadBuffer fresh) r = Some (True, b', r')" "prefix (delivered_messages r') (contents_of xs)"
    "\<And>ms1. prefix ms1 xs \<Longrightarrow> prefix (stream_of (is_for_ipcz r) ms1) (read_bytes rds) \<Longrightarrow> prefix (handles_of ms1) (read_fds rds) \<Longrightarrow>
      prefix (contents_of ms1) (delivered_messages r')"
    using reads_stream [OF assms(1,6,7,8,9) pre assms(12), of grow] by metis
  have "delivered_messages r' = contents_of xs"
    if q: "\<not> reject_writes s" "outgoing_messages s = []" "read_bytes rds = sent_bytes s" "read_fds rds = sent_fds s"
  proof -
    have "sent_bytes s = stream_of (is_for_ipcz r) xs" "sent_fds s = handles_of xs" using ok w q assms(3) by (simp_all add: writer_ok_def writer_live_def flushed_def)
    then show ?thesis using r(3) [of xs] r(2) q(3,4) by (simp add: prefix_order.antisym)
  qed
  then show ?thesis using r(1,2) by blast
qed

text \<open>A socket that takes the first message in two parts.\<close>

definition demo_done_socket :: "nat \<Rightarrow> socket_result" where
  "demo_done_socket i = (if i = 0 then Wrote 4 else Wrote 20)"

definition demo_done_writer :: channel_writer where
  "demo_done_writer = (new_writer False demo_done_socket)\<lparr>socket_calls := 2, sent_bytes := wire demo_channel_message, sent_fds := [42]\<rparr>"

lemma demo_done_write: "ch_Write 4 True demo_channel_message (new_writer False demo_done_socket) = Some demo_done_writer"
proof -
  let ?v = "\<lparr>view_data = wire demo_channel_message, view_offset = 0, view_handles = [42], num_handles_sent = 0\<rparr>"
  have "write_message demo_done_socket ?v 0 [] [] = Some (Written, 2, wire demo_channel_message, [42])"
    by (simp add: write_message.simps Let_def demo_done_socket_def unsent_data_def unsent_fds_def demo_length kMaxSendmsgHandles_def)
  then show ?thesis
    by (simp add: ch_Write_def new_writer_def demo_view demo_done_writer_def numeral_eq_Suc)
qed

theorem channel_end_to_end_witness:
  "\<exists>b' r'. read_all (\<lambda>n. replicate n 0) id demo_reads (ReadBuffer (\<lambda>n. replicate n 0)) demo_receiver = Some (True, b', r') \<and>
     delivered_messages r' = [([5, 6, 7], [42])]"
proof -
  let ?fresh = "\<lambda>n. replicate n (0 :: u8)" and ?s0 = "new_writer False demo_done_socket"
  from writer_step.message [OF demo_fits demo_done_write, of "[]"]
  have w: "writer_step\<^sup>*\<^sup>* (?s0, []) (demo_done_writer, [demo_channel_message])" by (simp add: new_writer_def r_into_rtranclp)
  have "message_for (is_for_ipcz demo_receiver) demo_sent demo_channel_message" by code_simp
  moreover have "sendable demo_sent" by (simp add: sendable_def demo_sent_def)
  ultimately have s: "list_all2 (message_for (is_for_ipcz demo_receiver)) [demo_sent] [demo_channel_message]" "list_all sendable [demo_sent]" by simp_all
  have s1: "\<not> start_failed demo_done_writer" "\<not> reject_writes demo_done_writer" "outgoing_messages demo_done_writer = []" "\<not> (use_writev demo_done_writer \<and> error_reported demo_done_writer)"
    by (simp_all add: demo_done_writer_def new_writer_def)
  have rd: "read_bytes demo_reads = sent_bytes demo_done_writer" "read_fds demo_reads = sent_fds demo_done_writer"
    by (simp_all add: demo_done_writer_def) code_simp+
  have fit: "list_all read_fits demo_reads" by (simp add: demo_reads_def read_fits_def kReadBufferSize_def)
  have r: "alloc_ok ?fresh" "listening demo_receiver" "incoming_fds demo_receiver = []" "delivered_messages demo_receiver = []"
    by (simp_all add: alloc_ok_def demo_receiver_def listening_def)
  have "contents_of [demo_sent] = [([5, 6, 7], [42])]" by code_simp
  then show ?thesis
    using channel_end_to_end [OF r(1) w s1(1,4) s r(2-4) _ _ fit, of id] rd s1 by auto
qed

end
