(* ===== verification/Spec2Isabelle.thy ===== *)
theory Spec2Isabelle
  imports Threadpool_Concurrent Task_Loop Intrusive_Heap Epoll_Demo Epoll_Lt_Et Kernel_Modules Wire_Client
    Mpmc_Concurrent Thread_Pool Flat_Map Command_Line Checked_Numeric String_View
    Message_Queue Handle_Table Data_Pipe_Stream Watcher_System Port_Control Channel_Transport
begin

text \<open>
  A verification of the code of this repository: the task queues and thread pools, the
  containers, the checked integer arithmetic, the strings and the command line of its
  Chromium-style base library (\<open>src/src/base\<close>), the C thread pool it carries (\<open>src/src/third-party/threadpool.c\<close>),
  its demo programs (\<open>src/src/demo\<close>, \<open>src/src/mmap\<close>, \<open>src/src/test\<close>, \<open>src/fctl-test\<close>), and the
  message queues, handle tables, data pipes, traps, ports and channels of the inter-process communication in
  \<open>src/mojo/core\<close>.

  \<^bold>\<open>How the parts interact.\<close>  Clients post tasks.  \<open>TaskLoop\<close> keeps them in two queues of rings
  (\<open>LazilyDeallocatedDeque\<close>) and runs them on one thread; \<open>ThreadPool\<close> and \<open>threadpool.c\<close> run
  them on several, from a list and from a bounded ring; \<open>mpmc_bounded_queue\<close> passes elements
  between threads without a lock.  \<open>circular_deque\<close> (over \<open>VectorBuffer\<close>), \<open>IntrusiveHeap\<close>,
  \<open>flat_tree\<close> and \<open>flat_map\<close> are the containers of the library.  The numeric templates are
  used by all of it for conversions.  The demos use the operating system only.  In \<open>mojo/core\<close> a
  process holds dispatchers under handles (\<open>HandleTable\<close>); messages that arrive at a port in any
  order are put in order by its \<open>MessageQueue\<close>; a data pipe is two dispatchers, possibly in two
  processes, that share a ring buffer and announce to each other through a port what they wrote
  and read; traps watch dispatchers and tell the program when one becomes ready.  Processes are
  connected by channels, sockets over which messages travel with their handles; the events of ports
  are the contents of such messages.

  \<^bold>\<open>Theories.\<close>

  \<^item> \<open>Sparo_Prelude\<close>: machine words, circular arrays seen as lists, lemmas on lists.
    \<open>Queue_Interfaces\<close>, \<open>Order_Interfaces\<close>, \<open>Map_Interfaces\<close>: the contracts of the components as
    locales (queues, bounded queues with and without a limit on the calls, deques, strict weak orders, keyed maps), with what clients
    get from them; every one is interpreted on the definitions that model the code.
  \<^item> \<open>Threadpool_C\<close> (\<open>threadpool.c\<close>, one call at a time): \<open>threadpool_create\<close>, \<open>threadpool_enqueue\<close>
    (\<open>add\<close>), the loop body of \<open>threadpool_thread\<close>, the two halves of \<open>threadpool_destroy\<close>,
    \<open>threadpool_free\<close>, with every failing allocation and pthread return code.
    \<open>Threadpool_Concurrent\<close>: the same operations interleaved at the granularity of the mutex
    (\<open>pool_step\<close>).  Shown: the error protocol, first-in first-out order, conservation of
    tasks, a graceful shutdown runs everything, no lost wake-up, termination of the joining
    destroy, and that a second destroy deadlocks.
  \<^item> \<open>Circular_Deque\<close> (\<open>containers/circular_deque.h\<close>, \<open>vector_buffer.h\<close>) on an array of
    optional cells; \<open>Lazy_Deque\<close> (\<open>task/lazily_deallocated_deque.h\<close>) as a list of rings.
    Shown: both refine lists, no dead cell is read, insertion and erasure wrap around and
    terminate, shrinking loses nothing.
  \<^item> \<open>Task_Loop\<close> (\<open>task/task_loop.cc\<close>): the thread of the loop as steps (\<open>worker_step\<close>), clients
    and one stopper interleaved (\<open>loop_step\<close>).  Shown: conservation, draining, that a
    waiting loop never runs what is posted later, that \<open>Stop\<close> can hang.
  \<^item> \<open>Intrusive_Heap\<close> (\<open>intrusive_heap.h\<close>): a list of cells with the handle each element was
    told.  Shown: every operation keeps the heap order and all handles; heap sort.
  \<^item> \<open>Mpmc_Queue\<close> (\<open>bounded-mpmc-queue.h\<close>): positions and sequence numbers on 64-bit words,
    each call as steps of one atomic access.  \<open>Mpmc_Concurrent\<close>: any number of calls
    interleaved.  Shown: a bounded queue as long as the signed subtraction of the code does not
    overflow (the positions do not cross \<open>2 ^ 63\<close>), what happens there, and no element lost,
    invented or delivered twice under any interleaving.
  \<^item> \<open>Thread_Pool\<close> (\<open>thread_pool.h\<close>): workers, clients, waiters and \<open>Stop\<close> interleaved.
    Shown: conservation and the count of active tasks, no lost wake-up, termination of \<open>Stop\<close>,
    and that an abandoned task hangs \<open>WaitForAllTasks\<close>.
  \<^item> \<open>Std_Algorithms\<close>: the algorithms of the standard library the flat containers call (binary
    searches, stable sort, unique, merge).  \<open>Flat_Tree\<close>, \<open>Flat_Map\<close> (\<open>containers/flat_tree.h\<close>,
    \<open>flat_map.h\<close>).  Shown: searches, insertions and erasures on sorted vectors; the batch
    insertion equals single insertions; a map up to the equivalence of the comparison.
  \<^item> \<open>Int_Types\<close>: the integer types, conversions and mixed comparisons of C++ (LP64).
    \<open>Safe_Conversions\<close> (\<open>numerics/safe_conversions_impl.h\<close>, \<open>safe_conversions.h\<close>), \<open>Checked_Math\<close>
    (\<open>checked_math_impl.h\<close>, \<open>safe_math_clang_gcc_impl.h\<close>) and \<open>Checked_Numeric\<close>
    (\<open>checked_math.h\<close>): a template parameter is an argument, a specialisation a branch, the
    compiler a parameter.  Shown for all pairs of types: range checks and comparisons are
    exact, saturation clamps, checked operations succeed only with the exact result, and so do
    expressions of all operators, except for the remainder of operands without a common type and
    the negation of unsigned numbers, which are shown to be wrong.
  \<^item> \<open>Command_Line\<close> (\<open>command_line.cc\<close>, POSIX build).  Shown: which arguments become switches,
    that the stored arguments parse back to the same command line, removal of a switch.
  \<^item> \<open>String_Search\<close>: what searching means and the contract of a searching class.
    \<open>String_Piece\<close> (\<open>strings/string_piece.h\<close>, \<open>string_piece.cc\<close>) and \<open>String_View\<close>
    (\<open>string_view.h\<close>, \<open>string_view.cc\<close>): a pointer into an object and a length.  Shown: all
    implementations of a search find the same index, comparison is the lexicographic order,
    slices in range, and what happens out of range.
  \<^item> \<open>Posix_Calls\<close>, \<open>Epoll_Demo\<close> (\<open>demo/epoll_demo.c\<close>), \<open>Epoll_Lt_Et\<close> (\<open>demo/epoll_lt_et.c\<close>),
    \<open>Wire_Client\<close> (\<open>test/client.c\<close>), \<open>Kernel_Modules\<close> (\<open>fctl-test/hello.c\<close>, \<open>test_hell.c\<close>,
    \<open>mmap/mymap.c\<close>): the system is a script of results over which the theorems quantify, a
    program is the trace of its calls.

  \<^item> \<open>Std_Heap\<close>: \<open>push_heap\<close> and \<open>pop_heap\<close> of the standard library.  \<open>Message_Queue\<close>
    (\<open>mojo/core/ports/message_queue.cc\<close>): a heap by sequence number.  Shown: messages come out in
    the order of their numbers without gaps, whatever order they arrive in.
  \<^item> \<open>Mojo_Types\<close>: results, handles and signals.  \<open>Handle_Table\<close> (\<open>mojo/core/handle_table.cc\<close>):
    entries with a busy mark and a cached lookup; dispatchers are references whose virtual
    functions are arguments.  Shown: handles are never given out twice; sending handles in a
    message is all or nothing, and can be undone.
  \<^item> \<open>Ring_Copy\<close>: copies into and out of a ring in two pieces.  \<open>Data_Pipe\<close>
    (\<open>mojo/core/data_pipe_producer_dispatcher.cc\<close>, \<open>data_pipe_consumer_dispatcher.cc\<close>): both ends
    with all their calls, their control messages, closing, transit and serialization.
    \<open>Data_Pipe_Stream\<close>: both ends, the memory and the messages on their way, interleaved
    (\<open>pipe_step\<close>), the calls that end a two-phase access in two steps around the release of the lock.
    Shown: the pipe is a stream of bytes and accounts for its whole capacity, reads and the
    windows of two-phase accesses are at the right place of the stream, an end survives a transfer, amounts are whole elements; and where the code departs from
    its documentation.
  \<^item> \<open>Watchers\<close> (\<open>mojo/core/watch.cc\<close>, \<open>watcher_dispatcher.cc\<close>, \<open>watcher_set.cc\<close>,
    \<open>request_context.cc\<close>): triggers, traps and the watchers of a dispatcher, one definition for
    every section under a lock.  \<open>Watcher_System\<close>: the sections of all calls on one trap
    interleaved (\<open>watch_step\<close>).  Shown: an armed trap misses nothing and fires once, events are
    true and a cancellation is the last, failed arming reports in turn; a race that leaves a
    deleted watch in the set of ready ones.
  \<^item> \<open>Byte_Encoding\<close>: packed little-endian encodings, with the interface of one (\<open>packed\<close>).
    \<open>Port_Events\<close> (\<open>mojo/core/ports/event.cc\<close>): the messages nodes exchange, their serialization and
    their parser.  Shown: what is sent is what arrives; no bytes make the parser read past its buffer
    (the byte of a received \<open>bool\<close> is not checked).
  \<^item> \<open>Port_Control\<close> (\<open>mojo/core/ports/port.cc\<close>, \<open>Node::AcceptEvent\<close>): the events for one port, taken by
    several threads, and the heaps of those that came early (\<open>port_step\<close>).  Shown: events are handled
    one at a time in the order of their senders and numbers, whatever order they arrive in.

  \<^item> \<open>Channel_Message\<close> (\<open>mojo/core/channel.cc\<close>): the messages of channels, their construction, growth and
    parsing, on arrays of bytes whose fresh contents are a parameter; an access outside of an array is
    \<open>None\<close>.  Shown: the bytes of a message do not depend on how it was made, and come back as the
    same payload; parsing is safe on any input.
  \<^item> \<open>Channel_Read\<close> (\<open>channel.cc\<close>, \<open>channel_posix.cc\<close>): the read buffer and the cutting of the
    stream into messages, refined to a reference on lists (\<open>drain_bytes\<close>).  Shown: however the stream is divided into
    reads, the messages that were sent are delivered in order with their handles.
  \<^item> \<open>Channel_Write\<close> (\<open>channel_posix.cc\<close>): the queue of outgoing messages over a socket that takes what it
    likes, with the tasks and watches that bring the channel back to it (\<open>writer_step\<close>).  Shown: messages are sent
    whole and in order, a queued one is never forgotten, flushing ends; where it spins, and
    what a failed flush at the start loses.
  \<^item> \<open>Channel_Transport\<close>: both ends together.  Shown: what was written is what is delivered, also on a channel
    with the headers of ipcz.

  \<^bold>\<open>Conventions.\<close>  Definitions keep the names of the source; where one name stands in several
  classes it has a prefix (\<open>cd_\<close> circular deque, \<open>ld_\<close> lazy deque, \<open>rg_\<close> ring, \<open>ft_\<close> flat tree, \<open>fm_\<close>
  flat map, \<open>tp_\<close> thread pool, \<open>mq_\<close> mpmc queue, \<open>cn_\<close> checked numeric, \<open>cl_\<close> command line,
  \<open>sp_\<close> string piece, \<open>sv_\<close> string view, \<open>ea_\<close> and \<open>ht_\<close> handle table, \<open>p_\<close> and \<open>c_\<close> producer and
  consumer of a data pipe, \<open>rb_\<close> read buffer, \<open>ch_\<close> channel).
  \<open>None\<close> is undefined behaviour, a trap or a call that does not return, as the text before a
  definition says.  Task bodies are recorded, not interpreted.

  \<^bold>\<open>Bounds and fuel.\<close>  Sizes of containers are natural numbers: memory is exhausted before
  they reach the width of \<open>size_t\<close>.  Loops whose end the code does not make obvious run on
  fuel, and the properties prove that the given fuel is enough: shifting in \<open>circular_deque\<close> on
  the capacity, draining in \<open>LazilyDeallocatedDeque\<close> on the size, a call of the mpmc queue that
  is not interfered with on five steps.  The interleaving theorem of the mpmc queue assumes
  fewer than \<open>2 ^ 62\<close> accepted elements, so that tickets do not repeat while a thread is
  suspended and the signed subtraction does not overflow; the sequential one assumes that the
  positions, as signed numbers, stay below \<open>2 ^ 63\<close> (\<open>mq_room\<close>; \<open>dequeue_signed_overflow\<close> is the
  case beyond).  Atomic accesses are sequentially
  consistent; the acquire and release orderings of the source are not distinguished.
  The theorems on data pipes assume a capacity of at most \<open>2 ^ 31\<close> bytes, beyond which the
  code's sums of offset and amount wrap around (\<open>offset_wraps\<close>), and that a two-phase read is ended
  from one thread at a time (\<open>end_read_twice\<close>); those on the message queue that
  sequence numbers do not roll over.  Sizes of channel messages fit in the 32 bits of their headers.
  The socket of a channel is a function from the number of a call to its result, so that it never
  runs out; the loops on it are partial functions, and that they return is proved.
  Writing and flushing a channel call each other; their fuel is the depth of the calls, and the
  length of the queue and four is enough.  With \<open>writev\<close> no fuel is enough while
  the socket is full (\<open>writev_flush_spins\<close>), so that the steps of \<open>writer_step\<close> are the calls that return.  The steps
  go on after a write that failed and after a start whose flush failed.  The theorems on the order and
  the delivery of messages exclude a start whose flush failed (\<open>start_failed\<close>, which the code ignores:
  \<open>start_ignores_failure\<close>) and, with \<open>writev\<close>, an error that was reported to the delegate; that everything
  accepted arrives needs also that no write failed (\<open>reject_writes\<close>).  Arming a trap is shown to succeed for
  traps to which no addition was taken back (\<open>dangling_ready_watch\<close>).

  \<^bold>\<open>Not modelled.\<close>  Floating-point specialisations of the numeric templates; the Windows
  branches of the command line; debug-only checks (\<open>DCHECK_IS_ON\<close>, iterator generations);
  allocation failure in C++ containers; output of strings to streams;
  \<open>threading/platform_thread\<close> (thin wrappers of system calls); configuration headers; and the
  libraries the repository only carries (abseil, spdlog, robin-map, nlohmann json, HFSM2,
  libc++, libunwind).  Of \<open>mojo\<close>: the handlers of the node and its controller, the
  entry points of the core, the shutdown of channels, platform
  handles, brokers and the public wrappers, and the branches for other systems than Linux.
\<close>

end
